(* ===== verification/Prelude.thy ===== *)
theory Prelude
  imports Main "HOL-Library.Signed_Division"
begin

text \<open>
  Shared vocabulary of the development: C integer arithmetic on \<open>int\<close> (truncating division
  is the library's \<open>sdiv\<close> and \<open>smod\<close>), the 16-bit \<open>coord\<close> of \<open>include/types.h\<close>, and the
  generic list facts that several components use. The collection \<open>c_arith\<close> turns C
  arithmetic on non-negative operands into \<open>div\<close> and \<open>mod\<close>.
\<close>

named_theorems c_arith "rewriting of C integer arithmetic"

section \<open>C integer arithmetic\<close>

lemma smod_nonneg [c_arith]: "0 \<le> a \<Longrightarrow> 0 < b \<Longrightarrow> a smod b = a mod (b::int)"
  by (cases "a = 0") (simp_all add: smod_int_alt_def)

lemma sdiv_nonneg [c_arith]: "0 \<le> a \<Longrightarrow> 0 < b \<Longrightarrow> a sdiv b = a div (b::int)"
  by (cases "a = 0") (simp_all add: signed_divide_int_def)

lemma smod_even_2 [c_arith]: "a smod 2 = 0 \<longleftrightarrow> even (a::int)"
  by (auto simp: smod_int_alt_def sgn_if)

text \<open>Conversion of an \<open>int\<close> to \<open>coord\<close>, a C \<open>short\<close>.\<close>

definition to_coord :: "int \<Rightarrow> int" where
  "to_coord i = signed_take_bit 15 i"

lemma to_coord_id [c_arith]: "- 32768 \<le> i \<Longrightarrow> i < 32768 \<Longrightarrow> to_coord i = i"
  by (simp add: to_coord_def signed_take_bit_int_eq_self)

text \<open>\<open>abs\<close> of a difference and the residues used by distances.\<close>

lemma mod_diff_sym: "0 < m \<Longrightarrow> \<not> m dvd a \<Longrightarrow> (- a) mod m = m - a mod (m::int)"
  by (simp add: zmod_zminus1_eq_if mod_eq_0_iff_dvd)

section \<open>Lists\<close>

lemma nth_list_update_if:
  "i < length xs \<Longrightarrow> xs[j := y] ! i = (if i = j then y else xs ! i)"
  by simp

lemma filter_list_update_other:
  "i < length xs \<Longrightarrow> \<not> P (xs ! i) \<Longrightarrow> \<not> P y \<Longrightarrow> filter P (xs[i := y]) = filter P xs"
proof (induction xs arbitrary: i)
  case Nil
  then show ?case by simp
next
  case (Cons x xs)
  then show ?case by (cases i) auto
qed

text \<open>A list whose first \<open>i\<close> elements have been replaced by their image.\<close>

definition map_upto :: "('a \<Rightarrow> 'a) \<Rightarrow> nat \<Rightarrow> 'a list \<Rightarrow> 'a list" where
  "map_upto f i xs = map f (take i xs) @ drop i xs"

lemma map_upto_0 [simp]: "map_upto f 0 xs = xs"
  by (simp add: map_upto_def)

lemma map_upto_all [simp]: "map_upto f (length xs) xs = map f xs"
  by (simp add: map_upto_def)

lemma length_map_upto [simp]: "length (map_upto f i xs) = length xs"
  by (simp add: map_upto_def)

lemma map_upto_nth [simp]: "i < length xs \<Longrightarrow> map_upto f i xs ! i = xs ! i"
  by (simp add: map_upto_def nth_append)

lemma map_upto_Suc: "i < length xs \<Longrightarrow> (map_upto f i xs)[i := f (xs ! i)] = map_upto f (Suc i) xs"
  by (simp add: map_upto_def list_update_append take_Suc_conv_app_nth Cons_nth_drop_Suc [symmetric])

lemma map_upto_Suc_same: "i < length xs \<Longrightarrow> f (xs ! i) = xs ! i \<Longrightarrow> map_upto f (Suc i) xs = map_upto f i xs"
  using map_upto_Suc [of i xs f] by (metis list_update_id map_upto_nth)

section \<open>Loops that may fail or not end\<close>

text \<open>A \<open>for\<close> loop over \<open>xs\<close> whose body may not return.\<close>

fun fold_opt :: "('a \<Rightarrow> 's \<Rightarrow> 's option) \<Rightarrow> 'a list \<Rightarrow> 's \<Rightarrow> 's option" where
  "fold_opt f [] s = Some s"
| "fold_opt f (x # xs) s = (case f x s of None \<Rightarrow> None | Some s' \<Rightarrow> fold_opt f xs s')"

lemma fold_opt_append:
  "fold_opt f (xs @ ys) s = (case fold_opt f xs s of None \<Rightarrow> None | Some s' \<Rightarrow> fold_opt f ys s')"
  by (induction xs arbitrary: s) (simp_all split: option.splits)

text \<open>An invariant indexed by how far the loop has got gives its result.\<close>

lemma fold_opt_upt:
  assumes "P 0 s" and "\<And>i s. i < n \<Longrightarrow> P i s \<Longrightarrow> \<exists>s'. f i s = Some s' \<and> P (Suc i) s'"
  shows "\<exists>s'. fold_opt f [0..<n] s = Some s' \<and> P n s'"
  using assms(2)
proof (induction n)
  case 0
  then show ?case using assms(1) by simp
next
  case (Suc n)
  then obtain s' where s': "fold_opt f [0..<n] s = Some s'" "P n s'" by fastforce
  then obtain s'' where "f n s' = Some s''" "P (Suc n) s''" using Suc.prems by blast
  then show ?case using s' by (simp add: fold_opt_append)
qed

section \<open>Linked lists of non-negative numbers\<close>

text \<open>The list a chain of links from \<open>v\<close> represents; -1 ends it.\<close>

fun chain :: "(int \<Rightarrow> int) \<Rightarrow> int \<Rightarrow> int list \<Rightarrow> bool" where
  "chain nxt v [] \<longleftrightarrow> v = - 1"
| "chain nxt v (x # xs) \<longleftrightarrow> v = x \<and> chain nxt (nxt x) xs"

lemma chain_frame: "chain nxt v xs \<Longrightarrow> (\<And>x. x \<in> set xs \<Longrightarrow> nxt' x = nxt x) \<Longrightarrow> chain nxt' v xs"
  by (induction xs arbitrary: v) auto

lemma chain_unique: "chain nxt v xs \<Longrightarrow> chain nxt v ys \<Longrightarrow> (\<forall>x \<in> set xs \<union> set ys. 0 \<le> x) \<Longrightarrow> xs = ys"
proof (induction xs arbitrary: v ys)
  case Nil
  then show ?case by (cases ys) auto
next
  case (Cons x xs)
  then show ?case by (cases ys) auto
qed

lemma chain_unlink:
  assumes "chain nxt v (ys @ u # zs)" "distinct (ys @ u # zs)" "ys \<noteq> []"
    and "\<And>x. x \<noteq> last ys \<Longrightarrow> x \<noteq> u \<Longrightarrow> nxt' x = nxt x" and "nxt' (last ys) = nxt u"
  shows "chain nxt' v (ys @ zs)"
  using assms(1-3,4,5)
proof (induction ys arbitrary: v)
  case (Cons y ys)
  show ?case
  proof (cases "ys = []")
    case True
    then have "chain nxt (nxt u) zs" using Cons.prems by simp
    then have "chain nxt' (nxt u) zs"
    proof (rule chain_frame)
      fix x assume "x \<in> set zs"
      then have "x \<noteq> last (y # ys)" "x \<noteq> u" using Cons.prems(2) True by auto
      then show "nxt' x = nxt x" by (rule Cons.prems(4))
    qed
    then show ?thesis using Cons.prems True by simp
  next
    case False
    have "y \<noteq> last ys" using Cons.prems(2) False by auto
    then have "nxt' y = nxt y" using Cons.prems False by (intro Cons.prems(4)) auto
    moreover have "chain nxt' (nxt y) (ys @ zs)"
      by (rule Cons.IH) (use Cons.prems False in auto)
    ultimately show ?thesis using Cons.prems(1) by simp
  qed
qed simp

text \<open>
  The loop \<open>for (c = first; c >= 0; c = next(c))\<close>, as an interface: a first element, a successor
  and the list of elements they go through.
\<close>

partial_function (option) cursor_loop :: "(int \<Rightarrow> int) \<Rightarrow> (int \<Rightarrow> 's \<Rightarrow> 's) \<Rightarrow> int \<Rightarrow> 's \<Rightarrow> 's option" where
  [code]: "cursor_loop nxt f c s = (if c \<ge> 0 then cursor_loop nxt f (nxt c) (f c s) else Some s)"

locale cursor =
  fixes ok :: "'s \<Rightarrow> bool" and start :: "'s \<Rightarrow> int" and nxt :: "'s \<Rightarrow> int \<Rightarrow> int"
    and items :: "'s \<Rightarrow> int list"
  assumes linked: "ok s \<Longrightarrow> chain (nxt s) (start s) (items s)"
    and nonneg: "ok s \<Longrightarrow> x \<in> set (items s) \<Longrightarrow> 0 \<le> x"
begin

lemma loop_from:
  "chain nx c xs \<Longrightarrow> (\<forall>x \<in> set xs. 0 \<le> x) \<Longrightarrow> cursor_loop nx f c a = Some (fold f xs a)"
proof (induction xs arbitrary: c a)
  case Nil
  then show ?case by (simp add: cursor_loop.simps)
next
  case (Cons x xs)
  then show ?case by (subst cursor_loop.simps) simp
qed

lemma loop: "ok s \<Longrightarrow> cursor_loop (nxt s) f (start s) a = Some (fold f (items s) a)"
  by (rule loop_from [OF linked]) (use nonneg in blast)+

lemma counts: "ok s \<Longrightarrow> cursor_loop (nxt s) (\<lambda>_ n. n + 1) (start s) n = Some (n + int (length (items s)))"
proof -
  have "fold (\<lambda>_ n. n + 1) xs m = m + int (length xs)" for xs :: "int list" and m
    by (induction xs arbitrary: m) simp_all
  then show "ok s \<Longrightarrow> ?thesis" by (simp add: loop)
qed

end

end
