(* ===== verification/Hexmap.thy ===== *)
theory Hexmap
  imports Prelude
begin

text \<open>
  Sector coordinates on the hexagonal torus: \<open>include/xy.h\<close>, \<open>src/lib/common/xy.c\<close>,
  \<open>src/lib/common/mapdist.c\<close> and the direction tables of \<open>src/lib/global/dir.c\<close>.
  \<open>WORLD_X\<close> and \<open>WORLD_Y\<close> are global variables of the server, here the record \<open>world\<close>.
\<close>

record world =
  world_x :: int
  world_y :: int

record natorg =
  nat_xorg :: int
  nat_yorg :: int

record range =
  lx :: int
  ly :: int
  hx :: int
  hy :: int
  width :: int
  height :: int

definition WORLD_SZ :: "world \<Rightarrow> int" where
  "WORLD_SZ w = (world_x w * world_y w) sdiv 2"

definition XYOFFSET :: "world \<Rightarrow> int \<Rightarrow> int \<Rightarrow> int" where
  "XYOFFSET w x y = (y * world_x w + x) sdiv 2"

definition XNORM :: "world \<Rightarrow> int \<Rightarrow> int" where
  "XNORM w x = (if x < 0 then world_x w - 1 - ((- x - 1) smod world_x w) else x smod world_x w)"

definition YNORM :: "world \<Rightarrow> int \<Rightarrow> int" where
  "YNORM w y = (if y < 0 then world_y w - 1 - ((- y - 1) smod world_y w) else y smod world_y w)"

definition xnorm :: "world \<Rightarrow> int \<Rightarrow> int" where
  "xnorm w x = to_coord (XNORM w (to_coord x))"

definition ynorm :: "world \<Rightarrow> int \<Rightarrow> int" where
  "ynorm w y = to_coord (YNORM w (to_coord y))"

definition xrel :: "world \<Rightarrow> natorg \<Rightarrow> int \<Rightarrow> int" where
  "xrel w np absx =
     (let x = to_coord (XNORM w (to_coord absx - nat_xorg np))
      in if x \<ge> world_x w sdiv 2 then to_coord (x - world_x w) else x)"

definition yrel :: "world \<Rightarrow> natorg \<Rightarrow> int \<Rightarrow> int" where
  "yrel w np absy =
     (let y = to_coord (YNORM w (to_coord absy - nat_yorg np))
      in if y \<ge> world_y w sdiv 2 then to_coord (y - world_y w) else y)"

definition xabs :: "world \<Rightarrow> natorg \<Rightarrow> int \<Rightarrow> int" where
  "xabs w np relx =
     (let relx' = to_coord (to_coord relx + nat_xorg np) in to_coord (XNORM w relx'))"

definition yabs :: "world \<Rightarrow> natorg \<Rightarrow> int \<Rightarrow> int" where
  "yabs w np rely =
     (let rely' = to_coord (to_coord rely + nat_yorg np) in to_coord (YNORM w rely'))"

definition xyrelrange :: "world \<Rightarrow> natorg \<Rightarrow> range \<Rightarrow> range" where
  "xyrelrange w np src =
     \<lparr>lx = xrel w np (lx src), ly = yrel w np (ly src),
      hx = xrel w np (hx src), hy = yrel w np (hy src),
      width = width src, height = height src\<rparr>"

definition xyabsrange :: "world \<Rightarrow> natorg \<Rightarrow> range \<Rightarrow> range" where
  "xyabsrange w np src =
     \<lparr>lx = xabs w np (lx src), ly = yabs w np (ly src),
      hx = xabs w np (hx src), hy = yabs w np (hy src),
      width = width src, height = height src\<rparr>"

definition xysize_range :: "world \<Rightarrow> range \<Rightarrow> range" where
  "xysize_range w rp =
     (let wd = (if lx rp > hx rp then world_x w + hx rp + 1 - lx rp else hx rp + 1 - lx rp);
          wd' = (if wd > world_x w then world_x w else wd);
          ht = (if ly rp > hy rp then world_y w + hy rp + 1 - ly rp else hy rp + 1 - ly rp);
          ht' = (if ht > world_y w then world_y w else ht)
      in rp\<lparr>width := wd', height := ht'\<rparr>)"

text \<open>
  The distance \<open>dist\<close> is an \<open>int\<close> that a player may have typed: \<open>None\<close> where \<open>4 * dist\<close> overflows, which is undefined. All the other sums fit
  if it does not.
\<close>

definition fits_int :: "int \<Rightarrow> bool" where
  "fits_int n \<longleftrightarrow> - (2 ^ 31) \<le> n \<and> n < 2 ^ 31"

definition xydist_range :: "world \<Rightarrow> int \<Rightarrow> int \<Rightarrow> int \<Rightarrow> range option" where
  "xydist_range w x y dist =
     (if \<not> fits_int (4 * dist) then None else
      let (lx', hx', wd) =
            (if 4 * dist + 1 < world_x w
             then (xnorm w (x - 2 * dist), xnorm w (x + 2 * dist), 4 * dist + 1)
             else (let l = xnorm w (x - world_x w sdiv 2)
                   in (l, xnorm w (l + world_x w - 1), world_x w)));
          (ly', hy', ht) =
            (if 2 * dist + 1 < world_y w
             then (ynorm w (y - dist), ynorm w (y + dist), 2 * dist + 1)
             else (let l = ynorm w (y - world_y w sdiv 2)
                   in (l, ynorm w (l + world_y w - 1), world_y w)))
      in Some \<lparr>lx = lx', ly = ly', hx = hx', hy = hy', width = wd, height = ht\<rparr>)"

lemma xydist_range_defined: "fits_int (4 * dist) \<Longrightarrow> \<exists>r. xydist_range w x y dist = Some r"
  by (simp add: xydist_range_def case_prod_unfold Let_def)

text \<open>\<open>sctoff\<close> returns -1 after \<open>CANT_HAPPEN\<close> on coordinates of different parity.\<close>

definition sctoff :: "world \<Rightarrow> int \<Rightarrow> int \<Rightarrow> int" where
  "sctoff w x y =
     (if odd (x + y) then - 1 else XYOFFSET w (XNORM w x) (YNORM w y))"

definition sctoff2xy :: "world \<Rightarrow> int \<Rightarrow> int \<times> int" where
  "sctoff2xy w off =
     (let y = to_coord ((off * 2) sdiv world_x w);
          x = to_coord ((off * 2) smod world_x w + y smod 2)
      in (x, y))"

definition xyinrange :: "int \<Rightarrow> int \<Rightarrow> range \<Rightarrow> bool" where
  "xyinrange x y rp =
     (if (if lx rp \<le> hx rp then x < lx rp \<or> x > hx rp else x < lx rp \<and> x > hx rp) then False
      else if (if ly rp \<le> hy rp then y < ly rp \<or> y > hy rp else y < ly rp \<and> y > hy rp) then False
      else True)"

definition deltax :: "world \<Rightarrow> int \<Rightarrow> int \<Rightarrow> int" where
  "deltax w x1 x2 =
     (let dx = \<bar>x1 - x2\<bar> smod world_x w
      in if dx > world_x w sdiv 2 then world_x w - dx else dx)"

definition deltay :: "world \<Rightarrow> int \<Rightarrow> int \<Rightarrow> int" where
  "deltay w y1 y2 =
     (let dy = \<bar>y1 - y2\<bar> smod world_y w
      in if dy > world_y w sdiv 2 then world_y w - dy else dy)"

definition mapdist :: "world \<Rightarrow> int \<Rightarrow> int \<Rightarrow> int \<Rightarrow> int \<Rightarrow> int" where
  "mapdist w x1 y1 x2 y2 =
     (let dx = deltax w x1 x2; dy = deltay w y1 y2
      in if dx > dy then (dx - dy) sdiv 2 + dy else dy)"

text \<open>Directions: \<open>DIR_STOP\<close> is 0, \<open>DIR_FIRST\<close> 1, \<open>DIR_LAST\<close> 6, then view and map.\<close>

definition dirch :: string where
  "dirch = ''hujnbgyvm''"

definition diroff :: "(int \<times> int) list" where
  "diroff = [(0, 0), (1, -1), (2, 0), (1, 1), (-1, 1), (-2, 0), (-1, -1), (0, 0), (0, 0)]"

definition dirindex :: "int list" where
  "dirindex =
     [-1, 4, -1, -1, -1, -1, 5, 0, -1, 2, -1, -1, 8,
      3, -1, -1, -1, -1, -1, -1, 1, 7, -1, -1, 6, -1]"

definition DIR_BACK :: "nat \<Rightarrow> nat" where
  "DIR_BACK dir = (if dir \<ge> 1 + 3 then dir - 3 else dir + 3)"

section \<open>Normalisation\<close>

text \<open>
  The sizes the server accepts: even, and small enough that no intermediate coordinate leaves
  the 16 bits of \<open>coord\<close>.
\<close>

definition world_ok :: "world \<Rightarrow> bool" where
  "world_ok w \<longleftrightarrow> 0 < world_x w \<and> even (world_x w) \<and> world_x w \<le> 16384
     \<and> 0 < world_y w \<and> even (world_y w) \<and> world_y w \<le> 16384"

lemma world_okD:
  assumes "world_ok w"
  shows "0 < world_x w" "even (world_x w)" "world_x w \<le> 16384"
    and "0 < world_y w" "even (world_y w)" "world_y w \<le> 16384"
  using assms by (simp_all add: world_ok_def)

lemma norm_mod:
  assumes "0 < (m::int)"
  shows "(if x < 0 then m - 1 - ((- x - 1) smod m) else x smod m) = x mod m"
proof (cases "x < 0")
  case True
  then have "(- x - 1) smod m = (- x - 1) mod m"
    using assms by (simp add: c_arith)
  moreover have "m - 1 - ((- x - 1) mod m) = x mod m"
  proof -
    define r where "r = (- x - 1) mod m"
    have r: "0 \<le> r" "r < m" using assms by (simp_all add: r_def)
    have "x = (m - 1 - r) + m * (- ((- x - 1) div m) - 1)"
      using minus_mult_div_eq_mod [of "- x - 1" m] by (simp add: r_def algebra_simps)
    then have "x mod m = (m - 1 - r) mod m"
      by (metis mod_mult_self2)
    also have "\<dots> = m - 1 - r" using r by simp
    finally show ?thesis by (simp add: r_def)
  qed
  ultimately show ?thesis using True by simp
next
  case False
  then show ?thesis using assms by (simp add: c_arith)
qed

lemma XNORM_mod: "0 < world_x w \<Longrightarrow> XNORM w x = x mod world_x w"
  unfolding XNORM_def by (rule norm_mod)

lemma YNORM_mod: "0 < world_y w \<Longrightarrow> YNORM w y = y mod world_y w"
  unfolding YNORM_def by (rule norm_mod)

lemma norm_coord [simp]:
  "world_ok w \<Longrightarrow> to_coord (x mod world_x w) = x mod world_x w"
  "world_ok w \<Longrightarrow> to_coord (x mod world_y w) = x mod world_y w"
  using pos_mod_bound [of "world_x w" x] pos_mod_sign [of "world_x w" x]
    pos_mod_bound [of "world_y w" x] pos_mod_sign [of "world_y w" x]
  by (auto simp: world_ok_def intro!: to_coord_id simp del: pos_mod_bound pos_mod_sign)

lemma xnorm_mod: "world_ok w \<Longrightarrow> - 32768 \<le> x \<Longrightarrow> x < 32768 \<Longrightarrow> xnorm w x = x mod world_x w"
  by (simp add: xnorm_def to_coord_id XNORM_mod world_okD)

lemma ynorm_mod: "world_ok w \<Longrightarrow> - 32768 \<le> y \<Longrightarrow> y < 32768 \<Longrightarrow> ynorm w y = y mod world_y w"
  by (simp add: ynorm_def to_coord_id YNORM_mod world_okD)

text \<open>A normalised sector position: the one representative the sector file uses.\<close>

definition sector_xy :: "world \<Rightarrow> int \<Rightarrow> int \<Rightarrow> bool" where
  "sector_xy w x y \<longleftrightarrow> 0 \<le> x \<and> x < world_x w \<and> 0 \<le> y \<and> y < world_y w \<and> even (x + y)"

lemma even_mod_even: "even (m::int) \<Longrightarrow> even (x mod m) = even x"
  by (simp add: dvd_mod_iff)

lemma mod_wrap:
  assumes "0 \<le> c" "c < (m::int)" "- m \<le> e" "e \<le> m"
  shows "(c + e) mod m = (if c + e < 0 then c + e + m else if c + e \<ge> m then c + e - m else c + e)"
proof -
  have "(c + e + m) mod m = c + e + m" if "c + e < 0"
    using that assms by (intro mod_pos_pos_trivial) auto
  moreover have "(c + e - m) mod m = c + e - m" if "c + e \<ge> m"
    using that assms by (intro mod_pos_pos_trivial) auto
  ultimately show ?thesis using assms by auto
qed

section \<open>Offsets\<close>

lemma XYOFFSET_twice:
  assumes "world_ok w" "sector_xy w x y"
  shows "XYOFFSET w x y * 2 = y * world_x w + (x - x mod 2)"
proof -
  have W: "even (world_x w)" "0 < world_x w" using assms(1) by (simp_all add: world_okD)
  have nn: "0 \<le> y * world_x w + x" using assms W by (simp add: sector_xy_def)
  have "XYOFFSET w x y = (y * world_x w + x) div 2"
    using nn by (simp add: XYOFFSET_def c_arith)
  moreover have "(y * world_x w + x) mod 2 = x mod 2"
    using W by (simp add: mod_2_eq_odd)
  ultimately show ?thesis by (metis add_diff_eq minus_mod_eq_div_mult)
qed

lemma sctoff2xy_XYOFFSET:
  assumes ok: "world_ok w" and s: "sector_xy w x y"
  shows "sctoff2xy w (XYOFFSET w x y) = (x, y)"
proof -
  let ?W = "world_x w"
  have W: "even ?W" "0 < ?W" "?W \<le> 16384" "0 < world_y w" "world_y w \<le> 16384"
    using ok by (simp_all add: world_okD)
  have xy: "0 \<le> x" "x < ?W" "0 \<le> y" "y < world_y w" "even (x + y)"
    using s by (simp_all add: sector_xy_def)
  define r where "r = x - x mod 2"
  have r: "0 \<le> r" "r < ?W" "r + x mod 2 = x"
    using xy pos_mod_bound [of 2 x] pos_mod_sign [of 2 x] zmod_le_nonneg_dividend [of x 2]
    by (auto simp: r_def simp del: pos_mod_bound pos_mod_sign)
  have off: "XYOFFSET w x y * 2 = y * ?W + r"
    using XYOFFSET_twice [OF ok s] by (simp add: r_def)
  have nn: "0 \<le> y * ?W + r" using xy r W by simp
  have "(y * ?W + r) div ?W = y" using r W by simp
  then have d: "(XYOFFSET w x y * 2) sdiv ?W = y"
    unfolding off by (subst sdiv_nonneg [OF nn W(2)])
  have "(y * ?W + r) mod ?W = r" using r W by simp
  then have m: "(XYOFFSET w x y * 2) smod ?W = r"
    unfolding off by (subst smod_nonneg [OF nn W(2)])
  have "y mod 2 = x mod 2" using xy(5) by presburger
  then have p: "y smod 2 = x mod 2" using xy(3) by (simp add: smod_nonneg)
  have c: "to_coord y = y" "to_coord x = x" using xy W by (simp_all add: to_coord_id)
  have "r + y smod 2 = x" using p r(3) by simp
  then show ?thesis by (simp only: sctoff2xy_def Let_def d m c)
qed

lemma XYOFFSET_bounds:
  assumes ok: "world_ok w" and s: "sector_xy w x y"
  shows "0 \<le> XYOFFSET w x y" "XYOFFSET w x y < WORLD_SZ w"
proof -
  let ?W = "world_x w" and ?H = "world_y w"
  have W: "even ?W" "0 < ?W" "0 < ?H" using ok by (simp_all add: world_okD)
  have xy: "0 \<le> x" "x < ?W" "0 \<le> y" "y < ?H" using s by (simp_all add: sector_xy_def)
  have off: "XYOFFSET w x y * 2 = y * ?W + (x - x mod 2)" by (rule XYOFFSET_twice [OF ok s])
  have "0 \<le> x - x mod 2" "x - x mod 2 < ?W"
    using xy pos_mod_sign [of 2 x] zmod_le_nonneg_dividend [of x 2] by linarith+
  moreover have "y * ?W + ?W \<le> ?H * ?W"
    using xy W mult_right_mono [of "y + 1" ?H ?W] by (simp add: algebra_simps)
  moreover have "0 \<le> y * ?W" using xy W by simp
  moreover have "WORLD_SZ w * 2 = ?W * ?H"
    using W by (auto simp: WORLD_SZ_def c_arith)
  ultimately have "0 \<le> XYOFFSET w x y * 2" "XYOFFSET w x y * 2 < WORLD_SZ w * 2"
    using off by (simp_all add: mult.commute)
  then show "0 \<le> XYOFFSET w x y" "XYOFFSET w x y < WORLD_SZ w" by simp_all
qed

lemma sector_xy_norm:
  "world_ok w \<Longrightarrow> even (x + y) \<Longrightarrow> sector_xy w (x mod world_x w) (y mod world_y w)"
  by (simp add: sector_xy_def world_okD even_mod_even)

lemma sctoff_XYOFFSET:
  "world_ok w \<Longrightarrow> even (x + y) \<Longrightarrow> sctoff w x y = XYOFFSET w (x mod world_x w) (y mod world_y w)"
  by (simp add: sctoff_def XNORM_mod YNORM_mod world_okD)

lemma sctoff_sector [simp]: "world_ok w \<Longrightarrow> sector_xy w x y \<Longrightarrow> sctoff w x y = XYOFFSET w x y"
  by (simp add: sctoff_XYOFFSET sector_xy_def)

lemma XYOFFSET_inj:
  assumes "world_ok w" "sector_xy w x y" "sector_xy w x' y'" "XYOFFSET w x y = XYOFFSET w x' y'"
  shows "x = x' \<and> y = y'"
  using sctoff2xy_XYOFFSET [OF assms(1,2)] sctoff2xy_XYOFFSET [OF assms(1,3)] assms(4)
  by (metis prod.inject)

lemma sctoff2xy_sector:
  assumes ok: "world_ok w" and off: "0 \<le> off" "off < WORLD_SZ w"
    and xy: "sctoff2xy w off = (x, y)"
  shows "sector_xy w x y \<and> XYOFFSET w x y = off"
proof -
  let ?W = "world_x w" and ?H = "world_y w"
  have W: "even ?W" "0 < ?W" "?W \<le> 16384" "0 < ?H" "?H \<le> 16384"
    using ok by (simp_all add: world_okD)
  have SZ: "WORLD_SZ w * 2 = ?W * ?H" using W by (auto simp: WORLD_SZ_def c_arith)
  define q r where "q = (off * 2) div ?W" and "r = (off * 2) mod ?W"
  have qr: "off * 2 = q * ?W + r" "0 \<le> r" "r < ?W" "0 \<le> q"
    using W off by (simp_all add: q_def r_def pos_imp_zdiv_nonneg_iff)
  have "q * ?W \<le> off * 2" "off * 2 < WORLD_SZ w * 2" using qr off by linarith+
  then have "q * ?W < ?H * ?W" using SZ by (simp add: mult.commute)
  then have q: "q < ?H" using W by simp
  have "even (q * ?W + r)" using qr(1) by (metis dvd_triv_right)
  then have er: "even r" using W by simp
  then have r2: "r + q mod 2 < ?W"
    using qr W pos_mod_bound [of 2 q] by (cases "even q") (auto elim!: evenE oddE)
  have nn: "0 \<le> off * 2" using off by simp
  have d: "(off * 2) sdiv ?W = q" unfolding q_def by (rule sdiv_nonneg [OF nn W(2)])
  have m: "(off * 2) smod ?W = r" unfolding r_def by (rule smod_nonneg [OF nn W(2)])
  have p: "q smod 2 = q mod 2" using qr(4) by (simp add: smod_nonneg)
  have "0 \<le> q mod 2" by simp
  then have c: "to_coord q = q" "to_coord (r + q mod 2) = r + q mod 2"
    using q qr r2 W by (auto intro!: to_coord_id)
  have "x = r + q mod 2" "y = q"
    using xy by (auto simp: sctoff2xy_def Let_def d m c p)
  moreover have "even (r + q mod 2 + q)" using er by (simp add: mod_2_eq_odd)
  ultimately have s: "sector_xy w x y"
    using qr q r2 pos_mod_sign [of 2 q] by (simp add: sector_xy_def)
  have "x - x mod 2 = r"
    using \<open>x = r + q mod 2\<close> er by (cases "even q") (auto elim!: evenE simp: odd_iff_mod_2_eq_one)
  then have "XYOFFSET w x y * 2 = off * 2"
    using XYOFFSET_twice [OF ok s] qr(1) \<open>y = q\<close> by simp
  with s show ?thesis by simp
qed

section \<open>Distance\<close>

text \<open>
  Circular distance modulo \<open>m\<close>, and the hexagonal distance of two non-negative offsets. Both
  are the closed forms of what \<open>deltax\<close>, \<open>deltay\<close> and \<open>mapdist\<close> compute.
\<close>

definition circ :: "int \<Rightarrow> int \<Rightarrow> int" where
  "circ m d = min (d mod m) (m - d mod m)"

definition hexd :: "int \<Rightarrow> int \<Rightarrow> int" where
  "hexd a b = (if a > b then (a - b) div 2 + b else b)"

lemma circ_minus: "0 < m \<Longrightarrow> circ m (- d) = circ m d"
  unfolding circ_def
  by (cases "m dvd d") (simp_all add: mod_diff_sym min.commute dvd_imp_mod_0)

lemma circ_abs: "0 < m \<Longrightarrow> circ m \<bar>d\<bar> = circ m d"
  by (cases "0 \<le> d") (simp_all add: circ_minus)

lemma delta_circ:
  assumes "0 < (m::int)" "even m"
  shows "(let dx = \<bar>a - b\<bar> smod m in if dx > m sdiv 2 then m - dx else dx) = circ m (a - b)"
proof -
  have "\<bar>a - b\<bar> smod m = \<bar>a - b\<bar> mod m" using assms by (simp add: smod_nonneg)
  moreover have "m sdiv 2 = m div 2" using assms by (simp add: sdiv_nonneg)
  moreover have "(let dx = \<bar>a - b\<bar> mod m in if dx > m div 2 then m - dx else dx) = circ m \<bar>a - b\<bar>"
    using assms by (auto simp: circ_def Let_def min_def elim!: evenE)
  ultimately show ?thesis using assms by (simp add: circ_abs)
qed

lemma deltax_circ: "world_ok w \<Longrightarrow> deltax w a b = circ (world_x w) (a - b)"
  unfolding deltax_def by (rule delta_circ) (simp_all add: world_okD)

lemma deltay_circ: "world_ok w \<Longrightarrow> deltay w a b = circ (world_y w) (a - b)"
  unfolding deltay_def by (rule delta_circ) (simp_all add: world_okD)

lemma circ_nonneg [simp]: "0 < m \<Longrightarrow> 0 \<le> circ m d"
  using pos_mod_bound [of m d] pos_mod_sign [of m d]
  by (simp add: circ_def del: pos_mod_bound pos_mod_sign)

lemma mapdist_hexd:
  assumes "world_ok w"
  shows "mapdist w x1 y1 x2 y2 = hexd (circ (world_x w) (x1 - x2)) (circ (world_y w) (y1 - y2))"
  using assms
  by (simp add: mapdist_def deltax_circ deltay_circ hexd_def Let_def sdiv_nonneg)

lemma mapdist_hexd':
  assumes "world_ok w"
  shows "mapdist w x1 y1 x2 y2 = hexd (circ (world_x w) (x2 - x1)) (circ (world_y w) (y2 - y1))"
  using circ_minus [of "world_x w" "x1 - x2"] circ_minus [of "world_y w" "y1 - y2"] assms
  by (simp add: mapdist_hexd world_okD)

lemma circ_mod: "circ m (d mod m) = circ m d"
  by (simp add: circ_def)

lemma circ_cong: "d mod m = e mod m \<Longrightarrow> circ m d = circ m e"
  by (simp add: circ_def)

text \<open>The circular distance is the size of the smallest representative.\<close>

lemma circ_rep:
  assumes "0 < m"
  obtains r where "r mod m = d mod m" "circ m d = \<bar>r\<bar>" "\<bar>r\<bar> * 2 \<le> m"
proof (cases "d mod m \<le> m - d mod m")
  case True
  with assms show ?thesis by (intro that [of "d mod m"]) (auto simp: circ_def)
next
  case False
  have "(d mod m - m) mod m = d mod m" by (simp add: mod_diff_right_eq)
  with False assms show ?thesis
    using pos_mod_bound [of m d]
    by (intro that [of "d mod m - m"]) (auto simp: circ_def simp del: pos_mod_bound)
qed

lemma circ_le:
  assumes "0 < m" shows "circ m d \<le> \<bar>d\<bar>"
proof -
  have "circ m \<bar>d\<bar> \<le> \<bar>d\<bar> mod m" by (simp add: circ_def)
  also have "\<dots> \<le> \<bar>d\<bar>" by (simp add: zmod_le_nonneg_dividend)
  finally show ?thesis using assms by (simp add: circ_abs)
qed

lemma circ_triangle:
  assumes "0 < m" shows "circ m (d + e) \<le> circ m d + circ m e"
proof -
  obtain r where r: "r mod m = d mod m" "circ m d = \<bar>r\<bar>" using circ_rep [OF assms] by blast
  obtain s where s: "s mod m = e mod m" "circ m e = \<bar>s\<bar>" using circ_rep [OF assms] by blast
  have "circ m (d + e) = circ m (r + s)" by (rule circ_cong) (metis mod_add_eq r(1) s(1))
  also have "\<dots> \<le> \<bar>r + s\<bar>" by (rule circ_le [OF assms])
  finally show ?thesis using r s by linarith
qed

lemma circ_even: "0 < m \<Longrightarrow> even m \<Longrightarrow> even (circ m d) = even d"
  by (auto simp: circ_def min_def even_mod_even)

lemma circ_0: "0 < m \<Longrightarrow> circ m d = 0 \<longleftrightarrow> d mod m = 0"
  using pos_mod_bound [of m d] pos_mod_sign [of m d]
  by (auto simp: circ_def min_def simp del: pos_mod_bound pos_mod_sign)

lemma hexd_max: "hexd a b = max b ((a + b) div 2)"
  unfolding hexd_def max_def by presburger

lemma hexd_mono: "a \<le> a' \<Longrightarrow> b \<le> b' \<Longrightarrow> hexd a b \<le> hexd a' b'"
  unfolding hexd_max max_def by presburger

lemma hexd_bounds: "0 \<le> a \<Longrightarrow> 0 \<le> b \<Longrightarrow> even (a + b) \<Longrightarrow> a \<le> 2 * hexd a b - b \<and> b \<le> hexd a b"
  unfolding hexd_max max_def by presburger

lemma hexd_add:
  assumes "even (a + b)" "even (a' + b')"
  shows "hexd (a + a') (b + b') \<le> hexd a b + hexd a' b'"
proof -
  obtain k k' where k: "a + b = 2 * k" "a' + b' = 2 * k'"
    using assms unfolding dvd_def by blast
  then have "a + a' + (b + b') = 2 * (k + k')" by simp
  then have "(a + a' + (b + b')) div 2 = k + k'" by simp
  moreover have "(a + b) div 2 = k" "(a' + b') div 2 = k'" using k by simp_all
  ultimately show ?thesis unfolding hexd_max by linarith
qed

text \<open>Consequences for \<open>mapdist\<close>.\<close>

lemma mapdist_triangle:
  assumes ok: "world_ok w" and e: "even (x1 + y1)" "even (x2 + y2)" "even (x3 + y3)"
  shows "mapdist w x1 y1 x3 y3 \<le> mapdist w x1 y1 x2 y2 + mapdist w x2 y2 x3 y3"
proof -
  let ?a = "\<lambda>p q. circ (world_x w) (p - q)" and ?b = "\<lambda>p q. circ (world_y w) (p - q)"
  have W: "0 < world_x w" "even (world_x w)" "0 < world_y w" "even (world_y w)"
    using ok by (simp_all add: world_okD)
  have "hexd (?a x1 x3) (?b y1 y3) \<le> hexd (?a x1 x2 + ?a x2 x3) (?b y1 y2 + ?b y2 y3)"
    using circ_triangle [OF W(1), of "x1 - x2" "x2 - x3"]
      circ_triangle [OF W(3), of "y1 - y2" "y2 - y3"] by (intro hexd_mono) simp_all
  also have "\<dots> \<le> hexd (?a x1 x2) (?b y1 y2) + hexd (?a x2 x3) (?b y2 y3)"
    using W e by (intro hexd_add) (simp_all add: circ_even)
  finally show ?thesis by (simp add: mapdist_hexd [OF ok])
qed

lemma mapdist_sym: "world_ok w \<Longrightarrow> mapdist w x1 y1 x2 y2 = mapdist w x2 y2 x1 y1"
  using circ_minus [of "world_x w" "x1 - x2"] circ_minus [of "world_y w" "y1 - y2"]
  by (simp add: mapdist_hexd world_okD)

lemma mapdist_nonneg: "world_ok w \<Longrightarrow> 0 \<le> mapdist w x1 y1 x2 y2"
  by (simp add: mapdist_hexd hexd_max world_okD le_max_iff_disj)

lemma mapdist_0:
  assumes ok: "world_ok w" and s: "sector_xy w x1 y1" "sector_xy w x2 y2"
  shows "mapdist w x1 y1 x2 y2 = 0 \<longleftrightarrow> x1 = x2 \<and> y1 = y2"
proof -
  have W: "0 < world_x w" "0 < world_y w" using ok by (simp_all add: world_okD)
  have eq: "(d - e) mod m = 0 \<longleftrightarrow> d = e" if "0 \<le> d" "d < m" "0 \<le> e" "e < m" for d e m :: int
    using that by (metis diff_self mod_0 mod_eq_dvd_iff mod_eq_0_iff_dvd mod_pos_pos_trivial)
  let ?a = "circ (world_x w) (x1 - x2)" and ?b = "circ (world_y w) (y1 - y2)"
  have "even (?a + ?b)" using ok s by (auto simp: circ_even world_okD sector_xy_def)
  moreover have "0 \<le> ?a" "0 \<le> ?b" using W by simp_all
  ultimately have "hexd ?a ?b = 0 \<longleftrightarrow> ?a = 0 \<and> ?b = 0" unfolding hexd_max max_def by presburger
  then show ?thesis
    using s W by (auto simp: mapdist_hexd [OF ok] circ_0 eq sector_xy_def)
qed

text \<open>
  Moving one sector, as every movement loop of the server does it: add the direction's offset
  and normalise. \<open>walk\<close> follows a route, a list of direction indices.
\<close>

definition sector_step :: "world \<Rightarrow> nat \<Rightarrow> int \<times> int \<Rightarrow> int \<times> int" where
  "sector_step w d p =
     (XNORM w (fst p + fst (diroff ! d)), YNORM w (snd p + snd (diroff ! d)))"

definition walk :: "world \<Rightarrow> nat list \<Rightarrow> int \<times> int \<Rightarrow> int \<times> int" where
  "walk w ds p = fold (sector_step w) ds p"

lemma walk_simps [simp]:
  "walk w [] p = p"
  "walk w (d # ds) p = walk w ds (sector_step w d p)"
  by (simp_all add: walk_def)

lemma walk_append [simp]: "walk w (ds @ es) p = walk w es (walk w ds p)"
  by (simp add: walk_def)

abbreviation hexdir :: "nat \<Rightarrow> bool" where
  "hexdir d \<equiv> 1 \<le> d \<and> d \<le> 6"

lemma hexdir_cases:
  assumes "hexdir d"
  obtains "d = 1" | "d = 2" | "d = 3" | "d = 4" | "d = 5" | "d = 6"
  using assms by linarith

lemma diroff_nth [simp]:
  "diroff ! 1 = (1, -1)" "diroff ! Suc 0 = (1, -1)" "diroff ! 2 = (2, 0)" "diroff ! 3 = (1, 1)"
  "diroff ! 4 = (-1, 1)" "diroff ! 5 = (-2, 0)" "diroff ! 6 = (-1, -1)"
  by (simp_all add: diroff_def)

lemma diroff_hexdir:
  assumes "hexdir d"
  shows "hexd \<bar>fst (diroff ! d)\<bar> \<bar>snd (diroff ! d)\<bar> = 1"
    and "even (fst (diroff ! d) + snd (diroff ! d))"
  by (rule hexdir_cases [OF assms]; simp add: hexd_def)+

lemma sector_step_xy:
  assumes ok: "world_ok w" and s: "sector_xy w x y" and d: "hexdir d"
    and st: "sector_step w d (x, y) = (x', y')"
  shows "sector_xy w x' y'"
proof -
  have "even (x + fst (diroff ! d) + (y + snd (diroff ! d)))"
    using diroff_hexdir(2) [OF d] s by (simp add: sector_xy_def)
  from sector_xy_norm [OF ok this] st show ?thesis
    using ok by (auto simp: sector_step_def XNORM_mod YNORM_mod world_okD)
qed

lemma mapdist_step:
  assumes ok: "world_ok w" and s: "sector_xy w x y" and d: "hexdir d"
    and st: "sector_step w d (x, y) = (x', y')"
  shows "mapdist w x y x' y' \<le> 1"
proof -
  have W: "0 < world_x w" "0 < world_y w" using ok by (simp_all add: world_okD)
  let ?ox = "fst (diroff ! d)" and ?oy = "snd (diroff ! d)"
  have "(x' - x) mod world_x w = ?ox mod world_x w" "(y' - y) mod world_y w = ?oy mod world_y w"
    using st W by (auto simp: sector_step_def XNORM_mod YNORM_mod mod_diff_left_eq)
  then have "circ (world_x w) (x' - x) \<le> \<bar>?ox\<bar>" "circ (world_y w) (y' - y) \<le> \<bar>?oy\<bar>"
    using circ_le W by (metis circ_cong)+
  then have "hexd (circ (world_x w) (x' - x)) (circ (world_y w) (y' - y)) \<le> 1"
    using hexd_mono diroff_hexdir(1) [OF d] by metis
  then have "mapdist w x' y' x y \<le> 1" by (simp add: mapdist_hexd [OF ok])
  then show ?thesis using mapdist_sym [OF ok] by metis
qed

lemma circ_step_towards:
  assumes m: "0 < m" and r: "r mod m = d mod m" "circ m d = \<bar>r\<bar>" and c: "\<bar>r - e\<bar> = \<bar>r\<bar> - \<bar>e\<bar>"
  shows "circ m (d - e) \<le> circ m d - \<bar>e\<bar>"
proof -
  have "circ m (d - e) = circ m (r - e)"
    by (rule circ_cong) (metis mod_diff_left_eq r(1))
  also have "\<dots> \<le> \<bar>r - e\<bar>" by (rule circ_le [OF m])
  finally show ?thesis using r c by simp
qed

lemma mapdist_decrease:
  assumes ok: "world_ok w" and s: "sector_xy w x y" "sector_xy w tx ty"
    and pos: "0 < mapdist w x y tx ty"
  shows "\<exists>d. hexdir d \<and> (\<forall>x' y'. sector_step w d (x, y) = (x', y')
           \<longrightarrow> mapdist w x' y' tx ty \<le> mapdist w x y tx ty - 1)"
proof -
  let ?W = "world_x w" and ?H = "world_y w"
  have W: "0 < ?W" "even ?W" "0 < ?H" "even ?H" using ok by (simp_all add: world_okD)
  obtain r where r: "r mod ?W = (tx - x) mod ?W" "circ ?W (tx - x) = \<bar>r\<bar>"
    using circ_rep [OF W(1)] by blast
  obtain q where q: "q mod ?H = (ty - y) mod ?H" "circ ?H (ty - y) = \<bar>q\<bar>"
    using circ_rep [OF W(3)] by blast
  have md: "mapdist w x y tx ty = hexd \<bar>r\<bar> \<bar>q\<bar>"
    by (simp add: mapdist_hexd' [OF ok] r q)
  have "even (circ ?W (tx - x) + circ ?H (ty - y))"
    using s W by (auto simp: circ_even sector_xy_def)
  then have ev: "even (\<bar>r\<bar> + \<bar>q\<bar>)" by (simp add: r q)
  define sx where "sx = (if r < 0 then -1 else (1::int))"
  define sy where "sy = (if q < 0 then -1 else (1::int))"
  define off where "off = (if q = 0 then (2 * sx, 0) else (sx, sy))"
  define d :: nat where
    "d = (if q = 0 then if r < 0 then 5 else 2
          else if r < 0 then if q < 0 then 6 else 4 else if q < 0 then 1 else 3)"
  have d: "hexdir d" "diroff ! d = off" by (simp_all add: d_def off_def sx_def sy_def)
  have nz: "\<bar>r\<bar> \<noteq> 0 \<or> \<bar>q\<bar> \<noteq> 0" using pos md by (auto simp: hexd_def)
  have "mapdist w x' y' tx ty \<le> mapdist w x y tx ty - 1"
    if st: "sector_step w d (x, y) = (x', y')" for x' y'
  proof -
    have "x' = (x + fst off) mod ?W" "y' = (y + snd off) mod ?H"
      using st W d(2) by (auto simp: sector_step_def XNORM_mod YNORM_mod)
    then have m: "(tx - x') mod ?W = (tx - x - fst off) mod ?W"
      "(ty - y') mod ?H = (ty - y - snd off) mod ?H"
      by (simp_all only: mod_diff_right_eq diff_diff_eq)
    have e: "mapdist w x' y' tx ty = hexd (circ ?W (tx - x - fst off)) (circ ?H (ty - y - snd off))"
      unfolding mapdist_hexd' [OF ok] circ_cong [OF m(1)] circ_cong [OF m(2)] by (rule refl)
    show ?thesis
    proof (cases "q = 0")
      case True
      then have "\<bar>r\<bar> \<ge> 2" using nz ev by (auto simp: abs_if split: if_splits)
      then have "circ ?W (tx - x - fst off) \<le> \<bar>r\<bar> - 2"
        using circ_step_towards [OF W(1) r, of "fst off"] r True by (auto simp: off_def sx_def)
      moreover have "circ ?H (ty - y - snd off) \<le> 0"
        using circ_step_towards [OF W(3) q, of "snd off"] q True by (simp add: off_def)
      ultimately have "mapdist w x' y' tx ty \<le> hexd (\<bar>r\<bar> - 2) 0" unfolding e by (rule hexd_mono)
      also have "\<dots> \<le> hexd \<bar>r\<bar> \<bar>q\<bar> - 1" using \<open>\<bar>r\<bar> \<ge> 2\<close> True by (auto simp: hexd_def)
      finally show ?thesis by (simp add: md)
    next
      case False
      then have b: "circ ?H (ty - y - snd off) \<le> \<bar>q\<bar> - 1"
        using circ_step_towards [OF W(3) q, of "snd off"] q by (auto simp: off_def sy_def)
      show ?thesis
      proof (cases "r = 0")
        case True
        have "circ ?W (tx - x - fst off) \<le> circ ?W (tx - x) + circ ?W (- fst off)"
          using circ_triangle [OF W(1), of "tx - x" "- fst off"] by simp
        also have "\<dots> \<le> 1" using circ_le [OF W(1), of "- fst off"] r True False
          by (auto simp: off_def sx_def)
        finally have "mapdist w x' y' tx ty \<le> hexd 1 (\<bar>q\<bar> - 1)" unfolding e using b by (rule hexd_mono)
        also have "\<dots> \<le> hexd \<bar>r\<bar> \<bar>q\<bar> - 1" using True ev False by (auto simp: hexd_def)
        finally show ?thesis by (simp add: md)
      next
        case False': False
        then have "circ ?W (tx - x - fst off) \<le> \<bar>r\<bar> - 1"
          using circ_step_towards [OF W(1) r, of "fst off"] r False by (auto simp: off_def sx_def)
        then have "mapdist w x' y' tx ty \<le> hexd (\<bar>r\<bar> - 1) (\<bar>q\<bar> - 1)" unfolding e using b by (rule hexd_mono)
        also have "\<dots> = hexd \<bar>r\<bar> \<bar>q\<bar> - 1" by (simp add: hexd_def)
        finally show ?thesis by (simp add: md)
      qed
    qed
  qed
  with d(1) show ?thesis by blast
qed

lemma sector_step_pair:
  obtains x' y' where "sector_step w d (x, y) = (x', y')"
  by fastforce

lemma walk_lower:
  assumes ok: "world_ok w"
  shows "sector_xy w x y \<Longrightarrow> \<forall>d \<in> set ds. hexdir d \<Longrightarrow> walk w ds (x, y) = (tx, ty)
    \<Longrightarrow> sector_xy w tx ty \<and> mapdist w x y tx ty \<le> int (length ds)"
proof (induction ds arbitrary: x y)
  case Nil
  then show ?case using mapdist_0 [OF ok Nil.prems(1) Nil.prems(1)] by simp
next
  case (Cons d ds)
  obtain x' y' where st: "sector_step w d (x, y) = (x', y')" by (rule sector_step_pair)
  have s': "sector_xy w x' y'" using sector_step_xy [OF ok Cons.prems(1) _ st] Cons.prems(2) by simp
  have IH: "sector_xy w tx ty" "mapdist w x' y' tx ty \<le> int (length ds)"
    using Cons.IH [OF s'] Cons.prems st by simp_all
  have "mapdist w x y tx ty \<le> mapdist w x y x' y' + mapdist w x' y' tx ty"
    using Cons.prems(1) s' IH(1) by (intro mapdist_triangle [OF ok]) (simp_all add: sector_xy_def)
  also have "mapdist w x y x' y' \<le> 1"
    using mapdist_step [OF ok Cons.prems(1) _ st] Cons.prems(2) by simp
  finally show ?case using IH by simp
qed

lemma walk_upper:
  assumes ok: "world_ok w" and t: "sector_xy w tx ty"
  shows "sector_xy w x y \<Longrightarrow> mapdist w x y tx ty \<le> int n
    \<Longrightarrow> \<exists>ds. (\<forall>d \<in> set ds. hexdir d) \<and> walk w ds (x, y) = (tx, ty) \<and> length ds \<le> n"
proof (induction n arbitrary: x y)
  case 0
  then have "mapdist w x y tx ty = 0" using mapdist_nonneg [OF ok, of x y tx ty] by simp
  then have "x = tx \<and> y = ty" using mapdist_0 [OF ok 0(1) t] by simp
  then show ?case by (intro exI [of _ "[]"]) simp
next
  case (Suc n)
  show ?case
  proof (cases "0 < mapdist w x y tx ty")
    case False
    then have "mapdist w x y tx ty \<le> int n" by simp
    from Suc.IH [OF Suc.prems(1) this] show ?thesis by (meson le_SucI)
  next
    case True
    then obtain d where d: "hexdir d" and dec: "\<And>x' y'. sector_step w d (x, y) = (x', y')
        \<Longrightarrow> mapdist w x' y' tx ty \<le> mapdist w x y tx ty - 1"
      using mapdist_decrease [OF ok Suc.prems(1) t] by blast
    obtain x' y' where st: "sector_step w d (x, y) = (x', y')" by (rule sector_step_pair)
    have "mapdist w x' y' tx ty \<le> int n" using dec [OF st] Suc.prems(2) by simp
    then obtain ds where "\<forall>d \<in> set ds. hexdir d" "walk w ds (x', y') = (tx, ty)" "length ds \<le> n"
      using Suc.IH [OF sector_step_xy [OF ok Suc.prems(1) d st]] by blast
    then show ?thesis using d st by (intro exI [of _ "d # ds"]) simp
  qed
qed

section \<open>Ranges\<close>

lemma range_axis:
  assumes m: "0 < m" and c: "0 \<le> c" "c < m" and x: "0 \<le> x" "x < m"
    and k: "0 \<le> k" "2 * k + 1 < m" and d: "circ m (x - c) \<le> k"
    and l: "l = (c - k) mod m" and h: "h = (c + k) mod m"
  shows "\<not> (if l \<le> h then x < l \<or> x > h else x < l \<and> x > h)"
proof -
  have l': "l = (if c - k < 0 then c - k + m else c - k)"
    using mod_wrap [of c m "- k"] l c k by auto
  have h': "h = (if c + k \<ge> m then c + k - m else c + k)"
    using mod_wrap [of c m k] h c k by auto
  have "(x - c) mod m = (if x - c < 0 then x - c + m else x - c)"
    using mod_wrap [of 0 m "x - c"] c x m by auto
  then have "x - c \<le> k \<and> c - x \<le> k \<or> x - c + m \<le> k \<or> m - (x - c) \<le> k"
    using d c x by (auto simp: circ_def min_def split: if_splits)
  then show ?thesis using l' h' c x k by (auto split: if_splits)
qed

lemma range_axis_full:
  assumes m: "0 < m" and x: "0 \<le> x" "x < (m::int)"
    and l: "0 \<le> l" "l < m" and h: "h = (l + m - 1) mod m"
  shows "\<not> (if l \<le> h then x < l \<or> x > h else x < l \<and> x > h)"
proof -
  have "h = (if l = 0 then m - 1 else l - 1)"
    using mod_wrap [of "l" m "m - 1"] h l m by (auto simp: add_diff_eq)
  then show ?thesis using x l by auto
qed

section \<open>Properties\<close>

text \<open>C1. Sector numbering is a bijection: \<open>sctoff\<close> maps the normalised positions of equal parity
  one to one onto \<open>0 ..< WORLD_SZ\<close>, and \<open>sctoff2xy\<close> is its inverse in both directions.\<close>

theorem sctoff_bijection:
  assumes "world_ok w"
  shows "bij_betw (\<lambda>(x, y). sctoff w x y) {(x, y). sector_xy w x y} {0..<WORLD_SZ w}
    \<and> (\<forall>x y. sector_xy w x y \<longrightarrow> sctoff2xy w (sctoff w x y) = (x, y))
    \<and> (\<forall>off \<in> {0..<WORLD_SZ w}. (case sctoff2xy w off of (x, y) \<Rightarrow> sctoff w x y) = off)"
proof -
  have inverse_ex: "\<exists>x y. sector_xy w x y \<and> sctoff2xy w off = (x, y) \<and> sctoff w x y = off"
    if "off \<in> {0..<WORLD_SZ w}" for off
    using that sctoff2xy_sector [OF assms, of off] assms
    by (cases "sctoff2xy w off") fastforce
  have "inj_on (\<lambda>(x, y). sctoff w x y) {(x, y). sector_xy w x y}"
    using assms XYOFFSET_inj by (auto simp: inj_on_def)
  moreover have "(\<lambda>(x, y). sctoff w x y) ` {(x, y). sector_xy w x y} = {0..<WORLD_SZ w}"
    using assms XYOFFSET_bounds [OF assms] inverse_ex by (force simp: image_iff)
  moreover have "\<forall>off \<in> {0..<WORLD_SZ w}. (case sctoff2xy w off of (x, y) \<Rightarrow> sctoff w x y) = off"
    using inverse_ex by fastforce
  ultimately show ?thesis
    using assms sctoff2xy_XYOFFSET by (simp add: bij_betw_def)
qed

definition world_64x32 :: world where
  "world_64x32 = \<lparr>world_x = 64, world_y = 32\<rparr>"

lemma world_64x32_ok [simp]: "world_ok world_64x32"
  by (simp add: world_ok_def world_64x32_def)

theorem sctoff_bijection_witness:
  "world_ok world_64x32 \<and> sctoff2xy world_64x32 (sctoff world_64x32 5 3) = (5, 3)"
proof -
  have "sector_xy world_64x32 5 3" by (simp add: sector_xy_def world_64x32_def)
  then show ?thesis using sctoff_bijection [OF world_64x32_ok] world_64x32_ok by blast
qed

text \<open>C2. \<open>mapdist\<close> is the distance of the hexagonal torus: between any two sectors there is a route of
  direction steps of exactly that length, and no route is shorter.\<close>

theorem mapdist_shortest_route:
  assumes "world_ok w" "sector_xy w x y" "sector_xy w tx ty"
  shows "(\<exists>ds. (\<forall>d \<in> set ds. hexdir d) \<and> walk w ds (x, y) = (tx, ty)
            \<and> int (length ds) = mapdist w x y tx ty)
    \<and> (\<forall>ds. (\<forall>d \<in> set ds. hexdir d) \<and> walk w ds (x, y) = (tx, ty)
            \<longrightarrow> mapdist w x y tx ty \<le> int (length ds))"
proof -
  have "mapdist w x y tx ty \<le> int (nat (mapdist w x y tx ty))" by simp
  from walk_upper [OF assms(1,3,2) this] obtain ds
    where ds: "\<forall>d \<in> set ds. hexdir d" "walk w ds (x, y) = (tx, ty)"
      "length ds \<le> nat (mapdist w x y tx ty)" by blast
  have low: "mapdist w x y tx ty \<le> int (length es)"
    if "\<forall>d \<in> set es. hexdir d" "walk w es (x, y) = (tx, ty)" for es
    using walk_lower [OF assms(1,2) that] by simp
  from low [OF ds(1,2)] ds(3) have "int (length ds) = mapdist w x y tx ty"
    using mapdist_nonneg [OF assms(1), of x y tx ty] by linarith
  with ds low show ?thesis by blast
qed

theorem mapdist_shortest_route_witness:
  "sector_xy world_64x32 63 1 \<and> mapdist world_64x32 63 1 3 31 = 3
    \<and> (\<exists>ds. (\<forall>d \<in> set ds. hexdir d) \<and> walk world_64x32 ds (63, 1) = (3, 31) \<and> int (length ds) = 3)"
proof -
  have s: "sector_xy world_64x32 63 1" "sector_xy world_64x32 3 31"
    by (simp_all add: sector_xy_def world_64x32_def)
  have d: "mapdist world_64x32 63 1 3 31 = 3"
    by (simp add: mapdist_def deltax_def deltay_def world_64x32_def smod_int_alt_def signed_divide_int_def)
  show ?thesis using mapdist_shortest_route [OF world_64x32_ok s] s d by auto
qed

text \<open>The bounding box of \<open>xydist_range\<close> loses no sector: every sector within distance \<open>dist\<close> of
  the centre passes the \<open>xyinrange\<close> pre-filter that \<open>nxtitem\<close> applies, across the map's edges too.\<close>

theorem xydist_range_covers:
  assumes ok: "world_ok w" and s: "sector_xy w x y" and c: "sector_xy w cx cy"
    and d: "0 \<le> dist" "mapdist w x y cx cy \<le> dist" and r: "xydist_range w cx cy dist = Some r"
  shows "xyinrange x y r"
proof -
  let ?W = "world_x w" and ?H = "world_y w"
  have W: "0 < ?W" "even ?W" "?W \<le> 16384" "0 < ?H" "even ?H" "?H \<le> 16384"
    using ok by (simp_all add: world_okD)
  have xy: "0 \<le> x" "x < ?W" "0 \<le> y" "y < ?H" "0 \<le> cx" "cx < ?W" "0 \<le> cy" "cy < ?H"
    using s c by (simp_all add: sector_xy_def)
  let ?a = "circ ?W (x - cx)" and ?b = "circ ?H (y - cy)"
  have "even (?a + ?b)" using s c W by (auto simp: circ_even sector_xy_def)
  moreover have nn: "0 \<le> ?a" "0 \<le> ?b" using W by simp_all
  ultimately have "?a \<le> 2 * hexd ?a ?b - ?b \<and> ?b \<le> hexd ?a ?b" by (intro hexd_bounds)
  moreover have "hexd ?a ?b \<le> dist" using d(2) by (simp add: mapdist_hexd [OF ok])
  ultimately have ab: "?a \<le> 2 * dist" "?b \<le> dist" using nn by linarith+
  have "\<not> (if lx r \<le> hx r then x < lx r \<or> x > hx r else x < lx r \<and> x > hx r)"
  proof (cases "4 * dist + 1 < ?W")
    case True
    have "lx r = (cx - 2 * dist) mod ?W" "hx r = (cx + 2 * dist) mod ?W"
      using r True d xy W by (auto simp: xydist_range_def Let_def xnorm_mod [OF ok] split: prod.splits if_splits)
    then show ?thesis
      using range_axis [of ?W cx x "2 * dist" "lx r" "hx r"] W xy d ab True by simp
  next
    case False
    define l0 where "l0 = (cx - ?W div 2) mod ?W"
    have l0: "0 \<le> l0" "l0 < ?W" using W by (simp_all add: l0_def)
    have "xnorm w (cx - ?W sdiv 2) = l0"
      using xnorm_mod [OF ok, of "cx - ?W div 2"] xy W by (simp add: sdiv_nonneg l0_def)
    moreover have "xnorm w (l0 + ?W - 1) = (l0 + ?W - 1) mod ?W"
      using l0 W by (intro xnorm_mod [OF ok]) simp_all
    ultimately have e: "lx r = l0" "hx r = (l0 + ?W - 1) mod ?W"
      using r False by (auto simp: xydist_range_def Let_def split: prod.splits if_splits)
    show ?thesis unfolding e by (rule range_axis_full [OF W(1) xy(1,2) l0 refl])
  qed
  moreover have "\<not> (if ly r \<le> hy r then y < ly r \<or> y > hy r else y < ly r \<and> y > hy r)"
  proof (cases "2 * dist + 1 < ?H")
    case True
    have "ly r = (cy - dist) mod ?H" "hy r = (cy + dist) mod ?H"
      using r True d xy W by (auto simp: xydist_range_def Let_def ynorm_mod [OF ok] split: prod.splits if_splits)
    then show ?thesis
      using range_axis [of ?H cy y dist "ly r" "hy r"] W xy d ab True by simp
  next
    case False
    define l0 where "l0 = (cy - ?H div 2) mod ?H"
    have l0: "0 \<le> l0" "l0 < ?H" using W by (simp_all add: l0_def)
    have "ynorm w (cy - ?H sdiv 2) = l0"
      using ynorm_mod [OF ok, of "cy - ?H div 2"] xy W by (simp add: sdiv_nonneg l0_def)
    moreover have "ynorm w (l0 + ?H - 1) = (l0 + ?H - 1) mod ?H"
      using l0 W by (intro ynorm_mod [OF ok]) simp_all
    ultimately have e: "ly r = l0" "hy r = (l0 + ?H - 1) mod ?H"
      using r False by (auto simp: xydist_range_def Let_def split: prod.splits if_splits)
    show ?thesis unfolding e by (rule range_axis_full [OF W(4) xy(3,4) l0 refl])
  qed
  ultimately show ?thesis unfolding xyinrange_def by simp
qed

theorem xydist_range_covers_witness:
  "mapdist world_64x32 63 1 2 0 \<le> 2 \<and> (\<exists>r. xydist_range world_64x32 2 0 2 = Some r \<and> xyinrange 63 1 r)"
proof -
  have s: "sector_xy world_64x32 63 1" "sector_xy world_64x32 2 0"
    by (simp_all add: sector_xy_def world_64x32_def)
  have d: "mapdist world_64x32 63 1 2 0 \<le> 2" "0 \<le> (2::int)"
    by (simp_all add: mapdist_def deltax_def deltay_def world_64x32_def smod_int_alt_def signed_divide_int_def)
  obtain r where "xydist_range world_64x32 2 0 2 = Some r" using xydist_range_defined [of 2 world_64x32 2 0] by (auto simp: fits_int_def)
  then show ?thesis using xydist_range_covers [OF world_64x32_ok s d(2,1)] d by blast
qed

lemma rel_abs_axis:
  assumes m: "0 < m" "even (m::int)" and a: "0 \<le> a" "a < m" and o: "0 \<le> org" "org < m"
    and r: "r = (if (a - org) mod m \<ge> m div 2 then (a - org) mod m - m else (a - org) mod m)"
  shows "- (m div 2) \<le> r \<and> r < m div 2 \<and> (r + org) mod m = a"
proof -
  have d: "(a - org) mod m = (if a < org then a - org + m else a - org)"
    using mod_wrap [of 0 m "a - org"] a o m by auto
  have h: "2 * (m div 2) = m" using m by simp
  have "(r + org) mod m = a"
  proof -
    have "r + org = a \<or> r + org = a + m \<or> r + org = a - m" using r d by auto
    moreover have "(a - m) mod m = a" using a mod_diff_right_eq [of a m m] by simp
    ultimately show ?thesis using a by auto
  qed
  then show ?thesis using r d h a o m by auto
qed

text \<open>Country-relative coordinates: \<open>xrel\<close> and \<open>yrel\<close> give the representative in
  \<open>- W/2 ..< W/2\<close>, and \<open>xabs\<close> and \<open>yabs\<close> take it back to the sector.\<close>

theorem relative_coordinates_roundtrip:
  assumes ok: "world_ok w" and s: "sector_xy w x y"
    and o: "0 \<le> nat_xorg np" "nat_xorg np < world_x w" "0 \<le> nat_yorg np" "nat_yorg np < world_y w"
  shows "xabs w np (xrel w np x) = x \<and> yabs w np (yrel w np y) = y
    \<and> - (world_x w div 2) \<le> xrel w np x \<and> xrel w np x < world_x w div 2
    \<and> - (world_y w div 2) \<le> yrel w np y \<and> yrel w np y < world_y w div 2"
proof -
  let ?W = "world_x w" and ?H = "world_y w"
  have W: "0 < ?W" "even ?W" "?W \<le> 16384" "0 < ?H" "even ?H" "?H \<le> 16384"
    using ok by (simp_all add: world_okD)
  have xy: "0 \<le> x" "x < ?W" "0 \<le> y" "y < ?H" using s by (simp_all add: sector_xy_def)
  define r where "r = (if (x - nat_xorg np) mod ?W \<ge> ?W div 2 then (x - nat_xorg np) mod ?W - ?W
    else (x - nat_xorg np) mod ?W)"
  define q where "q = (if (y - nat_yorg np) mod ?H \<ge> ?H div 2 then (y - nat_yorg np) mod ?H - ?H
    else (y - nat_yorg np) mod ?H)"
  have R: "- (?W div 2) \<le> r \<and> r < ?W div 2 \<and> (r + nat_xorg np) mod ?W = x"
    by (rule rel_abs_axis [OF W(1,2) xy(1,2) o(1,2) r_def])
  have Q: "- (?H div 2) \<le> q \<and> q < ?H div 2 \<and> (q + nat_yorg np) mod ?H = y"
    by (rule rel_abs_axis [OF W(4,5) xy(3,4) o(3,4) q_def])
  have hW: "?W div 2 \<le> 8192" "?H div 2 \<le> 8192" using W by simp_all
  have c: "to_coord r = r" "to_coord q = q" "to_coord x = x" "to_coord y = y"
    "to_coord (r + nat_xorg np) = r + nat_xorg np" "to_coord (q + nat_yorg np) = q + nat_yorg np"
    using R Q hW xy W o by (simp_all add: to_coord_id)
  have h: "?W sdiv 2 = ?W div 2" "?H sdiv 2 = ?H div 2" using W by (simp_all add: sdiv_nonneg)
  have xr: "xrel w np x = r"
    using c(1) unfolding xrel_def r_def Let_def c(3) h XNORM_mod [OF W(1)] norm_coord [OF ok]
    by (simp split: if_splits)
  have yr: "yrel w np y = q"
    using c(2) unfolding yrel_def q_def Let_def c(4) h YNORM_mod [OF W(4)] norm_coord [OF ok]
    by (simp split: if_splits)
  show ?thesis unfolding xr yr xabs_def yabs_def Let_def c
    using R Q ok W c(3,4) by (simp add: XNORM_mod YNORM_mod)
qed

theorem relative_coordinates_roundtrip_witness:
  "xrel world_64x32 \<lparr>nat_xorg = 60, nat_yorg = 30\<rparr> 3 = 7
   \<and> xabs world_64x32 \<lparr>nat_xorg = 60, nat_yorg = 30\<rparr> 7 = 3"
proof -
  have s: "sector_xy world_64x32 3 1" by (simp add: sector_xy_def world_64x32_def)
  have r: "xrel world_64x32 \<lparr>nat_xorg = 60, nat_yorg = 30\<rparr> 3 = 7"
    by (simp add: xrel_def to_coord_id XNORM_def world_64x32_def smod_int_alt_def signed_divide_int_def)
  show ?thesis
    using relative_coordinates_roundtrip [OF world_64x32_ok s, of "\<lparr>nat_xorg = 60, nat_yorg = 30\<rparr>"] r
    by (simp add: world_64x32_def)
qed

end
