(* ===== verification/PathFind.thy ===== *)
theory PathFind
  imports Hexmap "HOL-Library.Word" "HOL-Library.While_Combinator"
begin

text \<open>
  Cheapest paths on the hex map, \<open>src/lib/common/pathfind.c\<close>: Dijkstra's algorithm over an
  array of sector data and an array-based binary heap, both of \<open>WORLD_SZ\<close> elements.

  The two arrays are functions from indices; that every index used is in range is part of the
  invariant proved below. A \<open>double\<close> cost is an element of an ordered ring \<open>'c\<close>, that is,
  rounding is left out. \<open>visit\<close> keeps its 16 bits, because the code relies on when it wraps.
  The module's static variables are the record \<open>pf\<close>; \<open>pf_ready\<close> says that \<open>pf_map\<close> has been
  allocated.
\<close>

section \<open>State\<close>

record 'c pf_map_elt =
  map_visit :: "16 word"
  map_dir :: nat
  map_heapi :: nat
  map_cost :: 'c

record 'c pf_heap_elt =
  heap_uid :: int
  heap_x :: int
  heap_y :: int
  heap_cost :: 'c

record 'c pf =
  pf_ready :: bool
  pf_visit :: "16 word"
  pf_map :: "int \<Rightarrow> 'c pf_map_elt"
  pf_nheap :: nat
  pf_heap :: "nat \<Rightarrow> 'c pf_heap_elt"
  pf_sx :: int
  pf_sy :: int
  pf_suid :: int
  pf_actor :: int
  pf_sct_cost :: "int \<Rightarrow> int \<Rightarrow> 'c"

definition pf_is_open :: "'c pf \<Rightarrow> int \<Rightarrow> bool" where
  "pf_is_open st uid \<longleftrightarrow> map_visit (pf_map st uid) = pf_visit st"

definition pf_is_closed :: "'c pf \<Rightarrow> int \<Rightarrow> bool" where
  "pf_is_closed st uid \<longleftrightarrow> map_visit (pf_map st uid) > pf_visit st"

definition pf_is_unvisited :: "'c pf \<Rightarrow> int \<Rightarrow> bool" where
  "pf_is_unvisited st uid \<longleftrightarrow> map_visit (pf_map st uid) < pf_visit st"

section \<open>Operations\<close>

definition set_heapi :: "int \<Rightarrow> nat \<Rightarrow> 'c pf \<Rightarrow> 'c pf" where
  "set_heapi uid i st = st\<lparr>pf_map := (pf_map st)(uid := (pf_map st uid)\<lparr>map_heapi := i\<rparr>)\<rparr>"

definition pf_heap_swap :: "nat \<Rightarrow> nat \<Rightarrow> 'c pf \<Rightarrow> 'c pf" where
  "pf_heap_swap i j st =
     (let tmp = pf_heap st i;
          st = st\<lparr>pf_heap := (pf_heap st)(i := pf_heap st j)\<rparr>;
          st = st\<lparr>pf_heap := (pf_heap st)(j := tmp)\<rparr>;
          st = set_heapi (heap_uid (pf_heap st i)) i st
      in set_heapi (heap_uid (pf_heap st j)) j st)"

lemma pf_heap_swap_nheap [simp]: "pf_nheap (pf_heap_swap i j st) = pf_nheap st"
  by (simp add: pf_heap_swap_def set_heapi_def Let_def)

function pf_sift_down :: "nat \<Rightarrow> 'c::linorder pf \<Rightarrow> 'c pf" where
  "pf_sift_down r st =
     (let c = 2 * r + 1 in
      if c < pf_nheap st then
        let c = (if c + 1 < pf_nheap st \<and> heap_cost (pf_heap st c) > heap_cost (pf_heap st (c + 1))
                 then c + 1 else c)
        in if heap_cost (pf_heap st r) < heap_cost (pf_heap st c) then st
           else pf_sift_down c (pf_heap_swap r c st)
      else st)"
  by pat_completeness auto
termination
  by (relation "measure (\<lambda>(r, st). pf_nheap st - r)") (auto split: if_splits)

function pf_sift_up :: "nat \<Rightarrow> 'c::linorder pf \<Rightarrow> 'c pf" where
  "pf_sift_up c st =
     (let p = (c - 1) div 2 in
      if c > 0 then
        if heap_cost (pf_heap st p) < heap_cost (pf_heap st c) then st
        else pf_sift_up p (pf_heap_swap p c st)
      else st)"
  by pat_completeness auto
termination
  by (relation "measure (\<lambda>(c, st). c)") auto

declare pf_sift_down.simps [simp del] pf_sift_up.simps [simp del]

definition pf_open :: "int \<Rightarrow> int \<Rightarrow> int \<Rightarrow> nat \<Rightarrow> 'c::linorder \<Rightarrow> 'c pf \<Rightarrow> 'c pf" where
  "pf_open uid x y dir cost st =
     (let i = pf_nheap st;
          st = st\<lparr>pf_nheap := i + 1\<rparr>;
          st = st\<lparr>pf_map := (pf_map st)(uid :=
                 \<lparr>map_visit = pf_visit st, map_dir = dir, map_heapi = i, map_cost = cost\<rparr>)\<rparr>;
          st = st\<lparr>pf_heap := (pf_heap st)(i :=
                 \<lparr>heap_uid = uid, heap_x = x, heap_y = y, heap_cost = cost\<rparr>)\<rparr>
      in pf_sift_up i st)"

definition pf_close :: "'c::linorder pf \<Rightarrow> 'c pf" where
  "pf_close st =
     (let uid = heap_uid (pf_heap st 0);
          st = st\<lparr>pf_nheap := pf_nheap st - 1\<rparr>;
          st = (if pf_nheap st \<noteq> 0
                then let st = st\<lparr>pf_heap := (pf_heap st)(0 := pf_heap st (pf_nheap st))\<rparr>;
                         st = set_heapi (heap_uid (pf_heap st 0)) 0 st
                     in pf_sift_down 0 st
                else st)
      in st\<lparr>pf_map := (pf_map st)(uid := (pf_map st uid)\<lparr>map_visit := pf_visit st + 1\<rparr>)\<rparr>)"

definition x_in_dir :: "world \<Rightarrow> int \<Rightarrow> nat \<Rightarrow> int" where
  "x_in_dir w x dir =
     (let xx = x + fst (diroff ! dir)
      in if xx < 0 then to_coord (xx + world_x w)
         else if xx \<ge> world_x w then to_coord (xx - world_x w) else to_coord xx)"

definition y_in_dir :: "world \<Rightarrow> int \<Rightarrow> nat \<Rightarrow> int" where
  "y_in_dir w y dir =
     (let yy = y + snd (diroff ! dir)
      in if yy < 0 then to_coord (yy + world_y w)
         else if yy \<ge> world_y w then to_coord (yy - world_y w) else to_coord yy)"

text \<open>\<open>calloc\<close> and \<open>memset\<close> give the all-zero element.\<close>

definition pf_zero :: "'c::zero pf_map_elt" where
  "pf_zero = \<lparr>map_visit = 0, map_dir = 0, map_heapi = 0, map_cost = 0\<rparr>"

definition pf_set_source :: "world \<Rightarrow> int \<Rightarrow> int \<Rightarrow> int \<Rightarrow> (int \<Rightarrow> int \<Rightarrow> 'c::linordered_idom) \<Rightarrow> 'c pf \<Rightarrow> 'c pf" where
  "pf_set_source w sx sy actor cost st =
     (let st = st\<lparr>pf_sx := sx, pf_sy := sy, pf_suid := XYOFFSET w sx sy, pf_actor := actor,
                  pf_sct_cost := cost\<rparr>;
          st = (if \<not> pf_ready st then st\<lparr>pf_ready := True, pf_map := (\<lambda>_. pf_zero), pf_visit := 1\<rparr>
                else if pf_visit st + 3 < pf_visit st then st\<lparr>pf_map := (\<lambda>_. pf_zero), pf_visit := 1\<rparr>
                else st\<lparr>pf_visit := pf_visit st + 2\<rparr>);
          st = st\<lparr>pf_nheap := 0\<rparr>
      in pf_open (pf_suid st) (pf_sx st) (pf_sy st) 0 0 st)"

text \<open>The body of \<open>path_find_to\<close>'s inner loop for the neighbour in direction \<open>1 + i\<close>.\<close>

definition pf_try :: "world \<Rightarrow> int \<Rightarrow> int \<Rightarrow> 'c::linordered_idom \<Rightarrow> nat \<Rightarrow> 'c pf \<Rightarrow> 'c pf" where
  "pf_try w x y cost i st =
     (let nx = x_in_dir w x (1 + i); ny = y_in_dir w y (1 + i); nuid = XYOFFSET w nx ny
      in if \<not> pf_is_unvisited st nuid then st
         else let c1 = pf_sct_cost st (pf_actor st) nuid
              in if c1 < 0 then st else pf_open nuid nx ny (1 + i) (cost + c1) st)"

definition pf_expand :: "world \<Rightarrow> 'c::linordered_idom pf \<Rightarrow> 'c pf" where
  "pf_expand w st =
     (let x = heap_x (pf_heap st 0); y = heap_y (pf_heap st 0); cost = heap_cost (pf_heap st 0)
      in fold (pf_try w x y cost) [0..<6] (pf_close st))"

text \<open>The cost found, and the state; \<open>None\<close> if the search did not end.\<close>

definition path_find_to :: "world \<Rightarrow> int \<Rightarrow> int \<Rightarrow> 'c::linordered_idom pf \<Rightarrow> ('c \<times> 'c pf) option" where
  "path_find_to w dx dy st =
     (let duid = XYOFFSET w dx dy in
      if pf_is_closed st duid then Some (map_cost (pf_map st duid), st)
      else case while_option (\<lambda>st. pf_nheap st > 0 \<and> heap_uid (pf_heap st 0) \<noteq> duid) (pf_expand w) st of
             None \<Rightarrow> None
           | Some st \<Rightarrow> if pf_nheap st = 0 then Some (- 1, st)
                        else Some (map_cost (pf_map st duid), st))"

text \<open>
  \<open>path_find_route\<close> writes the route backwards into \<open>buf\<close>, wrapping to the end of the buffer
  when it reaches its start; \<open>route_step\<close> is one round of its loop over the position, the write
  index, the route length and the buffer. \<open>bufrotate\<close> then rotates the buffer by chunks of at
  most 64 bytes with \<open>memcpy\<close>, which is undefined for areas that overlap: that is \<open>None\<close>.
\<close>

record route =
  rt_x :: int
  rt_y :: int
  rt_i :: nat
  rt_len :: nat
  rt_buf :: string

function bufrotate_loop :: "string \<Rightarrow> nat \<Rightarrow> string option" where
  "bufrotate_loop buf i =
     (if i = 0 then Some buf
      else let n = min i 64
           in if n < length buf - n then None else bufrotate_loop (drop n buf @ take n buf) (i - n))"
  by pat_completeness auto
termination
  by (relation "measure snd") auto

declare bufrotate_loop.simps [simp del]

definition bufrotate :: "string \<Rightarrow> nat \<Rightarrow> string option" where
  "bufrotate buf i = map_option (\<lambda>b. b[length b - 1 := CHR 0x00]) (bufrotate_loop buf i)"

definition route_dir :: "world \<Rightarrow> 'c pf \<Rightarrow> route \<Rightarrow> nat" where
  "route_dir w st r = map_dir (pf_map st (XYOFFSET w (rt_x r) (rt_y r)))"

definition route_more :: "world \<Rightarrow> 'c pf \<Rightarrow> int \<Rightarrow> route \<Rightarrow> bool" where
  "route_more w st suid r \<longleftrightarrow>
     \<not> (route_dir w st r = 0 \<or> XYOFFSET w (rt_x r) (rt_y r) = suid)"

definition route_step :: "world \<Rightarrow> 'c pf \<Rightarrow> route \<Rightarrow> route" where
  "route_step w st r =
     (let d = route_dir w st r;
          i = (if rt_i r = 0 then length (rt_buf r) else rt_i r) - 1
      in \<lparr>rt_x = x_in_dir w (rt_x r) (DIR_BACK d), rt_y = y_in_dir w (rt_y r) (DIR_BACK d),
          rt_i = i, rt_len = rt_len r + 1, rt_buf = (rt_buf r)[i := dirch ! d]\<rparr>)"

definition path_find_route :: "world \<Rightarrow> string \<Rightarrow> int \<Rightarrow> int \<Rightarrow> int \<Rightarrow> int \<Rightarrow> 'c pf \<Rightarrow> (nat \<times> string) option" where
  "path_find_route w buf sx sy dx dy st =
     (let bufsz = length buf; suid = XYOFFSET w sx sy;
          r0 = \<lparr>rt_x = dx, rt_y = dy, rt_i = bufsz - 1, rt_len = 0,
                rt_buf = buf[bufsz - 1 := CHR 0x00]\<rparr>
      in case while_option (route_more w st suid) (route_step w st) r0 of
           None \<Rightarrow> None
         | Some r \<Rightarrow>
             map_option (Pair (rt_len r))
               (if rt_len r \<ge> bufsz then bufrotate (rt_buf r) (rt_i r)
                else Some (take (rt_len r + 1) (drop (rt_i r) (rt_buf r)) @ drop (rt_len r + 1) (rt_buf r))))"

section \<open>The open set as an interface\<close>

text \<open>
  What the search needs of the two arrays: a set of open sectors with a cheapest one on top, a
  set of closed ones, and for both the cost and the direction recorded when they were opened.
  An item \<open>'k\<close> is what \<open>pf_open\<close> is given: the sector's UID, coordinates and direction.
\<close>

locale open_queue =
  fixes ok :: "'s \<Rightarrow> bool"
    and uids :: "int set"
    and key :: "'k \<Rightarrow> int"
    and good :: "'k \<Rightarrow> bool"
    and dirk :: "'k \<Rightarrow> nat"
    and opened :: "'s \<Rightarrow> int set"
    and closed :: "'s \<Rightarrow> int set"
    and cst :: "'s \<Rightarrow> int \<Rightarrow> 'c::linordered_idom"
    and dirn :: "'s \<Rightarrow> int \<Rightarrow> nat"
    and top_uid :: "'s \<Rightarrow> int"
    and push :: "'k \<Rightarrow> 'c \<Rightarrow> 's \<Rightarrow> 's"
    and pop :: "'s \<Rightarrow> 's"
  assumes disjoint: "ok s \<Longrightarrow> opened s \<inter> closed s = {} \<and> opened s \<union> closed s \<subseteq> uids"
    and good_key: "good k \<Longrightarrow> key k \<in> uids"
    and top_open: "ok s \<Longrightarrow> opened s \<noteq> {} \<Longrightarrow> top_uid s \<in> opened s"
    and top_min: "ok s \<Longrightarrow> u \<in> opened s \<Longrightarrow> cst s (top_uid s) \<le> cst s u"
    and push: "ok s \<Longrightarrow> good k \<Longrightarrow> key k \<notin> opened s \<union> closed s \<Longrightarrow>
      ok (push k c s) \<and> opened (push k c s) = insert (key k) (opened s)
      \<and> closed (push k c s) = closed s \<and> cst (push k c s) = (cst s)(key k := c)
      \<and> dirn (push k c s) = (dirn s)(key k := dirk k)"
    and pop: "ok s \<Longrightarrow> opened s \<noteq> {} \<Longrightarrow>
      ok (pop s) \<and> opened (pop s) = opened s - {top_uid s}
      \<and> closed (pop s) = insert (top_uid s) (closed s) \<and> cst (pop s) = cst s \<and> dirn (pop s) = dirn s"
begin

definition offer :: "(int \<Rightarrow> 'c) \<Rightarrow> 'c \<Rightarrow> 'k \<Rightarrow> 's \<Rightarrow> 's" where
  "offer enter c k s =
     (if key k \<in> opened s \<union> closed s then s
      else if enter (key k) < 0 then s else push k (c + enter (key k)) s)"

definition fresh :: "(int \<Rightarrow> 'c) \<Rightarrow> 's \<Rightarrow> 'k list \<Rightarrow> int set" where
  "fresh enter s ks = {key k | k. k \<in> set ks \<and> 0 \<le> enter (key k)} - (opened s \<union> closed s)"

lemma offer_cases:
  assumes "ok s" "good k"
  shows "ok (offer enter c k s) \<and> closed (offer enter c k s) = closed s
    \<and> opened (offer enter c k s) = opened s \<union> fresh enter s [k]
    \<and> cst (offer enter c k s) = (\<lambda>u. if u \<in> fresh enter s [k] then c + enter u else cst s u)
    \<and> dirn (offer enter c k s) = (\<lambda>u. if u \<in> fresh enter s [k] then dirk k else dirn s u)"
proof (cases "key k \<in> opened s \<union> closed s \<or> enter (key k) < 0")
  case True
  then have "fresh enter s [k] = {}" by (auto simp: fresh_def)
  moreover have "offer enter c k s = s" using True by (auto simp: offer_def)
  ultimately show ?thesis using assms by simp
next
  case False
  then have "fresh enter s [k] = {key k}" by (auto simp: fresh_def)
  moreover have "offer enter c k s = push k (c + enter (key k)) s" using False by (simp add: offer_def)
  ultimately show ?thesis using push [OF assms, of "c + enter (key k)"] False by auto
qed

lemma offers:
  assumes "ok s" "\<forall>k \<in> set ks. good k"
  shows "ok (fold (offer enter c) ks s) \<and> closed (fold (offer enter c) ks s) = closed s
    \<and> opened (fold (offer enter c) ks s) = opened s \<union> fresh enter s ks
    \<and> (\<forall>u. cst (fold (offer enter c) ks s) u = (if u \<in> fresh enter s ks then c + enter u else cst s u))
    \<and> (\<forall>u. u \<notin> fresh enter s ks \<longrightarrow> dirn (fold (offer enter c) ks s) u = dirn s u)
    \<and> (\<forall>u \<in> fresh enter s ks. \<exists>k \<in> set ks. key k = u \<and> dirn (fold (offer enter c) ks s) u = dirk k)"
  using assms
proof (induction ks arbitrary: s)
  case Nil
  then show ?case by (simp add: fresh_def)
next
  case (Cons k ks)
  let ?t = "offer enter c k s"
  have t: "ok ?t" "closed ?t = closed s" "opened ?t = opened s \<union> fresh enter s [k]"
    "\<And>u. cst ?t u = (if u \<in> fresh enter s [k] then c + enter u else cst s u)"
    "\<And>u. dirn ?t u = (if u \<in> fresh enter s [k] then dirk k else dirn s u)"
    using offer_cases [of s k enter c] Cons.prems by simp_all
  have split: "fresh enter s (k # ks) = fresh enter s [k] \<union> fresh enter ?t ks"
    "fresh enter s [k] \<inter> fresh enter ?t ks = {}" "fresh enter s [k] \<subseteq> {key k}"
    using t(2,3) by (auto simp: fresh_def)
  have IH: "ok (fold (offer enter c) ks ?t)" "closed (fold (offer enter c) ks ?t) = closed ?t"
    "opened (fold (offer enter c) ks ?t) = opened ?t \<union> fresh enter ?t ks"
    "\<And>u. cst (fold (offer enter c) ks ?t) u = (if u \<in> fresh enter ?t ks then c + enter u else cst ?t u)"
    "\<And>u. u \<notin> fresh enter ?t ks \<Longrightarrow> dirn (fold (offer enter c) ks ?t) u = dirn ?t u"
    "\<And>u. u \<in> fresh enter ?t ks \<Longrightarrow> \<exists>k \<in> set ks. key k = u \<and> dirn (fold (offer enter c) ks ?t) u = dirk k"
    using Cons.IH [OF t(1)] Cons.prems by auto
  show ?case
  proof (intro conjI ballI allI impI)
    fix u assume u: "u \<in> fresh enter s (k # ks)"
    show "\<exists>k' \<in> set (k # ks). key k' = u \<and> dirn (fold (offer enter c) (k # ks) s) u = dirk k'"
    proof (cases "u \<in> fresh enter ?t ks")
      case True
      then show ?thesis using IH(6) [OF True] by auto
    next
      case False
      then have "u \<in> fresh enter s [k]" using u split by blast
      then show ?thesis using IH(5) [OF False] t(5) split(3) by auto
    qed
  qed (use IH(1-5) t split in auto)
qed

end

section \<open>The search on sets\<close>

text \<open>
  Routes from a sector, for a neighbour function \<open>nb\<close> and the cost \<open>enter\<close> of entering a sector,
  negative for a sector that can't be entered.
\<close>

fun route_end :: "('u \<Rightarrow> nat \<Rightarrow> 'u) \<Rightarrow> 'u \<Rightarrow> nat list \<Rightarrow> 'u" where
  "route_end nb u [] = u"
| "route_end nb u (d # ds) = route_end nb (nb u d) ds"

fun route_cost :: "('u \<Rightarrow> 'c::linordered_idom) \<Rightarrow> ('u \<Rightarrow> nat \<Rightarrow> 'u) \<Rightarrow> 'u \<Rightarrow> nat list \<Rightarrow> 'c" where
  "route_cost enter nb u [] = 0"
| "route_cost enter nb u (d # ds) = enter (nb u d) + route_cost enter nb (nb u d) ds"

fun route_ok :: "('u \<Rightarrow> 'c::linordered_idom) \<Rightarrow> ('u \<Rightarrow> nat \<Rightarrow> 'u) \<Rightarrow> 'u \<Rightarrow> nat list \<Rightarrow> bool" where
  "route_ok enter nb u [] = True"
| "route_ok enter nb u (d # ds) =
     (hexdir d \<and> 0 \<le> enter (nb u d) \<and> route_ok enter nb (nb u d) ds)"

lemma route_end_append [simp]: "route_end nb u (ds @ es) = route_end nb (route_end nb u ds) es"
  by (induction ds arbitrary: u) simp_all

lemma route_cost_append [simp]:
  "route_cost enter nb u (ds @ es) = route_cost enter nb u ds + route_cost enter nb (route_end nb u ds) es"
  by (induction ds arbitrary: u) (simp_all add: add.assoc)

lemma route_ok_append [simp]:
  "route_ok enter nb u (ds @ es) = (route_ok enter nb u ds \<and> route_ok enter nb (route_end nb u ds) es)"
  by (induction ds arbitrary: u) auto

lemma route_cost_nonneg: "route_ok enter nb u ds \<Longrightarrow> 0 \<le> route_cost enter nb u ds"
  by (induction ds arbitrary: u) auto

text \<open>
  The invariant of the search: closed sectors are no dearer than open ones; whatever can be
  entered from a closed sector has been visited; and a visited sector was reached, in the
  recorded direction, from the cheapest of its closed neighbours. The rank orders the sectors
  by when they were opened, so following the recorded directions back ends at the source.
\<close>

definition search_inv ::
  "(int \<Rightarrow> 'c::linordered_idom) \<Rightarrow> (int \<Rightarrow> nat \<Rightarrow> int) \<Rightarrow> int \<Rightarrow>
   int set \<Rightarrow> int set \<Rightarrow> (int \<Rightarrow> 'c) \<Rightarrow> (int \<Rightarrow> nat) \<Rightarrow> bool" where
  "search_inv enter nb src opn cls k dir \<longleftrightarrow>
     src \<in> opn \<union> cls \<and> k src = 0 \<and> dir src = 0
     \<and> (\<forall>c \<in> cls. \<forall>u \<in> opn. k c \<le> k u)
     \<and> (\<forall>c \<in> cls. \<forall>d. hexdir d \<longrightarrow> 0 \<le> enter (nb c d) \<longrightarrow> nb c d \<in> opn \<union> cls)
     \<and> (\<exists>rk :: int \<Rightarrow> nat. \<forall>u \<in> opn \<union> cls. u \<noteq> src \<longrightarrow> 0 \<le> enter u \<and> hexdir (dir u) \<and>
          (\<exists>p \<in> cls. nb p (dir u) = u \<and> nb u (DIR_BACK (dir u)) = p \<and> rk p < rk u
             \<and> k u = k p + enter u \<and> (\<forall>q \<in> cls. \<forall>e. hexdir e \<and> nb q e = u \<longrightarrow> k p \<le> k q)))"

lemma search_inv_ranked:
  assumes "search_inv enter nb src opn cls k dir"
  obtains rk :: "int \<Rightarrow> nat" where
    "\<And>u. u \<in> opn \<union> cls \<Longrightarrow> u \<noteq> src \<Longrightarrow> 0 \<le> enter u \<and> hexdir (dir u) \<and>
       (\<exists>p \<in> cls. nb p (dir u) = u \<and> nb u (DIR_BACK (dir u)) = p \<and> rk p < rk u
          \<and> k u = k p + enter u \<and> (\<forall>q \<in> cls. \<forall>e. hexdir e \<and> nb q e = u \<longrightarrow> k p \<le> k q))"
proof -
  from assms obtain rk :: "int \<Rightarrow> nat" where
    "\<forall>u \<in> opn \<union> cls. u \<noteq> src \<longrightarrow> 0 \<le> enter u \<and> hexdir (dir u) \<and>
       (\<exists>p \<in> cls. nb p (dir u) = u \<and> nb u (DIR_BACK (dir u)) = p \<and> rk p < rk u
          \<and> k u = k p + enter u \<and> (\<forall>q \<in> cls. \<forall>e. hexdir e \<and> nb q e = u \<longrightarrow> k p \<le> k q))"
    unfolding search_inv_def by (elim conjE exE)
  then show ?thesis by (intro that) (elim ballE impE, assumption+, blast+)
qed

lemma search_inv_pred:
  assumes "search_inv enter nb src opn cls k dir" "u \<in> opn \<union> cls" "u \<noteq> src"
  obtains p where "0 \<le> enter u" "hexdir (dir u)" "p \<in> cls" "nb p (dir u) = u"
    "nb u (DIR_BACK (dir u)) = p" "k u = k p + enter u"
    "\<And>q e. q \<in> cls \<Longrightarrow> hexdir e \<Longrightarrow> nb q e = u \<Longrightarrow> k p \<le> k q"
  by (rule search_inv_ranked [OF assms(1)]) (use assms(2,3) that in blast)

lemma search_inv_start:
  "k src = 0 \<Longrightarrow> dir src = 0 \<Longrightarrow> search_inv enter nb src {src} {} k dir"
  by (simp add: search_inv_def)

lemma search_inv_expand:
  assumes inv: "search_inv enter nb src opn cls k dir"
    and disj: "opn \<inter> cls = {}"
    and t: "t \<in> opn" and tmin: "\<forall>u \<in> opn. k t \<le> k u"
    and symm: "\<forall>d. hexdir d \<longrightarrow> nb (nb t d) (DIR_BACK d) = t"
    and nw: "nw = {nb t d | d. hexdir d \<and> 0 \<le> enter (nb t d)} - (opn \<union> cls)"
    and k': "\<forall>u. k' u = (if u \<in> nw then k t + enter u else k u)"
    and dir': "\<forall>u. u \<notin> nw \<longrightarrow> dir' u = dir u"
    and dirn: "\<forall>u \<in> nw. hexdir (dir' u) \<and> nb t (dir' u) = u"
  shows "search_inv enter nb src (opn - {t} \<union> nw) (insert t cls) k' dir'"
proof -
  let ?V = "opn \<union> cls"
  have src: "src \<in> ?V" "k src = 0" "dir src = 0" using inv by (simp_all add: search_inv_def)
  have ord: "\<And>c u. c \<in> cls \<Longrightarrow> u \<in> opn \<Longrightarrow> k c \<le> k u" using inv by (simp add: search_inv_def)
  have near: "\<And>c d. c \<in> cls \<Longrightarrow> hexdir d \<Longrightarrow> 0 \<le> enter (nb c d) \<Longrightarrow> nb c d \<in> ?V"
    using inv unfolding search_inv_def by blast
  obtain rk where rk: "\<And>u. u \<in> ?V \<Longrightarrow> u \<noteq> src \<Longrightarrow> 0 \<le> enter u \<and> hexdir (dir u) \<and>
          (\<exists>p \<in> cls. nb p (dir u) = u \<and> nb u (DIR_BACK (dir u)) = p \<and> rk p < (rk u :: nat)
             \<and> k u = k p + enter u \<and> (\<forall>q \<in> cls. \<forall>e. hexdir e \<and> nb q e = u \<longrightarrow> k p \<le> k q))"
    using search_inv_ranked [OF inv] by metis
  have old: "k' u = k u" "dir' u = dir u" if "u \<in> ?V" for u
    using that k' dir' nw by auto
  have new: "0 \<le> enter u" "k' u = k t + enter u" "u \<notin> ?V" if "u \<in> nw" for u
    using that k' nw by auto
  define rk' where "rk' u = (if u \<in> nw then Suc (rk t) else rk u)" for u
  have rkold: "rk' u = rk u" if "u \<in> ?V" for u using that nw by (simp add: rk'_def)
  have ranks: "0 \<le> enter u \<and> hexdir (dir' u) \<and>
      (\<exists>p \<in> insert t cls. nb p (dir' u) = u \<and> nb u (DIR_BACK (dir' u)) = p \<and> rk' p < rk' u
        \<and> k' u = k' p + enter u \<and> (\<forall>q \<in> insert t cls. \<forall>e. hexdir e \<and> nb q e = u \<longrightarrow> k' p \<le> k' q))"
    if u: "u \<in> opn - {t} \<union> nw \<union> insert t cls" "u \<noteq> src" for u
  proof (cases "u \<in> nw")
    case True
    have "\<not> (\<exists>q \<in> cls. \<exists>e. hexdir e \<and> nb q e = u)"
      using near new [OF True] by blast
    moreover have "k' t = k t" "rk' t = rk t" using old rkold t by auto
    moreover have "hexdir (dir' u)" "nb t (dir' u) = u" using dirn True by auto
    moreover have "nb u (DIR_BACK (dir' u)) = t" using symm calculation(4,5) by metis
    ultimately show ?thesis using new [OF True] True by (auto simp: rk'_def)
  next
    case False
    then have v: "u \<in> ?V" using u t by auto
    obtain p where p: "p \<in> cls" "nb p (dir u) = u" "nb u (DIR_BACK (dir u)) = p" "rk p < rk u"
      "k u = k p + enter u" "\<forall>q \<in> cls. \<forall>e. hexdir e \<and> nb q e = u \<longrightarrow> k p \<le> k q"
      using rk [OF v u(2)] by blast
    have "k p \<le> k t" using ord [OF p(1) t] .
    moreover have "\<And>q. q \<in> insert t cls \<Longrightarrow> k' q = k q" using old t by auto
    moreover have "k' p = k p" "rk' p = rk p" using old rkold p(1) by auto
    ultimately show ?thesis
      using p rk [OF v u(2)] old [OF v] rkold [OF v] by (intro conjI bexI [of _ p]) auto
  qed
  have le: "k c \<le> k t" if "c \<in> insert t cls" for c using that ord t by auto
  have a: "k' c \<le> k' u" if c: "c \<in> insert t cls" and u: "u \<in> opn - {t} \<union> nw" for c u
  proof (cases "u \<in> nw")
    case True
    then show ?thesis using le [OF c] new [OF True] old(1) [of c] c t by auto
  next
    case False
    then have "u \<in> opn" using u by simp
    then show ?thesis using c ord tmin t old(1) by auto
  qed
  have b: "nb c d \<in> opn - {t} \<union> nw \<union> insert t cls"
    if "c \<in> insert t cls" "hexdir d" "0 \<le> enter (nb c d)" for c d
  proof (cases "c = t")
    case True
    then show ?thesis using that nw by blast
  next
    case False
    then show ?thesis using that near [of c d] by auto
  qed
  have c: "src \<in> opn - {t} \<union> nw \<union> insert t cls" "k' src = 0" "dir' src = 0"
    using src old by auto
  have ex: "\<exists>rk :: int \<Rightarrow> nat. \<forall>u \<in> opn - {t} \<union> nw \<union> insert t cls. u \<noteq> src \<longrightarrow> 0 \<le> enter u \<and> hexdir (dir' u) \<and>
      (\<exists>p \<in> insert t cls. nb p (dir' u) = u \<and> nb u (DIR_BACK (dir' u)) = p \<and> rk p < rk u
        \<and> k' u = k' p + enter u \<and> (\<forall>q \<in> insert t cls. \<forall>e. hexdir e \<and> nb q e = u \<longrightarrow> k' p \<le> k' q))"
    by (rule exI [of _ rk'], intro ballI impI, rule ranks)
  show ?thesis unfolding search_inv_def
    by (intro conjI ex c ballI allI impI a b) simp_all
qed

lemma search_inv_lower:
  assumes inv: "search_inv enter nb src opn cls k dir"
  shows "route_ok enter nb src ds \<Longrightarrow>
    (route_end nb src ds \<in> opn \<union> cls \<longrightarrow> k (route_end nb src ds) \<le> route_cost enter nb src ds)
    \<and> (route_end nb src ds \<notin> cls \<longrightarrow> (\<forall>c \<in> cls. k c \<le> route_cost enter nb src ds))"
proof (induction ds rule: rev_induct)
  case Nil
  have "\<forall>c \<in> cls. k c \<le> 0" if "src \<notin> cls"
    using inv that unfolding search_inv_def by (metis Un_iff)
  then show ?case using inv by (simp add: search_inv_def)
next
  case (snoc d ds)
  let ?y = "route_end nb src ds" and ?c = "route_cost enter nb src ds"
  let ?z = "nb ?y d"
  have r: "route_ok enter nb src ds" "hexdir d" "0 \<le> enter ?z" using snoc.prems by simp_all
  note IH = snoc.IH [OF r(1)]
  have ord: "\<forall>c \<in> cls. \<forall>u \<in> opn. k c \<le> k u" using inv by (simp add: search_inv_def)
  have vis: "k ?z \<le> ?c + enter ?z" if zv: "?z \<in> opn \<union> cls"
  proof (cases "?z = src")
    case True
    then show ?thesis using inv route_cost_nonneg [OF snoc.prems] by (simp add: search_inv_def)
  next
    case False
    obtain p where p: "p \<in> cls" "k ?z = k p + enter ?z"
      "\<And>q e. q \<in> cls \<Longrightarrow> hexdir e \<Longrightarrow> nb q e = ?z \<Longrightarrow> k p \<le> k q"
      by (rule search_inv_pred [OF inv zv False]) (rule that)
    have "k p \<le> ?c"
    proof (cases "?y \<in> cls")
      case True
      then have "k p \<le> k ?y" by (rule p(3)) (simp_all only: r(2))
      then show ?thesis using IH True by force
    next
      case False
      then show ?thesis using IH p(1) by blast
    qed
    then show ?thesis using p(2) by simp
  qed
  moreover have "\<forall>c \<in> cls. k c \<le> ?c + enter ?z" if nz: "?z \<notin> cls"
  proof (cases "?z \<in> opn")
    case True
    then show ?thesis using vis ord by fastforce
  next
    case False
    then have "?y \<notin> cls" using inv r nz unfolding search_inv_def by blast
    then show ?thesis using IH r(3) by fastforce
  qed
  ultimately show ?case by simp
qed

lemma search_inv_route:
  assumes inv: "search_inv enter nb src opn cls k dir" and u: "u \<in> opn \<union> cls"
  shows "\<exists>ds. route_ok enter nb src ds \<and> route_end nb src ds = u \<and> route_cost enter nb src ds = k u"
proof -
  obtain rk where rk: "\<And>u. u \<in> opn \<union> cls \<Longrightarrow> u \<noteq> src \<Longrightarrow> 0 \<le> enter u \<and> hexdir (dir u) \<and>
          (\<exists>p \<in> cls. nb p (dir u) = u \<and> rk p < (rk u :: nat) \<and> k u = k p + enter u)"
    using search_inv_ranked [OF inv] by metis
  show ?thesis using u
  proof (induction "rk u" arbitrary: u rule: less_induct)
    case less
    show ?case
    proof (cases "u = src")
      case True
      then show ?thesis using inv by (intro exI [of _ "[]"]) (simp add: search_inv_def)
    next
      case False
      then obtain p where p: "0 \<le> enter u" "hexdir (dir u)" "p \<in> cls" "nb p (dir u) = u" "rk p < rk u"
        "k u = k p + enter u" using rk less.prems by metis
      then obtain ds where "route_ok enter nb src ds" "route_end nb src ds = p"
        "route_cost enter nb src ds = k p" using less.hyps [of p] by blast
      then show ?thesis using p by (intro exI [of _ "ds @ [dir u]"]) simp
    qed
  qed
qed

section \<open>The heap\<close>

text \<open>What a sift leaves alone: everything but the heap's order and the back references.\<close>

definition same_view :: "'c pf \<Rightarrow> 'c pf \<Rightarrow> bool" where
  "same_view st st' \<longleftrightarrow>
     pf_ready st' = pf_ready st \<and> pf_visit st' = pf_visit st \<and> pf_nheap st' = pf_nheap st
     \<and> pf_suid st' = pf_suid st \<and> pf_sx st' = pf_sx st \<and> pf_sy st' = pf_sy st
     \<and> pf_actor st' = pf_actor st \<and> pf_sct_cost st' = pf_sct_cost st
     \<and> (\<forall>u. map_visit (pf_map st' u) = map_visit (pf_map st u)
          \<and> map_dir (pf_map st' u) = map_dir (pf_map st u)
          \<and> map_cost (pf_map st' u) = map_cost (pf_map st u))"

lemma same_view_refl [simp]: "same_view st st"
  by (simp add: same_view_def)

lemma same_view_trans: "same_view a b \<Longrightarrow> same_view b c \<Longrightarrow> same_view a c"
  by (simp add: same_view_def)

lemma same_view_swap: "same_view st (pf_heap_swap i j st)"
  by (simp add: same_view_def pf_heap_swap_def set_heapi_def Let_def)

lemma heap_swap_nth:
  "pf_heap (pf_heap_swap i j st) k
     = (if k = j then pf_heap st i else if k = i then pf_heap st j else pf_heap st k)"
  by (auto simp: pf_heap_swap_def set_heapi_def Let_def)

text \<open>
  The heap and the map refer to each other. \<open>X\<close> are open sectors that are exempt: the one
  \<open>pf_close\<close> has taken off the heap but not yet marked closed.
\<close>

definition entry_ok :: "world \<Rightarrow> 'c pf \<Rightarrow> nat \<Rightarrow> bool" where
  "entry_ok w st i \<longleftrightarrow>
     (let e = pf_heap st i; m = pf_map st (heap_uid e)
      in sector_xy w (heap_x e) (heap_y e) \<and> XYOFFSET w (heap_x e) (heap_y e) = heap_uid e
         \<and> map_visit m = pf_visit st \<and> map_heapi m = i \<and> map_cost m = heap_cost e)"

definition linked :: "world \<Rightarrow> int set \<Rightarrow> 'c pf \<Rightarrow> bool" where
  "linked w X st \<longleftrightarrow>
     (\<forall>i < pf_nheap st. entry_ok w st i \<and> heap_uid (pf_heap st i) \<notin> X)
     \<and> (\<forall>u. 0 \<le> u \<and> u < WORLD_SZ w \<and> pf_is_open st u \<and> u \<notin> X \<longrightarrow>
          map_heapi (pf_map st u) < pf_nheap st \<and> heap_uid (pf_heap st (map_heapi (pf_map st u))) = u)"

lemma linked_inj:
  assumes "linked w X st" "i < pf_nheap st" "j < pf_nheap st"
    and "heap_uid (pf_heap st i) = heap_uid (pf_heap st j)"
  shows "i = j"
  using assms unfolding linked_def entry_ok_def Let_def by metis

lemma swap_map:
  assumes "linked w X st" "i < pf_nheap st" "j < pf_nheap st"
  shows "pf_map (pf_heap_swap i j st) u = (pf_map st u)\<lparr>map_heapi :=
     (if u = heap_uid (pf_heap st i) then j else if u = heap_uid (pf_heap st j) then i
      else map_heapi (pf_map st u))\<rparr>"
  using linked_inj [OF assms]
  by (auto simp: pf_heap_swap_def set_heapi_def Let_def)

lemma linked_swap:
  assumes l: "linked w X st" and ij: "i < pf_nheap st" "j < pf_nheap st"
  shows "linked w X (pf_heap_swap i j st)"
proof -
  have v: "pf_visit (pf_heap_swap i j st) = pf_visit st"
    using same_view_swap [of st i j] by (simp add: same_view_def)
  note m = swap_map [OF l ij]
  have inj: "heap_uid (pf_heap st k) = heap_uid (pf_heap st l) \<longleftrightarrow> k = l"
    if "k < pf_nheap st" "l < pf_nheap st" for k l using linked_inj [OF l that] by auto
  have "entry_ok w (pf_heap_swap i j st) k \<and> heap_uid (pf_heap (pf_heap_swap i j st) k) \<notin> X"
    if k: "k < pf_nheap st" for k
  proof -
    define t where "t = (if k = j then i else if k = i then j else k)"
    have t: "t < pf_nheap st" using ij k by (simp add: t_def)
    have e: "pf_heap (pf_heap_swap i j st) k = pf_heap st t" by (simp add: heap_swap_nth t_def)
    have h: "map_heapi (pf_map (pf_heap_swap i j st) (heap_uid (pf_heap st t))) = k"
      using inj [OF t ij(1)] inj [OF t ij(2)] l t by (auto simp: m t_def linked_def entry_ok_def Let_def)
    have "entry_ok w st t \<and> heap_uid (pf_heap st t) \<notin> X" using l t by (simp add: linked_def)
    moreover have "map_visit (pf_map (pf_heap_swap i j st) u) = map_visit (pf_map st u)"
      "map_cost (pf_map (pf_heap_swap i j st) u) = map_cost (pf_map st u)" for u
      by (simp_all add: m)
    ultimately show ?thesis unfolding entry_ok_def Let_def e h v by metis
  qed
  moreover have "map_heapi (pf_map (pf_heap_swap i j st) u) < pf_nheap st
      \<and> heap_uid (pf_heap (pf_heap_swap i j st) (map_heapi (pf_map (pf_heap_swap i j st) u))) = u"
    if u: "0 \<le> u" "u < WORLD_SZ w" "pf_is_open (pf_heap_swap i j st) u" "u \<notin> X" for u
  proof -
    have "pf_is_open st u" using u(3) by (simp add: pf_is_open_def m v)
    then have "map_heapi (pf_map st u) < pf_nheap st" "heap_uid (pf_heap st (map_heapi (pf_map st u))) = u"
      using l u by (simp_all add: linked_def)
    then show ?thesis using ij inj by (auto simp: m heap_swap_nth)
  qed
  ultimately show ?thesis by (simp add: linked_def)
qed

abbreviation hcost :: "'c pf \<Rightarrow> nat \<Rightarrow> 'c" where
  "hcost st i \<equiv> heap_cost (pf_heap st i)"

abbreviation par :: "nat \<Rightarrow> nat" where
  "par i \<equiv> (i - 1) div 2"

lemma par_less: "0 < i \<Longrightarrow> par i < i"
  by auto

definition heap_ord :: "'c::linorder pf \<Rightarrow> bool" where
  "heap_ord st \<longleftrightarrow> (\<forall>i. 0 < i \<and> i < pf_nheap st \<longrightarrow> hcost st (par i) \<le> hcost st i)"

lemma hcost_swap:
  "hcost (pf_heap_swap i j st) k
     = (if k = j then hcost st i else if k = i then hcost st j else hcost st k)"
  by (simp add: heap_swap_nth)

lemma heap_ord_min: "heap_ord st \<Longrightarrow> i < pf_nheap st \<Longrightarrow> hcost st 0 \<le> hcost st i"
proof (induction i rule: less_induct)
  case (less i)
  show ?case
  proof (cases "i = 0")
    case False
    then have "hcost st 0 \<le> hcost st (par i)" using less by auto
    also have "\<dots> \<le> hcost st i" using False less.prems by (simp add: heap_ord_def)
    finally show ?thesis .
  qed simp
qed

text \<open>Sifting up repairs an order broken only above \<open>c\<close>, sifting down one broken only below \<open>r\<close>.\<close>

lemma pf_sift_up_ok:
  assumes "linked w X st" "c < pf_nheap st"
    and "\<And>i. 0 < i \<Longrightarrow> i < pf_nheap st \<Longrightarrow> i \<noteq> c \<Longrightarrow> hcost st (par i) \<le> hcost st i"
    and "\<And>i. 0 < i \<Longrightarrow> i < pf_nheap st \<Longrightarrow> par i = c \<Longrightarrow> 0 < c \<Longrightarrow> hcost st (par c) \<le> hcost st i"
  shows "linked w X (pf_sift_up c st) \<and> heap_ord (pf_sift_up c st) \<and> same_view st (pf_sift_up c st)"
  using assms
proof (induction c st rule: pf_sift_up.induct)
  case (1 c st)
  let ?p = "par c" and ?s = "pf_heap_swap (par c) c st"
  show ?case
  proof (cases "0 < c \<and> \<not> hcost st ?p < hcost st c")
    case False
    then have "pf_sift_up c st = st" by (subst pf_sift_up.simps) (auto simp: Let_def)
    moreover have "hcost st (par i) \<le> hcost st i" if "0 < i" "i < pf_nheap st" for i
      using "1.prems"(3) [OF that] False that by (cases "i = c") auto
    then have "heap_ord st" by (simp add: heap_ord_def)
    ultimately show ?thesis using "1.prems"(1) by simp
  next
    case True
    then have step: "pf_sift_up c st = pf_sift_up ?p ?s"
      by (subst pf_sift_up.simps) (simp add: Let_def)
    have pc: "?p < c" "?p < pf_nheap st" using True "1.prems"(2) by auto
    have le: "hcost st c \<le> hcost st ?p" using True by (simp add: not_less)
    have l: "linked w X ?s" by (rule linked_swap [OF "1.prems"(1) pc(2) "1.prems"(2)])
    have o: "hcost ?s (par i) \<le> hcost ?s i" if i: "0 < i" "i < pf_nheap ?s" "i \<noteq> ?p" for i
    proof -
      have n: "i < pf_nheap st" using i by simp
      have "par i \<noteq> i" "?p \<noteq> c" using i pc by auto
      then show ?thesis
        using "1.prems"(3) [OF i(1) n] "1.prems"(4) [OF i(1) n] le i True
        by (auto simp: hcost_swap intro: order_trans)
    qed
    have g: "hcost ?s (par ?p) \<le> hcost ?s i"
      if i: "0 < i" "i < pf_nheap ?s" "par i = ?p" "0 < ?p" for i
    proof -
      have n: "i < pf_nheap st" using i by simp
      have "par ?p < ?p" "?p < i" using par_less [OF i(4)] par_less [OF i(1)] i(3) by simp_all
      then have ne: "par ?p \<noteq> ?p" "par ?p \<noteq> c" "?p \<noteq> c" "i \<noteq> ?p" using pc(1) by simp_all
      have "hcost st (par ?p) \<le> hcost st ?p" using "1.prems"(3) [OF i(4) pc(2)] ne by simp
      then show ?thesis
        using "1.prems"(3) [OF i(1) n] i(3) ne by (auto simp: hcost_swap intro: order_trans)
    qed
    have "linked w X (pf_sift_up ?p ?s) \<and> heap_ord (pf_sift_up ?p ?s) \<and> same_view ?s (pf_sift_up ?p ?s)"
      by (rule "1.IH" [OF refl _ _ l _ o g]) (use True pc in auto)
    then show ?thesis unfolding step using same_view_trans [OF same_view_swap] by blast
  qed
qed

lemma pf_sift_down_ok:
  assumes "linked w X st" "r < pf_nheap st"
    and "\<And>i. 0 < i \<Longrightarrow> i < pf_nheap st \<Longrightarrow> par i \<noteq> r \<Longrightarrow> hcost st (par i) \<le> hcost st i"
    and "\<And>i. 0 < i \<Longrightarrow> i < pf_nheap st \<Longrightarrow> par i = r \<Longrightarrow> 0 < r \<Longrightarrow> hcost st (par r) \<le> hcost st i"
  shows "linked w X (pf_sift_down r st) \<and> heap_ord (pf_sift_down r st) \<and> same_view st (pf_sift_down r st)"
  using assms
proof (induction r st rule: pf_sift_down.induct)
  case (1 r st)
  define c where "c = (if 2 * r + 2 < pf_nheap st \<and> hcost st (2 * r + 1) > hcost st (2 * r + 2)
    then 2 * r + 2 else 2 * r + 1)"
  let ?s = "pf_heap_swap r c st"
  have child: "i = 2 * r + 1 \<or> i = 2 * r + 2" if "0 < i" "par i = r" for i using that by presburger
  have unfold: "pf_sift_down r st =
      (if 2 * r + 1 < pf_nheap st then if hcost st r < hcost st c then st else pf_sift_down c ?s else st)"
    by (subst pf_sift_down.simps) (simp add: Let_def c_def)
  show ?case
  proof (cases "2 * r + 1 < pf_nheap st \<and> \<not> hcost st r < hcost st c")
    case False
    then have stop: "pf_sift_down r st = st" unfolding unfold by auto
    have "hcost st (par i) \<le> hcost st i" if i: "0 < i" "i < pf_nheap st" for i
    proof (cases "par i = r")
      case True
      then show ?thesis using child [OF i(1) True] i False by (auto simp: c_def split: if_splits)
    next
      case ne: False
      then show ?thesis by (rule "1.prems"(3) [OF i])
    qed
    then show ?thesis using "1.prems"(1) by (simp add: stop heap_ord_def)
  next
    case True
    have step: "pf_sift_down r st = pf_sift_down c ?s" unfolding unfold using True by simp
    have c: "c < pf_nheap st" "r < c" "par c = r" "0 < c" using True by (auto simp: c_def)
    have le: "hcost st c \<le> hcost st r" using True by (simp add: not_less)
    have cmin: "hcost st c \<le> hcost st i" if "0 < i" "i < pf_nheap st" "par i = r" for i
      using child [OF that(1,3)] that(2) by (auto simp: c_def)
    have l: "linked w X ?s" by (rule linked_swap [OF "1.prems"(1,2) c(1)])
    have o: "hcost ?s (par i) \<le> hcost ?s i" if i: "0 < i" "i < pf_nheap ?s" "par i \<noteq> c" for i
    proof -
      have n: "i < pf_nheap st" using i by simp
      have ne: "r \<noteq> c" "par i \<noteq> i" using c i by auto
      show ?thesis
      proof (cases "par i = r")
        case True
        then show ?thesis using cmin [OF i(1) n True] le ne c by (auto simp: hcost_swap)
      next
        case False
        then have a: "hcost st (par i) \<le> hcost st i" by (rule "1.prems"(3) [OF i(1) n])
        moreover have "hcost st (par r) \<le> hcost st c" if "i = r"
          using "1.prems"(4) [OF c(4,1,3)] i that by simp
        ultimately show ?thesis using False i ne c by (auto simp: hcost_swap)
      qed
    qed
    have g: "hcost ?s (par c) \<le> hcost ?s i" if i: "0 < i" "i < pf_nheap ?s" "par i = c" "0 < c" for i
    proof -
      have n: "i < pf_nheap st" using i by simp
      have ne: "r \<noteq> c" "i \<noteq> c" "i \<noteq> r" "par i \<noteq> r" using c i by auto
      have "hcost st c \<le> hcost st i" using "1.prems"(3) [OF i(1) n ne(4)] i(3) by simp
      then show ?thesis using ne c by (simp add: hcost_swap)
    qed
    have eqc: "c = (if 2 * r + 1 + 1 < pf_nheap st \<and> hcost st (2 * r + 1 + 1) < hcost st (2 * r + 1)
        then 2 * r + 1 + 1 else 2 * r + 1)" by (simp add: c_def)
    have "linked w X (pf_sift_down c ?s) \<and> heap_ord (pf_sift_down c ?s) \<and> same_view ?s (pf_sift_down c ?s)"
      by (rule "1.IH" [OF refl _ eqc _ l _ o g]) (use True c in auto)
    then show ?thesis unfolding step using same_view_trans [OF same_view_swap] by blast
  qed
qed

section \<open>Opening and closing\<close>

definition pf_static :: "'c pf \<Rightarrow> bool \<times> 16 word \<times> int \<times> int \<times> (int \<Rightarrow> int \<Rightarrow> 'c)" where
  "pf_static st = (pf_ready st, pf_visit st, pf_suid st, pf_actor st, pf_sct_cost st)"

definition pf_uids :: "world \<Rightarrow> int set" where
  "pf_uids w = {0..<WORLD_SZ w}"

definition pf_opened :: "world \<Rightarrow> 'c pf \<Rightarrow> int set" where
  "pf_opened w st = {u \<in> pf_uids w. pf_is_open st u}"

definition pf_closed :: "world \<Rightarrow> 'c pf \<Rightarrow> int set" where
  "pf_closed w st = {u \<in> pf_uids w. pf_is_closed st u}"

definition pf_ok :: "world \<Rightarrow> 'c::linorder pf \<Rightarrow> bool" where
  "pf_ok w st \<longleftrightarrow> world_ok w \<and> linked w {} st \<and> heap_ord st \<and> pf_visit st < pf_visit st + 1
     \<and> (\<forall>u \<in> pf_uids w. map_visit (pf_map st u) \<le> pf_visit st + 1)"

lemma pf_openedD: "u \<in> pf_opened w st \<longleftrightarrow> u \<in> pf_uids w \<and> map_visit (pf_map st u) = pf_visit st"
  by (simp add: pf_opened_def pf_is_open_def)

lemma pf_closedD:
  "pf_ok w st \<Longrightarrow> u \<in> pf_closed w st \<longleftrightarrow> u \<in> pf_uids w \<and> map_visit (pf_map st u) = pf_visit st + 1"
  unfolding pf_closed_def pf_is_closed_def pf_ok_def
  by (auto simp: inc_le intro: antisym)

lemma pf_unvisited_iff:
  "pf_ok w st \<Longrightarrow> u \<in> pf_uids w \<Longrightarrow> pf_is_unvisited st u \<longleftrightarrow> u \<notin> pf_opened w st \<union> pf_closed w st"
  by (auto simp: pf_opened_def pf_closed_def pf_is_open_def pf_is_closed_def pf_is_unvisited_def)

lemma XYOFFSET_uids: "world_ok w \<Longrightarrow> sector_xy w x y \<Longrightarrow> XYOFFSET w x y \<in> pf_uids w"
  using XYOFFSET_bounds by (simp add: pf_uids_def)

lemma entry_uids: "pf_ok w st \<Longrightarrow> i < pf_nheap st \<Longrightarrow> heap_uid (pf_heap st i) \<in> pf_opened w st"
  unfolding pf_ok_def linked_def entry_ok_def Let_def pf_openedD
  by (metis XYOFFSET_uids)

lemma opened_entry:
  assumes "pf_ok w st" "u \<in> pf_opened w st"
  obtains i where "i < pf_nheap st" "heap_uid (pf_heap st i) = u" "map_cost (pf_map st u) = hcost st i"
proof -
  have "map_heapi (pf_map st u) < pf_nheap st" "heap_uid (pf_heap st (map_heapi (pf_map st u))) = u"
    using assms by (auto simp: pf_ok_def linked_def pf_opened_def pf_uids_def)
  moreover from this have "map_cost (pf_map st u) = hcost st (map_heapi (pf_map st u))"
    using assms by (auto simp: pf_ok_def linked_def entry_ok_def Let_def)
  ultimately show ?thesis by (rule that)
qed

lemma same_view_sets:
  "same_view st st' \<Longrightarrow> pf_opened w st' = pf_opened w st \<and> pf_closed w st' = pf_closed w st
    \<and> pf_static st' = pf_static st"
  by (simp add: same_view_def pf_opened_def pf_closed_def pf_is_open_def pf_is_closed_def pf_static_def)

lemma pf_open_ok:
  assumes ok: "pf_ok w st" and s: "sector_xy w x y" and u: "uid = XYOFFSET w x y"
    and new: "uid \<notin> pf_opened w st \<union> pf_closed w st"
  shows "pf_ok w (pf_open uid x y d c st)
    \<and> pf_opened w (pf_open uid x y d c st) = insert uid (pf_opened w st)
    \<and> pf_closed w (pf_open uid x y d c st) = pf_closed w st
    \<and> (\<lambda>u. map_cost (pf_map (pf_open uid x y d c st) u)) = (\<lambda>u. map_cost (pf_map st u))(uid := c)
    \<and> (\<lambda>u. map_dir (pf_map (pf_open uid x y d c st) u)) = (\<lambda>u. map_dir (pf_map st u))(uid := d)
    \<and> pf_static (pf_open uid x y d c st) = pf_static st
    \<and> pf_nheap (pf_open uid x y d c st) = pf_nheap st + 1"
proof -
  let ?n = "pf_nheap st"
  define a where "a = st\<lparr>pf_nheap := ?n + 1,
     pf_map := (pf_map st)(uid := \<lparr>map_visit = pf_visit st, map_dir = d, map_heapi = ?n, map_cost = c\<rparr>),
     pf_heap := (pf_heap st)(?n := \<lparr>heap_uid = uid, heap_x = x, heap_y = y, heap_cost = c\<rparr>)\<rparr>"
  have res: "pf_open uid x y d c st = pf_sift_up ?n a" by (simp add: pf_open_def a_def Let_def)
  have W: "world_ok w" and lk: "linked w {} st" and ho: "heap_ord st" using ok by (simp_all add: pf_ok_def)
  have uu: "uid \<in> pf_uids w" using XYOFFSET_uids [OF W s] u by simp
  have ent: "heap_uid (pf_heap st i) \<noteq> uid" if "i < ?n" for i
    using entry_uids [OF ok that] new by auto
  have "linked w {} a"
    unfolding linked_def
  proof (intro conjI allI impI)
    fix i assume "i < pf_nheap a"
    then consider "i < ?n" | "i = ?n" by (force simp: a_def)
    then show "entry_ok w a i"
    proof cases
      case 1
      then have "entry_ok w st i" using lk by (simp add: linked_def)
      then show ?thesis using 1 ent [OF 1] by (simp add: entry_ok_def Let_def a_def)
    next
      case 2
      then show ?thesis using s u by (simp add: entry_ok_def Let_def a_def)
    qed
  next
    fix v assume v: "0 \<le> v \<and> v < WORLD_SZ w \<and> pf_is_open a v \<and> v \<notin> {}"
    show "map_heapi (pf_map a v) < pf_nheap a" "heap_uid (pf_heap a (map_heapi (pf_map a v))) = v"
    proof (atomize (full), cases "v = uid")
      case False
      then have "map_heapi (pf_map st v) < ?n \<and> heap_uid (pf_heap st (map_heapi (pf_map st v))) = v"
        using v lk by (simp add: linked_def pf_is_open_def a_def)
      then show "map_heapi (pf_map a v) < pf_nheap a \<and> heap_uid (pf_heap a (map_heapi (pf_map a v))) = v"
        using False by (simp add: a_def)
    qed (simp add: a_def)
  qed simp
  moreover have "hcost a (par i) \<le> hcost a i" if "0 < i" "i < pf_nheap a" "i \<noteq> ?n" for i
    using that ho par_less [of i] by (auto simp: a_def heap_ord_def)
  moreover have "hcost a (par ?n) \<le> hcost a i" if "0 < i" "i < pf_nheap a" "par i = ?n" "0 < ?n" for i
    using that par_less [of i] by (simp add: a_def)
  ultimately have sift: "linked w {} (pf_sift_up ?n a)" "heap_ord (pf_sift_up ?n a)"
    "same_view a (pf_sift_up ?n a)"
    using pf_sift_up_ok [of w "{}" a ?n] by (simp_all add: a_def)
  have "pf_opened w a = insert uid (pf_opened w st)"
    using uu by (auto simp: pf_openedD a_def split: if_splits)
  moreover have "pf_closed w a = pf_closed w st"
    using new uu by (auto simp: pf_closed_def pf_is_closed_def a_def split: if_splits)
  moreover have "pf_static a = pf_static st" by (simp add: pf_static_def a_def)
  moreover have "pf_ok w (pf_sift_up ?n a)"
    using sift ok unfolding pf_ok_def same_view_def by (auto simp: a_def)
  ultimately show ?thesis
    unfolding res using same_view_sets [OF sift(3)] sift(3)
    by (auto simp: same_view_def a_def fun_eq_iff)
qed

lemma pf_close_ok:
  assumes ok: "pf_ok w st" and ne: "0 < pf_nheap st"
  defines "tp \<equiv> heap_uid (pf_heap st 0)"
  shows "pf_ok w (pf_close st)
    \<and> pf_opened w (pf_close st) = pf_opened w st - {tp}
    \<and> pf_closed w (pf_close st) = insert tp (pf_closed w st)
    \<and> (\<lambda>u. map_cost (pf_map (pf_close st) u)) = (\<lambda>u. map_cost (pf_map st u))
    \<and> (\<lambda>u. map_dir (pf_map (pf_close st) u)) = (\<lambda>u. map_dir (pf_map st u))
    \<and> pf_static (pf_close st) = pf_static st"
proof -
  let ?n = "pf_nheap st - 1"
  have W: "world_ok w" and lk: "linked w {} st" and ho: "heap_ord st"
    and vis: "pf_visit st < pf_visit st + 1" using ok by (simp_all add: pf_ok_def)
  define b where "b = (if ?n \<noteq> 0 then pf_sift_down 0 (set_heapi (heap_uid (pf_heap st ?n)) 0
      (st\<lparr>pf_nheap := ?n, pf_heap := (pf_heap st)(0 := pf_heap st ?n)\<rparr>)) else st\<lparr>pf_nheap := ?n\<rparr>)"
  define fin where "fin st' = st'\<lparr>pf_map := (pf_map st')(tp := (pf_map st' tp)\<lparr>map_visit := pf_visit st' + 1\<rparr>)\<rparr>"
    for st' :: "'a pf"
  have res: "pf_close st = fin b"
    by (simp add: pf_close_def b_def fin_def tp_def Let_def)
  have tu: "tp \<in> pf_opened w st" using entry_uids [OF ok ne] by (simp add: tp_def)
  have inj: "heap_uid (pf_heap st i) = heap_uid (pf_heap st j) \<longleftrightarrow> i = j"
    if "i < pf_nheap st" "j < pf_nheap st" for i j using linked_inj [OF lk that] by auto
  have b: "linked w {tp} b \<and> heap_ord b \<and> pf_nheap b = ?n \<and> pf_static b = pf_static st
      \<and> (\<forall>u. map_visit (pf_map b u) = map_visit (pf_map st u) \<and> map_dir (pf_map b u) = map_dir (pf_map st u)
            \<and> map_cost (pf_map b u) = map_cost (pf_map st u))"
  proof (cases "?n = 0")
    case True
    have "linked w {tp} (st\<lparr>pf_nheap := ?n\<rparr>)"
      unfolding linked_def
    proof (intro conjI allI impI)
      fix u assume u: "0 \<le> u \<and> u < WORLD_SZ w \<and> pf_is_open (st\<lparr>pf_nheap := ?n\<rparr>) u \<and> u \<notin> {tp}"
      then have "map_heapi (pf_map st u) < pf_nheap st" "heap_uid (pf_heap st (map_heapi (pf_map st u))) = u"
        using lk by (simp_all add: linked_def pf_is_open_def)
      moreover from this True ne have "map_heapi (pf_map st u) = 0" by simp
      ultimately have False using u by (simp add: tp_def)
      then show "map_heapi (pf_map (st\<lparr>pf_nheap := ?n\<rparr>) u) < pf_nheap (st\<lparr>pf_nheap := ?n\<rparr>)"
        "heap_uid (pf_heap (st\<lparr>pf_nheap := ?n\<rparr>) (map_heapi (pf_map (st\<lparr>pf_nheap := ?n\<rparr>) u))) = u" by simp_all
    qed (use True in simp_all)
    moreover have "heap_ord (st\<lparr>pf_nheap := ?n\<rparr>)" using True by (simp add: heap_ord_def)
    moreover have "b = st\<lparr>pf_nheap := ?n\<rparr>" unfolding b_def using True by simp
    ultimately show ?thesis by (simp add: pf_static_def)
  next
    case False
    let ?l = "heap_uid (pf_heap st ?n)"
    have nn: "?n < pf_nheap st" using ne by simp
    have lne: "?l \<noteq> tp" unfolding tp_def using inj [OF nn ne] False by simp
    define a where "a = set_heapi ?l 0 (st\<lparr>pf_nheap := ?n, pf_heap := (pf_heap st)(0 := pf_heap st ?n)\<rparr>)"
    have ah: "pf_heap a i = (if i = 0 then pf_heap st ?n else pf_heap st i)" for i
      by (simp add: a_def set_heapi_def)
    have am: "pf_map a u = (pf_map st u)\<lparr>map_heapi := (if u = ?l then 0 else map_heapi (pf_map st u))\<rparr>" for u
      by (simp add: a_def set_heapi_def)
    have av: "pf_visit a = pf_visit st" "pf_nheap a = ?n" "pf_static a = pf_static st"
      by (simp_all add: a_def set_heapi_def pf_static_def)
    have "linked w {tp} a"
      unfolding linked_def
    proof (intro conjI allI impI)
      fix i assume i: "i < pf_nheap a"
      have e: "entry_ok w st i" "entry_ok w st ?n" using i nn lk av by (simp_all add: linked_def)
      show "entry_ok w a i"
      proof (cases "i = 0")
        case True
        then show ?thesis using e by (simp add: entry_ok_def Let_def ah am av)
      next
        case False
        then have "heap_uid (pf_heap st i) \<noteq> ?l" using inj [OF _ nn, of i] i av by simp
        then show ?thesis using False e by (simp add: entry_ok_def Let_def ah am av)
      qed
      show "heap_uid (pf_heap a i) \<notin> {tp}"
        using lne inj [OF _ ne, of i] i av by (auto simp: ah tp_def)
    next
      fix u assume u: "0 \<le> u \<and> u < WORLD_SZ w \<and> pf_is_open a u \<and> u \<notin> {tp}"
      then have h: "map_heapi (pf_map st u) < pf_nheap st" "heap_uid (pf_heap st (map_heapi (pf_map st u))) = u"
        using lk by (simp_all add: linked_def pf_is_open_def am av)
      have "map_heapi (pf_map st u) \<noteq> 0" using h u unfolding tp_def by (metis singletonI)
      moreover have "u \<noteq> ?l \<Longrightarrow> map_heapi (pf_map st u) \<noteq> ?n" using h by auto
      ultimately show "map_heapi (pf_map a u) < pf_nheap a" "heap_uid (pf_heap a (map_heapi (pf_map a u))) = u"
        using h False by (auto simp: am ah av)
    qed
    moreover have "hcost a (par i) \<le> hcost a i" if "0 < i" "i < pf_nheap a" "par i \<noteq> 0" for i
      using that ho by (simp add: ah av heap_ord_def)
    ultimately have "linked w {tp} b \<and> heap_ord b \<and> same_view a b"
      using pf_sift_down_ok [of w "{tp}" a 0] False av by (simp add: b_def a_def)
    then show ?thesis using same_view_sets [of a b] av
      by (auto simp: same_view_def am)
  qed
  have bv: "pf_visit b = pf_visit st" using b by (simp add: pf_static_def)
  have "linked w {} (fin b)"
    unfolding linked_def
  proof (intro conjI allI impI)
    fix i assume "i < pf_nheap (fin b)"
    then have "entry_ok w b i" "heap_uid (pf_heap b i) \<noteq> tp" using b by (simp_all add: linked_def fin_def)
    then show "entry_ok w (fin b) i" by (simp add: entry_ok_def Let_def fin_def)
  next
    fix u assume u: "0 \<le> u \<and> u < WORLD_SZ w \<and> pf_is_open (fin b) u \<and> u \<notin> {}"
    then have ne: "u \<noteq> tp" using vis bv by (auto simp: pf_is_open_def fin_def)
    then have "pf_is_open b u" using u by (simp add: pf_is_open_def fin_def)
    moreover have "linked w {tp} b" using b by simp
    ultimately have "map_heapi (pf_map b u) < pf_nheap b \<and> heap_uid (pf_heap b (map_heapi (pf_map b u))) = u"
      using u ne unfolding linked_def by blast
    then show "map_heapi (pf_map (fin b) u) < pf_nheap (fin b)"
      "heap_uid (pf_heap (fin b) (map_heapi (pf_map (fin b) u))) = u"
      using ne by (simp_all add: fin_def)
  qed simp
  moreover have "heap_ord (fin b)" using b by (simp add: heap_ord_def fin_def)
  ultimately have ok': "pf_ok w (fin b)"
    using ok b bv by (auto simp: pf_ok_def fin_def)
  moreover have "pf_opened w (fin b) = pf_opened w st - {tp}"
    using vis bv b by (auto simp: pf_openedD fin_def split: if_splits)
  moreover have "pf_closed w (fin b) = insert tp (pf_closed w st)"
    using vis bv b tu unfolding pf_closed_def pf_is_closed_def pf_openedD
    by (auto simp: fin_def split: if_splits)
  ultimately show ?thesis
    unfolding res using b by (auto simp: fin_def pf_static_def fun_eq_iff)
qed

text \<open>The arrays implement the interface of the search.\<close>

lemma pf_opened_nonempty: "pf_ok w st \<Longrightarrow> pf_opened w st \<noteq> {} \<longleftrightarrow> 0 < pf_nheap st"
  using entry_uids opened_entry by (metis ex_in_conv gr_implies_not0 not_gr_zero)

lemma pf_top_min:
  assumes "pf_ok w st" "u \<in> pf_opened w st"
  shows "map_cost (pf_map st (heap_uid (pf_heap st 0))) \<le> map_cost (pf_map st u)"
proof -
  obtain i where i: "i < pf_nheap st" "map_cost (pf_map st u) = hcost st i"
    using opened_entry [OF assms] by blast
  have "0 < pf_nheap st" using i by simp
  then have "map_cost (pf_map st (heap_uid (pf_heap st 0))) = hcost st 0"
    using assms(1) by (simp add: pf_ok_def linked_def entry_ok_def Let_def)
  then show ?thesis using heap_ord_min [of st i] assms(1) i by (simp add: pf_ok_def)
qed

definition pf_item_ok :: "world \<Rightarrow> int \<times> int \<times> int \<times> nat \<Rightarrow> bool" where
  "pf_item_ok w = (\<lambda>(uid, x, y, d). world_ok w \<and> sector_xy w x y \<and> uid = XYOFFSET w x y)"

definition pf_push :: "int \<times> int \<times> int \<times> nat \<Rightarrow> 'c::linorder \<Rightarrow> 'c pf \<Rightarrow> 'c pf" where
  "pf_push = (\<lambda>(uid, x, y, d) c st. pf_open uid x y d c st)"

interpretation pfq: open_queue "\<lambda>st. pf_ok w st \<and> pf_static st = z" "pf_uids w" fst "pf_item_ok w"
    "\<lambda>(uid, x, y, d). d" "pf_opened w" "pf_closed w" "\<lambda>st u. map_cost (pf_map st u)"
    "\<lambda>st u. map_dir (pf_map st u)" "\<lambda>st. heap_uid (pf_heap st 0)" pf_push pf_close
  for w z
proof (unfold_locales, goal_cases)
  case (1 s)
  then show ?case by (auto simp: pf_opened_def pf_closed_def pf_is_open_def pf_is_closed_def)
next
  case (2 k)
  then show ?case by (auto simp: pf_item_ok_def XYOFFSET_uids)
next
  case (3 s)
  then show ?case using entry_uids pf_opened_nonempty by blast
next
  case (4 s u)
  then show ?case using pf_top_min by blast
next
  case (5 s k c)
  then show ?case
    using pf_open_ok [of w s "fst (snd k)" "fst (snd (snd k))" "fst k" "snd (snd (snd k))" c]
    by (auto simp: pf_item_ok_def pf_push_def)
next
  case (6 s)
  then have "0 < pf_nheap s" using pf_opened_nonempty by blast
  then show ?case using pf_close_ok [of w s] 6 by simp
qed

end
