(* ===== verification/PathSearch.thy ===== *)
theory PathSearch
  imports PathFind
begin

text \<open>
  That \<open>path_find_to\<close> and \<open>path_find_route\<close> of \<open>src/lib/common/pathfind.c\<close> are right: the code's
  round is one step of the abstract search of \<open>PathFind\<close> over the interface \<open>open_queue\<close>, the
  loop ends because every round closes a sector, and what it finds is a cheapest route.
\<close>

section \<open>Neighbours\<close>

text \<open>The UID of the sector in direction \<open>d\<close> from sector \<open>u\<close>.\<close>

definition sct_nb :: "world \<Rightarrow> int \<Rightarrow> nat \<Rightarrow> int" where
  "sct_nb w u d = (let p = sector_step w d (sctoff2xy w u) in XYOFFSET w (fst p) (snd p))"

lemma world_size_ge2: "world_ok w \<Longrightarrow> 2 \<le> world_x w \<and> 2 \<le> world_y w"
  unfolding world_ok_def by presburger

lemma diroff_small:
  assumes "hexdir d"
  shows "- 2 \<le> fst (diroff ! d)" "fst (diroff ! d) \<le> 2" "- 2 \<le> snd (diroff ! d)" "snd (diroff ! d) \<le> 2"
  by (rule hexdir_cases [OF assms]; simp)+

lemma in_dir_axis:
  assumes "2 \<le> m" "m \<le> 16384" "0 \<le> c" "c < m" "- 2 \<le> e" "e \<le> (2::int)"
  shows "(if c + e < 0 then to_coord (c + e + m) else if c + e \<ge> m then to_coord (c + e - m)
          else to_coord (c + e)) = (c + e) mod m"
  using assms mod_wrap [of c m e] by (auto simp: to_coord_id)

lemma in_dir_step:
  assumes ok: "world_ok w" and s: "sector_xy w x y" and d: "hexdir d"
  shows "(x_in_dir w x d, y_in_dir w y d) = sector_step w d (x, y)"
proof -
  have W: "2 \<le> world_x w" "world_x w \<le> 16384" "2 \<le> world_y w" "world_y w \<le> 16384"
    using world_size_ge2 [OF ok] ok by (simp_all add: world_okD)
  have xy: "0 \<le> x" "x < world_x w" "0 \<le> y" "y < world_y w" using s by (simp_all add: sector_xy_def)
  have "x_in_dir w x d = (x + fst (diroff ! d)) mod world_x w"
    unfolding x_in_dir_def Let_def
    by (rule in_dir_axis [OF W(1,2) xy(1,2) diroff_small(1,2) [OF d]])
  moreover have "y_in_dir w y d = (y + snd (diroff ! d)) mod world_y w"
    unfolding y_in_dir_def Let_def
    by (rule in_dir_axis [OF W(3,4) xy(3,4) diroff_small(3,4) [OF d]])
  ultimately show ?thesis using W by (simp add: sector_step_def XNORM_mod YNORM_mod)
qed

lemma in_dir_sector:
  assumes ok: "world_ok w" and s: "sector_xy w x y" and d: "hexdir d"
  shows "sector_xy w (x_in_dir w x d) (y_in_dir w y d)"
    and "sct_nb w (XYOFFSET w x y) d = XYOFFSET w (x_in_dir w x d) (y_in_dir w y d)"
proof -
  note st = in_dir_step [OF assms, symmetric]
  show "sector_xy w (x_in_dir w x d) (y_in_dir w y d)" by (rule sector_step_xy [OF assms st])
  show "sct_nb w (XYOFFSET w x y) d = XYOFFSET w (x_in_dir w x d) (y_in_dir w y d)"
    by (simp only: sct_nb_def Let_def sctoff2xy_XYOFFSET [OF ok s] st fst_conv snd_conv)
qed

lemma DIR_BACK_hexdir: "hexdir d \<Longrightarrow> hexdir (DIR_BACK d)"
  by (auto simp: DIR_BACK_def)

lemma diroff_back:
  assumes "hexdir d"
  shows "fst (diroff ! DIR_BACK d) = - fst (diroff ! d)" "snd (diroff ! DIR_BACK d) = - snd (diroff ! d)"
  by (rule hexdir_cases [OF assms]; simp add: DIR_BACK_def)+

lemma step_back:
  assumes ok: "world_ok w" and s: "sector_xy w x y" and d: "hexdir d"
  shows "sector_step w (DIR_BACK d) (sector_step w d (x, y)) = (x, y)"
proof -
  have W: "0 < world_x w" "0 < world_y w" using ok by (simp_all add: world_okD)
  have "((a + e) mod m + - e) mod m = a" if "0 \<le> a" "a < m" for a e m :: int
  proof -
    have "((a + e) mod m + - e) mod m = (a + e + - e) mod m" by (rule mod_add_left_eq)
    then show ?thesis using that by simp
  qed
  then show ?thesis using W s
    by (simp add: sector_step_def XNORM_mod YNORM_mod diroff_back [OF d] sector_xy_def)
qed

lemma sct_nb_back:
  assumes ok: "world_ok w" and s: "sector_xy w x y" and d: "hexdir d"
  shows "sct_nb w (sct_nb w (XYOFFSET w x y) d) (DIR_BACK d) = XYOFFSET w x y"
proof -
  note b = DIR_BACK_hexdir [OF d]
  note n = in_dir_sector [OF ok s d]
  have "(x_in_dir w (x_in_dir w x d) (DIR_BACK d), y_in_dir w (y_in_dir w y d) (DIR_BACK d)) = (x, y)"
    using in_dir_step [OF ok n(1) b] in_dir_step [OF ok s d] step_back [OF ok s d] by simp
  then show ?thesis using in_dir_sector(2) [OF ok n(1) b] n(2) by simp
qed

section \<open>One round of the search\<close>

definition pf_item :: "world \<Rightarrow> int \<Rightarrow> int \<Rightarrow> nat \<Rightarrow> int \<times> int \<times> int \<times> nat" where
  "pf_item w x y i =
     (XYOFFSET w (x_in_dir w x (1 + i)) (y_in_dir w y (1 + i)), x_in_dir w x (1 + i), y_in_dir w y (1 + i), 1 + i)"

lemma pf_item_good: "world_ok w \<Longrightarrow> sector_xy w x y \<Longrightarrow> i < 6 \<Longrightarrow> pf_item_ok w (pf_item w x y i)"
  using in_dir_sector(1) [of w x y "1 + i"] by (simp add: pf_item_ok_def pf_item_def)

lemma pf_try_offer:
  assumes ok: "pf_ok w s" and xy: "sector_xy w x y" and i: "i < 6"
  shows "pf_try w x y c i s = pfq.offer w (pf_sct_cost s (pf_actor s)) c (pf_item w x y i) s"
proof -
  let ?u = "XYOFFSET w (x_in_dir w x (1 + i)) (y_in_dir w y (1 + i))"
  have "world_ok w" using ok by (simp add: pf_ok_def)
  then have "?u \<in> pf_uids w"
    using pf_item_good [OF _ xy i] XYOFFSET_uids by (simp add: pf_item_ok_def pf_item_def)
  then have "pf_is_unvisited s ?u \<longleftrightarrow> ?u \<notin> pf_opened w s \<union> pf_closed w s"
    by (rule pf_unvisited_iff [OF ok])
  moreover have "pf_push (pf_item w x y i) c' s
      = pf_open ?u (x_in_dir w x (1 + i)) (y_in_dir w y (1 + i)) (1 + i) c' s" for c'
    by (simp add: pf_push_def pf_item_def)
  moreover have "fst (pf_item w x y i) = ?u" by (simp add: pf_item_def)
  ultimately show ?thesis unfolding pf_try_def pfq.offer_def Let_def by simp
qed

lemma pf_try_fold:
  assumes "pf_ok w s" "sector_xy w x y" "\<forall>i \<in> set is. i < 6"
  shows "fold (pf_try w x y c) is s
    = fold (pfq.offer w (pf_sct_cost s (pf_actor s)) c) (map (pf_item w x y) is) s"
  using assms
proof (induction "is" arbitrary: s)
  case (Cons i "is")
  have "pf_item_ok w (pf_item w x y i)" using Cons.prems pf_item_good by (simp add: pf_ok_def)
  then have "pf_ok w (pf_try w x y c i s) \<and> pf_static (pf_try w x y c i s) = pf_static s"
    using pfq.offer_cases [of w s "pf_static s" "pf_item w x y i"] Cons.prems
    by (simp add: pf_try_offer)
  then show ?case using Cons.IH [of "pf_try w x y c i s"] Cons.prems
    by (simp add: pf_try_offer pf_static_def)
qed simp

definition pf_search :: "world \<Rightarrow> 'c::linordered_idom pf \<Rightarrow> bool" where
  "pf_search w st \<longleftrightarrow> pf_ready st \<and> pf_ok w st \<and>
     search_inv (pf_sct_cost st (pf_actor st)) (sct_nb w) (pf_suid st) (pf_opened w st) (pf_closed w st)
       (\<lambda>u. map_cost (pf_map st u)) (\<lambda>u. map_dir (pf_map st u))"

lemma upt_6_hexdir: "(\<exists>i \<in> set [0..<6]. P (1 + i)) \<longleftrightarrow> (\<exists>d. hexdir d \<and> P d)"
proof
  assume "\<exists>d. hexdir d \<and> P d"
  then obtain d where "hexdir d" "P d" by blast
  then show "\<exists>i \<in> set [0..<6]. P (1 + i)" by (intro bexI [of _ "d - 1"]) auto
next
  assume "\<exists>i \<in> set [0..<6]. P (1 + i)"
  then obtain i where "i < 6" "P (1 + i)" by auto
  then show "\<exists>d. hexdir d \<and> P d" by (intro exI [of _ "1 + i"]) simp
qed

lemma pf_expand_search:
  assumes inv: "pf_search w st" and ne: "0 < pf_nheap st"
  shows "pf_search w (pf_expand w st) \<and> pf_static (pf_expand w st) = pf_static st
    \<and> pf_closed w (pf_expand w st) = insert (heap_uid (pf_heap st 0)) (pf_closed w st)
    \<and> heap_uid (pf_heap st 0) \<in> pf_opened w st"
proof -
  let ?t = "heap_uid (pf_heap st 0)" and ?x = "heap_x (pf_heap st 0)" and ?y = "heap_y (pf_heap st 0)"
  let ?enter = "pf_sct_cost st (pf_actor st)" and ?its = "map (pf_item w (heap_x (pf_heap st 0)) (heap_y (pf_heap st 0))) [0..<6]"
  have ok: "pf_ok w st" and W: "world_ok w" using inv by (simp_all add: pf_search_def pf_ok_def)
  have e: "sector_xy w ?x ?y" "XYOFFSET w ?x ?y = ?t" "map_cost (pf_map st ?t) = heap_cost (pf_heap st 0)"
    using ok ne by (simp_all add: pf_ok_def linked_def entry_ok_def Let_def)
  note cl = pf_close_ok [OF ok ne]
  have st1: "pf_sct_cost (pf_close st) (pf_actor (pf_close st)) = ?enter" using cl by (simp add: pf_static_def)
  have good: "\<forall>k \<in> set ?its. pf_item_ok w k" using pf_item_good [OF W e(1)] by auto
  have ex: "pf_expand w st = fold (pfq.offer w ?enter (map_cost (pf_map st ?t))) ?its (pf_close st)"
    unfolding pf_expand_def Let_def e(3) using pf_try_fold [of w "pf_close st" ?x ?y "[0..<6]"] cl e(1) st1
    by simp
  define nw where "nw = pfq.fresh w ?enter (pf_close st) ?its"
  have tu: "?t \<in> pf_opened w st" using entry_uids [OF ok ne] .
  have close_set: "pf_opened w (pf_close st) \<union> pf_closed w (pf_close st) = pf_opened w st \<union> pf_closed w st"
    using cl tu by auto
  have nb: "fst (pf_item w ?x ?y i) = sct_nb w ?t (1 + i)" if "i < 6" for i
    using in_dir_sector(2) [OF W e(1), of "1 + i"] that e(2) by (simp add: pf_item_def)
  have nw: "nw = {sct_nb w ?t d | d. hexdir d \<and> 0 \<le> ?enter (sct_nb w ?t d)} - (pf_opened w st \<union> pf_closed w st)"
  proof -
    have "{fst k | k. k \<in> set ?its \<and> 0 \<le> ?enter (fst k)}
        = {u. \<exists>i \<in> set [0..<6]. u = fst (pf_item w ?x ?y i) \<and> 0 \<le> ?enter (fst (pf_item w ?x ?y i))}"
      unfolding set_map by blast
    also have "\<dots> = {u. \<exists>i \<in> set [0..<6]. u = sct_nb w ?t (1 + i) \<and> 0 \<le> ?enter (sct_nb w ?t (1 + i))}"
      using nb by simp
    also have "\<dots> = {sct_nb w ?t d | d. hexdir d \<and> 0 \<le> ?enter (sct_nb w ?t d)}"
    proof (rule Collect_cong)
      fix u
      show "(\<exists>i \<in> set [0..<6]. u = sct_nb w ?t (1 + i) \<and> 0 \<le> ?enter (sct_nb w ?t (1 + i)))
          = (\<exists>d. u = sct_nb w ?t d \<and> hexdir d \<and> 0 \<le> ?enter (sct_nb w ?t d))"
        using upt_6_hexdir [of "\<lambda>d. u = sct_nb w ?t d \<and> 0 \<le> ?enter (sct_nb w ?t d)"] by metis
    qed
    finally show ?thesis unfolding nw_def pfq.fresh_def close_set by simp
  qed
  have pre: "pf_ok w (pf_close st) \<and> pf_static (pf_close st) = pf_static st" using cl by blast
  have same: "map_cost (pf_map (pf_close st) u) = map_cost (pf_map st u)"
    "map_dir (pf_map (pf_close st) u) = map_dir (pf_map st u)" for u
    using cl unfolding fun_eq_iff by blast+
  note off = pfq.offers [OF pre good, of ?enter "map_cost (pf_map st ?t)", folded ex nw_def,
      unfolded same]
  have o: "pf_ok w (pf_expand w st)" "pf_static (pf_expand w st) = pf_static st"
    "pf_closed w (pf_expand w st) = insert ?t (pf_closed w st)"
    "pf_opened w (pf_expand w st) = pf_opened w st - {?t} \<union> nw"
    using off cl by blast+
  have oc: "\<forall>u. map_cost (pf_map (pf_expand w st) u)
       = (if u \<in> nw then map_cost (pf_map st ?t) + ?enter u else map_cost (pf_map st u))"
    and odir: "\<forall>u. u \<notin> nw \<longrightarrow> map_dir (pf_map (pf_expand w st) u) = map_dir (pf_map st u)"
    and od: "\<forall>u \<in> nw. \<exists>k \<in> set ?its. fst k = u \<and>
      map_dir (pf_map (pf_expand w st) u) = (case k of (uid, x, y, d) \<Rightarrow> d)"
    using off by blast+
  have dn: "\<forall>u \<in> nw. hexdir (map_dir (pf_map (pf_expand w st) u)) \<and> sct_nb w ?t (map_dir (pf_map (pf_expand w st) u)) = u"
  proof
    fix u assume "u \<in> nw"
    then obtain i where i: "i < 6" "fst (pf_item w ?x ?y i) = u"
      "map_dir (pf_map (pf_expand w st) u) = (case pf_item w ?x ?y i of (uid, x, y, d) \<Rightarrow> d)"
      using od by auto
    then show "hexdir (map_dir (pf_map (pf_expand w st) u)) \<and> sct_nb w ?t (map_dir (pf_map (pf_expand w st) u)) = u"
      using nb [OF i(1)] by (simp add: pf_item_def)
  qed
  have "search_inv ?enter (sct_nb w) (pf_suid st) (pf_opened w st - {?t} \<union> nw) (insert ?t (pf_closed w st))
      (\<lambda>u. map_cost (pf_map (pf_expand w st) u)) (\<lambda>u. map_dir (pf_map (pf_expand w st) u))"
  proof (rule search_inv_expand [where k = "\<lambda>u. map_cost (pf_map st u)" and dir = "\<lambda>u. map_dir (pf_map st u)"])
    show "\<forall>d. hexdir d \<longrightarrow> sct_nb w (sct_nb w ?t d) (DIR_BACK d) = ?t"
      using sct_nb_back [OF W e(1)] e(2) by simp
    show "\<forall>u \<in> pf_opened w st. map_cost (pf_map st ?t) \<le> map_cost (pf_map st u)"
      using pf_top_min [OF ok] by blast
    show "pf_opened w st \<inter> pf_closed w st = {}" using pfq.disjoint ok by blast
  qed (use inv in \<open>simp add: pf_search_def\<close>, rule tu, rule nw, rule oc, rule odir, rule dn)
  then have "pf_search w (pf_expand w st)" using o inv by (simp add: pf_search_def pf_static_def)
  then show ?thesis using o tu by blast
qed

section \<open>The loop\<close>

lemma pf_closed_finite: "finite (pf_uids w - pf_closed w st)"
  by (simp add: pf_uids_def)

lemma pf_search_loop:
  assumes inv: "pf_search w st" and new: "duid \<notin> pf_closed w st"
  shows "\<exists>st'. while_option (\<lambda>st. pf_nheap st > 0 \<and> heap_uid (pf_heap st 0) \<noteq> duid) (pf_expand w) st = Some st'
    \<and> pf_search w st' \<and> pf_static st' = pf_static st
    \<and> duid \<notin> pf_closed w st' \<and> (pf_nheap st' = 0 \<or> heap_uid (pf_heap st' 0) = duid)"
proof -
  let ?b = "\<lambda>st :: 'a pf. pf_nheap st > 0 \<and> heap_uid (pf_heap st 0) \<noteq> duid"
  let ?P = "\<lambda>s. pf_search w s \<and> pf_static s = pf_static st \<and> duid \<notin> pf_closed w s"
  have "\<exists>t. while_option ?b (pf_expand w) st = Some t"
  proof (rule measure_while_option_Some [where P = ?P and f = "\<lambda>s. card (pf_uids w - pf_closed w s)"])
    fix s assume s: "?P s" "?b s"
    let ?t = "heap_uid (pf_heap s 0)"
    have e: "pf_search w (pf_expand w s)" "pf_static (pf_expand w s) = pf_static s"
      "pf_closed w (pf_expand w s) = insert ?t (pf_closed w s)" "?t \<in> pf_opened w s"
      using pf_expand_search [of w s] s by auto
    have "?t \<notin> pf_closed w s"
      using e(4) by (auto simp: pf_opened_def pf_closed_def pf_is_open_def pf_is_closed_def)
    moreover have "?t \<in> pf_uids w" using e(4) by (simp add: pf_opened_def)
    ultimately have "pf_uids w - pf_closed w (pf_expand w s) \<subset> pf_uids w - pf_closed w s"
      using e(3) by auto
    then have "card (pf_uids w - pf_closed w (pf_expand w s)) < card (pf_uids w - pf_closed w s)"
      by (rule psubset_card_mono [OF pf_closed_finite])
    then show "?P (pf_expand w s)
        \<and> card (pf_uids w - pf_closed w (pf_expand w s)) < card (pf_uids w - pf_closed w s)"
      using e s by simp
  qed (use inv new in simp)
  then obtain t where t: "while_option ?b (pf_expand w) st = Some t" by blast
  have "?P t"
    by (rule while_option_rule [where P = ?P, OF _ t]) (use inv new pf_expand_search in auto)
  moreover have "\<not> ?b t" by (rule while_option_stop [OF t])
  ultimately show ?thesis using t by auto
qed

text \<open>What \<open>path_find_to\<close> is to return for the sector \<open>u\<close>.\<close>

definition cheapest :: "(int \<Rightarrow> 'c::linordered_idom) \<Rightarrow> (int \<Rightarrow> nat \<Rightarrow> int) \<Rightarrow> int \<Rightarrow> int \<Rightarrow> 'c \<Rightarrow> bool" where
  "cheapest enter nb src u c \<longleftrightarrow>
     (if \<exists>ds. route_ok enter nb src ds \<and> route_end nb src ds = u
      then (\<exists>ds. route_ok enter nb src ds \<and> route_end nb src ds = u \<and> route_cost enter nb src ds = c)
        \<and> (\<forall>ds. route_ok enter nb src ds \<and> route_end nb src ds = u \<longrightarrow> c \<le> route_cost enter nb src ds)
      else c = - 1)"

lemma cheapest_found:
  assumes inv: "search_inv enter nb src opn cls k dir"
    and u: "u \<in> cls \<or> (u \<in> opn \<and> (\<forall>v \<in> opn. k u \<le> k v))"
  shows "cheapest enter nb src u (k u)"
proof -
  have v: "u \<in> opn \<union> cls" using u by blast
  have "k u \<le> route_cost enter nb src ds" if "route_ok enter nb src ds" "route_end nb src ds = u" for ds
    using search_inv_lower [OF inv that(1)] that(2) v by blast
  then show ?thesis using search_inv_route [OF inv v] unfolding cheapest_def by metis
qed

lemma cheapest_none:
  assumes inv: "search_inv enter nb src {} cls k dir" and u: "u \<notin> cls"
  shows "cheapest enter nb src u (- 1)"
proof -
  have "route_end nb src ds \<in> cls" if "route_ok enter nb src ds" for ds
    using that
  proof (induction ds rule: rev_induct)
    case Nil
    then show ?case using inv by (simp add: search_inv_def)
  next
    case (snoc d ds)
    then have "route_end nb src ds \<in> cls" by simp
    then show ?case using inv snoc.prems unfolding search_inv_def by simp
  qed
  then show ?thesis using u unfolding cheapest_def by metis
qed

lemma path_find_to_search:
  assumes inv: "pf_search w st" and d: "sector_xy w dx dy"
  shows "\<exists>c st'. path_find_to w dx dy st = Some (c, st') \<and> pf_search w st' \<and> pf_static st' = pf_static st
    \<and> cheapest (pf_sct_cost st (pf_actor st)) (sct_nb w) (pf_suid st) (XYOFFSET w dx dy) c
    \<and> (c = - 1 \<or> (XYOFFSET w dx dy \<in> pf_opened w st' \<union> pf_closed w st'
                   \<and> map_cost (pf_map st' (XYOFFSET w dx dy)) = c))"
proof -
  let ?u = "XYOFFSET w dx dy" and ?enter = "pf_sct_cost st (pf_actor st)"
  have W: "world_ok w" using inv by (simp add: pf_search_def pf_ok_def)
  have uu: "?u \<in> pf_uids w" by (rule XYOFFSET_uids [OF W d])
  have cl: "pf_is_closed s ?u \<longleftrightarrow> ?u \<in> pf_closed w s" for s :: "'a pf"
    using uu by (simp add: pf_closed_def)
  show ?thesis
  proof (cases "?u \<in> pf_closed w st")
    case True
    then have "cheapest ?enter (sct_nb w) (pf_suid st) ?u (map_cost (pf_map st ?u))"
      by (intro cheapest_found [where k = "\<lambda>u. map_cost (pf_map st u)"])
        (use inv True in \<open>auto simp: pf_search_def\<close>)
    then show ?thesis using inv True cl [of st] by (simp add: path_find_to_def Let_def)
  next
    case False
    obtain t where t: "while_option (\<lambda>st. pf_nheap st > 0 \<and> heap_uid (pf_heap st 0) \<noteq> ?u) (pf_expand w) st = Some t"
      "pf_search w t" "pf_static t = pf_static st" "?u \<notin> pf_closed w t" "pf_nheap t = 0 \<or> heap_uid (pf_heap t 0) = ?u"
      using pf_search_loop [OF inv False] by blast
    have si: "search_inv ?enter (sct_nb w) (pf_suid st) (pf_opened w t) (pf_closed w t)
        (\<lambda>u. map_cost (pf_map t u)) (\<lambda>u. map_dir (pf_map t u))" and tok: "pf_ok w t"
      using t(2,3) by (simp_all add: pf_search_def pf_static_def)
    show ?thesis
    proof (cases "pf_nheap t = 0")
      case True
      then have op: "pf_opened w t = {}" using pf_opened_nonempty [OF tok] by simp
      have "cheapest ?enter (sct_nb w) (pf_suid st) ?u (- 1)"
        by (rule cheapest_none [OF si [unfolded op] t(4)])
      then show ?thesis using t True \<open>?u \<notin> pf_closed w st\<close> cl [of st]
        by (simp add: path_find_to_def Let_def)
    next
      case False
      then have top: "?u \<in> pf_opened w t" using entry_uids [OF tok, of 0] t(5) by simp
      have "cheapest ?enter (sct_nb w) (pf_suid st) ?u (map_cost (pf_map t ?u))"
        using cheapest_found [OF si] top pf_top_min [OF tok] t(5) False by auto
      then show ?thesis using t False top \<open>?u \<notin> pf_closed w st\<close> cl [of st]
        by (auto simp: path_find_to_def Let_def)
    qed
  qed
qed

section \<open>Sources and sessions\<close>

text \<open>
  What a new source needs of the state it finds: no mark beyond the last visit. \<open>pf_visit\<close> grows
  by two per source; before it would wrap, the marks are cleared.
\<close>

definition pf_marks_ok :: "world \<Rightarrow> 'c pf \<Rightarrow> bool" where
  "pf_marks_ok w st \<longleftrightarrow> (pf_ready st \<longrightarrow> pf_visit st < pf_visit st + 1
     \<and> (\<forall>u \<in> pf_uids w. map_visit (pf_map st u) \<le> pf_visit st + 1))"

lemma pf_search_marks: "pf_search w st \<Longrightarrow> pf_marks_ok w st"
  by (simp add: pf_search_def pf_ok_def pf_marks_ok_def)

lemma visit_step:
  fixes v m :: "16 word"
  assumes "v < v + 1" "\<not> v + 3 < v" "m \<le> v + 1"
  shows "m < v + 2" "v + 2 < 3 + v"
proof -
  have b: "unat v < 65536" "unat m < 65536" using unsigned_less [of v] unsigned_less [of m] by simp_all
  have u: "unat (v + 1) = (unat v + 1) mod 65536" "unat (v + 2) = (unat v + 2) mod 65536"
    "unat (v + 3) = (unat v + 3) mod 65536" "unat (3 + v) = (3 + unat v) mod 65536"
    using unat_word_ariths(1) [of v 1] unat_word_ariths(1) [of v 2]
      unat_word_ariths(1) [of v 3] unat_word_ariths(1) [of 3 v] by simp_all
  have "unat v < 65533"
  proof (rule ccontr)
    assume "\<not> unat v < 65533"
    then consider "unat v = 65533" | "unat v = 65534" | "unat v = 65535" using b by linarith
    then show False using assms(1,2) unfolding word_less_nat_alt u by cases simp_all
  qed
  then show "m < v + 2" "v + 2 < 3 + v"
    using assms(3) unfolding word_less_nat_alt word_le_nat_alt u by simp_all
qed

lemma pf_set_source_search:
  assumes W: "world_ok w" and s: "sector_xy w sx sy" and m: "pf_marks_ok w st"
  shows "pf_search w (pf_set_source w sx sy actor cost st)"
    and "pf_suid (pf_set_source w sx sy actor cost st) = XYOFFSET w sx sy"
    and "pf_actor (pf_set_source w sx sy actor cost st) = actor"
    and "pf_sct_cost (pf_set_source w sx sy actor cost st) = cost"
    and pf_set_source_opened: "pf_opened w (pf_set_source w sx sy actor cost st) = {XYOFFSET w sx sy}
      \<and> pf_closed w (pf_set_source w sx sy actor cost st) = {}
      \<and> map_cost (pf_map (pf_set_source w sx sy actor cost st) (XYOFFSET w sx sy)) = 0"
proof -
  let ?u = "XYOFFSET w sx sy"
  define a where "a = (let st = st\<lparr>pf_sx := sx, pf_sy := sy, pf_suid := ?u, pf_actor := actor, pf_sct_cost := cost\<rparr>;
      st = (if \<not> pf_ready st then st\<lparr>pf_ready := True, pf_map := (\<lambda>_. pf_zero), pf_visit := 1\<rparr>
            else if pf_visit st + 3 < pf_visit st then st\<lparr>pf_map := (\<lambda>_. pf_zero), pf_visit := 1\<rparr>
            else st\<lparr>pf_visit := pf_visit st + 2\<rparr>) in st\<lparr>pf_nheap := 0\<rparr>)"
  have res: "pf_set_source w sx sy actor cost st = pf_open ?u sx sy 0 0 a"
    by (simp add: pf_set_source_def a_def Let_def)
  have f: "pf_suid a = ?u" "pf_actor a = actor" "pf_sct_cost a = cost" "pf_nheap a = 0" "pf_ready a"
    by (simp_all add: a_def Let_def)
  have v: "pf_visit a < pf_visit a + 1 \<and> (\<forall>u \<in> pf_uids w. map_visit (pf_map a u) < pf_visit a)"
  proof (cases "pf_ready st \<and> \<not> pf_visit st + 3 < pf_visit st")
    case True
    then have "pf_visit a = pf_visit st + 2" "pf_map a = pf_map st" by (simp_all add: a_def Let_def)
    then show ?thesis using True m visit_step [of "pf_visit st"]
      by (auto simp: pf_marks_ok_def)
  next
    case False
    then have "pf_visit a = 1" "pf_map a = (\<lambda>_. pf_zero)" by (auto simp: a_def Let_def)
    then show ?thesis by (simp add: pf_zero_def)
  qed
  have none: "pf_opened w a = {}" "pf_closed w a = {}"
    using v by (auto simp: pf_opened_def pf_closed_def pf_is_open_def pf_is_closed_def)
  have "pf_is_open a u \<Longrightarrow> u \<notin> pf_uids w" for u using none(1) by (auto simp: pf_opened_def)
  then have "linked w {} a" using f by (auto simp: linked_def pf_uids_def)
  moreover have "map_visit (pf_map a u) \<le> pf_visit a + 1" if "u \<in> pf_uids w" for u
    using v that by (meson less_imp_le less_trans)
  ultimately have ok: "pf_ok w a"
    using v W f by (simp add: pf_ok_def heap_ord_def)
  note o = pf_open_ok [OF ok s refl, of 0 0, unfolded none]
  let ?b = "pf_open ?u sx sy 0 0 a"
  have o': "pf_ok w ?b" "pf_opened w ?b = {?u}" "pf_closed w ?b = {}" "map_cost (pf_map ?b ?u) = 0"
    "map_dir (pf_map ?b ?u) = 0" "pf_static ?b = pf_static a"
    using o by (simp_all add: fun_eq_iff)
  have st: "pf_suid ?b = ?u" "pf_actor ?b = actor" "pf_sct_cost ?b = cost" "pf_ready ?b"
    using o'(6) f by (simp_all add: pf_static_def)
  have "search_inv (pf_sct_cost ?b (pf_actor ?b)) (sct_nb w) ?u {?u} {}
      (\<lambda>u. map_cost (pf_map ?b u)) (\<lambda>u. map_dir (pf_map ?b u))"
    by (rule search_inv_start) (use o' in simp_all)
  then have "pf_search w ?b" unfolding pf_search_def st(1) o'(2,3) using o'(1) st(4) by blast
  then show "pf_search w (pf_set_source w sx sy actor cost st)"
    "pf_suid (pf_set_source w sx sy actor cost st) = XYOFFSET w sx sy"
    "pf_actor (pf_set_source w sx sy actor cost st) = actor"
    "pf_sct_cost (pf_set_source w sx sy actor cost st) = cost"
    "pf_opened w (pf_set_source w sx sy actor cost st) = {XYOFFSET w sx sy}
      \<and> pf_closed w (pf_set_source w sx sy actor cost st) = {}
      \<and> map_cost (pf_map (pf_set_source w sx sy actor cost st) (XYOFFSET w sx sy)) = 0"
    using st o' unfolding res by simp_all
qed

text \<open>
  The states the module goes through: sources set and paths looked up in any order, from the
  state before the first call.
\<close>

inductive pf_run :: "world \<Rightarrow> 'c::linordered_idom pf \<Rightarrow> bool" for w where
  first: "\<not> pf_ready st \<Longrightarrow> sector_xy w sx sy \<Longrightarrow> pf_run w (pf_set_source w sx sy actor cost st)"
| source: "pf_run w st \<Longrightarrow> sector_xy w sx sy \<Longrightarrow> pf_run w (pf_set_source w sx sy actor cost st)"
| find: "pf_run w st \<Longrightarrow> sector_xy w dx dy \<Longrightarrow> path_find_to w dx dy st = Some (c, st') \<Longrightarrow> pf_run w st'"

lemma pf_run_search:
  assumes W: "world_ok w" and r: "pf_run w st"
  shows "pf_search w st"
  using r
proof induction
  case (first st sx sy actor cost)
  then show ?case by (intro pf_set_source_search(1) [OF W]) (simp_all add: pf_marks_ok_def)
next
  case (source st sx sy actor cost)
  then show ?case by (intro pf_set_source_search(1) [OF W] pf_search_marks)
next
  case (find st dx dy c st')
  then show ?case using path_find_to_search by fastforce
qed

text \<open>\<open>path_find\<close>, the one-shot interface.\<close>

definition path_find ::
  "world \<Rightarrow> int \<Rightarrow> int \<Rightarrow> int \<Rightarrow> int \<Rightarrow> int \<Rightarrow> (int \<Rightarrow> int \<Rightarrow> 'c::linordered_idom) \<Rightarrow> 'c pf \<Rightarrow> ('c \<times> 'c pf) option" where
  "path_find w sx sy dx dy actor cost st = path_find_to w dx dy (pf_set_source w sx sy actor cost st)"

section \<open>The route in the buffer\<close>








section \<open>Properties\<close>

text \<open>
  C3. In every state the path finder can be in, looking up a sector ends, and returns the cost of
  a cheapest route there from the current source, or -1 just when no route exists. The result is
  a state the path finder can be in, with the same source, so look-ups can go on.
\<close>

theorem path_find_to_cheapest:
  assumes "world_ok w" and "pf_run w st" and "sector_xy w dx dy"
  shows "\<exists>c st'. path_find_to w dx dy st = Some (c, st') \<and> pf_run w st' \<and> pf_suid st' = pf_suid st
    \<and> cheapest (pf_sct_cost st (pf_actor st)) (sct_nb w) (pf_suid st) (XYOFFSET w dx dy) c"
proof -
  obtain c st' where r: "path_find_to w dx dy st = Some (c, st')" "pf_static st' = pf_static st"
    "cheapest (pf_sct_cost st (pf_actor st)) (sct_nb w) (pf_suid st) (XYOFFSET w dx dy) c"
    using path_find_to_search [OF pf_run_search [OF assms(1,2)] assms(3)] by blast
  have "pf_run w st'" by (rule pf_run.find [OF assms(2,3) r(1)])
  then show ?thesis using r by (simp add: pf_static_def)
qed

definition pf_world :: world where
  "pf_world = \<lparr>world_x = 8, world_y = 4\<rparr>"

definition pf_init :: "int pf" where
  "pf_init = \<lparr>pf_ready = False, pf_visit = 0, pf_map = (\<lambda>_. pf_zero), pf_nheap = 0,
     pf_heap = (\<lambda>_. \<lparr>heap_uid = 0, heap_x = 0, heap_y = 0, heap_cost = 0\<rparr>),
     pf_sx = 0, pf_sy = 0, pf_suid = 0, pf_actor = 0, pf_sct_cost = (\<lambda>_ _. 0)\<rparr>"

definition pf_example :: "int pf" where
  "pf_example = pf_set_source pf_world 0 0 1 (\<lambda>_ uid. if uid = 1 then - 1 else uid) pf_init"

lemma pf_example_run: "world_ok pf_world" "pf_run pf_world pf_example"
proof -
  show "world_ok pf_world" by (simp add: pf_world_def world_ok_def)
  show "pf_run pf_world pf_example"
    unfolding pf_example_def by (rule pf_run.first) (simp_all add: pf_init_def pf_world_def sector_xy_def)
qed

theorem path_find_to_cheapest_witness:
  "\<exists>c st'. path_find_to pf_world 4 0 pf_example = Some (c, st') \<and> pf_run pf_world st' \<and> pf_suid st' = pf_suid pf_example
    \<and> cheapest (pf_sct_cost pf_example (pf_actor pf_example)) (sct_nb pf_world) (pf_suid pf_example)
        (XYOFFSET pf_world 4 0) c"
  by (rule path_find_to_cheapest [OF pf_example_run]) (simp add: pf_world_def sector_xy_def)





text \<open>
  C5. Whatever is looked up, the heap stays within the \<open>WORLD_SZ\<close> elements allocated for it, every
  UID in it is an index of the map, each element is the one its sector's map entry refers to, and
  parents are no dearer than their children.
\<close>

theorem pf_heap_in_bounds:
  assumes "world_ok w" and "pf_run w st"
  shows "int (pf_nheap st) \<le> WORLD_SZ w
    \<and> (\<forall>i < pf_nheap st. 0 \<le> heap_uid (pf_heap st i) \<and> heap_uid (pf_heap st i) < WORLD_SZ w
      \<and> map_heapi (pf_map st (heap_uid (pf_heap st i))) = i
      \<and> map_cost (pf_map st (heap_uid (pf_heap st i))) = heap_cost (pf_heap st i)
      \<and> (0 < i \<longrightarrow> heap_cost (pf_heap st ((i - 1) div 2)) \<le> heap_cost (pf_heap st i)))"
proof -
  have ok: "pf_ok w st" using pf_run_search [OF assms] by (simp add: pf_search_def)
  have lk: "linked w {} st" and ho: "heap_ord st" using ok by (simp_all add: pf_ok_def)
  have "inj_on (\<lambda>i. heap_uid (pf_heap st i)) {..<pf_nheap st}"
    by (rule inj_onI) (use linked_inj [OF lk] in simp)
  moreover have "(\<lambda>i. heap_uid (pf_heap st i)) ` {..<pf_nheap st} \<subseteq> pf_uids w"
    using entry_uids [OF ok] by (auto simp: pf_opened_def)
  ultimately have "card {..<pf_nheap st} \<le> card (pf_uids w)"
    by (rule card_inj_on_le) (simp add: pf_uids_def)
  moreover have "0 \<le> WORLD_SZ w"
    using XYOFFSET_bounds [of w 0 0] assms(1) by (force simp: sector_xy_def world_okD)
  ultimately have n: "int (pf_nheap st) \<le> WORLD_SZ w" by (simp add: pf_uids_def)
  show ?thesis
  proof (intro conjI allI impI)
    fix i assume i: "i < pf_nheap st"
    then have "heap_uid (pf_heap st i) \<in> pf_uids w" and e: "entry_ok w st i"
      using entry_uids [OF ok] lk by (auto simp: pf_opened_def linked_def)
    then show "0 \<le> heap_uid (pf_heap st i)" "heap_uid (pf_heap st i) < WORLD_SZ w"
      by (simp_all add: pf_uids_def)
    show "map_heapi (pf_map st (heap_uid (pf_heap st i))) = i"
      "map_cost (pf_map st (heap_uid (pf_heap st i))) = heap_cost (pf_heap st i)"
      using e by (simp_all add: entry_ok_def Let_def)
    show "heap_cost (pf_heap st ((i - 1) div 2)) \<le> heap_cost (pf_heap st i)" if "0 < i"
      using ho i that by (simp add: heap_ord_def)
  qed (rule n)
qed

theorem pf_heap_in_bounds_witness:
  "int (pf_nheap pf_example) \<le> WORLD_SZ pf_world
    \<and> 0 \<le> heap_uid (pf_heap pf_example 0) \<and> heap_uid (pf_heap pf_example 0) < WORLD_SZ pf_world"
proof -
  have "0 < pf_nheap pf_example" by code_simp
  then show ?thesis
    using pf_heap_in_bounds [OF pf_example_run] by blast
qed

text \<open>
  A new source forgets every earlier search: afterwards exactly the source is open, at cost 0,
  and every other sector counts as unvisited, also when the 16-bit visit counter comes around.
\<close>

theorem pf_set_source_forgets:
  assumes "world_ok w" and "pf_run w st" and "sector_xy w sx sy"
    and "0 \<le> u" and "u < WORLD_SZ w"
  shows "pf_is_open (pf_set_source w sx sy actor cost st) u = (u = XYOFFSET w sx sy)
    \<and> pf_is_unvisited (pf_set_source w sx sy actor cost st) u = (u \<noteq> XYOFFSET w sx sy)
    \<and> (u = XYOFFSET w sx sy \<longrightarrow> map_cost (pf_map (pf_set_source w sx sy actor cost st) u) = 0)"
proof -
  let ?s = "pf_set_source w sx sy actor cost st"
  have m: "pf_marks_ok w st" by (rule pf_search_marks [OF pf_run_search [OF assms(1,2)]])
  have f: "pf_opened w ?s = {XYOFFSET w sx sy}" "pf_closed w ?s = {}" "map_cost (pf_map ?s (XYOFFSET w sx sy)) = 0"
    using pf_set_source_opened [OF assms(1,3) m] by blast+
  have u: "u \<in> pf_uids w" using assms(4,5) by (simp add: pf_uids_def)
  have "pf_ok w ?s" using pf_set_source_search(1) [OF assms(1,3) m] by (simp add: pf_search_def)
  then have "pf_is_unvisited ?s u \<longleftrightarrow> u \<notin> pf_opened w ?s \<union> pf_closed w ?s" by (rule pf_unvisited_iff [OF _ u])
  moreover have "pf_is_open ?s u \<longleftrightarrow> u \<in> pf_opened w ?s" using u by (simp add: pf_opened_def)
  ultimately show ?thesis using f by simp
qed

theorem pf_set_source_forgets_witness:
  "pf_is_unvisited (pf_set_source pf_world 2 2 1 (\<lambda>_ _. 1) pf_example) 0
    \<and> pf_is_open (pf_set_source pf_world 2 2 1 (\<lambda>_ _. 1) pf_example) 9"
proof -
  have s: "sector_xy pf_world 2 2" "XYOFFSET pf_world 2 2 = 9" "WORLD_SZ pf_world = 16"
    by (simp add: pf_world_def sector_xy_def) code_simp+
  show ?thesis
    using pf_set_source_forgets [OF pf_example_run s(1), of 0 1 "\<lambda>_ _. 1"]
      pf_set_source_forgets [OF pf_example_run s(1), of 9 1 "\<lambda>_ _. 1"] s(2,3) by simp
qed

end
