(* ===== verification/Cargo.thy ===== *)
theory Cargo
  imports Prelude
begin

text \<open>
  Cargo lists, \<open>src/lib/common/cargo.c\<close>: for every carrier and type of cargo a singly linked list,
  threaded through the arrays \<open>clink[type]\<close>. Game state proper only says who each unit is carried
  by; the lists are the inverse of that, and the code keeps the two in step.

  \<open>clink[]\<close> and \<open>nclink[]\<close> are functions of the file type; a C pointer to a link is a value of
  \<open>link_ref\<close>. \<open>CANT_HAPPEN(e)\<close> logs and is true when \<open>e\<close> is: it is modelled by the branch it
  guards. Walking a list may not end if the links form a circle, so these functions return an
  option; that it does not happen is part of what is proved.
\<close>

section \<open>State\<close>

definition EF_SHIP :: int where "EF_SHIP = 1"
definition EF_PLANE :: int where "EF_PLANE = 2"
definition EF_LAND :: int where "EF_LAND = 3"
definition EF_NUKE :: int where "EF_NUKE = 4"

lemmas ef_defs = EF_SHIP_def EF_PLANE_def EF_LAND_def EF_NUKE_def

record clink =
  cl_next :: int
  cl_head :: "int list"

record cargo =
  clinkv :: "int \<Rightarrow> clink list"
  nclink :: "int \<Rightarrow> int"

datatype link_ref = Dummy | Head int int int | Next int int

fun deref :: "cargo \<Rightarrow> link_ref \<Rightarrow> int" where
  "deref st Dummy = - 1"
| "deref st (Head t u c) = cl_head (clinkv st t ! nat u) ! nat (c - EF_PLANE)"
| "deref st (Next c u) = cl_next (clinkv st c ! nat u)"

definition update_clink :: "int \<Rightarrow> int \<Rightarrow> (clink \<Rightarrow> clink) \<Rightarrow> cargo \<Rightarrow> cargo" where
  "update_clink t u f st =
     st\<lparr>clinkv := (clinkv st)(t := (clinkv st t)[nat u := f (clinkv st t ! nat u)])\<rparr>"

fun assign :: "link_ref \<Rightarrow> int \<Rightarrow> cargo \<Rightarrow> cargo" where
  "assign Dummy v st = st"
| "assign (Head t u c) v st =
     update_clink t u (\<lambda>cl. cl\<lparr>cl_head := (cl_head cl)[nat (c - EF_PLANE) := v]\<rparr>) st"
| "assign (Next c u) v st = update_clink c u (\<lambda>cl. cl\<lparr>cl_next := v\<rparr>) st"

section \<open>Operations\<close>

definition clink_headp :: "int \<Rightarrow> int \<Rightarrow> int \<Rightarrow> link_ref" where
  "clink_headp t u type = (if type < EF_PLANE \<or> type > EF_NUKE then Dummy else Head t u type)"

definition clink_init :: clink where
  "clink_init = \<lparr>cl_next = - 1, cl_head = [- 1, - 1, - 1]\<rparr>"

definition clink_check1 :: "link_ref \<Rightarrow> int \<Rightarrow> cargo \<Rightarrow> cargo" where
  "clink_check1 uidp type st = (if deref st uidp \<ge> nclink st type then assign uidp (- 1) st else st)"

definition clink_check :: "int \<Rightarrow> cargo \<Rightarrow> cargo" where
  "clink_check type st =
     (let st = (if type \<noteq> EF_SHIP
                then fold (\<lambda>carr_type st.
                       fold (\<lambda>i. clink_check1 (clink_headp carr_type i type) type) [0..nclink st carr_type - 1] st)
                     [EF_PLANE..EF_NUKE] st
                else st)
      in fold (\<lambda>i. clink_check1 (Next type i) type) [0..nclink st type - 1] st)"

definition clink_add :: "int \<Rightarrow> int \<Rightarrow> int \<Rightarrow> int \<Rightarrow> cargo \<Rightarrow> cargo" where
  "clink_add carr_type carr type uid st =
     (let head = clink_headp carr_type carr type in
      if type < 0 \<or> type > EF_NUKE \<or> uid < 0 \<or> uid \<ge> nclink st type then st
      else let st = (if deref st head \<ge> nclink st type then assign head (- 1) st else st);
               st = assign (Next type uid) (deref st head) st
           in assign head uid st)"

text \<open>The walk of \<open>clink_rem\<close>: \<open>None\<close> if it gives up, else the link that holds \<open>uid\<close>.\<close>

partial_function (option) clink_find :: "cargo \<Rightarrow> int \<Rightarrow> int \<Rightarrow> link_ref \<Rightarrow> link_ref option option" where
  [code]: "clink_find st type uid p =
     (if deref st p = uid then Some (Some p)
      else if deref st p < 0 \<or> deref st p \<ge> nclink st type then Some None
      else clink_find st type uid (Next type (deref st p)))"

definition clink_rem :: "int \<Rightarrow> int \<Rightarrow> int \<Rightarrow> int \<Rightarrow> cargo \<Rightarrow> cargo option" where
  "clink_rem carr_type carr type uid st =
     (let head = clink_headp carr_type carr type in
      if type < 0 \<or> type > EF_NUKE then Some st
      else case clink_find st type uid head of
             None \<Rightarrow> None
           | Some None \<Rightarrow> Some st
           | Some (Some p) \<Rightarrow>
               Some (let st = assign p (deref st (Next type uid)) st in assign (Next type uid) (- 1) st))"

definition unit_carrier_change :: "int \<Rightarrow> int \<Rightarrow> int \<Rightarrow> int \<Rightarrow> int \<Rightarrow> cargo \<Rightarrow> cargo option" where
  "unit_carrier_change ctype uid type old new st =
     (if type < 0 \<or> type > EF_NUKE then Some st
      else case (if old \<ge> 0 \<and> \<not> old \<ge> nclink st type then clink_rem type old ctype uid st else Some st) of
             None \<Rightarrow> None
           | Some st \<Rightarrow>
               Some (if new \<ge> 0 \<and> \<not> new \<ge> nclink st type then clink_add type new ctype uid st else st))"

text \<open>
  \<open>unit_onresize\<close>: \<open>n\<close> is \<open>ef_nelem(type)\<close>, \<open>mem\<close> whether the file has \<open>EFF_MEM\<close>. \<open>realloc\<close> keeps
  the old elements; those from \<open>nclink[type]\<close> on are initialised.
\<close>

definition unit_onresize :: "int \<Rightarrow> int \<Rightarrow> bool \<Rightarrow> cargo \<Rightarrow> cargo" where
  "unit_onresize type n mem st =
     (if type < EF_SHIP \<or> type > EF_NUKE then st
      else let cl = map (\<lambda>i. if int i < nclink st type then clinkv st type ! i else clink_init) [0..<nat n];
               st = st\<lparr>clinkv := (clinkv st)(type := cl), nclink := (nclink st)(type := n)\<rparr>
           in if mem then clink_check type st else st)"

definition unit_cargo_first :: "int \<Rightarrow> int \<Rightarrow> int \<Rightarrow> cargo \<Rightarrow> int" where
  "unit_cargo_first type uid cargo_type st =
     (if type < EF_SHIP \<or> type > EF_NUKE then - 1
      else if uid < 0 \<or> uid \<ge> nclink st type then - 1
      else deref st (clink_headp type uid cargo_type))"

definition unit_cargo_next :: "int \<Rightarrow> int \<Rightarrow> cargo \<Rightarrow> int" where
  "unit_cargo_next cargo_type cargo_uid st =
     (if cargo_type < EF_SHIP \<or> cargo_type > EF_NUKE then - 1
      else if cargo_uid < 0 \<or> cargo_uid \<ge> nclink st cargo_type then - 1
      else deref st (Next cargo_type cargo_uid))"

definition unit_cargo_count :: "int \<Rightarrow> int \<Rightarrow> int \<Rightarrow> cargo \<Rightarrow> int option" where
  "unit_cargo_count type uid cargo_type st =
     cursor_loop (\<lambda>u. unit_cargo_next cargo_type u st) (\<lambda>_ n. n + 1) (unit_cargo_first type uid cargo_type st) 0"

definition pln_next_on_unit :: "int \<Rightarrow> cargo \<Rightarrow> int" where
  "pln_next_on_unit uid st = unit_cargo_next EF_PLANE uid st"

definition nuk_on_plane :: "int \<Rightarrow> cargo \<Rightarrow> int" where
  "nuk_on_plane uid st = unit_cargo_first EF_PLANE uid EF_NUKE st"

text \<open>The units the lists are made from: their owners, carriers and, for planes, types.\<close>

record plane =
  pln_uid :: int
  pln_own :: int
  pln_type :: nat
  pln_ship :: int
  pln_land :: int

record landunit =
  lnd_uid :: int
  lnd_own :: int
  lnd_ship :: int
  lnd_land :: int

record nuke =
  nuk_uid :: int
  nuk_own :: int
  nuk_plane :: int

record units =
  u_nship :: nat
  u_mem :: "int \<Rightarrow> bool"
  u_plane :: "plane list"
  u_land :: "landunit list"
  u_nuke :: "nuke list"

definition ef_nelem :: "units \<Rightarrow> int \<Rightarrow> int" where
  "ef_nelem us type =
     (if type = EF_SHIP then int (u_nship us) else if type = EF_PLANE then int (length (u_plane us))
      else if type = EF_LAND then int (length (u_land us)) else int (length (u_nuke us)))"

text \<open>
  \<open>unit_nplane\<close>; \<open>plchr\<close> gives the flags of each type of plane. The loop ends where \<open>getplanep\<close>
  returns a null pointer.
\<close>

definition getplanep :: "units \<Rightarrow> int \<Rightarrow> plane option" where
  "getplanep us i = (if 0 \<le> i \<and> i < int (length (u_plane us)) then Some (u_plane us ! nat i) else None)"

definition P_M :: nat where "P_M = 5"
definition P_E :: nat where "P_E = 13"
definition P_K :: nat where "P_K = 14"

partial_function (option) nplane_loop ::
  "(nat \<Rightarrow> nat) \<Rightarrow> units \<Rightarrow> cargo \<Rightarrow> int \<Rightarrow> int \<times> int \<times> int \<times> int \<Rightarrow> (int \<times> int \<times> int \<times> int) option" where
  [code]: "nplane_loop plchr us st c acc =
     (case getplanep us c of
        None \<Rightarrow> Some acc
      | Some pp \<Rightarrow>
          let fl = plchr (pln_type pp); (n, nch, nxl, nms) = acc
          in nplane_loop plchr us st (pln_next_on_unit c st)
               (if bit fl P_K then (n + 1, nch + 1, nxl, nms)
                else if bit fl P_E then (n + 1, nch, nxl + 1, nms)
                else if bit fl P_M then (n + 1, nch, nxl, nms + 1)
                else (n + 1, nch, nxl, nms)))"

definition unit_nplane ::
  "(nat \<Rightarrow> nat) \<Rightarrow> units \<Rightarrow> int \<Rightarrow> int \<Rightarrow> cargo \<Rightarrow> (int \<times> int \<times> int \<times> int) option" where
  "unit_nplane plchr us type uid st =
     nplane_loop plchr us st (unit_cargo_first type uid EF_PLANE st) (0, 0, 0, 0)"

text \<open>The functions for particular carriers and cargo.\<close>

definition pln_carrier_change :: "plane \<Rightarrow> int \<Rightarrow> int \<Rightarrow> int \<Rightarrow> cargo \<Rightarrow> cargo option" where
  "pln_carrier_change pp type old new st = unit_carrier_change EF_PLANE (pln_uid pp) type old new st"

definition lnd_carrier_change :: "landunit \<Rightarrow> int \<Rightarrow> int \<Rightarrow> int \<Rightarrow> cargo \<Rightarrow> cargo option" where
  "lnd_carrier_change lp type old new st = unit_carrier_change EF_LAND (lnd_uid lp) type old new st"

definition nuk_carrier_change :: "nuke \<Rightarrow> int \<Rightarrow> int \<Rightarrow> int \<Rightarrow> cargo \<Rightarrow> cargo option" where
  "nuk_carrier_change np type old new st = unit_carrier_change EF_NUKE (nuk_uid np) type old new st"

definition pln_first_on_ship :: "int \<Rightarrow> cargo \<Rightarrow> int" where
  "pln_first_on_ship shp_uid st = unit_cargo_first EF_SHIP shp_uid EF_PLANE st"

definition pln_first_on_land :: "int \<Rightarrow> cargo \<Rightarrow> int" where
  "pln_first_on_land uid st = unit_cargo_first EF_LAND uid EF_PLANE st"

definition lnd_first_on_ship :: "int \<Rightarrow> cargo \<Rightarrow> int" where
  "lnd_first_on_ship shp_uid st = unit_cargo_first EF_SHIP shp_uid EF_LAND st"

definition lnd_first_on_land :: "int \<Rightarrow> cargo \<Rightarrow> int" where
  "lnd_first_on_land uid st = unit_cargo_first EF_LAND uid EF_LAND st"

definition lnd_next_on_unit :: "int \<Rightarrow> cargo \<Rightarrow> int" where
  "lnd_next_on_unit uid st = unit_cargo_next EF_LAND uid st"

definition shp_nland :: "int \<Rightarrow> cargo \<Rightarrow> int option" where
  "shp_nland shp_uid st = unit_cargo_count EF_SHIP shp_uid EF_LAND st"

definition lnd_nland :: "int \<Rightarrow> cargo \<Rightarrow> int option" where
  "lnd_nland uid st = unit_cargo_count EF_LAND uid EF_LAND st"

definition shp_nplane :: "(nat \<Rightarrow> nat) \<Rightarrow> units \<Rightarrow> int \<Rightarrow> cargo \<Rightarrow> (int \<times> int \<times> int \<times> int) option" where
  "shp_nplane plchr us shp_uid st = unit_nplane plchr us EF_SHIP shp_uid st"

definition lnd_nxlight :: "(nat \<Rightarrow> nat) \<Rightarrow> units \<Rightarrow> int \<Rightarrow> cargo \<Rightarrow> int option" where
  "lnd_nxlight plchr us uid st =
     map_option (\<lambda>(n, nch, nxl, nms). nxl) (unit_nplane plchr us EF_LAND uid st)"

text \<open>\<open>unit_cargo_init\<close>: the arrays, then one loop per type of cargo, each mending what is inconsistent.\<close>

definition init_plane :: "nat \<Rightarrow> units \<times> cargo \<Rightarrow> (units \<times> cargo) option" where
  "init_plane i = (\<lambda>(us, st).
     let pp = u_plane us ! i in
     if pln_own pp = 0 then
       Some (if pln_ship pp \<ge> 0 \<or> pln_land pp \<ge> 0
             then us\<lparr>u_plane := (u_plane us)[i := pp\<lparr>pln_ship := - 1, pln_land := - 1\<rparr>]\<rparr> else us, st)
     else
       let pp = (if pln_ship pp \<ge> 0 \<and> pln_land pp \<ge> 0 then pp\<lparr>pln_land := - 1\<rparr> else pp);
           us = us\<lparr>u_plane := (u_plane us)[i := pp]\<rparr>
       in case pln_carrier_change pp EF_SHIP (- 1) (pln_ship pp) st of
            None \<Rightarrow> None
          | Some st \<Rightarrow> map_option (Pair us)
              (pln_carrier_change pp EF_LAND (- 1) (pln_land pp) st))"

definition init_land :: "nat \<Rightarrow> units \<times> cargo \<Rightarrow> (units \<times> cargo) option" where
  "init_land i = (\<lambda>(us, st).
     let lp = u_land us ! i in
     if lnd_own lp = 0 then
       Some (if lnd_ship lp \<ge> 0 \<or> lnd_land lp \<ge> 0
             then us\<lparr>u_land := (u_land us)[i := lp\<lparr>lnd_ship := - 1, lnd_land := - 1\<rparr>]\<rparr> else us, st)
     else
       let lp = (if lnd_ship lp \<ge> 0 \<and> lnd_land lp \<ge> 0 then lp\<lparr>lnd_land := - 1\<rparr> else lp);
           us = us\<lparr>u_land := (u_land us)[i := lp]\<rparr>
       in case lnd_carrier_change lp EF_SHIP (- 1) (lnd_ship lp) st of
            None \<Rightarrow> None
          | Some st \<Rightarrow> map_option (Pair us)
              (lnd_carrier_change lp EF_LAND (- 1) (lnd_land lp) st))"

definition init_nuke :: "nat \<Rightarrow> units \<times> cargo \<Rightarrow> (units \<times> cargo) option" where
  "init_nuke i = (\<lambda>(us, st).
     let np = u_nuke us ! i in
     if nuk_own np = 0 then
       Some (if nuk_plane np \<ge> 0 then us\<lparr>u_nuke := (u_nuke us)[i := np\<lparr>nuk_plane := - 1\<rparr>]\<rparr> else us, st)
     else map_option (Pair us)
            (nuk_carrier_change np EF_PLANE (- 1) (nuk_plane np) st))"

definition unit_cargo_init :: "units \<Rightarrow> cargo \<Rightarrow> (units \<times> cargo) option" where
  "unit_cargo_init us st =
     (let st = st\<lparr>nclink := (\<lambda>_. 0)\<rparr>;
          st = fold (\<lambda>t. unit_onresize t (ef_nelem us t) (u_mem us t)) [EF_SHIP..EF_NUKE] st
      in case fold_opt init_plane [0..<length (u_plane us)] (us, st) of
           None \<Rightarrow> None
         | Some s \<Rightarrow> case fold_opt init_land [0..<length (u_land us)] s of
             None \<Rightarrow> None
           | Some s \<Rightarrow> fold_opt init_nuke [0..<length (u_nuke us)] s)"

section \<open>Links\<close>

definition units_types :: "int set" where
  "units_types = {EF_SHIP..EF_NUKE}"

definition cargo_types :: "int set" where
  "cargo_types = {EF_PLANE..EF_NUKE}"

lemma types_cases:
  "t \<in> units_types \<longleftrightarrow> t = 1 \<or> t = 2 \<or> t = 3 \<or> t = 4"
  "c \<in> cargo_types \<longleftrightarrow> c = 2 \<or> c = 3 \<or> c = 4"
  by (auto simp: units_types_def cargo_types_def ef_defs)

lemma cargo_types_unit: "c \<in> cargo_types \<Longrightarrow> c \<in> units_types"
  by (simp add: types_cases)

definition shape_ok :: "cargo \<Rightarrow> bool" where
  "shape_ok st \<longleftrightarrow> (\<forall>t \<in> units_types. 0 \<le> nclink st t \<and> length (clinkv st t) = nat (nclink st t)
     \<and> (\<forall>cl \<in> set (clinkv st t). length (cl_head cl) = 3))"

fun valid_ref :: "cargo \<Rightarrow> link_ref \<Rightarrow> bool" where
  "valid_ref st Dummy \<longleftrightarrow> False"
| "valid_ref st (Head t u c) \<longleftrightarrow> t \<in> units_types \<and> 0 \<le> u \<and> u < nclink st t \<and> c \<in> cargo_types"
| "valid_ref st (Next c u) \<longleftrightarrow> c \<in> units_types \<and> 0 \<le> u \<and> u < nclink st c"

lemma nclink_assign [simp]: "nclink (assign p v st) = nclink st"
  by (cases p) (simp_all add: update_clink_def)

lemma valid_assign [simp]: "valid_ref (assign p v st) q = valid_ref st q"
  by (cases q) simp_all

lemma shape_nth:
  "shape_ok st \<Longrightarrow> t \<in> units_types \<Longrightarrow> 0 \<le> u \<Longrightarrow> u < nclink st t \<Longrightarrow>
    nat u < length (clinkv st t) \<and> length (cl_head (clinkv st t ! nat u)) = 3"
  by (simp add: shape_ok_def)

lemma shape_assign [simp]:
  assumes "shape_ok st" "valid_ref st p"
  shows "shape_ok (assign p v st)"
proof (cases p)
  case (Head t u c)
  then show ?thesis using assms shape_nth [OF assms(1), of t u]
    by (auto simp: shape_ok_def update_clink_def dest!: subsetD [OF set_update_subset_insert])
next
  case (Next c u)
  then show ?thesis using assms shape_nth [OF assms(1), of c u]
    by (auto simp: shape_ok_def update_clink_def dest!: subsetD [OF set_update_subset_insert])
qed (use assms in simp)

lemma deref_assign [simp]:
  assumes "shape_ok st" "valid_ref st p" "valid_ref st q"
  shows "deref (assign p v st) q = (if p = q then v else deref st q)"
proof -
  have idx: "nat (c - EF_PLANE) < 3" "nat (c - EF_PLANE) = nat (c' - EF_PLANE) \<longleftrightarrow> c = c'"
    if "c \<in> cargo_types" "c' \<in> cargo_types" for c c' using that by (auto simp: types_cases ef_defs)
  have ueq: "nat u = nat u' \<longleftrightarrow> u = u'" if "0 \<le> u" "0 \<le> u'" for u u' :: int using that by auto
  show ?thesis
    using assms shape_nth [OF assms(1)] idx
    by (cases p; cases q) (auto simp: update_clink_def nth_list_update ueq)
qed

lemma deref_assign2:
  assumes "shape_ok st" "valid_ref st p" "valid_ref st q" "valid_ref st r"
  shows "shape_ok (assign p v (assign q v' st))"
    and "deref (assign p v (assign q v' st)) r = (if r = p then v else if r = q then v' else deref st r)"
proof -
  have s: "shape_ok (assign q v' st)" using assms(1,3) by (rule shape_assign)
  show "shape_ok (assign p v (assign q v' st))" by (rule shape_assign [OF s]) (simp only: valid_assign assms)
  have "deref (assign p v (assign q v' st)) r = (if p = r then v else deref (assign q v' st) r)"
    by (rule deref_assign [OF s]) (simp_all only: valid_assign assms)
  then show "deref (assign p v (assign q v' st)) r = (if r = p then v else if r = q then v' else deref st r)"
    using deref_assign [OF assms(1,3,4), of v'] by auto
qed

declare deref.simps [simp del] assign.simps [simp del]

section \<open>The lists the links represent\<close>

text \<open>
  The abstract state: for each carrier (type and UID) and type of cargo the UIDs it carries, most
  recently added first. \<open>cargo_rel\<close> says that the links represent it.
\<close>

type_synonym lists = "int \<Rightarrow> int \<Rightarrow> int \<Rightarrow> int list"

definition on_lists :: "cargo \<Rightarrow> lists \<Rightarrow> int \<Rightarrow> int \<Rightarrow> bool" where
  "on_lists st L c u \<longleftrightarrow> (\<exists>t \<in> units_types. \<exists>v. 0 \<le> v \<and> v < nclink st t \<and> u \<in> set (L t v c))"

definition cargo_rel :: "cargo \<Rightarrow> lists \<Rightarrow> bool" where
  "cargo_rel st L \<longleftrightarrow> shape_ok st
     \<and> (\<forall>t \<in> units_types. \<forall>v. 0 \<le> v \<and> v < nclink st t \<longrightarrow> (\<forall>c \<in> cargo_types.
          chain (\<lambda>u. deref st (Next c u)) (deref st (Head t v c)) (L t v c)
          \<and> distinct (L t v c) \<and> set (L t v c) \<subseteq> {0..<nclink st c}))
     \<and> (\<forall>c \<in> cargo_types. \<forall>t \<in> units_types. \<forall>t' \<in> units_types. \<forall>v v' u.
          0 \<le> v \<and> v < nclink st t \<and> 0 \<le> v' \<and> v' < nclink st t' \<and> u \<in> set (L t v c) \<and> u \<in> set (L t' v' c)
          \<longrightarrow> t = t' \<and> v = v')
     \<and> (\<forall>c \<in> cargo_types. \<forall>u. 0 \<le> u \<and> u < nclink st c \<and> \<not> on_lists st L c u \<longrightarrow> deref st (Next c u) = - 1)
     \<and> (\<forall>u. 0 \<le> u \<and> u < nclink st EF_SHIP \<longrightarrow> deref st (Next EF_SHIP u) = - 1)"

definition set_list :: "int \<Rightarrow> int \<Rightarrow> int \<Rightarrow> int list \<Rightarrow> lists \<Rightarrow> lists" where
  "set_list t v c xs L = (\<lambda>t' v' c'. if t' = t \<and> v' = v \<and> c' = c then xs else L t' v' c')"

lemma set_list_same [simp]: "set_list t v c xs L t v c = xs"
  by (simp add: set_list_def)

lemma cargo_relD:
  assumes "cargo_rel st L" "t \<in> units_types" "0 \<le> v" "v < nclink st t" "c \<in> cargo_types"
  shows "chain (\<lambda>u. deref st (Next c u)) (deref st (Head t v c)) (L t v c)"
    and "distinct (L t v c)" and "set (L t v c) \<subseteq> {0..<nclink st c}"
  using assms unfolding cargo_rel_def by blast+

lemma cargo_rel_owner:
  assumes "cargo_rel st L" "c \<in> cargo_types" "t \<in> units_types" "t' \<in> units_types"
    "0 \<le> v" "v < nclink st t" "0 \<le> v'" "v' < nclink st t'" "u \<in> set (L t v c)" "u \<in> set (L t' v' c)"
  shows "t = t' \<and> v = v'"
  using assms unfolding cargo_rel_def by blast

lemma cargo_relI:
  assumes "shape_ok st"
    and "\<And>t v c. t \<in> units_types \<Longrightarrow> 0 \<le> v \<Longrightarrow> v < nclink st t \<Longrightarrow> c \<in> cargo_types \<Longrightarrow>
      chain (\<lambda>u. deref st (Next c u)) (deref st (Head t v c)) (L t v c)
      \<and> distinct (L t v c) \<and> set (L t v c) \<subseteq> {0..<nclink st c}"
    and "\<And>c t t' v v' u. c \<in> cargo_types \<Longrightarrow> t \<in> units_types \<Longrightarrow> t' \<in> units_types \<Longrightarrow> 0 \<le> v \<Longrightarrow> v < nclink st t
      \<Longrightarrow> 0 \<le> v' \<Longrightarrow> v' < nclink st t' \<Longrightarrow> u \<in> set (L t v c) \<Longrightarrow> u \<in> set (L t' v' c) \<Longrightarrow> t = t' \<and> v = v'"
    and "\<And>c u. c \<in> cargo_types \<Longrightarrow> 0 \<le> u \<Longrightarrow> u < nclink st c \<Longrightarrow> \<not> on_lists st L c u \<Longrightarrow> deref st (Next c u) = - 1"
    and "\<And>u. 0 \<le> u \<Longrightarrow> u < nclink st EF_SHIP \<Longrightarrow> deref st (Next EF_SHIP u) = - 1"
  shows "cargo_rel st L"
  using assms unfolding cargo_rel_def by blast

lemma cargo_rel_ship: "cargo_rel st L \<Longrightarrow> 0 \<le> u \<Longrightarrow> u < nclink st EF_SHIP \<Longrightarrow> deref st (Next EF_SHIP u) = - 1"
  unfolding cargo_rel_def by blast

lemma cargo_rel_off:
  "cargo_rel st L \<Longrightarrow> c \<in> cargo_types \<Longrightarrow> 0 \<le> u \<Longrightarrow> u < nclink st c \<Longrightarrow> \<not> on_lists st L c u \<Longrightarrow>
    deref st (Next c u) = - 1"
  unfolding cargo_rel_def by blast

lemma ship_ref: "0 \<le> u \<Longrightarrow> u < nclink st EF_SHIP \<Longrightarrow> valid_ref st (Next EF_SHIP u)"
  "c \<in> cargo_types \<Longrightarrow> c \<noteq> EF_SHIP"
  by (auto simp: types_cases ef_defs)

lemma clink_headp_valid: "c \<in> cargo_types \<Longrightarrow> clink_headp t u c = Head t u c"
  by (auto simp: clink_headp_def cargo_types_def)

lemma chain_first_bound:
  "chain nxt v xs \<Longrightarrow> set xs \<subseteq> {0..<n} \<Longrightarrow> 0 \<le> n \<Longrightarrow> v < n"
  by (cases xs) auto

lemma clink_add_rel:
  assumes rel: "cargo_rel st L"
    and t: "t \<in> units_types" "0 \<le> v" "v < nclink st t" and c: "c \<in> cargo_types" "0 \<le> uid" "uid < nclink st c"
    and free: "\<not> on_lists st L c uid"
  shows "cargo_rel (clink_add t v c uid st) (set_list t v c (uid # L t v c) L)"
    and "nclink (clink_add t v c uid st) = nclink st"
proof -
  let ?h = "Head t v c" and ?x = "Next c uid"
  have sh: "shape_ok st" using rel by (simp add: cargo_rel_def)
  have cu: "c \<in> units_types" by (rule cargo_types_unit [OF c(1)])
  have val: "valid_ref st ?h" "valid_ref st ?x" using t c cu by simp_all
  have n: "0 \<le> nclink st c" using c by simp
  have hd: "deref st ?h < nclink st c"
    by (rule chain_first_bound [OF cargo_relD(1,3) [OF rel t c(1)] n])
  define st' where "st' = assign ?h uid (assign ?x (deref st ?h) st)"
  have add: "clink_add t v c uid st = st'"
    using hd c cu by (auto simp: clink_add_def clink_headp_valid st'_def types_cases ef_defs Let_def)
  have sh': "shape_ok st'"
    unfolding st'_def by (rule deref_assign2(1)) (fact sh val)+
  have d: "deref st' q = (if q = ?h then uid else if q = ?x then deref st ?h else deref st q)"
    if "valid_ref st q" for q unfolding st'_def by (rule deref_assign2(2)) (fact sh val that)+
  have nn: "nclink st' = nclink st" by (simp only: st'_def nclink_assign)
  let ?L = "set_list t v c (uid # L t v c) L"
  have notin: "uid \<notin> set (L t' v' c)" if "t' \<in> units_types" "0 \<le> v'" "v' < nclink st t'" for t' v'
    using free that by (auto simp: on_lists_def)
  have old: "chain (\<lambda>u. deref st' (Next c' u)) (deref st (Head t' v' c')) (L t' v' c')"
    if "t' \<in> units_types" "0 \<le> v'" "v' < nclink st t'" "c' \<in> cargo_types" for t' v' c'
  proof (rule chain_frame [OF cargo_relD(1) [OF rel that]])
    fix u assume u: "u \<in> set (L t' v' c')"
    then have "valid_ref st (Next c' u)"
      using cargo_relD(3) [OF rel that] that(4) by (auto simp: cargo_types_unit)
    moreover have "Next c' u \<noteq> ?x" using notin [OF that(1-3)] u by auto
    ultimately show "deref st' (Next c' u) = deref st (Next c' u)" by (auto simp: d)
  qed
  have "cargo_rel st' ?L"
  proof (rule cargo_relI)
    show "shape_ok st'" by (rule sh')
  next
    fix t' v' c'
    assume a: "t' \<in> units_types" "0 \<le> v'" "v' < nclink st' t'" "c' \<in> cargo_types"
    show "chain (\<lambda>u. deref st' (Next c' u)) (deref st' (Head t' v' c')) (?L t' v' c')
        \<and> distinct (?L t' v' c') \<and> set (?L t' v' c') \<subseteq> {0..<nclink st' c'}"
    proof (cases "t' = t \<and> v' = v \<and> c' = c")
      case True
      then show ?thesis using old [OF t c(1)] cargo_relD [OF rel t c(1)] notin [OF t] c val
        by (simp add: d nn)
    next
      case False
      then have "deref st' (Head t' v' c') = deref st (Head t' v' c')" using a nn by (auto simp: d)
      then show ?thesis
        using False a nn old [of t' v' c'] cargo_relD(2,3) [OF rel, of t' v' c'] by (auto simp: set_list_def)
    qed
  next
    fix c' t1 t2 v1 v2 u
    assume a: "c' \<in> cargo_types" "t1 \<in> units_types" "t2 \<in> units_types" "0 \<le> v1" "v1 < nclink st' t1"
      "0 \<le> v2" "v2 < nclink st' t2" "u \<in> set (?L t1 v1 c')" "u \<in> set (?L t2 v2 c')"
    then show "t1 = t2 \<and> v1 = v2"
      using cargo_rel_owner [OF rel a(1-4) _ a(6)] notin [of t1 v1] notin [of t2 v2] t
      unfolding nn set_list_def by (auto split: if_splits)
  next
    fix c' u assume a: "c' \<in> cargo_types" "0 \<le> u" "u < nclink st' c'" "\<not> on_lists st' ?L c' u"
    have "u \<in> set (L t' v' c') \<Longrightarrow> u \<in> set (?L t' v' c')" for t' v' by (auto simp: set_list_def)
    then have "on_lists st L c' u \<Longrightarrow> on_lists st' ?L c' u" unfolding on_lists_def nn by blast
    then have off: "\<not> on_lists st L c' u" using a(4) by blast
    have "uid \<in> set (?L t v c)" by simp
    then have "on_lists st' ?L c uid" using t unfolding on_lists_def nn by blast
    then have "\<not> (c' = c \<and> u = uid)" using a(4) by blast
    moreover have "valid_ref st (Next c' u)" using a nn by (simp add: cargo_types_unit)
    ultimately have "deref st' (Next c' u) = deref st (Next c' u)" by (auto simp: d)
    then show "deref st' (Next c' u) = - 1" using rel a off unfolding cargo_rel_def nn by simp
  next
    fix u assume "0 \<le> u" "u < nclink st' EF_SHIP"
    then show "deref st' (Next EF_SHIP u) = - 1"
      using cargo_rel_ship [OF rel] ship_ref c(1) d [of "Next EF_SHIP u"] nn by auto
  qed
  then show "cargo_rel (clink_add t v c uid st) ?L" by (simp add: add)
  show "nclink (clink_add t v c uid st) = nclink st" by (simp add: add nn)
qed

lemma clink_find_walk:
  assumes "chain (\<lambda>u. deref st (Next c u)) (deref st p) (ys @ uid # zs)" "uid \<notin> set ys"
    and "set ys \<subseteq> {0..<nclink st c}"
  shows "clink_find st c uid p = Some (Some (if ys = [] then p else Next c (last ys)))"
  using assms
proof (induction ys arbitrary: p)
  case Nil
  then show ?case by (simp add: clink_find.simps)
next
  case (Cons y ys)
  then have "clink_find st c uid p = clink_find st c uid (Next c y)"
    by (subst clink_find.simps) auto
  then show ?case using Cons.IH [of "Next c y"] Cons.prems by simp
qed

lemma clink_rem_rel:
  assumes rel: "cargo_rel st L"
    and t: "t \<in> units_types" "0 \<le> v" "v < nclink st t" and c: "c \<in> cargo_types"
    and on: "uid \<in> set (L t v c)"
  shows "\<exists>st'. clink_rem t v c uid st = Some st' \<and> nclink st' = nclink st
    \<and> cargo_rel st' (set_list t v c (remove1 uid (L t v c)) L)"
proof -
  let ?h = "Head t v c" and ?x = "Next c uid"
  obtain ys zs where L: "L t v c = ys @ uid # zs" "uid \<notin> set ys" using split_list_first [OF on] by blast
  have sh: "shape_ok st" using rel by (simp add: cargo_rel_def)
  note ch = cargo_relD [OF rel t c, unfolded L(1)]
  have cu: "c \<in> units_types" by (rule cargo_types_unit [OF c])
  define p where "p = (if ys = [] then ?h else Next c (last ys))"
  have lst: "last ys \<in> {0..<nclink st c}" if "ys \<noteq> []" using ch(3) last_in_set [OF that] by auto
  have val: "valid_ref st ?h" "valid_ref st ?x" "valid_ref st p"
    using t c cu ch(3) lst by (auto simp: p_def)
  have pne: "p \<noteq> ?x" using L(2) last_in_set by (auto simp: p_def)
  define st' where "st' = assign ?x (- 1) (assign p (deref st ?x) st)"
  have "clink_find st c uid ?h = Some (Some p)"
    unfolding p_def by (rule clink_find_walk) (use ch L in auto)
  then have rem: "clink_rem t v c uid st = Some st'"
    using c by (auto simp: clink_rem_def clink_headp_valid st'_def Let_def types_cases ef_defs)
  have sh': "shape_ok st'"
    unfolding st'_def by (rule deref_assign2(1)) (fact sh val)+
  have d: "deref st' q = (if q = ?x then - 1 else if q = p then deref st ?x else deref st q)"
    if "valid_ref st q" for q unfolding st'_def by (rule deref_assign2(2)) (fact sh val that)+
  have nn: "nclink st' = nclink st" by (simp only: st'_def nclink_assign)
  have r1: "remove1 uid (L t v c) = ys @ zs" using L by (simp add: remove1_append)
  let ?L = "set_list t v c (ys @ zs) L"
  have new: "chain (\<lambda>u. deref st' (Next c u)) (deref st' ?h) (ys @ zs)"
  proof (cases "ys = []")
    case True
    then have "chain (\<lambda>u. deref st (Next c u)) (deref st ?x) zs" using ch(1) by simp
    then have "chain (\<lambda>u. deref st' (Next c u)) (deref st ?x) zs"
    proof (rule chain_frame)
      fix u assume "u \<in> set zs"
      moreover from this have "valid_ref st (Next c u)" using ch(3) cu by auto
      ultimately show "deref st' (Next c u) = deref st (Next c u)"
        using ch(2) True by (auto simp: d p_def)
    qed
    then show ?thesis using True val by (simp add: d p_def)
  next
    case False
    have "deref st' ?h = deref st ?h" using val(1) False by (simp add: d p_def)
    moreover have "chain (\<lambda>u. if u = uid then - 1 else if u = last ys then deref st ?x else deref st (Next c u))
        (deref st ?h) (ys @ zs)"
      by (rule chain_unlink [OF ch(1,2) False]) (use L(2) False in auto)
    then have "chain (\<lambda>u. deref st' (Next c u)) (deref st ?h) (ys @ zs)"
    proof (rule chain_frame)
      fix u assume "u \<in> set (ys @ zs)"
      then have "valid_ref st (Next c u)" using ch(3) cu by auto
      then show "deref st' (Next c u)
          = (if u = uid then - 1 else if u = last ys then deref st ?x else deref st (Next c u))"
        using False by (simp add: d p_def)
    qed
    ultimately show ?thesis by simp
  qed
  have "cargo_rel st' ?L"
  proof (rule cargo_relI)
    show "shape_ok st'" by (rule sh')
  next
    fix t' v' c'
    assume a: "t' \<in> units_types" "0 \<le> v'" "v' < nclink st' t'" "c' \<in> cargo_types"
    show "chain (\<lambda>u. deref st' (Next c' u)) (deref st' (Head t' v' c')) (?L t' v' c')
        \<and> distinct (?L t' v' c') \<and> set (?L t' v' c') \<subseteq> {0..<nclink st' c'}"
    proof (cases "t' = t \<and> v' = v \<and> c' = c")
      case True
      then show ?thesis using new ch(2,3) nn by simp
    next
      case False
      note o = cargo_relD [OF rel a(1,2) a(3) [unfolded nn] a(4)]
      have "chain (\<lambda>u. deref st' (Next c' u)) (deref st (Head t' v' c')) (L t' v' c')"
      proof (rule chain_frame [OF o(1)])
        fix u assume u: "u \<in> set (L t' v' c')"
        then have vu: "valid_ref st (Next c' u)" using o(3) a(4) by (auto simp: cargo_types_unit)
        have "u \<notin> set (L t v c)" if "c' = c"
          using cargo_rel_owner [OF rel c t(1) a(1) t(2,3) a(2) a(3) [unfolded nn]] u that False by blast
        then have "Next c' u \<noteq> ?x" "Next c' u \<noteq> p"
          using L(1) last_in_set [of ys] by (auto simp: p_def)
        then show "deref st' (Next c' u) = deref st (Next c' u)" using vu by (auto simp: d)
      qed
      moreover have "deref st' (Head t' v' c') = deref st (Head t' v' c')"
        using a nn False by (auto simp: d p_def)
      ultimately show ?thesis using False o nn by (auto simp: set_list_def)
    qed
  next
    fix c' t1 t2 v1 v2 u
    assume a: "c' \<in> cargo_types" "t1 \<in> units_types" "t2 \<in> units_types" "0 \<le> v1" "v1 < nclink st' t1"
      "0 \<le> v2" "v2 < nclink st' t2" "u \<in> set (?L t1 v1 c')" "u \<in> set (?L t2 v2 c')"
    have "u \<in> set (L t1 v1 c')" "u \<in> set (L t2 v2 c')"
      using a(8,9) L(1) by (auto simp: set_list_def split: if_splits)
    then show "t1 = t2 \<and> v1 = v2" using cargo_rel_owner [OF rel a(1-3)] a(4-7) unfolding nn by blast
  next
    fix c' u assume a: "c' \<in> cargo_types" "0 \<le> u" "u < nclink st' c'" "\<not> on_lists st' ?L c' u"
    have vu: "valid_ref st (Next c' u)" using a nn by (simp add: cargo_types_unit)
    show "deref st' (Next c' u) = - 1"
    proof (cases "Next c' u = ?x")
      case True
      then show ?thesis using d [OF vu] by simp
    next
      case False
      have iff: "u \<in> set (?L t' v' c') \<longleftrightarrow> u \<in> set (L t' v' c')" for t' v'
        using False L(1) by (auto simp: set_list_def)
      then have off: "\<not> on_lists st L c' u" using a(4) unfolding on_lists_def nn by simp
      have "Next c' u \<noteq> p"
      proof
        assume "Next c' u = p"
        then have "c' = c" "u \<in> set (L t v c)"
          using L(1) last_in_set [of ys] by (auto simp: p_def split: if_splits)
        then show False using off t unfolding on_lists_def by blast
      qed
      then have "deref st' (Next c' u) = deref st (Next c' u)" using d [OF vu] False by auto
      then show ?thesis using rel a off by (simp add: cargo_rel_def nn)
    qed
  next
    fix u assume "0 \<le> u" "u < nclink st' EF_SHIP"
    then show "deref st' (Next EF_SHIP u) = - 1"
      using cargo_rel_ship [OF rel] ship_ref c d [of "Next EF_SHIP u"] nn by (auto simp: p_def)
  qed
  then show ?thesis using rem nn r1 by auto
qed

section \<open>Walking a list\<close>

definition carrier_ok :: "int \<Rightarrow> int \<Rightarrow> int \<Rightarrow> cargo \<times> lists \<Rightarrow> bool" where
  "carrier_ok t v c = (\<lambda>(st, L). cargo_rel st L \<and> t \<in> units_types \<and> 0 \<le> v \<and> v < nclink st t \<and> c \<in> cargo_types)"

lemma unit_cargo_first_deref:
  "carrier_ok t v c (st, L) \<Longrightarrow> unit_cargo_first t v c st = deref st (Head t v c)"
  by (auto simp: carrier_ok_def unit_cargo_first_def clink_headp_valid types_cases ef_defs)

lemma unit_cargo_next_deref:
  "c \<in> cargo_types \<Longrightarrow> 0 \<le> u \<Longrightarrow> u < nclink st c \<Longrightarrow> unit_cargo_next c u st = deref st (Next c u)"
  by (auto simp: unit_cargo_next_def types_cases ef_defs)

text \<open>The lists provide the interface of the walking loops.\<close>

interpretation cargo_cursor: cursor "carrier_ok t v c" "\<lambda>s. unit_cargo_first t v c (fst s)"
    "\<lambda>s u. unit_cargo_next c u (fst s)" "\<lambda>s. snd s t v c" for t v c
proof (unfold_locales, goal_cases)
  case (1 s)
  obtain st L where s: "s = (st, L)" by (cases s)
  have ok: "cargo_rel st L" "t \<in> units_types" "0 \<le> v" "v < nclink st t" "c \<in> cargo_types"
    using 1 by (simp_all add: s carrier_ok_def)
  note r = cargo_relD [OF ok]
  have "chain (\<lambda>u. unit_cargo_next c u st) (deref st (Head t v c)) (L t v c)"
    by (rule chain_frame [OF r(1)]) (use r(3) ok(5) unit_cargo_next_deref in auto)
  then show ?case using 1 by (simp add: s unit_cargo_first_deref)
next
  case (2 s x)
  obtain st L where s: "s = (st, L)" by (cases s)
  have "set (L t v c) \<subseteq> {0..<nclink st c}"
    using 2 cargo_relD(3) [of st L t v c] by (simp add: s carrier_ok_def)
  then show ?case using 2 by (auto simp: s)
qed

lemma nplane_loop_chain:
  assumes "chain (\<lambda>u. pln_next_on_unit u st) c xs" "set xs \<subseteq> {0..<int (length (u_plane us))}"
  shows "nplane_loop plchr us st c (n, nch, nxl, nms) =
    (let fl = \<lambda>u. plchr (pln_type (u_plane us ! nat u));
         k = \<lambda>P. int (length (filter P xs))
     in Some (n + int (length xs), nch + k (\<lambda>u. bit (fl u) P_K),
              nxl + k (\<lambda>u. \<not> bit (fl u) P_K \<and> bit (fl u) P_E),
              nms + k (\<lambda>u. \<not> bit (fl u) P_K \<and> \<not> bit (fl u) P_E \<and> bit (fl u) P_M)))"
  using assms
proof (induction xs arbitrary: c n nch nxl nms)
  case Nil
  then show ?case by (simp add: nplane_loop.simps getplanep_def)
next
  case (Cons x xs)
  then have "getplanep us c = Some (u_plane us ! nat x)" by (auto simp: getplanep_def)
  then show ?case
    using Cons by (subst nplane_loop.simps) (simp add: Let_def)
qed

section \<open>Changing carriers\<close>

definition change_carrier :: "int \<Rightarrow> int \<Rightarrow> int \<Rightarrow> int \<Rightarrow> int \<Rightarrow> lists \<Rightarrow> lists" where
  "change_carrier c uid t old new L =
     (let L1 = (if old \<ge> 0 then set_list t old c (remove1 uid (L t old c)) L else L)
      in if new \<ge> 0 then set_list t new c (uid # L1 t new c) L1 else L1)"

lemma removed_off_lists:
  assumes rel: "cargo_rel st L" and t: "t \<in> units_types" "0 \<le> v" "v < nclink st t" and c: "c \<in> cargo_types"
    and on: "u \<in> set (L t v c)" and n: "nclink st' = nclink st"
  shows "\<not> on_lists st' (set_list t v c (remove1 u (L t v c)) L) c u"
proof
  assume "on_lists st' (set_list t v c (remove1 u (L t v c)) L) c u"
  then obtain t' v' where w: "t' \<in> units_types" "0 \<le> v'" "v' < nclink st t'"
    "u \<in> set (set_list t v c (remove1 u (L t v c)) L t' v' c)"
    unfolding on_lists_def n by blast
  show False
  proof (cases "t' = t \<and> v' = v")
    case True
    then show False using w(4) cargo_relD(2) [OF rel t c] by simp
  next
    case False
    then have "u \<in> set (L t' v' c)" using w(4) by (auto simp: set_list_def)
    then show False using cargo_rel_owner [OF rel c t(1) w(1) t(2,3) w(2,3) on] False by blast
  qed
qed

lemma unit_carrier_change_rel:
  assumes rel: "cargo_rel st L" and t: "t \<in> units_types" and c: "c \<in> cargo_types" "0 \<le> uid" "uid < nclink st c"
    and old: "if 0 \<le> old then old < nclink st t \<and> uid \<in> set (L t old c) else \<not> on_lists st L c uid"
    and new: "new < nclink st t"
  shows "\<exists>st'. unit_carrier_change c uid t old new st = Some st' \<and> nclink st' = nclink st
    \<and> cargo_rel st' (change_carrier c uid t old new L)"
proof -
  let ?L1 = "if old \<ge> 0 then set_list t old c (remove1 uid (L t old c)) L else L"
  have tr: "\<not> (t < 0 \<or> t > EF_NUKE)" using t by (auto simp: types_cases ef_defs)
  obtain st1 where st1: "(if old \<ge> 0 \<and> \<not> old \<ge> nclink st t then clink_rem t old c uid st else Some st) = Some st1"
    "nclink st1 = nclink st" "cargo_rel st1 ?L1" "\<not> on_lists st1 ?L1 c uid"
  proof (cases "0 \<le> old")
    case True
    then have o: "old < nclink st t" "uid \<in> set (L t old c)" using old by simp_all
    obtain st1 where "clink_rem t old c uid st = Some st1" "nclink st1 = nclink st"
      "cargo_rel st1 (set_list t old c (remove1 uid (L t old c)) L)"
      using clink_rem_rel [OF rel t True o(1) c(1) o(2)] by blast
    then show ?thesis
      using that [of st1] True o(1) removed_off_lists [OF rel t True o(1) c(1) o(2), of st1] by simp
  next
    case False
    then show ?thesis using that [of st] rel old by simp
  qed
  show ?thesis
  proof (cases "0 \<le> new")
    case True
    note add = clink_add_rel [OF st1(3) t True new [folded st1(2)] c(1,2) c(3) [folded st1(2)] st1(4)]
    show ?thesis
      using add st1(1,2) tr True new by (simp add: unit_carrier_change_def change_carrier_def Let_def)
  next
    case False
    then show ?thesis using st1 tr by (simp add: unit_carrier_change_def change_carrier_def Let_def)
  qed
qed

section \<open>Resizing and initialisation\<close>

lemma clink_check_clean:
  assumes "\<And>t i. t \<in> cargo_types \<Longrightarrow> 0 \<le> i \<Longrightarrow> i < nclink st t \<Longrightarrow> type \<noteq> EF_SHIP \<Longrightarrow>
      deref st (clink_headp t i type) < nclink st type"
    and "\<And>i. 0 \<le> i \<Longrightarrow> i < nclink st type \<Longrightarrow> deref st (Next type i) < nclink st type"
  shows "clink_check type st = st"
proof -
  have id: "fold f xs s = s" if "\<And>x. x \<in> set xs \<Longrightarrow> f x s = s" for f :: "int \<Rightarrow> cargo \<Rightarrow> cargo" and xs s
    using that by (induction xs) simp_all
  have "fold (\<lambda>i. clink_check1 (clink_headp t i type) type) [0..nclink st t - 1] st = st"
    if "t \<in> cargo_types" "type \<noteq> EF_SHIP" for t
  proof (rule id)
    fix i assume "i \<in> set [0..nclink st t - 1]"
    then have "deref st (clink_headp t i type) < nclink st type" using assms(1) that by simp
    then show "clink_check1 (clink_headp t i type) type st = st" by (simp add: clink_check1_def)
  qed
  note inner = this
  have "fold (\<lambda>carr_type st. fold (\<lambda>i. clink_check1 (clink_headp carr_type i type) type)
      [0..nclink st carr_type - 1] st) [EF_PLANE..EF_NUKE] st = st" if "type \<noteq> EF_SHIP"
    by (rule id) (use that inner in \<open>simp add: cargo_types_def\<close>)
  moreover have "fold (\<lambda>i. clink_check1 (Next type i) type) [0..nclink st type - 1] st = st"
  proof (rule id)
    fix i assume "i \<in> set [0..nclink st type - 1]"
    then have "deref st (Next type i) < nclink st type" using assms(2) by simp
    then show "clink_check1 (Next type i) type st = st" by (simp add: clink_check1_def)
  qed
  ultimately show ?thesis by (cases "type = EF_SHIP") (simp_all add: clink_check_def Let_def)
qed

definition empty_lists :: lists where
  "empty_lists = (\<lambda>_ _ _. [])"

lemma clink_init_deref:
  assumes "\<forall>t \<in> units_types. 0 \<le> nclink st t \<and> clinkv st t = replicate (nat (nclink st t)) clink_init"
    and "valid_ref st p"
  shows "deref st p = - 1"
proof (cases p)
  case (Head t v c)
  moreover from this have "c = 2 \<or> c = 3 \<or> c = 4" using assms(2) by (simp add: types_cases)
  ultimately show ?thesis using assms by (auto simp: deref.simps clink_init_def ef_defs)
next
  case (Next c u)
  then show ?thesis using assms by (auto simp: deref.simps clink_init_def)
qed (use assms in simp)

lemma fresh_cargo_rel:
  assumes f: "\<forall>t \<in> units_types. 0 \<le> nclink st t \<and> clinkv st t = replicate (nat (nclink st t)) clink_init"
  shows "cargo_rel st empty_lists"
proof (rule cargo_relI)
  show "shape_ok st" using f by (auto simp: shape_ok_def clink_init_def)
qed (use clink_init_deref [OF f] ship_ref in \<open>simp_all add: empty_lists_def cargo_types_unit\<close>)

text \<open>Growing a file adds units that carry nothing and are not carried.\<close>

lemma unit_onresize_deref:
  assumes sh: "shape_ok st" and t: "type \<in> units_types" and n: "nclink st type \<le> n"
  defines "st' \<equiv> unit_onresize type n False st"
  shows "nclink st' = (nclink st)(type := n)" and "shape_ok st'"
    and "valid_ref st p \<Longrightarrow> valid_ref st' p \<and> deref st' p = deref st p"
    and "valid_ref st' p \<Longrightarrow> \<not> valid_ref st p \<Longrightarrow> deref st' p = - 1"
proof -
  let ?cl = "map (\<lambda>i. if int i < nclink st type then clinkv st type ! i else clink_init) [0..<nat n]"
  have len: "0 \<le> nclink st type" "length (clinkv st type) = nat (nclink st type)"
    using sh t by (auto simp: shape_ok_def)
  have st': "st' = st\<lparr>clinkv := (clinkv st)(type := ?cl), nclink := (nclink st)(type := n)\<rparr>"
    using t unfolding st'_def by (auto simp: unit_onresize_def types_cases ef_defs Let_def)
  show nn: "nclink st' = (nclink st)(type := n)" by (simp add: st')
  have nth: "clinkv st' t ! nat u = (if 0 \<le> u \<and> u < nclink st t then clinkv st t ! nat u else clink_init)"
    if "t = type" "0 \<le> u" "u < n" for t u using that by (simp add: st')
  have other: "clinkv st' t = clinkv st t" if "t \<noteq> type" for t using that by (simp add: st')
  have mem: "clinkv st type ! i \<in> set (clinkv st type)" if "int i < nclink st type" for i
    using that len by (intro nth_mem) simp
  show "shape_ok st'"
    using sh len n mem by (auto simp: shape_ok_def st' clink_init_def)
  show "valid_ref st' p \<and> deref st' p = deref st p" if "valid_ref st p"
    using that n nn nth other by (cases p) (auto simp: deref.simps split: if_splits)
  show "deref st' p = - 1" if v: "valid_ref st' p" "\<not> valid_ref st p"
  proof (cases p)
    case (Head t u c)
    then have "t = type" "0 \<le> u" "u < n" "\<not> u < nclink st t" "c = 2 \<or> c = 3 \<or> c = 4"
      using v nn by (auto simp: types_cases split: if_splits)
    then show ?thesis using Head nth [of t u] by (auto simp: deref.simps clink_init_def ef_defs)
  next
    case (Next c u)
    then have "c = type" "0 \<le> u" "u < n" "\<not> u < nclink st c" using v nn by (auto split: if_splits)
    then show ?thesis using Next nth [of c u] by (auto simp: deref.simps clink_init_def)
  qed (use v in simp)
qed

definition extend_lists :: "cargo \<Rightarrow> lists \<Rightarrow> lists" where
  "extend_lists st L = (\<lambda>t v c. if 0 \<le> v \<and> v < nclink st t then L t v c else [])"

lemma unit_onresize_rel:
  assumes rel: "cargo_rel st L" and t: "type \<in> units_types" and n: "nclink st type \<le> n"
  shows "cargo_rel (unit_onresize type n False st) (extend_lists st L)"
proof -
  let ?s = "unit_onresize type n False st"
  have sh: "shape_ok st" using rel by (simp add: cargo_rel_def)
  note r = unit_onresize_deref [OF sh t n]
  have grow: "nclink st t' \<le> nclink ?s t'" for t' using n by (simp add: r(1))
  show ?thesis
  proof (rule cargo_relI)
    show "shape_ok ?s" by (rule r(2))
  next
    fix t' v c assume a: "t' \<in> units_types" "0 \<le> v" "v < nclink ?s t'" "c \<in> cargo_types"
    show "chain (\<lambda>u. deref ?s (Next c u)) (deref ?s (Head t' v c)) (extend_lists st L t' v c)
        \<and> distinct (extend_lists st L t' v c) \<and> set (extend_lists st L t' v c) \<subseteq> {0..<nclink ?s c}"
    proof (cases "v < nclink st t'")
      case True
      note o = cargo_relD [OF rel a(1,2) True a(4)]
      have "chain (\<lambda>u. deref ?s (Next c u)) (deref st (Head t' v c)) (L t' v c)"
        by (rule chain_frame [OF o(1)]) (use o(3) r(3) a(4) in \<open>auto simp: cargo_types_unit\<close>)
      moreover have "deref ?s (Head t' v c) = deref st (Head t' v c)" using True a r(3) by simp
      moreover have "set (L t' v c) \<subseteq> {0..<nclink ?s c}" using o(3) grow [of c] by auto
      ultimately show ?thesis using True a(2) o(2) by (simp add: extend_lists_def)
    next
      case False
      then show ?thesis using r(4) [of "Head t' v c"] a by (simp add: extend_lists_def)
    qed
  next
    fix c t1 t2 v1 v2 u
    assume a: "c \<in> cargo_types" "t1 \<in> units_types" "t2 \<in> units_types"
      "u \<in> set (extend_lists st L t1 v1 c)" "u \<in> set (extend_lists st L t2 v2 c)"
    then have "0 \<le> v1" "v1 < nclink st t1" "u \<in> set (L t1 v1 c)" "0 \<le> v2" "v2 < nclink st t2" "u \<in> set (L t2 v2 c)"
      by (auto simp: extend_lists_def split: if_splits)
    then show "t1 = t2 \<and> v1 = v2" using cargo_rel_owner [OF rel a(1-3)] by blast
  next
    fix c u assume a: "c \<in> cargo_types" "0 \<le> u" "u < nclink ?s c" "\<not> on_lists ?s (extend_lists st L) c u"
    have off: "\<not> on_lists st L c u"
    proof
      assume "on_lists st L c u"
      then obtain t' v where v: "t' \<in> units_types" "0 \<le> v" "v < nclink st t'" "u \<in> set (L t' v c)"
        unfolding on_lists_def by blast
      then have "v < nclink ?s t'" "u \<in> set (extend_lists st L t' v c)"
        using order_less_le_trans [OF v(3) grow] by (simp_all add: extend_lists_def)
      then show False using a(4) v(1,2) unfolding on_lists_def by blast
    qed
    show "deref ?s (Next c u) = - 1"
    proof (cases "u < nclink st c")
      case True
      then have "deref ?s (Next c u) = deref st (Next c u)" using r(3) a by (simp add: cargo_types_unit)
      then show ?thesis using rel off a True unfolding cargo_rel_def by simp
    next
      case False
      then show ?thesis using r(4) [of "Next c u"] a by (simp add: cargo_types_unit)
    qed
  next
    fix u assume u: "0 \<le> u" "u < nclink ?s EF_SHIP"
    show "deref ?s (Next EF_SHIP u) = - 1"
    proof (cases "u < nclink st EF_SHIP")
      case True
      then show ?thesis using r(3) [of "Next EF_SHIP u"] ship_ref(1) [of u st] u(1) cargo_rel_ship [OF rel] by simp
    next
      case False
      then show ?thesis using r(4) [of "Next EF_SHIP u"] ship_ref(1) [OF u] by simp
    qed
  qed
qed

lemma cargo_rel_check:
  assumes rel: "cargo_rel st L" and t: "type \<in> units_types"
  shows "clink_check type st = st"
proof (rule clink_check_clean)
  have n: "0 \<le> nclink st c" if "c \<in> units_types" for c
    using rel that by (auto simp: cargo_rel_def shape_ok_def)
  { fix t i assume a: "t \<in> cargo_types" "0 \<le> i" "i < nclink st t" "type \<noteq> EF_SHIP"
    then have c: "type \<in> cargo_types" using t by (auto simp: types_cases ef_defs)
    note r = cargo_relD [OF rel cargo_types_unit [OF a(1)] a(2,3) c]
    show "deref st (clink_headp t i type) < nclink st type"
      unfolding clink_headp_valid [OF c] by (rule chain_first_bound [OF r(1,3) n [OF t]]) }
  fix i assume i: "0 \<le> i" "i < nclink st type"
  show "deref st (Next type i) < nclink st type"
  proof (cases "type = EF_SHIP \<or> \<not> on_lists st L type i")
    case True
    moreover have "type \<noteq> EF_SHIP \<Longrightarrow> type \<in> cargo_types" using t by (auto simp: types_cases ef_defs)
    ultimately have "deref st (Next type i) = - 1"
      using cargo_rel_ship [OF rel] cargo_rel_off [OF rel] i by blast
    then show ?thesis using i by simp
  next
    case False
    then have c: "type \<in> cargo_types" using t by (auto simp: types_cases ef_defs)
    obtain t' v where v: "t' \<in> units_types" "0 \<le> v" "v < nclink st t'" "i \<in> set (L t' v type)"
      using False unfolding on_lists_def by blast
    obtain ys zs where L: "L t' v type = ys @ i # zs" using split_list [OF v(4)] by blast
    note r = cargo_relD [OF rel v(1-3) c, unfolded L]
    have "chain nx x (ys @ i # zs) \<Longrightarrow> chain nx (nx i) zs" for nx x by (induction ys arbitrary: x) auto
    then have "chain (\<lambda>u. deref st (Next type u)) (deref st (Next type i)) zs" using r(1) by blast
    then show ?thesis by (rule chain_first_bound) (use r(3) n [OF t] in auto)
  qed
qed

lemma unit_onresize_mem:
  assumes "cargo_rel st L" "type \<in> units_types" "nclink st type \<le> n"
  shows "unit_onresize type n mem st = unit_onresize type n False st"
  using cargo_rel_check [OF unit_onresize_rel [OF assms] assms(2)] assms(2)
  by (auto simp: unit_onresize_def Let_def types_cases ef_defs)

section \<open>The lists made from the units\<close>

definition mend_plane :: "plane \<Rightarrow> plane" where
  "mend_plane p =
     (if pln_own p = 0 then if pln_ship p \<ge> 0 \<or> pln_land p \<ge> 0 then p\<lparr>pln_ship := - 1, pln_land := - 1\<rparr> else p
      else if pln_ship p \<ge> 0 \<and> pln_land p \<ge> 0 then p\<lparr>pln_land := - 1\<rparr> else p)"

definition mend_land :: "landunit \<Rightarrow> landunit" where
  "mend_land l =
     (if lnd_own l = 0 then if lnd_ship l \<ge> 0 \<or> lnd_land l \<ge> 0 then l\<lparr>lnd_ship := - 1, lnd_land := - 1\<rparr> else l
      else if lnd_ship l \<ge> 0 \<and> lnd_land l \<ge> 0 then l\<lparr>lnd_land := - 1\<rparr> else l)"

definition mend_nuke :: "nuke \<Rightarrow> nuke" where
  "mend_nuke n = (if nuk_own n = 0 \<and> nuk_plane n \<ge> 0 then n\<lparr>nuk_plane := - 1\<rparr> else n)"

text \<open>Which carrier of type \<open>t\<close> a unit's own data say it is on; -1 for none.\<close>

definition carrier_of :: "units \<Rightarrow> int \<Rightarrow> int \<Rightarrow> nat \<Rightarrow> int" where
  "carrier_of us c t u =
     (if c = EF_PLANE then
        let p = mend_plane (u_plane us ! u) in
        if pln_own p = 0 then - 1 else if t = EF_SHIP then pln_ship p else if t = EF_LAND then pln_land p else - 1
      else if c = EF_LAND then
        let l = mend_land (u_land us ! u) in
        if lnd_own l = 0 then - 1 else if t = EF_SHIP then lnd_ship l else if t = EF_LAND then lnd_land l else - 1
      else
        let n = mend_nuke (u_nuke us ! u) in
        if nuk_own n = 0 then - 1 else if t = EF_PLANE then nuk_plane n else - 1)"

definition uids_ok :: "units \<Rightarrow> bool" where
  "uids_ok us \<longleftrightarrow> (\<forall>i < length (u_plane us). pln_uid (u_plane us ! i) = int i)
     \<and> (\<forall>i < length (u_land us). lnd_uid (u_land us ! i) = int i)
     \<and> (\<forall>i < length (u_nuke us). nuk_uid (u_nuke us ! i) = int i)"

definition lists_upto :: "units \<Rightarrow> (int \<Rightarrow> nat) \<Rightarrow> cargo \<Rightarrow> bool" where
  "lists_upto us k st \<longleftrightarrow> (\<forall>t \<in> units_types. nclink st t = ef_nelem us t) \<and> (\<exists>L. cargo_rel st L
     \<and> (\<forall>t \<in> units_types. \<forall>v. 0 \<le> v \<and> v < nclink st t \<longrightarrow> (\<forall>c \<in> cargo_types.
          set (L t v c) = {int u | u. u < k c \<and> carrier_of us c t u = v})))"

lemma load_lists:
  assumes rel: "cargo_rel st L" and t: "t \<in> units_types" and c: "c \<in> cargo_types" "0 \<le> uid" "uid < nclink st c"
    and off: "0 \<le> new \<Longrightarrow> \<not> on_lists st L c uid"
  shows "\<exists>st' L'. unit_carrier_change c uid t (- 1) new st = Some st' \<and> nclink st' = nclink st \<and> cargo_rel st' L'
    \<and> (\<forall>t' v' c'. set (L' t' v' c') = set (L t' v' c')
         \<union> (if t' = t \<and> v' = new \<and> c' = c \<and> 0 \<le> new \<and> new < nclink st t then {uid} else {}))"
proof (cases "0 \<le> new \<and> new < nclink st t")
  case True
  obtain st' where st': "unit_carrier_change c uid t (- 1) new st = Some st'" "nclink st' = nclink st"
    "cargo_rel st' (change_carrier c uid t (- 1) new L)"
    using unit_carrier_change_rel [OF rel t c, of "- 1" new] off True by auto
  show ?thesis
    by (intro exI [of _ st'] exI [of _ "change_carrier c uid t (- 1) new L"] conjI st')
      (use True in \<open>auto simp: change_carrier_def set_list_def\<close>)
next
  case False
  then have n: "\<not> (new \<ge> 0 \<and> \<not> new \<ge> nclink st t)" by linarith
  have "unit_carrier_change c uid t (- 1) new st = Some st"
    by (simp add: unit_carrier_change_def if_not_P [OF n] del: not_le not_less de_Morgan_conj)
  then show ?thesis using rel False by (intro exI [of _ st] exI [of _ L]) auto
qed

text \<open>One unit put on at most one of two carriers extends the lists by that unit.\<close>

lemma load_unit:
  assumes inv: "lists_upto us k st" and c: "c \<in> cargo_types" "int (k c) < ef_nelem us c"
    and t: "t1 \<in> units_types" "t2 \<in> units_types" "t1 \<noteq> t2"
    and new: "n1 = carrier_of us c t1 (k c)" "n2 = carrier_of us c t2 (k c)" "\<not> (0 \<le> n1 \<and> 0 \<le> n2)"
    and none: "\<And>t. t \<in> units_types \<Longrightarrow> t \<noteq> t1 \<Longrightarrow> t \<noteq> t2 \<Longrightarrow> carrier_of us c t (k c) = - 1"
  shows "\<exists>st1 st2. unit_carrier_change c (int (k c)) t1 (- 1) n1 st = Some st1
    \<and> unit_carrier_change c (int (k c)) t2 (- 1) n2 st1 = Some st2 \<and> lists_upto us (k(c := Suc (k c))) st2"
proof -
  let ?u = "int (k c)"
  have nc: "\<And>t. t \<in> units_types \<Longrightarrow> nclink st t = ef_nelem us t" using inv unfolding lists_upto_def by blast
  obtain L where L: "cargo_rel st L \<and> (\<forall>t \<in> units_types. \<forall>v. 0 \<le> v \<and> v < nclink st t \<longrightarrow> (\<forall>c \<in> cargo_types.
      set (L t v c) = {int u | u. u < k c \<and> carrier_of us c t u = v}))"
    using inv unfolding lists_upto_def by (elim conjE exE, intro that conjI)
  have rel: "cargo_rel st L" using L by (rule conjunct1)
  have set: "set (L t v c) = {int u | u. u < k c \<and> carrier_of us c t u = v}"
    if "t \<in> units_types" "0 \<le> v" "v < nclink st t" "c \<in> cargo_types" for t v c
    using L that by blast
  have un: "0 \<le> ?u" "?u < nclink st c" using c nc [OF cargo_types_unit] by simp_all
  have off: "\<not> on_lists st L c ?u" using set c(1) unfolding on_lists_def by auto
  obtain st1 L1 where s1: "unit_carrier_change c ?u t1 (- 1) n1 st = Some st1" "nclink st1 = nclink st" "cargo_rel st1 L1"
    "\<And>t' v' c'. set (L1 t' v' c') = set (L t' v' c')
         \<union> (if t' = t1 \<and> v' = n1 \<and> c' = c \<and> 0 \<le> n1 \<and> n1 < nclink st t1 then {?u} else {})"
    using load_lists [OF rel t(1) c(1) un off] by blast
  have off1: "\<not> on_lists st1 L1 c ?u" if "0 \<le> n2"
    using off that new(3) unfolding on_lists_def s1(2,4) by auto
  obtain st2 L2 where s2: "unit_carrier_change c ?u t2 (- 1) n2 st1 = Some st2" "nclink st2 = nclink st" "cargo_rel st2 L2"
    "\<And>t' v' c'. set (L2 t' v' c') = set (L1 t' v' c')
         \<union> (if t' = t2 \<and> v' = n2 \<and> c' = c \<and> 0 \<le> n2 \<and> n2 < nclink st t2 then {?u} else {})"
    using load_lists [OF s1(3) t(2) c(1) un(1) _ off1] un(2) unfolding s1(2) by blast
  have "set (L2 t v c') = {int u | u. u < (k(c := Suc (k c))) c' \<and> carrier_of us c' t u = v}"
    if a: "t \<in> units_types" "0 \<le> v" "v < nclink st t" "c' \<in> cargo_types" for t v c'
  proof (cases "c' = c")
    case True
    have "{int u | u. u < Suc (k c) \<and> carrier_of us c t u = v}
        = {int u | u. u < k c \<and> carrier_of us c t u = v} \<union> (if carrier_of us c t (k c) = v then {?u} else {})"
      by (auto simp: less_Suc_eq)
    also have "\<dots> = set (L2 t v c)"
    proof -
      consider "t = t1" | "t = t2" "t \<noteq> t1" | "t \<noteq> t1" "t \<noteq> t2" by blast
      then show ?thesis
      proof cases
        case 1
        then show ?thesis unfolding s2(4) s1(4) set [OF a(1-3) c(1)] using new(1) a(2,3) t(3) by auto
      next
        case 2
        then show ?thesis unfolding s2(4) s1(4) set [OF a(1-3) c(1)] using new(2) a(2,3) by auto
      next
        case 3
        then show ?thesis unfolding s2(4) s1(4) set [OF a(1-3) c(1)] using none [OF a(1)] a(2) by auto
      qed
    qed
    finally show ?thesis using True by simp
  next
    case False
    then show ?thesis unfolding s2(4) s1(4) using set [OF a] by simp
  qed
  then have "lists_upto us (k(c := Suc (k c))) st2"
    using s2(2,3) nc unfolding lists_upto_def by auto
  then show ?thesis using s1(1) s2(1) by blast
qed

definition mended :: "units \<Rightarrow> nat \<Rightarrow> nat \<Rightarrow> nat \<Rightarrow> units" where
  "mended us i j k = us\<lparr>u_plane := map_upto mend_plane i (u_plane us),
     u_land := map_upto mend_land j (u_land us), u_nuke := map_upto mend_nuke k (u_nuke us)\<rparr>"

definition done_upto :: "nat \<Rightarrow> nat \<Rightarrow> nat \<Rightarrow> int \<Rightarrow> nat" where
  "done_upto i j k = (\<lambda>_. 0)(EF_PLANE := i, EF_LAND := j, EF_NUKE := k)"

lemma done_upto_Suc:
  "(done_upto i j k)(EF_PLANE := Suc i) = done_upto (Suc i) j k"
  "(done_upto i j k)(EF_LAND := Suc j) = done_upto i (Suc j) k"
  "(done_upto i j k)(EF_NUKE := Suc k) = done_upto i j (Suc k)"
  "done_upto i j k EF_PLANE = i" "done_upto i j k EF_LAND = j" "done_upto i j k EF_NUKE = k"
  by (auto simp: done_upto_def ef_defs fun_eq_iff)

lemma lists_upto_skip:
  assumes "lists_upto us k st" "c \<in> cargo_types" "\<And>t. t \<in> units_types \<Longrightarrow> carrier_of us c t (k c) = - 1"
  shows "lists_upto us (k(c := Suc (k c))) st"
proof -
  have "{int u | u. u < (k(c := Suc (k c))) c' \<and> carrier_of us c' t u = v}
      = {int u | u. u < k c' \<and> carrier_of us c' t u = v}" if "t \<in> units_types" "0 \<le> v" for c' t v
    using assms(3) [OF that(1)] that(2) by (auto simp: less_Suc_eq)
  then show ?thesis using assms(1) unfolding lists_upto_def by (auto simp del: fun_upd_apply)
qed

text \<open>The rounds of the three loops.\<close>

lemma init_plane_round:
  assumes ok: "uids_ok us" and i: "i < length (u_plane us)"
    and inv: "lists_upto us (done_upto i 0 0) st"
  shows "\<exists>st'. init_plane i (mended us i 0 0, st) = Some (mended us (Suc i) 0 0, st')
    \<and> lists_upto us (done_upto (Suc i) 0 0) st'"
proof -
  let ?p = "u_plane us ! i"
  have c: "EF_PLANE \<in> cargo_types" "EF_SHIP \<in> units_types" "EF_LAND \<in> units_types" "EF_SHIP \<noteq> EF_LAND"
    by (simp_all add: types_cases ef_defs)
  have p: "u_plane (mended us i 0 0) ! i = ?p" using i by (simp add: mended_def)
  have upd: "(mended us i 0 0)\<lparr>u_plane := (u_plane (mended us i 0 0))[i := mend_plane ?p]\<rparr> = mended us (Suc i) 0 0"
    using map_upto_Suc [OF i, of mend_plane] by (simp add: mended_def)
  note k = done_upto_Suc [of i 0 0]
  show ?thesis
  proof (cases "pln_own ?p = 0")
    case True
    have "carrier_of us EF_PLANE t i = - 1" for t using True by (simp add: carrier_of_def mend_plane_def)
    then have "lists_upto us (done_upto (Suc i) 0 0) st"
      using lists_upto_skip [OF inv c(1)] unfolding k by blast
    moreover have "init_plane i (mended us i 0 0, st) = Some (mended us (Suc i) 0 0, st)"
      using True p upd map_upto_Suc_same [OF i, of mend_plane]
      by (auto simp: init_plane_def mend_plane_def Let_def mended_def)
    ultimately show ?thesis by blast
  next
    case False
    then have m: "(if pln_ship ?p \<ge> 0 \<and> pln_land ?p \<ge> 0 then ?p\<lparr>pln_land := - 1\<rparr> else ?p) = mend_plane ?p"
      by (simp add: mend_plane_def)
    have un: "pln_uid (mend_plane ?p) = int i" "pln_own (mend_plane ?p) \<noteq> 0"
      "\<not> (0 \<le> pln_ship (mend_plane ?p) \<and> 0 \<le> pln_land (mend_plane ?p))"
      using ok i False by (auto simp: uids_ok_def mend_plane_def)
    have co: "pln_ship (mend_plane ?p) = carrier_of us EF_PLANE EF_SHIP i"
      "pln_land (mend_plane ?p) = carrier_of us EF_PLANE EF_LAND i"
      "t \<noteq> EF_SHIP \<Longrightarrow> t \<noteq> EF_LAND \<Longrightarrow> carrier_of us EF_PLANE t i = - 1" for t
      using un c(4) by (auto simp: carrier_of_def Let_def)
    have ne: "int i < ef_nelem us EF_PLANE" using i by (simp add: ef_nelem_def ef_defs)
    obtain st1 st2 where
      "unit_carrier_change EF_PLANE (int i) EF_SHIP (- 1) (pln_ship (mend_plane ?p)) st = Some st1"
      "unit_carrier_change EF_PLANE (int i) EF_LAND (- 1) (pln_land (mend_plane ?p)) st1 = Some st2"
      "lists_upto us (done_upto (Suc i) 0 0) st2"
      using load_unit [OF inv c(1) _ c(2-4), of "pln_ship (mend_plane ?p)" "pln_land (mend_plane ?p)"]
        ne co un(3) unfolding k by metis
    then show ?thesis
      unfolding init_plane_def pln_carrier_change_def prod.case Let_def p m if_not_P [OF False] un(1) upd by simp
  qed
qed

lemma init_land_round:
  assumes ok: "uids_ok us" and j: "j < length (u_land us)"
    and inv: "lists_upto us (done_upto n j 0) st"
  shows "\<exists>st'. init_land j (mended us n j 0, st) = Some (mended us n (Suc j) 0, st')
    \<and> lists_upto us (done_upto n (Suc j) 0) st'"
proof -
  let ?p = "u_land us ! j"
  have c: "EF_LAND \<in> cargo_types" "EF_SHIP \<in> units_types" "EF_LAND \<in> units_types" "EF_SHIP \<noteq> EF_LAND"
    by (simp_all add: types_cases ef_defs)
  have ne': "EF_LAND \<noteq> EF_PLANE" by (simp add: ef_defs)
  have p: "u_land (mended us n j 0) ! j = ?p" using j by (simp add: mended_def)
  have upd: "(mended us n j 0)\<lparr>u_land := (u_land (mended us n j 0))[j := mend_land ?p]\<rparr> = mended us n (Suc j) 0"
    using map_upto_Suc [OF j, of mend_land] by (simp add: mended_def)
  note k = done_upto_Suc [of n j 0]
  show ?thesis
  proof (cases "lnd_own ?p = 0")
    case True
    have "carrier_of us EF_LAND t j = - 1" for t using True ne' by (simp add: carrier_of_def mend_land_def)
    then have "lists_upto us (done_upto n (Suc j) 0) st"
      using lists_upto_skip [OF inv c(1)] unfolding k by blast
    moreover have "init_land j (mended us n j 0, st) = Some (mended us n (Suc j) 0, st)"
      using True p upd map_upto_Suc_same [OF j, of mend_land]
      by (auto simp: init_land_def mend_land_def Let_def mended_def)
    ultimately show ?thesis by blast
  next
    case False
    then have m: "(if lnd_ship ?p \<ge> 0 \<and> lnd_land ?p \<ge> 0 then ?p\<lparr>lnd_land := - 1\<rparr> else ?p) = mend_land ?p"
      by (simp add: mend_land_def)
    have un: "lnd_uid (mend_land ?p) = int j" "lnd_own (mend_land ?p) \<noteq> 0"
      "\<not> (0 \<le> lnd_ship (mend_land ?p) \<and> 0 \<le> lnd_land (mend_land ?p))"
      using ok j False by (auto simp: uids_ok_def mend_land_def)
    have co: "lnd_ship (mend_land ?p) = carrier_of us EF_LAND EF_SHIP j"
      "lnd_land (mend_land ?p) = carrier_of us EF_LAND EF_LAND j"
      "t \<noteq> EF_SHIP \<Longrightarrow> t \<noteq> EF_LAND \<Longrightarrow> carrier_of us EF_LAND t j = - 1" for t
      using un c(4) ne' by (auto simp: carrier_of_def Let_def)
    have ne: "int j < ef_nelem us EF_LAND" using j by (simp add: ef_nelem_def ef_defs)
    obtain st1 st2 where
      "unit_carrier_change EF_LAND (int j) EF_SHIP (- 1) (lnd_ship (mend_land ?p)) st = Some st1"
      "unit_carrier_change EF_LAND (int j) EF_LAND (- 1) (lnd_land (mend_land ?p)) st1 = Some st2"
      "lists_upto us (done_upto n (Suc j) 0) st2"
      using load_unit [OF inv c(1) _ c(2-4), of "lnd_ship (mend_land ?p)" "lnd_land (mend_land ?p)"]
        ne co un(3) unfolding k by metis
    then show ?thesis
      unfolding init_land_def lnd_carrier_change_def prod.case Let_def p m if_not_P [OF False] un(1) upd by simp
  qed
qed

lemma init_nuke_round:
  assumes ok: "uids_ok us" and j: "j < length (u_nuke us)"
    and inv: "lists_upto us (done_upto n m j) st"
  shows "\<exists>st'. init_nuke j (mended us n m j, st) = Some (mended us n m (Suc j), st')
    \<and> lists_upto us (done_upto n m (Suc j)) st'"
proof -
  let ?p = "u_nuke us ! j"
  have c: "EF_NUKE \<in> cargo_types" "EF_PLANE \<in> units_types" "EF_SHIP \<in> units_types" "EF_PLANE \<noteq> EF_SHIP"
    by (simp_all add: types_cases ef_defs)
  have ne': "EF_NUKE \<noteq> EF_PLANE" "EF_NUKE \<noteq> EF_LAND" by (simp_all add: ef_defs)
  have p: "u_nuke (mended us n m j) ! j = ?p" using j by (simp add: mended_def)
  have upd: "(mended us n m j)\<lparr>u_nuke := (u_nuke (mended us n m j))[j := mend_nuke ?p]\<rparr> = mended us n m (Suc j)"
    using map_upto_Suc [OF j, of mend_nuke] by (simp add: mended_def)
  note k = done_upto_Suc [of n m j]
  show ?thesis
  proof (cases "nuk_own ?p = 0")
    case True
    have "carrier_of us EF_NUKE t j = - 1" for t using True ne' by (simp add: carrier_of_def mend_nuke_def)
    then have "lists_upto us (done_upto n m (Suc j)) st"
      using lists_upto_skip [OF inv c(1)] unfolding k by blast
    moreover have "init_nuke j (mended us n m j, st) = Some (mended us n m (Suc j), st)"
      using True p upd map_upto_Suc_same [OF j, of mend_nuke]
      by (auto simp: init_nuke_def mend_nuke_def Let_def mended_def)
    ultimately show ?thesis by blast
  next
    case False
    then have mn: "mend_nuke ?p = ?p" by (simp add: mend_nuke_def)
    have un: "nuk_uid ?p = int j" using ok j by (simp add: uids_ok_def)
    have co: "nuk_plane ?p = carrier_of us EF_NUKE EF_PLANE j" "- 1 = carrier_of us EF_NUKE EF_SHIP j"
      "t \<noteq> EF_PLANE \<Longrightarrow> carrier_of us EF_NUKE t j = - 1" for t
      using False mn ne' c(4) by (simp_all add: carrier_of_def Let_def)
    have ne: "int j < ef_nelem us EF_NUKE" using j by (simp add: ef_nelem_def ef_defs)
    obtain st1 st2 where s: "unit_carrier_change EF_NUKE (int j) EF_PLANE (- 1) (nuk_plane ?p) st = Some st1"
      "unit_carrier_change EF_NUKE (int j) EF_SHIP (- 1) (- 1) st1 = Some st2"
      "lists_upto us (done_upto n m (Suc j)) st2"
    proof -
      have "\<exists>st1 st2. unit_carrier_change EF_NUKE (int j) EF_PLANE (- 1) (nuk_plane ?p) st = Some st1
        \<and> unit_carrier_change EF_NUKE (int j) EF_SHIP (- 1) (- 1) st1 = Some st2
        \<and> lists_upto us (done_upto n m (Suc j)) st2"
        by (rule load_unit [OF inv c(1), unfolded k, OF ne c(2-4) co(1) co(2)]) (simp_all add: co(3))
      then show ?thesis using that by blast
    qed
    have "st2 = st1" using s(2) by (simp add: unit_carrier_change_def split: if_splits)
    moreover have "mended us n m j = mended us n m (Suc j)"
      using map_upto_Suc_same [OF j, of mend_nuke] mn by (simp add: mended_def)
    ultimately show ?thesis
      using s unfolding init_nuke_def nuk_carrier_change_def prod.case Let_def p if_not_P [OF False] un by simp
  qed
qed

text \<open>The arrays \<open>unit_cargo_init\<close> starts from.\<close>

definition fresh_links :: "cargo \<Rightarrow> bool" where
  "fresh_links st \<longleftrightarrow> (\<forall>t \<in> units_types. \<forall>i. 0 \<le> i \<and> i < nclink st t \<longrightarrow> clinkv st t ! nat i = clink_init)"

lemma onresize_fresh:
  assumes f: "fresh_links st" and t: "type \<in> units_types" "nclink st type = 0" and n: "0 \<le> n"
  shows "unit_onresize type n mem st =
    st\<lparr>clinkv := (clinkv st)(type := replicate (nat n) clink_init), nclink := (nclink st)(type := n)\<rparr>"
    and "fresh_links (unit_onresize type n mem st)"
proof -
  let ?s = "st\<lparr>clinkv := (clinkv st)(type := replicate (nat n) clink_init), nclink := (nclink st)(type := n)\<rparr>"
  have m: "map (\<lambda>i. if int i < nclink st type then clinkv st type ! i else clink_init) [0..<nat n]
      = replicate (nat n) clink_init" unfolding t(2) by (rule nth_equalityI) simp_all
  have fs: "fresh_links ?s" using f by (simp add: fresh_links_def)
  have heads: "deref ?s (Head t u c) = - 1" if "t \<in> units_types" "0 \<le> u" "u < nclink ?s t" "c \<in> cargo_types" for t u c
  proof -
    have "clinkv ?s t ! nat u = clink_init" using fs that unfolding fresh_links_def by blast
    then show ?thesis using that(4) by (auto simp: deref.simps clink_init_def types_cases ef_defs simp del: cargo.simps fun_upd_apply)
  qed
  have nexts: "deref ?s (Next type u) = - 1" if "0 \<le> u" "u < nclink ?s type" for u
  proof -
    have "clinkv ?s type ! nat u = clink_init" using fs that t(1) unfolding fresh_links_def by blast
    then show ?thesis by (simp add: deref.simps clink_init_def del: cargo.simps fun_upd_apply)
  qed
  have nn: "nclink ?s type = n" by simp
  have "clink_check type ?s = ?s"
  proof (rule clink_check_clean)
    fix t' i assume a: "t' \<in> cargo_types" "0 \<le> i" "i < nclink ?s t'" "type \<noteq> EF_SHIP"
    then have c: "type \<in> cargo_types" using t(1) by (auto simp: types_cases ef_defs)
    then show "deref ?s (clink_headp t' i type) < nclink ?s type"
      using heads [OF cargo_types_unit [OF a(1)] a(2,3) c] n unfolding clink_headp_valid [OF c] nn by simp
  next
    fix i assume "0 \<le> i" "i < nclink ?s type"
    then show "deref ?s (Next type i) < nclink ?s type" using nexts n unfolding nn by simp
  qed
  then show e: "unit_onresize type n mem st = ?s"
    using t(1) m by (auto simp: unit_onresize_def Let_def types_cases ef_defs)
  show "fresh_links (unit_onresize type n mem st)" unfolding e by (rule fs)
qed

lemma init_arrays:
  fixes n :: "int \<Rightarrow> int" and mem :: "int \<Rightarrow> bool" and st :: cargo
  assumes n: "\<And>t. t \<in> units_types \<Longrightarrow> 0 \<le> n t"
  defines "st' \<equiv> fold (\<lambda>t. unit_onresize t (n t) (mem t)) [EF_SHIP..EF_NUKE] (st\<lparr>nclink := (\<lambda>_. 0)\<rparr>)"
  shows "\<forall>t \<in> units_types. nclink st' t = n t \<and> clinkv st' t = replicate (nat (n t)) clink_init"
proof -
  have l: "[EF_SHIP..EF_NUKE] = [1, 2, 3, 4]" unfolding ef_defs by code_simp
  have u: "1 \<in> units_types" "2 \<in> units_types" "3 \<in> units_types" "4 \<in> units_types" by (simp_all add: types_cases)
  define s0 where "s0 = st\<lparr>nclink := (\<lambda>_. 0)\<rparr>"
  have f0: "fresh_links s0" by (auto simp: s0_def fresh_links_def)
  note r1 = onresize_fresh [OF f0 u(1) _ n [OF u(1)], of "mem 1"]
  define s1 where "s1 = unit_onresize 1 (n 1) (mem 1) s0"
  have s1: "s1 = s0\<lparr>clinkv := (clinkv s0)(1 := replicate (nat (n 1)) clink_init), nclink := (nclink s0)(1 := n 1)\<rparr>"
    "fresh_links s1" using r1 by (simp_all add: s1_def s0_def)
  note r2 = onresize_fresh [OF s1(2) u(2) _ n [OF u(2)], of "mem 2"]
  define s2 where "s2 = unit_onresize 2 (n 2) (mem 2) s1"
  have s2: "s2 = s1\<lparr>clinkv := (clinkv s1)(2 := replicate (nat (n 2)) clink_init), nclink := (nclink s1)(2 := n 2)\<rparr>"
    "fresh_links s2" using r2 by (simp_all add: s2_def s1(1) s0_def)
  note r3 = onresize_fresh [OF s2(2) u(3) _ n [OF u(3)], of "mem 3"]
  define s3 where "s3 = unit_onresize 3 (n 3) (mem 3) s2"
  have s3: "s3 = s2\<lparr>clinkv := (clinkv s2)(3 := replicate (nat (n 3)) clink_init), nclink := (nclink s2)(3 := n 3)\<rparr>"
    "fresh_links s3" using r3 by (simp_all add: s3_def s2(1) s1(1) s0_def)
  note r4 = onresize_fresh [OF s3(2) u(4) _ n [OF u(4)], of "mem 4"]
  have s4: "st' = s3\<lparr>clinkv := (clinkv s3)(4 := replicate (nat (n 4)) clink_init), nclink := (nclink s3)(4 := n 4)\<rparr>"
  proof -
    have "nclink s3 4 = 0" by (simp add: s3(1) s2(1) s1(1) s0_def)
    moreover have "st' = unit_onresize 4 (n 4) (mem 4) s3"
      by (simp add: st'_def l s3_def s2_def s1_def s0_def)
    ultimately show ?thesis using r4(1) by simp
  qed
  show ?thesis unfolding s4 s3(1) s2(1) s1(1) by (auto simp: types_cases)
qed

section \<open>Properties\<close>

text \<open>
  C6. \<open>unit_carrier_change\<close> returns, and implements the abstract change on the lists: the unit is
  taken off the list of its old carrier and put in front of the list of its new one, and no other
  list changes.
\<close>

theorem unit_carrier_change_refines:
  assumes "cargo_rel st L" and "t \<in> units_types" and "c \<in> cargo_types" "0 \<le> uid" "uid < nclink st c"
    and "if 0 \<le> old then old < nclink st t \<and> uid \<in> set (L t old c) else \<not> on_lists st L c uid"
    and "new < nclink st t"
  shows "\<exists>st'. unit_carrier_change c uid t old new st = Some st'
    \<and> cargo_rel st' (change_carrier c uid t old new L)"
  using unit_carrier_change_rel [OF assms] by blast

definition cargo_example :: cargo where
  "cargo_example = \<lparr>clinkv = (\<lambda>_. replicate 3 clink_init), nclink = (\<lambda>_. 3)\<rparr>"

lemma cargo_example_rel: "cargo_rel cargo_example empty_lists"
  by (rule fresh_cargo_rel) (simp add: cargo_example_def)

theorem unit_carrier_change_refines_witness:
  "\<exists>st'. unit_carrier_change EF_PLANE 2 EF_SHIP (- 1) 0 cargo_example = Some st'
    \<and> cargo_rel st' (change_carrier EF_PLANE 2 EF_SHIP (- 1) 0 empty_lists)"
  by (rule unit_carrier_change_refines [OF cargo_example_rel])
    (simp_all add: types_cases ef_defs cargo_example_def on_lists_def empty_lists_def)

text \<open>
  C7. \<open>unit_cargo_init\<close> ends, whatever the units' data, and the lists it makes agree with them: a
  carrier's list holds exactly the owned units whose own data name that carrier, after units that
  name two carriers have been taken off the second, and unowned ones off both.
\<close>

theorem unit_cargo_init_correct:
  assumes "uids_ok us"
  shows "\<exists>st' L. unit_cargo_init us st = Some (us\<lparr>u_plane := map mend_plane (u_plane us),
      u_land := map mend_land (u_land us), u_nuke := map mend_nuke (u_nuke us)\<rparr>, st')
    \<and> cargo_rel st' L
    \<and> (\<forall>t \<in> units_types. \<forall>v. 0 \<le> v \<and> v < ef_nelem us t \<longrightarrow> (\<forall>c \<in> cargo_types.
         set (L t v c) = {int u | u. int u < ef_nelem us c \<and> carrier_of us c t u = v}))"
proof -
  let ?np = "length (u_plane us)" and ?nl = "length (u_land us)" and ?nn = "length (u_nuke us)"
  define st0 where "st0 = fold (\<lambda>t. unit_onresize t (ef_nelem us t) (u_mem us t)) [EF_SHIP..EF_NUKE]
      (st\<lparr>nclink := (\<lambda>_. 0)\<rparr>)"
  have nelem: "0 \<le> ef_nelem us t" for t by (simp add: ef_nelem_def)
  have fr: "nclink st0 t = ef_nelem us t \<and> clinkv st0 t = replicate (nat (ef_nelem us t)) clink_init"
    if "t \<in> units_types" for t
    using init_arrays [of "ef_nelem us" "u_mem us" st] nelem that unfolding st0_def by blast
  have rel0: "cargo_rel st0 empty_lists" by (rule fresh_cargo_rel) (use fr nelem in auto)
  have i0: "lists_upto us (done_upto 0 0 0) st0"
    unfolding lists_upto_def using fr rel0 by (auto simp: empty_lists_def done_upto_def)
  have m0: "mended us 0 0 0 = us" by (simp add: mended_def)
  obtain st1 where st1: "fold_opt init_plane [0..<?np] (us, st0) = Some (mended us ?np 0 0, st1)"
    "lists_upto us (done_upto ?np 0 0) st1"
    using fold_opt_upt [where P = "\<lambda>i s. fst s = mended us i 0 0 \<and> lists_upto us (done_upto i 0 0) (snd s)"
        and f = init_plane and n = ?np and s = "(us, st0)"] i0 m0 init_plane_round [OF assms] by fastforce
  obtain st2 where st2: "fold_opt init_land [0..<?nl] (mended us ?np 0 0, st1) = Some (mended us ?np ?nl 0, st2)"
    "lists_upto us (done_upto ?np ?nl 0) st2"
    using fold_opt_upt [where P = "\<lambda>i s. fst s = mended us ?np i 0 \<and> lists_upto us (done_upto ?np i 0) (snd s)"
        and f = init_land and n = ?nl and s = "(mended us ?np 0 0, st1)"] st1(2) init_land_round [OF assms] by fastforce
  obtain st3 where st3: "fold_opt init_nuke [0..<?nn] (mended us ?np ?nl 0, st2) = Some (mended us ?np ?nl ?nn, st3)"
    "lists_upto us (done_upto ?np ?nl ?nn) st3"
    using fold_opt_upt [where P = "\<lambda>i s. fst s = mended us ?np ?nl i \<and> lists_upto us (done_upto ?np ?nl i) (snd s)"
        and f = init_nuke and n = ?nn and s = "(mended us ?np ?nl 0, st2)"] st2(2) init_nuke_round [OF assms] by fastforce
  have res: "unit_cargo_init us st = Some (mended us ?np ?nl ?nn, st3)"
    unfolding unit_cargo_init_def Let_def st0_def [symmetric] st1(1) option.case st2(1) st3(1) by (rule refl)
  have fin: "mended us ?np ?nl ?nn = us\<lparr>u_plane := map mend_plane (u_plane us),
      u_land := map mend_land (u_land us), u_nuke := map mend_nuke (u_nuke us)\<rparr>"
    by (simp add: mended_def)
  have k: "u < done_upto ?np ?nl ?nn c \<longleftrightarrow> int u < ef_nelem us c" if "c \<in> cargo_types" for u c
    using that by (auto simp: done_upto_def ef_nelem_def types_cases ef_defs)
  show ?thesis
    using st3(2) unfolding res fin lists_upto_def by (auto simp: k)
qed

definition units_example :: units where
  "units_example = \<lparr>u_nship = 1, u_mem = (\<lambda>_. True),
     u_plane = [\<lparr>pln_uid = 0, pln_own = 1, pln_type = 0, pln_ship = 0, pln_land = 0\<rparr>,
                \<lparr>pln_uid = 1, pln_own = 0, pln_type = 0, pln_ship = 0, pln_land = - 1\<rparr>,
                \<lparr>pln_uid = 2, pln_own = 2, pln_type = 0, pln_ship = 0, pln_land = - 1\<rparr>],
     u_land = [\<lparr>lnd_uid = 0, lnd_own = 1, lnd_ship = - 1, lnd_land = - 1\<rparr>], u_nuke = []\<rparr>"

theorem unit_cargo_init_correct_witness:
  "\<exists>us' st' L. unit_cargo_init units_example cargo_example = Some (us', st') \<and> cargo_rel st' L
    \<and> set (L EF_SHIP 0 EF_PLANE) = {int u | u. int u < ef_nelem units_example EF_PLANE
          \<and> carrier_of units_example EF_PLANE EF_SHIP u = 0}"
proof -
  have u: "uids_ok units_example" by (simp add: uids_ok_def units_example_def less_Suc_eq)
  have t: "EF_SHIP \<in> units_types" "EF_PLANE \<in> cargo_types" "0 < ef_nelem units_example EF_SHIP"
    by (simp_all add: types_cases ef_defs ef_nelem_def units_example_def)
  obtain st' L where r: "unit_cargo_init units_example cargo_example = Some (units_example\<lparr>
      u_plane := map mend_plane (u_plane units_example), u_land := map mend_land (u_land units_example),
      u_nuke := map mend_nuke (u_nuke units_example)\<rparr>, st')" "cargo_rel st' L"
    "\<forall>t \<in> units_types. \<forall>v. 0 \<le> v \<and> v < ef_nelem units_example t \<longrightarrow> (\<forall>c \<in> cargo_types.
       set (L t v c) = {int u | u. int u < ef_nelem units_example c \<and> carrier_of units_example c t u = v})"
    using unit_cargo_init_correct [OF u, of cargo_example] by (elim exE conjE)
  have "set (L EF_SHIP 0 EF_PLANE) = {int u | u. int u < ef_nelem units_example EF_PLANE
      \<and> carrier_of units_example EF_PLANE EF_SHIP u = 0}"
    using r(3) [rule_format, OF t(1) _ t(2)] t(3) by blast
  then show ?thesis using r(1,2) by (intro exI conjI)
qed

text \<open>
  Walking a carrier's list with \<open>unit_cargo_first\<close> and \<open>unit_cargo_next\<close> ends after exactly its
  elements, so \<open>unit_cargo_count\<close> returns the number of units carried.
\<close>

theorem unit_cargo_count_correct:
  assumes "cargo_rel st L" and "t \<in> units_types" and "0 \<le> v" and "v < nclink st t" and "c \<in> cargo_types"
  shows "unit_cargo_count t v c st = Some (int (length (L t v c)))"
  using cargo_cursor.counts [of t v c "(st, L)" 0] assms by (simp add: unit_cargo_count_def carrier_ok_def)

theorem unit_cargo_count_correct_witness: "unit_cargo_count EF_SHIP 1 EF_LAND cargo_example = Some 0"
proof -
  have t: "EF_SHIP \<in> units_types" "EF_LAND \<in> cargo_types" "(1::int) < nclink cargo_example EF_SHIP"
    by (simp_all add: types_cases ef_defs cargo_example_def)
  show ?thesis
    using unit_cargo_count_correct [OF cargo_example_rel t(1) _ t(3) t(2)] by (simp add: empty_lists_def)
qed

text \<open>
  \<open>unit_nplane\<close> returns how many planes a carrier has, and how many of them are choppers,
  extra-light ones that are no choppers, and missiles that are neither.
\<close>

theorem unit_nplane_counts:
  assumes "cargo_rel st L" and "t \<in> units_types" and "0 \<le> v" and "v < nclink st t"
    and "nclink st EF_PLANE = int (length (u_plane us))"
  shows "unit_nplane plchr us t v st =
    (let fl = \<lambda>u. plchr (pln_type (u_plane us ! nat u));
         k = \<lambda>P. int (length (filter P (L t v EF_PLANE)))
     in Some (int (length (L t v EF_PLANE)), k (\<lambda>u. bit (fl u) P_K),
              k (\<lambda>u. \<not> bit (fl u) P_K \<and> bit (fl u) P_E),
              k (\<lambda>u. \<not> bit (fl u) P_K \<and> \<not> bit (fl u) P_E \<and> bit (fl u) P_M)))"
proof -
  have c: "EF_PLANE \<in> cargo_types" by (simp add: types_cases ef_defs)
  have "chain (\<lambda>u. pln_next_on_unit u st) (unit_cargo_first t v EF_PLANE st) (L t v EF_PLANE)"
    using cargo_cursor.linked [of t v EF_PLANE "(st, L)"] assms(1-4) c
    by (simp add: carrier_ok_def pln_next_on_unit_def)
  moreover have "set (L t v EF_PLANE) \<subseteq> {0..<int (length (u_plane us))}"
    using cargo_relD(3) [OF assms(1-4) c] assms(5) by simp
  ultimately show ?thesis by (simp add: unit_nplane_def nplane_loop_chain)
qed

theorem unit_nplane_counts_witness:
  "unit_nplane (\<lambda>_. 0) units_example EF_SHIP 1 cargo_example = Some (0, 0, 0, 0)"
proof -
  have t: "EF_SHIP \<in> units_types" "(1::int) < nclink cargo_example EF_SHIP"
    "nclink cargo_example EF_PLANE = int (length (u_plane units_example))"
    by (simp_all add: types_cases ef_defs cargo_example_def units_example_def)
  show ?thesis
    using unit_nplane_counts [OF cargo_example_rel t(1) _ t(2,3)] by (simp add: empty_lists_def)
qed

text \<open>
  When a file of units grows, the lists of the existing carriers stay as they are and the new
  carriers are empty; the consistency check run on the way changes nothing.
\<close>

theorem unit_onresize_keeps_lists:
  assumes "cargo_rel st L" and "type \<in> units_types" and "nclink st type \<le> n"
  shows "cargo_rel (unit_onresize type n mem st) (extend_lists st L)
    \<and> nclink (unit_onresize type n mem st) = (nclink st)(type := n)"
proof -
  have sh: "shape_ok st" using assms(1) by (simp add: cargo_rel_def)
  show ?thesis
    unfolding unit_onresize_mem [OF assms, of mem]
    using unit_onresize_rel [OF assms] unit_onresize_deref(1) [OF sh assms(2,3)] by (rule conjI)
qed

theorem unit_onresize_keeps_lists_witness:
  "cargo_rel (unit_onresize EF_LAND 5 True cargo_example) (extend_lists cargo_example empty_lists)"
  by (rule unit_onresize_keeps_lists [OF cargo_example_rel, THEN conjunct1])
    (simp_all add: types_cases ef_defs cargo_example_def)

text \<open>The checks of one type of cargo leave the heads of ships alone.\<close>

lemma clink_check_other:
  assumes "shape_ok st" "type \<in> units_types" "valid_ref st q"
    and "q \<noteq> Next type i" "\<And>t. t \<in> cargo_types \<Longrightarrow> q \<noteq> Head t i type" and "0 \<le> i"
  shows "i < nclink st type \<Longrightarrow> shape_ok (clink_check1 (Next type i) type st)
      \<and> deref (clink_check1 (Next type i) type st) q = deref st q"
    and "t \<in> cargo_types \<Longrightarrow> i < nclink st t \<Longrightarrow> shape_ok (clink_check1 (clink_headp t i type) type st)
      \<and> deref (clink_check1 (clink_headp t i type) type st) q = deref st q"
proof -
  show "shape_ok (clink_check1 (Next type i) type st) \<and> deref (clink_check1 (Next type i) type st) q = deref st q"
    if "i < nclink st type"
    using assms that shape_assign [of st "Next type i"] deref_assign [of st "Next type i" q]
    by (auto simp: clink_check1_def)
  assume a: "t \<in> cargo_types" "i < nclink st t"
  show "shape_ok (clink_check1 (clink_headp t i type) type st)
      \<and> deref (clink_check1 (clink_headp t i type) type st) q = deref st q"
  proof (cases "type \<in> cargo_types")
    case True
    then have v: "valid_ref st (Head t i type)" using a assms by (simp add: cargo_types_unit)
    then show ?thesis
      using a assms shape_assign [of st "Head t i type"] deref_assign [of st "Head t i type" q]
      unfolding clink_check1_def clink_headp_valid [OF True] by auto
  next
    case False
    then have "clink_headp t i type = Dummy" using assms(2) by (auto simp: clink_headp_def types_cases ef_defs)
    then show ?thesis using assms(1) by (simp add: clink_check1_def assign.simps)
  qed
qed

lemma nclink_check1 [simp]: "nclink (clink_check1 p type st) = nclink st"
  by (simp add: clink_check1_def)

lemma fold_invariant:
  assumes "P s" "\<And>x s. x \<in> set xs \<Longrightarrow> P s \<Longrightarrow> P (f x s)"
  shows "P (fold f xs s)"
  using assms by (induction xs arbitrary: s) auto

text \<open>
  \<open>clink_check\<close> is to check the list heads of all carriers, but its loop over the types of
  carriers starts at planes: no list head of a ship is ever changed by it, so one that is out of
  range survives the check.
\<close>

theorem clink_check_skips_ships:
  assumes "shape_ok st" and "type \<in> units_types" and "c \<in> cargo_types" and "0 \<le> v" and "v < nclink st EF_SHIP"
  shows "deref (clink_check type st) (Head EF_SHIP v c) = deref st (Head EF_SHIP v c)"
proof -
  let ?q = "Head EF_SHIP v c"
  let ?P = "\<lambda>s. shape_ok s \<and> nclink s = nclink st \<and> deref s ?q = deref st ?q"
  have q: "valid_ref s ?q" if "nclink s = nclink st" for s
    using assms(3-5) that by (simp add: types_cases ef_defs)
  have ne: "?q \<noteq> Head t i type" if "t \<in> cargo_types" for t i using that by (auto simp: ef_defs types_cases)
  have nexts: "?P (fold (\<lambda>i. clink_check1 (Next type i) type) [0..nclink s type - 1] s)" if "?P s" for s
    by (rule fold_invariant [where P = ?P])
      (use that assms(2) q ne clink_check_other(1) [of _ type ?q] in auto)
  have heads: "?P (fold (\<lambda>i. clink_check1 (clink_headp t i type) type) [0..nclink s t - 1] s)"
    if "?P s" "t \<in> cargo_types" for s t
    by (rule fold_invariant [where P = ?P])
      (use that assms(2) q ne clink_check_other(2) [of _ type ?q _ t] in auto)
  have "?P (fold (\<lambda>carr_type st. fold (\<lambda>i. clink_check1 (clink_headp carr_type i type) type)
      [0..nclink st carr_type - 1] st) [EF_PLANE..EF_NUKE] st)"
    by (rule fold_invariant [where P = ?P]) (use assms(1) heads in \<open>auto simp: cargo_types_def\<close>)
  then show ?thesis
    using nexts assms(1) unfolding clink_check_def Let_def by (auto split: if_splits)
qed

definition cargo_bad_head :: cargo where
  "cargo_bad_head = assign (Head EF_SHIP 0 EF_PLANE) 7 cargo_example"

theorem clink_check_skips_ships_witness:
  "deref (clink_check EF_PLANE cargo_bad_head) (Head EF_SHIP 0 EF_PLANE) = 7 \<and> nclink cargo_bad_head EF_PLANE = 3"
proof -
  have t: "EF_PLANE \<in> units_types" "EF_PLANE \<in> cargo_types" "nclink cargo_bad_head = (\<lambda>_. 3)"
    "shape_ok cargo_bad_head"
    by (auto simp: types_cases ef_defs cargo_bad_head_def cargo_example_def shape_ok_def assign.simps
        update_clink_def clink_init_def numeral_3_eq_3)
  have "deref cargo_bad_head (Head EF_SHIP 0 EF_PLANE) = 7" by code_simp
  then show ?thesis using clink_check_skips_ships [OF t(4,1,2), of 0] t(3) by simp
qed

end
