(* ===== verification/Match.thy ===== *)
theory Match
  imports Prelude
begin

text \<open>
  Matching of abbreviated names and splitting of command lines: \<open>src/lib/common/stmtch.c\<close>,
  \<open>src/lib/subs/mtch.c\<close> and \<open>src/lib/gen/parse.c\<close>. A C string is a list of characters without
  the terminating zero. A table with a null-pointer sentinel is the list of its elements; handler
  functions are the parameter \<open>'h\<close> of a command.
\<close>

section \<open>Matching\<close>

datatype mineq_result = ME_MISMATCH | ME_PARTIAL | ME_EXACT

definition M_NOTFOUND :: int where "M_NOTFOUND = - 1"
definition M_NOTUNIQUE :: int where "M_NOTUNIQUE = - 2"
definition M_IGNORE :: int where "M_IGNORE = - 3"

lemmas match_defs = M_NOTFOUND_def M_NOTUNIQUE_def M_IGNORE_def

fun mineq :: "string \<Rightarrow> string \<Rightarrow> mineq_result" where
  "mineq (a # as) (b # bs) = (if a = b then mineq as bs else ME_MISMATCH)"
| "mineq (a # as) [] = ME_MISMATCH"
| "mineq [] [] = ME_EXACT"
| "mineq [] (b # bs) = (if b = CHR '' '' then ME_EXACT else ME_PARTIAL)"

text \<open>\<open>stmtch\<close>'s loop from element \<open>i\<close> on, with result \<open>res\<close> so far.\<close>

fun stmtch_loop :: "string \<Rightarrow> string list \<Rightarrow> int \<Rightarrow> int \<Rightarrow> int" where
  "stmtch_loop needle [] i res = res"
| "stmtch_loop needle (name # names) i res =
     (if name = [] then stmtch_loop needle names (i + 1) res
      else case mineq needle name of
             ME_MISMATCH \<Rightarrow> stmtch_loop needle names (i + 1) res
           | ME_PARTIAL \<Rightarrow> stmtch_loop needle names (i + 1) (if res = M_NOTFOUND then i else M_NOTUNIQUE)
           | ME_EXACT \<Rightarrow> i)"

definition stmtch :: "string \<Rightarrow> string list \<Rightarrow> int" where
  "stmtch needle haystack = stmtch_loop needle haystack 0 M_NOTFOUND"

record 'h cmndstr =
  c_form :: string
  c_cost :: int
  c_addr :: "'h option"
  c_flags :: nat
  c_permit :: int

fun comtch_loop :: "string \<Rightarrow> 'h cmndstr list \<Rightarrow> int \<Rightarrow> int \<Rightarrow> int \<Rightarrow> int" where
  "comtch_loop command [] comstat i status = status"
| "comtch_loop command (com # coms) comstat i status =
     (if and (c_permit com) comstat \<noteq> c_permit com then comtch_loop command coms comstat (i + 1) status
      else case mineq command (c_form com) of
             ME_MISMATCH \<Rightarrow> comtch_loop command coms comstat (i + 1) status
           | ME_PARTIAL \<Rightarrow> if status \<ge> 0 then M_NOTUNIQUE else comtch_loop command coms comstat (i + 1) i
           | ME_EXACT \<Rightarrow> i)"

definition comtch :: "string \<Rightarrow> 'h cmndstr list \<Rightarrow> int \<Rightarrow> int" where
  "comtch command coms comstat =
     (if command = [] then M_IGNORE else comtch_loop command coms comstat 0 M_NOTFOUND)"

section \<open>Splitting a line\<close>

text \<open>C's \<open>isspace\<close> in the C locale.\<close>

definition isspace :: "char \<Rightarrow> bool" where
  "isspace c \<longleftrightarrow> of_char c \<in> {9, 10, 11, 12, 13, 32 :: nat}"

text \<open>Copying one argument: what is copied, and the rest of the line.\<close>

fun copy_arg :: "bool \<Rightarrow> string \<Rightarrow> string \<times> string" where
  "copy_arg quoted [] = ([], [])"
| "copy_arg quoted (c # buf) =
     (if \<not> quoted \<and> isspace c then ([], c # buf)
      else if c = CHR 0x22 then copy_arg (\<not> quoted) buf
      else let (s, rest) = copy_arg quoted buf
           in (if (32 \<le> (of_char c :: nat) \<and> of_char c \<le> (126 :: nat)) \<or> c = CHR 0x09 then c # s else s, rest))"

lemma copy_arg_length: "length (fst (copy_arg q b)) + length (snd (copy_arg q b)) \<le> length b"
  by (induction q b rule: copy_arg.induct) (auto simp: Let_def split: prod.splits)

lemma copy_arg_shorter:
  "dropWhile isspace b = c # cs \<Longrightarrow> length (snd (copy_arg False (c # cs))) < length b"
proof -
  assume d: "dropWhile isspace b = c # cs"
  then have c: "\<not> isspace c" by (metis hd_dropWhile list.distinct(1) list.sel(1))
  have "length (dropWhile isspace b) \<le> length b" by (rule length_dropWhile_le)
  then have l: "Suc (length cs) \<le> length b" using d by simp
  have "length (snd (copy_arg False (c # cs))) \<le> length cs"
    using c copy_arg_length [of True cs] copy_arg_length [of False cs]
    by (auto simp: Let_def split: prod.splits)
  then show ?thesis using l by simp
qed

lemma parse_loop_smaller:
  assumes "dropWhile isspace b \<noteq> []"
  shows "(s, r) = copy_arg False (dropWhile isspace b) \<Longrightarrow> length r < length b"
    and "(s, r) = copy_arg False (tl (dropWhile isspace b)) \<Longrightarrow> length r < length b"
proof -
  obtain c cs where d: "dropWhile isspace b = c # cs" using assms by (cases "dropWhile isspace b") auto
  show "(s, r) = copy_arg False (dropWhile isspace b) \<Longrightarrow> length r < length b"
    using copy_arg_shorter [OF d] d by (metis snd_conv)
  assume r: "(s, r) = copy_arg False (tl (dropWhile isspace b))"
  have "length r \<le> length cs" using copy_arg_length [of False cs] r d by (metis add_leD2 list.sel(3) snd_conv)
  then show "length r < length b" using length_dropWhile_le [of isspace b] d by simp
qed

text \<open>
  \<open>parse\<close>: the arguments, the conditional argument, the redirection. \<open>condp\<close> and \<open>redir\<close> say
  whether those are recognised. \<open>n\<close> is the number of arguments so far. \<open>p_space\<close> counts the
  bytes written to the array \<open>space[]\<close>, terminating zeros included.
\<close>

record parsed =
  p_arg :: "string list"
  p_cond :: "string option"
  p_redir :: "string option"
  p_space :: nat

function parse_loop :: "bool \<Rightarrow> bool \<Rightarrow> string \<Rightarrow> nat \<Rightarrow> parsed \<Rightarrow> parsed" where
  "parse_loop condp redir buf n r =
     (if n \<ge> 127 then r
      else let buf = dropWhile isspace buf in
        if buf = [] then r
        else if redir \<and> (hd buf = CHR ''>'' \<or> hd buf = CHR 0x7C) then r\<lparr>p_redir := Some buf\<rparr>
        else if condp \<and> hd buf = CHR ''?'' then
          let (s, rest) = copy_arg False (tl buf)
          in parse_loop condp redir rest n (r\<lparr>p_cond := Some s, p_space := p_space r + length s + 1\<rparr>)
        else
          let (s, rest) = copy_arg False buf
          in parse_loop condp redir rest (n + 1) (r\<lparr>p_arg := p_arg r @ [s], p_space := p_space r + length s + 1\<rparr>))"
  by pat_completeness auto

termination
  by (relation "measure (\<lambda>(condp, redir, buf, n, r). length buf)")
    (simp_all add: parse_loop_smaller)

declare parse_loop.simps [simp del]

definition parse :: "bool \<Rightarrow> bool \<Rightarrow> string \<Rightarrow> parsed" where
  "parse condp redir buf = parse_loop condp redir buf 0 \<lparr>p_arg = [], p_cond = None, p_redir = None, p_space = 0\<rparr>"

section \<open>Properties of matching\<close>

lemma mineq_exact: "mineq a b = ME_EXACT \<longleftrightarrow> b = a \<or> (\<exists>t. b = a @ CHR '' '' # t)"
  by (induction a b rule: mineq.induct) auto

lemma mineq_partial: "mineq a b = ME_PARTIAL \<longleftrightarrow> (\<exists>c t. b = a @ c # t \<and> c \<noteq> CHR '' '')"
  by (induction a b rule: mineq.induct) auto

text \<open>
  The contract of both look-ups: \<open>ok\<close> says which entries count. The result is an index of an entry
  that counts and matches, and an ambiguous or missing name has no unique match.
\<close>

definition matches :: "(nat \<Rightarrow> bool) \<Rightarrow> string \<Rightarrow> string list \<Rightarrow> mineq_result \<Rightarrow> nat set" where
  "matches ok needle names m = {i. i < length names \<and> ok i \<and> mineq needle (names ! i) = m}"

lemma matches_Cons:
  "matches ok needle (x # xs) m
     = (if ok 0 \<and> mineq needle x = m then {0} else {}) \<union> Suc ` matches (\<lambda>i. ok (Suc i)) needle xs m"
  unfolding matches_def by (auto simp: less_Suc_eq_0_disj image_iff)

lemma matches_finite [simp]: "finite (matches ok needle names m)"
  by (simp add: matches_def)

lemma matches_Nil [simp]: "matches ok needle [] m = {}"
  by (simp add: matches_def)

definition lookup_ok :: "(nat \<Rightarrow> bool) \<Rightarrow> string \<Rightarrow> string list \<Rightarrow> int \<Rightarrow> bool" where
  "lookup_ok ok needle names r \<longleftrightarrow>
     (if matches ok needle names ME_EXACT \<noteq> {} then r = int (Min (matches ok needle names ME_EXACT))
      else if matches ok needle names ME_PARTIAL = {} then r = M_NOTFOUND
      else if card (matches ok needle names ME_PARTIAL) = 1 then r = int (Min (matches ok needle names ME_PARTIAL))
      else r = M_NOTUNIQUE)"

text \<open>\<open>stmtch\<close>'s loop, with \<open>p\<close> the partial matches seen so far.\<close>

lemma stmtch_loop_result:
  assumes "i \<ge> 0"
  shows "stmtch_loop needle names i res =
    (let ex = matches (\<lambda>k. names ! k \<noteq> []) needle names ME_EXACT;
         pa = matches (\<lambda>k. names ! k \<noteq> []) needle names ME_PARTIAL
     in if ex \<noteq> {} then i + int (Min ex)
        else if pa = {} then res
        else if card pa = 1 \<and> res = M_NOTFOUND then i + int (Min pa) else M_NOTUNIQUE)"
  using assms
proof (induction names arbitrary: i res)
  case Nil
  then show ?case by simp
next
  case (Cons n ns)
  let ?ex = "matches (\<lambda>k. ns ! k \<noteq> []) needle ns ME_EXACT"
  let ?pa = "matches (\<lambda>k. ns ! k \<noteq> []) needle ns ME_PARTIAL"
  have mc: "matches (\<lambda>k. (n # ns) ! k \<noteq> []) needle (n # ns) m
      = (if n \<noteq> [] \<and> mineq needle n = m then {0} else {}) \<union> Suc ` matches (\<lambda>k. ns ! k \<noteq> []) needle ns m" for m
    by (simp add: matches_Cons)
  have mi: "Min (Suc ` A) = Suc (Min A)" if "A \<noteq> {}" "finite A" for A
    using that by (simp add: mono_Min_commute [symmetric] mono_Suc)
  have m0: "Min (insert 0 A) = (0::nat)" if "finite A" for A
    using that by (intro Min_eqI) auto
  have cS: "card (Suc ` A) = card A" for A by (simp add: card_image)
  have c0: "card (insert 0 (Suc ` A)) = Suc (card A)" if "finite A" for A
    using that by (simp add: card_image)
  have cp: "?pa \<noteq> {} \<Longrightarrow> card ?pa \<noteq> 0" by simp
  show ?case
    using Cons.IH [of "i + 1"] Cons.prems cp
    by (cases "mineq needle n")
      (auto simp: mc Let_def mi m0 cS c0 match_defs card_eq_0_iff)
qed

text \<open>
  \<open>stmtch\<close> returns the index of the first exact match among the non-empty names; failing that,
  of the only partial match; it tells a missing name from an ambiguous one.
\<close>

theorem stmtch_correct: "lookup_ok (\<lambda>k. names ! k \<noteq> []) needle names (stmtch needle names)"
  by (simp add: lookup_ok_def stmtch_def stmtch_loop_result Let_def)

lemma comtch_loop_found:
  assumes "comtch_loop command coms st i status = r" "r \<ge> 0" "i \<ge> 0" "status \<ge> 0 \<or> status = M_NOTFOUND"
  shows "(r = status \<and> status \<ge> 0 \<and> (\<forall>k < length coms. and (c_permit (coms ! k)) st = c_permit (coms ! k)
             \<longrightarrow> mineq command (c_form (coms ! k)) = ME_MISMATCH))
    \<or> (\<exists>k < length coms. r = i + int k \<and> and (c_permit (coms ! k)) st = c_permit (coms ! k)
        \<and> (mineq command (c_form (coms ! k)) = ME_EXACT
           \<or> mineq command (c_form (coms ! k)) = ME_PARTIAL \<and> status = M_NOTFOUND
             \<and> (\<forall>l < length coms. l \<noteq> k \<and> and (c_permit (coms ! l)) st = c_permit (coms ! l)
                  \<longrightarrow> mineq command (c_form (coms ! l)) = ME_MISMATCH)))"
  using assms
proof (induction coms arbitrary: i status)
  case Nil
  then show ?case by (auto simp: M_NOTFOUND_def)
next
  case (Cons c cs)
  let ?P = "\<lambda>k. and (c_permit (cs ! k)) st = c_permit (cs ! k)"
  have all: "(\<forall>k < length (c # cs). Q k) \<longleftrightarrow> Q 0 \<and> (\<forall>k < length cs. Q (Suc k))" for Q
    by (auto simp: less_Suc_eq_0_disj)
  have ex: "(\<exists>k < length (c # cs). Q k) \<longleftrightarrow> Q 0 \<or> (\<exists>k < length cs. Q (Suc k))" for Q
    by (auto simp: less_Suc_eq_0_disj)
  consider (skip) "and (c_permit c) st \<noteq> c_permit c \<or> mineq command (c_form c) = ME_MISMATCH"
    | (partial) "and (c_permit c) st = c_permit c" "mineq command (c_form c) = ME_PARTIAL"
    | (exact) "and (c_permit c) st = c_permit c" "mineq command (c_form c) = ME_EXACT"
    by (cases "mineq command (c_form c)") auto
  then show ?case
  proof cases
    case skip
    then have "comtch_loop command cs st (i + 1) status = r"
      using Cons.prems(1) by (auto split: if_splits)
    from Cons.IH [OF this Cons.prems(2) _ Cons.prems(4)] show ?thesis
      unfolding all ex using skip Cons.prems(3) by (auto simp: algebra_simps)
  next
    case partial
    then have st: "status = M_NOTFOUND" and go: "comtch_loop command cs st (i + 1) i = r"
      using Cons.prems(1,2,4) by (auto simp: match_defs split: if_splits)
    from Cons.IH [OF go Cons.prems(2)] Cons.prems(3) show ?thesis
      unfolding all ex using partial st by (auto simp: match_defs)
  next
    case exact
    then show ?thesis using Cons.prems(1) unfolding all ex by auto
  qed
qed

lemma comtch_permitted_entry:
  assumes "comtch command coms comstat = int k"
  shows "k < length coms \<and> and (c_permit (coms ! k)) comstat = c_permit (coms ! k)"
proof -
  have "comtch_loop command coms comstat 0 M_NOTFOUND = int k"
    using assms by (auto simp: comtch_def match_defs split: if_splits)
  from comtch_loop_found [OF this] show ?thesis by (auto simp: M_NOTFOUND_def)
qed

text \<open>
  C8. A command \<open>comtch\<close> returns is one the player may use: its index is in the table, all the
  capabilities it requires are among the player's, and what was typed names it, exactly or as an
  abbreviation of no other command the player may use.
\<close>

theorem comtch_permitted:
  assumes "comtch command coms comstat = r" and "r \<ge> 0"
  shows "nat r < length coms \<and> and (c_permit (coms ! nat r)) comstat = c_permit (coms ! nat r)
    \<and> (mineq command (c_form (coms ! nat r)) = ME_EXACT
       \<or> mineq command (c_form (coms ! nat r)) = ME_PARTIAL
         \<and> (\<forall>l < length coms. l \<noteq> nat r \<and> and (c_permit (coms ! l)) comstat = c_permit (coms ! l)
              \<longrightarrow> mineq command (c_form (coms ! l)) = ME_MISMATCH))"
proof -
  have "comtch_loop command coms comstat 0 M_NOTFOUND = r"
    using assms by (auto simp: comtch_def match_defs split: if_splits)
  from comtch_loop_found [OF this assms(2)] show ?thesis by (auto simp: M_NOTFOUND_def)
qed

definition com_example :: "unit cmndstr list" where
  "com_example = [\<lparr>c_form = ''add <NAT>'', c_cost = 0, c_addr = Some (), c_flags = 1, c_permit = 8\<rparr>,
     \<lparr>c_form = ''announce'', c_cost = 0, c_addr = Some (), c_flags = 1, c_permit = 0\<rparr>]"

theorem comtch_permitted_witness:
  "comtch ''a'' com_example 1 = 1 \<and> and (c_permit (com_example ! 1)) 1 = c_permit (com_example ! 1)"
proof -
  have "comtch ''a'' com_example 1 = 1" by code_simp
  then show ?thesis using comtch_permitted [of "''a''" com_example 1 1] by simp
qed

section \<open>Properties of parsing\<close>

lemma copy_arg_rest: "copy_arg q b = (s, r) \<Longrightarrow> r = [] \<or> isspace (hd r)"
  by (induction q b arbitrary: s r rule: copy_arg.induct) (auto simp: Let_def split: if_splits prod.splits)

lemma dropWhile_space_shorter: "b \<noteq> [] \<Longrightarrow> isspace (hd b) \<Longrightarrow> length (dropWhile isspace b) < length b"
  by (cases b) (auto simp: length_dropWhile_le le_imp_less_Suc)

lemma parse_space:
  assumes "p_space r + length buf \<le> m + (if buf = [] \<or> isspace (hd buf) then 1 else 0)"
  shows "p_space (parse_loop condp redir buf n r) \<le> m + 1"
  using assms
proof (induction condp redir buf n r rule: parse_loop.induct)
  case (1 condp redir buf n r)
  define b where "b = dropWhile isspace buf"
  have le: "p_space r + length b \<le> m + (if b = [] then 1 else 0)"
  proof (cases "buf = []")
    case True
    then show ?thesis using "1.prems" by (simp add: b_def)
  next
    case False
    then show ?thesis
      using "1.prems" dropWhile_space_shorter [OF False] length_dropWhile_le [of isspace buf]
      by (cases "isspace (hd buf)") (auto simp: b_def)
  qed
  consider (stop) "n \<ge> 127 \<or> b = [] \<or> redir \<and> (hd b = CHR ''>'' \<or> hd b = CHR 0x7C)"
    | (cond) "\<not> n \<ge> 127" "b \<noteq> []" "\<not> (redir \<and> (hd b = CHR ''>'' \<or> hd b = CHR 0x7C))" "condp \<and> hd b = CHR ''?''"
    | (arg) "\<not> n \<ge> 127" "b \<noteq> []" "\<not> (redir \<and> (hd b = CHR ''>'' \<or> hd b = CHR 0x7C))" "\<not> (condp \<and> hd b = CHR ''?'')"
    by blast
  then show ?case
  proof cases
    case stop
    then have "p_space (parse_loop condp redir buf n r) = p_space r"
      by (subst parse_loop.simps) (auto simp: Let_def b_def)
    then show ?thesis using le by (simp split: if_splits)
  next
    case cond
    obtain s rest where c: "copy_arg False (tl b) = (s, rest)" by fastforce
    have "parse_loop condp redir buf n r
        = parse_loop condp redir rest n (r\<lparr>p_cond := Some s, p_space := p_space r + length s + 1\<rparr>)"
      using cond c by (subst parse_loop.simps) (simp add: Let_def b_def [symmetric])
    moreover have "length s + length rest \<le> length (tl b)" using copy_arg_length [of False "tl b"] c by simp
    ultimately show ?thesis
      using "1.IH"(1) [OF cond(1) b_def cond(2,3,4) c [symmetric] refl] cond(2) le copy_arg_rest [OF c]
      by (cases b) auto
  next
    case arg
    obtain s rest where c: "copy_arg False b = (s, rest)" by fastforce
    have "parse_loop condp redir buf n r
        = parse_loop condp redir rest (n + 1) (r\<lparr>p_arg := p_arg r @ [s], p_space := p_space r + length s + 1\<rparr>)"
      using arg c by (subst parse_loop.simps) (auto simp: Let_def b_def [symmetric])
    moreover have "length s + length rest \<le> length b" using copy_arg_length [of False b] c by simp
    ultimately show ?thesis
      using "1.IH"(2) [OF arg(1) b_def arg(2,3,4) c [symmetric] refl] arg(2) le copy_arg_rest [OF c]
      by auto
  qed
qed

text \<open>
  C9. \<open>parse\<close> writes at most \<open>strlen(buf) + 1\<close> bytes to \<open>space[]\<close>, whatever the line, quotes and
  conditional arguments included.
\<close>

theorem parse_space_bound: "p_space (parse condp redir buf) \<le> length buf + 1"
  unfolding parse_def by (rule parse_space) simp

text \<open>Plain arguments: not empty, of printable characters other than quotes.\<close>

definition plain_arg :: "string \<Rightarrow> bool" where
  "plain_arg s \<longleftrightarrow> s \<noteq> [] \<and> (\<forall>c \<in> set s. c \<noteq> CHR 0x22 \<and> 32 < (of_char c :: nat) \<and> of_char c \<le> (126 :: nat))"

fun join_args :: "string list \<Rightarrow> string" where
  "join_args [] = []"
| "join_args [a] = a"
| "join_args (a # as) = a @ CHR '' '' # join_args as"

lemma printable_not_space: "32 < (of_char c :: nat) \<Longrightarrow> \<not> isspace c"
  by (auto simp: isspace_def)

lemma copy_arg_plain:
  "(\<forall>c \<in> set a. c \<noteq> CHR 0x22 \<and> 32 < (of_char c :: nat) \<and> of_char c \<le> (126 :: nat)) \<Longrightarrow>
    rest = [] \<or> isspace (hd rest) \<Longrightarrow> copy_arg False (a @ rest) = (a, rest)"
proof (induction a)
  case Nil
  then show ?case by (cases rest) auto
next
  case (Cons c a)
  then have c: "c \<noteq> CHR 0x22" "32 < (of_char c :: nat)" "of_char c \<le> (126 :: nat)" by auto
  show ?case using Cons c printable_not_space [OF c(2)] by simp
qed

lemma parse_plain:
  assumes "\<forall>a \<in> set as. plain_arg a" "length as + n \<le> 127"
    and "buf = join_args as \<or> buf = CHR '' '' # join_args as"
  shows "p_arg (parse_loop False False buf n r) = p_arg r @ as"
  using assms
proof (induction as arbitrary: buf n r)
  case Nil
  then show ?case by (subst parse_loop.simps) (auto simp: Let_def isspace_def)
next
  case (Cons a as)
  define rest where "rest = (if as = [] then [] else CHR '' '' # join_args as)"
  have j: "join_args (a # as) = a @ rest" by (cases as) (simp_all add: rest_def)
  have a: "a \<noteq> []" "\<not> isspace (hd a)"
    using Cons.prems(1) printable_not_space by (auto simp: plain_arg_def)
  have sp: "isspace (CHR '' '')" by (simp add: isspace_def)
  have "dropWhile isspace (a @ rest) = a @ rest" using a by (cases a) auto
  then have d: "dropWhile isspace buf = a @ rest" using Cons.prems(3) sp unfolding j by auto
  have c: "copy_arg False (a @ rest) = (a, rest)"
    by (rule copy_arg_plain) (use Cons.prems(1) sp in \<open>auto simp: plain_arg_def rest_def\<close>)
  have "parse_loop False False buf n r = parse_loop False False rest (n + 1) (r\<lparr>p_arg := p_arg r @ [a],
      p_space := p_space r + length a + 1\<rparr>)"
    using d c a(1) Cons.prems(2) by (subst parse_loop.simps) (simp add: Let_def)
  moreover have "rest = join_args as \<or> rest = CHR '' '' # join_args as" by (simp add: rest_def)
  ultimately show ?case using Cons.IH [of "n + 1" rest] Cons.prems by simp
qed

text \<open>
  Splitting a line made of up to 127 plain arguments gives back those arguments.
\<close>

theorem parse_join:
  assumes "\<forall>a \<in> set as. plain_arg a" and "length as \<le> 127"
  shows "p_arg (parse False False (join_args as)) = as"
  using parse_plain [OF assms(1), of 0 "join_args as"] assms(2) by (simp add: parse_def)

theorem parse_join_witness:
  "p_arg (parse False False (join_args [''play'', ''joe'', ''1'', ''pw''])) = [''play'', ''joe'', ''1'', ''pw'']"
  by (rule parse_join) (simp_all add: plain_arg_def)

end
