(* ===== verification/Commands.thy ===== *)
theory Commands
  imports Match
begin

text \<open>
  The player's commands: the table \<open>player_coms\<close> of \<open>src/lib/player/empmod.c\<close>, disabling and listing
  them (\<open>src/lib/player/empdis.c\<close>), the capabilities a country's state gives
  (\<open>src/lib/player/init_nats.c\<close>, \<open>influx\<close> of \<open>src/lib/common/nat.c\<close>) and running a command
  (\<open>src/lib/player/dispatch.c\<close>). A handler is named by its C function; what handlers do is the
  parameter \<open>exec\<close>.
\<close>

section \<open>Capabilities and countries\<close>

definition NONVIS :: int where "NONVIS = 1"
definition SANCT :: int where "SANCT = 2"
definition NORM :: int where "NORM = 4"
definition GOD :: int where "GOD = 8"
definition TESTING :: int where "TESTING = 16"
definition EXEC :: int where "EXEC = 32"
definition CAP :: int where "CAP = 64"
definition MONEY :: int where "MONEY = 128"
definition C_MOD :: nat where "C_MOD = 1"

lemmas cap_defs = NONVIS_def SANCT_def NORM_def GOD_def TESTING_def EXEC_def CAP_def MONEY_def

datatype nat_status = STAT_UNUSED | STAT_NEW | STAT_VIS | STAT_SANCT | STAT_ACTIVE | STAT_GOD

text \<open>The capital's sector is given by its owner and type, read through \<open>getsect\<close>.\<close>

datatype capital_type = SCT_CAPIT | SCT_MOUNT | SCT_SANCT | SCT_OTHER

record nation =
  nat_cnum :: nat
  nat_stat :: nat_status
  nat_cnam :: string
  nat_pnam :: string
  nat_btu :: int
  nat_money :: int
  nat_sacked :: bool
  nat_cap_own :: nat
  nat_cap_type :: capital_type

definition influx :: "nation \<Rightarrow> bool" where
  "influx np \<longleftrightarrow>
     nat_cap_own np \<noteq> nat_cnum np
     \<or> (nat_cap_type np \<noteq> SCT_CAPIT \<and> nat_cap_type np \<noteq> SCT_MOUNT \<and> nat_cap_type np \<noteq> SCT_SANCT)
     \<or> nat_sacked np"

fun nstat_of_status :: "nat_status \<Rightarrow> int" where
  "nstat_of_status STAT_UNUSED = 0"
| "nstat_of_status STAT_NEW = NONVIS"
| "nstat_of_status STAT_VIS = 0"
| "nstat_of_status STAT_SANCT = or SANCT NONVIS"
| "nstat_of_status STAT_ACTIVE = or NORM NONVIS"
| "nstat_of_status STAT_GOD = or GOD (or NORM (or NONVIS (or CAP MONEY)))"

text \<open>The new \<open>god\<close> and \<open>nstat\<close> of a player.\<close>

definition player_set_nstat :: "bool \<Rightarrow> nat \<Rightarrow> bool \<times> int \<Rightarrow> nation \<Rightarrow> bool \<times> int" where
  "player_set_nstat running_test_suite cnum pl np =
     (if cnum \<noteq> nat_cnum np then pl
      else let n = nstat_of_status (nat_stat np);
               n = (if nat_money np \<ge> 0 then or n MONEY else n);
               n = (if nat_stat np = STAT_ACTIVE \<and> \<not> influx np then or n CAP else n);
               n = (if running_test_suite then or n TESTING else n);
               n = or n EXEC
           in (nat_stat np = STAT_GOD, n))"

section \<open>The table\<close>

definition com :: "string \<Rightarrow> int \<Rightarrow> string \<Rightarrow> nat \<Rightarrow> int \<Rightarrow> string cmndstr" where
  "com form cost addr flags permit =
     \<lparr>c_form = form, c_cost = cost, c_addr = Some addr, c_flags = flags, c_permit = permit\<rparr>"

definition player_coms_1 :: "string cmndstr list" where
  "player_coms_1 = [
   com ''accept  [as-COUNTRY]'' 0 ''c_accept'' C_MOD NORM,
   com ''add <NAT> <NAME> <REP> <STATUS>'' 0 ''c_add'' C_MOD GOD,
   com ''announce'' 0 ''c_telegram'' C_MOD 0,
   com ''anti <SECTS>'' 3 ''c_anti'' C_MOD (NORM + MONEY + CAP),
   com ''apropos <topic>'' 0 ''c_apropos'' 0 0,
   com ''arm <PLANE> <NUKE> <airburst?>'' 3 ''c_arm'' C_MOD (NORM + CAP),
   com ''army <ARMY> <UNITS>'' 0 ''c_army'' C_MOD NORM,
   com ''assault <to-SECT> <from-SHIP> [<forts?> <ships?> <arty?> <planes?>]'' 3 ''c_assault'' C_MOD (NORM + MONEY + CAP),
   com ''attack <SECT> [<forts?> <ships?> <arty?> <planes?>]'' 3 ''c_attack'' C_MOD (NORM + MONEY + CAP),
   com ''bdes <SECTS> <type>'' 0 ''c_bdes'' C_MOD NORM,
   com ''bestpath <SECTS> <SECTS>'' 0 ''c_bestpath'' 0 NORM,
   com ''bmap <SECTS|SHIP> [s|l|n|p|r|t|*|h]'' 0 ''c_map'' C_MOD NORM,
   com ''board <to-SHIP> [<from-SHIP>|<from-sector>]'' 3 ''c_board'' C_MOD (NORM + MONEY + CAP),
   com ''bomb <bomber-PLANES> <fighter-PLANES> <pin|strat> <ap-SECT> <PATH|DESTINATION>'' 2 ''c_bomb'' C_MOD (NORM + MONEY + CAP),
   com ''break'' 0 ''c_break'' C_MOD SANCT,
   com ''budget'' 1 ''c_budget'' 0 NORM,
   com ''build <s|l|b|p|n|t> <SECTS> <type|dir> [<number> <tech> <sure?>]'' 1 ''c_build'' C_MOD (NORM + MONEY + CAP),
   com ''buy <COMM> <LOT#> <BID/UNIT> <DEST>'' 1 ''c_buy'' C_MOD (NORM + MONEY + CAP),
   com ''bye'' 0 ''c_quit'' 0 0,
   com ''capital <SECT>'' 0 ''c_capital'' C_MOD NORM,
   com ''cargo <SHIPS>'' 0 ''c_cargo'' 0 NORM,
   com ''census <SECTS>'' 0 ''c_census'' 0 NONVIS,
   com ''change <country|representative> <NAME>'' 0 ''c_change'' C_MOD NONVIS,
   com ''coastwatch <SECTS>'' 1 ''c_coastwatch'' C_MOD (NORM + CAP),
   com ''collect <LOAN> <SECT>'' 2 ''c_collect'' C_MOD (NORM + MONEY + CAP),
   com ''commodity <SECTS>'' 0 ''c_commodity'' 0 NONVIS,
   com ''consider <loan> <LOAN> <acc|decl|post>'' 1 ''c_consider'' C_MOD (NORM + CAP),
   com ''convert <SECTS> <NUM>'' 2 ''c_convert'' C_MOD (NORM + MONEY + CAP),
   com ''country <NATS>'' 0 ''c_country'' 0 0,
   com ''cutoff <SECTS>'' 0 ''c_cutoff'' 0 NORM,
   com ''declare <all|friend|neut|hos|war> <NATS>'' 2 ''c_declare'' C_MOD (NORM + CAP),
   com ''deliver <COMM> <SECTS> [q|<THRESH>] [<DIR>]'' 1 ''c_deliver'' C_MOD NORM,
   com ''demobilize <SECTS> <NUM> <active-reserve?>'' 1 ''c_demobilize'' C_MOD (NORM + MONEY + CAP),
   com ''designate <SECTS> <type>'' 1 ''c_designate'' C_MOD NORM,
   com ''disable'' 0 ''c_disable'' C_MOD GOD,
   com ''disarm <PLANE>'' 2 ''c_disarm'' C_MOD (NORM + CAP),
   com ''distribute <SECTS> <DISTSECT|.|h>'' 1 ''c_distribute'' C_MOD NORM,
   com ''drop <cargo-PLANES> <fighter-PLANES> <ap-SECT> <PATH|DESTINATION> <COMM>'' 1 ''c_drop'' C_MOD (NORM + MONEY + CAP),
   com ''dump <SECTS> [<fields>]'' 0 ''c_dump'' 0 NORM,
   com ''echo [<string>]'' 0 ''c_echo'' 0 0,
   com ''edit <l|s|p|u|n|c> <SECTS|SHIPS|PLANES|LANDS|NUKES|NATS> [<KEY> <VALUE>]...'' 0 ''c_edit'' C_MOD GOD,
   com ''enable'' 0 ''c_enable'' C_MOD GOD,
   com ''enlist <SECTS> <NUM>'' 2 ''c_enlist'' C_MOD (NORM + MONEY + CAP),
   com ''execute <INPUT FILE>'' 0 ''c_execute'' 0 EXEC,
   com ''explore <c|m> <SECT> <NUM> <PATH|DESTINATION>'' 1 ''c_explore'' C_MOD (NORM + MONEY + CAP),
   com ''financial'' 0 ''c_financial'' 0 0]"

definition player_coms_2 :: "string cmndstr list" where
  "player_coms_2 = [
   com ''fire <TYPE> <from-SECTS | SHIPS | UNITS> [TO-SECT | SHIP]'' 1 ''c_fire'' C_MOD (NORM + MONEY + CAP),
   com ''flash <COUNTRY> [<message>]'' 0 ''c_flash'' 0 0,
   com ''fleetadd <FLEET> <SHIPS>'' 0 ''c_fleetadd'' C_MOD NORM,
   com ''fly <cargo-PLANES> <fighter-PLANES> <ap-SECT> <PATH|DESTINATION> <COM>'' 2 ''c_fly'' C_MOD (NORM + MONEY + CAP),
   com ''force'' 0 ''c_force'' C_MOD GOD,
   com ''fortify <UNITS> <MOB>'' 1 ''c_fortify'' C_MOD (NORM + CAP),
   com ''give <COMM> <SECTS> <NUM>'' 0 ''c_give'' C_MOD GOD,
   com ''grind <SECTS> <NUM>'' 1 ''c_grind'' C_MOD (NORM + MONEY + CAP),
   com ''harden <PLANES> <NUM>'' 2 ''c_harden'' C_MOD (NORM + MONEY + CAP),
   com ''headlines [days]'' 0 ''c_headlines'' 0 0,
   com ''help <topic>'' 0 ''c_info'' 0 0,
   com ''improve <road|rail|defense> <SECTS> <NUM>'' 1 ''c_improve'' C_MOD (NORM + MONEY + CAP),
   com ''info <topic>'' 0 ''c_info'' 0 0,
   com ''land <UNITS>'' 0 ''c_land'' 0 NORM,
   com ''launch <PLANES> <SECT|SHIP>'' 3 ''c_launch'' C_MOD (NORM + MONEY + CAP),
   com ''lbmap <SECTS|LAND UNIT> [s|l|n|p|r|t|*|h]'' 0 ''c_map'' C_MOD NORM,
   com ''lboard <to-LAND> [<from-sector>]'' 3 ''c_lboard'' C_MOD (NORM + MONEY + CAP),
   com ''lcargo <UNITS>'' 0 ''c_lcargo'' 0 NORM,
   com ''ldump <UNITS> [<fields>]'' 0 ''c_ldump'' 0 NORM,
   com ''ledger <LOANS>'' 0 ''c_ledger'' 0 NORM,
   com ''level <SECTS>'' 0 ''c_level'' 0 NORM,
   com ''list'' 0 ''c_list'' 0 0,
   com ''lload <COMM|\"land\"|\"plane\"> <UNITS> <NUM|UNITS|PLANES>'' 1 ''c_lload'' C_MOD (NORM + CAP),
   com ''llookout <UNITS>'' 1 ''c_llookout'' 0 (NORM + CAP),
   com ''lmap <SECTS|LAND UNIT> [s|l|n|p|*|h]'' 0 ''c_map'' C_MOD NORM,
   com ''lmine <UNITS>'' 2 ''c_lmine'' C_MOD (NORM + MONEY + CAP),
   com ''load <COMM|\"land\"|\"plane\"> <SHIPS> <NUM|UNITS|PLANES>'' 1 ''c_load'' C_MOD (NORM + CAP),
   com ''lookout <SHIPS>'' 1 ''c_lookout'' 0 (NORM + CAP),
   com ''lost'' 0 ''c_lost'' 0 NORM,
   com ''lradar <UNITS | SECTS>'' 1 ''c_lradar'' C_MOD (NORM + CAP),
   com ''lretreat <UNITS|ARMY> [q | <PATH> <i|h|b|c>]'' 1 ''c_lretreat'' C_MOD (NORM + CAP),
   com ''lstat <UNITS>'' 0 ''c_lstat'' 0 NORM,
   com ''ltend <COMM> <tender-SHIPS> <NUM> <UNITS>'' 1 ''c_ltend'' C_MOD (NORM + CAP),
   com ''lunload <COMM|\"land\"|\"plane\"> <UNITS> <NUM|UNITS|PLANES>'' 1 ''c_lload'' C_MOD (NORM + CAP),
   com ''map <SECTS|SHIP> [s|l|n|p|*|h]'' 0 ''c_map'' C_MOD NORM,
   com ''march <UNITS> <PATH|DESTINATION>'' 1 ''c_march'' C_MOD (NORM + CAP),
   com ''market <COMM|\"all\">'' 0 ''c_market'' C_MOD NORM,
   com ''mine <SHIPS>'' 2 ''c_mine'' C_MOD (NORM + MONEY + CAP),
   com ''mission <TYPE> <PLANES|SHIPS|UNITS> <mission type> <op sect> [<radius>]'' 2 ''c_mission'' C_MOD (NORM + CAP),
   com ''morale <UNITS> <retreat%>'' 1 ''c_morale'' C_MOD (NORM + CAP),
   com ''motd'' 0 ''c_motd'' 0 0,
   com ''move <COMM> <SECT> <NUM> <PATH|DESTINATION>'' 1 ''c_move'' C_MOD (NORM + CAP),
   com ''name <SHIPS> <NAME>'' 0 ''c_name'' C_MOD NORM,
   com ''nation [as-COUNTRY]'' 0 ''c_nation'' 0 0,
   com ''navigate <SHIPS> <PATH|DESTINATION>'' 1 ''c_navigate'' C_MOD (NORM + CAP),
   com ''nbmap <SECTS|NUKE> [s|l|n|p|r|t|*|h]'' 0 ''c_map'' C_MOD NORM]"

definition player_coms_3 :: "string cmndstr list" where
  "player_coms_3 = [
   com ''ndump <NUKES>'' 0 ''c_ndump'' 0 NORM,
   com ''newcap <NAT> <SECTOR>'' 0 ''c_newcap'' C_MOD GOD,
   com ''neweff <SECTS>'' 0 ''c_neweff'' 0 NORM,
   com ''newspaper [days]'' 0 ''c_newspaper'' 0 0,
   com ''nmap <SECTS|NUKE> [s|l|n|p|*|h]'' 0 ''c_map'' C_MOD NORM,
   com ''nuke <NUKES>'' 0 ''c_nuke'' 0 NORM,
   com ''offer <loan> <NAT> [<NUM> <DAYS> <IRATE>]'' 1 ''c_offer'' C_MOD (NORM + MONEY + CAP),
   com ''origin <SECT|COUNTRY|~>'' 1 ''c_origin'' C_MOD NORM,
   com ''paradrop <cargo-PLANES> <fighter-PLANES> <ap-SECT> <PATH|DESTINATION>'' 3 ''c_paradrop'' C_MOD (NORM + MONEY + CAP),
   com ''path <SECT>'' 0 ''c_path'' C_MOD NORM,
   com ''payoff <SHIPS>'' 0 ''c_payoff'' 0 NORM,
   com ''pbmap <SECTS|PLANE> [s|l|n|p|r|t|*|h]'' 0 ''c_map'' C_MOD NORM,
   com ''pboard <PLANES>'' 3 ''c_pboard'' C_MOD (NORM + MONEY + CAP),
   com ''pdump <PLANES> [<fields>]'' 0 ''c_pdump'' 0 NORM,
   com ''peek <SECTS>'' 0 ''c_peek'' 0 GOD,
   com ''plane <SECTS>'' 0 ''c_plane'' 0 NORM,
   com ''players'' 0 ''c_players'' 0 0,
   com ''pmap <SECTS|PLANE> [s|l|n|p|*|h]'' 0 ''c_map'' C_MOD NORM,
   com ''power [\"new\"|\"update\"] [<NUMBER OF COUNTRIES> | \"country\" <NATS>]'' 0 ''c_power'' C_MOD 0,
   com ''pray'' 0 ''c_telegram'' C_MOD NORM,
   com ''production <SECTS>'' 0 ''c_production'' 0 NORM,
   com ''pstat <PLANES>'' 0 ''c_pstat'' 0 NORM,
   com ''quit'' 0 ''c_quit'' 0 0,
   com ''radar <SHIPS | SECTS>'' 1 ''c_radar'' C_MOD (NORM + CAP),
   com ''range <PLANES> <range>'' 1 ''c_range'' C_MOD (NORM + CAP),
   com ''read [yes|no|<CNUM/CNAME>]'' 0 ''c_read'' C_MOD NONVIS,
   com ''realm <number> [<SECTS>]'' 0 ''c_realm'' C_MOD NORM,
   com ''recon <spy-PLANES> <fighter-PLANES> <ap-SECT> <PATH|DESTINATION>'' 3 ''c_recon'' C_MOD (NORM + MONEY + CAP),
   com ''reject <reject|accept> <announcements|mail|loans> <NAT>'' 2 ''c_reject'' C_MOD NORM,
   com ''relations  [as-COUNTRY]'' 0 ''c_relations'' 0 0,
   com ''reload'' 0 ''c_reload'' C_MOD GOD,
   com ''repay <LOAN> <NUM>'' 1 ''c_repay'' C_MOD (NORM + MONEY + CAP),
   com ''report <NATS>'' 0 ''c_report'' 0 0,
   com ''reset <lot #> <0|price>'' 1 ''c_reset'' C_MOD (NORM + CAP),
   com ''resource <SECTS>'' 0 ''c_resource'' 0 NONVIS,
   com ''retreat <SHIPS|FLEET> [q | <PATH> <i|t|s|h|b|d|u|c>]'' 1 ''c_retreat'' C_MOD (NORM + CAP),
   com ''route <COMM> <SECTS>'' 1 ''c_route'' C_MOD NORM,
   com ''sabotage <UNITS>'' 1 ''c_sabotage'' C_MOD (NORM + MONEY + CAP),
   com ''satellite <PLANE> [<se|sh|l> [?cond&cond&...]]'' 1 ''c_satellite'' C_MOD (NORM + CAP),
   com ''sbmap <SECTS|SHIP> [s|l|n|p|r|t|*|h]'' 0 ''c_map'' C_MOD NORM,
   com ''scrap <s|p|l> <SHIPS|PLANES|UNITS>'' 2 ''c_scrap'' C_MOD (NORM + MONEY + CAP),
   com ''scuttle <s|p|l> <SHIPS|PLANES|UNITS>'' 5 ''c_scuttle'' C_MOD (NORM + CAP),
   com ''sdump <SHIPS> [<fields>]'' 0 ''c_sdump'' 0 NORM,
   com ''sect <SECTS>'' 0 ''c_sect'' C_MOD NORM,
   com ''sell <COMM> <SECTS> <NUM> <NUM>'' 1 ''c_sell'' C_MOD (NORM + CAP),
   com ''set <TYPE> <SHIPS|PLANES|UNITS|NUKES> <PRICE>'' 1 ''c_set'' C_MOD (NORM + CAP)]"

definition player_coms_4 :: "string cmndstr list" where
  "player_coms_4 = [
   com ''setresource <type> <SECTS> <NUM>'' 0 ''c_setresource'' C_MOD GOD,
   com ''setsector <type> <SECTS> <NUM>'' 0 ''c_setsector'' C_MOD GOD,
   com ''sharebmap <CNUM/CNAME> <SECTS> [<des>]'' 0 ''c_sharebmap'' C_MOD NORM,
   com ''shark <LOAN>'' 25 ''c_shark'' C_MOD (NORM + MONEY + CAP),
   com ''ship <SHIPS>'' 0 ''c_ship'' 0 NORM,
   com ''shoot <c|u> <SECTS> <NUMBER>'' 3 ''c_shoot'' C_MOD (NORM + MONEY + CAP),
   com (''show <TYPE> <\"build\"|\"stats\"|\"cap\"> [<tech>]'' @ [CHR 0x0A] @ [CHR 0x09] @ ''show <bridge|item|news|product|tower>'' @ [CHR 0x0A] @ [CHR 0x09] @ ''show updates [<NUM>]>'') 0 ''c_show'' 0 0,
   com ''shutdown <minutes> <disable update?>'' 0 ''c_shutdown'' 0 GOD,
   com ''sinfrastructure <SECTS>'' 0 ''c_sinfrastructure'' 0 NONVIS,
   com ''skywatch <SECTS>'' 1 ''c_skywatch'' C_MOD (NORM + CAP),
   com ''smap <SECTS|SHIP> [s|l|n|p|*|h]'' 0 ''c_map'' C_MOD NORM,
   com ''sonar <SHIPS> <brief?>'' 1 ''c_sonar'' C_MOD (NORM + CAP),
   com ''spy <SECTS>'' 1 ''c_spy'' C_MOD (NORM + CAP),
   com ''sstat <SHIPS>'' 0 ''c_sstat'' 0 NORM,
   com ''start <TYPE> <SECTS|PLANES|SHIPS|UNITS|NUKES>'' 1 ''c_start'' C_MOD NORM,
   com ''starvation [<SECTS>|l <UNITS>|s <SHIPS>]'' 0 ''c_starvation'' 0 NORM,
   com ''stockpile <STOCKPILE> <NUKES>'' 0 ''c_stockpile'' C_MOD NORM,
   com ''stop <TYPE> <SECTS|PLANES|SHIPS|UNITS|NUKES>'' 1 ''c_stop'' C_MOD NORM,
   com ''strength <SECTS>'' 1 ''c_strength'' C_MOD NORM,
   com ''supply <LAND UNITS>'' 1 ''c_supply'' C_MOD (NORM + CAP),
   com ''survey <SELECTOR> <SECTS>'' 0 ''c_survey'' C_MOD NORM,
   com ''swapsector <SECT> <SECT>'' 0 ''c_swapsector'' C_MOD GOD,
   com ''sweep <sweep-PLANES> <fighter-PLANES> <ap-SECT> <PATH|DESTINATION>'' 3 ''c_recon'' C_MOD (NORM + MONEY + CAP),
   com ''telegram <NATS>...'' 0 ''c_telegram'' C_MOD NORM,
   com ''tend <COMM|\"land\"> <tender-SHIPS> <NUM|UNIT> <dest-SHIPS>'' 1 ''c_tend'' C_MOD (NORM + CAP),
   com ''territory <SECTS> <NUMBER> [<FIELD>]'' 0 ''c_territory'' C_MOD NORM,
   com ''test <COMM> <SECT> <NUM> <PATH|DESTINATION>'' 1 ''c_move'' C_MOD NORM,
   com ''threshold <COMM> <SECTS> <THRESH>'' 1 ''c_threshold'' C_MOD NORM,
   com ''toggle [inform|flash|beep|coastwatch|sonar|techlists] [on|off]'' 0 ''c_toggle'' C_MOD 0,
   com ''torpedo <submarine-SHIPS> <target-SHIP>'' 3 ''c_torpedo'' C_MOD (NORM + MONEY + CAP),
   com ''trade'' 1 ''c_trade'' C_MOD (NORM + MONEY + CAP),
   com ''transport <\"nuke\"|\"plane\"> <NUKES|PLANES> <PATH|DESTINATION>'' 1 ''c_transport'' C_MOD (NORM + CAP),
   com ''turn <\"on\"|\"off\"|\"mess\">'' 0 ''c_turn'' C_MOD GOD,
   com ''unload <COMM|\"land\"|\"plane\"> <SHIPS> <NUM|UNIT|PLANE>'' 1 ''c_load'' C_MOD (NORM + CAP),
   com ''update'' 0 ''c_update'' 0 0,
   com ''upgrade <s|p|l> <SHIPS|PLANES|UNITS>'' 1 ''c_upgrade'' C_MOD (NORM + MONEY + CAP),
   com ''version'' 0 ''c_version'' 0 0,
   com ''wall [<message>]'' 0 ''c_wall'' 0 NORM,
   com ''wingadd <WING> <PLANES>'' 0 ''c_wingadd'' C_MOD NORM,
   com ''wipe <SECTS>'' 1 ''c_wipe'' C_MOD NORM,
   com ''wire [yes|no|<days>]'' 0 ''c_read'' C_MOD 0,
   com ''work <LAND UNITS> <AMOUNT>'' 1 ''c_work'' C_MOD (NORM + MONEY + CAP),
   com ''xdump [\"meta\"] <TYPE> [<RECORDS>]'' 0 ''c_xdump'' 0 0,
   com ''zdone <y|n|c>'' 0 ''c_zdone'' C_MOD NORM,
   com ''__cmd \"added\" <NUM> <NUM> <NUM>'' 0 ''c___cmd'' 0 TESTING]"

definition player_coms :: "string cmndstr list" where
  "player_coms = player_coms_1 @ player_coms_2 @ player_coms_3 @ player_coms_4"

section \<open>Disabling and listing\<close>

text \<open>\<open>strtok\<close> with delimiters space and tab.\<close>

definition is_delim :: "char \<Rightarrow> bool" where
  "is_delim c \<longleftrightarrow> c = CHR '' '' \<or> c = CHR 0x09"

function strtok :: "string \<Rightarrow> string list" where
  "strtok s =
     (let s = dropWhile is_delim s
      in if s = [] then []
         else takeWhile (\<lambda>c. \<not> is_delim c) s # strtok (dropWhile (\<lambda>c. \<not> is_delim c) s))"
  by pat_completeness auto
termination
proof (relation "measure length", simp)
  fix s x :: string
  assume x: "x = dropWhile is_delim s" "x \<noteq> []"
  then have "\<not> is_delim (hd x)" by (simp add: hd_dropWhile)
  then have "length (dropWhile (\<lambda>c. \<not> is_delim c) x) < length x"
    using x(2) by (cases x) (simp_all add: length_dropWhile_le le_imp_less_Suc)
  also have "\<dots> \<le> length s" unfolding x(1) by (rule length_dropWhile_le)
  finally show "(dropWhile (\<lambda>c. \<not> is_delim c) x, s) \<in> measure length" by simp
qed

declare strtok.simps [simp del]

definition disable_com :: "string \<Rightarrow> 'h cmndstr list \<Rightarrow> 'h cmndstr list" where
  "disable_com name coms =
     (let cmd = comtch name coms (- 1)
      in if cmd < 0 then coms
         else coms[nat cmd := (coms ! nat cmd)\<lparr>c_permit := or (c_permit (coms ! nat cmd)) GOD\<rparr>])"

definition disable_coms :: "string \<Rightarrow> 'h cmndstr list \<Rightarrow> 'h cmndstr list" where
  "disable_coms disabled_commands coms = fold disable_com (strtok disabled_commands) coms"

text \<open>The commands \<open>c_list\<close> prints: cost, marks for money and capital, form.\<close>

definition c_list :: "int \<Rightarrow> 'h cmndstr list \<Rightarrow> (int \<times> char \<times> char \<times> string) list" where
  "c_list nstat coms =
     map (\<lambda>com. (c_cost com, if and (c_permit com) MONEY \<noteq> 0 then CHR ''$'' else CHR '' '',
                 if and (c_permit com) CAP \<noteq> 0 then CHR ''c'' else CHR '' '', c_form com))
       (filter (\<lambda>com. and (c_permit com) nstat = c_permit com) coms)"

section \<open>Running a command\<close>

datatype player_sleep = PLAYER_SLEEP_NEVER | PLAYER_SLEEP_ON_INPUT | PLAYER_SLEEP_FREELY

datatype ret = RET_OK | RET_FAIL | RET_SYN | RET_OTHER

text \<open>
  The player and what else \<open>dispatch\<close> touches: the country's BTUs, how often this thread holds
  \<open>update_lock\<close> for reading, the test suite's counter and seed, the journal, and the game \<open>'g\<close>
  that the handlers work on.
\<close>

record 'g session =
  ses_nstat :: int
  ses_god :: bool
  ses_btused :: int
  ses_btu :: int
  ses_sleep :: player_sleep
  ses_command :: "string cmndstr option"
  ses_eof :: bool
  ses_out :: "string list"
  ses_locks :: int
  ses_count :: int
  ses_seed :: "int option"
  ses_journal :: "string list"
  ses_game :: 'g

record config =
  opt_BLITZ :: bool
  max_btus :: int
  running_test_suite :: bool

definition pr :: "string \<Rightarrow> 'g session \<Rightarrow> 'g session" where
  "pr s p = p\<lparr>ses_out := ses_out p @ [s]\<rparr>"

definition nl :: string where "nl = [CHR 0x0A]"

definition dispatch_start :: "config \<Rightarrow> string cmndstr \<Rightarrow> string \<Rightarrow> string option \<Rightarrow> 'g session \<Rightarrow> 'g session" where
  "dispatch_start cfg command buf redir p =
     (let p = p\<lparr>ses_sleep := (if and (c_flags command) C_MOD \<noteq> 0 then PLAYER_SLEEP_ON_INPUT else PLAYER_SLEEP_FREELY),
                ses_command := Some command, ses_locks := ses_locks p + 1\<rparr>;
          p = p\<lparr>ses_count := ses_count p + (if and (c_permit command) TESTING = 0 then 1 else 0)\<rparr>;
          p = (if running_test_suite cfg then p\<lparr>ses_seed := Some (ses_count p)\<rparr> else p);
          p = (case redir of None \<Rightarrow> p | Some r \<Rightarrow> pr nl (pr buf (pr r p)))
      in p\<lparr>ses_journal := ses_journal p @ [c_form command]\<rparr>)"

definition dispatch_end :: "string cmndstr \<Rightarrow> ret \<Rightarrow> 'g session \<Rightarrow> 'g session" where
  "dispatch_end command r p =
     (let p = (case r of
                 RET_OK \<Rightarrow> p\<lparr>ses_btused := ses_btused p + c_cost command\<rparr>
               | RET_FAIL \<Rightarrow> (pr (''command failed'' @ nl) p)\<lparr>ses_btused := ses_btused p + c_cost command\<rparr>
               | RET_SYN \<Rightarrow> pr (''Usage: '' @ c_form command @ nl) p
               | RET_OTHER \<Rightarrow> p);
          p = p\<lparr>ses_locks := ses_locks p - 1, ses_command := None\<rparr>
      in if ses_sleep p \<noteq> PLAYER_SLEEP_NEVER \<or> \<not> ses_eof p then p\<lparr>ses_sleep := PLAYER_SLEEP_FREELY\<rparr> else p)"

definition dispatch ::
  "config \<Rightarrow> string cmndstr list \<Rightarrow> (string \<Rightarrow> 'g session \<Rightarrow> ret \<times> 'g session) \<Rightarrow>
   string \<Rightarrow> string \<Rightarrow> string option \<Rightarrow> 'g session \<Rightarrow> int \<times> 'g session" where
  "dispatch cfg coms exec argp0 buf redir p =
     (let cmd = comtch argp0 coms (ses_nstat p) in
      if cmd < 0 then
        if cmd = M_NOTUNIQUE then (- 1, pr (''Command \"'' @ argp0 @ ''\" is ambiguous -- '') p)
        else if cmd = M_IGNORE then (0, p)
        else (- 1, pr (''\"'' @ argp0 @ ''\" is not a legal command'' @ nl) p)
      else let command = coms ! nat cmd in
        if ses_btu p < c_cost command \<and> c_cost command > 0 \<and> \<not> (ses_god p \<or> opt_BLITZ cfg)
        then (0, pr (''You don't have the BTUs, bozo'' @ nl) p)
        else let p = (if ses_btu p < c_cost command \<and> c_cost command > 0 then p\<lparr>ses_btu := max_btus cfg\<rparr> else p)
        in case c_addr command of
             None \<Rightarrow> (0, pr (''Command not implemented'' @ nl) p)
           | Some addr \<Rightarrow>
               let (r, p) = exec addr (dispatch_start cfg command buf redir p)
               in (0, dispatch_end command r p))"

section \<open>Properties\<close>

definition cmd_name :: "'h cmndstr \<Rightarrow> string" where
  "cmd_name c = takeWhile (\<lambda>c. c \<noteq> CHR '' '') (c_form c)"

text \<open>
  The table is in alphabetical order, but for the last command, so no command's name is an
  abbreviation of an earlier one.
\<close>

fun lex_less :: "string \<Rightarrow> string \<Rightarrow> bool" where
  "lex_less [] bs = (bs \<noteq> [])"
| "lex_less (a # as) [] = False"
| "lex_less (a # as) (b # bs) = ((of_char a :: nat) < of_char b \<or> a = b \<and> lex_less as bs)"

lemma lex_less_trans: "lex_less a b \<Longrightarrow> lex_less b c \<Longrightarrow> lex_less a c"
proof (induction a b arbitrary: c rule: lex_less.induct)
  case (1 bs)
  then show ?case by (cases c; cases bs) auto
next
  case (3 a as b bs)
  then show ?case by (cases c) auto
qed simp

lemma lex_less_prefix: "\<not> lex_less (n @ t) n"
  by (induction n) (cases t, auto)

lemma player_coms_sorted:
  "sorted_wrt lex_less (map cmd_name (butlast player_coms))"
  "\<forall>c \<in> set (butlast player_coms). mineq (cmd_name (last player_coms)) (c_form c) = ME_MISMATCH"
proof -
  have "successively lex_less (map cmd_name (butlast player_coms))" by code_simp
  moreover have "transp lex_less" using lex_less_trans by (rule transpI)
  ultimately show "sorted_wrt lex_less (map cmd_name (butlast player_coms))"
    by (simp add: successively_conv_sorted_wrt)
  show "\<forall>c \<in> set (butlast player_coms). mineq (cmd_name (last player_coms)) (c_form c) = ME_MISMATCH"
    by code_simp
qed

lemma mineq_name_prefix:
  assumes "mineq (cmd_name d) (c_form c) \<noteq> ME_MISMATCH"
  shows "\<exists>t. cmd_name c = cmd_name d @ t"
proof -
  obtain t where t: "c_form c = cmd_name d @ t"
    using assms mineq_exact [of "cmd_name d" "c_form c"] mineq_partial [of "cmd_name d" "c_form c"]
    by (cases "mineq (cmd_name d) (c_form c)") auto
  have "x \<noteq> CHR '' ''" if "x \<in> set (cmd_name d)" for x
    using that set_takeWhileD unfolding cmd_name_def by fastforce
  then have "cmd_name c = cmd_name d @ takeWhile (\<lambda>c. c \<noteq> CHR '' '') t"
    unfolding cmd_name_def [of c] t by (simp add: takeWhile_append2)
  then show ?thesis ..
qed

lemma player_coms_distinct:
  assumes "j < k" "k < length player_coms"
  shows "mineq (cmd_name (player_coms ! k)) (c_form (player_coms ! j)) = ME_MISMATCH"
proof (cases "k = length player_coms - 1")
  case True
  have ne: "player_coms \<noteq> []" using assms by auto
  have "butlast player_coms ! j = player_coms ! j" "j < length (butlast player_coms)"
    using assms True by (simp_all add: nth_butlast)
  then have "player_coms ! j \<in> set (butlast player_coms)" by (metis nth_mem)
  moreover have "player_coms ! k = last player_coms" using True ne by (simp add: last_conv_nth)
  ultimately show ?thesis using player_coms_sorted(2) by simp
next
  case False
  then have "k < length (butlast player_coms)" using assms by simp
  then have "lex_less (cmd_name (player_coms ! j)) (cmd_name (player_coms ! k))"
    using sorted_wrt_nth_less [OF player_coms_sorted(1), of j k] assms by (simp add: nth_butlast)
  then show ?thesis using mineq_name_prefix [of "player_coms ! k" "player_coms ! j"] lex_less_prefix by metis
qed

lemma mineq_name: "mineq (cmd_name c) (c_form c) = ME_EXACT"
proof -
  have "c_form c = cmd_name c @ dropWhile (\<lambda>c. c \<noteq> CHR '' '') (c_form c)"
    by (simp add: cmd_name_def)
  moreover have "dropWhile (\<lambda>c. c \<noteq> CHR '' '') (c_form c) = []
      \<or> (\<exists>t. dropWhile (\<lambda>c. c \<noteq> CHR '' '') (c_form c) = CHR '' '' # t)"
    using hd_dropWhile [of "\<lambda>c. c \<noteq> CHR '' ''" "c_form c"]
    by (cases "dropWhile (\<lambda>c. c \<noteq> CHR '' '') (c_form c)") auto
  ultimately show ?thesis unfolding mineq_exact by (metis append_Nil2)
qed

lemma comtch_loop_full_name:
  assumes "k < length coms" "and (c_permit (coms ! k)) st = c_permit (coms ! k)"
    and "mineq name (c_form (coms ! k)) = ME_EXACT"
    and "\<forall>j < k. mineq name (c_form (coms ! j)) = ME_MISMATCH"
  shows "comtch_loop name coms st i status = i + int k"
  using assms
proof (induction coms arbitrary: k i)
  case (Cons c cs)
  show ?case
  proof (cases k)
    case (Suc l)
    have "comtch_loop name (c # cs) st i status = comtch_loop name cs st (i + 1) status"
      using Cons.prems(4) Suc by auto
    moreover have "\<forall>j < l. mineq name (c_form (cs ! j)) = ME_MISMATCH" using Cons.prems(4) Suc by force
    ultimately show ?thesis using Cons.IH [of l "i + 1"] Cons.prems Suc by simp
  qed (use Cons.prems in simp)
qed simp

lemma player_coms_named: "\<forall>c \<in> set player_coms. cmd_name c \<noteq> [] \<and> c_addr c \<noteq> None \<and> 0 \<le> c_cost c"
  by code_simp

text \<open>
  Every command a player has the capabilities for can be given by its full name, whatever else
  the name abbreviates; it is then exactly the command found. In particular \<open>c_list\<close> lists just
  commands that can be given. Every command has a handler and a non-negative cost.
\<close>

theorem player_coms_full_names:
  assumes "k < length player_coms" and "and (c_permit (player_coms ! k)) nstat = c_permit (player_coms ! k)"
  shows "comtch (cmd_name (player_coms ! k)) player_coms nstat = int k
    \<and> c_addr (player_coms ! k) \<noteq> None \<and> 0 \<le> c_cost (player_coms ! k)
    \<and> c_form (player_coms ! k) \<in> set (map (\<lambda>(cost, m, c, form). form) (c_list nstat player_coms))"
proof -
  have "player_coms ! k \<in> set player_coms" using assms(1) by simp
  then have n: "cmd_name (player_coms ! k) \<noteq> []" "c_addr (player_coms ! k) \<noteq> None"
    "0 \<le> c_cost (player_coms ! k)" "player_coms ! k \<in> set (filter (\<lambda>com. and (c_permit com) nstat = c_permit com) player_coms)"
    using player_coms_named assms(2) by auto
  have "comtch_loop (cmd_name (player_coms ! k)) player_coms nstat 0 M_NOTFOUND = 0 + int k"
    by (rule comtch_loop_full_name [OF assms mineq_name])
      (use player_coms_distinct [OF _ assms(1)] in blast)
  then show ?thesis using n by (auto simp: comtch_def c_list_def)
qed

theorem player_coms_full_names_witness: "comtch ''accept'' player_coms 4 = 0"
proof -
  have k: "0 < length player_coms" "and (c_permit (player_coms ! 0)) 4 = c_permit (player_coms ! 0)"
    "cmd_name (player_coms ! 0) = ''accept''" by code_simp+
  show ?thesis using player_coms_full_names [OF k(1,2)] k(3) by simp
qed

text \<open>Capabilities, by bit.\<close>

lemma subset_bit: "and (a::int) b = a \<Longrightarrow> bit a n \<Longrightarrow> bit b n"
  by (metis bit_and_iff)

lemma nstat_god_bit:
  assumes "nat_cnum np = cnum" "nat_stat np \<noteq> STAT_GOD"
  shows "\<not> bit (snd (player_set_nstat test cnum pl np)) 3"
  using assms
  by (cases "nat_stat np") (auto simp: player_set_nstat_def cap_defs Let_def bit_simps bit_or_iff bit_numeral_rec split: if_splits)

definition needs_god :: "'h cmndstr \<Rightarrow> bool" where
  "needs_god c \<longleftrightarrow> bit (c_permit c) 3"

lemma needs_god_disabled: "needs_god (c\<lparr>c_permit := or (c_permit c) GOD\<rparr>)"
  by (simp add: needs_god_def bit_or_iff GOD_def bit_numeral_rec)

lemma disable_com_length [simp]: "length (disable_com name coms) = length coms"
  by (simp add: disable_com_def Let_def)

lemma disable_com_permit:
  assumes "k < length coms"
  shows "needs_god (coms ! k) \<Longrightarrow> needs_god (disable_com name coms ! k)"
    and "comtch name coms (- 1) = int k \<Longrightarrow> needs_god (disable_com name coms ! k)"
proof -
  let ?i = "nat (comtch name coms (- 1))"
  have "disable_com name coms ! k
      = (if comtch name coms (- 1) \<ge> 0 \<and> k = ?i then (coms ! k)\<lparr>c_permit := or (c_permit (coms ! k)) GOD\<rparr> else coms ! k)"
    using assms by (auto simp: disable_com_def Let_def nth_list_update)
  then show "needs_god (coms ! k) \<Longrightarrow> needs_god (disable_com name coms ! k)"
    "comtch name coms (- 1) = int k \<Longrightarrow> needs_god (disable_com name coms ! k)"
    using needs_god_disabled [of "coms ! k"] by auto
qed

lemma comtch_loop_forms:
  "map c_form coms = map c_form coms' \<Longrightarrow> comtch_loop name coms (- 1) i st = comtch_loop name coms' (- 1) i st"
proof (induction coms arbitrary: coms' i st)
  case (Cons c cs)
  then obtain c' cs' where "coms' = c' # cs'" "c_form c' = c_form c" "map c_form cs = map c_form cs'" by auto
  then show ?case using Cons.IH by (simp split: mineq_result.splits)
qed simp

lemma comtch_forms:
  "map c_form coms = map c_form coms' \<Longrightarrow> comtch name coms (- 1) = comtch name coms' (- 1)"
  unfolding comtch_def using comtch_loop_forms by metis

lemma disable_com_forms [simp]: "map c_form (disable_com name coms) = map c_form coms"
  by (simp add: disable_com_def Let_def map_update list_update_same_conv)
    (metis list_update_beyond list_update_id map_update not_le_imp_less nth_map length_map)

lemma disable_fold:
  assumes "k < length coms"
  shows "(needs_god (coms ! k) \<longrightarrow> needs_god (fold disable_com names coms ! k))
    \<and> (\<forall>name \<in> set names. comtch name coms (- 1) = int k \<longrightarrow> needs_god (fold disable_com names coms ! k))"
  using assms
proof (induction names arbitrary: coms)
  case (Cons n ns)
  have k: "k < length (disable_com n coms)" using Cons.prems by simp
  have "comtch name (disable_com n coms) (- 1) = comtch name coms (- 1)" for name
    by (rule comtch_forms) simp
  then show ?case
    using Cons.IH [OF k] disable_com_permit [OF Cons.prems, of n] by auto
qed simp

text \<open>
  C10. A country that is not a deity can't run a deity command, nor one the game's configuration
  disables, whatever the state of its money, capital and game.
\<close>

theorem god_commands_protected:
  assumes "nat_cnum np = cnum" and "nat_stat np \<noteq> STAT_GOD"
    and "nstat = snd (player_set_nstat test cnum pl np)"
    and "comtch cmd (disable_coms disabled player_coms) nstat = int k"
  shows "\<not> needs_god (player_coms ! k)
    \<and> (\<forall>name \<in> set (strtok disabled). comtch name player_coms (- 1) \<noteq> int k)"
proof -
  let ?cs = "disable_coms disabled player_coms"
  have len: "length ?cs = length player_coms"
  proof -
    have "length (fold disable_com ns cs) = length cs" for ns :: "string list" and cs :: "string cmndstr list"
      by (induction ns arbitrary: cs) simp_all
    then show ?thesis by (simp add: disable_coms_def)
  qed
  have c: "k < length ?cs" "and (c_permit (?cs ! k)) nstat = c_permit (?cs ! k)"
    using comtch_permitted_entry [OF assms(4)] by auto
  have "\<not> needs_god (?cs ! k)"
    using subset_bit [OF c(2), of 3] nstat_god_bit [OF assms(1,2)] assms(3) by (auto simp: needs_god_def)
  then show ?thesis
    using disable_fold [of k player_coms "strtok disabled"] c(1) len by (auto simp: disable_coms_def)
qed

definition nation_example :: nation where
  "nation_example = \<lparr>nat_cnum = 1, nat_stat = STAT_ACTIVE, nat_cnam = ''one'', nat_pnam = ''pw'', nat_btu = 100,
     nat_money = 5, nat_sacked = False, nat_cap_own = 1, nat_cap_type = SCT_CAPIT\<rparr>"

theorem god_commands_protected_witness: "\<not> needs_god (player_coms ! 2)"
proof -
  have k: "comtch ''announce'' (disable_coms ''add'' player_coms) (snd (player_set_nstat False 1 (False, 0) nation_example)) = int 2"
    by code_simp
  show ?thesis
    using god_commands_protected [OF _ _ refl k] by (simp add: nation_example_def)
qed

text \<open>
  C11. What a command line comes to, exactly. If a command is found, the country has the BTUs for it (a
  deity's, and everybody's in a blitz, are topped up first) and it is implemented, then its handler
  runs once, with the update lock held, on a game nothing else has changed; afterwards the lock is
  released and \<open>btused\<close> is what the handler left it at, plus the command's cost just when the handler
  returned \<open>RET_OK\<close> or \<open>RET_FAIL\<close>. The player has all capabilities the command asks for. Otherwise
  no handler runs, and nothing but output happens, and topping up for a command without a handler.
\<close>

theorem dispatch_charges:
  assumes "dispatch cfg coms exec argp0 buf redir p = (res, p')"
  defines "cmd \<equiv> comtch argp0 coms (ses_nstat p)"
  defines "c \<equiv> coms ! nat cmd"
  defines "poor \<equiv> ses_btu p < c_cost c \<and> 0 < c_cost c"
  defines "start \<equiv> 0 \<le> cmd \<and> (poor \<longrightarrow> ses_god p \<or> opt_BLITZ cfg)"
  shows "if start \<and> c_addr c \<noteq> None then
      res = 0 \<and> and (c_permit c) (ses_nstat p) = c_permit c
      \<and> (\<exists>q r q'. exec (the (c_addr c)) q = (r, q')
          \<and> ses_locks q = ses_locks p + 1 \<and> ses_command q = Some c \<and> ses_btused q = ses_btused p \<and> ses_game q = ses_game p
          \<and> ses_btu q = (if poor then max_btus cfg else ses_btu p) \<and> ses_journal q = ses_journal p @ [c_form c]
          \<and> ses_sleep q = (if and (c_flags c) C_MOD \<noteq> 0 then PLAYER_SLEEP_ON_INPUT else PLAYER_SLEEP_FREELY)
          \<and> ses_btused p' = ses_btused q' + (if r = RET_OK \<or> r = RET_FAIL then c_cost c else 0)
          \<and> ses_locks p' = ses_locks q' - 1 \<and> ses_command p' = None \<and> ses_game p' = ses_game q' \<and> ses_btu p' = ses_btu q'
          \<and> ses_sleep p' = (if ses_sleep q' = PLAYER_SLEEP_NEVER \<and> ses_eof q' then PLAYER_SLEEP_NEVER else PLAYER_SLEEP_FREELY))
    else res = (if cmd < 0 \<and> cmd \<noteq> M_IGNORE then - 1 else 0)
      \<and> (\<exists>out. p' = p\<lparr>ses_out := out, ses_btu := if start \<and> poor then max_btus cfg else ses_btu p\<rparr>)"
proof (cases "cmd < 0")
  case True
  have "\<exists>out. p' = p\<lparr>ses_out := out, ses_btu := ses_btu p\<rparr>"
  proof -
    have "p' = p\<lparr>ses_out := ses_out p', ses_btu := ses_btu p\<rparr>"
      using assms(1) True unfolding cmd_def by (cases p) (auto simp: dispatch_def Let_def pr_def split: if_splits)
    then show ?thesis by blast
  qed
  moreover have "res = (if cmd \<noteq> M_IGNORE then - 1 else 0)"
    using assms(1) True unfolding cmd_def by (auto simp: dispatch_def Let_def match_defs split: if_splits)
  ultimately show ?thesis using True by (simp add: start_def)
next
  case False
  then have cmd: "comtch argp0 coms (ses_nstat p) = int (nat cmd)" by (simp add: cmd_def)
  have perm: "and (c_permit c) (ses_nstat p) = c_permit c" using comtch_permitted_entry [OF cmd] by (simp add: c_def)
  let ?p = "if poor then p\<lparr>ses_btu := max_btus cfg\<rparr> else p"
  have d: "dispatch cfg coms exec argp0 buf redir p =
      (if \<not> start then (0, pr (''You don't have the BTUs, bozo'' @ nl) p)
       else case c_addr c of
              None \<Rightarrow> (0, pr (''Command not implemented'' @ nl) ?p)
            | Some addr \<Rightarrow> let (r, q) = exec addr (dispatch_start cfg c buf redir ?p) in (0, dispatch_end c r q))"
    using False unfolding dispatch_def Let_def cmd_def [symmetric] c_def [symmetric] by (auto simp: start_def poor_def)
  show ?thesis
  proof (cases "start \<and> c_addr c \<noteq> None")
    case True
    then obtain a where a: "c_addr c = Some a" by blast
    define q where "q = dispatch_start cfg c buf redir ?p"
    obtain r q' where e: "exec a q = (r, q')" by fastforce
    have p': "res = 0" "p' = dispatch_end c r q'"
      using assms(1) True a e unfolding d q_def [symmetric] by simp_all
    have q: "ses_locks q = ses_locks p + 1" "ses_command q = Some c" "ses_btused q = ses_btused p" "ses_game q = ses_game p"
      "ses_btu q = (if poor then max_btus cfg else ses_btu p)" "ses_journal q = ses_journal p @ [c_form c]"
      "ses_sleep q = (if and (c_flags c) C_MOD \<noteq> 0 then PLAYER_SLEEP_ON_INPUT else PLAYER_SLEEP_FREELY)"
      by (auto simp: q_def dispatch_start_def pr_def Let_def split: option.splits)
    have q': "ses_btused p' = ses_btused q' + (if r = RET_OK \<or> r = RET_FAIL then c_cost c else 0)"
      "ses_locks p' = ses_locks q' - 1" "ses_command p' = None" "ses_game p' = ses_game q'" "ses_btu p' = ses_btu q'"
      "ses_sleep p' = (if ses_sleep q' = PLAYER_SLEEP_NEVER \<and> ses_eof q' then PLAYER_SLEEP_NEVER else PLAYER_SLEEP_FREELY)"
      unfolding p'(2) by (cases r; simp add: dispatch_end_def pr_def Let_def)+
    show ?thesis
      unfolding if_P [OF True]
    proof (intro conjI)
      show "\<exists>q r q'. exec (the (c_addr c)) q = (r, q')
          \<and> ses_locks q = ses_locks p + 1 \<and> ses_command q = Some c \<and> ses_btused q = ses_btused p \<and> ses_game q = ses_game p
          \<and> ses_btu q = (if poor then max_btus cfg else ses_btu p) \<and> ses_journal q = ses_journal p @ [c_form c]
          \<and> ses_sleep q = (if and (c_flags c) C_MOD \<noteq> 0 then PLAYER_SLEEP_ON_INPUT else PLAYER_SLEEP_FREELY)
          \<and> ses_btused p' = ses_btused q' + (if r = RET_OK \<or> r = RET_FAIL then c_cost c else 0)
          \<and> ses_locks p' = ses_locks q' - 1 \<and> ses_command p' = None \<and> ses_game p' = ses_game q' \<and> ses_btu p' = ses_btu q'
          \<and> ses_sleep p' = (if ses_sleep q' = PLAYER_SLEEP_NEVER \<and> ses_eof q' then PLAYER_SLEEP_NEVER else PLAYER_SLEEP_FREELY)"
        using e q q' a by (intro exI [of _ q] exI [of _ r] exI [of _ q']) simp
    qed (use p' perm in simp_all)
  next
    case no: False
    have "res = 0 \<and> (\<exists>out. p' = p\<lparr>ses_out := out, ses_btu := if start \<and> poor then max_btus cfg else ses_btu p\<rparr>)"
    proof (cases start)
      case True
      then have "p' = pr (''Command not implemented'' @ nl) ?p" "res = 0" using assms(1) no unfolding d by auto
      then show ?thesis using True by (cases p) (auto simp: pr_def)
    next
      case f: False
      then have "p' = pr (''You don't have the BTUs, bozo'' @ nl) p" "res = 0" using assms(1) unfolding d by auto
      then show ?thesis using f by (cases p) (auto simp: pr_def)
    qed
    then show ?thesis using False unfolding if_not_P [OF no] by simp
  qed
qed

definition session_example :: "unit session" where
  "session_example = \<lparr>ses_nstat = 0, ses_god = False, ses_btused = 0, ses_btu = 10, ses_sleep = PLAYER_SLEEP_FREELY,
     ses_command = None, ses_eof = False, ses_out = [], ses_locks = 0, ses_count = 0, ses_seed = None,
     ses_journal = [], ses_game = ()\<rparr>"

text \<open>A command that costs two BTUs and fails, after its handler has charged three more.\<close>

definition coms_example :: "string cmndstr list" where
  "coms_example = [\<lparr>c_form = ''sell all'', c_cost = 2, c_addr = Some ''c_sell'', c_flags = 0, c_permit = 0\<rparr>]"

theorem dispatch_charges_witness:
  "\<exists>p'. dispatch \<lparr>opt_BLITZ = False, max_btus = 640, running_test_suite = False\<rparr> coms_example
     (\<lambda>a q. (RET_FAIL, q\<lparr>ses_btused := ses_btused q + 3\<rparr>)) ''sell'' ''sell'' None session_example = (0, p')
   \<and> ses_btused p' = 5 \<and> ses_locks p' = 0"
proof -
  have c: "comtch ''sell'' coms_example (ses_nstat session_example) = 0" by code_simp
  obtain res p' where d: "dispatch \<lparr>opt_BLITZ = False, max_btus = 640, running_test_suite = False\<rparr> coms_example
     (\<lambda>a q. (RET_FAIL, q\<lparr>ses_btused := ses_btused q + 3\<rparr>)) ''sell'' ''sell'' None session_example = (res, p')" by fastforce
  note t = dispatch_charges [OF d, unfolded c]
  show ?thesis using t d by (auto simp: coms_example_def session_example_def)
qed

end
