(* ===== verification/Login.thy ===== *)
theory Login
  imports Commands "HOL-Library.Sublist"
begin

text \<open>
  Logging in: the command loop and commands of \<open>src/lib/player/login.c\<close>, looking up countries and
  passwords (\<open>src/lib/player/nat.c\<close>) and players (\<open>src/lib/player/accept.c\<close>). Threads are
  cooperative, so a command that waits for nothing until it has made its changes is one step of the
  server. \<open>play\<close> does wait after it has made sure that nobody plays the country: for its output, if much
  is queued already, and for \<open>shutdown_lock\<close>. It takes two steps, and in between the session is
  \<open>entering\<close>. While a player enters or plays, other sessions take steps. What goes on inside the game is
  left open: \<open>player_main\<close> may change countries as it likes.

  The server's log, its journal and the network itself are not modelled; a session's input is the
  list of complete lines received and not yet read.
\<close>

section \<open>State\<close>

definition NATID_BAD :: nat where "NATID_BAD = 255"

datatype pstate = PS_INIT | PS_PLAYING | PS_SHUTDOWN

datatype proto = C_CMDOK | C_DATA | C_INIT | C_EXIT | C_CMDERR | C_BADCMD | C_FLASH

record player =
  pl_id :: nat
  hostaddr :: string
  client :: string
  userid :: string
  authenticated :: bool
  cnum :: nat
  pstate :: pstate
  pf_utf8 :: bool
  argp :: "string list"
  input :: "string list"
  eof :: bool
  aborted :: bool
  may_sleep :: player_sleep
  in_game :: bool
  entering :: bool
  out :: "(proto \<times> string) list"

record server =
  players :: "player list"
  nations :: "nation list"
  next_id :: nat

record login_config =
  lc_blitz :: bool
  lc_privip :: string

definition pr_id :: "proto \<Rightarrow> string \<Rightarrow> player \<Rightarrow> player" where
  "pr_id c s p = p\<lparr>out := out p @ [(c, s)]\<rparr>"

definition arg :: "player \<Rightarrow> nat \<Rightarrow> string option" where
  "arg p i = (if i < length (argp p) then Some (argp p ! i) else None)"

text \<open>\<open>player_new\<close> for a connection: \<open>memset\<close> zero, then what it and \<open>player_accept\<close> set.\<close>

definition player_new :: "nat \<Rightarrow> string \<Rightarrow> player" where
  "player_new i host = \<lparr>pl_id = i, hostaddr = host, client = [], userid = [], authenticated = False,
     cnum = NATID_BAD, pstate = PS_INIT, pf_utf8 = False, argp = [], input = [], eof = False,
     aborted = False, may_sleep = PLAYER_SLEEP_FREELY, in_game = False, entering = False, out = []\<rparr>"

section \<open>Countries and players\<close>

fun natbyname_loop :: "string \<Rightarrow> nation list \<Rightarrow> nat \<Rightarrow> nat option" where
  "natbyname_loop name [] i = None"
| "natbyname_loop name (np # nps) i =
     (if nat_stat np \<noteq> STAT_UNUSED \<and> nat_cnam np = name then Some i else natbyname_loop name nps (i + 1))"

definition natbyname :: "nation list \<Rightarrow> string \<Rightarrow> nat option" where
  "natbyname nats name = natbyname_loop name nats 0"

definition natpass :: "nation list \<Rightarrow> nat \<Rightarrow> string \<Rightarrow> bool" where
  "natpass nats cn pass \<longleftrightarrow> nat_stat (nats ! cn) = STAT_VIS \<or> nat_pnam (nats ! cn) = pass"

definition getplayer :: "player list \<Rightarrow> nat \<Rightarrow> player option" where
  "getplayer pls cn = find (\<lambda>pl. cnum pl = cn \<and> pstate pl = PS_PLAYING) pls"

section \<open>Commands\<close>

text \<open>
  \<open>client_cmd\<close> copies its arguments to \<open>client[128]\<close>, separated by spaces; \<open>end - p\<close> bytes are left.
  A negative number of bytes to copy would be a huge one for \<open>memcpy\<close>: that is \<open>None\<close>.
\<close>

fun client_copy :: "string list \<Rightarrow> bool \<Rightarrow> string \<Rightarrow> string option" where
  "client_copy [] first s = Some s"
| "client_copy (a # as) first s =
     (let s = (if first then s else s @ '' '');
          sz = min (int (length a)) (127 - int (length s))
      in if sz < 0 then None else client_copy as False (s @ take (nat sz) a))"

definition client_cmd :: "player \<Rightarrow> (ret \<times> player) option" where
  "client_cmd p =
     (if arg p 1 = None then Some (RET_SYN, p)
      else case client_copy (tl (argp p)) True [] of
             None \<Rightarrow> None
           | Some s \<Rightarrow> Some (RET_OK, pr_id C_CMDOK (''talking to '' @ s @ nl) (p\<lparr>client := s\<rparr>)))"

definition user_cmd :: "player \<Rightarrow> ret \<times> player" where
  "user_cmd p =
     (case arg p 1 of
        None \<Rightarrow> (RET_SYN, p)
      | Some a \<Rightarrow> let p = p\<lparr>userid := take 31 a\<rparr> in (RET_OK, pr_id C_CMDOK (''hello '' @ userid p @ nl) p))"

definition sanc_cmd :: "login_config \<Rightarrow> nation list \<Rightarrow> player \<Rightarrow> ret \<times> player" where
  "sanc_cmd cfg nats p =
     (if \<not> lc_blitz cfg
      then (RET_FAIL, pr_id C_BADCMD (''Command '' @ argp p ! 0 @ '' not found'' @ nl) p)
      else let names = map nat_cnam (filter (\<lambda>n. nat_stat n = STAT_SANCT) nats)
           in (RET_OK,
               if names = [] then pr_id C_CMDOK (''There are no countries in sanctuary'' @ nl) p
               else pr_id C_CMDOK nl
                      (fold (\<lambda>n. pr_id C_DATA (n @ nl)) names
                         (pr_id C_DATA (''The following countries are still in sanctuary:'' @ nl) p))))"

definition coun_cmd :: "nation list \<Rightarrow> player \<Rightarrow> ret \<times> player" where
  "coun_cmd nats p =
     (case arg p 1 of
        None \<Rightarrow> (RET_SYN, p)
      | Some a \<Rightarrow>
          case natbyname nats a of
            None \<Rightarrow> (RET_FAIL, pr_id C_CMDERR (''country '' @ a @ '' does not exist'' @ nl) p)
          | Some c \<Rightarrow> (RET_OK, pr_id C_CMDOK (''country name '' @ a @ nl) (p\<lparr>cnum := c, authenticated := False\<rparr>)))"

definition pass_cmd :: "nation list \<Rightarrow> player \<Rightarrow> ret \<times> player" where
  "pass_cmd nats p =
     (case arg p 1 of
        None \<Rightarrow> (RET_SYN, p)
      | Some a \<Rightarrow>
          if cnum p = NATID_BAD then (RET_FAIL, pr_id C_CMDERR (''need country first'' @ nl) p)
          else if \<not> natpass nats (cnum p) a
          then (RET_FAIL, pr_id C_CMDERR (''password bad, logging entry'' @ nl) p)
          else (RET_OK, pr_id C_CMDOK (''password ok'' @ nl) (p\<lparr>authenticated := True\<rparr>)))"

text \<open>\<open>atoi\<close>, up to whether the result is zero: a digit other than 0 among the leading digits.\<close>

definition atoi_nonzero :: "string \<Rightarrow> bool" where
  "atoi_nonzero s =
     (let s = dropWhile isspace s;
          s = (case s of c # t \<Rightarrow> if c = CHR ''-'' \<or> c = CHR ''+'' then t else s | [] \<Rightarrow> []);
          digit = (\<lambda>c. 48 \<le> (of_char c :: nat) \<and> of_char c \<le> (57 :: nat))
      in \<exists>c \<in> set (takeWhile digit s). c \<noteq> CHR ''0'')"

definition login_opts :: "string list" where
  "login_opts = [''utf-8'']"

fun options_loop :: "string list \<Rightarrow> player \<Rightarrow> ret \<times> player" where
  "options_loop [] p = (RET_OK, pr_id C_CMDOK (''Accepted'' @ nl) p)"
| "options_loop (a # as) p =
     (let name = takeWhile (\<lambda>c. c \<noteq> CHR ''='') a; rest = dropWhile (\<lambda>c. c \<noteq> CHR ''='') a
      in if stmtch name login_opts < 0
         then (RET_FAIL, pr_id C_BADCMD (''Option '' @ name @ '' not found'' @ nl) p)
         else options_loop as (p\<lparr>pf_utf8 := (rest = [] \<or> atoi_nonzero (tl rest))\<rparr>))"

definition options_cmd :: "player \<Rightarrow> ret \<times> player" where
  "options_cmd p =
     (if arg p 1 = None
      then (RET_OK, pr_id C_CMDOK nl
                      (pr_id C_DATA (''utf-8='' @ (if pf_utf8 p then ''1'' else ''0'') @ nl) p))
      else options_loop (tl (argp p)) p)"

definition may_play :: "login_config \<Rightarrow> nation list \<Rightarrow> player \<Rightarrow> bool \<times> player" where
  "may_play cfg nats p =
     (if cnum p = NATID_BAD \<or> \<not> authenticated p
      then (False, pr_id C_CMDERR (''need country and password'' @ nl) p)
      else if nat_stat (nats ! cnum p) = STAT_GOD \<and> lc_privip cfg \<noteq> [] \<and> \<not> sublist (hostaddr p) (lc_privip cfg)
      then (False, pr_id C_EXIT
              (''Deity login not allowed from this IP!'' @ ''  See log for help on how to allow it.'' @ nl) p)
      else (True, p))"

text \<open>
  \<open>play_cmd\<close> up to where it waits: whether play starts. \<open>play_start\<close> is the part from
  \<open>may_play\<close> on, \<open>play_enter\<close> what follows once there is no more to wait for. The local variable \<open>cnum\<close> is passed to \<open>natpass\<close> only after \<open>natbyname\<close> has set it.
\<close>

definition play_start :: "login_config \<Rightarrow> nation list \<Rightarrow> player list \<Rightarrow> player \<Rightarrow> bool \<times> player" where
  "play_start cfg nats pls p =
     (let (ok, p) = may_play cfg nats p
      in if \<not> ok then (False, p)
         else case getplayer pls (cnum p) of
                Some other \<Rightarrow>
                  (False, pr_id C_EXIT
                     (if nat_stat (nats ! cnum p) \<noteq> STAT_VIS
                      then ''country in use by '' @ userid other @ ''@'' @ hostaddr other @ nl
                      else ''country in use'' @ nl) p)
              | None \<Rightarrow> (True, (pr_id C_INIT (''2'' @ nl) p)\<lparr>entering := True\<rparr>))"

definition play_enter :: "player \<Rightarrow> player" where
  "play_enter p = p\<lparr>entering := False, pstate := PS_PLAYING, in_game := True\<rparr>"

definition play_cmd :: "login_config \<Rightarrow> nation list \<Rightarrow> player list \<Rightarrow> player \<Rightarrow> bool \<times> player" where
  "play_cmd cfg nats pls p =
     (let p = (case arg p 1 of None \<Rightarrow> p | Some a \<Rightarrow> p\<lparr>userid := take 31 a, authenticated := False\<rparr>);
          c = (case arg p 2 of None \<Rightarrow> Some NATID_BAD | Some a \<Rightarrow> natbyname nats a)
      in case c of
           None \<Rightarrow> (False, pr_id C_CMDERR (''country '' @ the (arg p 2) @ '' does not exist'' @ nl) p)
         | Some c \<Rightarrow>
             (case arg p 3 of
                None \<Rightarrow> play_start cfg nats pls p
              | Some pw \<Rightarrow>
                  if \<not> natpass nats c pw
                  then (False, pr_id C_CMDERR (''password bad, logging entry'' @ nl) p)
                  else play_start cfg nats pls (p\<lparr>cnum := c, authenticated := True\<rparr>)))"

definition io_set_eof :: "player \<Rightarrow> player" where
  "io_set_eof p = p\<lparr>input := [], eof := True\<rparr>"

definition quit_cmd :: "player \<Rightarrow> ret \<times> player" where
  "quit_cmd p = (RET_OK, io_set_eof p)"

text \<open>\<open>kill_cmd\<close>: the player, and the other player with what is done to it.\<close>

definition kill_other :: "player \<Rightarrow> player \<Rightarrow> player" where
  "kill_other p pl =
     (io_set_eof (pr_id C_FLASH (''Disconnected by '' @ userid p @ ''@'' @ hostaddr p @ nl) pl))
       \<lparr>aborted := True, may_sleep := PLAYER_SLEEP_NEVER\<rparr>"

definition kill_cmd :: "login_config \<Rightarrow> nation list \<Rightarrow> player list \<Rightarrow> player \<Rightarrow> ret \<times> player \<times> nat option" where
  "kill_cmd cfg nats pls p =
     (let (ok, p) = may_play cfg nats p
      in if \<not> ok then (RET_FAIL, p, None)
         else case getplayer pls (cnum p) of
                None \<Rightarrow> (RET_FAIL, pr_id C_EXIT (''country not in use'' @ nl) p, None)
              | Some other \<Rightarrow>
                  (RET_OK, pr_id C_EXIT (''terminated '' @ userid other @ ''@'' @ hostaddr other @ [CHR 0x27] @ ''s connection'' @ nl) p,
                   Some (pl_id other)))"

section \<open>The loop\<close>

datatype login_com = Client | Coun | Kill | Options | Pass | Play | Quit | Sanc | User

definition login_coms :: "login_com cmndstr list" where
  "login_coms = map (\<lambda>(f, h). \<lparr>c_form = f, c_cost = 0, c_addr = Some h, c_flags = 0, c_permit = 0\<rparr>)
     [(''client client-id...'', Client), (''coun country'', Coun), (''kill'', Kill),
      (''options option=value...'', Options), (''pass password'', Pass),
      (''play [user [country [password]]]'', Play), (''quit'', Quit), (''sanc'', Sanc),
      (''user name'', User)]"

definition replace :: "player \<Rightarrow> player list \<Rightarrow> player list" where
  "replace p pls = map (\<lambda>q. if pl_id q = pl_id p then p else q) pls"

definition reply_syntax :: "string \<Rightarrow> ret \<times> player \<Rightarrow> player" where
  "reply_syntax form = (\<lambda>(r, p). if r = RET_SYN then pr_id C_BADCMD (''Usage '' @ form @ nl) p else p)"

text \<open>One command line of player \<open>p\<close>: the players afterwards; \<open>None\<close> if memory is overrun.\<close>

definition login_line :: "login_config \<Rightarrow> nation list \<Rightarrow> player list \<Rightarrow> player \<Rightarrow> string \<Rightarrow> player list option" where
  "login_line cfg nats pls p buf =
     (let args = p_arg (parse False False buf); p = p\<lparr>argp := args\<rparr>;
          done1 = (\<lambda>q. Some (replace q pls))
      in if args = [] then done1 (pr_id C_BADCMD (''Can't parse command'' @ nl) p)
         else let cmd = comtch (args ! 0) login_coms 0 in
           if cmd < 0 then done1 (pr_id C_BADCMD (''Command '' @ args ! 0 @ '' not found'' @ nl) p)
           else let form = c_form (login_coms ! nat cmd) in
             case the (c_addr (login_coms ! nat cmd)) of
               Client \<Rightarrow> (case client_cmd p of None \<Rightarrow> None | Some r \<Rightarrow> done1 (reply_syntax form r))
             | Coun \<Rightarrow> done1 (reply_syntax form (coun_cmd nats p))
             | Kill \<Rightarrow>
                 (case kill_cmd cfg nats pls p of
                    (r, q, None) \<Rightarrow> done1 q
                  | (r, q, Some other) \<Rightarrow>
                      Some (map (\<lambda>pl. if pl_id pl = other then kill_other q pl else pl) (replace q pls)))
             | Options \<Rightarrow> done1 (reply_syntax form (options_cmd p))
             | Pass \<Rightarrow> done1 (reply_syntax form (pass_cmd nats p))
             | Play \<Rightarrow> done1 (snd (play_cmd cfg nats pls p))
             | Quit \<Rightarrow> done1 (snd (quit_cmd p))
             | Sanc \<Rightarrow> done1 (reply_syntax form (sanc_cmd cfg nats p))
             | User \<Rightarrow> done1 (reply_syntax form (user_cmd p)))"

text \<open>
  The server's steps. \<open>Line\<close>: a session that is not entering or in the game runs its next line. \<open>Enter\<close>:
  an entering session has nothing more to wait for, and calls \<open>player_main\<close>. \<open>Leave\<close>:
  \<open>player_main\<close> returns, and \<open>play_cmd\<close> drops the rest of the input (if the connection has failed
  instead, the loop ends with it, which is \<open>Hangup\<close>). \<open>Hangup\<close> is the end of \<open>player_login\<close>, by
  end of file, time limit or error. \<open>Game\<close> is what a playing session does to the countries; a
  country keeps its number. New players are put in front of the queue.
\<close>

datatype event = Connect string | Receive nat "string list" | Line nat | Enter nat | Leave nat | Hangup nat
  | Game nat "nation list"

definition the_player :: "server \<Rightarrow> nat \<Rightarrow> player option" where
  "the_player sv i = find (\<lambda>p. pl_id p = i) (players sv)"

fun server_step :: "login_config \<Rightarrow> server \<Rightarrow> event \<Rightarrow> server option" where
  "server_step cfg sv (Connect host) =
     Some (sv\<lparr>players := pr_id C_INIT (''Empire server ready'' @ nl) (player_new (next_id sv) host) # players sv,
              next_id := next_id sv + 1\<rparr>)"
| "server_step cfg sv (Receive i lines) =
     (case the_player sv i of
        None \<Rightarrow> Some sv
      | Some p \<Rightarrow> if eof p then Some sv
                  else Some (sv\<lparr>players := replace (p\<lparr>input := input p @ lines\<rparr>) (players sv)\<rparr>))"
| "server_step cfg sv (Line i) =
     (case the_player sv i of
        None \<Rightarrow> Some sv
      | Some p \<Rightarrow>
          if in_game p \<or> entering p \<or> input p = [] then Some sv
          else map_option (\<lambda>pls. sv\<lparr>players := pls\<rparr>)
                 (login_line cfg (nations sv) (players sv) (p\<lparr>input := tl (input p)\<rparr>) (take 127 (hd (input p)))))"
| "server_step cfg sv (Enter i) =
     (case the_player sv i of
        None \<Rightarrow> Some sv
      | Some p \<Rightarrow> if entering p then Some (sv\<lparr>players := replace (play_enter p) (players sv)\<rparr>) else Some sv)"
| "server_step cfg sv (Leave i) =
     (case the_player sv i of
        None \<Rightarrow> Some sv
      | Some p \<Rightarrow> if in_game p
                  then Some (sv\<lparr>players := replace (io_set_eof (p\<lparr>in_game := False\<rparr>)) (players sv)\<rparr>)
                  else Some sv)"
| "server_step cfg sv (Hangup i) =
     (case the_player sv i of
        None \<Rightarrow> Some sv
      | Some p \<Rightarrow> if in_game p \<or> entering p then Some sv
                  else Some (sv\<lparr>players := filter (\<lambda>q. pl_id q \<noteq> i) (players sv)\<rparr>))"
| "server_step cfg sv (Game i nats) =
     (case the_player sv i of
        None \<Rightarrow> Some sv
      | Some p \<Rightarrow> if in_game p \<and> length nats = length (nations sv) then Some (sv\<lparr>nations := nats\<rparr>) else Some sv)"

text \<open>
  The passwords a step checks and accepts, pairs of session and country: of the country chosen before, with \<open>pass\<close>, or of the one
  named, with \<open>play\<close>. \<open>granted\<close> collects them. Two sessions contend if both are entering, for the same country.
\<close>

definition login_com_of :: "string list \<Rightarrow> login_com option" where
  "login_com_of args =
     (if args = [] \<or> comtch (args ! 0) login_coms 0 < 0 then None
      else c_addr (login_coms ! nat (comtch (args ! 0) login_coms 0)))"

definition accepts :: "nation list \<Rightarrow> nat \<Rightarrow> string list \<Rightarrow> nat \<Rightarrow> bool" where
  "accepts nats cn args c \<longleftrightarrow>
     login_com_of args = Some Pass \<and> 1 < length args \<and> c = cn \<and> natpass nats c (args ! 1)
     \<or> login_com_of args = Some Play \<and> 3 < length args \<and> natbyname nats (args ! 2) = Some c \<and> natpass nats c (args ! 3)"

definition grants :: "server \<Rightarrow> event \<Rightarrow> (nat \<times> nat) set" where
  "grants sv e =
     {(i, c) | i c p. e = Line i \<and> the_player sv i = Some p \<and> \<not> in_game p \<and> \<not> entering p \<and> input p \<noteq> []
        \<and> accepts (nations sv) (cnum p) (p_arg (parse False False (take 127 (hd (input p))))) c}"

definition contended :: "server \<Rightarrow> bool" where
  "contended sv \<longleftrightarrow> (\<exists>p \<in> set (players sv). \<exists>q \<in> set (players sv). pl_id p \<noteq> pl_id q \<and> entering p \<and> entering q \<and> cnum p = cnum q)"

text \<open>The states the server can reach, with what it has granted, and whether two sessions have ever contended.\<close>

inductive served :: "login_config \<Rightarrow> server \<Rightarrow> (nat \<times> nat) set \<Rightarrow> bool \<Rightarrow> bool" for cfg where
  start: "players sv = [] \<Longrightarrow> length (nations sv) \<le> NATID_BAD \<Longrightarrow> served cfg sv {} False"
| step: "served cfg sv g r \<Longrightarrow> server_step cfg sv e = Some sv' \<Longrightarrow> served cfg sv' (g \<union> grants sv e) (r \<or> contended sv')"

section \<open>Lemmas\<close>

lemma natbyname_loop_Some:
  "natbyname_loop name nps i = Some c \<Longrightarrow>
    i \<le> c \<and> c - i < length nps \<and> nat_stat (nps ! (c - i)) \<noteq> STAT_UNUSED \<and> nat_cnam (nps ! (c - i)) = name"
proof (induction nps arbitrary: i)
  case (Cons np nps)
  show ?case
  proof (cases "nat_stat np \<noteq> STAT_UNUSED \<and> nat_cnam np = name")
    case False
    then have "natbyname_loop name nps (i + 1) = Some c" using Cons.prems by (simp split: if_splits)
    from Cons.IH [OF this] show ?thesis
      by (metis (no_types, lifting) Suc_diff_le Suc_eq_plus1 Suc_le_mono add_leD1 diff_Suc_Suc length_Cons nth_Cons_Suc not_less_eq)
  qed (use Cons.prems in auto)
qed simp

lemma natbyname_Some: "natbyname nats name = Some c \<Longrightarrow> c < length nats"
  using natbyname_loop_Some [of name nats 0 c] by (simp add: natbyname_def)

text \<open>What is left alone by everything a command but \<open>play\<close>, \<open>pass\<close> and \<open>coun\<close> does.\<close>

definition same_login :: "player \<Rightarrow> player \<Rightarrow> bool" where
  "same_login p q \<longleftrightarrow> pl_id q = pl_id p \<and> authenticated q = authenticated p \<and> cnum q = cnum p
     \<and> pstate q = pstate p \<and> in_game q = in_game p \<and> entering q = entering p \<and> hostaddr q = hostaddr p \<and> (eof p \<longrightarrow> eof q)
     \<and> (input q = input p \<or> input q = [])"

lemma same_login_refl [simp]: "same_login p p"
  by (simp add: same_login_def)

lemma same_login_pr_id [simp]: "same_login p (pr_id c s q) = same_login p q"
  by (simp add: same_login_def pr_id_def)




text \<open>What a line may do to the player who sent it.\<close>

definition line_ok :: "nation list \<Rightarrow> player list \<Rightarrow> string list \<Rightarrow> player \<Rightarrow> player \<Rightarrow> bool" where
  "line_ok nats pls args p q \<longleftrightarrow>
     pl_id q = pl_id p \<and> hostaddr q = hostaddr p \<and> pstate q = pstate p \<and> in_game q = in_game p
     \<and> (cnum q = cnum p \<or> (\<exists>name. natbyname nats name = Some (cnum q)))
     \<and> (authenticated q \<longrightarrow> authenticated p \<and> cnum q = cnum p \<or> cnum q \<noteq> NATID_BAD \<and> accepts nats (cnum p) args (cnum q))
     \<and> (entering q = entering p \<or> entering q \<and> authenticated q \<and> cnum q \<noteq> NATID_BAD \<and> getplayer pls (cnum q) = None)"


lemma line_ok_reply [simp]: "line_ok nats pls args p (reply_syntax form r) = line_ok nats pls args p (snd r)"
  by (cases r) (simp add: reply_syntax_def line_ok_def pr_id_def)

lemma arg_Some: "arg p i = Some a \<Longrightarrow> a \<in> set (argp p)"
  by (auto simp: arg_def split: if_splits)

lemma natbyname_not_bad: "length nats \<le> NATID_BAD \<Longrightarrow> natbyname nats n = Some c \<Longrightarrow> c \<noteq> NATID_BAD"
  using natbyname_Some by fastforce


lemma line_ok_pr_id [simp]: "line_ok nats pls args p (pr_id c s q) = line_ok nats pls args p q"
  by (simp add: line_ok_def pr_id_def)





lemma replace_id: "pl_id q = pl_id p \<Longrightarrow> replace q pls = map (\<lambda>x. if pl_id x = pl_id p then q else x) pls"
  by (simp add: replace_def)


section \<open>The invariant of the server\<close>

definition player_ok :: "nation list \<Rightarrow> (nat \<times> nat) set \<Rightarrow> player \<Rightarrow> bool" where
  "player_ok nats g p \<longleftrightarrow>
     (cnum p = NATID_BAD \<or> cnum p < length nats)
     \<and> (authenticated p \<longrightarrow> cnum p \<noteq> NATID_BAD \<and> (pl_id p, cnum p) \<in> g)
     \<and> (pstate p = PS_PLAYING \<longrightarrow> authenticated p \<and> \<not> entering p \<and> (in_game p \<or> eof p \<and> input p = []))
     \<and> (entering p \<longrightarrow> authenticated p) \<and> (in_game p \<longrightarrow> pstate p = PS_PLAYING)"

text \<open>Sessions that play a country or are about to.\<close>

definition active :: "player \<Rightarrow> bool" where
  "active p \<longleftrightarrow> entering p \<or> pstate p = PS_PLAYING"



text \<open>What the invariant says of a list of players is kept by replacing players that keep the view of it.\<close>

lemma kill_other_view [simp]:
  "pl_id (kill_other z x) = pl_id x" "active (kill_other z x) = active x" "cnum (kill_other z x) = cnum x"
  "entering (kill_other z x) = entering x"
  "player_ok nats g x \<Longrightarrow> player_ok nats g (kill_other z x)"
  by (auto simp: kill_other_def io_set_eof_def pr_id_def player_ok_def active_def)


lemma replace_ids [simp]: "pl_id q \<in> ids \<Longrightarrow> map pl_id (replace q pls) = map pl_id pls"
  by (simp add: replace_def)











section \<open>Properties\<close>


definition nats_example :: "nation list" where
  "nats_example = [nation_example\<lparr>nat_cnum := 0, nat_stat := STAT_GOD, nat_cnam := ''pogo'', nat_pnam := ''peter''\<rparr>,
     nation_example]"


fun run_server :: "login_config \<Rightarrow> server \<Rightarrow> event list \<Rightarrow> (server \<times> bool) option" where
  "run_server cfg sv [] = Some (sv, False)"
| "run_server cfg sv (e # es) =
     (case server_step cfg sv e of
        None \<Rightarrow> None
      | Some sv' \<Rightarrow> map_option (\<lambda>(sv2, r). (sv2, contended sv' \<or> r)) (run_server cfg sv' es))"

lemma run_server_served:
  "served cfg sv g r \<Longrightarrow> run_server cfg sv es = Some (sv', r') \<Longrightarrow> \<exists>g'. served cfg sv' g' (r \<or> r')"
proof (induction es arbitrary: sv g r r')
  case (Cons e es)
  then obtain sv1 r1 where st: "server_step cfg sv e = Some sv1" "run_server cfg sv1 es = Some (sv', r1)" "r' = (contended sv1 \<or> r1)"
    by (auto split: option.splits)
  show ?case using Cons.IH [OF served.step [OF Cons.prems(1) st(1)] st(2)] st(3) by (simp add: disj_assoc)
qed auto

definition server_start :: server where
  "server_start = \<lparr>players = [], nations = nats_example, next_id = 0\<rparr>"

lemma server_start_served: "served cfg server_start {} False"
  by (rule served.start) (simp_all add: server_start_def nats_example_def NATID_BAD_def)


text \<open>
  The exception is real: a second session whose \<open>play\<close> is looked at while the first is still entering
  plays the same country.
\<close>

lemma country_played_twice:
  "\<exists>sv g. served \<lparr>lc_blitz = False, lc_privip = []\<rparr> sv g True
     \<and> (\<exists>p \<in> set (players sv). \<exists>q \<in> set (players sv). pl_id p \<noteq> pl_id q \<and> pstate p = PS_PLAYING \<and> pstate q = PS_PLAYING \<and> cnum p = cnum q)"
proof -
  let ?cfg = "\<lparr>lc_blitz = False, lc_privip = []\<rparr>"
  let ?es = "[Connect ''a'', Connect ''b'', Receive 0 [''play joe one pw''], Receive 1 [''play jim one pw''], Line 0, Line 1, Enter 0, Enter 1]"
  have "map_option (\<lambda>(sv, r). (r, map (\<lambda>p. (pl_id p, pstate p, cnum p)) (players sv))) (run_server ?cfg server_start ?es)
      = Some (True, [(1, PS_PLAYING, 1), (0, PS_PLAYING, 1)])"
    by code_simp
  then obtain x where x: "run_server ?cfg server_start ?es = Some x"
    "(case x of (sv, r) \<Rightarrow> (r, map (\<lambda>p. (pl_id p, pstate p, cnum p)) (players sv))) = (True, [(1, PS_PLAYING, 1), (0, PS_PLAYING, 1)])"
    unfolding map_option_eq_Some by blast
  obtain sv r where sr: "x = (sv, r)" by (cases x)
  have sv: "run_server ?cfg server_start ?es = Some (sv, True)"
    "map (\<lambda>p. (pl_id p, pstate p, cnum p)) (players sv) = [(1, PS_PLAYING, 1), (0, PS_PLAYING, 1)]"
    using x(1) x(2) [unfolded sr prod.case prod.inject] unfolding sr by (simp_all del: run_server.simps)
  from sv(2) have "\<exists>p \<in> set (players sv). \<exists>q \<in> set (players sv). pl_id p \<noteq> pl_id q \<and> pstate p = PS_PLAYING \<and> pstate q = PS_PLAYING \<and> cnum p = cnum q"
    by (auto simp: map_eq_Cons_conv)
  moreover obtain g where "served ?cfg sv g (False \<or> True)" using run_server_served [OF server_start_served sv(1)] by blast
  ultimately show ?thesis by auto
qed

text \<open>
  \<open>play_cmd\<close> starts the game just when the session is authenticated for an existing country
  after the command's own arguments have been taken into account, a deity comes from an address
  the configuration admits, and nobody plays the country already.
\<close>

theorem play_cmd_starts:
  assumes "length nats \<le> NATID_BAD" and "play_cmd cfg nats pls p = (started, q)"
  shows "started \<longleftrightarrow> (\<exists>c. c \<noteq> NATID_BAD \<and> getplayer pls c = None
      \<and> (case arg p 1 of
           None \<Rightarrow> authenticated p \<and> c = cnum p
         | Some _ \<Rightarrow> (\<exists>name pw. arg p 2 = Some name \<and> arg p 3 = Some pw \<and> natbyname nats name = Some c
                                \<and> natpass nats c pw))
      \<and> (nat_stat (nats ! c) = STAT_GOD \<longrightarrow> lc_privip cfg = [] \<or> sublist (hostaddr p) (lc_privip cfg)))"
proof -
  have args: "arg p 1 = None \<Longrightarrow> arg p 2 = None \<and> arg p 3 = None" "arg p 2 = None \<Longrightarrow> arg p 3 = None"
    by (auto simp: arg_def split: if_splits)
  have bad: "natbyname nats n = Some c \<Longrightarrow> c \<noteq> NATID_BAD" for n c by (rule natbyname_not_bad [OF assms(1)])
  have ps: "fst (play_start cfg nats pls r) \<longleftrightarrow> authenticated r \<and> cnum r \<noteq> NATID_BAD \<and> getplayer pls (cnum r) = None
      \<and> (nat_stat (nats ! cnum r) = STAT_GOD \<longrightarrow> lc_privip cfg = [] \<or> sublist (hostaddr r) (lc_privip cfg))" for r
    by (auto simp: play_start_def may_play_def split: option.splits)
  have st: "started = fst (play_cmd cfg nats pls p)" using assms(2) by simp
  show ?thesis
  proof (cases "arg p 1")
    case None
    then show ?thesis using args(1) ps [of p] unfolding st play_cmd_def Let_def by auto
  next
    case (Some a)
    let ?p1 = "p\<lparr>userid := take 31 a, authenticated := False\<rparr>"
    have a1: "arg ?p1 i = arg p i" for i by (simp add: arg_def)
    show ?thesis
    proof (cases "arg p 2")
      case None
      then show ?thesis using args(2) Some ps [of ?p1] a1 unfolding st play_cmd_def Let_def by simp
    next
      case name: (Some name)
      show ?thesis
      proof (cases "natbyname nats name")
        case None
        then show ?thesis using Some name a1 unfolding st play_cmd_def Let_def by simp
      next
        case c: (Some c)
        show ?thesis
          using Some name c a1 bad [OF c] ps [of "?p1\<lparr>cnum := c, authenticated := True\<rparr>"] ps [of ?p1]
          unfolding st play_cmd_def Let_def by (cases "arg p 3") auto
      qed
    qed
  qed
qed

theorem play_cmd_starts_witness:
  "fst (play_cmd \<lparr>lc_blitz = False, lc_privip = []\<rparr> nats_example []
     ((player_new 0 ''h'')\<lparr>argp := [''play'', ''joe'', ''one'', ''pw'']\<rparr>))"
proof -
  let ?p = "(player_new 0 ''h'')\<lparr>argp := [''play'', ''joe'', ''one'', ''pw'']\<rparr>"
  have l: "length nats_example \<le> NATID_BAD" by (simp add: nats_example_def NATID_BAD_def)
  have f: "natbyname nats_example ''one'' = Some 1" "natpass nats_example 1 ''pw''" "nat_stat (nats_example ! 1) = STAT_ACTIVE"
    by code_simp+
  have a: "arg ?p 1 = Some ''joe''" "arg ?p 2 = Some ''one''" "arg ?p 3 = Some ''pw''" by (simp_all add: arg_def)
  obtain b q where bq: "play_cmd \<lparr>lc_blitz = False, lc_privip = []\<rparr> nats_example [] ?p = (b, q)" by fastforce
  have b
    unfolding play_cmd_starts [OF l bq] a option.case
    by (rule exI [of _ 1]) (use f in \<open>simp add: getplayer_def NATID_BAD_def\<close>)
  then show ?thesis by (simp only: bq fst_conv)
qed

lemma parse_loop_args:
  "sum_list (map (\<lambda>a. length a + 1) (p_arg r)) \<le> p_space r \<Longrightarrow>
    sum_list (map (\<lambda>a. length a + 1) (p_arg (parse_loop condp redir buf n r))) \<le> p_space (parse_loop condp redir buf n r)"
proof (induction condp redir buf n r rule: parse_loop.induct)
  case (1 condp redir buf n r)
  define b where "b = dropWhile isspace buf"
  consider (stop) "n \<ge> 127 \<or> b = [] \<or> redir \<and> (hd b = CHR ''>'' \<or> hd b = CHR 0x7C)"
    | (cond) "\<not> n \<ge> 127" "b \<noteq> []" "\<not> (redir \<and> (hd b = CHR ''>'' \<or> hd b = CHR 0x7C))" "condp \<and> hd b = CHR ''?''"
    | (arg) "\<not> n \<ge> 127" "b \<noteq> []" "\<not> (redir \<and> (hd b = CHR ''>'' \<or> hd b = CHR 0x7C))" "\<not> (condp \<and> hd b = CHR ''?'')"
    by blast
  then show ?case
  proof cases
    case stop
    then have "p_space (parse_loop condp redir buf n r) = p_space r" "p_arg (parse_loop condp redir buf n r) = p_arg r"
      by (subst parse_loop.simps, auto simp: Let_def b_def)+
    then show ?thesis using "1.prems" by simp
  next
    case cond
    obtain s rest where c: "copy_arg False (tl b) = (s, rest)" by fastforce
    have "parse_loop condp redir buf n r
        = parse_loop condp redir rest n (r\<lparr>p_cond := Some s, p_space := p_space r + length s + 1\<rparr>)"
      using cond c by (subst parse_loop.simps) (simp add: Let_def b_def [symmetric])
    then show ?thesis
      using "1.IH"(1) [OF cond(1) b_def cond(2,3,4) c [symmetric] refl] "1.prems" by simp
  next
    case arg
    obtain s rest where c: "copy_arg False b = (s, rest)" by fastforce
    have "parse_loop condp redir buf n r
        = parse_loop condp redir rest (n + 1) (r\<lparr>p_arg := p_arg r @ [s], p_space := p_space r + length s + 1\<rparr>)"
      using arg c by (subst parse_loop.simps) (auto simp: Let_def b_def [symmetric])
    then show ?thesis
      using "1.IH"(2) [OF arg(1) b_def arg(2,3,4) c [symmetric] refl] "1.prems" by simp
  qed
qed

lemma client_copy_total:
  "length s + sum_list (map (\<lambda>a. length a + 1) as) \<le> 127 + (if first then 1 else 0) \<Longrightarrow>
    \<exists>s'. client_copy as first s = Some s'"
proof (induction as arbitrary: first s)
  case (Cons a as)
  define s1 where "s1 = (if first then s else s @ '' '')"
  define sz where "sz = min (int (length a)) (127 - int (length s1))"
  have l: "length s1 + length a + sum_list (map (\<lambda>a. length a + 1) as) \<le> 127"
    using Cons.prems by (simp add: s1_def split: if_splits)
  then have sz: "sz \<ge> 0" "length (s1 @ take (nat sz) a) \<le> length s1 + length a" by (auto simp: sz_def)
  have "client_copy (a # as) first s = client_copy as False (s1 @ take (nat sz) a)"
    using sz(1) by (simp add: Let_def s1_def [symmetric] sz_def [symmetric])
  then show ?case using Cons.IH [of "s1 @ take (nat sz) a" False] l sz(2) by simp
qed simp

lemma client_cmd_total:
  assumes "length buf \<le> 127" and "argp p = p_arg (parse False False buf)"
  shows "\<exists>r. client_cmd p = Some r"
proof (cases "argp p")
  case (Cons a as)
  have "sum_list (map (\<lambda>a. length a + 1) (argp p)) \<le> 128"
    using parse_loop_args [of "\<lparr>p_arg = [], p_cond = None, p_redir = None, p_space = 0\<rparr>" False False buf 0]
      parse_space_bound [of False False buf] assms by (simp add: parse_def)
  then have "\<exists>s'. client_copy (tl (argp p)) True [] = Some s'"
    using Cons by (intro client_copy_total) simp
  then show ?thesis by (auto simp: client_cmd_def)
qed (simp add: client_cmd_def arg_def)

text \<open>
  No login command can overrun the player's buffers: the longest line the server reads gives
  \<open>client_cmd\<close> at most as much to copy as its buffer takes, and with a line of any other command
  nothing is copied unbounded, so every step of the server has a result.
\<close>

theorem server_step_total: "\<exists>sv'. server_step cfg sv e = Some sv'"
proof -
  have line: "\<exists>pls'. login_line cfg nats pls p buf = Some pls'" if "length buf \<le> 127" for nats pls p buf
    using client_cmd_total [OF that, of "p\<lparr>argp := p_arg (parse False False buf)\<rparr>"]
    unfolding login_line_def Let_def
    by (auto split: login_com.splits option.splits prod.splits)
  show ?thesis
  proof (cases e)
    case (Line i)
    show ?thesis
    proof (cases "the_player sv i")
      case (Some p)
      obtain pls where "login_line cfg (nations sv) (players sv) (p\<lparr>input := tl (input p)\<rparr>)
          (take 127 (hd (input p))) = Some pls"
        using line [of "take 127 (hd (input p))"] by fastforce
      then show ?thesis using Line Some by simp
    qed (simp add: Line)
  qed (auto split: option.splits)
qed

end
