(* ===== verification/FileTable.thy ===== *)
theory FileTable
  imports Match "HOL-Library.Word"
begin

text \<open>
  The tables of game state, \<open>src/lib/common/file.c\<close>: each has an array of elements, kept wholly
  (\<open>EFF_MEM\<close>) or through a window (\<open>baseid\<close>, \<open>cids\<close>) in a cache, and usually a backing file.

  An element is the header \<open>struct ef_typedstr\<close> and the rest of its structure, \<open>'a\<close>; the file is
  the list of elements in it, and \<open>disk_rest\<close> counts bytes of an incomplete element after them.
  Arithmetic on byte offsets is left out. \<open>CANT_HAPPEN(e)\<close> reports an internal error when \<open>e\<close>
  holds and goes on; \<open>faults\<close> counts the reports. A system call, with the loop that repeats it,
  takes its outcome from the script \<open>calls\<close> (they succeed when it is used up): \<open>Fail k\<close> is a
  failure after \<open>k\<close> whole elements. The callbacks of a table are its fields, or whether it has them:
  \<open>resized\<close> counts the calls of \<open>onresize\<close>, and what \<open>prewrite\<close> does, to the element to be written and to the tables,
  is a parameter of \<open>ef_write\<close>. Views (\<open>ef_open_view\<close>) share another table's cache and are not modelled.
\<close>

section \<open>State\<close>

datatype outcome = Done | Fail nat

record env =
  calls :: "outcome list"
  faults :: nat
  ef_generation :: "32 word"
  time_now :: int
  blksize :: nat

record 'a elt =
  ef_type :: int
  seqno :: "12 word"
  generation :: "12 word"
  uid :: int
  timestamp :: int
  body :: 'a

datatype eff = EFF_TYPED | EFF_XY | EFF_OWNER | EFF_GROUP | EFF_STATIC | EFF_SENTINEL
  | EFF_MEM | EFF_PRIVATE | EFF_CUSTOM | EFF_NOTIME | EFF_CREATE

definition EFF_IMMUTABLE :: "eff set" where
  "EFF_IMMUTABLE = {EFF_TYPED, EFF_XY, EFF_OWNER, EFF_GROUP, EFF_STATIC, EFF_SENTINEL}"

record 'a empfile =
  ep_uid :: int
  ep_name :: string
  ep_file :: bool
  ep_base :: int
  ep_size :: nat
  nent :: int
  flags :: "eff set"
  cache :: "'a elt list option"
  csize :: int
  baseid :: int
  cids :: int
  fids :: int
  fd :: bool
  oninit :: "('a elt \<Rightarrow> 'a elt) option"
  postread :: "(int \<Rightarrow> 'a elt \<Rightarrow> 'a elt) option"
  prewrite :: bool
  onresize :: bool
  resized :: nat
  disk :: "'a elt list"
  disk_rest :: nat

type_synonym 'a table = "'a empfile \<times> env"

record 'a db =
  empfile :: "int \<Rightarrow> 'a empfile"
  sys :: env

definition EF_MAX :: int where "EF_MAX = 54"
definition EF_BAD :: int where "EF_BAD = - 1"

definition cant_happen :: "bool \<Rightarrow> env \<Rightarrow> env" where
  "cant_happen c e = (if c then e\<lparr>faults := faults e + 1\<rparr> else e)"

definition syscall :: "env \<Rightarrow> outcome \<times> env" where
  "syscall e = (case calls e of [] \<Rightarrow> (Done, e) | r # rs \<Rightarrow> (r, e\<lparr>calls := rs\<rparr>))"

definition zero_elt :: "'a::zero elt" where
  "zero_elt = \<lparr>ef_type = 0, seqno = 0, generation = 0, uid = 0, timestamp = 0, body = 0\<rparr>"

section \<open>The cache and the file\<close>

definition slot :: "'a empfile \<Rightarrow> int \<Rightarrow> 'a elt" where
  "slot ep i = the (cache ep) ! nat i"

definition set_slot :: "int \<Rightarrow> 'a elt \<Rightarrow> 'a empfile \<Rightarrow> 'a empfile" where
  "set_slot i x ep = ep\<lparr>cache := map_option (\<lambda>c. c[nat i := x]) (cache ep)\<rparr>"

definition in_cache :: "'a empfile \<Rightarrow> int \<Rightarrow> bool" where
  "in_cache ep ix \<longleftrightarrow> ix \<ge> baseid ep \<and> ix < baseid ep + cids ep"

definition call_onresize :: "'a empfile \<Rightarrow> 'a empfile" where
  "call_onresize ep = (if onresize ep then ep\<lparr>resized := resized ep + 1\<rparr> else ep)"

text \<open>\<open>realloc\<close> leaves new elements indeterminate; here they are zero, and never looked at.\<close>

definition ef_realloc_cache :: "int \<Rightarrow> 'a::zero table \<Rightarrow> bool \<times> 'a table" where
  "ef_realloc_cache count = (\<lambda>(ep, e).
     if EFF_STATIC \<in> flags ep then (False, ep, cant_happen True e)
     else let e = cant_happen (count < 0) e; count = (if count < 0 then 0 else count);
              count = (if count = 0 then count + 1 else count);
              (r, e) = syscall e
          in if r \<noteq> Done then (False, ep, e)
             else (True, ep\<lparr>cache := Some (take (nat count) (case cache ep of None \<Rightarrow> [] | Some c \<Rightarrow> c)
                                          @ replicate (nat count - (case cache ep of None \<Rightarrow> 0 | Some c \<Rightarrow> length c)) zero_elt),
                            csize := count\<rparr>, e))"

text \<open>\<open>do_read\<close>: the elements read, \<open>None\<close> for its result -1.\<close>

definition do_read :: "int \<Rightarrow> int \<Rightarrow> 'a table \<Rightarrow> 'a elt list option \<times> env" where
  "do_read ix count = (\<lambda>(ep, e).
     if \<not> fd ep \<or> ix < 0 \<or> count < 0 then (None, cant_happen True e)
     else let (s, e) = syscall e
          in if s \<noteq> Done then (None, e)
             else let (r, e) = syscall e; es = take (nat count) (drop (nat ix) (disk ep))
                  in (Some (case r of Done \<Rightarrow> es | Fail k \<Rightarrow> take k es), e))"

text \<open>\<open>do_write\<close> stamps the elements in its buffer: the buffer, whether it succeeded, the table.\<close>

fun stamp :: "'a empfile \<Rightarrow> int \<Rightarrow> int \<Rightarrow> 'a elt list \<Rightarrow> env \<Rightarrow> 'a elt list \<times> env" where
  "stamp ep t i [] e = ([], e)"
| "stamp ep t i (x # xs) e =
     (let e = cant_happen (ef_type x \<noteq> ep_uid ep) e; x = x\<lparr>ef_type := ep_uid ep\<rparr>;
          e = cant_happen (uid x \<noteq> i) e; x = x\<lparr>uid := i\<rparr>;
          x = (if t \<noteq> - 1 then x\<lparr>timestamp := t\<rparr> else x);
          (ys, e) = stamp ep t (i + 1) xs e
      in (x # ys, e))"

definition disk_put :: "int \<Rightarrow> 'a::zero elt list \<Rightarrow> 'a elt list \<Rightarrow> 'a elt list" where
  "disk_put ix es d =
     take (nat ix) (d @ replicate (nat ix - length d) zero_elt) @ es @ drop (nat ix + length es) d"

definition do_write :: "int \<Rightarrow> 'a::zero elt list \<Rightarrow> 'a table \<Rightarrow> bool \<times> 'a elt list \<times> 'a table" where
  "do_write ix buf = (\<lambda>(ep, e).
     if \<not> fd ep \<or> ix < 0 then (False, buf, ep, cant_happen True e)
     else let (buf, e) = (if EFF_TYPED \<in> flags ep
                          then stamp ep (if EFF_NOTIME \<in> flags ep then - 1 else time_now e) ix buf e
                          else (buf, e))
          in if EFF_PRIVATE \<in> flags ep then (True, buf, ep, e)
             else let (s, e) = syscall e
                  in if s \<noteq> Done then (False, buf, ep, e)
                     else let (r, e) = syscall e
                          in case r of
                               Done \<Rightarrow> (True, buf, ep\<lparr>disk := disk_put ix buf (disk ep)\<rparr>, e)
                             | Fail k \<Rightarrow> (False, buf, ep\<lparr>disk := disk_put ix (take (min k (length buf - 1)) buf) (disk ep)\<rparr>, e))"

definition fillcache :: "int \<Rightarrow> 'a table \<Rightarrow> int \<times> 'a table" where
  "fillcache ix = (\<lambda>(ep, e).
     case cache ep of
       None \<Rightarrow> (- 1, ep, cant_happen True e)
     | Some c \<Rightarrow>
         case do_read ix (min (csize ep) (fids ep - ix)) (ep, e) of
           (None, e) \<Rightarrow> (- 1, ep, e)
         | (Some es, e) \<Rightarrow>
             (int (length es),
              ep\<lparr>cache := Some (es @ drop (length es) c), baseid := ix, cids := int (length es)\<rparr>, e))"

definition get_seqno :: "int \<Rightarrow> 'a table \<Rightarrow> 12 word \<times> 'a table" where
  "get_seqno ix = (\<lambda>(ep, e).
     if EFF_TYPED \<notin> flags ep then (0, ep, e)
     else if ix < 0 \<or> ix \<ge> fids ep then (0, ep, e)
     else if in_cache ep ix then (seqno (slot ep (ix - baseid ep)), ep, e)
     else let ep = (if cids ep = csize ep then ep\<lparr>cids := cids ep - 1\<rparr> else ep)
          in case do_read ix 1 (ep, e) of
               (None, e) \<Rightarrow> (0, ep, e)
             | (Some es, e) \<Rightarrow>
                 let ep = (case es of [] \<Rightarrow> ep | x # _ \<Rightarrow> set_slot (cids ep) x ep)
                 in (seqno (slot ep (cids ep)), ep, e))"

definition new_seqno :: "'a elt \<Rightarrow> 'a table \<Rightarrow> 'a elt \<times> 'a table" where
  "new_seqno x = (\<lambda>(ep, e).
     if EFF_TYPED \<notin> flags ep then (x, ep, e)
     else let (old, ep, e) = get_seqno (uid x) (ep, e)
          in (x\<lparr>seqno := old + 1\<rparr>, ep, cant_happen (old \<noteq> seqno x) e))"

definition must_be_fresh :: "'a elt \<Rightarrow> 'a table \<Rightarrow> 'a table" where
  "must_be_fresh x = (\<lambda>(ep, e).
     (ep, cant_happen (EFF_TYPED \<in> flags ep \<and> generation x \<noteq> ucast (ef_generation e)) e))"

definition mark_fresh :: "'a empfile \<Rightarrow> env \<Rightarrow> 'a elt \<Rightarrow> 'a elt" where
  "mark_fresh ep e x = (if EFF_TYPED \<in> flags ep then x\<lparr>generation := ucast (ef_generation e)\<rparr> else x)"

definition blank :: "'a::zero empfile \<Rightarrow> int \<Rightarrow> 'a elt" where
  "blank ep i =
     (let x = zero_elt; x = (if EFF_TYPED \<in> flags ep then x\<lparr>ef_type := ep_uid ep, uid := i\<rparr> else x)
      in case oninit ep of None \<Rightarrow> x | Some f \<Rightarrow> f x)"

definition do_blank :: "'a::zero empfile \<Rightarrow> int \<Rightarrow> int \<Rightarrow> 'a elt list" where
  "do_blank ep ix count = map (\<lambda>i. blank ep (ix + int i)) [0..<nat count]"

text \<open>\<open>do_extend\<close> without \<open>EFF_MEM\<close> blanks and writes the elements one by one in a cache slot.\<close>

fun extend_file :: "int \<Rightarrow> nat \<Rightarrow> 'a::zero table \<Rightarrow> bool \<times> 'a table" where
  "extend_file ix 0 t = (True, t)"
| "extend_file ix (Suc n) (ep, e) =
     (let x = blank ep ix; ep = set_slot (cids ep) x ep
      in case do_write ix [x] (ep, e) of
           (ok, xs, ep, e) \<Rightarrow>
             let ep = set_slot (cids ep) (hd xs) ep
             in if ok then extend_file (ix + 1) n (ep, e) else (False, ep, e))"

text \<open>With \<open>EFF_MEM\<close>, \<open>do_write\<close> works on the cache itself.\<close>

definition put_slots :: "int \<Rightarrow> 'a elt list \<Rightarrow> 'a empfile \<Rightarrow> 'a empfile" where
  "put_slots i xs ep =
     ep\<lparr>cache := map_option (\<lambda>c. take (nat i) c @ xs @ drop (nat i + length xs) c) (cache ep)\<rparr>"

definition do_extend :: "int \<Rightarrow> 'a::zero table \<Rightarrow> bool \<times> 'a table" where
  "do_extend count = (\<lambda>(ep, e).
     if ep_base ep \<noteq> EF_BAD \<or> count < 0 then (False, ep, cant_happen (ep_base ep \<noteq> EF_BAD) e)
     else
       let ix = fids ep in
       if EFF_MEM \<in> flags ep then
         let sentinel = (if EFF_SENTINEL \<in> flags ep then 1 else 0);
             (room, ep, e) = (if ix + count + sentinel > csize ep
                              then if EFF_STATIC \<in> flags ep then (False, ep, e)
                                   else ef_realloc_cache (ix + count + sentinel) (ep, e)
                              else (True, ep, e))
         in if \<not> room then (False, ep, e)
            else let xs = do_blank ep ix count; ep = put_slots ix xs ep;
                     (ok, xs, ep, e) = (if fd ep then do_write ix xs (ep, e) else (True, xs, ep, e));
                     ep = put_slots ix xs ep
                 in if \<not> ok then (False, ep, e)
                    else let ep = (if sentinel = 1 then set_slot (ix + count) zero_elt ep else ep)
                         in (True, ep\<lparr>cids := ix + count, fids := ix + count\<rparr>, e)
       else
         let ep = (if cids ep = csize ep then ep\<lparr>cids := cids ep - 1\<rparr> else ep)
         in case extend_file ix (nat count) (ep, e) of
              (ok, ep, e) \<Rightarrow> if ok then (True, ep\<lparr>fids := ix + count\<rparr>, e) else (False, ep, e))"

section \<open>Operations on one table\<close>

text \<open>The bodies of the functions of \<open>file.c\<close>, after \<open>ef_check\<close>.\<close>

definition tab_flush :: "'a::zero table \<Rightarrow> bool \<times> 'a table" where
  "tab_flush = (\<lambda>(ep, e).
     if EFF_PRIVATE \<in> flags ep then (True, ep, e)
     else if \<not> fd ep then (False, ep, cant_happen True e)
     else if EFF_MEM \<in> flags ep then
       case do_write (baseid ep) (take (nat (cids ep)) (the (cache ep))) (ep, e) of
         (ok, xs, ep, e) \<Rightarrow> (ok, put_slots 0 xs ep, e)
     else (True, ep, e))"

definition tab_close :: "'a::zero table \<Rightarrow> bool \<times> 'a table" where
  "tab_close = (\<lambda>(ep, e).
     let (ok, ep, e) =
           (if ep_base ep \<noteq> EF_BAD then (True, ep\<lparr>cache := None, csize := 0\<rparr>, e)
            else case tab_flush (ep, e) of
                   (ok, ep, e) \<Rightarrow>
                     let ep = (if EFF_STATIC \<notin> flags ep then ep\<lparr>cache := None, csize := 0\<rparr> else ep);
                         (r, e) = syscall e
                     in (ok \<and> r = Done, ep\<lparr>fd := False\<rparr>, e))
     in (ok, call_onresize (ep\<lparr>flags := flags ep \<inter> EFF_IMMUTABLE, baseid := 0, cids := 0, fids := 0\<rparr>), e))"

text \<open>
  \<open>ef_open\<close>. The file is truncated as it is opened, before it is locked. \<open>open_file\<close> is the part up
  to the size of the file, \<open>map_file\<close> allocates the cache.
\<close>

definition open_locked :: "eff set \<Rightarrow> 'a table \<Rightarrow> bool \<times> 'a table" where
  "open_locked how = (\<lambda>(ep, e).
     let (r, e) = syscall e
     in if r \<noteq> Done then (False, ep, e)
        else let ep = (if EFF_CREATE \<in> how then ep\<lparr>disk := [], disk_rest := 0\<rparr> else ep);
                 (r, e) = syscall e
             in (r = Done, ep, e))"

definition file_elts :: "eff set \<Rightarrow> 'a empfile \<Rightarrow> int option" where
  "file_elts how ep =
     (if EFF_CREATE \<in> how then Some (if nent ep \<ge> 0 then nent ep else 0)
      else if disk_rest ep mod ep_size ep \<noteq> 0 then None
      else if nent ep \<ge> 0 \<and> nent ep \<noteq> int (length (disk ep)) then None
      else Some (int (length (disk ep))))"

definition map_file :: "eff set \<Rightarrow> int \<Rightarrow> 'a::zero table \<Rightarrow> bool \<times> 'a table" where
  "map_file how n = (\<lambda>(ep, e).
     if EFF_STATIC \<in> flags ep then
       if EFF_MEM \<in> how \<and> n > csize ep then (False, ep, cant_happen (nent ep \<ge> 0) e) else (True, ep, e)
     else
       let e = cant_happen (cache ep \<noteq> None) e
       in ef_realloc_cache (if EFF_MEM \<in> how then n else int (blksize e div ep_size ep)) (ep, e))"

definition tab_open :: "eff set \<Rightarrow> 'a::zero table \<Rightarrow> bool \<times> 'a table" where
  "tab_open how = (\<lambda>(ep, e).
     let e = cant_happen (how \<inter> EFF_IMMUTABLE \<noteq> {}) e; how = how - EFF_IMMUTABLE in
     if \<not> ep_file ep \<or> ep_base ep \<noteq> EF_BAD \<or> fd ep then (False, ep, cant_happen True e)
     else if prewrite ep \<and> EFF_MEM \<notin> how then (False, ep, cant_happen True e)
     else case open_locked how (ep, e) of
       (False, t) \<Rightarrow> (False, t)
     | (True, ep, e) \<Rightarrow>
         case file_elts how ep of
           None \<Rightarrow> (False, ep, snd (syscall e))
         | Some n \<Rightarrow>
             case map_file how n (ep, e) of
               (False, ep, e) \<Rightarrow> (False, ep, snd (syscall e))
             | (True, ep, e) \<Rightarrow>
                 let ep = ep\<lparr>baseid := 0, cids := 0,
                             flags := (flags ep \<inter> EFF_IMMUTABLE) \<union> (how - {EFF_CREATE}), fd := True\<rparr>;
                     (fine, ep, e) =
                       (if EFF_CREATE \<in> how then do_extend n (ep\<lparr>fids := 0\<rparr>, e)
                        else let ep = ep\<lparr>fids := n\<rparr>
                             in if EFF_MEM \<in> how \<and> n \<noteq> 0
                                then let (r, t) = fillcache 0 (ep, e) in (r = n, t)
                                else (True, ep, e))
                 in if \<not> fine then (False, snd (tab_close (ep\<lparr>cids := 0\<rparr>, e)))
                    else (True, call_onresize ep, e))"

text \<open>The index of the element \<open>ef_ptr\<close> points to.\<close>

definition tab_ptr :: "int \<Rightarrow> 'a table \<Rightarrow> nat option \<times> 'a table" where
  "tab_ptr ix = (\<lambda>(ep, e).
     if EFF_MEM \<notin> flags ep \<or> cache ep = None then (None, ep, cant_happen True e)
     else if ix < 0 \<or> ix \<ge> fids ep then (None, ep, e)
     else (Some (nat ix), ep, e))"

definition tab_read :: "int \<Rightarrow> 'a table \<Rightarrow> 'a elt option \<times> 'a table" where
  "tab_read ix = (\<lambda>(ep, e).
     if cache ep = None then (None, ep, cant_happen True e)
     else if ix < 0 \<or> ix \<ge> fids ep then (None, ep, e)
     else let (n, ep, e) = (if EFF_MEM \<notin> flags ep \<and> (baseid ep + cids ep \<le> ix \<or> baseid ep > ix)
                            then fillcache ix (ep, e) else (1, ep, e))
          in if n < 1 then (None, ep, e)
             else let x = slot ep (if EFF_MEM \<in> flags ep then ix else ix - baseid ep);
                      x = mark_fresh ep e x;
                      x = (case postread ep of None \<Rightarrow> x | Some f \<Rightarrow> f ix x)
                  in (Some x, ep, e))"

text \<open>
  \<open>ef_write\<close>: its buffer \<open>from\<close> is either the caller's own or, with \<open>Slot\<close>, the cached element
  itself, as \<open>ef_ptr\<close> returns it. What the code does to its buffer is done to the slot then.
\<close>

datatype 'a buffer = Buf "'a elt" | Slot

definition buf_get :: "int \<Rightarrow> 'a buffer \<Rightarrow> 'a empfile \<Rightarrow> 'a elt" where
  "buf_get ix from ep = (case from of Buf x \<Rightarrow> x | Slot \<Rightarrow> slot ep ix)"

definition buf_put :: "int \<Rightarrow> 'a elt \<Rightarrow> 'a buffer \<Rightarrow> 'a empfile \<Rightarrow> 'a buffer \<times> 'a empfile" where
  "buf_put ix x from ep = (case from of Buf _ \<Rightarrow> (Buf x, ep) | Slot \<Rightarrow> (Slot, set_slot ix x ep))"

text \<open>What comes before the call of \<open>prewrite\<close>, with the element to go on with, if any, and what comes after it.\<close>

definition tab_write_start :: "int \<Rightarrow> 'a::zero buffer \<Rightarrow> 'a table \<Rightarrow> ('a elt option \<times> 'a buffer) \<times> 'a table" where
  "tab_write_start ix from = (\<lambda>(ep, e).
     if EFF_PRIVATE \<in> flags ep \<and> EFF_MEM \<notin> flags ep then ((None, from), ep, cant_happen True e)
     else if ix < 0 then ((None, from), ep, cant_happen True e)
     else if nent ep \<ge> 0 \<and> ix \<ge> nent ep then ((None, from), ep, cant_happen True e)
     else
       let (x, ep, e) = new_seqno (buf_get ix from ep) (ep, e); (from, ep) = buf_put ix x from ep in
       if ix \<ge> fids ep \<and> (EFF_MEM \<in> flags ep \<or> ix > fids ep) then ((None, from), ep, cant_happen True e)
       else
         let ep = (if ix \<ge> fids ep then call_onresize (ep\<lparr>fids := ix + 1\<rparr>) else ep);
             (ep, e) = (if in_cache ep ix \<and> from \<noteq> Slot then must_be_fresh x (ep, e) else (ep, e))
         in ((Some x, from), ep, e))"

definition tab_write_end :: "int \<Rightarrow> bool \<Rightarrow> 'a elt \<Rightarrow> 'a::zero buffer \<Rightarrow> 'a table \<Rightarrow> (bool \<times> 'a buffer) \<times> 'a table" where
  "tab_write_end ix cached x from = (\<lambda>(ep, e).
     let (from, ep) = buf_put ix x from ep;
         (ok, x, ep, e) = (if fd ep then case do_write ix [x] (ep, e) of (ok, xs, t) \<Rightarrow> (ok, hd xs, t)
                           else (True, x, ep, e));
         (from, ep) = buf_put ix x from ep
     in if \<not> ok then ((False, from), ep, e)
        else ((True, from), if cached then set_slot (ix - baseid ep) x ep else ep, e))"

definition tab_set_uid :: "int \<Rightarrow> 'a elt \<Rightarrow> 'a table \<Rightarrow> 'a elt \<times> 'a table" where
  "tab_set_uid i x = (\<lambda>(ep, e).
     if EFF_TYPED \<notin> flags ep \<or> uid x = i then (x, ep, e)
     else let (s, t) = get_seqno i (ep, e) in (x\<lparr>uid := i, seqno := s\<rparr>, t))"

definition tab_extend :: "int \<Rightarrow> 'a::zero table \<Rightarrow> bool \<times> 'a table" where
  "tab_extend count = (\<lambda>(ep, e).
     if nent ep \<ge> 0 then (False, ep, e)
     else case do_extend count (ep, e) of
            (ok, ep, e) \<Rightarrow> if ok then (True, call_onresize ep, e) else (False, ep, e))"

definition tab_blank :: "int \<Rightarrow> 'a::zero table \<Rightarrow> 'a elt \<times> 'a table" where
  "tab_blank ix = (\<lambda>(ep, e).
     let x = blank ep ix;
         (x, ep, e) = (if EFF_TYPED \<in> flags ep
                       then case get_seqno (uid x) (ep, e) of (s, t) \<Rightarrow> (x\<lparr>seqno := s\<rparr>, t)
                       else (x, ep, e))
     in (mark_fresh ep e x, ep, e))"

definition tab_truncate :: "int \<Rightarrow> 'a::zero table \<Rightarrow> bool \<times> 'a table" where
  "tab_truncate count = (\<lambda>(ep, e).
     if ep_base ep \<noteq> EF_BAD then (False, ep, cant_happen True e)
     else if nent ep \<ge> 0 then (False, ep, e)
     else if count < 0 \<or> count > fids ep then (False, ep, cant_happen True e)
     else
       let (r, e) = (if fd ep \<and> EFF_PRIVATE \<notin> flags ep then syscall e else (Done, e))
       in if r \<noteq> Done then (False, ep, e)
          else
            let ep = (if fd ep \<and> EFF_PRIVATE \<notin> flags ep
                      then ep\<lparr>disk := disk_put count [] (take (nat count) (disk ep)), disk_rest := 0\<rparr> else ep);
                ep = ep\<lparr>fids := count\<rparr>;
                (ep, e) =
                  (if EFF_MEM \<in> flags ep then
                     let sentinel = (if EFF_SENTINEL \<in> flags ep then 1 else 0);
                         (ep, e) = (if EFF_STATIC \<notin> flags ep
                                    then snd (ef_realloc_cache (count + sentinel) (ep, e)) else (ep, e));
                         ep = (if sentinel = 1 then set_slot count zero_elt ep else ep)
                     in (ep\<lparr>cids := count\<rparr>, e)
                   else if baseid ep \<ge> count then (ep\<lparr>cids := 0\<rparr>, e)
                   else if cids ep > count - baseid ep then (ep\<lparr>cids := count - baseid ep\<rparr>, e)
                   else (ep, e))
            in (True, call_onresize ep, e))"

section \<open>Operations on the array of tables\<close>

definition ef_check :: "int \<Rightarrow> bool" where
  "ef_check type \<longleftrightarrow> 0 \<le> type \<and> type < EF_MAX"

definition on_table :: "int \<Rightarrow> 'r \<Rightarrow> ('a table \<Rightarrow> 'r \<times> 'a table) \<Rightarrow> 'a db \<Rightarrow> 'r \<times> 'a db" where
  "on_table type bad f d =
     (if \<not> ef_check type then (bad, d\<lparr>sys := cant_happen True (sys d)\<rparr>)
      else case f (empfile d type, sys d) of
             (r, ep, e) \<Rightarrow> (r, d\<lparr>empfile := (empfile d)(type := ep), sys := e\<rparr>))"

definition ef_open :: "int \<Rightarrow> eff set \<Rightarrow> 'a::zero db \<Rightarrow> bool \<times> 'a db" where
  "ef_open type how = on_table type False (tab_open how)"

definition ef_close :: "int \<Rightarrow> 'a::zero db \<Rightarrow> bool \<times> 'a db" where
  "ef_close type = on_table type False tab_close"

definition ef_flush :: "int \<Rightarrow> 'a::zero db \<Rightarrow> bool \<times> 'a db" where
  "ef_flush type = on_table type False tab_flush"

definition ef_ptr :: "int \<Rightarrow> int \<Rightarrow> 'a db \<Rightarrow> nat option \<times> 'a db" where
  "ef_ptr type ix = on_table type None (tab_ptr ix)"

definition ef_read :: "int \<Rightarrow> int \<Rightarrow> 'a db \<Rightarrow> 'a elt option \<times> 'a db" where
  "ef_read type ix = on_table type None (tab_read ix)"

text \<open>
  A callback \<open>prewrite\<close> of a table, given its number, an element's number, the cached element and the new one: the new element
  it leaves, and the tables, which it may write itself.
\<close>

type_synonym 'a hook = "int \<Rightarrow> int \<Rightarrow> 'a elt option \<Rightarrow> 'a elt \<Rightarrow> 'a db \<Rightarrow> 'a elt \<times> 'a db"

definition call_prewrite :: "'a hook \<Rightarrow> int \<Rightarrow> int \<Rightarrow> 'a elt \<Rightarrow> 'a db \<Rightarrow> 'a elt \<times> 'a db" where
  "call_prewrite hk type ix x d =
     (let ep = empfile d type
      in if prewrite ep then hk type ix (if in_cache ep ix then Some (slot ep (ix - baseid ep)) else None) x d else (x, d))"

definition ef_write :: "'a hook \<Rightarrow> int \<Rightarrow> int \<Rightarrow> 'a::zero buffer \<Rightarrow> 'a db \<Rightarrow> (bool \<times> 'a buffer) \<times> 'a db" where
  "ef_write hk type ix from d =
     (case on_table type (None, from) (tab_write_start ix from) d of
        ((None, from), d) \<Rightarrow> ((False, from), d)
      | ((Some x, from), d) \<Rightarrow>
          let cached = in_cache (empfile d type) ix; (x, d) = call_prewrite hk type ix x d
          in on_table type (False, from) (tab_write_end ix cached x from) d)"

definition ef_set_uid :: "int \<Rightarrow> int \<Rightarrow> 'a elt \<Rightarrow> 'a db \<Rightarrow> 'a elt \<times> 'a db" where
  "ef_set_uid type i x = on_table type x (tab_set_uid i x)"

definition ef_extend :: "int \<Rightarrow> int \<Rightarrow> 'a::zero db \<Rightarrow> bool \<times> 'a db" where
  "ef_extend type count = on_table type False (tab_extend count)"

definition ef_blank :: "int \<Rightarrow> int \<Rightarrow> 'a::zero db \<Rightarrow> 'a elt option \<times> 'a db" where
  "ef_blank type ix = on_table type None (\<lambda>t. case tab_blank ix t of (x, t) \<Rightarrow> (Some x, t))"

definition ef_truncate :: "int \<Rightarrow> int \<Rightarrow> 'a::zero db \<Rightarrow> bool \<times> 'a db" where
  "ef_truncate type count = on_table type False (tab_truncate count)"

definition ef_mark_fresh :: "int \<Rightarrow> 'a elt \<Rightarrow> 'a db \<Rightarrow> 'a elt \<times> 'a db" where
  "ef_mark_fresh type x = on_table type x (\<lambda>(ep, e). (mark_fresh ep e x, ep, e))"

definition ef_make_stale :: "'a db \<Rightarrow> 'a db" where
  "ef_make_stale d = d\<lparr>sys := (sys d)\<lparr>ef_generation := ef_generation (sys d) + 1\<rparr>\<rparr>"

definition ef_nelem :: "int \<Rightarrow> 'a db \<Rightarrow> int \<times> 'a db" where
  "ef_nelem type = on_table type 0 (\<lambda>(ep, e). (fids ep, ep, e))"

definition ef_flags :: "int \<Rightarrow> 'a db \<Rightarrow> eff set \<times> 'a db" where
  "ef_flags type = on_table type {} (\<lambda>(ep, e). (flags ep, ep, e))"

definition ef_nameof :: "int \<Rightarrow> 'a db \<Rightarrow> string \<times> 'a db" where
  "ef_nameof type = on_table type ''bad'' (\<lambda>(ep, e). (ep_name ep, ep, e))"

definition INT_MAX :: int where "INT_MAX = 2147483647"

definition ef_id_limit :: "int \<Rightarrow> 'a db \<Rightarrow> int \<times> 'a db" where
  "ef_id_limit type = on_table type (- 1) (\<lambda>(ep, e).
     (if nent ep \<ge> 0 then nent ep - 1
      else if EFF_MEM \<in> flags ep \<and> EFF_STATIC \<in> flags ep
      then csize ep - 1 - (if EFF_SENTINEL \<in> flags ep then 1 else 0)
      else INT_MAX, ep, e))"

definition ef_typedstr_eq :: "'a elt \<Rightarrow> 'a elt \<Rightarrow> bool" where
  "ef_typedstr_eq a b \<longleftrightarrow> ef_type a = ef_type b \<and> seqno a = seqno b \<and> uid a = uid b \<and> body a = body b"

definition ef_byname :: "string \<Rightarrow> 'a db \<Rightarrow> int" where
  "ef_byname name d = stmtch name (map (\<lambda>t. ep_name (empfile d t)) [0..EF_MAX - 1])"

fun byname_loop :: "string \<Rightarrow> int list \<Rightarrow> int \<Rightarrow> 'a db \<Rightarrow> int" where
  "byname_loop name [] res d = res"
| "byname_loop name (p # ps) res d =
     (if \<not> ef_check p then byname_loop name ps res d
      else case mineq name (ep_name (empfile d p)) of
             ME_MISMATCH \<Rightarrow> byname_loop name ps res d
           | ME_PARTIAL \<Rightarrow> if res \<ge> 0 then M_NOTUNIQUE else byname_loop name ps p d
           | ME_EXACT \<Rightarrow> p)"

definition ef_byname_from :: "string \<Rightarrow> int list \<Rightarrow> 'a db \<Rightarrow> int" where
  "ef_byname_from name choices d = byname_loop name choices M_NOTFOUND d"

text \<open>The loop of \<open>ef_ensure_space\<close> does not end if \<open>count\<close> is zero.\<close>

partial_function (option) ensure_loop :: "int \<Rightarrow> int \<Rightarrow> int \<Rightarrow> 'a::zero db \<Rightarrow> (bool \<times> 'a db) option" where
  [code]: "ensure_loop type ix count d =
     (if ix \<ge> fids (empfile d type)
      then case ef_extend type count d of (ok, d) \<Rightarrow> if ok then ensure_loop type ix count d else Some (False, d)
      else Some (True, d))"

definition ef_ensure_space :: "int \<Rightarrow> int \<Rightarrow> int \<Rightarrow> 'a::zero db \<Rightarrow> (bool \<times> 'a db) option" where
  "ef_ensure_space type ix count d =
     (if \<not> ef_check type \<or> ix < 0 then Some (False, d\<lparr>sys := cant_happen True (sys d)\<rparr>)
      else ensure_loop type ix count d)"

section \<open>The invariant and the elements of a table\<close>

definition quiet :: "env \<Rightarrow> bool" where
  "quiet e \<longleftrightarrow> calls e = []"

definition tab_ok :: "'a::zero empfile \<Rightarrow> bool" where
  "tab_ok ep \<longleftrightarrow>
     ep_base ep = EF_BAD \<and> (\<exists>c. cache ep = Some c \<and> int (length c) = csize ep \<and> 0 < csize ep)
     \<and> 0 \<le> baseid ep \<and> 0 \<le> cids ep \<and> cids ep \<le> csize ep \<and> 0 \<le> fids ep
     \<and> (EFF_MEM \<in> flags ep \<longrightarrow> baseid ep = 0 \<and> cids ep = fids ep
          \<and> (EFF_SENTINEL \<in> flags ep \<longrightarrow> fids ep < csize ep \<and> slot ep (fids ep) = zero_elt))
     \<and> (EFF_MEM \<notin> flags ep \<longrightarrow> fd ep \<and> \<not> prewrite ep
          \<and> (cids ep = 0 \<or> baseid ep + cids ep \<le> fids ep) \<and> fids ep \<le> int (length (disk ep))
          \<and> (\<forall>i. 0 \<le> i \<and> i < cids ep \<longrightarrow> slot ep i = disk ep ! nat (baseid ep + i)))"

definition contents :: "'a empfile \<Rightarrow> 'a elt list" where
  "contents ep = take (nat (fids ep)) (if EFF_MEM \<in> flags ep then the (cache ep) else disk ep)"

text \<open>Only where the window of the cache lies has changed, or what it holds outside of the window.\<close>

definition cache_moved :: "'a::zero empfile \<Rightarrow> 'a empfile \<Rightarrow> bool" where
  "cache_moved ep ep' \<longleftrightarrow> tab_ok ep' \<and> contents ep' = contents ep
     \<and> (\<exists>c b k. ep' = ep\<lparr>cache := c, baseid := b, cids := k\<rparr>)"

lemma cant_happen_simps [simp]:
  "calls (cant_happen b e) = calls e" "ef_generation (cant_happen b e) = ef_generation e"
  "time_now (cant_happen b e) = time_now e" "blksize (cant_happen b e) = blksize e"
  "faults (cant_happen b e) = faults e + (if b then 1 else 0)"
  "quiet (cant_happen b e) = quiet e"
  by (simp_all add: cant_happen_def quiet_def)

lemma syscall_quiet [simp]: "quiet e \<Longrightarrow> syscall e = (Done, e)"
  by (simp add: quiet_def syscall_def)

lemma syscall_env:
  assumes "syscall e = (r, e')"
  shows "ef_generation e' = ef_generation e" "time_now e' = time_now e" "faults e' = faults e"
    "blksize e' = blksize e" "quiet e \<Longrightarrow> r = Done \<and> e' = e"
  using assms by (auto simp: syscall_def quiet_def split: list.splits)

lemma tab_okD:
  assumes "tab_ok ep"
  obtains c where "cache ep = Some c" "int (length c) = csize ep" "0 < csize ep" "0 \<le> baseid ep"
    "0 \<le> cids ep" "cids ep \<le> csize ep" "0 \<le> fids ep" "ep_base ep = EF_BAD"
  using assms by (auto simp: tab_ok_def)

lemma tab_ok_mem:
  "tab_ok ep \<Longrightarrow> EFF_MEM \<in> flags ep \<Longrightarrow> baseid ep = 0 \<and> cids ep = fids ep \<and> fids ep \<le> csize ep"
  by (auto simp: tab_ok_def)

lemma length_contents: "tab_ok ep \<Longrightarrow> int (length (contents ep)) = fids ep"
  by (cases "EFF_MEM \<in> flags ep") (auto simp: tab_ok_def contents_def)

text \<open>The window shows the elements of the table.\<close>

lemma in_cache_slot:
  assumes "tab_ok ep" "in_cache ep i"
  shows "slot ep (i - baseid ep) = contents ep ! nat i" "0 \<le> i" "i < fids ep"
proof -
  have b: "0 \<le> i - baseid ep" "i - baseid ep < cids ep" "0 \<le> baseid ep"
    using assms by (auto simp: in_cache_def tab_ok_def)
  then show "0 \<le> i" by simp
  show less: "i < fids ep"
    using b assms(1) by (cases "EFF_MEM \<in> flags ep") (auto simp: tab_ok_def)
  show "slot ep (i - baseid ep) = contents ep ! nat i"
  proof (cases "EFF_MEM \<in> flags ep")
    case True
    then show ?thesis using assms(1) less b by (auto simp: tab_ok_def contents_def slot_def)
  next
    case False
    then have "slot ep (i - baseid ep) = disk ep ! nat (baseid ep + (i - baseid ep))"
      using assms(1) b unfolding tab_ok_def by blast
    then show ?thesis using False less b by (simp add: contents_def)
  qed
qed

lemma mem_in_cache: "tab_ok ep \<Longrightarrow> EFF_MEM \<in> flags ep \<Longrightarrow> in_cache ep i \<longleftrightarrow> 0 \<le> i \<and> i < fids ep"
  by (auto simp: tab_ok_def in_cache_def)

lemma cache_moved_refl [simp]: "tab_ok ep \<Longrightarrow> cache_moved ep ep"
proof -
  have "ep = ep\<lparr>cache := cache ep, baseid := baseid ep, cids := cids ep\<rparr>" by simp
  then show "tab_ok ep \<Longrightarrow> ?thesis" unfolding cache_moved_def by blast
qed

lemma cache_movedD:
  assumes "cache_moved ep ep'"
  shows "tab_ok ep'" "contents ep' = contents ep" "flags ep' = flags ep" "fids ep' = fids ep"
    "disk ep' = disk ep" "nent ep' = nent ep" "prewrite ep' = prewrite ep" "postread ep' = postread ep"
    "fd ep' = fd ep" "ep_uid ep' = ep_uid ep" "csize ep' = csize ep" "oninit ep' = oninit ep"
    "resized ep' = resized ep" "onresize ep' = onresize ep" "ep_base ep' = ep_base ep"
  using assms by (auto simp: cache_moved_def)

text \<open>Without \<open>EFF_MEM\<close>, a new window is fine when it shows the file.\<close>

lemma cache_moved_window:
  assumes "tab_ok ep" "EFF_MEM \<notin> flags ep" "int (length c) = csize ep" "0 \<le> b" "0 \<le> k" "k \<le> csize ep"
    "k = 0 \<or> b + k \<le> fids ep" "\<And>i. 0 \<le> i \<Longrightarrow> i < k \<Longrightarrow> c ! nat i = disk ep ! nat (b + i)"
  shows "cache_moved ep (ep\<lparr>cache := Some c, baseid := b, cids := k\<rparr>)"
  using assms unfolding cache_moved_def by (auto simp: tab_ok_def contents_def slot_def)

lemma do_read_result:
  assumes "do_read ix count (ep, e) = (r, e')" "fd ep" "0 \<le> ix" "0 \<le> count"
  shows "r = Some es \<Longrightarrow> \<exists>k. es = take k (take (nat count) (drop (nat ix) (disk ep)))"
    and "quiet e \<Longrightarrow> r = Some (take (nat count) (drop (nat ix) (disk ep))) \<and> e' = e"
    and "ef_generation e' = ef_generation e \<and> time_now e' = time_now e \<and> faults e' = faults e"
proof -
  obtain s e1 where s: "syscall e = (s, e1)" by fastforce
  obtain q e2 where q: "syscall e1 = (q, e2)" by fastforce
  have d: "(r, e') = (if s \<noteq> Done then (None, e1)
      else (Some (case q of Done \<Rightarrow> take (nat count) (drop (nat ix) (disk ep))
                  | Fail k \<Rightarrow> take k (take (nat count) (drop (nat ix) (disk ep)))), e2))"
    using assms by (cases "s = Done") (simp_all add: do_read_def s q Let_def)
  show "\<exists>k. es = take k (take (nat count) (drop (nat ix) (disk ep)))" if "r = Some es"
    using d that take_all [OF order_refl, of "take (nat count) (drop (nat ix) (disk ep))"]
    by (cases q) (auto split: if_splits intro: exI [of _ "length (take (nat count) (drop (nat ix) (disk ep)))"])
  show "quiet e \<Longrightarrow> r = Some (take (nat count) (drop (nat ix) (disk ep))) \<and> e' = e"
    using d s q by auto
  show "ef_generation e' = ef_generation e \<and> time_now e' = time_now e \<and> faults e' = faults e"
    using d syscall_env [OF s] syscall_env [OF q] by (auto split: if_splits)
qed

lemma fillcache_moved:
  assumes ok: "tab_ok ep" "EFF_MEM \<notin> flags ep" "0 \<le> ix" "ix < fids ep"
    and f: "fillcache ix (ep, e) = (n, ep', e')"
  shows "cache_moved ep ep'" and "n \<ge> 1 \<Longrightarrow> in_cache ep' ix"
    and "quiet e \<Longrightarrow> n \<ge> 1 \<and> e' = e"
    and "ef_generation e' = ef_generation e \<and> time_now e' = time_now e \<and> faults e' = faults e"
proof -
  obtain c where c: "cache ep = Some c" "int (length c) = csize ep" "0 < csize ep" by (rule tab_okD [OF ok(1)])
  have fd: "fd ep" "fids ep \<le> int (length (disk ep))" using ok by (auto simp: tab_ok_def)
  define m where "m = min (csize ep) (fids ep - ix)"
  have m: "1 \<le> m" "m \<le> csize ep" "ix + m \<le> fids ep" using c(3) ok(4) by (auto simp: m_def)
  obtain r e1 where r: "do_read ix m (ep, e) = (r, e1)" by fastforce
  note res = do_read_result [OF r fd(1) ok(3)]
  have d: "(n, ep', e') = (case r of None \<Rightarrow> (- 1, ep, e1) | Some es \<Rightarrow> (int (length es),
      ep\<lparr>cache := Some (es @ drop (length es) c), baseid := ix, cids := int (length es)\<rparr>, e1))"
    using f unfolding fillcache_def prod.case c(1) option.case m_def [symmetric] r by simp
  have some: "cache_moved ep (ep\<lparr>cache := Some (es @ drop (length es) c), baseid := ix, cids := int (length es)\<rparr>)
      \<and> int (length es) \<le> m" if es: "r = Some es" for es
  proof -
    obtain k where k: "es = take k (take (nat m) (drop (nat ix) (disk ep)))" using res(1) es m(1) by auto
    then have "length es \<le> nat m" by simp
    then have l: "int (length es) \<le> m" using m(1) by simp
    have "es ! nat i = disk ep ! nat (ix + i)" if i: "0 \<le> i" "i < int (length es)" for i
    proof -
      have "nat i < k" "nat i < nat m" "nat ix \<le> length (disk ep)" using i k ok(3,4) fd(2) by auto
      then show ?thesis unfolding k using i(1) ok(3) by (simp add: nat_add_distrib)
    qed
    then show ?thesis using l m ok c
      by (intro conjI cache_moved_window) (auto simp: nth_append)
  qed
  show "cache_moved ep ep'" using d some ok(1) by (cases r) auto
  show "in_cache ep' ix" if "n \<ge> 1" using d that by (cases r) (auto simp: in_cache_def)
  show "ef_generation e' = ef_generation e \<and> time_now e' = time_now e \<and> faults e' = faults e"
    using d res(3) m(1) by (cases r) auto
  show "n \<ge> 1 \<and> e' = e" if "quiet e"
    using d res(2) [OF _ that] m ok(3,4) fd(2) by auto
qed

text \<open>Reading a sequence number may move the window by giving up its last element.\<close>

lemma get_seqno_moved:
  assumes ok: "tab_ok ep" and f: "get_seqno ix (ep, e) = (s, ep', e')"
  shows "cache_moved ep ep'" and "EFF_TYPED \<notin> flags ep \<or> \<not> (0 \<le> ix \<and> ix < fids ep) \<Longrightarrow> s = 0"
    and "EFF_TYPED \<in> flags ep \<Longrightarrow> 0 \<le> ix \<Longrightarrow> ix < fids ep \<Longrightarrow> quiet e \<or> EFF_MEM \<in> flags ep \<Longrightarrow> s = seqno (contents ep ! nat ix)"
    and "quiet e \<or> EFF_MEM \<in> flags ep \<Longrightarrow> e' = e"
    and "ef_generation e' = ef_generation e \<and> time_now e' = time_now e \<and> faults e' = faults e"
proof -
  consider (none) "EFF_TYPED \<notin> flags ep \<or> \<not> (0 \<le> ix \<and> ix < fids ep)"
    | (hit) "EFF_TYPED \<in> flags ep" "0 \<le> ix" "ix < fids ep" "in_cache ep ix"
    | (miss) "EFF_TYPED \<in> flags ep" "0 \<le> ix" "ix < fids ep" "\<not> in_cache ep ix" by blast
  then have "cache_moved ep ep' \<and> (EFF_TYPED \<notin> flags ep \<or> \<not> (0 \<le> ix \<and> ix < fids ep) \<longrightarrow> s = 0)
    \<and> (EFF_TYPED \<in> flags ep \<and> 0 \<le> ix \<and> ix < fids ep \<and> (quiet e \<or> EFF_MEM \<in> flags ep) \<longrightarrow> s = seqno (contents ep ! nat ix))
    \<and> (quiet e \<or> EFF_MEM \<in> flags ep \<longrightarrow> e' = e)
    \<and> ef_generation e' = ef_generation e \<and> time_now e' = time_now e \<and> faults e' = faults e"
  proof cases
    case none
    then have "s = 0 \<and> ep' = ep \<and> e' = e" using f by (auto simp: get_seqno_def split: if_splits)
    then show ?thesis using none ok by auto
  next
    case hit
    then have "get_seqno ix (ep, e) = (seqno (slot ep (ix - baseid ep)), ep, e)" by (simp add: get_seqno_def)
    then have r: "s = seqno (slot ep (ix - baseid ep))" "ep' = ep" "e' = e" using f by simp_all
    show ?thesis unfolding r in_cache_slot(1) [OF ok hit(4)] using hit ok by simp
  next
    case miss
    have mem: "EFF_MEM \<notin> flags ep" using miss mem_in_cache [OF ok] by blast
    have fd: "fd ep" "fids ep \<le> int (length (disk ep))" using ok mem by (auto simp: tab_ok_def)
    define k where "k = (if cids ep = csize ep then cids ep - 1 else cids ep)"
    define ep1 where "ep1 = ep\<lparr>cids := k\<rparr>"
    obtain c where c: "cache ep = Some c" "int (length c) = csize ep" "0 < csize ep" "0 \<le> baseid ep" "0 \<le> cids ep"
      "cids ep \<le> csize ep"
      by (rule tab_okD [OF ok])
    have k: "0 \<le> k" "k < csize ep" "k \<le> cids ep" using c by (auto simp: k_def)
    have e1: "(if cids ep = csize ep then ep\<lparr>cids := cids ep - 1\<rparr> else ep) = ep1"
      by (simp add: ep1_def k_def)
    obtain r e1' where r: "do_read ix 1 (ep1, e) = (r, e1')" by fastforce
    have fd1: "fd ep1" "disk ep1 = disk ep" using fd by (simp_all add: ep1_def)
    note res = do_read_result [OF r fd1(1) miss(2) zero_le_one]
    have win: "cache_moved ep (ep\<lparr>cache := Some (c[nat k := x]), cids := k\<rparr>)" for x
    proof -
      have "cache_moved ep (ep\<lparr>cache := Some (c[nat k := x]), baseid := baseid ep, cids := k\<rparr>)"
        using ok mem c k unfolding tab_ok_def by (intro cache_moved_window [OF ok mem]) (auto simp: slot_def)
      then show ?thesis by simp
    qed
    have "c[nat k := c ! nat k] = c" by simp
    moreover have "ep\<lparr>cache := Some c, cids := k\<rparr> = ep1" using c(1) by (simp add: ep1_def)
    ultimately have moved1: "cache_moved ep ep1" using win [of "c ! nat k"] by simp
    have d: "(s, ep', e') = (case r of None \<Rightarrow> (0, ep1, e1')
        | Some es \<Rightarrow> let ep2 = (case es of [] \<Rightarrow> ep1 | x # _ \<Rightarrow> set_slot (cids ep1) x ep1)
                     in (seqno (slot ep2 (cids ep1)), ep2, e1'))"
      using f miss r by (cases r) (auto simp: get_seqno_def Let_def e1 set_slot_def split: list.splits)
    have moved2: "cache_moved ep (set_slot (cids ep1) x ep1)" for x
    proof -
      have "set_slot (cids ep1) x ep1 = ep\<lparr>cache := Some (c[nat k := x]), cids := k\<rparr>"
        using c(1) by (simp add: ep1_def set_slot_def)
      then show ?thesis using win [of x] by simp
    qed
    have sl: "slot (set_slot (cids ep1) x ep1) (cids ep1) = x" for x
      using k c by (simp add: ep1_def set_slot_def slot_def)
    have "cache_moved ep ep'"
      using d moved1 moved2 by (cases r) (auto simp: Let_def split: list.splits)
    moreover have "s = seqno (contents ep ! nat ix) \<and> e' = e" if "quiet e"
    proof -
      have "drop (nat ix) (disk ep) \<noteq> []" using miss fd by auto
      then have "take 1 (drop (nat ix) (disk ep)) = [disk ep ! nat ix]"
        using miss fd(2) by (cases "drop (nat ix) (disk ep)") (auto simp: nth_via_drop)
      then have "r = Some [disk ep ! nat ix] \<and> e1' = e" using res(2) [OF that] fd1 by simp
      then show ?thesis using d sl mem miss by (auto simp: contents_def)
    qed
    moreover have "ef_generation e' = ef_generation e \<and> time_now e' = time_now e \<and> faults e' = faults e"
      using d res(3) by (cases r) (auto simp: Let_def)
    ultimately show ?thesis using miss mem by auto
  qed
  then show "cache_moved ep ep'" "EFF_TYPED \<notin> flags ep \<or> \<not> (0 \<le> ix \<and> ix < fids ep) \<Longrightarrow> s = 0"
    "EFF_TYPED \<in> flags ep \<Longrightarrow> 0 \<le> ix \<Longrightarrow> ix < fids ep \<Longrightarrow> quiet e \<or> EFF_MEM \<in> flags ep \<Longrightarrow> s = seqno (contents ep ! nat ix)"
    "quiet e \<or> EFF_MEM \<in> flags ep \<Longrightarrow> e' = e"
    "ef_generation e' = ef_generation e \<and> time_now e' = time_now e \<and> faults e' = faults e"
    by blast+
qed

lemma tab_read_result:
  assumes ok: "tab_ok ep" and r: "tab_read ix (ep, e) = (r, ep', e')"
  shows "cache_moved ep ep'"
    and "r = Some x \<Longrightarrow> 0 \<le> ix \<and> ix < fids ep
      \<and> x = (let y = mark_fresh ep e (contents ep ! nat ix) in case postread ep of None \<Rightarrow> y | Some f \<Rightarrow> f ix y)"
    and "0 \<le> ix \<Longrightarrow> ix < fids ep \<Longrightarrow> EFF_MEM \<in> flags ep \<or> quiet e \<Longrightarrow> r \<noteq> None \<and> e' = e"
proof -
  obtain c where c: "cache ep = Some c" by (rule tab_okD [OF ok])
  have "cache_moved ep ep'
    \<and> (r = Some x \<longrightarrow> 0 \<le> ix \<and> ix < fids ep
      \<and> x = (let y = mark_fresh ep e (contents ep ! nat ix) in case postread ep of None \<Rightarrow> y | Some f \<Rightarrow> f ix y))
    \<and> (0 \<le> ix \<and> ix < fids ep \<and> (EFF_MEM \<in> flags ep \<or> quiet e) \<longrightarrow> r \<noteq> None \<and> e' = e)"
  proof (cases "0 \<le> ix \<and> ix < fids ep")
    case False
    then have "r = None \<and> ep' = ep" using r c by (auto simp: tab_read_def)
    then show ?thesis using ok False by auto
  next
    case True
    obtain n ep1 e1 where f: "(if EFF_MEM \<notin> flags ep \<and> (baseid ep + cids ep \<le> ix \<or> baseid ep > ix)
        then fillcache ix (ep, e) else (1, ep, e)) = (n, ep1, e1)" by (metis prod_cases3)
    have d: "tab_read ix (ep, e) = (if n < 1 then (None, ep1, e1)
        else (Some (let x = mark_fresh ep1 e1 (slot ep1 (if EFF_MEM \<in> flags ep1 then ix else ix - baseid ep1))
                    in case postread ep1 of None \<Rightarrow> x | Some f \<Rightarrow> f ix x), ep1, e1))"
      using c True unfolding tab_read_def prod.case f by (simp add: Let_def)
    have m: "cache_moved ep ep1 \<and> (n \<ge> 1 \<longrightarrow> in_cache ep1 ix) \<and> (EFF_MEM \<in> flags ep \<or> quiet e \<longrightarrow> n \<ge> 1 \<and> e1 = e)
        \<and> ef_generation e1 = ef_generation e"
    proof (cases "EFF_MEM \<notin> flags ep \<and> (baseid ep + cids ep \<le> ix \<or> baseid ep > ix)")
      case miss: True
      then show ?thesis using fillcache_moved [OF ok _ _ _, of ix e n ep1 e1] f True by auto
    next
      case hit: False
      then have "n = 1 \<and> ep1 = ep \<and> e1 = e" using f by auto
      then show ?thesis using hit True ok mem_in_cache [OF ok] by (auto simp: in_cache_def)
    qed
    note ep1 = cache_movedD [OF conjunct1 [OF m]]
    have sl: "slot ep1 (if EFF_MEM \<in> flags ep1 then ix else ix - baseid ep1) = contents ep ! nat ix" if "n \<ge> 1"
      using in_cache_slot(1) [OF ep1(1)] m that ep1(2,3) tab_ok_mem [OF ep1(1)] by auto
    have fr: "mark_fresh ep1 e1 x = mark_fresh ep e x" for x using m ep1(3) by (simp add: mark_fresh_def)
    have "r \<noteq> None \<longleftrightarrow> n \<ge> 1" "ep' = ep1" "e' = e1"
      "n \<ge> 1 \<Longrightarrow> r = Some (let y = mark_fresh ep e (contents ep ! nat ix) in case postread ep of None \<Rightarrow> y | Some f \<Rightarrow> f ix y)"
      using r sl fr ep1(8) unfolding d by (auto split: if_splits)
    then show ?thesis using m True by auto
  qed
  then show "cache_moved ep ep'"
    "r = Some x \<Longrightarrow> 0 \<le> ix \<and> ix < fids ep
      \<and> x = (let y = mark_fresh ep e (contents ep ! nat ix) in case postread ep of None \<Rightarrow> y | Some f \<Rightarrow> f ix y)"
    "0 \<le> ix \<Longrightarrow> ix < fids ep \<Longrightarrow> EFF_MEM \<in> flags ep \<or> quiet e \<Longrightarrow> r \<noteq> None \<and> e' = e"
    by blast+
qed

section \<open>Writing\<close>

text \<open>What \<open>do_write\<close> makes of one element.\<close>

definition stamp_time :: "'a empfile \<Rightarrow> env \<Rightarrow> int" where
  "stamp_time ep e = (if EFF_NOTIME \<in> flags ep then - 1 else time_now e)"

definition stamped :: "'a empfile \<Rightarrow> env \<Rightarrow> int \<Rightarrow> 'a elt \<Rightarrow> 'a elt" where
  "stamped ep e i x =
     (if EFF_TYPED \<in> flags ep
      then let x = x\<lparr>ef_type := ep_uid ep, uid := i\<rparr>
           in if stamp_time ep e \<noteq> - 1 then x\<lparr>timestamp := stamp_time ep e\<rparr> else x
      else x)"

definition stamp_all :: "'a empfile \<Rightarrow> env \<Rightarrow> int \<Rightarrow> 'a elt list \<Rightarrow> 'a elt list" where
  "stamp_all ep e i xs = map (\<lambda>k. stamped ep e (i + int k) (xs ! k)) [0..<length xs]"

lemma stamp_all_Nil [simp]: "stamp_all ep e i [] = []"
  by (simp add: stamp_all_def)

lemma length_stamp_all [simp]: "length (stamp_all ep e i xs) = length xs"
  by (simp add: stamp_all_def)

lemma stamp_all_Cons [simp]: "stamp_all ep e i (x # xs) = stamped ep e i x # stamp_all ep e (i + 1) xs"
proof -
  have "[0..<length (x # xs)] = 0 # map Suc [0..<length xs]" 
    unfolding map_Suc_upt by (simp add: upt_conv_Cons del: upt_Suc)
  then show ?thesis by (simp add: stamp_all_def algebra_simps)
qed

text \<open>The header of an element of a typed table.\<close>

definition header_ok :: "'a empfile \<Rightarrow> int \<Rightarrow> 'a elt \<Rightarrow> bool" where
  "header_ok ep i x \<longleftrightarrow> (EFF_TYPED \<in> flags ep \<longrightarrow> ef_type x = ep_uid ep \<and> uid x = i)"

lemma stamp_result:
  assumes "EFF_TYPED \<in> flags ep" "t = stamp_time ep e0" "stamp ep t i xs e = (ys, e')"
  shows "ys = stamp_all ep e0 i xs \<and> calls e' = calls e \<and> ef_generation e' = ef_generation e \<and> time_now e' = time_now e
    \<and> faults e \<le> faults e' \<and> ((\<forall>k < length xs. header_ok ep (i + int k) (xs ! k)) \<longrightarrow> e' = e)"
  using assms(3)
proof (induction xs arbitrary: i e e' ys)
  case (Cons x xs)
  define e1 where "e1 = cant_happen (uid x \<noteq> i) (cant_happen (ef_type x \<noteq> ep_uid ep) e)"
  obtain zs e2 where s: "stamp ep t (i + 1) xs e1 = (zs, e2)" by fastforce
  have x: "(let x = x\<lparr>ef_type := ep_uid ep\<rparr>; x = x\<lparr>uid := i\<rparr> in if t \<noteq> - 1 then x\<lparr>timestamp := t\<rparr> else x)
      = stamped ep e0 i x"
    using assms(1,2) by (simp add: stamped_def Let_def)
  have "ys = stamped ep e0 i x # zs \<and> e' = e2"
    using Cons.prems s x by (simp add: Let_def e1_def split: if_splits)
  moreover have "header_ok ep i x \<Longrightarrow> e1 = e"
    using assms(1) by (simp add: header_ok_def e1_def cant_happen_def)
  ultimately show ?case
    using Cons.IH [OF s] by (auto simp: e1_def nth_Cons algebra_simps split: nat.splits)
qed simp

lemma disk_put_inside:
  "0 \<le> ix \<Longrightarrow> ix \<le> int (length d) \<Longrightarrow> disk_put ix es d = take (nat ix) d @ es @ drop (nat ix + length es) d"
  by (simp add: disk_put_def)

lemma disk_put_nothing: "0 \<le> ix \<Longrightarrow> ix \<le> int (length d) \<Longrightarrow> disk_put ix [] d = d"
  by (simp add: disk_put_inside)

lemma disk_put_one: "0 \<le> ix \<Longrightarrow> ix < int (length d) \<Longrightarrow> disk_put ix [x] d = d[nat ix := x]"
  by (simp add: disk_put_inside upd_conv_take_nth_drop)

lemma do_write_result:
  assumes w: "do_write ix buf (ep, e) = (ok, ys, ep', e')" and fd: "fd ep" "0 \<le> ix"
  shows "ys = stamp_all ep e ix buf" (is ?ys)
    and "ok \<Longrightarrow> ep' = (if EFF_PRIVATE \<in> flags ep then ep else ep\<lparr>disk := disk_put ix ys (disk ep)\<rparr>)"
    and "\<not> ok \<Longrightarrow> \<exists>k < max 1 (length buf). ep' = ep \<or> ep' = ep\<lparr>disk := disk_put ix (take k ys) (disk ep)\<rparr>"
    and "quiet e \<Longrightarrow> ok \<and> quiet e'"
    and "ef_generation e' = ef_generation e \<and> time_now e' = time_now e \<and> faults e \<le> faults e'"
    and "\<forall>k < length buf. header_ok ep (ix + int k) (buf ! k) \<Longrightarrow> faults e' = faults e"
proof -
  obtain ys1 e1 where s: "(if EFF_TYPED \<in> flags ep then stamp ep (stamp_time ep e) ix buf e else (buf, e)) = (ys1, e1)"
    by fastforce
  have y: "ys1 = stamp_all ep e ix buf \<and> calls e1 = calls e \<and> ef_generation e1 = ef_generation e \<and> time_now e1 = time_now e
    \<and> faults e \<le> faults e1 \<and> ((\<forall>k < length buf. header_ok ep (ix + int k) (buf ! k)) \<longrightarrow> e1 = e)"
  proof (cases "EFF_TYPED \<in> flags ep")
    case True
    then have s': "stamp ep (stamp_time ep e) ix buf e = (ys1, e1)" using s by simp
    show ?thesis using stamp_result [OF True refl s'] by simp
  next
    case False
    then show ?thesis using s by (auto simp: stamp_all_def stamped_def map_nth)
  qed
  obtain r2 e2 where c2: "syscall e1 = (r2, e2)" by fastforce
  obtain r3 e3 where c3: "syscall e2 = (r3, e3)" by fastforce
  have d: "(ok, ys, ep', e') =
      (if EFF_PRIVATE \<in> flags ep then (True, ys1, ep, e1)
       else if r2 \<noteq> Done then (False, ys1, ep, e2)
       else case r3 of Done \<Rightarrow> (True, ys1, ep\<lparr>disk := disk_put ix ys1 (disk ep)\<rparr>, e3)
            | Fail k \<Rightarrow> (False, ys1, ep\<lparr>disk := disk_put ix (take (min k (length ys1 - 1)) ys1) (disk ep)\<rparr>, e3))"
    using w fd c2 c3 unfolding do_write_def stamp_time_def [symmetric] prod.case s
    by (cases "EFF_PRIVATE \<in> flags ep"; cases "r2 = Done"; cases r3) simp_all
  have l: "length ys1 = length buf" using y by simp
  show ?ys using d y by (auto split: if_splits outcome.splits)
  show "ep' = (if EFF_PRIVATE \<in> flags ep then ep else ep\<lparr>disk := disk_put ix ys (disk ep)\<rparr>)" if ok
    using d that by (auto split: if_splits outcome.splits)
  show "\<exists>k < max 1 (length buf). ep' = ep \<or> ep' = ep\<lparr>disk := disk_put ix (take k ys) (disk ep)\<rparr>" if "\<not> ok"
  proof (cases r3)
    case (Fail k)
    have "min k (length buf - 1) < max 1 (length buf)" by auto
    moreover have "ep' = ep \<or> ep' = ep\<lparr>disk := disk_put ix (take (min k (length buf - 1)) ys) (disk ep)\<rparr>"
      using d that l Fail by (auto split: if_splits)
    ultimately show ?thesis by blast
  next
    case Done
    then have "ep' = ep" using d that by (auto split: if_splits)
    then show ?thesis by (intro exI [of _ 0]) simp
  qed
  show "ok \<and> quiet e'" if "quiet e"
    using d y c2 c3 that by (auto simp: quiet_def syscall_def split: if_splits)
  show "ef_generation e' = ef_generation e \<and> time_now e' = time_now e \<and> faults e \<le> faults e'"
    using d y syscall_env [OF c2] syscall_env [OF c3] by (auto split: if_splits outcome.splits)
  show "faults e' = faults e" if "\<forall>k < length buf. header_ok ep (ix + int k) (buf ! k)"
    using d y that syscall_env [OF c2] syscall_env [OF c3] by (auto split: if_splits outcome.splits)
qed

lemma new_seqno_moved:
  assumes ok: "tab_ok ep" and f: "new_seqno x (ep, e) = (y, ep', e')" and q: "quiet e \<or> EFF_MEM \<in> flags ep"
    and u: "EFF_TYPED \<in> flags ep \<Longrightarrow> uid x = ix" "0 \<le> ix"
  shows "cache_moved ep ep'"
    and "y = (if EFF_TYPED \<in> flags ep
              then x\<lparr>seqno := (if ix < fids ep then seqno (contents ep ! nat ix) else 0) + 1\<rparr> else x)"
    and "e' = cant_happen (EFF_TYPED \<in> flags ep
            \<and> seqno x \<noteq> (if ix < fids ep then seqno (contents ep ! nat ix) else 0)) e"
proof -
  obtain s ep1 e1 where g: "get_seqno (uid x) (ep, e) = (s, ep1, e1)" by (metis prod_cases3)
  note m = get_seqno_moved [OF ok g]
  have "(y, ep', e') = (if EFF_TYPED \<notin> flags ep then (x, ep, e)
      else (x\<lparr>seqno := s + 1\<rparr>, ep1, cant_happen (s \<noteq> seqno x) e1))"
    using f by (cases "EFF_TYPED \<in> flags ep") (simp_all add: new_seqno_def g)
  then show "cache_moved ep ep'"
    "y = (if EFF_TYPED \<in> flags ep
              then x\<lparr>seqno := (if ix < fids ep then seqno (contents ep ! nat ix) else 0) + 1\<rparr> else x)"
    "e' = cant_happen (EFF_TYPED \<in> flags ep
            \<and> seqno x \<noteq> (if ix < fids ep then seqno (contents ep ! nat ix) else 0)) e"
    using m u q ok by (auto split: if_splits simp: cant_happen_def)
qed

text \<open>The element \<open>ef_write\<close> leaves in the table.\<close>

definition numbered :: "'a empfile \<Rightarrow> int \<Rightarrow> 'a elt \<Rightarrow> 'a elt" where
  "numbered ep ix x =
     (if EFF_TYPED \<in> flags ep then x\<lparr>seqno := (if ix < fids ep then seqno (contents ep ! nat ix) else 0) + 1\<rparr> else x)"

definition put_elt :: "'a::zero empfile \<Rightarrow> env \<Rightarrow> int \<Rightarrow> 'a elt \<Rightarrow> 'a elt" where
  "put_elt ep e ix x = (if fd ep then stamped ep e ix x else x)"

definition written :: "'a::zero empfile \<Rightarrow> env \<Rightarrow> int \<Rightarrow> 'a buffer \<Rightarrow> 'a elt" where
  "written ep e ix from = put_elt ep e ix (numbered ep ix (case from of Buf x \<Rightarrow> x | Slot \<Rightarrow> contents ep ! nat ix))"

definition from_elt :: "'a empfile \<Rightarrow> int \<Rightarrow> 'a buffer \<Rightarrow> 'a elt" where
  "from_elt ep ix from = (case from of Buf x \<Rightarrow> x | Slot \<Rightarrow> contents ep ! nat ix)"

text \<open>When \<open>ef_write\<close> accepts an element.\<close>

definition writable :: "'a empfile \<Rightarrow> int \<Rightarrow> 'a buffer \<Rightarrow> bool" where
  "writable ep ix from \<longleftrightarrow>
     (EFF_PRIVATE \<in> flags ep \<longrightarrow> EFF_MEM \<in> flags ep) \<and> 0 \<le> ix \<and> (0 \<le> nent ep \<longrightarrow> ix < nent ep)
     \<and> (ix < fids ep \<or> ix = fids ep \<and> EFF_MEM \<notin> flags ep)
     \<and> (from = Slot \<longrightarrow> EFF_MEM \<in> flags ep)
     \<and> (EFF_TYPED \<in> flags ep \<longrightarrow> uid (from_elt ep ix from) = ix)"

lemma writable_le: "writable ep ix from \<Longrightarrow> ix \<le> fids ep"
  unfolding writable_def by linarith

lemma set_slot_same: "slot ep i = x \<Longrightarrow> set_slot i x ep = ep"
  by (cases "cache ep") (auto simp: set_slot_def slot_def)

lemma set_slot_fields [simp]:
  "flags (set_slot i x ep) = flags ep" "fids (set_slot i x ep) = fids ep" "baseid (set_slot i x ep) = baseid ep"
  "cids (set_slot i x ep) = cids ep" "csize (set_slot i x ep) = csize ep" "disk (set_slot i x ep) = disk ep"
  "nent (set_slot i x ep) = nent ep" "fd (set_slot i x ep) = fd ep" "prewrite (set_slot i x ep) = prewrite ep"
  "ep_uid (set_slot i x ep) = ep_uid ep" "ep_base (set_slot i x ep) = ep_base ep" "in_cache (set_slot i x ep) j = in_cache ep j"
  "onresize (set_slot i x ep) = onresize ep" "resized (set_slot i x ep) = resized ep"
  by (simp_all add: set_slot_def in_cache_def)

lemma stamped_set_slot [simp]: "stamped (set_slot i x ep) e = stamped ep e"
  by (intro ext) (simp add: stamped_def stamp_time_def Let_def)

text \<open>Replacing the element shown in a slot, in the cache and, without \<open>EFF_MEM\<close>, in the file.\<close>

lemma set_slot_ok:
  assumes ok: "tab_ok ep" and i: "in_cache ep ix"
    and d: "EFF_MEM \<notin> flags ep \<Longrightarrow> dsk = (disk ep)[nat ix := x]"
  shows "tab_ok (set_slot (ix - baseid ep) x (ep\<lparr>disk := dsk\<rparr>))"
    and "contents (set_slot (ix - baseid ep) x (ep\<lparr>disk := dsk\<rparr>)) = (contents ep)[nat ix := x]"
proof -
  obtain c where c: "cache ep = Some c" "int (length c) = csize ep" "0 < csize ep" "0 \<le> baseid ep" "0 \<le> cids ep"
    "cids ep \<le> csize ep" "0 \<le> fids ep" "ep_base ep = EF_BAD"
    by (rule tab_okD [OF ok])
  have ix: "0 \<le> ix" "ix < fids ep" "baseid ep \<le> ix" "ix < baseid ep + cids ep"
    using in_cache_slot(2,3) [OF ok i] i by (auto simp: in_cache_def)
  let ?ep = "set_slot (ix - baseid ep) x (ep\<lparr>disk := dsk\<rparr>)"
  have sl: "slot ?ep j = (if j = ix - baseid ep then x else slot ep j)" if "0 \<le> j" "j < csize ep" for j
    using that c ix by (auto simp: slot_def set_slot_def nth_list_update)
  have cs: "cache ?ep = Some (c[nat (ix - baseid ep) := x])" using c(1) by (simp add: set_slot_def)
  show "tab_ok ?ep"
  proof (cases "EFF_MEM \<in> flags ep")
    case True
    have m: "baseid ep = 0" "cids ep = fids ep" "EFF_SENTINEL \<in> flags ep \<Longrightarrow> fids ep < csize ep \<and> slot ep (fids ep) = zero_elt"
      using ok True by (auto simp: tab_ok_def)
    have "slot ?ep (fids ep) = zero_elt" if "EFF_SENTINEL \<in> flags ep"
      using sl [of "fids ep"] m that ix c(7) by simp
    then show ?thesis using True m c cs unfolding tab_ok_def by auto
  next
    case False
    have m: "fd ep" "\<not> prewrite ep" "cids ep = 0 \<or> baseid ep + cids ep \<le> fids ep" "fids ep \<le> int (length (disk ep))"
      "\<And>j. 0 \<le> j \<Longrightarrow> j < cids ep \<Longrightarrow> slot ep j = disk ep ! nat (baseid ep + j)"
      using ok False by (auto simp: tab_ok_def)
    have "slot ?ep j = dsk ! nat (baseid ep + j)" if j: "0 \<le> j" "j < cids ep" for j
      using sl [of j] m(5) [OF j] j c(4,6) ix m(4) unfolding d [OF False] by (auto simp: nth_list_update nat_eq_iff)
    then show ?thesis using False m c cs d unfolding tab_ok_def by auto
  qed
  have "contents ?ep = take (nat (fids ep)) (if EFF_MEM \<in> flags ep then c[nat (ix - baseid ep) := x] else dsk)"
    by (simp add: contents_def cs)
  then show "contents ?ep = (contents ep)[nat ix := x]"
    using c(1) tab_ok_mem [OF ok] d ix by (cases "EFF_MEM \<in> flags ep") (auto simp: contents_def take_update_swap)
qed

lemma set_slot_twice [simp]: "set_slot i x (set_slot i y ep) = set_slot i x ep"
  by (cases "cache ep") (simp_all add: set_slot_def)

lemma set_slot_disk: "(set_slot i x ep)\<lparr>disk := d\<rparr> = set_slot i x (ep\<lparr>disk := d\<rparr>)"
  by (simp add: set_slot_def)

definition dput :: "'a::zero empfile \<Rightarrow> int \<Rightarrow> 'a elt \<Rightarrow> 'a elt list" where
  "dput ep ix x = (if fd ep \<and> EFF_PRIVATE \<notin> flags ep then disk_put ix [x] (disk ep) else disk ep)"

text \<open>Writing one element to the file, if there is one.\<close>

lemma write_one:
  assumes "quiet e" "0 \<le> ix"
  shows "\<exists>e'. (if fd ep then case do_write ix [x] (ep, e) of (ok, xs, t) \<Rightarrow> (ok, hd xs, t) else (True, x, ep, e))
      = (True, put_elt ep e ix x, ep\<lparr>disk := dput ep ix (put_elt ep e ix x)\<rparr>, e')
    \<and> quiet e' \<and> faults e \<le> faults e' \<and> (fd ep \<and> header_ok ep ix x \<or> \<not> fd ep \<longrightarrow> faults e' = faults e)"
proof (cases "fd ep")
  case True
  obtain ok ys ep' e' where w: "do_write ix [x] (ep, e) = (ok, ys, ep', e')" by (metis prod_cases4)
  note r = do_write_result [OF w True assms(2)]
  have "ok" "quiet e'" "ys = [stamped ep e ix x]" using r(1,4) assms(1) by simp_all
  moreover have "ep' = ep\<lparr>disk := dput ep ix (stamped ep e ix x)\<rparr>"
    using r(2) True calculation by (simp add: dput_def)
  ultimately show ?thesis using w True r(5,6) by (simp add: put_elt_def)
qed (use assms in \<open>simp add: put_elt_def dput_def\<close>)

lemma dput_set_slot [simp]: "dput (set_slot j x ep) i y = dput ep i y"
  by (simp add: dput_def)

lemma put_elt_set_slot [simp]: "put_elt (set_slot j x ep) e i y = put_elt ep e i y"
  by (simp add: put_elt_def)

lemma header_ok_set_slot [simp]: "header_ok (set_slot j x ep) i y = header_ok ep i y"
  by (simp add: header_ok_def)

lemma put_elt_cong:
  "flags ep' = flags ep \<Longrightarrow> fd ep' = fd ep \<Longrightarrow> ep_uid ep' = ep_uid ep \<Longrightarrow> time_now e' = time_now e
    \<Longrightarrow> put_elt ep' e' ix x = put_elt ep e ix x"
  by (simp add: put_elt_def stamped_def stamp_time_def Let_def)

lemma contents_disk_mem: "EFF_MEM \<in> flags ep \<Longrightarrow> contents (ep\<lparr>disk := d\<rparr>) = contents ep"
  by (simp add: contents_def)

lemma written_eq: "written ep e ix from = put_elt ep e ix (numbered ep ix (from_elt ep ix from))"
  by (simp add: written_def from_elt_def)

text \<open>The first part of \<open>ef_write\<close>: the element gets its number, in the slot if it is there, and the table grows if need be.\<close>

definition started :: "int \<Rightarrow> 'a elt \<Rightarrow> 'a buffer \<Rightarrow> 'a empfile \<Rightarrow> 'a empfile" where
  "started ix x from ep =
     (case from of
        Slot \<Rightarrow> set_slot ix x ep
      | Buf _ \<Rightarrow> if ix \<ge> fids ep then call_onresize (ep\<lparr>fids := ix + 1\<rparr>) else ep)"

definition now_in :: "'a buffer \<Rightarrow> 'a elt \<Rightarrow> 'a buffer" where
  "now_in from x = (case from of Buf _ \<Rightarrow> Buf x | Slot \<Rightarrow> Slot)"

lemma write_start:
  assumes w: "writable ep ix from" and ok: "tab_ok ep" and q: "quiet e"
  defines "x \<equiv> from_elt ep ix from"
  defines "stale \<equiv> EFF_TYPED \<in> flags ep \<and> seqno x \<noteq> (if ix < fids ep then seqno (contents ep ! nat ix) else 0)"
  obtains ep1 e1 where
    "tab_write_start ix from (ep, e) =
      ((Some (numbered ep ix x), now_in from (numbered ep ix x)), started ix (numbered ep ix x) from ep1, e1)"
    "cache_moved ep ep1" "quiet e1" "time_now e1 = time_now e" "faults e \<le> faults e1" "stale \<Longrightarrow> faults e < faults e1"
    "\<not> stale \<Longrightarrow> (EFF_TYPED \<in> flags ep \<longrightarrow> generation x = ucast (ef_generation e)) \<Longrightarrow> faults e1 = faults e"
proof -
  obtain x1 ep1 e1 where n: "new_seqno x (ep, e) = (x1, ep1, e1)" by (metis prod_cases3)
  have u: "EFF_TYPED \<in> flags ep \<Longrightarrow> uid x = ix" "0 \<le> ix" using w by (simp_all add: writable_def x_def)
  have nm: "cache_moved ep ep1" "e1 = cant_happen stale e" and x1: "x1 = numbered ep ix x"
    using new_seqno_moved [OF ok n disjI1 [OF q] u] by (simp_all add: stale_def numbered_def)
  note ep1 = cache_movedD [OF nm(1)]
  have q1: "quiet e1" "time_now e1 = time_now e" "ef_generation e1 = ef_generation e" unfolding nm(2) using q by simp_all
  have f1: "faults e1 = faults e + (if stale then 1 else 0)" unfolding nm(2) by (simp add: cant_happen_def)
  have g1: "EFF_TYPED \<in> flags ep \<Longrightarrow> generation x1 = generation x" unfolding x1 by (simp add: numbered_def)
  have no: "\<not> (EFF_PRIVATE \<in> flags ep \<and> EFF_MEM \<notin> flags ep)" "\<not> ix < 0" "\<not> (0 \<le> nent ep \<and> nent ep \<le> ix)"
    "\<not> (ix \<ge> fids ep1 \<and> (EFF_MEM \<in> flags ep1 \<or> ix > fids ep1))"
    using w unfolding writable_def ep1(3,4) by auto
  show thesis
  proof (cases "from")
    case (Buf x')
    then have x': "x' = x" by (simp add: x_def from_elt_def)
    let ?ep = "started ix x1 from ep1"
    have st: "(if ix \<ge> fids ep1 then call_onresize (ep1\<lparr>fids := ix + 1\<rparr>) else ep1) = ?ep" by (simp add: started_def Buf)
    define e2 where "e2 = (if in_cache ?ep ix then snd (must_be_fresh x1 (?ep, e1)) else e1)"
    have fr: "(if in_cache ?ep ix \<and> Buf x1 \<noteq> Slot then must_be_fresh x1 (?ep, e1) else (?ep, e1)) = (?ep, e2)"
      by (simp add: e2_def must_be_fresh_def)
    have fl: "flags ?ep = flags ep" using ep1(3) by (auto simp: started_def Buf call_onresize_def)
    have t: "tab_write_start ix from (ep, e) = ((Some x1, now_in from x1), ?ep, e2)"
      unfolding tab_write_start_def prod.case Let_def if_not_P [OF no(1)] if_not_P [OF no(2)] if_not_P [OF no(3)]
        buf_get_def buf_put_def Buf buffer.case x' n if_not_P [OF no(4)] st [unfolded Buf x'] fr [unfolded Buf x']
      by (simp add: now_in_def)
    show thesis
    proof (rule that [OF t [unfolded x1] nm(1)])
      show "quiet e2" "time_now e2 = time_now e" using q1 by (simp_all add: e2_def must_be_fresh_def)
      show "faults e \<le> faults e2" "stale \<Longrightarrow> faults e < faults e2" using f1 by (simp_all add: e2_def must_be_fresh_def cant_happen_def)
      show "faults e2 = faults e" if "\<not> stale" "EFF_TYPED \<in> flags ep \<longrightarrow> generation x = ucast (ef_generation e)"
        using that f1 g1 q1(3) by (auto simp: e2_def must_be_fresh_def cant_happen_def fl)
    qed
  next
    case Slot
    have mem: "EFF_MEM \<in> flags ep" "ix < fids ep" using w Slot by (auto simp: writable_def)
    have x: "slot ep ix = x"
      using mem u(2) mem_in_cache [OF ok] tab_ok_mem [OF ok] in_cache_slot(1) [OF ok, of ix] Slot by (simp add: x_def from_elt_def)
    have i: "in_cache ep1 ix" "\<not> fids ep1 \<le> ix" using mem u(2) ep1(3,4) mem_in_cache [OF ep1(1)] by simp_all
    have t: "tab_write_start ix from (ep, e) = ((Some x1, now_in from x1), started ix x1 from ep1, e1)"
      unfolding tab_write_start_def prod.case Let_def if_not_P [OF no(1)] if_not_P [OF no(2)] if_not_P [OF no(3)]
        buf_get_def buf_put_def Slot buffer.case x n
      using i by (simp add: now_in_def started_def)
    show thesis
      by (rule that [OF t [unfolded x1] nm(1)]) (use q1 f1 in simp_all)
  qed
qed

text \<open>The second part: the element is stamped and goes to the file, the buffer and the cache.\<close>

definition ended :: "int \<Rightarrow> bool \<Rightarrow> 'a::zero elt \<Rightarrow> 'a buffer \<Rightarrow> 'a empfile \<Rightarrow> 'a empfile" where
  "ended ix cached y from ep =
     (let ep = ep\<lparr>disk := dput ep ix y\<rparr>; ep = (case from of Slot \<Rightarrow> set_slot ix y ep | Buf _ \<Rightarrow> ep)
      in if cached then set_slot (ix - baseid ep) y ep else ep)"

lemma write_end:
  assumes q: "quiet e" and ix: "0 \<le> ix"
  obtains e' where "tab_write_end ix cached x from (ep, e) =
      ((True, now_in from (put_elt ep e ix x)), ended ix cached (put_elt ep e ix x) from ep, e')"
    "quiet e'" "faults e \<le> faults e'" "header_ok ep ix x \<Longrightarrow> faults e' = faults e"
proof -
  define ep1 where "ep1 = snd (buf_put ix x from ep)"
  have bp: "buf_put ix x from ep = (now_in from x, ep1)" by (cases "from") (simp_all add: buf_put_def ep1_def now_in_def)
  have e1: "fd ep1 = fd ep" "put_elt ep1 e ix x = put_elt ep e ix x" "dput ep1 ix z = dput ep ix z" "baseid ep1 = baseid ep"
    "header_ok ep1 ix x = header_ok ep ix x" for z
    by (cases "from"; simp add: ep1_def buf_put_def)+
  let ?y = "put_elt ep e ix x"
  obtain e' where e': "(if fd ep1 then case do_write ix [x] (ep1, e) of (ok, xs, t) \<Rightarrow> (ok, hd xs, t) else (True, x, ep1, e))
      = (True, ?y, ep1\<lparr>disk := dput ep ix ?y\<rparr>, e')" "quiet e'" "faults e \<le> faults e'"
    "header_ok ep ix x \<Longrightarrow> faults e' = faults e"
    using write_one [OF q ix, of ep1 x] unfolding e1 by auto
  have en: "snd (buf_put ix ?y (now_in from x) (ep1\<lparr>disk := dput ep ix ?y\<rparr>))
      = (case from of Slot \<Rightarrow> set_slot ix ?y (ep\<lparr>disk := dput ep ix ?y\<rparr>) | Buf _ \<Rightarrow> ep\<lparr>disk := dput ep ix ?y\<rparr>)"
    by (cases "from") (simp_all add: ep1_def buf_put_def now_in_def set_slot_disk)
  have bp2: "buf_put ix ?y (now_in from x) (ep1\<lparr>disk := dput ep ix ?y\<rparr>)
      = (now_in from ?y, case from of Slot \<Rightarrow> set_slot ix ?y (ep\<lparr>disk := dput ep ix ?y\<rparr>) | Buf _ \<Rightarrow> ep\<lparr>disk := dput ep ix ?y\<rparr>)"
    using en by (cases "from") (simp_all add: buf_put_def now_in_def)
  have "tab_write_end ix cached x from (ep, e) = ((True, now_in from ?y), ended ix cached ?y from ep, e')"
    unfolding tab_write_end_def prod.case bp Let_def e'(1) bp2 by (simp add: ended_def Let_def)
  then show thesis using that e' by blast
qed

text \<open>Writing to a table without a callback.\<close>

definition tab_write :: "int \<Rightarrow> 'a::zero buffer \<Rightarrow> 'a table \<Rightarrow> (bool \<times> 'a buffer) \<times> 'a table" where
  "tab_write ix from t =
     (case tab_write_start ix from t of
        ((None, from), t) \<Rightarrow> ((False, from), t)
      | ((Some x, from), t) \<Rightarrow> tab_write_end ix (in_cache (fst t) ix) x from t)"

lemma write_whole:
  assumes w: "writable ep ix from" and ok: "tab_ok ep" and q: "quiet e"
    and t: "tab_write ix from (ep, e) = ((r, from'), ep', e')"
  defines "x \<equiv> from_elt ep ix from"
  defines "stale \<equiv> EFF_TYPED \<in> flags ep \<and> seqno x \<noteq> (if ix < fids ep then seqno (contents ep ! nat ix) else 0)"
  obtains ep1 where "cache_moved ep ep1"
    "ep' = ended ix (in_cache (started ix (numbered ep ix x) from ep1) ix) (written ep e ix from) from
        (started ix (numbered ep ix x) from ep1)"
    "r" "from' = now_in from (written ep e ix from)" "quiet e'" "stale \<Longrightarrow> faults e < faults e'"
    "\<not> stale \<Longrightarrow> EFF_TYPED \<in> flags ep \<longrightarrow> generation x = ucast (ef_generation e) \<Longrightarrow> header_ok ep ix x \<Longrightarrow> faults e' = faults e"
proof -
  let ?x1 = "numbered ep ix x"
  obtain ep1 e1 where s: "tab_write_start ix from (ep, e) = ((Some ?x1, now_in from ?x1), started ix ?x1 from ep1, e1)"
    "cache_moved ep ep1" "quiet e1" "time_now e1 = time_now e" "faults e \<le> faults e1" "stale \<Longrightarrow> faults e < faults e1"
    "\<not> stale \<Longrightarrow> (EFF_TYPED \<in> flags ep \<longrightarrow> generation x = ucast (ef_generation e)) \<Longrightarrow> faults e1 = faults e"
    using write_start [OF w ok q] unfolding x_def stale_def by blast
  let ?ep = "started ix ?x1 from ep1"
  note ep1 = cache_movedD [OF s(2)]
  have f: "flags ?ep = flags ep" "fd ?ep = fd ep" "ep_uid ?ep = ep_uid ep"
    using ep1(3,9,10) by (auto simp: started_def call_onresize_def split: buffer.splits)
  have ix: "0 \<le> ix" using w by (simp add: writable_def)
  have y: "put_elt ?ep e1 ix ?x1 = written ep e ix from"
    using put_elt_cong [OF f s(4)] by (simp add: written_eq x_def)
  have nn: "now_in (now_in from a) b = now_in from b" "ended ix c b (now_in from a) h = ended ix c b from h" for a b c h
    by (cases "from"; simp add: now_in_def ended_def)+
  obtain e2 where e: "tab_write_end ix (in_cache ?ep ix) ?x1 (now_in from ?x1) (?ep, e1) =
      ((True, now_in from (written ep e ix from)), ended ix (in_cache ?ep ix) (written ep e ix from) from ?ep, e2)"
    "quiet e2" "faults e1 \<le> faults e2" "header_ok ?ep ix ?x1 \<Longrightarrow> faults e2 = faults e1"
    using write_end [OF s(3) ix, of "in_cache ?ep ix" ?x1 "now_in from ?x1" ?ep] unfolding y nn by metis
  have h: "header_ok ep ix x \<Longrightarrow> header_ok ?ep ix ?x1"
    unfolding header_ok_def f by (simp add: numbered_def)
  have "((r, from'), ep', e') = ((True, now_in from (written ep e ix from)), ended ix (in_cache ?ep ix) (written ep e ix from) from ?ep, e2)"
    using t s(1) e(1) by (simp add: tab_write_def)
  then have r: "r" "from' = now_in from (written ep e ix from)" "e' = e2"
    "ep' = ended ix (in_cache ?ep ix) (written ep e ix from) from ?ep" by simp_all
  show thesis
  proof (rule that [OF s(2) r(4,1,2)])
    show "quiet e'" "stale \<Longrightarrow> faults e < faults e'" using r(3) e(2,3) s(6) by simp_all
    show "faults e' = faults e" if "\<not> stale" "EFF_TYPED \<in> flags ep \<longrightarrow> generation x = ucast (ef_generation e)" "header_ok ep ix x"
      using r(3) e(4) [OF h [OF that(3)]] s(7) [OF that(1,2)] by simp
  qed
qed

text \<open>Writing an element that is not in the cache, in the file or at its end.\<close>

lemma uncached_put_ok:
  assumes ok: "tab_ok ep" and c: "\<not> in_cache ep ix" "EFF_MEM \<notin> flags ep" "0 \<le> ix" "ix \<le> fids ep"
    and ep': "flags ep' = flags ep" "cache ep' = cache ep" "csize ep' = csize ep" "baseid ep' = baseid ep"
      "cids ep' = cids ep" "fd ep' = fd ep" "prewrite ep' = prewrite ep" "ep_base ep' = ep_base ep"
      "fids ep' = max (fids ep) (ix + 1)" "disk ep' = disk_put ix [y] (disk ep)"
  shows "tab_ok ep'"
    and "contents ep' = (if ix < fids ep then (contents ep)[nat ix := y] else contents ep @ [y])"
proof -
  obtain cc where cc: "cache ep = Some cc" "int (length cc) = csize ep" "0 < csize ep" "0 \<le> baseid ep" "0 \<le> cids ep"
    "cids ep \<le> csize ep" "0 \<le> fids ep" "ep_base ep = EF_BAD"
    by (rule tab_okD [OF ok])
  have m: "fd ep" "\<not> prewrite ep" "cids ep = 0 \<or> baseid ep + cids ep \<le> fids ep" "fids ep \<le> int (length (disk ep))"
    "\<And>j. 0 \<le> j \<Longrightarrow> j < cids ep \<Longrightarrow> slot ep j = disk ep ! nat (baseid ep + j)"
    using ok c(2) by (auto simp: tab_ok_def)
  have d: "disk ep' = take (nat ix) (disk ep) @ y # drop (Suc (nat ix)) (disk ep)"
    using disk_put_inside [of ix "disk ep" "[y]"] c(3,4) m(4) ep'(10) by simp
  have l: "int (length (disk ep')) \<ge> fids ep'" using d c(3,4) m(4) ep'(9) by auto
  have nth: "disk ep' ! nat k = (if k = ix then y else disk ep ! nat k)" if "0 \<le> k" "k < fids ep'" for k
    using that c(3,4) m(4) ep'(9) unfolding d by (auto simp: nth_append nth_Cons' nat_eq_iff)
  have win: "slot ep' j = disk ep' ! nat (baseid ep' + j)" if j: "0 \<le> j" "j < cids ep'" for j
  proof -
    have "slot ep' j = slot ep j" using ep'(2) by (simp add: slot_def)
    moreover have "baseid ep + j \<noteq> ix" "baseid ep + j < fids ep'" using j c(1) m(3) ep'(5,9) by (auto simp: in_cache_def)
    ultimately show ?thesis using nth [of "baseid ep + j"] m(5) [of j] j cc(4) ep'(4,5) by simp
  qed
  show "tab_ok ep'"
  proof -
    have "cids ep' = 0 \<or> baseid ep' + cids ep' \<le> fids ep'" using m(3) ep'(4,5,9) by linarith
    moreover have "ep_base ep' = EF_BAD" "\<exists>c. cache ep' = Some c \<and> int (length c) = csize ep' \<and> 0 < csize ep'"
      "0 \<le> baseid ep'" "0 \<le> cids ep'" "cids ep' \<le> csize ep'" "0 \<le> fids ep'" "EFF_MEM \<notin> flags ep'" "fd ep'" "\<not> prewrite ep'"
      using cc m(1,2) c(2-4) ep'(1-9) by simp_all
    ultimately show ?thesis unfolding tab_ok_def using l win by blast
  qed
  have lc: "length (contents ep) = nat (fids ep)" using length_contents [OF ok] by simp
  show "contents ep' = (if ix < fids ep then (contents ep)[nat ix := y] else contents ep @ [y])"
  proof (rule nth_equalityI)
    have "length (contents ep') = nat (fids ep')" using l c(2) ep'(1) by (simp add: contents_def)
    then show "length (contents ep') = length (if ix < fids ep then (contents ep)[nat ix := y] else contents ep @ [y])"
      unfolding ep'(9) using lc c(3,4) by (cases "ix < fids ep") simp_all
    fix i assume "i < length (contents ep')"
    then have i: "int i < fids ep'" by (auto simp: contents_def)
    have "contents ep' ! i = (if int i = ix then y else disk ep ! i)"
      using nth [of "int i"] i c(2) ep'(1) by (simp add: contents_def)
    moreover have "contents ep ! i = disk ep ! i" if "int i < fids ep" using that c(2) by (simp add: contents_def)
    ultimately show "contents ep' ! i = (if ix < fids ep then (contents ep)[nat ix := y] else contents ep @ [y]) ! i"
      using i c(3,4) ep'(9) lc by (auto simp: nth_append nth_list_update)
  qed
qed

text \<open>What is in the table when both parts are done.\<close>

lemma ended_result:
  fixes x y :: "'a::zero elt"
  assumes ok: "tab_ok ep" and w: "writable ep ix from" and m: "cache_moved ep ep1"
  defines "ep2 \<equiv> started ix x from ep1"
  defines "ep' \<equiv> ended ix (in_cache ep2 ix) y from ep2"
  shows "tab_ok ep'" and "contents ep' = (if ix < fids ep then (contents ep)[nat ix := y] else contents ep @ [y])"
    and "flags ep' = flags ep" and "nent ep' = nent ep" and "prewrite ep' = prewrite ep" and "fids ep' = max (fids ep) (ix + 1)"
    and "disk ep' = (if fd ep \<and> EFF_PRIVATE \<notin> flags ep then disk_put ix [y] (disk ep) else disk ep)"
proof -
  note ep1 = cache_movedD [OF m]
  have ix: "0 \<le> ix" "ix \<le> fids ep" using w writable_le [OF w] by (simp_all add: writable_def)
  have "from = Slot \<Longrightarrow> ix < fids ep1" using w ep1(4) by (auto simp: writable_def)
  then have f2: "flags ep2 = flags ep" "fd ep2 = fd ep" "prewrite ep2 = prewrite ep" "nent ep2 = nent ep" "disk ep2 = disk ep"
    "baseid ep2 = baseid ep1" "in_cache ep2 ix = in_cache ep1 ix" "fids ep2 = max (fids ep) (ix + 1)"
    "cids ep2 = cids ep1" "csize ep2 = csize ep1" "ep_base ep2 = ep_base ep1"
    unfolding ep1(3-7,9,15) [symmetric]
    by (cases "from"; simp add: ep2_def started_def call_onresize_def in_cache_def max_def)+
  have "flags ep' = flags ep2" "nent ep' = nent ep2" "prewrite ep' = prewrite ep2" "fids ep' = fids ep2" "disk ep' = dput ep2 ix y"
    unfolding ep'_def ended_def Let_def by (cases "from"; simp)+
  then show fl: "flags ep' = flags ep" "nent ep' = nent ep" "prewrite ep' = prewrite ep" "fids ep' = max (fids ep) (ix + 1)"
    and "disk ep' = (if fd ep \<and> EFF_PRIVATE \<notin> flags ep then disk_put ix [y] (disk ep) else disk ep)"
    using f2 by (simp_all add: dput_def)
  have d: "dput ep2 ix y = dput ep1 ix y" using f2 ep1 by (simp add: dput_def)
  have both: "tab_ok ep' \<and> contents ep' = (if ix < fids ep then (contents ep)[nat ix := y] else contents ep @ [y])"
  proof (cases "in_cache ep1 ix")
    case True
    have lt: "ix < fids ep1" by (rule in_cache_slot(3) [OF ep1(1) True])
    have b: "from = Slot \<Longrightarrow> baseid ep1 = 0" using w ep1(3) tab_ok_mem [OF ep1(1)] by (auto simp: writable_def)
    have e: "ep' = set_slot (ix - baseid ep1) y (ep1\<lparr>disk := dput ep1 ix y\<rparr>)"
    proof (cases "from")
      case Slot
      then show ?thesis using b True by (simp add: ep'_def ended_def ep2_def started_def Let_def set_slot_disk)
    next
      case (Buf z)
      then have "ep2 = ep1" using lt by (simp add: ep2_def started_def)
      then show ?thesis using True Buf by (simp add: ep'_def ended_def Let_def)
    qed
    have "dput ep1 ix y = (disk ep1)[nat ix := y]" if "EFF_MEM \<notin> flags ep1"
      using that ep1(1) lt ix w ep1(3) by (auto simp: dput_def tab_ok_def writable_def disk_put_one)
    note so = set_slot_ok [OF ep1(1) True this]
    show ?thesis unfolding e using so lt ep1(2,4) by simp
  next
    case False
    have mem: "EFF_MEM \<notin> flags ep" using mem_in_cache [OF ep1(1)] ep1 w False by (auto simp: writable_def)
    then obtain z where buf: "from = Buf z" using w by (cases "from") (auto simp: writable_def)
    have e: "ep' = ep2\<lparr>disk := dput ep2 ix y\<rparr>" using False f2 buf by (simp add: ep'_def ended_def Let_def)
    have "fd ep" "EFF_PRIVATE \<notin> flags ep" using ok w mem by (simp_all add: tab_ok_def writable_def)
    then have dk: "disk (ep2\<lparr>disk := dput ep2 ix y\<rparr>) = disk_put ix [y] (disk ep1)" using f2 ep1(5) by (simp add: dput_def)
    have le: "ix \<le> fids ep1" "EFF_MEM \<notin> flags ep1" using ix ep1(3,4) mem by simp_all
    have ca: "cache ep2 = cache ep1" by (auto simp: ep2_def started_def buf call_onresize_def)
    have "tab_ok (ep2\<lparr>disk := dput ep2 ix y\<rparr>)"
      "contents (ep2\<lparr>disk := dput ep2 ix y\<rparr>) = (if ix < fids ep1 then (contents ep1)[nat ix := y] else contents ep1 @ [y])"
      by (rule uncached_put_ok [OF ep1(1) False le(2) ix(1) le(1) _ _ _ _ _ _ _ _ _ dk]; simp add: f2 ca ep1(3,4,7,9))+
    then show ?thesis unfolding e using ep1(2,4) by simp
  qed
  then show "tab_ok ep'" and "contents ep' = (if ix < fids ep then (contents ep)[nat ix := y] else contents ep @ [y])" by blast+
qed

lemma tab_write_result:
  assumes ok: "tab_ok ep" and w: "writable ep ix from" and q: "quiet e"
    and t: "tab_write ix from (ep, e) = ((r, from'), ep', e')"
  shows "r \<and> tab_ok ep' \<and> quiet e' \<and> (from' = (case from of Buf _ \<Rightarrow> Buf (written ep e ix from) | Slot \<Rightarrow> Slot))
    \<and> contents ep' = (if ix < fids ep then (contents ep)[nat ix := written ep e ix from]
                      else contents ep @ [written ep e ix from])
    \<and> flags ep' = flags ep \<and> nent ep' = nent ep \<and> prewrite ep' = prewrite ep \<and> fids ep' = max (fids ep) (ix + 1)
    \<and> disk ep' = (if fd ep \<and> EFF_PRIVATE \<notin> flags ep then disk_put ix [written ep e ix from] (disk ep) else disk ep)"
proof -
  obtain ep1 where m: "cache_moved ep ep1"
    "ep' = ended ix (in_cache (started ix (numbered ep ix (from_elt ep ix from)) from ep1) ix) (written ep e ix from) from
        (started ix (numbered ep ix (from_elt ep ix from)) from ep1)"
    "r" "from' = now_in from (written ep e ix from)" "quiet e'"
    using write_whole [OF w ok q t] by metis
  show ?thesis
    using ended_result [OF ok w m(1), of "numbered ep ix (from_elt ep ix from)" "written ep e ix from", folded m(2)] m(3-5)
    by (simp add: now_in_def)
qed

section \<open>Extending, truncating, flushing\<close>

text \<open>The elements \<open>do_extend\<close> adds.\<close>

definition new_elts :: "'a::zero empfile \<Rightarrow> env \<Rightarrow> int \<Rightarrow> nat \<Rightarrow> 'a elt list" where
  "new_elts ep e ix n = map (\<lambda>k. put_elt ep e (ix + int k) (blank ep (ix + int k))) [0..<n]"

lemma length_new_elts [simp]: "length (new_elts ep e ix n) = n"
  by (simp add: new_elts_def)

lemma new_elts_0 [simp]: "new_elts ep e ix 0 = []"
  by (simp add: new_elts_def)

lemma new_elts_Suc: "new_elts ep e ix (Suc n) = put_elt ep e ix (blank ep ix) # new_elts ep e (ix + 1) n"
proof -
  have "[0..<Suc n] = 0 # map Suc [0..<n]" unfolding map_Suc_upt by (simp add: upt_conv_Cons del: upt_Suc)
  then show ?thesis by (simp add: new_elts_def algebra_simps del: upt_Suc)
qed

lemma blank_cong:
  "flags ep' = flags ep \<Longrightarrow> ep_uid ep' = ep_uid ep \<Longrightarrow> oninit ep' = oninit ep \<Longrightarrow> blank ep' = blank ep"
  by (intro ext) (simp add: blank_def)

lemma new_elts_cong:
  assumes "flags ep' = flags ep" "ep_uid ep' = ep_uid ep" "oninit ep' = oninit ep" "fd ep' = fd ep"
    "time_now e' = time_now e"
  shows "new_elts ep' e' = new_elts ep e"
  by (intro ext) (simp add: new_elts_def blank_cong [OF assms(1-3)] put_elt_cong [OF assms(1,4,2,5)])

lemma extend_file_result:
  assumes "fd ep" "EFF_PRIVATE \<notin> flags ep" "cache ep = Some c" "0 \<le> cids ep" "nat (cids ep) < length c"
    "0 \<le> ix" "ix \<le> int (length (disk ep))" "quiet e"
  shows "\<exists>c' e'. extend_file ix n (ep, e) = (True, ep\<lparr>cache := Some c',
        disk := take (nat ix) (disk ep) @ new_elts ep e ix n @ drop (nat ix + n) (disk ep)\<rparr>, e')
      \<and> quiet e' \<and> length c' = length c \<and> take (nat (cids ep)) c' = take (nat (cids ep)) c"
  using assms
proof (induction n arbitrary: ix ep e c)
  case 0
  have "ep\<lparr>cache := Some c, disk := take (nat ix) (disk ep) @ new_elts ep e ix 0 @ drop (nat ix + 0) (disk ep)\<rparr> = ep"
    using "0.prems"(3) by simp
  then show ?case using "0.prems"(8) by (intro exI [of _ c] exI [of _ e]) simp
next
  case (Suc n)
  let ?x = "blank ep ix"
  obtain ok xs ep1 e1 where w: "do_write ix [?x] (set_slot (cids ep) ?x ep, e) = (ok, xs, ep1, e1)"
    by (metis prod_cases4)
  let ?y = "put_elt ep e ix ?x"
  have "fd (set_slot (cids ep) ?x ep)" using Suc.prems(1) by simp
  note r = do_write_result [OF w this Suc.prems(6)]
  have ok: ok "quiet e1" "time_now e1 = time_now e" using r(4,5) Suc.prems(8) by simp_all
  have xs: "xs = [?y]" using r(1) Suc.prems(1) by (simp add: put_elt_def)
  have ep1: "ep1 = set_slot (cids ep) ?x ep\<lparr>disk := disk_put ix [?y] (disk ep)\<rparr>"
    using r(2) [OF ok(1)] Suc.prems(2) xs by simp
  define ep2 where "ep2 = ep\<lparr>cache := Some (c[nat (cids ep) := ?y]), disk := disk_put ix [?y] (disk ep)\<rparr>"
  have ep2: "set_slot (cids ep1) (hd xs) ep1 = ep2"
    using Suc.prems(3) unfolding ep1 xs ep2_def by (simp add: set_slot_def)
  have d: "disk_put ix [?y] (disk ep) = take (nat ix) (disk ep) @ ?y # drop (Suc (nat ix)) (disk ep)"
    using disk_put_inside [of ix "disk ep" "[?y]"] Suc.prems(6,7) by simp
  have l: "nat ix \<le> length (disk ep)" "nat (ix + 1) = Suc (nat ix)" using Suc.prems(6,7) by auto
  have go: "extend_file ix (Suc n) (ep, e) = extend_file (ix + 1) n (ep2, e1)"
    using w ok(1) ep2 by (simp add: Let_def)
  have "\<exists>c' e'. extend_file (ix + 1) n (ep2, e1) = (True, ep2\<lparr>cache := Some c',
        disk := take (nat (ix + 1)) (disk ep2) @ new_elts ep2 e1 (ix + 1) n @ drop (nat (ix + 1) + n) (disk ep2)\<rparr>, e')
      \<and> quiet e' \<and> length c' = length (c[nat (cids ep) := ?y])
      \<and> take (nat (cids ep2)) c' = take (nat (cids ep2)) (c[nat (cids ep) := ?y])"
    by (rule Suc.IH) (use Suc.prems ok l in \<open>simp_all add: ep2_def d\<close>)
  then obtain c' e' where ce: "extend_file (ix + 1) n (ep2, e1) = (True, ep2\<lparr>cache := Some c',
        disk := take (nat (ix + 1)) (disk ep2) @ new_elts ep2 e1 (ix + 1) n @ drop (nat (ix + 1) + n) (disk ep2)\<rparr>, e')"
      "quiet e'" "length c' = length c" "take (nat (cids ep)) c' = take (nat (cids ep)) c"
    by (auto simp: ep2_def)
  have ne: "new_elts ep2 e1 (ix + 1) n = new_elts ep e (ix + 1) n"
  proof -
    have "new_elts ep2 e1 = new_elts ep e" by (rule new_elts_cong) (simp_all add: ep2_def ok(3))
    then show ?thesis by simp
  qed
  have "take (nat (ix + 1)) (disk ep2) @ new_elts ep2 e1 (ix + 1) n @ drop (nat (ix + 1) + n) (disk ep2)
      = take (nat ix) (disk ep) @ new_elts ep e ix (Suc n) @ drop (nat ix + Suc n) (disk ep)"
    using l unfolding ne by (simp add: ep2_def d new_elts_Suc add.commute)
  then have "extend_file ix (Suc n) (ep, e) = (True, ep\<lparr>cache := Some c',
      disk := take (nat ix) (disk ep) @ new_elts ep e ix (Suc n) @ drop (nat ix + Suc n) (disk ep)\<rparr>, e')"
    unfolding go ce(1) by (simp add: ep2_def)
  then show ?case using ce(2-4) by blast
qed

lemma realloc_quiet:
  assumes "cache ep = Some c" "EFF_STATIC \<notin> flags ep" "quiet e" "0 \<le> n"
  shows "\<exists>c'. ef_realloc_cache n (ep, e) = (True, ep\<lparr>cache := Some c', csize := max 1 n\<rparr>, e)
    \<and> int (length c') = max 1 n \<and> (\<forall>k. int k \<le> n \<longrightarrow> k \<le> length c \<longrightarrow> take k c' = take k c)"
proof -
  let ?n = "max 1 n"
  have "ef_realloc_cache n (ep, e) = (True, ep\<lparr>cache := Some (take (nat ?n) c @ replicate (nat ?n - length c) zero_elt), csize := ?n\<rparr>, e)"
    using assms by (cases "n = 0") (auto simp: ef_realloc_cache_def cant_happen_def max_def)
  then show ?thesis using assms(4)
    by (intro exI [of _ "take (nat ?n) c @ replicate (nat ?n - length c) zero_elt"]) auto
qed

text \<open>What \<open>do_extend\<close> needs: a static cache must have room.\<close>

definition sentinel :: "'a empfile \<Rightarrow> int" where
  "sentinel ep = (if EFF_SENTINEL \<in> flags ep then 1 else 0)"

definition extendable :: "'a empfile \<Rightarrow> int \<Rightarrow> bool" where
  "extendable ep count \<longleftrightarrow> 0 \<le> count \<and> (EFF_MEM \<notin> flags ep \<longrightarrow> EFF_PRIVATE \<notin> flags ep)
     \<and> (EFF_STATIC \<in> flags ep \<longrightarrow> EFF_MEM \<in> flags ep \<longrightarrow> fids ep + count + sentinel ep \<le> csize ep)"

lemma do_extend_mem:
  assumes ok: "tab_ok ep" and x: "extendable ep count" "EFF_MEM \<in> flags ep" and q: "quiet e"
  shows "\<exists>ep' e'. do_extend count (ep, e) = (True, ep', e') \<and> tab_ok ep' \<and> quiet e'
    \<and> contents ep' = contents ep @ new_elts ep e (fids ep) (nat count)
    \<and> resized ep' = resized ep \<and> onresize ep' = onresize ep \<and> fids ep' = fids ep + count
    \<and> flags ep' = flags ep \<and> nent ep' = nent ep"
proof -
  obtain c where c: "cache ep = Some c" "int (length c) = csize ep" "0 < csize ep" "0 \<le> fids ep" "ep_base ep = EF_BAD"
    by (rule tab_okD [OF ok])
  have m: "baseid ep = 0" "cids ep = fids ep" "fids ep \<le> csize ep" using tab_ok_mem [OF ok x(2)] by auto
  have cnt: "0 \<le> count" "0 \<le> sentinel ep" "sentinel ep = 0 \<or> sentinel ep = 1" using x(1) by (auto simp: extendable_def sentinel_def)
  let ?need = "fids ep + count + sentinel ep"
  have "\<exists>c1 n1. (if ?need > csize ep then if EFF_STATIC \<in> flags ep then (False, ep, e) else ef_realloc_cache ?need (ep, e)
      else (True, ep, e)) = (True, ep\<lparr>cache := Some c1, csize := n1\<rparr>, e)
      \<and> int (length c1) = n1 \<and> ?need \<le> n1 \<and> 0 < n1 \<and> take (nat (fids ep)) c1 = take (nat (fids ep)) c"
  proof (cases "?need > csize ep")
    case True
    then have ns: "EFF_STATIC \<notin> flags ep" using x by (auto simp: extendable_def)
    have "0 \<le> ?need" using c(4) cnt by simp
    from realloc_quiet [OF c(1) ns q this] obtain c1 where
      r: "ef_realloc_cache ?need (ep, e) = (True, ep\<lparr>cache := Some c1, csize := max 1 ?need\<rparr>, e)"
        "int (length c1) = max 1 ?need" "\<forall>k. int k \<le> ?need \<longrightarrow> k \<le> length c \<longrightarrow> take k c1 = take k c" by blast
    have "int (nat (fids ep)) \<le> ?need" "nat (fids ep) \<le> length c" using c m cnt by auto
    then have "take (nat (fids ep)) c1 = take (nat (fids ep)) c" using r(3) by blast
    then show ?thesis using True ns r by (intro exI [of _ c1] exI [of _ "max 1 ?need"]) simp
  next
    case False
    have "ep\<lparr>cache := Some c, csize := csize ep\<rparr> = ep" using c(1) by simp
    then show ?thesis using False c by (intro exI [of _ c] exI [of _ "csize ep"]) simp
  qed
  then obtain c1 n1 where room: "(if ?need > csize ep then if EFF_STATIC \<in> flags ep then (False, ep, e) else ef_realloc_cache ?need (ep, e)
      else (True, ep, e)) = (True, ep\<lparr>cache := Some c1, csize := n1\<rparr>, e)"
    and c1: "int (length c1) = n1" "?need \<le> n1" "0 < n1" "take (nat (fids ep)) c1 = take (nat (fids ep)) c" by blast
  define ep1 where "ep1 = ep\<lparr>cache := Some c1, csize := n1\<rparr>"
  define xs where "xs = do_blank ep1 (fids ep) count"
  define ep2 where "ep2 = put_slots (fids ep) xs ep1"
  have lxs: "length xs = nat count" by (simp add: xs_def do_blank_def)
  define ys where "ys = new_elts ep e (fids ep) (nat count)"
  have bl: "blank ep1 = blank ep" by (rule blank_cong) (simp_all add: ep1_def)
  have xk: "xs ! k = blank ep (fids ep + int k)" if "k < nat count" for k
    using that by (simp add: xs_def do_blank_def bl)
  obtain ok' zs ep3 e3 where w: "(if fd ep2 then do_write (fids ep) xs (ep2, e) else (True, xs, ep2, e)) = (ok', zs, ep3, e3)"
    by (metis prod_cases4)
  have f2: "flags ep2 = flags ep" "fd ep2 = fd ep" "ep_uid ep2 = ep_uid ep" by (simp_all add: ep2_def put_slots_def ep1_def)
  have r: "ok' \<and> zs = ys \<and> quiet e3 \<and> (\<exists>d. ep3 = ep2\<lparr>disk := d\<rparr>)"
  proof (cases "fd ep")
    case True
    have w': "do_write (fids ep) xs (ep2, e) = (ok', zs, ep3, e3)" using w True f2 by simp
    note dw = do_write_result [OF w' _ c(4)]
    have "fd ep2" using True f2 by simp
    note dw = dw [OF this]
    have "put_elt ep2 e = put_elt ep e" by (intro ext) (simp add: put_elt_cong [OF f2 refl])
    then have "stamped ep2 e j z = put_elt ep e j z" for j z using True f2(2) by (metis put_elt_def)
    then have "zs = ys" using dw(1) lxs xk
      by (auto simp: stamp_all_def ys_def new_elts_def intro!: nth_equalityI)
    moreover have "\<exists>d. ep3 = ep2\<lparr>disk := d\<rparr>"
    proof (cases "EFF_PRIVATE \<in> flags ep2")
      case True
      then have "ep3 = ep2\<lparr>disk := disk ep2\<rparr>" using dw(2,4) q by simp
      then show ?thesis by blast
    qed (use dw(2,4) q in auto)
    ultimately show ?thesis using dw(4) [OF q] by blast
  next
    case False
    then have "ok' \<and> zs = xs \<and> e3 = e \<and> ep3 = ep2\<lparr>disk := disk ep2\<rparr>" using w f2 by simp
    moreover have "xs = ys" using False xk lxs
      by (auto simp: ys_def new_elts_def put_elt_def intro!: nth_equalityI)
    ultimately show ?thesis using q by blast
  qed
  then obtain d where ep3: "ep3 = ep2\<lparr>disk := d\<rparr>" "ok'" "zs = ys" "quiet e3" by blast
  define c3 where "c3 = take (nat (fids ep)) c @ ys @ drop (nat (fids ep) + nat count) c1"
  have l1: "nat (fids ep) \<le> length c" "nat (fids ep) + nat count + nat (sentinel ep) \<le> length c1"
    using c m c1 cnt by linarith+
  have ly: "length ys = nat count" by (simp add: ys_def)
  have c3: "length c3 = length c1" "take (nat (fids ep + count)) c3 = take (nat (fids ep)) c @ ys"
    using l1 ly c(4) cnt(1) by (simp_all add: c3_def nat_add_distrib)
  have "put_slots (fids ep) ys ep3 = ep1\<lparr>cache := Some c3, disk := d\<rparr>"
    using l1 ly lxs c1(4) by (simp add: ep3 ep2_def put_slots_def ep1_def c3_def)
  then have p: "put_slots (fids ep) zs ep3 = ep1\<lparr>cache := Some c3, disk := d\<rparr>" using ep3 by simp
  define c4 where "c4 = (if sentinel ep = 1 then c3[nat (fids ep + count) := zero_elt] else c3)"
  define ep4 where "ep4 = ep1\<lparr>cache := Some c4, disk := d\<rparr>"
  have s: "(if sentinel ep = 1 then set_slot (fids ep + count) zero_elt (put_slots (fids ep) zs ep3) else put_slots (fids ep) zs ep3) = ep4"
    unfolding p by (simp add: ep4_def c4_def set_slot_def)
  define ep5 where "ep5 = ep4\<lparr>cids := fids ep + count, fids := fids ep + count\<rparr>"
  have no: "\<not> (ep_base ep \<noteq> EF_BAD \<or> count < 0)" using c cnt by simp
  have go: "do_extend count (ep, e) = (True, ep5, e3)"
    unfolding do_extend_def prod.case if_not_P [OF no] if_P [OF x(2)] Let_def sentinel_def [symmetric] room
      ep1_def [symmetric] xs_def [symmetric] ep2_def [symmetric] w
    using ep3(2) s by (simp add: ep5_def)
  have c4: "length c4 = length c1" "take (nat (fids ep + count)) c4 = contents ep @ ys"
    using c3 c x(2) by (simp_all add: c4_def contents_def)
  have "slot ep5 (fids ep + count) = zero_elt" if "EFF_SENTINEL \<in> flags ep"
  proof -
    have "sentinel ep = 1" using that by (simp add: sentinel_def)
    moreover have "nat (fids ep + count) < length c3" using l1 c3(1) calculation c(4) cnt by (simp add: nat_add_distrib)
    ultimately show ?thesis by (simp add: ep5_def ep4_def slot_def c4_def)
  qed
  then have "tab_ok ep5"
    using c c1 c4 m cnt x(2) by (auto simp: tab_ok_def ep5_def ep4_def ep1_def sentinel_def)
  moreover have "contents ep5 = contents ep @ ys"
    using c4(2) x(2) by (simp add: contents_def ep5_def ep4_def ep1_def)
  ultimately show ?thesis using go ep3(4) by (auto simp: ep5_def ep4_def ep1_def ys_def)
qed

lemma do_extend_file:
  assumes ok: "tab_ok ep" and x: "extendable ep count" "EFF_MEM \<notin> flags ep" and q: "quiet e"
  shows "\<exists>ep' e'. do_extend count (ep, e) = (True, ep', e') \<and> tab_ok ep' \<and> quiet e'
    \<and> contents ep' = contents ep @ new_elts ep e (fids ep) (nat count)
    \<and> resized ep' = resized ep \<and> onresize ep' = onresize ep \<and> fids ep' = fids ep + count
    \<and> flags ep' = flags ep \<and> nent ep' = nent ep"
proof -
  obtain c where c: "cache ep = Some c" "int (length c) = csize ep" "0 < csize ep" "0 \<le> baseid ep" "0 \<le> cids ep"
    "cids ep \<le> csize ep" "0 \<le> fids ep" "ep_base ep = EF_BAD"
    by (rule tab_okD [OF ok])
  have m: "fd ep" "\<not> prewrite ep" "cids ep = 0 \<or> baseid ep + cids ep \<le> fids ep" "fids ep \<le> int (length (disk ep))"
    "\<And>j. 0 \<le> j \<Longrightarrow> j < cids ep \<Longrightarrow> slot ep j = disk ep ! nat (baseid ep + j)"
    using ok x(2) by (auto simp: tab_ok_def)
  have cnt: "0 \<le> count" "EFF_PRIVATE \<notin> flags ep" using x by (auto simp: extendable_def)
  define k where "k = (if cids ep = csize ep then cids ep - 1 else cids ep)"
  have k: "0 \<le> k" "k < csize ep" "k \<le> cids ep" using c by (auto simp: k_def)
  define ep1 where "ep1 = ep\<lparr>cids := k\<rparr>"
  have e1: "(if cids ep = csize ep then ep\<lparr>cids := cids ep - 1\<rparr> else ep) = ep1" by (simp add: ep1_def k_def)
  let ?new = "new_elts ep e (fids ep) (nat count)"
  have "\<exists>c' e'. extend_file (fids ep) (nat count) (ep1, e) = (True, ep1\<lparr>cache := Some c',
        disk := take (nat (fids ep)) (disk ep1) @ new_elts ep1 e (fids ep) (nat count)
          @ drop (nat (fids ep) + nat count) (disk ep1)\<rparr>, e')
      \<and> quiet e' \<and> length c' = length c \<and> take (nat (cids ep1)) c' = take (nat (cids ep1)) c"
    by (rule extend_file_result) (use c m cnt k q in \<open>auto simp: ep1_def\<close>)
  moreover have "new_elts ep1 e = new_elts ep e" by (rule new_elts_cong) (simp_all add: ep1_def)
  ultimately obtain c' e' where r: "extend_file (fids ep) (nat count) (ep1, e) = (True, ep1\<lparr>cache := Some c',
        disk := take (nat (fids ep)) (disk ep) @ ?new @ drop (nat (fids ep) + nat count) (disk ep)\<rparr>, e')"
      "quiet e'" "length c' = length c" "take (nat k) c' = take (nat k) c"
    by (auto simp: ep1_def)
  define ep2 where "ep2 = ep1\<lparr>cache := Some c', disk := take (nat (fids ep)) (disk ep) @ ?new
      @ drop (nat (fids ep) + nat count) (disk ep), fids := fids ep + count\<rparr>"
  have no: "\<not> (ep_base ep \<noteq> EF_BAD \<or> count < 0)" using c cnt by simp
  have go: "do_extend count (ep, e) = (True, ep2, e')"
    unfolding do_extend_def prod.case if_not_P [OF no] if_not_P [OF x(2)] Let_def e1 r(1) by (simp add: ep2_def)
  have l: "nat (fids ep) \<le> length (disk ep)" using m(4) by simp
  have sl: "slot ep2 j = disk ep2 ! nat (baseid ep2 + j)" if j: "0 \<le> j" "j < cids ep2" for j
  proof -
    have jk: "nat j < nat k" "j < cids ep" "nat (baseid ep + j) < nat (fids ep)"
      using j m(3) k c(4,7) by (auto simp: ep2_def ep1_def)
    have "c' ! nat j = c ! nat j" using r(4) jk(1) by (metis nth_take)
    then have "slot ep2 j = slot ep j" using c(1) by (simp add: ep2_def ep1_def slot_def)
    moreover have "disk ep2 ! nat (baseid ep2 + j) = disk ep ! nat (baseid ep + j)"
      using jk l by (simp add: ep2_def ep1_def nth_append)
    ultimately show ?thesis using m(5) j(1) jk(2) by simp
  qed
  have "tab_ok ep2"
    using c m cnt k r(3) l sl x(2) unfolding tab_ok_def by (auto simp: ep2_def ep1_def)
  moreover have "contents ep2 = contents ep @ ?new"
    using x(2) l c(7) cnt by (simp add: contents_def ep2_def ep1_def nat_add_distrib)
  ultimately show ?thesis using go r(2) by (auto simp: ep2_def ep1_def)
qed

lemma call_onresize_simps [simp]:
  "tab_ok (call_onresize ep) = tab_ok ep" "contents (call_onresize ep) = contents ep" "fids (call_onresize ep) = fids ep"
  "resized (call_onresize ep) = resized ep + (if onresize ep then 1 else 0)" "flags (call_onresize ep) = flags ep"
  "disk (call_onresize ep) = disk ep" "nent (call_onresize ep) = nent ep" "fd (call_onresize ep) = fd ep"
  by (simp_all add: call_onresize_def tab_ok_def contents_def slot_def)

lemma tab_extend_result:
  assumes "tab_ok ep" "extendable ep count" "quiet e" "nent ep < 0"
  shows "\<exists>ep' e'. tab_extend count (ep, e) = (True, ep', e') \<and> tab_ok ep' \<and> quiet e'
    \<and> contents ep' = contents ep @ new_elts ep e (fids ep) (nat count)
    \<and> resized ep' = resized ep + (if onresize ep then 1 else 0) \<and> fids ep' = fids ep + count
    \<and> flags ep' = flags ep \<and> nent ep' = nent ep"
proof -
  obtain ep1 e1 where x: "do_extend count (ep, e) = (True, ep1, e1)" "tab_ok ep1" "quiet e1"
    "contents ep1 = contents ep @ new_elts ep e (fids ep) (nat count)" "resized ep1 = resized ep"
    "onresize ep1 = onresize ep" "fids ep1 = fids ep + count" "flags ep1 = flags ep" "nent ep1 = nent ep"
    using do_extend_mem [OF assms(1,2) _ assms(3)] do_extend_file [OF assms(1,2) _ assms(3)] by blast
  have "tab_extend count (ep, e) = (True, call_onresize ep1, e1)"
    using assms(4) by (simp add: tab_extend_def x(1))
  then show ?thesis using x by auto
qed

lemma tab_truncate_result:
  assumes ok: "tab_ok ep" and q: "quiet e" and n: "nent ep < 0" "0 \<le> count" "count \<le> fids ep"
    and s: "EFF_SENTINEL \<in> flags ep \<Longrightarrow> EFF_MEM \<in> flags ep"
    and p: "EFF_MEM \<notin> flags ep \<Longrightarrow> EFF_PRIVATE \<notin> flags ep"
  shows "\<exists>ep' e'. tab_truncate count (ep, e) = (True, ep', e') \<and> tab_ok ep' \<and> quiet e'
    \<and> contents ep' = take (nat count) (contents ep) \<and> resized ep' = resized ep + (if onresize ep then 1 else 0)
    \<and> fids ep' = count"
proof -
  obtain c where c: "cache ep = Some c" "int (length c) = csize ep" "0 < csize ep" "0 \<le> baseid ep" "0 \<le> cids ep"
    "cids ep \<le> csize ep" "0 \<le> fids ep" "ep_base ep = EF_BAD"
    by (rule tab_okD [OF ok])
  have base: "\<not> ep_base ep \<noteq> EF_BAD" using c by simp
  have nent: "\<not> nent ep \<ge> 0" "\<not> (count < 0 \<or> count > fids ep)" using n by auto
  define ep1 where "ep1 = (if fd ep \<and> EFF_PRIVATE \<notin> flags ep
                      then ep\<lparr>disk := disk_put count [] (take (nat count) (disk ep)), disk_rest := 0\<rparr> else ep)\<lparr>fids := count\<rparr>"
  have sys: "(if fd ep \<and> EFF_PRIVATE \<notin> flags ep then syscall e else (Done, e)) = (Done, e)" using q by simp
  have f1: "cache ep1 = cache ep" "csize ep1 = csize ep" "flags ep1 = flags ep" "fids ep1 = count" "baseid ep1 = baseid ep"
    "cids ep1 = cids ep" "fd ep1 = fd ep" "prewrite ep1 = prewrite ep" "ep_base ep1 = ep_base ep" "resized ep1 = resized ep"
    "onresize ep1 = onresize ep" "slot ep1 = slot ep"
    by (auto simp: ep1_def slot_def)
  show ?thesis
  proof (cases "EFF_MEM \<in> flags ep")
    case False
    have m: "fd ep" "\<not> prewrite ep" "cids ep = 0 \<or> baseid ep + cids ep \<le> fids ep" "fids ep \<le> int (length (disk ep))"
      "\<And>j. 0 \<le> j \<Longrightarrow> j < cids ep \<Longrightarrow> slot ep j = disk ep ! nat (baseid ep + j)"
      using ok False by (auto simp: tab_ok_def)
    have d1: "disk ep1 = take (nat count) (disk ep)"
      using m(1,4) p [OF False] n by (auto simp: ep1_def disk_put_def min_def)
    define k where "k = (if baseid ep \<ge> count then 0 else min (cids ep) (count - baseid ep))"
    have k: "0 \<le> k" "k \<le> cids ep" "k = 0 \<or> baseid ep + k \<le> count" using c by (auto simp: k_def)
    define ep2 where "ep2 = ep1\<lparr>cids := k\<rparr>"
    have cut: "(if EFF_MEM \<in> flags ep1 then X else if baseid ep1 \<ge> count then (ep1\<lparr>cids := 0\<rparr>, e)
                   else if cids ep1 > count - baseid ep1 then (ep1\<lparr>cids := count - baseid ep1\<rparr>, e)
                   else (ep1, e)) = (ep2, e)" for X
      using False f1 by (auto simp: ep2_def k_def min_def)
    have go: "tab_truncate count (ep, e) = (True, call_onresize ep2, e)"
      unfolding tab_truncate_def prod.case if_not_P [OF base] if_not_P [OF nent(1)] if_not_P [OF nent(2)] sys Let_def
        ep1_def [symmetric] cut by simp
    have l1: "int (length (disk ep1)) = count" using d1 m(4) n by simp
    have sl: "slot ep2 j = disk ep2 ! nat (baseid ep2 + j)" if j: "0 \<le> j" "j < cids ep2" for j
    proof -
      have "j < cids ep" "nat (baseid ep + j) < nat count" using j k c(4) by (auto simp: ep2_def)
      then show ?thesis using m(5) [of j] j d1 f1 by (simp add: ep2_def slot_def)
    qed
    have "tab_ok ep2"
      using c m k n f1 l1 sl False unfolding tab_ok_def by (auto simp: ep2_def)
    moreover have "contents ep2 = take (nat count) (contents ep)"
      using False f1 d1 n by (simp add: contents_def ep2_def min_def)
    ultimately show ?thesis using go q f1 by (simp add: ep2_def)
  next
    case True
    have m: "baseid ep = 0" "cids ep = fids ep" "fids ep \<le> csize ep" "EFF_SENTINEL \<in> flags ep \<Longrightarrow> fids ep < csize ep"
      using ok True by (auto simp: tab_ok_def)
    have cnt: "0 \<le> count + sentinel ep" "sentinel ep = 0 \<or> sentinel ep = 1" using n by (auto simp: sentinel_def)
    have ccap: "count + sentinel ep \<le> csize ep" using m n by (auto simp: sentinel_def)
    have "\<exists>c1 n1. (if EFF_STATIC \<notin> flags ep1 then snd (ef_realloc_cache (count + sentinel ep) (ep1, e)) else (ep1, e))
        = (ep1\<lparr>cache := Some c1, csize := n1\<rparr>, e)
        \<and> int (length c1) = n1 \<and> count + sentinel ep \<le> n1 \<and> 0 < n1 \<and> take (nat count) c1 = take (nat count) c"
    proof (cases "EFF_STATIC \<in> flags ep1")
      case False
      have "cache ep1 = Some c" using c f1 by simp
      from realloc_quiet [OF this False q cnt(1)] obtain c1 where
        r: "ef_realloc_cache (count + sentinel ep) (ep1, e) = (True, ep1\<lparr>cache := Some c1, csize := max 1 (count + sentinel ep)\<rparr>, e)"
          "int (length c1) = max 1 (count + sentinel ep)"
          "\<forall>k. int k \<le> count + sentinel ep \<longrightarrow> k \<le> length c \<longrightarrow> take k c1 = take k c" by blast
      have "int (nat count) \<le> count + sentinel ep" "nat count \<le> length c" using n m cnt c by auto
      then have "take (nat count) c1 = take (nat count) c" using r(3) by blast
      then show ?thesis using False r by (intro exI [of _ c1] exI [of _ "max 1 (count + sentinel ep)"]) simp
    next
      case True
      have "ep1\<lparr>cache := Some c, csize := csize ep\<rparr> = ep1" using c(1) f1 by simp
      then show ?thesis using True c ccap by (intro exI [of _ c] exI [of _ "csize ep"]) simp
    qed
    then obtain c1 n1 where r: "(if EFF_STATIC \<notin> flags ep1 then snd (ef_realloc_cache (count + sentinel ep) (ep1, e)) else (ep1, e))
        = (ep1\<lparr>cache := Some c1, csize := n1\<rparr>, e)"
      and c1: "int (length c1) = n1" "count + sentinel ep \<le> n1" "0 < n1" "take (nat count) c1 = take (nat count) c" by blast
    define c2 where "c2 = (if sentinel ep = 1 then c1[nat count := zero_elt] else c1)"
    define ep2 where "ep2 = ep1\<lparr>cache := Some c2, csize := n1, cids := count\<rparr>"
    have st: "(if sentinel ep = 1 then set_slot count zero_elt (ep1\<lparr>cache := Some c1, csize := n1\<rparr>)
        else ep1\<lparr>cache := Some c1, csize := n1\<rparr>)\<lparr>cids := count\<rparr> = ep2"
      by (simp add: ep2_def c2_def set_slot_def)
    have s1: "(if EFF_SENTINEL \<in> flags ep1 then 1 else 0) = sentinel ep" using f1 by (simp add: sentinel_def)
    have mem1: "EFF_MEM \<in> flags ep1" using True f1 by simp
    have go: "tab_truncate count (ep, e) = (True, call_onresize ep2, e)"
      unfolding tab_truncate_def prod.case if_not_P [OF base] if_not_P [OF nent(1)] if_not_P [OF nent(2)] sys Let_def
        ep1_def [symmetric] if_P [OF mem1] s1 r using st by simp
    have c2: "length c2 = length c1" "take (nat count) c2 = take (nat count) c" using c1 by (simp_all add: c2_def)
    have "slot ep2 count = zero_elt" if "EFF_SENTINEL \<in> flags ep"
    proof -
      have "sentinel ep = 1" "nat count < length c1" using that c1(1,2) n by (auto simp: sentinel_def)
      then show ?thesis by (simp add: ep2_def slot_def c2_def)
    qed
    moreover have F: "ep_base ep2 = EF_BAD" "cache ep2 = Some c2" "csize ep2 = n1" "baseid ep2 = 0" "cids ep2 = count"
      "fids ep2 = count" "flags ep2 = flags ep" using c(8) m(1) by (simp_all add: ep2_def f1)
    moreover have "int (length c2) = n1" "EFF_SENTINEL \<in> flags ep \<Longrightarrow> count < n1" "count \<le> n1"
      using c1 c2(1) by (auto simp: sentinel_def split: if_splits)
    ultimately have "tab_ok ep2"
      using True n c1(3) unfolding tab_ok_def F by simp
    moreover have "contents ep2 = take (nat count) (contents ep)"
      using True f1 c2 c n by (simp add: contents_def ep2_def min_def)
    ultimately show ?thesis using go q f1 by (simp add: ep2_def)
  qed
qed

lemma tab_flush_mem:
  assumes ok: "tab_ok ep" and f: "EFF_MEM \<in> flags ep" "EFF_PRIVATE \<notin> flags ep" "fd ep" and q: "quiet e"
    and d: "int (length (disk ep)) \<le> fids ep"
  shows "\<exists>ep' e' c'. tab_flush (ep, e) = (True, ep', e') \<and> quiet e' \<and> time_now e' = time_now e
    \<and> ep' = ep\<lparr>cache := Some c', disk := stamp_all ep e 0 (contents ep)\<rparr> \<and> int (length c') = csize ep"
proof -
  obtain c where c: "cache ep = Some c" "int (length c) = csize ep" "0 \<le> fids ep" by (rule tab_okD [OF ok])
  have m: "baseid ep = 0" "cids ep = fids ep" "fids ep \<le> csize ep" using tab_ok_mem [OF ok f(1)] by auto
  have buf: "take (nat (cids ep)) (the (cache ep)) = contents ep" using f m by (simp add: contents_def)
  have l: "int (length (contents ep)) = fids ep" by (rule length_contents [OF ok])
  obtain ok' ys ep1 e1 where w: "do_write 0 (contents ep) (ep, e) = (ok', ys, ep1, e1)" by (metis prod_cases4)
  note r = do_write_result [OF w f(3) order_refl]
  have r': "ok'" "quiet e1" "ys = stamp_all ep e 0 (contents ep)" "time_now e1 = time_now e" using r(1,4,5) q by simp_all
  have "disk_put 0 ys (disk ep) = ys" using d l r'(3) by (simp add: disk_put_def)
  then have ep1: "ep1 = ep\<lparr>disk := ys\<rparr>" using r(2) r'(1) f by simp
  let ?c = "ys @ drop (length ys) c"
  have "put_slots 0 ys ep1 = ep\<lparr>cache := Some ?c, disk := ys\<rparr>" using c ep1 by (simp add: put_slots_def)
  then have "tab_flush (ep, e) = (True, ep\<lparr>cache := Some ?c, disk := ys\<rparr>, e1)"
    unfolding tab_flush_def prod.case m(1) buf w if_P [OF f(1)] if_not_P [OF f(2)] using f(3) r'(1) by simp
  moreover have "int (length ?c) = csize ep" using l m c r'(3) by simp
  ultimately show ?thesis using r' by blast
qed

lemma tab_close_open:
  assumes ok: "tab_ok ep" and f: "EFF_MEM \<in> flags ep" "EFF_PRIVATE \<notin> flags ep" "fd ep" "ep_file ep" "EFF_SENTINEL \<notin> flags ep"
    and q: "quiet e" and d: "int (length (disk ep)) \<le> fids ep" "disk_rest ep = 0" and n: "nent ep < 0 \<or> nent ep = fids ep"
  shows "\<exists>ep1 e1 ep2 e2. tab_close (ep, e) = (True, ep1, e1) \<and> cids ep1 = 0 \<and> fids ep1 = 0
    \<and> tab_open {EFF_MEM} (ep1, e1) = (True, ep2, e2) \<and> tab_ok ep2
    \<and> contents ep2 = stamp_all ep e 0 (contents ep)"
proof -
  obtain c where c: "cache ep = Some c" "int (length c) = csize ep" "0 < csize ep" "0 \<le> fids ep" "ep_base ep = EF_BAD"
    by (rule tab_okD [OF ok])
  have m: "fids ep \<le> csize ep" using tab_ok_mem [OF ok f(1)] by auto
  let ?es = "stamp_all ep e 0 (contents ep)"
  have l: "int (length ?es) = fids ep" using length_contents [OF ok] by simp
  obtain e1 c1 where fl: "tab_flush (ep, e) = (True, ep\<lparr>cache := Some c1, disk := ?es\<rparr>, e1)" "quiet e1"
    "int (length c1) = csize ep"
    using tab_flush_mem [OF ok f(1-3) q d(1)] by blast
  define ep0 where "ep0 = ep\<lparr>cache := (if EFF_STATIC \<in> flags ep then Some c1 else None),
    csize := (if EFF_STATIC \<in> flags ep then csize ep else 0), disk := ?es, fd := False,
    flags := flags ep \<inter> EFF_IMMUTABLE, baseid := 0, cids := 0, fids := 0\<rparr>"
  define ep1 where "ep1 = call_onresize ep0"
  have close: "tab_close (ep, e) = (True, ep1, e1)"
    using c(5) fl by (cases "EFF_STATIC \<in> flags ep") (simp_all add: tab_close_def ep1_def ep0_def call_onresize_def)
  have g: "flags ep1 = flags ep \<inter> EFF_IMMUTABLE" "ep_file ep1" "ep_base ep1 = EF_BAD" "\<not> fd ep1" "disk ep1 = ?es"
    "disk_rest ep1 = 0" "nent ep1 = nent ep" "cids ep1 = 0" "fids ep1 = 0" "prewrite ep1 = prewrite ep"
    "cache ep1 = (if EFF_STATIC \<in> flags ep then Some c1 else None)" "csize ep1 = (if EFF_STATIC \<in> flags ep then csize ep else 0)"
    using f c(5) d(2) by (simp_all add: ep1_def ep0_def call_onresize_def)
  have stat: "EFF_STATIC \<in> flags ep1 \<longleftrightarrow> EFF_STATIC \<in> flags ep" using g(1) by (auto simp: EFF_IMMUTABLE_def)
  have fe: "file_elts {EFF_MEM} ep1 = Some (fids ep)"
    using n l g by (auto simp: file_elts_def)
  have "\<exists>c2 n2. map_file {EFF_MEM} (fids ep) (ep1, e1) = (True, ep1\<lparr>cache := Some c2, csize := n2\<rparr>, e1)
      \<and> int (length c2) = n2 \<and> fids ep \<le> n2 \<and> 0 < n2"
  proof (cases "EFF_STATIC \<in> flags ep")
    case True
    have "ep1\<lparr>cache := Some c1, csize := csize ep\<rparr> = ep1" using True g(11,12) by (simp add: ep1_def ep0_def call_onresize_def)
    then show ?thesis using True stat g(12) m c fl(3)
      by (intro exI [of _ c1] exI [of _ "csize ep"]) (simp add: map_file_def)
  next
    case False
    let ?n = "max 1 (fids ep)"
    have "ef_realloc_cache (fids ep) (ep1, e1) = (True, ep1\<lparr>cache := Some (replicate (nat ?n) zero_elt), csize := ?n\<rparr>, e1)"
      using False stat g(11) c(4) fl(2) by (cases "fids ep = 0") (auto simp: ef_realloc_cache_def cant_happen_def max_def Let_def)
    then show ?thesis using False stat g(11)
      by (intro exI [of _ "replicate (nat ?n) zero_elt"] exI [of _ ?n]) (auto simp: map_file_def cant_happen_def max_def)
  qed
  then obtain c2 n2 where mf: "map_file {EFF_MEM} (fids ep) (ep1, e1) = (True, ep1\<lparr>cache := Some c2, csize := n2\<rparr>, e1)"
    and c2: "int (length c2) = n2" "fids ep \<le> n2" "0 < n2" by blast
  define ep2 where "ep2 = ep1\<lparr>cache := Some c2, csize := n2, baseid := 0, cids := 0,
    flags := (flags ep1 \<inter> EFF_IMMUTABLE) \<union> {EFF_MEM}, fd := True, fids := fids ep\<rparr>"
  define ep3 where "ep3 = ep2\<lparr>cache := Some (?es @ drop (length ?es) c2), cids := fids ep\<rparr>"
  have fill: "(if EFF_MEM \<in> {EFF_MEM} \<and> fids ep \<noteq> 0 then let (r, t) = fillcache 0 (ep2, e1) in (r = fids ep, t)
      else (True, ep2, e1)) = (True, ep3, e1)"
  proof (cases "fids ep = 0")
    case True
    then have "ep3 = ep2" using l by (simp add: ep3_def ep2_def)
    then show ?thesis using True by simp
  next
    case False
    have "do_read 0 (fids ep) (ep2, e1) = (Some ?es, e1)"
      using fl(2) c(4) l g(5) by (simp add: do_read_def ep2_def)
    moreover have "min (csize ep2) (fids ep2 - 0) = fids ep" using c2 by (simp add: ep2_def)
    ultimately have "fillcache 0 (ep2, e1) = (fids ep, ep3, e1)"
      using l by (simp add: fillcache_def ep3_def ep2_def)
    then show ?thesis using False by simp
  qed
  have how: "{EFF_MEM} - EFF_IMMUTABLE = {EFF_MEM}" "{EFF_MEM} \<inter> EFF_IMMUTABLE = {}" "{EFF_MEM} - {EFF_CREATE} = {EFF_MEM}"
    by (auto simp: EFF_IMMUTABLE_def)
  have ol: "open_locked {EFF_MEM} (ep1, e1) = (True, ep1, e1)" using fl(2) by (simp add: open_locked_def)
  have e2: "ep1\<lparr>cache := Some c2, csize := n2\<rparr>\<lparr>baseid := 0, cids := 0,
      flags := (flags (ep1\<lparr>cache := Some c2, csize := n2\<rparr>) \<inter> EFF_IMMUTABLE) \<union> {EFF_MEM}, fd := True\<rparr>\<lparr>fids := fids ep\<rparr> = ep2"
    by (simp add: ep2_def)
  have ch: "cant_happen ({} \<noteq> ({} :: eff set)) e1 = e1" by (simp add: cant_happen_def)
  have no: "\<not> (\<not> ep_file ep1 \<or> ep_base ep1 \<noteq> EF_BAD \<or> fd ep1)" "\<not> (prewrite ep1 \<and> EFF_MEM \<notin> {EFF_MEM})"
    "EFF_CREATE \<notin> {EFF_MEM}" using g by simp_all
  have open_ok: "tab_open {EFF_MEM} (ep1, e1) = (True, call_onresize ep3, e1)"
    unfolding tab_open_def prod.case Let_def how ch if_not_P [OF no(1)] if_not_P [OF no(2)] ol bool.case fe option.case mf if_not_P [OF no(3)]
      e2 fill [unfolded Let_def] by simp
  have fl3: "flags ep3 = (flags ep \<inter> EFF_IMMUTABLE) \<union> {EFF_MEM}" using g(1) by (auto simp: ep3_def ep2_def)
  have mem3: "EFF_MEM \<in> flags ep3" "EFF_SENTINEL \<notin> flags ep3" using f(5) unfolding fl3 by auto
  have "tab_ok ep3"
    using c c2 l g mem3 by (auto simp: tab_ok_def ep3_def ep2_def)
  moreover have "contents ep3 = ?es" using mem3 l by (simp add: contents_def ep3_def ep2_def)
  ultimately have "tab_ok (call_onresize ep3)" "contents (call_onresize ep3) = ?es" by simp_all
  then show ?thesis using close open_ok g(8,9) by blast
qed

section \<open>Detecting lost updates\<close>

lemma tab_write_faults:
  assumes ok: "tab_ok ep" and w: "writable ep ix (Buf x)" and q: "quiet e" and ty: "EFF_TYPED \<in> flags ep"
    and t: "tab_write ix (Buf x) (ep, e) = ((r, from'), ep', e')"
  shows "seqno x \<noteq> (if ix < fids ep then seqno (contents ep ! nat ix) else 0) \<Longrightarrow> faults e < faults e'"
    and "seqno x = (if ix < fids ep then seqno (contents ep ! nat ix) else 0) \<Longrightarrow> generation x = ucast (ef_generation e)
      \<Longrightarrow> ef_type x = ep_uid ep \<Longrightarrow> faults e' = faults e"
proof -
  have x: "from_elt ep ix (Buf x) = x" "uid x = ix" using w ty by (simp_all add: from_elt_def writable_def)
  show "seqno x \<noteq> (if ix < fids ep then seqno (contents ep ! nat ix) else 0) \<Longrightarrow> faults e < faults e'"
    using write_whole [OF w ok q t] ty x by metis
  assume a: "seqno x = (if ix < fids ep then seqno (contents ep ! nat ix) else 0)" "generation x = ucast (ef_generation e)"
    "ef_type x = ep_uid ep"
  then have "header_ok ep ix x" using x(2) by (simp add: header_ok_def)
  then show "faults e' = faults e" using write_whole [OF w ok q t] a x(1) by metis
qed

section \<open>Growing to a given size\<close>

lemma on_table_ok [simp]:
  "ef_check type \<Longrightarrow> on_table type bad f d =
     (case f (empfile d type, sys d) of (r, ep, e) \<Rightarrow> (r, d\<lparr>empfile := (empfile d)(type := ep), sys := e\<rparr>))"
  by (simp add: on_table_def)

text \<open>A table that can grow, with fixed flags and table number.\<close>

definition growing :: "'a::zero empfile \<Rightarrow> bool" where
  "growing ep \<longleftrightarrow> tab_ok ep \<and> nent ep < 0 \<and> EFF_STATIC \<notin> flags ep
     \<and> (EFF_MEM \<notin> flags ep \<longrightarrow> EFF_PRIVATE \<notin> flags ep)"

lemma ensure_loop_ends:
  assumes "ef_check type" "growing (empfile d type)" "quiet (sys d)" "0 < count"
  shows "\<exists>d'. ensure_loop type ix count d = Some (True, d') \<and> ix < fids (empfile d' type)
    \<and> growing (empfile d' type) \<and> (\<exists>xs. contents (empfile d' type) = contents (empfile d type) @ xs)
    \<and> (\<forall>t. t \<noteq> type \<longrightarrow> empfile d' t = empfile d t)"
  using assms
proof (induction "nat (ix + 1 - fids (empfile d type))" arbitrary: d rule: less_induct)
  case less
  let ?ep = "empfile d type"
  show ?case
  proof (cases "ix \<ge> fids ?ep")
    case False
    then show ?thesis using less.prems by (subst ensure_loop.simps) simp
  next
    case True
    have g: "tab_ok ?ep" "nent ?ep < 0" "extendable ?ep count"
      using less.prems(2,4) by (auto simp: growing_def extendable_def)
    obtain ep' e' where x: "tab_extend count (?ep, sys d) = (True, ep', e')" "tab_ok ep'" "quiet e'"
      "contents ep' = contents ?ep @ new_elts ?ep (sys d) (fids ?ep) (nat count)" "fids ep' = fids ?ep + count"
      "flags ep' = flags ?ep" "nent ep' = nent ?ep"
      using tab_extend_result [OF g(1,3) less.prems(3) g(2)] by blast
    define d1 where "d1 = d\<lparr>empfile := (empfile d)(type := ep'), sys := e'\<rparr>"
    have d1: "ef_extend type count d = (True, d1)" using less.prems(1) x(1) by (simp add: ef_extend_def d1_def)
    have e1: "empfile d1 type = ep'" "sys d1 = e'" "\<forall>t. t \<noteq> type \<longrightarrow> empfile d1 t = empfile d t" by (simp_all add: d1_def)
    have g1: "growing (empfile d1 type)" using less.prems(2) x e1 by (simp add: growing_def)
    have "nat (ix + 1 - fids (empfile d1 type)) < nat (ix + 1 - fids ?ep)"
      using True less.prems(4) e1 x(5) by simp
    moreover have "quiet (sys d1)" using e1(2) x(3) by simp
    ultimately obtain d' where d': "ensure_loop type ix count d1 = Some (True, d')" "ix < fids (empfile d' type)"
      "growing (empfile d' type)" "\<exists>xs. contents (empfile d' type) = contents (empfile d1 type) @ xs"
      "\<forall>t. t \<noteq> type \<longrightarrow> empfile d' t = empfile d1 t"
      using less.hyps [of d1] less.prems(1,4) g1 by blast
    have "ensure_loop type ix count d = Some (True, d')"
      using True d1 d'(1) by (subst ensure_loop.simps) simp
    moreover have "\<exists>xs. contents (empfile d' type) = contents ?ep @ xs" using d'(4) x(4) e1(1) by auto
    ultimately show ?thesis using d' e1(3) by auto
  qed
qed

section \<open>Two failures that lose data\<close>

text \<open>
  With \<open>O_TRUNC\<close> the file is emptied before \<open>fcntl\<close> is asked for the lock, so creating a table whose
  file another process has locked fails, and destroys it.
\<close>

lemma create_clobbers_locked_file:
  assumes "ep_file ep" "ep_base ep = EF_BAD" "\<not> fd ep" "\<not> prewrite ep" "calls e = [Done, Fail k]"
  shows "\<exists>e'. tab_open {EFF_CREATE} (ep, e) = (False, ep\<lparr>disk := [], disk_rest := 0\<rparr>, e')"
  using assms
  by (simp add: tab_open_def open_locked_def syscall_def EFF_IMMUTABLE_def cant_happen_def)

text \<open>
  \<open>ef_write\<close> at the end of a table counts the new element before it writes it: when that fails, the
  table has an element that is not in its file.
\<close>

lemma failed_append_is_counted:
  assumes "EFF_MEM \<notin> flags ep" "EFF_PRIVATE \<notin> flags ep" "EFF_TYPED \<notin> flags ep" "nent ep < 0" "fd ep"
    "\<not> prewrite ep" "onresize ep = False" "0 \<le> fids ep" "cids ep = 0" "calls e = [Fail k]"
  shows "\<exists>b e'. tab_write (fids ep) (Buf x) (ep, e) = ((False, b), ep\<lparr>fids := fids ep + 1\<rparr>, e')"
proof -
  have "\<not> in_cache (ep\<lparr>fids := fids ep + 1\<rparr>) (fids ep)" using assms(9) by (simp add: in_cache_def)
  then show ?thesis using assms
    by (simp add: tab_write_def tab_write_start_def tab_write_end_def buf_get_def buf_put_def new_seqno_def
        call_onresize_def do_write_def syscall_def cant_happen_def Let_def)
qed

section \<open>Properties\<close>

text \<open>
  C13. Reading is transparent to the cache: whether the element is in the cache's window, has to be
  read from the file or reading fails, the table keeps its elements, the invariant holds and an
  element returned is the table's, marked fresh; reading an element of a table in memory, or when no
  system call fails, always returns one.
\<close>

theorem ef_read_transparent:
  assumes "ef_check type" and "tab_ok (empfile d type)" and "ef_read type ix d = (r, d')"
  shows "contents (empfile d' type) = contents (empfile d type) \<and> tab_ok (empfile d' type)
    \<and> (\<forall>t. t \<noteq> type \<longrightarrow> empfile d' t = empfile d t)
    \<and> (\<forall>x. r = Some x \<longrightarrow> 0 \<le> ix \<and> ix < fids (empfile d type)
         \<and> x = (let y = mark_fresh (empfile d type) (sys d) (contents (empfile d type) ! nat ix)
                in case postread (empfile d type) of None \<Rightarrow> y | Some f \<Rightarrow> f ix y))
    \<and> (0 \<le> ix \<and> ix < fids (empfile d type) \<and> (EFF_MEM \<in> flags (empfile d type) \<or> quiet (sys d)) \<longrightarrow> r \<noteq> None)"
proof -
  obtain ep' e' where t: "tab_read ix (empfile d type, sys d) = (r, ep', e')" "d' = d\<lparr>empfile := (empfile d)(type := ep'), sys := e'\<rparr>"
    using assms(1,3) by (auto simp: ef_read_def split: prod.splits)
  note m = tab_read_result [OF assms(2) t(1)]
  have "empfile d' type = ep'" "\<forall>t. t \<noteq> type \<longrightarrow> empfile d' t = empfile d t" using t(2) by simp_all
  then show ?thesis using m(1) [THEN cache_movedD(1)] m(1) [THEN cache_movedD(2)] m(2,3) by auto
qed

definition elt_example :: "int \<Rightarrow> int \<Rightarrow> int elt" where
  "elt_example i b = \<lparr>ef_type = 8, seqno = 5, generation = 0, uid = i, timestamp = 0, body = b\<rparr>"

text \<open>A table of two elements whose cache holds one.\<close>

definition ep_example :: "int empfile" where
  "ep_example = \<lparr>ep_uid = 8, ep_name = ''nat'', ep_file = True, ep_base = - 1, ep_size = 8, nent = - 1, flags = {EFF_TYPED},
     cache = Some [elt_example 0 10], csize = 1, baseid = 0, cids = 1, fids = 2, fd = True, oninit = None, postread = None,
     prewrite = False, onresize = True, resized = 0, disk = [elt_example 0 10, elt_example 1 20], disk_rest = 0\<rparr>"

definition db_example :: "int db" where
  "db_example = \<lparr>empfile = (\<lambda>_. ep_example),
     sys = \<lparr>calls = [], faults = 0, ef_generation = 7, time_now = 100, blksize = 16\<rparr>\<rparr>"

lemma example_ok: "tab_ok (empfile db_example 8)" "ef_check 8" "quiet (sys db_example)" "fids (empfile db_example 8) = 2"
  "contents (empfile db_example 8) = [elt_example 0 10, elt_example 1 20]"
  by (simp_all add: tab_ok_def db_example_def ep_example_def slot_def ef_check_def EF_MAX_def quiet_def contents_def EF_BAD_def)

theorem ef_read_transparent_witness:
  "\<exists>x d'. ef_read 8 1 db_example = (Some x, d') \<and> body x = 20 \<and> baseid (empfile d' 8) = 1
    \<and> contents (empfile d' 8) = [elt_example 0 10, elt_example 1 20]"
proof -
  obtain r d' where r: "ef_read 8 1 db_example = (r, d')" by fastforce
  note t = ef_read_transparent [OF example_ok(2,1) r]
  then obtain x where "r = Some x" using example_ok(3,4) by auto
  moreover from this t have "body x = 20"
    by (simp add: mark_fresh_def Let_def db_example_def ep_example_def elt_example_def contents_def)
  moreover have "baseid (empfile (snd (ef_read 8 1 db_example)) 8) = 1"
    using example_ok(2) by (simp add: ef_read_def tab_read_def db_example_def ep_example_def fillcache_def do_read_def syscall_def)
  ultimately show ?thesis using r t by (simp add: example_ok)
qed

lemma ef_write_tab:
  assumes c: "ef_check type" and ok: "tab_ok (empfile d type)" and q: "quiet (sys d)"
    and w: "writable (empfile d type) ix from" and np: "\<not> prewrite (empfile d type)"
    and r: "ef_write hk type ix from d = ((ok', from'), d')"
  obtains ep' e' where "tab_write ix from (empfile d type, sys d) = ((ok', from'), ep', e')"
    "d' = d\<lparr>empfile := (empfile d)(type := ep'), sys := e'\<rparr>"
proof -
  let ?x = "numbered (empfile d type) ix (from_elt (empfile d type) ix from)"
  obtain ep1 e1 where s: "tab_write_start ix from (empfile d type, sys d) = ((Some ?x, now_in from ?x), started ix ?x from ep1, e1)"
    "cache_moved (empfile d type) ep1"
    by (rule write_start [OF w ok q])
  have "prewrite (started ix ?x from ep1) = prewrite (empfile d type)"
    using cache_movedD [OF s(2)] by (auto simp: started_def call_onresize_def split: buffer.splits)
  then show thesis
    using that r c s(1) np by (auto simp: ef_write_def tab_write_def call_prewrite_def Let_def split: prod.splits)
qed

text \<open>
  What \<open>ef_write\<close> relies on when a table has a callback: it leaves the header of the element and the shape of
  its table alone, the table well-formed, and takes no internal error back. It may write other elements and tables.
\<close>

definition hook_fine :: "'a::zero hook \<Rightarrow> int \<Rightarrow> bool" where
  "hook_fine hk type \<longleftrightarrow>
     (\<forall>ix old x d x' d'. tab_ok (empfile d type) \<and> quiet (sys d) \<and> hk type ix old x d = (x', d') \<longrightarrow>
        seqno x' = seqno x \<and> tab_ok (empfile d' type) \<and> quiet (sys d') \<and> faults (sys d) \<le> faults (sys d')
        \<and> flags (empfile d' type) = flags (empfile d type) \<and> fids (empfile d' type) = fids (empfile d type)
        \<and> nent (empfile d' type) = nent (empfile d type) \<and> prewrite (empfile d' type) = prewrite (empfile d type))"

lemma ended_mem:
  fixes y :: "'a::zero elt" and "from" :: "'a buffer"
  assumes ok: "tab_ok ep" and m: "EFF_MEM \<in> flags ep" "0 \<le> ix" "ix < fids ep"
  defines "ep' \<equiv> ended ix True y from ep"
  shows "tab_ok ep'" "contents ep' = (contents ep)[nat ix := y]" "flags ep' = flags ep" "nent ep' = nent ep" "fids ep' = fids ep" "prewrite ep' = prewrite ep"
    "disk ep' = (if fd ep \<and> EFF_PRIVATE \<notin> flags ep then disk_put ix [y] (disk ep) else disk ep)"
proof -
  have i: "in_cache ep ix" using mem_in_cache [OF ok m(1)] m(2,3) by simp
  have b: "baseid ep = 0" using tab_ok_mem [OF ok m(1)] by simp
  have e: "ep' = set_slot (ix - baseid ep) y (ep\<lparr>disk := dput ep ix y\<rparr>)"
    using b by (cases "from") (simp_all add: ep'_def ended_def Let_def)
  show "tab_ok ep'" "contents ep' = (contents ep)[nat ix := y]"
    unfolding e by (rule set_slot_ok [OF ok i]; use m(1) in simp)+
  show "flags ep' = flags ep" "nent ep' = nent ep" "fids ep' = fids ep" "prewrite ep' = prewrite ep"
    "disk ep' = (if fd ep \<and> EFF_PRIVATE \<notin> flags ep then disk_put ix [y] (disk ep) else disk ep)"
    by (simp_all add: e dput_def)
qed

lemma started_mem:
  assumes ok: "tab_ok ep" and m: "EFF_MEM \<in> flags ep" "0 \<le> ix" "ix < fids ep"
  shows "tab_ok (started ix x from ep)"
    and "contents (started ix x from ep) = (case from of Buf _ \<Rightarrow> contents ep | Slot \<Rightarrow> (contents ep)[nat ix := x])"
    and "flags (started ix x from ep) = flags ep" and "fids (started ix x from ep) = fids ep"
    and "nent (started ix x from ep) = nent ep" and "prewrite (started ix x from ep) = prewrite ep"
proof -
  have i: "in_cache ep ix" "baseid ep = 0" using mem_in_cache [OF ok m(1)] tab_ok_mem [OF ok m(1)] m(2,3) by simp_all
  have s: "set_slot ix x ep = set_slot (ix - baseid ep) x (ep\<lparr>disk := disk ep\<rparr>)" using i(2) by simp
  note so = set_slot_ok [OF ok i(1), of "disk ep" x, folded s]
  show "tab_ok (started ix x from ep)"
    "contents (started ix x from ep) = (case from of Buf _ \<Rightarrow> contents ep | Slot \<Rightarrow> (contents ep)[nat ix := x])"
    using so ok m by (cases "from"; simp add: started_def)+
  show "flags (started ix x from ep) = flags ep" "fids (started ix x from ep) = fids ep" "nent (started ix x from ep) = nent ep"
    "prewrite (started ix x from ep) = prewrite ep"
    using m(3) by (cases "from"; simp add: started_def)+
qed

text \<open>Writing to a table with a callback.\<close>

lemma ef_write_hooked:
  assumes c: "ef_check type" and ok: "tab_ok (empfile d type)" and q: "quiet (sys d)"
    and w: "writable (empfile d type) ix from" and p: "prewrite (empfile d type)" and h: "hook_fine hk type"
    and r: "ef_write hk type ix from d = ((ok', from'), d')"
  defines "x1 \<equiv> numbered (empfile d type) ix (from_elt (empfile d type) ix from)"
  defines "stale \<equiv> EFF_TYPED \<in> flags (empfile d type)
      \<and> seqno (from_elt (empfile d type) ix from) \<noteq> seqno (contents (empfile d type) ! nat ix)"
  obtains d1 x2 d2 y where
    "\<forall>t. t \<noteq> type \<longrightarrow> empfile d1 t = empfile d t"
    "contents (empfile d1 type) = (case from of Buf _ \<Rightarrow> contents (empfile d type) | Slot \<Rightarrow> (contents (empfile d type))[nat ix := x1])"
    "hk type ix (Some (contents (empfile d1 type) ! nat ix)) x1 d1 = (x2, d2)"
    "y = put_elt (empfile d2 type) (sys d2) ix x2" "seqno x2 = seqno x1"
    "\<forall>t. t \<noteq> type \<longrightarrow> empfile d' t = empfile d2 t"
    "contents (empfile d' type) = (contents (empfile d2 type))[nat ix := y]"
    "disk (empfile d' type) = (if fd (empfile d2 type) \<and> EFF_PRIVATE \<notin> flags (empfile d2 type)
       then disk_put ix [y] (disk (empfile d2 type)) else disk (empfile d2 type))"
    "ok'" "from' = now_in from y" "tab_ok (empfile d' type)" "quiet (sys d')" "flags (empfile d' type) = flags (empfile d type)"
    "fids (empfile d' type) = fids (empfile d type)" "nent (empfile d' type) = nent (empfile d type)" "stale \<Longrightarrow> faults (sys d) < faults (sys d')"
    "ix < fids (empfile d type)" "prewrite (empfile d' type) = prewrite (empfile d type)"
proof -
  let ?ep = "empfile d type"
  have m: "EFF_MEM \<in> flags ?ep" "0 \<le> ix" "ix < fids ?ep"
    using ok p w by (auto simp: tab_ok_def writable_def)
  obtain ep1 e1 where s: "tab_write_start ix from (?ep, sys d) = ((Some x1, now_in from x1), started ix x1 from ep1, e1)"
    "cache_moved ?ep ep1" "quiet e1" "stale \<Longrightarrow> faults (sys d) < faults e1" "faults (sys d) \<le> faults e1"
    by (rule write_start [OF w ok q, folded x1_def]) (use m(3) in \<open>simp add: stale_def\<close>)
  note ep1 = cache_movedD [OF s(2)]
  have m1: "EFF_MEM \<in> flags ep1" "ix < fids ep1" using m ep1(3,4) by simp_all
  note st = started_mem [OF ep1(1) m1(1) m(2) m1(2), of x1 "from"]
  define d1 where "d1 = d\<lparr>empfile := (empfile d)(type := started ix x1 from ep1), sys := e1\<rparr>"
  have d1: "empfile d1 type = started ix x1 from ep1" "sys d1 = e1" "\<forall>t. t \<noteq> type \<longrightarrow> empfile d1 t = empfile d t"
    by (simp_all add: d1_def)
  let ?ep1 = "empfile d1 type"
  have mm: "EFF_MEM \<in> flags ?ep1" "ix < fids ?ep1" "tab_ok ?ep1" using st m1 by (simp_all add: d1)
  have i: "in_cache ?ep1 ix" using mem_in_cache [OF mm(3,1)] m(2) mm(2) by simp
  have old: "slot ?ep1 (ix - baseid ?ep1) = contents ?ep1 ! nat ix" by (rule in_cache_slot(1) [OF mm(3) i])
  have p1: "prewrite ?ep1" using st(6) p ep1 by (simp add: d1)
  obtain x2 d2 where k: "hk type ix (Some (contents ?ep1 ! nat ix)) x1 d1 = (x2, d2)" by fastforce
  have f: "seqno x2 = seqno x1" "tab_ok (empfile d2 type)" "quiet (sys d2)" "faults e1 \<le> faults (sys d2)"
    "flags (empfile d2 type) = flags ?ep" "fids (empfile d2 type) = fids ?ep" "nent (empfile d2 type) = nent ?ep" "prewrite (empfile d2 type)"
    using h [unfolded hook_fine_def, rule_format, of d1 ix "Some (contents ?ep1 ! nat ix)" x1 x2 d2] mm(3) s(3) k st(3-6) ep1 p
    by (auto simp: d1)
  define y where "y = put_elt (empfile d2 type) (sys d2) ix x2"
  obtain e' where e: "tab_write_end ix True x2 (now_in from x1) (empfile d2 type, sys d2) =
      ((True, now_in (now_in from x1) y), ended ix True y (now_in from x1) (empfile d2 type), e')"
    "quiet e'" "faults (sys d2) \<le> faults e'"
    using write_end [OF f(3) m(2), of True x2 "now_in from x1" "empfile d2 type", folded y_def] by metis
  have nn: "now_in (now_in from x1) y = now_in from y" by (cases "from") (simp_all add: now_in_def)
  have "call_prewrite hk type ix x1 d1 = (x2, d2)" using p1 i old k by (simp add: call_prewrite_def)
  then have "ef_write hk type ix from d = ((True, now_in from y),
      d2\<lparr>empfile := (empfile d2)(type := ended ix True y (now_in from x1) (empfile d2 type)), sys := e'\<rparr>)"
    using c s(1) e(1) i nn by (simp add: ef_write_def Let_def d1_def [symmetric])
  then have res: "ok'" "from' = now_in from y"
    "d' = d2\<lparr>empfile := (empfile d2)(type := ended ix True y (now_in from x1) (empfile d2 type)), sys := e'\<rparr>"
    using r by simp_all
  have m2: "EFF_MEM \<in> flags (empfile d2 type)" "ix < fids (empfile d2 type)" using f m by simp_all
  note en = ended_mem [OF f(2) m2(1) m(2) m2(2), of y "now_in from x1"]
  show thesis
  proof (rule that [OF d1(3) _ k y_def f(1)])
    show "contents ?ep1 = (case from of Buf _ \<Rightarrow> contents ?ep | Slot \<Rightarrow> (contents ?ep)[nat ix := x1])"
      using st(2) unfolding d1 ep1(2) .
  qed (use res en f e(2,3) s(4,5) m p in \<open>auto split: if_splits\<close>)
qed

text \<open>The header and the error count after a write, with or without a callback.\<close>

lemma ef_write_seqno:
  assumes c: "ef_check type" and ok: "tab_ok (empfile d type)" and q: "quiet (sys d)"
    and w: "writable (empfile d type) ix (Buf x)" and h: "prewrite (empfile d type) \<longrightarrow> hook_fine hk type"
    and r: "ef_write hk type ix (Buf x) d = ((ok', from'), d')"
    and ix: "ix < fids (empfile d type)" and ty: "EFF_TYPED \<in> flags (empfile d type)"
  shows "tab_ok (empfile d' type)" "quiet (sys d')" "flags (empfile d' type) = flags (empfile d type)"
    "fids (empfile d' type) = fids (empfile d type)" "nent (empfile d' type) = nent (empfile d type)"
    "seqno (contents (empfile d' type) ! nat ix) = seqno (contents (empfile d type) ! nat ix) + 1"
    "seqno x \<noteq> seqno (contents (empfile d type) ! nat ix) \<Longrightarrow> faults (sys d) < faults (sys d')"
    "prewrite (empfile d' type) = prewrite (empfile d type)"
proof -
  let ?ep = "empfile d type"
  have ix0: "0 \<le> ix" using w by (simp add: writable_def)
  have len: "nat ix < length (contents ?ep)" using ix ix0 length_contents [OF ok] by linarith
  have fe: "from_elt ?ep ix (Buf x) = x" by (simp add: from_elt_def)
  have sq: "seqno (numbered ?ep ix x) = seqno (contents ?ep ! nat ix) + 1" using ix ty by (simp add: numbered_def)
  have pe: "seqno (put_elt ep e ix y) = seqno y" for ep :: "'a empfile" and e y
    by (simp add: put_elt_def stamped_def Let_def)
  have "tab_ok (empfile d' type) \<and> quiet (sys d') \<and> flags (empfile d' type) = flags ?ep
    \<and> fids (empfile d' type) = fids ?ep \<and> nent (empfile d' type) = nent ?ep
    \<and> seqno (contents (empfile d' type) ! nat ix) = seqno (contents ?ep ! nat ix) + 1
    \<and> (seqno x \<noteq> seqno (contents ?ep ! nat ix) \<longrightarrow> faults (sys d) < faults (sys d')) \<and> prewrite (empfile d' type) = prewrite ?ep"
  proof (cases "prewrite ?ep")
    case False
    obtain ep' e' where t: "tab_write ix (Buf x) (?ep, sys d) = ((ok', from'), ep', e')"
      "d' = d\<lparr>empfile := (empfile d)(type := ep'), sys := e'\<rparr>" by (rule ef_write_tab [OF c ok q w False r])
    show ?thesis
      using tab_write_result [OF ok w q t(1)] tab_write_faults(1) [OF ok w q ty t(1)] len ix sq
      by (simp add: t(2) written_eq fe pe)
  next
    case True
    then have hf: "hook_fine hk type" using h by simp
    show ?thesis
    proof (rule ef_write_hooked [OF c ok q w True hf r], goal_cases)
      case (1 d1 x2 d2 y)
      have "length (contents (empfile d2 type)) = length (contents (empfile d' type))" using 1(7) by simp
      then have "nat ix < length (contents (empfile d2 type))" using len length_contents [OF ok] length_contents [OF 1(11)] 1(14) by simp
      then show ?thesis using 1(4,5,7,11-16,18) sq ty by (simp add: fe pe)
    qed
  qed
  then show "tab_ok (empfile d' type)" "quiet (sys d')" "flags (empfile d' type) = flags ?ep"
    "fids (empfile d' type) = fids ?ep" "nent (empfile d' type) = nent ?ep"
    "seqno (contents (empfile d' type) ! nat ix) = seqno (contents ?ep ! nat ix) + 1"
    "seqno x \<noteq> seqno (contents ?ep ! nat ix) \<Longrightarrow> faults (sys d) < faults (sys d')"
    "prewrite (empfile d' type) = prewrite ?ep" by blast+
qed

text \<open>A write keeps to its own table, whatever the state; so a callback may write to other tables.\<close>

definition no_hook :: "'a hook" where
  "no_hook type ix old x d = (x, d)"

lemma syscalls_env:
  "get_seqno i (ep, e) = (s, ep', e') \<Longrightarrow> quiet e \<Longrightarrow> quiet e' \<and> faults e \<le> faults e'"
  by (auto simp: get_seqno_def do_read_def cant_happen_def quiet_def syscall_def Let_def split: if_splits option.splits)

lemma stamp_env: "stamp ep t i xs e = (ys, e') \<Longrightarrow> calls e' = calls e \<and> faults e \<le> faults e'"
  by (induction ep t i xs e arbitrary: ys e' rule: stamp.induct)
    (fastforce simp: Let_def cant_happen_def split: prod.splits if_splits)+

lemma do_write_env:
  "do_write ix buf (ep, e) = (ok', ys, ep', e') \<Longrightarrow> quiet e \<Longrightarrow> quiet e' \<and> faults e \<le> faults e'"
  by (auto simp: do_write_def cant_happen_def quiet_def syscall_def Let_def dest: stamp_env split: if_splits prod.splits)

lemma tab_write_start_env:
  assumes "tab_write_start ix from (ep, e) = (r, ep', e')" "quiet e"
  shows "quiet e' \<and> faults e \<le> faults e'"
proof -
  obtain x ep1 e1 where n: "new_seqno (buf_get ix from ep) (ep, e) = (x, ep1, e1)" by (metis prod_cases3)
  have "quiet e1 \<and> faults e \<le> faults e1"
    using n assms(2) by (auto simp: new_seqno_def cant_happen_def Let_def quiet_def [symmetric]
        dest!: syscalls_env split: if_splits prod.splits) (auto simp: quiet_def)
  then show ?thesis using assms n
    by (auto simp: tab_write_start_def must_be_fresh_def cant_happen_def quiet_def Let_def split: if_splits prod.splits)
qed

lemma tab_write_end_env:
  assumes "tab_write_end ix cached x from (ep, e) = (r, ep', e')" "quiet e"
  shows "quiet e' \<and> faults e \<le> faults e'"
  using assms by (auto simp: tab_write_end_def Let_def dest: do_write_env split: if_splits prod.splits)

lemma ef_write_env:
  assumes r: "ef_write no_hook type ix from d = (r, d')" and q: "quiet (sys d)"
  shows "quiet (sys d')" "faults (sys d) \<le> faults (sys d')" "t \<noteq> type \<Longrightarrow> empfile d' t = empfile d t"
proof -
  have "quiet (sys d') \<and> faults (sys d) \<le> faults (sys d') \<and> (\<forall>t. t \<noteq> type \<longrightarrow> empfile d' t = empfile d t)"
  proof (cases "ef_check type")
    case False
    then show ?thesis using r q by (auto simp: ef_write_def on_table_def cant_happen_def quiet_def)
  next
    case True
    obtain y fr ep1 e1 where s: "tab_write_start ix from (empfile d type, sys d) = ((y, fr), ep1, e1)" by (metis prod.exhaust)
    note s1 = tab_write_start_env [OF s q]
    show ?thesis
    proof (cases y)
      case None
      then show ?thesis using r s s1 True by (auto simp: ef_write_def)
    next
      case (Some x)
      obtain r2 ep2 e2 where e: "tab_write_end ix (in_cache ep1 ix) x fr (ep1, e1) = (r2, ep2, e2)" by (metis prod.exhaust)
      have "quiet e1" using s1 by simp
      note e1 = tab_write_end_env [OF e this]
      show ?thesis using r s s1 e e1 Some True by (auto simp: ef_write_def call_prewrite_def no_hook_def split: if_splits)
    qed
  qed
  then show "quiet (sys d')" "faults (sys d) \<le> faults (sys d')" "t \<noteq> type \<Longrightarrow> empfile d' t = empfile d t" by blast+
qed

text \<open>
  C14. Writing an element a table accepts, from a buffer or in place, to a table without a callback, changes just that
  element, or adds it at the end: every other table is as it was, the element is in the table's contents and, unless
  the table has no file or a private copy of it, on disk; the buffer gets the sequence number and time stamp written.
  Where the table has a callback, this is called once, with the numbered element and the state in which nothing else has changed
  (the element itself has its new number if it is written in place), and then just the element the callback returns goes to the
  contents, the disk and the buffer: what else is different from before is what the callback did.
\<close>

theorem ef_write_updates:
  assumes "ef_check type" and "tab_ok (empfile d type)" and "quiet (sys d)" and "writable (empfile d type) ix from"
    and "prewrite (empfile d type) \<longrightarrow> hook_fine hk type"
    and "ef_write hk type ix from d = ((ok, from'), d')"
  shows "ok \<and> tab_ok (empfile d' type)
    \<and> (\<not> prewrite (empfile d type) \<longrightarrow>
        (let ep = empfile d type; y = written ep (sys d) ix from
         in (\<forall>t. t \<noteq> type \<longrightarrow> empfile d' t = empfile d t)
          \<and> contents (empfile d' type) = (if ix < fids ep then (contents ep)[nat ix := y] else contents ep @ [y])
          \<and> disk (empfile d' type) = (if fd ep \<and> EFF_PRIVATE \<notin> flags ep then disk_put ix [y] (disk ep) else disk ep)
          \<and> from' = (case from of Buf _ \<Rightarrow> Buf y | Slot \<Rightarrow> Slot)))
    \<and> (prewrite (empfile d type) \<longrightarrow>
        (\<exists>d1 x2 d2. let ep = empfile d type; x1 = numbered ep ix (from_elt ep ix from);
             ep1 = empfile d1 type; ep2 = empfile d2 type; y = put_elt ep2 (sys d2) ix x2
         in (\<forall>t. t \<noteq> type \<longrightarrow> empfile d1 t = empfile d t)
          \<and> contents ep1 = (case from of Buf _ \<Rightarrow> contents ep | Slot \<Rightarrow> (contents ep)[nat ix := x1])
          \<and> hk type ix (Some (contents ep1 ! nat ix)) x1 d1 = (x2, d2)
          \<and> (\<forall>t. t \<noteq> type \<longrightarrow> empfile d' t = empfile d2 t)
          \<and> contents (empfile d' type) = (contents ep2)[nat ix := y]
          \<and> disk (empfile d' type) = (if fd ep2 \<and> EFF_PRIVATE \<notin> flags ep2 then disk_put ix [y] (disk ep2) else disk ep2)
          \<and> from' = (case from of Buf _ \<Rightarrow> Buf y | Slot \<Rightarrow> Slot)))"
proof (cases "prewrite (empfile d type)")
  case False
  obtain ep' e' where t: "tab_write ix from (empfile d type, sys d) = ((ok, from'), ep', e')"
    "d' = d\<lparr>empfile := (empfile d)(type := ep'), sys := e'\<rparr>" by (rule ef_write_tab [OF assms(1-4) False assms(6)])
  show ?thesis using tab_write_result [OF assms(2,4,3) t(1)] False by (simp add: t(2) Let_def)
next
  case True
  then have h: "hook_fine hk type" using assms(5) by simp
  show ?thesis
  proof (rule ef_write_hooked [OF assms(1-4) True h assms(6)], goal_cases)
    case (1 d1 x2 d2 y)
    show ?thesis
      unfolding Let_def 1(4) [symmetric]
      by (intro conjI impI exI [of _ d1] exI [of _ x2] exI [of _ d2])
        (use 1 True in \<open>simp_all add: now_in_def\<close>)
  qed
qed

lemma ef_write_other:
  "t \<noteq> type \<Longrightarrow> empfile (snd (ef_write no_hook type ix from d)) t = empfile d t"
  by (auto simp: ef_write_def on_table_def call_prewrite_def no_hook_def Let_def split: prod.splits option.splits if_splits)

text \<open>
  A table in memory with a callback: like that of ships for a sunk ship, it mends the element and writes one of
  another table.
\<close>

definition db_hooked :: "int db" where
  "db_hooked = db_example\<lparr>empfile := (empfile db_example)(8 := ep_example\<lparr>flags := {EFF_TYPED, EFF_MEM},
     cache := Some [elt_example 0 10, elt_example 1 20], csize := 2, cids := 2, prewrite := True\<rparr>)\<rparr>"

definition hook_example :: "int hook" where
  "hook_example type ix old x d =
     (if body x < 0 then (x\<lparr>body := 0\<rparr>, snd (ef_write no_hook 9 0 (Buf (elt_example 0 77)) d)) else (x, d))"

lemma hook_example_fine: "hook_fine hook_example 8"
proof -
  have "snd (ef_write no_hook 9 0 b d) = d' \<Longrightarrow> quiet (sys d) \<Longrightarrow>
      quiet (sys d') \<and> faults (sys d) \<le> faults (sys d') \<and> empfile d' 8 = empfile d 8" for b and d d' :: "int db"
    using ef_write_env [of 9 0 b d "fst (ef_write no_hook 9 0 b d)" d'] by (cases "ef_write no_hook 9 0 b d") simp_all
  then show ?thesis by (auto simp: hook_fine_def hook_example_def split: if_splits)
qed

lemma hooked_ok: "tab_ok (empfile db_hooked 8)" "quiet (sys db_hooked)" "prewrite (empfile db_hooked 8)"
  by (auto simp add: tab_ok_def db_hooked_def db_example_def ep_example_def slot_def quiet_def EF_BAD_def)

theorem ef_write_updates_witness:
  "(\<exists>b d'. ef_write no_hook 8 1 (Buf (elt_example 1 30)) db_example = ((True, b), d')
     \<and> map body (contents (empfile d' 8)) = [10, 30] \<and> map seqno (disk (empfile d' 8)) = [5, 6])
   \<and> (\<exists>b d'. ef_write hook_example 8 1 (Buf (elt_example 1 (- 1))) db_hooked = ((True, b), d')
     \<and> map body (contents (empfile d' 8)) = [10, 0])"
proof (intro conjI)
  have w: "writable (empfile db_example 8) 1 (Buf (elt_example 1 30))"
    by (simp add: writable_def db_example_def ep_example_def from_elt_def elt_example_def)
  obtain ok b d' where r: "ef_write no_hook 8 1 (Buf (elt_example 1 30)) db_example = ((ok, b), d')" by (metis prod.exhaust)
  have np: "\<not> prewrite (empfile db_example 8)" by (simp add: db_example_def ep_example_def)
  have "written (empfile db_example 8) (sys db_example) 1 (Buf (elt_example 1 30))
      = \<lparr>ef_type = 8, seqno = 6, generation = 0, uid = 1, timestamp = 100, body = 30\<rparr>"
    by (simp add: written_def put_elt_def numbered_def db_example_def ep_example_def elt_example_def stamped_def stamp_time_def contents_def Let_def)
  then show "\<exists>b d'. ef_write no_hook 8 1 (Buf (elt_example 1 30)) db_example = ((True, b), d')
     \<and> map body (contents (empfile d' 8)) = [10, 30] \<and> map seqno (disk (empfile d' 8)) = [5, 6]"
    using ef_write_updates [OF example_ok(2,1,3) w _ r] np r
    by (simp add: example_ok Let_def) (simp add: elt_example_def db_example_def ep_example_def disk_put_def)
next
  have w: "writable (empfile db_hooked 8) 1 (Buf (elt_example 1 (- 1)))"
    by (simp add: writable_def db_hooked_def db_example_def ep_example_def from_elt_def elt_example_def)
  obtain ok b d' where r: "ef_write hook_example 8 1 (Buf (elt_example 1 (- 1))) db_hooked = ((ok, b), d')" by (metis prod.exhaust)
  have "\<exists>d1 x2 d2. ok \<and> (\<forall>t. t \<noteq> 8 \<longrightarrow> empfile d1 t = empfile db_hooked t) \<and> contents (empfile d1 8) = contents (empfile db_hooked 8)
      \<and> hook_example 8 1 (Some (contents (empfile d1 8) ! 1)) (numbered (empfile db_hooked 8) 1 (elt_example 1 (- 1))) d1 = (x2, d2)
      \<and> contents (empfile d' 8) = (contents (empfile d2 8))[1 := put_elt (empfile d2 8) (sys d2) 1 x2]"
    using ef_write_updates [OF example_ok(2) hooked_ok(1,2) w _ r] hook_example_fine hooked_ok(3)
    by (simp add: Let_def from_elt_def) blast
  then obtain d1 x2 d2 where t: "ok" "contents (empfile d1 8) = contents (empfile db_hooked 8)"
    "hook_example 8 1 (Some (contents (empfile d1 8) ! 1)) (numbered (empfile db_hooked 8) 1 (elt_example 1 (- 1))) d1 = (x2, d2)"
    "contents (empfile d' 8) = (contents (empfile d2 8))[1 := put_elt (empfile d2 8) (sys d2) 1 x2]" by blast
  have "body (numbered (empfile db_hooked 8) 1 (elt_example 1 (- 1))) < 0" by (simp add: numbered_def elt_example_def)
  then have "body x2 = 0" "d2 = snd (ef_write no_hook 9 0 (Buf (elt_example 0 77)) d1)" using t(3) by (auto simp: hook_example_def)
  moreover from this(2) have "empfile d2 8 = empfile d1 8" using ef_write_other [of 8 9 0 _ d1] by simp
  moreover have "contents (empfile db_hooked 8) = [elt_example 0 10, elt_example 1 20]"
    by (simp add: db_hooked_def db_example_def ep_example_def contents_def)
  moreover have "body (put_elt (empfile d2 8) (sys d2) 1 x2) = body x2" by (simp add: put_elt_def stamped_def Let_def)
  ultimately have "map body (contents (empfile d' 8)) = [10, 0]" using t(2,4) by (simp add: elt_example_def)
  then show "\<exists>b d'. ef_write hook_example 8 1 (Buf (elt_example 1 (- 1))) db_hooked = ((True, b), d')
     \<and> map body (contents (empfile d' 8)) = [10, 0]" using r t(1) by simp
qed

text \<open>
  C15. Two writers that have read the same element cannot clobber each other unnoticed: after the
  first has written it, the second's write is reported as an internal error, whether or not the table has a callback,
  and whatever else that writes.
\<close>

theorem ef_write_reports_clobber:
  assumes "ef_check type" and "tab_ok (empfile d type)" and "quiet (sys d)" and "EFF_TYPED \<in> flags (empfile d type)"
    and "ix < fids (empfile d type)" and "prewrite (empfile d type) \<longrightarrow> hook_fine hk type"
    and "writable (empfile d type) ix (Buf x)" and "writable (empfile d type) ix (Buf y)" and "seqno y = seqno x"
    and "seqno x = seqno (contents (empfile d type) ! nat ix)"
    and "ef_write hk type ix (Buf x) d = (r, d1)" and "ef_write hk type ix (Buf y) d1 = (s, d2)"
  shows "faults (sys d1) < faults (sys d2)"
proof -
  obtain ok b where r: "r = (ok, b)" by fastforce
  note w = ef_write_seqno [OF assms(1-3,7,6) assms(11) [unfolded r] assms(5,4)]
  obtain ok2 b2 where s: "s = (ok2, b2)" by fastforce
  have "writable (empfile d1 type) ix (Buf y)" using assms(8) w(3-5) by (auto simp: writable_def from_elt_def)
  moreover have "ix < fids (empfile d1 type)" "EFF_TYPED \<in> flags (empfile d1 type)" using assms(4,5) w(3,4) by simp_all
  moreover have "seqno y \<noteq> seqno (contents (empfile d1 type) ! nat ix)" using w(6) assms(9,10) by simp
  moreover have "prewrite (empfile d1 type) \<longrightarrow> hook_fine hk type" using assms(6) w(8) by simp
  ultimately show ?thesis
    using ef_write_seqno(7) [OF assms(1) w(1,2) _ _ assms(12) [unfolded s]] by blast
qed

theorem ef_write_reports_clobber_witness:
  "\<exists>r d1 s d2. ef_write hook_example 8 1 (Buf (elt_example 1 (- 1))) db_hooked = (r, d1)
    \<and> ef_write hook_example 8 1 (Buf (elt_example 1 40)) d1 = (s, d2) \<and> faults (sys d1) < faults (sys d2)"
proof -
  obtain r d1 where r: "ef_write hook_example 8 1 (Buf (elt_example 1 (- 1))) db_hooked = (r, d1)" by fastforce
  obtain s d2 where s: "ef_write hook_example 8 1 (Buf (elt_example 1 40)) d1 = (s, d2)" by fastforce
  have "faults (sys d1) < faults (sys d2)"
    by (rule ef_write_reports_clobber [OF example_ok(2) hooked_ok(1,2) _ _ impI [OF hook_example_fine] _ _ _ _ r s])
      (simp_all add: writable_def db_hooked_def db_example_def ep_example_def from_elt_def elt_example_def contents_def)
  then show ?thesis using r s by blast
qed

text \<open>
  Reading an element, changing its data and writing it back, with nothing in between, reports
  no error and updates the table.
\<close>

theorem read_modify_write_clean:
  assumes "ef_check type" and "tab_ok (empfile d type)" and "quiet (sys d)"
    and "EFF_PRIVATE \<in> flags (empfile d type) \<longrightarrow> EFF_MEM \<in> flags (empfile d type)"
    and "0 \<le> ix" and "ix < fids (empfile d type)" and "0 \<le> nent (empfile d type) \<longrightarrow> ix < nent (empfile d type)"
    and "\<not> prewrite (empfile d type)" and "postread (empfile d type) = None"
    and "header_ok (empfile d type) ix (contents (empfile d type) ! nat ix)" and "EFF_TYPED \<in> flags (empfile d type)"
  shows "\<exists>x d1 b d2. ef_read type ix d = (Some x, d1) \<and> ef_write hk type ix (Buf (x\<lparr>body := v\<rparr>)) d1 = ((True, b), d2)
    \<and> faults (sys d2) = faults (sys d) \<and> body (contents (empfile d2 type) ! nat ix) = v"
proof -
  let ?ep = "empfile d type"
  obtain r ep1 e1 where t: "tab_read ix (?ep, sys d) = (r, ep1, e1)" by (metis prod_cases3)
  note m = tab_read_result [OF assms(2) t]
  note ep1 = cache_movedD [OF m(1)]
  obtain x where x: "r = Some x" "e1 = sys d" using m(3) [OF assms(5,6)] assms(3) by auto
  have xv: "x = mark_fresh ?ep (sys d) (contents ?ep ! nat ix)" using m(2) [OF x(1)] assms(9) by simp
  define d1 where "d1 = d\<lparr>empfile := (empfile d)(type := ep1), sys := e1\<rparr>"
  have rd: "ef_read type ix d = (Some x, d1)" using t x(1) assms(1) by (simp add: ef_read_def d1_def)
  have d1: "empfile d1 type = ep1" "sys d1 = sys d" using x(2) by (simp_all add: d1_def)
  let ?y = "x\<lparr>body := v\<rparr>"
  have w: "writable ep1 ix (Buf ?y)"
    using assms(4-7,10) ep1(3,4,6) xv by (auto simp: writable_def from_elt_def mark_fresh_def header_ok_def)
  have np: "\<not> prewrite ep1" using assms(8) ep1 by simp
  obtain ok b d2 where wr: "ef_write hk type ix (Buf ?y) d1 = ((ok, b), d2)" by (metis prod.exhaust)
  obtain ep2 e2 where t2: "tab_write ix (Buf ?y) (ep1, sys d) = ((ok, b), ep2, e2)"
    "d2 = d1\<lparr>empfile := (empfile d1)(type := ep2), sys := e2\<rparr>"
    using ef_write_tab [OF assms(1) _ _ _ _ wr] d1 ep1(1) w assms(3) np by metis
  note res = tab_write_result [OF ep1(1) w assms(3) t2(1)]
  have ty: "EFF_TYPED \<in> flags ep1" using assms(11) ep1(3) by simp
  have "faults e2 = faults (sys d)"
    by (rule tab_write_faults(2) [OF ep1(1) w assms(3) ty t2(1)])
      (use assms(6,8,10,11) ep1 xv in \<open>simp_all add: mark_fresh_def header_ok_def\<close>)
  moreover have "body (contents ep2 ! nat ix) = v"
    using res assms(5,6,8) ep1(2,4,7) length_contents [OF assms(2)]
    by (simp add: written_eq put_elt_def numbered_def from_elt_def stamped_def Let_def xv mark_fresh_def)
  ultimately show ?thesis using rd wr res t2(2) by auto
qed

theorem read_modify_write_clean_witness:
  "\<exists>x d1 b d2. ef_read 8 1 db_example = (Some x, d1) \<and> ef_write no_hook 8 1 (Buf (x\<lparr>body := 33\<rparr>)) d1 = ((True, b), d2)
    \<and> faults (sys d2) = 0 \<and> body (contents (empfile d2 8) ! 1) = 33"
proof -
  have "faults (sys db_example) = 0" by (simp add: db_example_def)
  then show ?thesis
    using read_modify_write_clean [OF example_ok(2,1,3), of 1 no_hook 33]
    by (simp add: db_example_def ep_example_def contents_def header_ok_def elt_example_def)
qed

text \<open>
  Extending a table appends blank elements with the right numbers, and tells the table's owner
  of the new size; the elements there were stay, with the table in memory or not.
\<close>

theorem ef_extend_appends:
  assumes "ef_check type" and "tab_ok (empfile d type)" and "quiet (sys d)" and "nent (empfile d type) < 0"
    and "extendable (empfile d type) count" and "ef_extend type count d = (ok, d')"
  shows "ok \<and> tab_ok (empfile d' type) \<and> (\<forall>t. t \<noteq> type \<longrightarrow> empfile d' t = empfile d t)
    \<and> fids (empfile d' type) = fids (empfile d type) + count
    \<and> contents (empfile d' type) = contents (empfile d type)
        @ new_elts (empfile d type) (sys d) (fids (empfile d type)) (nat count)
    \<and> (onresize (empfile d type) \<longrightarrow> resized (empfile d' type) = resized (empfile d type) + 1)"
  using tab_extend_result [OF assms(2,5,3,4)] assms(1,6) by (auto simp: ef_extend_def)

theorem ef_extend_appends_witness:
  "\<exists>d'. ef_extend 8 2 db_example = (True, d') \<and> map uid (contents (empfile d' 8)) = [0, 1, 2, 3]"
proof -
  obtain ok d' where r: "ef_extend 8 2 db_example = (ok, d')" by fastforce
  have "nent (empfile db_example 8) < 0" "extendable (empfile db_example 8) 2"
    by (simp_all add: db_example_def ep_example_def extendable_def)
  note t = ef_extend_appends [OF example_ok(2,1,3) this r]
  have "map uid (new_elts (empfile db_example 8) (sys db_example) 2 2) = [2, 3]"
    by (simp add: new_elts_def put_elt_def blank_def db_example_def ep_example_def stamped_def stamp_time_def zero_elt_def Let_def eval_nat_numeral)
  then show ?thesis using t r by (simp add: example_ok) (simp add: elt_example_def)
qed

text \<open>
  Truncating a table keeps its first elements and drops the rest, wherever the cache's window is.
\<close>

theorem ef_truncate_keeps_prefix:
  assumes "ef_check type" and "tab_ok (empfile d type)" and "quiet (sys d)" and "nent (empfile d type) < 0"
    and "0 \<le> count" and "count \<le> fids (empfile d type)"
    and "EFF_SENTINEL \<in> flags (empfile d type) \<or> EFF_PRIVATE \<in> flags (empfile d type) \<longrightarrow> EFF_MEM \<in> flags (empfile d type)"
    and "ef_truncate type count d = (ok, d')"
  shows "ok \<and> tab_ok (empfile d' type) \<and> (\<forall>t. t \<noteq> type \<longrightarrow> empfile d' t = empfile d t)
    \<and> contents (empfile d' type) = take (nat count) (contents (empfile d type))"
  using tab_truncate_result [OF assms(2,3,4,5,6)] assms(1,7,8) by (auto simp: ef_truncate_def)

theorem ef_truncate_keeps_prefix_witness:
  "\<exists>d'. ef_truncate 8 1 db_example = (True, d') \<and> contents (empfile d' 8) = [elt_example 0 10]"
proof -
  obtain ok d' where r: "ef_truncate 8 1 db_example = (ok, d')" by fastforce
  have "nent (empfile db_example 8) < 0" "(1::int) \<le> fids (empfile db_example 8)"
    "EFF_SENTINEL \<in> flags (empfile db_example 8) \<or> EFF_PRIVATE \<in> flags (empfile db_example 8) \<longrightarrow> EFF_MEM \<in> flags (empfile db_example 8)"
    by (simp_all add: db_example_def ep_example_def)
  note t = ef_truncate_keeps_prefix [OF example_ok(2,1,3) this(1) _ this(2,3) r]
  show ?thesis using t r by (simp add: example_ok)
qed

text \<open>
  C16. \<open>ef_ensure_space\<close> with a positive step ends, and then the table has the element asked for;
  the elements there were stay.
\<close>

theorem ef_ensure_space_ends:
  assumes "ef_check type" and "growing (empfile d type)" and "quiet (sys d)" and "0 < count" and "0 \<le> ix"
  shows "\<exists>d'. ef_ensure_space type ix count d = Some (True, d') \<and> ix < fids (empfile d' type)
    \<and> tab_ok (empfile d' type) \<and> (\<exists>xs. contents (empfile d' type) = contents (empfile d type) @ xs)"
  using ensure_loop_ends [OF assms(1-4), of ix] assms(1,5) by (auto simp: ef_ensure_space_def growing_def)

theorem ef_ensure_space_ends_witness:
  "\<exists>d'. ef_ensure_space 8 7 3 db_example = Some (True, d') \<and> 7 < fids (empfile d' 8)"
proof -
  have "growing (empfile db_example 8)"
    using example_ok(1) by (simp add: growing_def) (simp add: db_example_def ep_example_def)
  then show ?thesis using ef_ensure_space_ends [OF example_ok(2) _ example_ok(3), of 3 7] by auto
qed

text \<open>
  C17. The game's tables survive a restart: closing a table in memory and opening its file again
  gives the elements it had, with the time stamps and headers the flush has put in.
\<close>

theorem ef_close_open_roundtrip:
  assumes "ef_check type" and "tab_ok (empfile d type)" and "quiet (sys d)"
    and "{EFF_MEM} \<subseteq> flags (empfile d type) \<and> flags (empfile d type) \<inter> {EFF_PRIVATE, EFF_SENTINEL} = {}"
    and "fd (empfile d type)" and "ep_file (empfile d type)" and "disk_rest (empfile d type) = 0"
    and "int (length (disk (empfile d type))) \<le> fids (empfile d type)"
    and "nent (empfile d type) < 0 \<or> nent (empfile d type) = fids (empfile d type)"
    and "ef_close type d = (ok1, d1)" and "ef_open type {EFF_MEM} d1 = (ok2, d2)"
  shows "ok1 \<and> fids (empfile d1 type) = 0 \<and> ok2 \<and> tab_ok (empfile d2 type)
    \<and> contents (empfile d2 type) = stamp_all (empfile d type) (sys d) 0 (contents (empfile d type))"
proof -
  let ?ep = "empfile d type"
  have f: "EFF_MEM \<in> flags ?ep" "EFF_PRIVATE \<notin> flags ?ep" "EFF_SENTINEL \<notin> flags ?ep" using assms(4) by auto
  obtain ep1 e1 ep2 e2 where t: "tab_close (?ep, sys d) = (True, ep1, e1)" "fids ep1 = 0"
    "tab_open {EFF_MEM} (ep1, e1) = (True, ep2, e2)" "tab_ok ep2" "contents ep2 = stamp_all ?ep (sys d) 0 (contents ?ep)"
    using tab_close_open [OF assms(2) f(1,2) assms(5,6) f(3) assms(3,8,7,9)] by blast
  have d1: "ok1" "d1 = d\<lparr>empfile := (empfile d)(type := ep1), sys := e1\<rparr>"
    using assms(1,10) t(1) by (auto simp: ef_close_def)
  have "ok2" "d2 = d1\<lparr>empfile := (empfile d1)(type := ep2), sys := e2\<rparr>"
    using assms(1,11) t(3) d1(2) by (auto simp: ef_open_def)
  then show ?thesis using d1 t by simp
qed

definition ep_mem_example :: "int empfile" where
  "ep_mem_example = ep_example\<lparr>flags := {EFF_TYPED, EFF_MEM}, cache := Some [elt_example 0 11, elt_example 1 21],
     csize := 2, cids := 2\<rparr>"

theorem ef_close_open_roundtrip_witness:
  "\<exists>d1 d2. ef_close 8 (db_example\<lparr>empfile := (\<lambda>_. ep_mem_example)\<rparr>) = (True, d1) \<and> ef_open 8 {EFF_MEM} d1 = (True, d2)
    \<and> map body (contents (empfile d2 8)) = [11, 21]"
proof -
  let ?d = "db_example\<lparr>empfile := (\<lambda>_. ep_mem_example)\<rparr>"
  obtain ok1 d1 where r: "ef_close 8 ?d = (ok1, d1)" by fastforce
  obtain ok2 d2 where s: "ef_open 8 {EFF_MEM} d1 = (ok2, d2)" by fastforce
  have p: "tab_ok (empfile ?d 8)" "quiet (sys ?d)" using example_ok(3)
    by (simp_all add: ep_mem_example_def ep_example_def tab_ok_def EF_BAD_def)
  have "ok1 \<and> fids (empfile d1 8) = 0 \<and> ok2 \<and> tab_ok (empfile d2 8)
    \<and> contents (empfile d2 8) = stamp_all (empfile ?d 8) (sys ?d) 0 (contents (empfile ?d 8))"
    by (rule ef_close_open_roundtrip [OF example_ok(2) p _ _ _ _ _ _ r s])
      (simp_all add: ep_mem_example_def ep_example_def)
  then show ?thesis using r s
    by (auto simp: ep_mem_example_def ep_example_def contents_def stamped_def stamp_time_def elt_example_def db_example_def Let_def)
qed

end
