(* ===== verification/Queue.thy ===== *)
theory Queue
  imports Prelude
begin

text \<open>
  Doubly linked circular queues, \<open>src/lib/gen/queue.c\<close>. Memory is two functions from addresses to
  addresses, the members \<open>q_forw\<close> and \<open>q_back\<close> of \<open>struct emp_qelem\<close>; address 0 is the null pointer.
  \<open>ring\<close> says which list of elements a queue head stands for; each operation is the list operation
  it should be.
\<close>

record mem =
  q_forw :: "nat \<Rightarrow> nat"
  q_back :: "nat \<Rightarrow> nat"

definition emp_insque :: "nat \<Rightarrow> nat \<Rightarrow> mem \<Rightarrow> mem" where
  "emp_insque elem queue h =
     (let nxt = q_forw h queue;
          h = h\<lparr>q_forw := (q_forw h)(queue := elem)\<rparr>;
          h = h\<lparr>q_forw := (q_forw h)(elem := nxt)\<rparr>;
          h = h\<lparr>q_back := (q_back h)(elem := queue)\<rparr>
      in h\<lparr>q_back := (q_back h)(nxt := elem)\<rparr>)"

definition emp_remque :: "nat \<Rightarrow> mem \<Rightarrow> mem" where
  "emp_remque elem h =
     (if elem = 0 then h
      else let h = (if q_forw h elem \<noteq> 0 then h\<lparr>q_back := (q_back h)(q_forw h elem := q_back h elem)\<rparr> else h)
           in if q_back h elem \<noteq> 0 then h\<lparr>q_forw := (q_forw h)(q_back h elem := q_forw h elem)\<rparr> else h)"

partial_function (option) quelen_loop :: "mem \<Rightarrow> nat \<Rightarrow> nat \<Rightarrow> int \<Rightarrow> int option" where
  [code]: "quelen_loop h queue qp len =
     (if qp \<noteq> queue then quelen_loop h queue (q_forw h qp) (len + 1) else Some len)"

definition emp_quelen :: "nat \<Rightarrow> mem \<Rightarrow> int option" where
  "emp_quelen queue h = quelen_loop h queue (q_forw h queue) 0"

partial_function (option) search_loop :: "(nat \<Rightarrow> bool) \<Rightarrow> mem \<Rightarrow> nat \<Rightarrow> nat \<Rightarrow> nat option" where
  [code]: "search_loop test h queue qp =
     (if qp \<noteq> queue then if test qp then Some qp else search_loop test h queue (q_forw h qp) else Some 0)"

definition emp_searchque :: "(nat \<Rightarrow> bool) \<Rightarrow> nat \<Rightarrow> mem \<Rightarrow> nat option" where
  "emp_searchque test queue h = search_loop test h queue (q_forw h queue)"

definition emp_initque :: "nat \<Rightarrow> mem \<Rightarrow> mem" where
  "emp_initque elem h =
     (let h = h\<lparr>q_forw := (q_forw h)(elem := elem)\<rparr> in h\<lparr>q_back := (q_back h)(elem := elem)\<rparr>)"

section \<open>Rings\<close>

text \<open>The elements \<open>xs\<close> link \<open>a\<close> to \<open>b\<close>, in both directions.\<close>

fun seg :: "mem \<Rightarrow> nat \<Rightarrow> nat list \<Rightarrow> nat \<Rightarrow> bool" where
  "seg h a [] b \<longleftrightarrow> q_forw h a = b \<and> q_back h b = a"
| "seg h a (x # xs) b \<longleftrightarrow> q_forw h a = x \<and> q_back h x = a \<and> seg h x xs b"

definition ring :: "mem \<Rightarrow> nat \<Rightarrow> nat list \<Rightarrow> bool" where
  "ring h q xs \<longleftrightarrow> distinct (q # xs) \<and> 0 \<notin> set (q # xs) \<and> seg h q xs q"

lemma seg_append: "seg h a (xs @ y # ys) b \<longleftrightarrow> seg h a xs y \<and> seg h y ys b"
  by (induction xs arbitrary: a) auto

lemma seg_frame:
  "seg h a xs b \<Longrightarrow> (\<And>x. x \<in> set (a # xs) \<Longrightarrow> q_forw h' x = q_forw h x)
    \<Longrightarrow> (\<And>x. x \<in> set (b # xs) \<Longrightarrow> q_back h' x = q_back h x) \<Longrightarrow> seg h' a xs b"
  by (induction xs arbitrary: a) auto

lemma seg_ends: "seg h a xs b \<Longrightarrow> q_forw h a = hd (xs @ [b]) \<and> q_back h b = last (a # xs)"
  by (induction xs arbitrary: a) auto

lemma insque_fields:
  "q_forw (emp_insque elem pos h) x = (if x = elem then q_forw h pos else if x = pos then elem else q_forw h x)"
  "q_back (emp_insque elem pos h) x = (if x = q_forw h pos then elem else if x = elem then pos else q_back h x)"
  by (simp_all add: emp_insque_def Let_def)

text \<open>Inserting in front of a segment.\<close>

lemma insque_seg:
  assumes s: "seg h a xs b" and e: "elem \<notin> set (a # b # xs)" and d: "a \<notin> set xs" "b \<notin> set xs" "distinct xs"
  shows "seg (emp_insque elem a h) a (elem # xs) b"
proof (cases xs)
  case Nil
  then show ?thesis using s e by (auto simp: insque_fields)
next
  case (Cons y ys)
  have f: "q_forw h a = y" "q_back h y = a" "seg h y ys b" using s Cons by auto
  have "seg (emp_insque elem a h) y ys b"
    by (rule seg_frame [OF f(3)]) (use e d f(1) Cons in \<open>auto simp: insque_fields\<close>)
  then show ?thesis using f e d Cons by (auto simp: insque_fields)
qed

lemma insque_ring:
  assumes r: "ring h q (xs @ ys)" and e: "elem \<noteq> 0" "elem \<notin> set (q # xs @ ys)"
  shows "ring (emp_insque elem (last (q # xs)) h) q (xs @ elem # ys)"
proof (cases xs rule: rev_cases)
  case Nil
  then show ?thesis using insque_seg [of h q ys q elem] r e by (auto simp: ring_def)
next
  case (snoc zs p)
  have s: "seg h q zs p" "seg h p ys q" and d: "distinct (q # zs @ p # ys)"
    using r snoc by (auto simp: ring_def seg_append)
  have "q_forw h p \<in> set (q # ys)" using s(2) by (cases ys) auto
  then have "seg (emp_insque elem p h) q zs p"
    using d e(2) snoc by (intro seg_frame [OF s(1)]) (auto simp: insque_fields)
  moreover have "seg (emp_insque elem p h) p (elem # ys) q"
    by (rule insque_seg [OF s(2)]) (use d e(2) snoc in auto)
  ultimately show ?thesis using r e snoc by (auto simp: ring_def seg_append)
qed

lemma remque_ring:
  assumes r: "ring h q (xs @ elem # ys)"
  shows "ring (emp_remque elem h) q (xs @ ys)"
proof -
  have s: "seg h q xs elem" "seg h elem ys q" and d: "distinct (q # xs @ elem # ys)" "0 \<notin> set (q # xs @ elem # ys)"
    using r by (auto simp: ring_def seg_append)
  define f where "f = q_forw h elem"
  define b where "b = q_back h elem"
  have f: "f = hd (ys @ [q])" "f \<in> set (q # ys)" using seg_ends [OF s(2)] by (cases ys; simp add: f_def)+
  have b: "b = last (q # xs)" "b \<in> set (q # xs)" using seg_ends [OF s(1)] last_in_set [of "q # xs"] by (auto simp: b_def)
  have nz: "elem \<noteq> 0" "f \<noteq> 0" "b \<noteq> 0" "f \<noteq> elem" "b \<noteq> elem" using d f(2) b(2) by auto
  let ?h = "emp_remque elem h"
  have ff: "q_forw ?h x = (if x = b then f else q_forw h x)" for x
    using nz by (simp add: emp_remque_def f_def [symmetric] b_def [symmetric])
  have fb: "q_back ?h x = (if x = f then b else q_back h x)" for x
    using nz by (simp add: emp_remque_def f_def [symmetric] b_def [symmetric])
  have "seg ?h q (xs @ ys) q"
  proof (cases ys)
    case Nil
    show ?thesis
    proof (cases xs rule: rev_cases)
      case Nil
      then show ?thesis using \<open>ys = []\<close> f(1) b(1) by (simp add: ff fb)
    next
      case (snoc zs p)
      have "seg ?h q zs p"
        by (rule seg_frame [of h]) (use s(1) d f b snoc \<open>ys = []\<close> in \<open>auto simp: ff fb seg_append\<close>)
      moreover have "seg ?h p [] q" using f(1) b(1) snoc \<open>ys = []\<close> by (simp add: ff fb)
      ultimately show ?thesis using snoc \<open>ys = []\<close> by (simp add: seg_append)
    qed
  next
    case (Cons y zs)
    have y: "seg ?h y zs q"
      by (rule seg_frame [of h]) (use s(2) d f b Cons in \<open>auto simp: ff fb\<close>)
    show ?thesis
    proof (cases xs rule: rev_cases)
      case Nil
      then show ?thesis using y Cons f(1) b(1) by (simp add: ff fb)
    next
      case (snoc us p)
      have "seg ?h q us p"
        by (rule seg_frame [of h]) (use s(1) d f b snoc Cons in \<open>auto simp: ff fb seg_append\<close>)
      moreover have "q_forw ?h p = y" "q_back ?h y = p" using f(1) b(1) snoc Cons by (simp_all add: ff fb)
      ultimately show ?thesis using y snoc Cons by (simp add: seg_append)
    qed
  qed
  then show ?thesis using d by (auto simp: ring_def)
qed

lemma quelen_seg: "seg h a xs q \<Longrightarrow> q \<notin> set xs \<Longrightarrow> quelen_loop h q (q_forw h a) n = Some (n + int (length xs))"
proof (induction xs arbitrary: a n)
  case Nil
  then show ?case by (subst quelen_loop.simps) simp
next
  case (Cons x xs)
  then show ?case by (subst quelen_loop.simps) auto
qed

lemma search_seg:
  "seg h a xs q \<Longrightarrow> q \<notin> set xs \<Longrightarrow>
    search_loop test h q (q_forw h a) = Some (case find test xs of None \<Rightarrow> 0 | Some x \<Rightarrow> x)"
proof (induction xs arbitrary: a)
  case Nil
  then show ?case by (subst search_loop.simps) simp
next
  case (Cons x xs)
  then show ?case by (subst search_loop.simps) auto
qed

section \<open>Properties\<close>

text \<open>
  C18. A queue is a list: initialising gives the empty list, \<open>emp_insque\<close> puts a new element right after
  the element or head given, \<open>emp_remque\<close> takes an element out and leaves the rest in order,
  \<open>emp_quelen\<close> is the length and \<open>emp_searchque\<close> finds the first element that passes the test; both
  loops end.
\<close>

theorem queue_refines_list:
  shows "(q \<noteq> 0 \<longrightarrow> ring (emp_initque q h) q [])
    \<and> (ring h q (xs @ ys) \<and> elem \<noteq> 0 \<and> elem \<notin> set (q # xs @ ys)
         \<longrightarrow> ring (emp_insque elem (last (q # xs)) h) q (xs @ elem # ys))
    \<and> (ring h q (xs @ elem # ys) \<longrightarrow> ring (emp_remque elem h) q (xs @ ys))
    \<and> (ring h q zs \<longrightarrow> emp_quelen q h = Some (int (length zs))
         \<and> emp_searchque test q h = Some (case find test zs of None \<Rightarrow> 0 | Some x \<Rightarrow> x))"
  using insque_ring [of h q xs ys elem] remque_ring [of h q xs elem ys] quelen_seg [of h q zs q 0] search_seg [of h q zs q test]
  by (auto simp: ring_def emp_initque_def emp_quelen_def emp_searchque_def Let_def)

definition mem_example :: mem where
  "mem_example = emp_insque 3 1 (emp_insque 2 1 (emp_initque 1 \<lparr>q_forw = (\<lambda>_. 0), q_back = (\<lambda>_. 0)\<rparr>))"

theorem queue_refines_list_witness:
  "ring mem_example 1 [3, 2] \<and> emp_quelen 1 mem_example = Some 2 \<and> ring (emp_remque 3 mem_example) 1 [2]"
proof -
  have "ring mem_example 1 ([] @ 3 # [2])"
    by (simp add: mem_example_def ring_def insque_fields emp_initque_def)
  then show ?thesis
    using queue_refines_list [of 1 mem_example "[]" "[2]" 3 "[3, 2]"] by simp
qed

end
