(* ===== verification/IoQueue.thy ===== *)
theory IoQueue
  imports Prelude "HOL-Library.Sublist"
begin

text \<open>
  Queues of bytes, \<open>src/lib/gen/ioqueue.c\<close>, and buffered input and output on them,
  \<open>src/lib/empthread/io.c\<close>. The list of buffers is a queue of \<open>src/lib/gen/queue.c\<close> (theory
  \<open>Queue\<close>), here the list it stands for, first buffer first. The bytes of a buffer's memory that
  have been set are \<open>io_data\<close>, \<open>nbytes\<close> of them; a C buffer filled by a function is its result.
\<close>

record io =
  io_size :: int
  io_nbytes :: int
  io_offset :: int
  io_data :: string

record ioqueue =
  ioq_list :: "io list"
  ioq_bufsize :: int
  ioq_cc :: int

definition ioq_create :: "int \<Rightarrow> ioqueue" where
  "ioq_create sz = \<lparr>ioq_list = [], ioq_bufsize = sz, ioq_cc = 0\<rparr>"

definition ioq_drain :: "ioqueue \<Rightarrow> ioqueue" where
  "ioq_drain q = q\<lparr>ioq_list := [], ioq_cc := 0\<rparr>"

text \<open>\<open>memcpy(_, io->data + from, n)\<close>.\<close>

definition bytes_at :: "io \<Rightarrow> int \<Rightarrow> int \<Rightarrow> string" where
  "bytes_at io from n = take (nat n) (drop (nat from) (io_data io))"

fun ioqtobuf_loop :: "io list \<Rightarrow> int \<Rightarrow> string \<Rightarrow> string" where
  "ioqtobuf_loop [] nleft buf = buf"
| "ioqtobuf_loop (io # ios) nleft buf =
     (if nleft > 0 then
        let nbytes = io_nbytes io - io_offset io in
        if nbytes < 0 then ioqtobuf_loop ios nleft buf
        else if nbytes > 0 then
          let nbytes = (if nleft < nbytes then nleft else nbytes)
          in ioqtobuf_loop ios (nleft - nbytes) (buf @ bytes_at io (io_offset io) nbytes)
        else ioqtobuf_loop ios nleft buf
      else buf)"

definition ioqtobuf :: "ioqueue \<Rightarrow> int \<Rightarrow> string" where
  "ioqtobuf q cc = ioqtobuf_loop (ioq_list q) cc []"

text \<open>The search of \<open>ioqtocbuf\<close>: how many bytes there are before \<open>stopc\<close>, and whether it was found.\<close>

fun find_stop :: "char \<Rightarrow> io list \<Rightarrow> int \<Rightarrow> int \<times> bool" where
  "find_stop stopc [] tot = (tot, False)"
| "find_stop stopc (io # ios) tot =
     (let nbytes = io_nbytes io - io_offset io in
      if nbytes \<le> 0 then find_stop stopc ios tot
      else let n = int (length (takeWhile (\<lambda>c. c \<noteq> stopc) (bytes_at io (io_offset io) nbytes)))
           in if n < nbytes then (tot + n, True) else find_stop stopc ios (tot + n))"

definition ioqtocbuf :: "ioqueue \<Rightarrow> int \<Rightarrow> char \<Rightarrow> int \<times> string" where
  "ioqtocbuf q cc stopc =
     (let (tot, found) = find_stop stopc (ioq_list q) 0
      in if \<not> found then (- 1, []) else (tot, ioqtobuf q (if cc < tot then cc else tot)))"

fun ioqtoiov_loop :: "io list \<Rightarrow> int \<Rightarrow> nat \<Rightarrow> string list" where
  "ioqtoiov_loop [] cc niov = []"
| "ioqtoiov_loop (io # ios) cc niov =
     (if cc > 0 then
        let len = io_nbytes io - io_offset io; len = (if len > cc then cc else len)
        in bytes_at io (io_offset io) len #
             (if niov + 1 \<ge> 16 then [] else ioqtoiov_loop ios (cc - len) (niov + 1))
      else [])"

definition ioq_makeiov :: "ioqueue \<Rightarrow> int \<Rightarrow> string list" where
  "ioq_makeiov q cc = (if ioq_cc q \<le> 0 then [] else ioqtoiov_loop (ioq_list q) cc 0)"

definition ioq_peek :: "ioqueue \<Rightarrow> int \<Rightarrow> string" where
  "ioq_peek q cc = ioqtobuf q cc"

definition ioq_qsize :: "ioqueue \<Rightarrow> int" where
  "ioq_qsize q = ioq_cc q"

text \<open>
  \<open>appendcc\<close>; \<open>cc\<close> is the length of \<open>buf\<close>. Before the first buffer comes the head of the list, which
  has neither size nor bytes.
\<close>

definition avail :: "ioqueue \<Rightarrow> int" where
  "avail q = (if ioq_list q = [] then 0 else io_size (last (ioq_list q)) - io_nbytes (last (ioq_list q)))"

function appendcc :: "string \<Rightarrow> ioqueue \<Rightarrow> ioqueue" where
  "appendcc buf q =
     (let cc = int (length buf) in
      if avail q > 0 then
        let io = last (ioq_list q); len = (if cc > avail q then avail q else cc);
            q' = q\<lparr>ioq_list := butlast (ioq_list q) @
                     [io\<lparr>io_data := io_data io @ take (nat len) buf, io_nbytes := io_nbytes io + len\<rparr>],
                   ioq_cc := ioq_cc q + len\<rparr>
        in if avail q < cc then appendcc (drop (nat len) buf) q' else q'
      else
        let len = (if cc > ioq_bufsize q then cc else ioq_bufsize q)
        in q\<lparr>ioq_list := ioq_list q @ [\<lparr>io_size = len, io_nbytes = cc, io_offset = 0, io_data = buf\<rparr>],
             ioq_cc := ioq_cc q + cc\<rparr>)"
  by pat_completeness auto
termination
  by (relation "measure (\<lambda>(buf, q). length buf)") (auto split: if_splits)

declare appendcc.simps [simp del]

definition ioq_append :: "string \<Rightarrow> ioqueue \<Rightarrow> ioqueue" where
  "ioq_append buf q = appendcc buf q"

definition ioq_puts :: "string \<Rightarrow> ioqueue \<Rightarrow> int \<times> ioqueue" where
  "ioq_puts buf q = (int (length buf), appendcc buf q)"

fun remove_loop :: "io list \<Rightarrow> int \<Rightarrow> int \<Rightarrow> io list \<times> int" where
  "remove_loop [] remain nbytes = ([], nbytes)"
| "remove_loop (io # ios) remain nbytes =
     (let there = io_nbytes io - io_offset io in
      if there < 0 then remove_loop ios remain nbytes
      else if remain \<ge> there
      then if remain - there \<le> 0 then (ios, nbytes + there) else remove_loop ios (remain - there) (nbytes + there)
      else (io\<lparr>io_offset := io_offset io + remain\<rparr> # ios, nbytes + remain))"

definition removecc :: "int \<Rightarrow> ioqueue \<Rightarrow> int \<times> ioqueue" where
  "removecc cc q =
     (let (ios, nbytes) = remove_loop (ioq_list q) cc 0
      in (nbytes, q\<lparr>ioq_list := ios, ioq_cc := ioq_cc q - nbytes\<rparr>))"

definition ioq_dequeue :: "int \<Rightarrow> ioqueue \<Rightarrow> ioqueue" where
  "ioq_dequeue cc q = snd (removecc cc q)"

text \<open>\<open>ioq_gets\<close>: the line without its end, as the zero-terminated string left in \<open>buf[cc]\<close>.\<close>

definition ioq_gets :: "int \<Rightarrow> ioqueue \<Rightarrow> int \<times> string option \<times> ioqueue" where
  "ioq_gets cc q =
     (let (nbytes, buf) = ioqtocbuf q (cc - 1) (CHR 0x0A) in
      if nbytes \<ge> 0 then
        let actual = (if nbytes > cc - 1 then cc - 1 else nbytes);
            actual = (if actual > 0 \<and> buf ! nat (actual - 1) = CHR 0x0D then actual - 1 else actual)
        in (nbytes, Some (take (nat actual) buf), snd (removecc (nbytes + 1) q))
      else (nbytes, None, q))"

section \<open>The interface\<close>

text \<open>
  What a user of a byte queue relies on: the bytes it holds, and what appending, looking, removing and
  gathering for \<open>writev\<close> do to them. Reading and writing then lose, invent and reorder nothing.
\<close>

locale byte_queue =
  fixes ok :: "'q \<Rightarrow> bool" and held :: "'q \<Rightarrow> string" and append :: "string \<Rightarrow> 'q \<Rightarrow> 'q"
    and dequeue :: "int \<Rightarrow> 'q \<Rightarrow> 'q" and peek :: "'q \<Rightarrow> int \<Rightarrow> string"
    and makeiov :: "'q \<Rightarrow> int \<Rightarrow> string list" and qsize :: "'q \<Rightarrow> int"
  assumes append_law: "ok q \<Longrightarrow> ok (append s q) \<and> held (append s q) = held q @ s"
    and dequeue_law: "ok q \<Longrightarrow> 0 \<le> n \<Longrightarrow> ok (dequeue n q) \<and> held (dequeue n q) = drop (nat n) (held q)"
    and peek_law: "ok q \<Longrightarrow> peek q n = take (nat n) (held q)"
    and makeiov_law: "ok q \<Longrightarrow> prefix (concat (makeiov q n)) (take (nat n) (held q))"
    and qsize_law: "ok q \<Longrightarrow> qsize q = int (length (held q))"
begin

lemma read_conserves:
  assumes "ok q"
  shows "ok (dequeue (int (length (peek q n))) q)
    \<and> peek q n @ held (dequeue (int (length (peek q n))) q) = held q"
  using dequeue_law [OF assms, of "int (length (peek q n))"] peek_law [OF assms, of n] by (simp add: min_def)

lemma written_prefix: "ok q \<Longrightarrow> prefix (take (nat k) (concat (makeiov q n))) (held q)"
  using makeiov_law [of q n] by (meson prefix_order.trans take_is_prefix)

lemma write_conserves:
  assumes q: "ok q" and k: "0 \<le> k" "k \<le> int (length (concat (makeiov q n)))"
  shows "ok (dequeue k q) \<and> take (nat k) (concat (makeiov q n)) @ held (dequeue k q) = held q"
proof -
  obtain zs where zs: "held q = take (nat k) (concat (makeiov q n)) @ zs" using written_prefix [OF q, of k n] by (auto simp: prefix_def)
  have "length (take (nat k) (concat (makeiov q n))) = nat k" using k by simp
  then have "drop (nat k) (held q) = zs" using zs by (metis append_eq_conv_conj)
  then show ?thesis using dequeue_law [OF q k(1)] zs by simp
qed

lemma append_dequeue:
  assumes "ok q" "0 \<le> k" "k \<le> qsize q"
  shows "held (dequeue k (append s q)) = held (dequeue k q) @ s"
  using append_law [OF assms(1), of s] dequeue_law [of _ k] assms qsize_law [OF assms(1)] by simp

end

section \<open>Queues of bytes\<close>

definition io_bytes :: "io \<Rightarrow> string" where
  "io_bytes io = drop (nat (io_offset io)) (io_data io)"

definition bytes :: "ioqueue \<Rightarrow> string" where
  "bytes q = concat (map io_bytes (ioq_list q))"

definition io_ok :: "io \<Rightarrow> bool" where
  "io_ok io \<longleftrightarrow> 0 \<le> io_offset io \<and> io_offset io \<le> io_nbytes io \<and> io_nbytes io \<le> io_size io
     \<and> io_nbytes io = int (length (io_data io))"

definition ioq_ok :: "ioqueue \<Rightarrow> bool" where
  "ioq_ok q \<longleftrightarrow> (\<forall>io \<in> set (ioq_list q). io_ok io) \<and> ioq_cc q = int (length (bytes q))"

lemma io_ok_there: "io_ok io \<Longrightarrow> io_nbytes io - io_offset io = int (length (io_bytes io))"
  by (auto simp: io_ok_def io_bytes_def)

lemma bytes_at_io: "bytes_at io (io_offset io) n = take (nat n) (io_bytes io)"
  by (simp add: bytes_at_def io_bytes_def)

lemma ioqtobuf_loop_bytes:
  "\<forall>io \<in> set ios. io_ok io \<Longrightarrow> ioqtobuf_loop ios n buf = buf @ take (nat n) (concat (map io_bytes ios))"
proof (induction ios arbitrary: n buf)
  case (Cons io ios)
  have ok: "io_ok io" "\<forall>io \<in> set ios. io_ok io" using Cons.prems by simp_all
  note th = io_ok_there [OF ok(1)]
  have IH: "ioqtobuf_loop ios m b = b @ take (nat m) (concat (map io_bytes ios))" for m b by (rule Cons.IH [OF ok(2)])
  show ?case
    by (auto simp: Let_def th bytes_at_io IH nat_diff_distrib)
qed simp

lemma find_stop_bytes:
  "\<forall>io \<in> set ios. io_ok io \<Longrightarrow>
    find_stop stopc ios t = (t + int (length (takeWhile (\<lambda>c. c \<noteq> stopc) (concat (map io_bytes ios)))),
      stopc \<in> set (concat (map io_bytes ios)))"
proof (induction ios arbitrary: t)
  case (Cons io ios)
  have ok: "io_ok io" "\<forall>io \<in> set ios. io_ok io" using Cons.prems by simp_all
  note th = io_ok_there [OF ok(1)]
  let ?xs = "io_bytes io"
  have IH: "find_stop stopc ios m = (m + int (length (takeWhile (\<lambda>c. c \<noteq> stopc) (concat (map io_bytes ios)))),
      stopc \<in> set (concat (map io_bytes ios)))" for m by (rule Cons.IH [OF ok(2)])
  have eq: "find_stop stopc (io # ios) t =
     (if ?xs = [] then find_stop stopc ios t
      else let n = int (length (takeWhile (\<lambda>c. c \<noteq> stopc) ?xs))
           in if n < int (length ?xs) then (t + n, True) else find_stop stopc ios (t + n))"
    by (simp add: Let_def th bytes_at_io)
  show ?case
  proof (cases "stopc \<in> set ?xs")
    case True
    then have "dropWhile (\<lambda>c. c \<noteq> stopc) ?xs \<noteq> []" by auto
    moreover have "length ?xs = length (takeWhile (\<lambda>c. c \<noteq> stopc) ?xs) + length (dropWhile (\<lambda>c. c \<noteq> stopc) ?xs)"
      by (simp flip: length_append)
    ultimately have "length (takeWhile (\<lambda>c. c \<noteq> stopc) ?xs) < length ?xs" by (cases "dropWhile (\<lambda>c. c \<noteq> stopc) ?xs") auto
    moreover have "takeWhile (\<lambda>c. c \<noteq> stopc) (concat (map io_bytes (io # ios))) = takeWhile (\<lambda>c. c \<noteq> stopc) ?xs"
      using True by simp
    ultimately show ?thesis using True by (auto simp: eq Let_def simp del: find_stop.simps)
  next
    case False
    then have "length (takeWhile (\<lambda>c. c \<noteq> stopc) ?xs) = length ?xs"
      by (intro arg_cong [where f = length]) (auto simp: takeWhile_eq_all_conv)
    moreover have "takeWhile (\<lambda>c. c \<noteq> stopc) (concat (map io_bytes (io # ios)))
        = ?xs @ takeWhile (\<lambda>c. c \<noteq> stopc) (concat (map io_bytes ios))"
      using False by (simp, subst takeWhile_append2) auto
    ultimately show ?thesis using False by (simp add: eq IH Let_def del: find_stop.simps)
  qed
qed simp

lemma iov_loop_prefix:
  "\<forall>io \<in> set ios. io_ok io \<Longrightarrow> niov \<le> 16 \<Longrightarrow>
    prefix (concat (ioqtoiov_loop ios cc niov)) (take (nat cc) (concat (map io_bytes ios)))
    \<and> (niov < 16 \<longrightarrow> length (ioqtoiov_loop ios cc niov) + niov \<le> 16)"
proof (induction ios arbitrary: cc niov)
  case (Cons io ios)
  have ok: "io_ok io" "\<forall>io \<in> set ios. io_ok io" using Cons.prems by simp_all
  note th = io_ok_there [OF ok(1)]
  show ?case
  proof (cases "cc > 0")
    case pos: True
    show ?thesis
    proof (cases "niov + 1 \<ge> 16")
      case True
      then show ?thesis using pos by (auto simp: Let_def th bytes_at_io take_is_prefix)
    next
      case False
      then have n: "niov + 1 \<le> 16" "niov + 1 < 16" by simp_all
      have IH: "prefix (concat (ioqtoiov_loop ios m (niov + 1))) (take (nat m) (concat (map io_bytes ios)))"
        "length (ioqtoiov_loop ios m (niov + 1)) + (niov + 1) \<le> 16" for m
        using Cons.IH [OF ok(2) n(1), of m] n(2) by blast+
      show ?thesis
      proof (cases "int (length (io_bytes io)) > cc")
        case True
        then have "nat cc < length (io_bytes io)" using pos by linarith
        then show ?thesis using pos False IH(1) [of 0] IH(2) [of 0] True by (auto simp: Let_def th bytes_at_io)
      next
        case le: False
        then have "nat cc = length (io_bytes io) + nat (cc - int (length (io_bytes io)))" by linarith
        then show ?thesis
          using pos False IH(1) [of "cc - int (length (io_bytes io))"] IH(2) [of "cc - int (length (io_bytes io))"] le
          by (auto simp: Let_def th bytes_at_io)
      qed
    qed
  qed simp
qed simp

lemma remove_loop_bytes:
  "\<forall>io \<in> set ios. io_ok io \<Longrightarrow> 0 \<le> r \<Longrightarrow> remove_loop ios r n = (ios', n') \<Longrightarrow>
    (\<forall>io \<in> set ios'. io_ok io) \<and> concat (map io_bytes ios') = drop (nat r) (concat (map io_bytes ios))
    \<and> n' = n + min r (int (length (concat (map io_bytes ios))))"
proof (induction ios arbitrary: r n)
  case (Cons io ios)
  have ok: "io_ok io" "\<forall>io \<in> set ios. io_ok io" using Cons.prems by simp_all
  note th = io_ok_there [OF ok(1)]
  let ?l = "int (length (io_bytes io))"
  show ?case
  proof (cases "r \<ge> ?l")
    case ge: True
    show ?thesis
    proof (cases "r - ?l \<le> 0")
      case True
      then have "ios' = ios" "n' = n + ?l" "r = ?l" using Cons.prems(3) ge by (simp_all add: Let_def th)
      then show ?thesis using ok(2) by simp
    next
      case False
      then have "remove_loop ios (r - ?l) (n + ?l) = (ios', n')" using Cons.prems(3) ge by (simp add: Let_def th)
      from Cons.IH [OF ok(2) _ this] ge
      have IH: "\<forall>io \<in> set ios'. io_ok io" "concat (map io_bytes ios') = drop (nat (r - ?l)) (concat (map io_bytes ios))"
        "n' = n + ?l + min (r - ?l) (int (length (concat (map io_bytes ios))))" by simp_all
      have "nat r = length (io_bytes io) + nat (r - ?l)" using ge by linarith
      then show ?thesis using IH by simp
    qed
  next
    case False
    then have e: "ios' = io\<lparr>io_offset := io_offset io + r\<rparr> # ios" "n' = n + r" using Cons.prems(3) by (simp_all add: Let_def th)
    have "io_ok (io\<lparr>io_offset := io_offset io + r\<rparr>)" using ok(1) Cons.prems(2) False th by (auto simp: io_ok_def)
    moreover have "io_bytes (io\<lparr>io_offset := io_offset io + r\<rparr>) = drop (nat r) (io_bytes io)"
      using ok(1) Cons.prems(2) by (simp add: io_bytes_def io_ok_def nat_add_distrib add.commute)
    ultimately show ?thesis using e ok(2) False by simp
  qed
qed simp

lemma remove_bytes:
  assumes ok: "ioq_ok q" and r: "0 \<le> r"
  shows "ioq_ok (snd (removecc r q)) \<and> bytes (snd (removecc r q)) = drop (nat r) (bytes q)
    \<and> fst (removecc r q) = min r (int (length (bytes q)))
    \<and> ioq_bufsize (snd (removecc r q)) = ioq_bufsize q"
proof -
  obtain ios' n' where rl: "remove_loop (ioq_list q) r 0 = (ios', n')" by (cases "remove_loop (ioq_list q) r 0")
  have "\<forall>io \<in> set (ioq_list q). io_ok io" using ok by (simp add: ioq_ok_def)
  from remove_loop_bytes [OF this r rl] ok r show ?thesis
    by (auto simp: removecc_def rl ioq_ok_def bytes_def)
qed

lemma append_bytes: "ioq_ok q \<Longrightarrow> ioq_ok (appendcc buf q) \<and> bytes (appendcc buf q) = bytes q @ buf
    \<and> ioq_bufsize (appendcc buf q) = ioq_bufsize q"
proof (induction "length buf" arbitrary: buf q rule: less_induct)
  case less
  show ?case
  proof (cases "avail q > 0")
    case av: True
    then obtain ios io where l: "ioq_list q = ios @ [io]"
      by (metis append_butlast_last_id avail_def less_irrefl)
    have ok: "io_ok io" "\<forall>io \<in> set ios. io_ok io" using less.prems l by (auto simp: ioq_ok_def)
    have a: "avail q = io_size io - io_nbytes io" using l by (simp add: avail_def)
    define n where "n = (if int (length buf) > avail q then avail q else int (length buf))"
    define q' where "q' = q\<lparr>ioq_list := ios @ [io\<lparr>io_data := io_data io @ take (nat n) buf, io_nbytes := io_nbytes io + n\<rparr>],
                   ioq_cc := ioq_cc q + n\<rparr>"
    have n: "0 \<le> n" "n \<le> int (length buf)" "n \<le> avail q" using av by (auto simp: n_def)
    have io': "io_ok (io\<lparr>io_data := io_data io @ take (nat n) buf, io_nbytes := io_nbytes io + n\<rparr>)"
      using ok(1) n a by (auto simp: io_ok_def)
    have "io_bytes (io\<lparr>io_data := io_data io @ take (nat n) buf, io_nbytes := io_nbytes io + n\<rparr>)
        = io_bytes io @ take (nat n) buf"
      using ok(1) by (auto simp: io_bytes_def io_ok_def)
    then have b: "bytes q' = bytes q @ take (nat n) buf" by (simp add: bytes_def q'_def l)
    have q': "ioq_ok q'" using less.prems ok(2) io' b n by (auto simp: ioq_ok_def q'_def l bytes_def)
    have ap: "appendcc buf q = (if avail q < int (length buf) then appendcc (drop (nat n) buf) q' else q')"
      using av by (subst appendcc.simps) (simp add: Let_def l n_def q'_def)
    show ?thesis
    proof (cases "avail q < int (length buf)")
      case True
      then have "length (drop (nat n) buf) < length buf" using av by (simp add: n_def)
      from less.hyps [OF this q'] True b show ?thesis by (simp add: ap) (simp add: q'_def)
    next
      case False
      then have "take (nat n) buf = buf" by (simp add: n_def)
      then show ?thesis using False q' b by (simp add: ap) (simp add: q'_def)
    qed
  next
    case False
    have "appendcc buf q = q\<lparr>ioq_list := ioq_list q @ [\<lparr>io_size = (if int (length buf) > ioq_bufsize q then int (length buf) else ioq_bufsize q),
        io_nbytes = int (length buf), io_offset = 0, io_data = buf\<rparr>], ioq_cc := ioq_cc q + int (length buf)\<rparr>"
      using False by (subst appendcc.simps) (simp add: Let_def)
    then show ?thesis using less.prems by (auto simp: ioq_ok_def bytes_def io_ok_def io_bytes_def)
  qed
qed

lemma peek_bytes: "ioq_ok q \<Longrightarrow> ioq_peek q n = take (nat n) (bytes q)"
  by (simp add: ioq_peek_def ioqtobuf_def ioqtobuf_loop_bytes ioq_ok_def bytes_def)

lemma create_ok: "ioq_ok (ioq_create n)" "bytes (ioq_create n) = []" "ioq_bufsize (ioq_create n) = n"
  by (simp_all add: ioq_create_def ioq_ok_def bytes_def)

lemma drain_ok: "ioq_ok (ioq_drain q)" "bytes (ioq_drain q) = []"
  by (simp_all add: ioq_drain_def ioq_ok_def bytes_def)

lemma makeiov_bytes:
  assumes "ioq_ok q"
  shows "prefix (concat (ioq_makeiov q cc)) (take (nat cc) (bytes q)) \<and> length (ioq_makeiov q cc) \<le> 16"
  using iov_loop_prefix [of "ioq_list q" 0 cc] assms by (auto simp: ioq_makeiov_def ioq_ok_def bytes_def)

interpretation ioq: byte_queue ioq_ok bytes ioq_append ioq_dequeue ioq_peek ioq_makeiov ioq_qsize
proof (unfold_locales, goal_cases)
  case (5 q)
  then show ?case by (simp add: ioq_qsize_def ioq_ok_def)
qed (simp_all add: ioq_append_def append_bytes ioq_dequeue_def remove_bytes peek_bytes makeiov_bytes)

definition ioq_example :: ioqueue where
  "ioq_example = ioq_dequeue 1 (ioq_append ''t'' (ioq_append [CHR 0x0D, CHR 0x0A] (ioq_append ''xgo'' (ioq_create 2))))"

text \<open>
  C19. A byte queue is a string, however it is spread over buffers: a new queue is empty, appending adds at the
  end, looking shows a prefix, removing drops one, draining leaves nothing, \<open>ioq_qsize\<close> is the length, and
  the at most 16 pieces for \<open>writev\<close> are a prefix of at most \<open>n\<close> bytes.
\<close>

theorem ioq_refines_string:
  assumes q: "ioq_ok q" and n: "0 \<le> n"
  shows "ioq_ok (ioq_create b) \<and> bytes (ioq_create b) = []
    \<and> ioq_ok (ioq_drain q) \<and> bytes (ioq_drain q) = []
    \<and> ioq_ok (ioq_append s q) \<and> bytes (ioq_append s q) = bytes q @ s
    \<and> ioq_puts s q = (int (length s), ioq_append s q)
    \<and> ioq_peek q n = take (nat n) (bytes q) \<and> ioq_qsize q = int (length (bytes q))
    \<and> ioq_ok (ioq_dequeue n q) \<and> bytes (ioq_dequeue n q) = drop (nat n) (bytes q)
    \<and> fst (removecc n q) = min n (ioq_qsize q)
    \<and> prefix (concat (ioq_makeiov q n)) (take (nat n) (bytes q)) \<and> length (ioq_makeiov q n) \<le> 16"
  using ioq.append_law [OF q, of s] ioq.dequeue_law [OF q n] ioq.peek_law [OF q, of n] ioq.qsize_law [OF q]
    remove_bytes [OF q n] makeiov_bytes [OF q, of n]
  by (simp add: create_ok drain_ok ioq_puts_def ioq_append_def)

theorem ioq_refines_string_witness:
  "ioq_ok ioq_example \<and> ioq_peek ioq_example 2 = ''go'' \<and> bytes (ioq_dequeue 4 ioq_example) = ''t''"
proof -
  have "ioq_ok ioq_example \<and> bytes ioq_example = ''go'' @ [CHR 0x0D, CHR 0x0A] @ ''t''"
    unfolding ioq_example_def ioq_dequeue_def ioq_append_def
    by (simp add: append_bytes create_ok remove_bytes)
  then show ?thesis using ioq_refines_string [of ioq_example 2] ioq_refines_string [of ioq_example 4] by simp
qed

text \<open>
  No buffer but the last is ever empty, and the last only while it has room, provided new buffers have room;
  so a queue that holds bytes has some to give to \<open>writev\<close>.
\<close>

definition dense_list :: "io list \<Rightarrow> bool" where
  "dense_list ios \<longleftrightarrow> (\<forall>io \<in> set (butlast ios). io_bytes io \<noteq> [])
     \<and> (ios \<noteq> [] \<longrightarrow> io_bytes (last ios) \<noteq> [] \<or> io_nbytes (last ios) < io_size (last ios))"

definition ioq_dense :: "ioqueue \<Rightarrow> bool" where
  "ioq_dense q \<longleftrightarrow> ioq_ok q \<and> 0 < ioq_bufsize q \<and> dense_list (ioq_list q)"

lemma dense_tl: "dense_list (io # ios) \<Longrightarrow> dense_list ios"
  by (cases ios) (auto simp: dense_list_def split: if_splits)

lemma dense_hd: "dense_list (io # ios) \<Longrightarrow> io_bytes io' \<noteq> [] \<Longrightarrow> dense_list (io' # ios)"
  by (cases ios) (auto simp: dense_list_def split: if_splits)

lemma dense_snoc: "dense_list (ios @ [io]) \<longleftrightarrow> (\<forall>i \<in> set ios. io_bytes i \<noteq> [])
    \<and> (io_bytes io \<noteq> [] \<or> io_nbytes io < io_size io)"
  by (auto simp: dense_list_def)

lemma remove_loop_dense:
  "\<forall>io \<in> set ios. io_ok io \<Longrightarrow> dense_list ios \<Longrightarrow> 0 \<le> r \<Longrightarrow> dense_list (fst (remove_loop ios r n))"
proof (induction ios arbitrary: r n)
  case (Cons io ios)
  have ok: "io_ok io" "\<forall>io \<in> set ios. io_ok io" using Cons.prems by simp_all
  note th = io_ok_there [OF ok(1)]
  have tl: "dense_list ios" using Cons.prems(2) by (rule dense_tl)
  show ?case
  proof (cases "r \<ge> int (length (io_bytes io))")
    case True
    have "dense_list (fst (remove_loop ios (r - int (length (io_bytes io))) (n + int (length (io_bytes io)))))"
      by (rule Cons.IH [OF ok(2) tl]) (use True in simp)
    then show ?thesis using True tl by (auto simp: Let_def th)
  next
    case False
    have "io_bytes (io\<lparr>io_offset := io_offset io + r\<rparr>) = drop (nat r) (io_bytes io)"
      using ok(1) Cons.prems(3) by (simp add: io_bytes_def io_ok_def nat_add_distrib add.commute)
    moreover have "nat r < length (io_bytes io)" using False Cons.prems(3) by linarith
    ultimately have "dense_list (io\<lparr>io_offset := io_offset io + r\<rparr> # ios)" by (intro dense_hd [OF Cons.prems(2)]) simp
    then show ?thesis using False by (simp add: Let_def th)
  qed
qed (simp add: dense_list_def)

lemma dequeue_dense: "ioq_dense q \<Longrightarrow> 0 \<le> r \<Longrightarrow> ioq_dense (ioq_dequeue r q)"
  using remove_bytes [of q r] remove_loop_dense [of "ioq_list q" r 0]
  by (simp add: ioq_dense_def ioq_dequeue_def removecc_def ioq_ok_def split: prod.splits)

lemma append_dense: "ioq_dense q \<Longrightarrow> ioq_dense (appendcc buf q)"
proof (induction "length buf" arbitrary: buf q rule: less_induct)
  case less
  have q: "ioq_ok q" "0 < ioq_bufsize q" "dense_list (ioq_list q)" using less.prems by (simp_all add: ioq_dense_def)
  have res: "ioq_ok (appendcc buf q)" "ioq_bufsize (appendcc buf q) = ioq_bufsize q" using append_bytes [OF q(1), of buf] by blast+
  have "dense_list (ioq_list (appendcc buf q))"
  proof (cases "avail q > 0")
    case av: True
    then obtain ios io where l: "ioq_list q = ios @ [io]"
      by (metis append_butlast_last_id avail_def less_irrefl)
    have ok: "io_ok io" using q(1) l by (auto simp: ioq_ok_def)
    have a: "avail q = io_size io - io_nbytes io" using l by (simp add: avail_def)
    have d: "\<forall>i \<in> set ios. io_bytes i \<noteq> []" using q(3) l by (simp add: dense_snoc)
    let ?io = "\<lambda>n. io\<lparr>io_data := io_data io @ take (nat n) buf, io_nbytes := io_nbytes io + n\<rparr>"
    let ?q = "\<lambda>n. q\<lparr>ioq_list := ios @ [?io n], ioq_cc := ioq_cc q + n\<rparr>"
    have b: "io_bytes (?io n) = io_bytes io @ take (nat n) buf" for n using ok by (auto simp: io_bytes_def io_ok_def)
    show ?thesis
    proof (cases "avail q < int (length buf)")
      case True
      then have ap: "appendcc buf q = appendcc (drop (nat (avail q)) buf) (?q (avail q))"
        using av by (subst appendcc.simps) (simp add: Let_def l)
      have ok': "io_ok (?io (avail q))" using ok a av True by (auto simp: io_ok_def)
      have "bytes (?q (avail q)) = bytes q @ take (nat (avail q)) buf" by (simp add: bytes_def l b)
      then have "ioq_ok (?q (avail q))" using q(1) ok' av True l by (auto simp: ioq_ok_def)
      moreover have "take (nat (avail q)) buf \<noteq> []" using av True by auto
      ultimately have "ioq_dense (?q (avail q))" using q(2) d by (simp add: ioq_dense_def dense_snoc b)
      moreover have "length (drop (nat (avail q)) buf) < length buf" using av True by simp
      ultimately have "ioq_dense (appendcc buf q)" using less.hyps ap by simp
      then show ?thesis by (simp add: ioq_dense_def)
    next
      case False
      then have ap: "appendcc buf q = ?q (int (length buf))"
        using av by (subst appendcc.simps) (simp add: Let_def l)
      show ?thesis
      proof (cases "buf = []")
        case True
        then show ?thesis unfolding ap using d a av by (simp add: dense_snoc)
      next
        case False
        then show ?thesis using d b [of "int (length buf)"] by (simp add: ap dense_snoc)
      qed
    qed
  next
    case False
    let ?new = "\<lparr>io_size = (if int (length buf) > ioq_bufsize q then int (length buf) else ioq_bufsize q),
        io_nbytes = int (length buf), io_offset = 0, io_data = buf\<rparr>"
    have ap: "ioq_list (appendcc buf q) = ioq_list q @ [?new]"
      using False by (subst appendcc.simps) (simp add: Let_def)
    have new: "io_bytes ?new \<noteq> [] \<or> io_nbytes ?new < io_size ?new" using q(2) by (simp add: io_bytes_def)
    have "\<forall>i \<in> set (ioq_list q). io_bytes i \<noteq> []"
    proof (cases "ioq_list q" rule: rev_cases)
      case (snoc ios io)
      then have "\<not> io_nbytes io < io_size io" using False by (simp add: avail_def)
      then show ?thesis using q(3) snoc by (simp add: dense_snoc)
    qed simp
    then show ?thesis using new by (simp only: ap dense_snoc simp_thms)
  qed
  then show ?case using q(2) res by (simp add: ioq_dense_def)
qed

lemma create_dense: "0 < n \<Longrightarrow> ioq_dense (ioq_create n)"
  by (simp add: ioq_dense_def create_ok) (simp add: ioq_create_def dense_list_def)

lemma makeiov_nonempty:
  assumes q: "ioq_dense q" and b: "bytes q \<noteq> []" and n: "0 < n"
  shows "concat (ioq_makeiov q n) \<noteq> []"
proof -
  obtain io ios where l: "ioq_list q = io # ios" using b by (cases "ioq_list q") (auto simp: bytes_def)
  have ok: "io_ok io" using q l by (simp add: ioq_dense_def ioq_ok_def)
  note th = io_ok_there [OF ok]
  have "io_bytes io \<noteq> []"
    using q l b by (cases ios) (auto simp: ioq_dense_def dense_list_def bytes_def)
  moreover have "ioq_cc q > 0" using q b by (simp add: ioq_dense_def ioq_ok_def)
  ultimately show ?thesis using n by (auto simp: ioq_makeiov_def l Let_def th bytes_at_io)
qed

section \<open>Lines\<close>

text \<open>The line \<open>ioq_gets\<close> reads into a buffer of \<open>cc\<close> bytes: cut to fit, without a carriage return at its end.\<close>

definition chop_cr :: "string \<Rightarrow> string" where
  "chop_cr s = (if s \<noteq> [] \<and> last s = CHR 0x0D then butlast s else s)"

lemma gets_line:
  assumes q: "ioq_ok q" and cc: "1 \<le> cc"
  shows "(CHR 0x0A \<notin> set (bytes q) \<and> ioq_gets cc q = (- 1, None, q))
    \<or> (\<exists>line rest q'. bytes q = line @ CHR 0x0A # rest \<and> CHR 0x0A \<notin> set line
        \<and> ioq_gets cc q = (int (length line), Some (chop_cr (take (nat (cc - 1)) line)), q')
        \<and> ioq_ok q' \<and> bytes q' = rest)"
proof (cases "CHR 0x0A \<in> set (bytes q)")
  case False
  have "ioqtocbuf q (cc - 1) (CHR 0x0A) = (- 1, [])"
    using False q by (simp add: ioqtocbuf_def find_stop_bytes ioq_ok_def bytes_def)
  then show ?thesis using False by (simp add: ioq_gets_def)
next
  case True
  then obtain line rest where split: "bytes q = line @ CHR 0x0A # rest" and nl: "CHR 0x0A \<notin> set line"
    by (rule split_list_first [THEN exE]) blast
  have line_def: "takeWhile (\<lambda>c. c \<noteq> CHR 0x0A) (bytes q) = line"
    unfolding split using nl by (subst takeWhile_append2) auto
  define buf where "buf = take (nat (cc - 1)) line"
  have "ioqtobuf q n = take (nat n) (bytes q)" for n using peek_bytes [OF q] by (simp add: ioq_peek_def)
  moreover have "find_stop (CHR 0x0A) (ioq_list q) 0 = (int (length line), True)"
    using True q line_def find_stop_bytes [of "ioq_list q" "CHR 0x0A" 0] by (simp add: ioq_ok_def bytes_def [symmetric])
  moreover have "take (nat (if cc - 1 < int (length line) then cc - 1 else int (length line))) (bytes q) = buf"
    by (auto simp: buf_def split)
  ultimately have cb: "ioqtocbuf q (cc - 1) (CHR 0x0A) = (int (length line), buf)"
    by (simp add: ioqtocbuf_def)
  have act: "(if int (length line) > cc - 1 then cc - 1 else int (length line)) = int (length buf)"
    by (cases "int (length line) > cc - 1") (use cc in \<open>simp_all add: buf_def\<close>)
  have chop: "take (nat (if int (length buf) > 0 \<and> buf ! nat (int (length buf) - 1) = CHR 0x0D then int (length buf) - 1
      else int (length buf))) buf = chop_cr buf"
  proof (cases "buf = []")
    case False
    then have "nat (int (length buf) - 1) = length buf - 1" by (cases buf) simp_all
    then show ?thesis using False by (simp add: chop_cr_def last_conv_nth butlast_conv_take)
  qed (simp add: chop_cr_def)
  have g: "ioq_gets cc q = (int (length line), Some (chop_cr buf), snd (removecc (int (length line) + 1) q))"
    unfolding ioq_gets_def cb Let_def prod.case act chop by simp
  have "bytes (snd (removecc (int (length line) + 1) q)) = rest \<and> ioq_ok (snd (removecc (int (length line) + 1) q))"
    using remove_bytes [OF q, of "int (length line) + 1"] by (simp add: split nat_add_distrib)
  then show ?thesis using split nl g unfolding buf_def by blast
qed

text \<open>
  \<open>ioq_gets\<close>, with room for at least the terminating zero, returns -1 and leaves the queue alone
  just when the queue holds no complete line; else it returns the length of the first line, stores the line,
  cut to \<open>cc - 1\<close> bytes and then without a carriage return at its end, and takes just the line and its
  newline out of the queue, however the bytes are spread over buffers.
\<close>

theorem ioq_gets_line:
  assumes q: "ioq_ok q" and cc: "1 \<le> cc"
  shows "(CHR 0x0A \<notin> set (bytes q) \<and> ioq_gets cc q = (- 1, None, q))
    \<or> (\<exists>line rest q'. bytes q = line @ CHR 0x0A # rest \<and> CHR 0x0A \<notin> set line
        \<and> ioq_gets cc q = (int (length line), Some (chop_cr (take (nat (cc - 1)) line)), q')
        \<and> ioq_ok q' \<and> bytes q' = rest)"
  by (rule gets_line [OF assms])

theorem ioq_gets_line_witness:
  "\<exists>q'. ioq_gets 80 ioq_example = (3, Some ''go'', q') \<and> bytes q' = ''t''"
proof -
  have b: "ioq_ok ioq_example \<and> bytes ioq_example = ''go'' @ [CHR 0x0D, CHR 0x0A] @ ''t''"
    unfolding ioq_example_def ioq_dequeue_def ioq_append_def
    by (simp add: append_bytes create_ok remove_bytes)
  then obtain line rest q' where l: "''go'' @ [CHR 0x0D, CHR 0x0A] @ ''t'' = line @ CHR 0x0A # rest" "CHR 0x0A \<notin> set line"
    "ioq_gets 80 ioq_example = (int (length line), Some (chop_cr (take 79 line)), q')" "bytes q' = rest"
    using ioq_gets_line [of ioq_example 80] by auto
  have "line = takeWhile (\<lambda>c. c \<noteq> CHR 0x0A) (''go'' @ [CHR 0x0D, CHR 0x0A] @ ''t'')"
    unfolding l(1) using l(2) by (induction line) auto
  then have "line = ''go'' @ [CHR 0x0D]" by simp
  then show ?thesis using l by (auto simp: chop_cr_def)
qed

end
