(* ===== verification/Io.thy ===== *)
theory Io
  imports FileTable IoQueue
begin

text \<open>
  Buffered input and output on a connection, \<open>src/lib/empthread/io.c\<close> and \<open>include/empio.h\<close>, on the byte
  queues of theory \<open>IoQueue\<close>. \<open>ef_make_stale\<close> is that of theory \<open>FileTable\<close>. What the system calls
  answer is an argument, \<open>net\<close>: the time of day, the result of \<open>empth_select\<close> for a timeout, and what
  \<open>read\<close> and \<open>writev\<close> give, \<open>Inl again\<close> for -1, where \<open>again\<close> says that \<open>errno\<close> is \<open>EAGAIN\<close> or
  \<open>EWOULDBLOCK\<close>. None is the result of a function that follows a null pointer. Other threads are not
  scheduled inside a call.
\<close>

unbundle bit_operations_syntax

definition IO_READ :: int where "IO_READ = 0x1"
definition IO_WRITE :: int where "IO_WRITE = 0x2"
definition IO_EOF :: int where "IO_EOF = 0x10"
definition IO_ERROR :: int where "IO_ERROR = 0x40"
definition IO_BUFSIZE :: int where "IO_BUFSIZE = 4096"

record iop =
  iop_fd :: int
  iop_input :: "ioqueue option"
  iop_output :: "ioqueue option"
  iop_flags :: int
  iop_bufsize :: int
  iop_last_out :: int

record net =
  n_now :: "int \<times> int"
  n_select :: "(int \<times> int) option \<Rightarrow> int"
  n_read :: "bool + string"
  n_writev :: "string list \<Rightarrow> bool + int"

text \<open>\<open>getfl\<close> and \<open>setfl\<close> are the results of the two calls of \<open>fcntl\<close>; \<open>malloc\<close> succeeds.\<close>

definition io_open :: "int \<Rightarrow> int \<Rightarrow> int \<Rightarrow> int \<Rightarrow> int \<Rightarrow> iop option" where
  "io_open fdes fl bufsize getfl setfl =
     (let fl = fl AND (IO_READ OR IO_WRITE) in
      if fl AND (IO_READ OR IO_WRITE) = 0 then None
      else if getfl < 0 then None
      else if setfl < 0 then None
      else let p = \<lparr>iop_fd = fdes, iop_input = None, iop_output = None, iop_flags = fl, iop_bufsize = bufsize, iop_last_out = 0\<rparr>;
               p = (if fl AND IO_READ \<noteq> 0 then p\<lparr>iop_input := Some (ioq_create bufsize)\<rparr> else p);
               p = (if fl AND IO_WRITE \<noteq> 0 then p\<lparr>iop_output := Some (ioq_create bufsize)\<rparr> else p)
           in Some p)"

definition io_timeout :: "int \<Rightarrow> int \<times> int \<Rightarrow> (int \<times> int) option" where
  "io_timeout deadline now =
     (if deadline = - 1 then None
      else if fst now \<ge> deadline then Some (0, 0)
      else Some (deadline - fst now - 1, 999999 - snd now))"

definition set_error :: "iop \<Rightarrow> iop" where
  "set_error p = p\<lparr>iop_flags := iop_flags p OR IO_ERROR\<rparr>"

definition io_input :: "int \<Rightarrow> net \<Rightarrow> iop \<Rightarrow> (int \<times> iop) option" where
  "io_input deadline n p =
     (if iop_flags p AND IO_READ = 0 then Some (- 1, p)
      else if iop_flags p AND IO_ERROR \<noteq> 0 then Some (- 1, p)
      else if iop_flags p AND IO_EOF \<noteq> 0 then Some (0, p)
      else let res = (if deadline \<noteq> 0 then n_select n (io_timeout deadline (n_now n)) else 1) in
        if res < 0 then Some (- 1, set_error p)
        else if res = 0 then Some (0, p)
        else case n_read n of
          Inl again \<Rightarrow> if again then Some (0, p) else Some (- 1, set_error p)
        | Inr buf \<Rightarrow>
            if buf = [] then Some (0, p\<lparr>iop_flags := iop_flags p OR IO_EOF\<rparr>)
            else case iop_input p of
              None \<Rightarrow> None
            | Some q \<Rightarrow> Some (int (length buf), p\<lparr>iop_input := Some (ioq_append buf q)\<rparr>))"

definition io_inputwaiting :: "iop \<Rightarrow> int option" where
  "io_inputwaiting p = map_option ioq_qsize (iop_input p)"

definition io_outputwaiting :: "iop \<Rightarrow> int option" where
  "io_outputwaiting p = map_option ioq_qsize (iop_output p)"

text \<open>The bytes \<open>writev\<close> took are part of the result.\<close>

definition io_output :: "int \<Rightarrow> net \<Rightarrow> iop \<Rightarrow> 'a db \<Rightarrow> (int \<times> string \<times> iop \<times> 'a db) option" where
  "io_output deadline n p d =
     (let d = (if deadline \<noteq> 0 then ef_make_stale d else d) in
      if iop_flags p AND IO_WRITE = 0 then Some (- 1, [], p, d)
      else if iop_flags p AND IO_ERROR \<noteq> 0 then Some (- 1, [], p, d)
      else case iop_output p of
        None \<Rightarrow> None
      | Some out \<Rightarrow>
          if ioq_qsize out = 0 then Some (0, [], p, d)
          else let res = (if deadline \<noteq> 0 then n_select n (io_timeout deadline (n_now n)) else 1) in
            if res = 0 then Some (0, [], p, d)
            else if res < 0 then Some (- 1, [], set_error p, d)
            else let iov = ioq_makeiov out IO_BUFSIZE in
              case n_writev n iov of
                Inl again \<Rightarrow> if again then Some (0, [], p, d) else Some (- 1, [], set_error p, d)
              | Inr cc \<Rightarrow>
                  let out = ioq_dequeue cc out in
                  Some (cc, take (nat cc) (concat iov), p\<lparr>iop_output := Some out, iop_last_out := ioq_qsize out\<rparr>, d))"

definition io_output_if_queue_long :: "int \<Rightarrow> net \<Rightarrow> iop \<Rightarrow> 'a db \<Rightarrow> (int \<times> string \<times> iop \<times> 'a db) option" where
  "io_output_if_queue_long deadline n p d =
     (case iop_output p of
        None \<Rightarrow> None
      | Some out \<Rightarrow>
          let len = ioq_qsize out;
              p = (if iop_last_out p > len then p\<lparr>iop_last_out := 0\<rparr> else p) in
          if len - iop_last_out p < iop_bufsize p
          then Some (0, [], p, if deadline \<noteq> 0 then ef_make_stale d else d)
          else io_output deadline n p d)"

definition io_peek :: "int \<Rightarrow> iop \<Rightarrow> (int \<times> string) option" where
  "io_peek nbytes p =
     (if iop_flags p AND IO_READ = 0 then Some (- 1, [])
      else map_option (\<lambda>q. (int (length (ioq_peek q nbytes)), ioq_peek q nbytes)) (iop_input p))"

definition io_read :: "int \<Rightarrow> iop \<Rightarrow> (int \<times> string \<times> iop) option" where
  "io_read nbytes p =
     (if iop_flags p AND IO_READ = 0 then Some (- 1, [], p)
      else case iop_input p of
        None \<Rightarrow> None
      | Some q \<Rightarrow>
          let buf = ioq_peek q nbytes; cc = int (length buf);
              q = (if cc > 0 then ioq_dequeue cc q else q)
          in Some (cc, buf, p\<lparr>iop_input := Some q\<rparr>))"

definition io_write :: "string \<Rightarrow> iop \<Rightarrow> (int \<times> iop) option" where
  "io_write buf p =
     (if iop_flags p AND IO_WRITE = 0 then Some (- 1, p)
      else map_option (\<lambda>q. (int (length buf), p\<lparr>iop_output := Some (ioq_append buf q)\<rparr>)) (iop_output p))"

definition io_gets :: "int \<Rightarrow> iop \<Rightarrow> (int \<times> string option \<times> iop) option" where
  "io_gets nbytes p =
     (if iop_flags p AND IO_READ = 0 then Some (- 1, None, p)
      else map_option (\<lambda>q. case ioq_gets nbytes q of (n, line, q) \<Rightarrow> (n, line, p\<lparr>iop_input := Some q\<rparr>)) (iop_input p))"

definition io_puts :: "string \<Rightarrow> iop \<Rightarrow> (int \<times> iop) option" where
  "io_puts buf p =
     (if iop_flags p AND IO_WRITE = 0 then Some (- 1, p)
      else map_option (\<lambda>q. case ioq_puts buf q of (n, q) \<Rightarrow> (n, p\<lparr>iop_output := Some q\<rparr>)) (iop_output p))"

definition io_error :: "iop \<Rightarrow> bool" where
  "io_error p \<longleftrightarrow> iop_flags p AND IO_ERROR \<noteq> 0"

definition io_eof :: "iop \<Rightarrow> bool" where
  "io_eof p \<longleftrightarrow> iop_flags p AND IO_EOF \<noteq> 0"

definition io_set_eof :: "iop \<Rightarrow> iop option" where
  "io_set_eof p = map_option (\<lambda>q. p\<lparr>iop_input := Some (ioq_drain q), iop_flags := iop_flags p OR IO_EOF\<rparr>) (iop_input p)"

text \<open>
  \<open>while (io_output(iop, deadline) > 0) ;\<close>, which call after call finds the network as \<open>ns 0\<close>, \<open>ns 1\<close>, ...
  The number of calls made and all the bytes sent are part of the result; \<open>Some None\<close> is a null pointer.
\<close>

partial_function (option) io_flush ::
    "int \<Rightarrow> (nat \<Rightarrow> net) \<Rightarrow> nat \<Rightarrow> string \<Rightarrow> iop \<Rightarrow> 'a db \<Rightarrow> (nat \<times> string \<times> iop \<times> 'a db) option option" where
  [code]: "io_flush deadline ns i sent p d =
     (case io_output deadline (ns i) p d of
        None \<Rightarrow> Some None
      | Some (r, s, p, d) \<Rightarrow>
          if r > 0 then io_flush deadline ns (Suc i) (sent @ s) p d else Some (Some (Suc i, sent @ s, p, d)))"

text \<open>
  \<open>io_close\<close> flushes, then reads and discards what the client still sends; freeing the \<open>iop\<close> is the end
  of the model's value, so that the result is what was sent.
\<close>

partial_function (option) discard_input :: "int \<Rightarrow> (nat \<Rightarrow> net) \<Rightarrow> nat \<Rightarrow> nat option" where
  [code]: "discard_input deadline ns i =
     (if n_select (ns i) (io_timeout deadline (n_now (ns i))) > 0
      then case n_read (ns i) of
             Inl _ \<Rightarrow> Some (Suc i)
           | Inr buf \<Rightarrow> if buf = [] then Some (Suc i) else discard_input deadline ns (Suc i)
      else Some (Suc i))"

definition io_close :: "int \<Rightarrow> (nat \<Rightarrow> net) \<Rightarrow> iop \<Rightarrow> 'a db \<Rightarrow> (string \<times> 'a db) option option" where
  "io_close deadline ns p d =
     (case io_flush deadline ns 0 [] p d of
        None \<Rightarrow> None
      | Some None \<Rightarrow> Some None
      | Some (Some (i, sent, p, d)) \<Rightarrow>
          case discard_input deadline ns i of None \<Rightarrow> None | Some i \<Rightarrow> Some (Some (sent, d)))"

section \<open>What is queued\<close>

definition pending :: "iop \<Rightarrow> string" where
  "pending p = (case iop_output p of None \<Rightarrow> [] | Some q \<Rightarrow> bytes q)"

definition unread :: "iop \<Rightarrow> string" where
  "unread p = (case iop_input p of None \<Rightarrow> [] | Some q \<Rightarrow> bytes q)"

definition iop_ok :: "iop \<Rightarrow> bool" where
  "iop_ok p \<longleftrightarrow> (iop_flags p AND IO_READ \<noteq> 0 \<longleftrightarrow> iop_input p \<noteq> None) \<and> (iop_flags p AND IO_WRITE \<noteq> 0 \<longleftrightarrow> iop_output p \<noteq> None)
     \<and> pred_option ioq_dense (iop_input p)
     \<and> pred_option (\<lambda>q. ioq_dense q \<and> 0 \<le> iop_last_out p \<and> iop_last_out p \<le> ioq_qsize q) (iop_output p)"

text \<open>What \<open>writev\<close> promises: it takes no more than it is given.\<close>

definition net_ok :: "net \<Rightarrow> bool" where
  "net_ok n \<longleftrightarrow> (\<forall>iov. case n_writev n iov of Inl _ \<Rightarrow> True | Inr k \<Rightarrow> 0 \<le> k \<and> k \<le> int (length (concat iov)))"

text \<open>A network that takes something whenever it is asked.\<close>

definition net_takes :: "net \<Rightarrow> bool" where
  "net_takes n \<longleftrightarrow> (\<forall>t. n_select n t > 0)
     \<and> (\<forall>iov. concat iov \<noteq> [] \<longrightarrow> (case n_writev n iov of Inl _ \<Rightarrow> False | Inr k \<Rightarrow> 0 < k))"

lemmas io_flags = IO_READ_def IO_WRITE_def IO_EOF_def IO_ERROR_def

lemma flags_or:
  "(f OR IO_ERROR) AND IO_READ = f AND IO_READ" "(f OR IO_ERROR) AND IO_WRITE = f AND IO_WRITE"
  "(f OR IO_EOF) AND IO_READ = f AND IO_READ" "(f OR IO_EOF) AND IO_WRITE = f AND IO_WRITE"
  "(f OR IO_EOF) AND IO_ERROR = f AND IO_ERROR" "(f OR IO_ERROR) AND IO_EOF = f AND IO_EOF"
  by (simp_all add: bit.conj_disj_distrib2 io_flags)

lemma error_set: "io_error (set_error p)"
proof -
  have "(f OR IO_ERROR) AND IO_ERROR = IO_ERROR" for f
    by (rule bit_eqI) (auto simp: bit_and_iff bit_or_iff)
  then show ?thesis by (simp add: io_error_def set_error_def) (simp add: io_flags)
qed

lemma set_error_ok: "iop_ok (set_error p) = iop_ok p" "pending (set_error p) = pending p" "unread (set_error p) = unread p"
    "iop_input (set_error p) = iop_input p" "iop_output (set_error p) = iop_output p"
    "iop_bufsize (set_error p) = iop_bufsize p"
  by (simp_all add: iop_ok_def set_error_def flags_or pending_def unread_def)

lemma dense_ok: "ioq_dense q \<Longrightarrow> ioq_ok q"
  by (simp add: ioq_dense_def)

lemma qsize_zero: "ioq_ok q \<Longrightarrow> ioq_qsize q = 0 \<longleftrightarrow> bytes q = []"
  using ioq.qsize_law [of q] by auto

lemma io_output_step:
  assumes p: "iop_ok p" and n: "net_ok n"
  shows "\<exists>r s p' d'. io_output dl n p d = Some (r, s, p', d') \<and> iop_ok p' \<and> s @ pending p' = pending p
    \<and> iop_input p' = iop_input p \<and> iop_bufsize p' = iop_bufsize p
    \<and> (r = int (length s) \<or> r = - 1 \<and> s = [] \<and> (iop_flags p AND IO_WRITE = 0 \<or> io_error p'))
    \<and> (dl = 0 \<longrightarrow> d' = d) \<and> (dl \<noteq> 0 \<longrightarrow> d' = ef_make_stale d)
    \<and> (net_takes n \<and> iop_flags p AND IO_WRITE \<noteq> 0 \<and> \<not> io_error p \<and> pending p \<noteq> [] \<longrightarrow> 0 < r)
    \<and> (r \<noteq> - 1 \<longrightarrow> iop_flags p' = iop_flags p) \<and> (iop_output p' = None \<longleftrightarrow> iop_output p = None)"
proof (cases "iop_flags p AND IO_WRITE = 0 \<or> io_error p")
  case True
  then show ?thesis using p by (auto simp: io_output_def Let_def io_error_def)
next
  case False
  then obtain q where q: "iop_output p = Some q" using p by (auto simp: iop_ok_def)
  have d: "ioq_dense q" "0 \<le> iop_last_out p" "iop_last_out p \<le> ioq_qsize q" using p q by (auto simp: iop_ok_def)
  have nf: "iop_flags p AND IO_WRITE \<noteq> 0" "iop_flags p AND IO_ERROR = 0" using False by (auto simp: io_error_def)
  define e where "e = (if dl \<noteq> 0 then ef_make_stale d else d)"
  define res where "res = (if dl \<noteq> 0 then n_select n (io_timeout dl (n_now n)) else 1)"
  define iov where "iov = ioq_makeiov q IO_BUFSIZE"
  have out: "io_output dl n p d = (if ioq_qsize q = 0 then Some (0, [], p, e)
      else if res = 0 then Some (0, [], p, e) else if res < 0 then Some (- 1, [], set_error p, e)
      else case n_writev n iov of Inl again \<Rightarrow> if again then Some (0, [], p, e) else Some (- 1, [], set_error p, e)
        | Inr cc \<Rightarrow> Some (cc, take (nat cc) (concat iov),
            p\<lparr>iop_output := Some (ioq_dequeue cc q), iop_last_out := ioq_qsize (ioq_dequeue cc q)\<rparr>, e))"
    using nf q by (cases "dl = 0"; cases "n_writev n iov") (simp_all add: io_output_def Let_def e_def res_def iov_def)
  have pend: "pending p = bytes q" by (simp add: pending_def q)
  have e: "dl = 0 \<longrightarrow> e = d" "dl \<noteq> 0 \<longrightarrow> e = ef_make_stale d" by (simp_all add: e_def)
  show ?thesis
  proof (cases "ioq_qsize q = 0")
    case True
    then show ?thesis using p e qsize_zero [OF dense_ok [OF d(1)]] by (auto simp: out pend)
  next
    case sz: False
    show ?thesis
    proof (cases "res \<le> 0")
      case True
      then have "\<not> net_takes n" by (auto simp: res_def net_takes_def split: if_splits) (meson not_less)
      then show ?thesis using p e sz True error_set [of p] by (cases "res = 0") (auto simp: out set_error_ok)
    next
      case res: False
      show ?thesis
      proof (cases "n_writev n iov")
        case (Inl again)
        have "concat iov \<noteq> []"
          using makeiov_nonempty [OF d(1), of IO_BUFSIZE] sz qsize_zero [OF dense_ok [OF d(1)]] by (simp add: iov_def IO_BUFSIZE_def)
        then have "\<not> net_takes n" using Inl by (auto simp: net_takes_def)
        then show ?thesis using p e sz res Inl error_set [of p] by (cases again) (auto simp: out set_error_ok)
      next
        case (Inr k)
        have k: "0 \<le> k" "k \<le> int (length (concat iov))" using n Inr by (auto simp: net_ok_def dest: spec [of _ iov])
        have w: "take (nat k) (concat iov) @ bytes (ioq_dequeue k q) = bytes q"
          using ioq.write_conserves [OF dense_ok [OF d(1)] k(1) k(2) [unfolded iov_def]] by (simp add: iov_def)
        have dd: "ioq_dense (ioq_dequeue k q)" by (rule dequeue_dense [OF d(1) k(1)])
        have pos: "net_takes n \<longrightarrow> 0 < k"
          using makeiov_nonempty [OF d(1), of IO_BUFSIZE] sz qsize_zero [OF dense_ok [OF d(1)]] Inr
          by (auto simp: net_takes_def iov_def IO_BUFSIZE_def dest: spec [of _ iov])
        define p' where "p' = p\<lparr>iop_output := Some (ioq_dequeue k q), iop_last_out := ioq_qsize (ioq_dequeue k q)\<rparr>"
        have "io_output dl n p d = Some (k, take (nat k) (concat iov), p', e)" using sz res Inr by (simp add: out p'_def)
        moreover have "iop_ok p'" using p dd ioq.qsize_law [OF dense_ok [OF dd]] q by (simp add: iop_ok_def p'_def)
        moreover have "take (nat k) (concat iov) @ pending p' = pending p" using w by (simp add: pending_def p'_def q)
        moreover have "k = int (length (take (nat k) (concat iov)))" using k by simp
        ultimately show ?thesis using e pos q by (auto simp: p'_def)
      qed
    qed
  qed
qed

lemma io_long_step:
  assumes p: "iop_ok p" "iop_flags p AND IO_WRITE \<noteq> 0" and n: "net_ok n"
  shows "\<exists>r s p' d'. io_output_if_queue_long dl n p d = Some (r, s, p', d') \<and> iop_ok p' \<and> s @ pending p' = pending p
    \<and> iop_input p' = iop_input p \<and> (iop_flags p' AND IO_WRITE \<noteq> 0) \<and> (r = int (length s) \<or> r = - 1 \<and> s = [])
    \<and> (dl = 0 \<longrightarrow> d' = d) \<and> (dl \<noteq> 0 \<longrightarrow> d' = ef_make_stale d)"
proof -
  obtain q where q: "iop_output p = Some q" using p by (auto simp: iop_ok_def)
  have lo: "\<not> iop_last_out p > ioq_qsize q" using p q by (auto simp: iop_ok_def)
  have eq: "io_output_if_queue_long dl n p d = (if ioq_qsize q - iop_last_out p < iop_bufsize p
      then Some (0, [], p, if dl \<noteq> 0 then ef_make_stale d else d) else io_output dl n p d)"
    using lo by (simp add: io_output_if_queue_long_def q Let_def)
  show ?thesis
  proof (cases "ioq_qsize q - iop_last_out p < iop_bufsize p")
    case True
    then show ?thesis using p by (auto simp: eq)
  next
    case False
    obtain r s p' d' where o: "io_output dl n p d = Some (r, s, p', d')" "iop_ok p'" "s @ pending p' = pending p"
      "iop_input p' = iop_input p" "r = int (length s) \<or> r = - 1 \<and> s = []"
      "dl = 0 \<longrightarrow> d' = d" "dl \<noteq> 0 \<longrightarrow> d' = ef_make_stale d"
      using io_output_step [OF p(1) n, of dl d] by blast
    have "iop_flags p' AND IO_WRITE \<noteq> 0"
    proof -
      have "iop_output p' \<noteq> None"
        using o(1) q by (auto simp: io_output_def Let_def set_error_def split: if_splits sum.splits)
      then show ?thesis using o(2) by (auto simp: iop_ok_def)
    qed
    then show ?thesis using o False by (auto simp: eq)
  qed
qed

section \<open>Everything arrives, once and in order\<close>

text \<open>
  The calls a thread makes on a connection, with the texts queued, sent, arrived and taken so far.
\<close>

datatype io_call = Write string | Puts string | Output int net | Output_long int net
  | Input int net | Read int | Gets int | Set_eof

record 'a conn =
  cn_iop :: iop
  cn_db :: "'a db"
  cn_queued :: string
  cn_sent :: string
  cn_arrived :: string
  cn_taken :: string

fun do_call :: "io_call \<Rightarrow> 'a conn \<Rightarrow> 'a conn option" where
  "do_call (Write s) c = map_option (\<lambda>(r, p). c\<lparr>cn_iop := p, cn_queued := cn_queued c @ (if r < 0 then [] else s)\<rparr>)
     (io_write s (cn_iop c))"
| "do_call (Puts s) c = map_option (\<lambda>(r, p). c\<lparr>cn_iop := p, cn_queued := cn_queued c @ (if r < 0 then [] else s)\<rparr>)
     (io_puts s (cn_iop c))"
| "do_call (Output dl n) c = map_option (\<lambda>(r, s, p, d). c\<lparr>cn_iop := p, cn_db := d, cn_sent := cn_sent c @ s\<rparr>)
     (io_output dl n (cn_iop c) (cn_db c))"
| "do_call (Output_long dl n) c = map_option (\<lambda>(r, s, p, d). c\<lparr>cn_iop := p, cn_db := d, cn_sent := cn_sent c @ s\<rparr>)
     (io_output_if_queue_long dl n (cn_iop c) (cn_db c))"
| "do_call (Input dl n) c = map_option (\<lambda>(r, p). c\<lparr>cn_iop := p,
       cn_arrived := cn_arrived c @ (if r > 0 then case n_read n of Inl _ \<Rightarrow> [] | Inr buf \<Rightarrow> buf else [])\<rparr>)
     (io_input dl n (cn_iop c))"
| "do_call (Read k) c = map_option (\<lambda>(r, s, p). c\<lparr>cn_iop := p, cn_taken := cn_taken c @ s\<rparr>) (io_read k (cn_iop c))"
| "do_call (Gets k) c = map_option (\<lambda>(r, s, p). c\<lparr>cn_iop := p,
       cn_taken := cn_taken c @ (if r < 0 then [] else take (nat (r + 1)) (unread (cn_iop c)))\<rparr>) (io_gets k (cn_iop c))"
| "do_call Set_eof c = map_option (\<lambda>p. c\<lparr>cn_iop := p, cn_taken := cn_taken c @ unread (cn_iop c)\<rparr>) (io_set_eof (cn_iop c))"

fun call_ok :: "io_call \<Rightarrow> bool" where
  "call_ok (Output dl n) \<longleftrightarrow> net_ok n"
| "call_ok (Output_long dl n) \<longleftrightarrow> net_ok n"
| "call_ok (Gets k) \<longleftrightarrow> 1 \<le> k"
| "call_ok _ \<longleftrightarrow> True"

definition conn_ok :: "'a conn \<Rightarrow> bool" where
  "conn_ok c \<longleftrightarrow> iop_ok (cn_iop c) \<and> iop_input (cn_iop c) \<noteq> None \<and> iop_output (cn_iop c) \<noteq> None
     \<and> cn_sent c @ pending (cn_iop c) = cn_queued c \<and> cn_taken c @ unread (cn_iop c) = cn_arrived c"

lemma conn_okE:
  assumes "conn_ok c"
  obtains p i q where "cn_iop c = p" "iop_ok p" "iop_input p = Some i" "iop_output p = Some q" "ioq_dense i" "ioq_dense q"
    "0 \<le> iop_last_out p" "iop_last_out p \<le> ioq_qsize q" "iop_flags p AND IO_READ \<noteq> 0" "iop_flags p AND IO_WRITE \<noteq> 0"
    "cn_sent c @ bytes q = cn_queued c" "cn_taken c @ bytes i = cn_arrived c"
  using assms by (auto simp: conn_ok_def iop_ok_def pending_def unread_def)

lemma conn_ok_queue:
  assumes c: "conn_ok c" and q: "iop_output (cn_iop c) = Some q"
  shows "conn_ok (c\<lparr>cn_iop := (cn_iop c)\<lparr>iop_output := Some (ioq_append s q)\<rparr>, cn_queued := cn_queued c @ s\<rparr>)"
proof (rule conn_okE [OF c])
  fix p i q'
  assume a: "cn_iop c = p" "iop_ok p" "iop_input p = Some i" "iop_output p = Some q'" "ioq_dense i" "ioq_dense q'"
    "0 \<le> iop_last_out p" "iop_last_out p \<le> ioq_qsize q'" "iop_flags p AND IO_READ \<noteq> 0" "iop_flags p AND IO_WRITE \<noteq> 0"
    "cn_sent c @ bytes q' = cn_queued c" "cn_taken c @ bytes i = cn_arrived c"
  have q': "q' = q" using a(1,4) q by simp
  have l: "ioq_ok (ioq_append s q) \<and> bytes (ioq_append s q) = bytes q @ s" using ioq.append_law [OF dense_ok [OF a(6)]] q' by simp
  have "ioq_dense (ioq_append s q)" using append_dense [of q s] a(6) q' by (simp add: ioq_append_def)
  moreover have "ioq_qsize (ioq_append s q) = ioq_qsize q + int (length s)"
    using ioq.qsize_law l ioq.qsize_law [OF dense_ok [OF a(6)]] q' by simp
  moreover have "cn_sent c @ bytes q @ s = cn_queued c @ s" using a(11) q' by (simp flip: append_assoc)
  ultimately show ?thesis using a l q' by (simp add: conn_ok_def iop_ok_def pending_def unread_def)
qed

lemma conn_ok_input:
  assumes c: "conn_ok c" and i: "iop_input (cn_iop c) = Some i" and d: "ioq_dense i'"
    and t: "t @ bytes i' = bytes i @ a" and f: "iop_flags p AND IO_READ = iop_flags (cn_iop c) AND IO_READ"
      "iop_flags p AND IO_WRITE = iop_flags (cn_iop c) AND IO_WRITE"
    and p: "iop_input p = Some i'" "iop_output p = iop_output (cn_iop c)" "iop_last_out p = iop_last_out (cn_iop c)"
  shows "conn_ok (c\<lparr>cn_iop := p, cn_taken := cn_taken c @ t, cn_arrived := cn_arrived c @ a\<rparr>)"
proof -
  have "cn_taken c @ bytes i = cn_arrived c" using c i by (simp add: conn_ok_def unread_def)
  then have "(cn_taken c @ t) @ bytes i' = cn_arrived c @ a" using t by (metis append_assoc)
  then show ?thesis using c p f d i by (auto simp: conn_ok_def iop_ok_def unread_def pending_def)
qed

lemma io_input_cases:
  assumes "iop_input p = Some i"
  shows "io_input dl n p \<in> {Some (- 1, p), Some (- 1, set_error p), Some (0, p), Some (0, p\<lparr>iop_flags := iop_flags p OR IO_EOF\<rparr>)}
    \<or> (\<exists>buf. n_read n = Inr buf \<and> buf \<noteq> [] \<and> io_input dl n p = Some (int (length buf), p\<lparr>iop_input := Some (ioq_append buf i)\<rparr>))"
  using assms by (auto simp: io_input_def Let_def split: sum.split)

lemma input_call:
  assumes c: "conn_ok c"
  shows "\<exists>c'. do_call (Input dl n) c = Some c' \<and> conn_ok c'"
proof -
  obtain i where i: "iop_input (cn_iop c) = Some i" "ioq_dense i" using c by (auto elim: conn_okE)
  have same: "conn_ok (c\<lparr>cn_iop := p\<rparr>)"
    if "iop_flags p AND IO_READ = iop_flags (cn_iop c) AND IO_READ" "iop_flags p AND IO_WRITE = iop_flags (cn_iop c) AND IO_WRITE"
      "iop_input p = Some i" "iop_output p = iop_output (cn_iop c)" "iop_last_out p = iop_last_out (cn_iop c)" for p
    using conn_ok_input [OF c i(1) i(2), of "[]" "[]" p] that by simp
  have err: "conn_ok (c\<lparr>cn_iop := set_error (cn_iop c)\<rparr>)"
    using i by (intro same) (simp_all add: set_error_def flags_or)
  have eof: "conn_ok (c\<lparr>cn_iop := (cn_iop c)\<lparr>iop_flags := iop_flags (cn_iop c) OR IO_EOF\<rparr>\<rparr>)"
    using i by (intro same) (simp_all add: flags_or)
  have got: "conn_ok (c\<lparr>cn_iop := (cn_iop c)\<lparr>iop_input := Some (ioq_append buf i)\<rparr>, cn_arrived := cn_arrived c @ buf\<rparr>)" for buf
  proof -
    have "ioq_dense (ioq_append buf i)" using append_dense [OF i(2)] by (simp add: ioq_append_def)
    then show ?thesis
      using conn_ok_input [OF c i(1), of "ioq_append buf i" "[]" buf] ioq.append_law [OF dense_ok [OF i(2)], of buf] by simp
  qed
  have old: "c\<lparr>cn_iop := cn_iop c\<rparr> = c" by simp
  show ?thesis
    using io_input_cases [OF i(1), of dl n]
    by (elim disjE exE conjE insertE emptyE) (simp_all add: c err eof got)
qed

lemma read_call:
  assumes c: "conn_ok c"
  shows "\<exists>c'. do_call (Read k) c = Some c' \<and> conn_ok c'"
proof -
  obtain i where i: "iop_input (cn_iop c) = Some i" "ioq_dense i" "iop_flags (cn_iop c) AND IO_READ \<noteq> 0"
    using c by (auto elim: conn_okE)
  define s where "s = ioq_peek i k"
  define j where "j = (if int (length s) > 0 then ioq_dequeue (int (length s)) i else i)"
  have j: "ioq_dense j" using dequeue_dense [OF i(2), of "int (length s)"] i(2) by (simp add: j_def)
  have "s @ bytes j = bytes i"
    using ioq.read_conserves [OF dense_ok [OF i(2)], of k] by (simp add: j_def s_def [symmetric])
  then have "conn_ok (c\<lparr>cn_iop := (cn_iop c)\<lparr>iop_input := Some j\<rparr>, cn_taken := cn_taken c @ s\<rparr>)"
    using conn_ok_input [OF c i(1) j, of s "[]" "(cn_iop c)\<lparr>iop_input := Some j\<rparr>"] by simp
  moreover have "do_call (Read k) c = Some (c\<lparr>cn_iop := (cn_iop c)\<lparr>iop_input := Some j\<rparr>, cn_taken := cn_taken c @ s\<rparr>)"
    using i by (simp add: io_read_def Let_def s_def [symmetric] j_def)
  ultimately show ?thesis by blast
qed

lemma gets_dense: "ioq_dense q \<Longrightarrow> ioq_gets k q = (n, l, q') \<Longrightarrow> ioq_dense q'"
  using dequeue_dense [of q "n + 1"]
  by (auto simp: ioq_gets_def Let_def ioq_dequeue_def split: prod.splits if_splits)

lemma gets_bytes:
  assumes "ioq_ok q" "ioq_gets k q = (n, l, q')"
  shows "(if n < 0 then [] else take (nat (n + 1)) (bytes q)) @ bytes q' = bytes q"
  using remove_bytes [OF assms(1), of "n + 1"] assms(2)
  by (auto simp: ioq_gets_def Let_def split: prod.splits if_splits)

lemma gets_call:
  assumes c: "conn_ok c"
  shows "\<exists>c'. do_call (Gets k) c = Some c' \<and> conn_ok c'"
proof -
  obtain i where i: "iop_input (cn_iop c) = Some i" "ioq_dense i" "iop_flags (cn_iop c) AND IO_READ \<noteq> 0"
    using c by (auto elim: conn_okE)
  obtain n l j where g: "ioq_gets k i = (n, l, j)" by (cases "ioq_gets k i")
  let ?t = "if n < 0 then [] else take (nat (n + 1)) (bytes i)"
  have "conn_ok (c\<lparr>cn_iop := (cn_iop c)\<lparr>iop_input := Some j\<rparr>, cn_taken := cn_taken c @ ?t\<rparr>)"
    using conn_ok_input [OF c i(1) gets_dense [OF i(2) g], of ?t "[]" "(cn_iop c)\<lparr>iop_input := Some j\<rparr>"]
      gets_bytes [OF dense_ok [OF i(2)] g] by simp
  then show ?thesis using i g by (cases "n < 0") (simp_all add: io_gets_def unread_def)
qed

lemma eof_call:
  assumes c: "conn_ok c"
  shows "\<exists>c'. do_call Set_eof c = Some c' \<and> conn_ok c'"
proof -
  obtain i where i: "iop_input (cn_iop c) = Some i" "ioq_dense i" using c by (auto elim: conn_okE)
  have d: "ioq_dense (ioq_drain i)" using i(2) drain_ok [of i] by (simp add: ioq_dense_def ioq_drain_def dense_list_def)
  show ?thesis
    using conn_ok_input [OF c i(1) d, of "bytes i" "[]"] i(1) drain_ok [of i]
    by (simp add: io_set_eof_def unread_def flags_or)
qed

lemma output_call:
  assumes c: "conn_ok c" and n: "net_ok n"
  shows "\<exists>c'. do_call (Output dl n) c = Some c' \<and> conn_ok c'" "\<exists>c'. do_call (Output_long dl n) c = Some c' \<and> conn_ok c'"
proof -
  have p: "iop_ok (cn_iop c)" "iop_flags (cn_iop c) AND IO_WRITE \<noteq> 0" using c by (auto simp: conn_ok_def iop_ok_def)
  have keep: "conn_ok (c\<lparr>cn_iop := p', cn_db := d', cn_sent := cn_sent c @ s\<rparr>)"
    if "iop_ok p'" "s @ pending p' = pending (cn_iop c)" "iop_input p' = iop_input (cn_iop c)" "iop_output p' \<noteq> None" for p' d' s
    using c that by (simp add: conn_ok_def unread_def)
  obtain r s p' d' where o: "io_output dl n (cn_iop c) (cn_db c) = Some (r, s, p', d')" "iop_ok p'"
    "s @ pending p' = pending (cn_iop c)" "iop_input p' = iop_input (cn_iop c)"
    using io_output_step [OF p(1) n, of dl "cn_db c"] by blast
  have "iop_output p' \<noteq> None"
    using o(1) c by (auto simp: conn_ok_def io_output_def Let_def set_error_def split: if_splits sum.splits)
  then show "\<exists>c'. do_call (Output dl n) c = Some c' \<and> conn_ok c'" using keep o by simp
  obtain r s p' d' where o: "io_output_if_queue_long dl n (cn_iop c) (cn_db c) = Some (r, s, p', d')" "iop_ok p'"
    "s @ pending p' = pending (cn_iop c)" "iop_input p' = iop_input (cn_iop c)" "iop_flags p' AND IO_WRITE \<noteq> 0"
    using io_long_step [OF p n, of dl "cn_db c"] by blast
  then have "iop_output p' \<noteq> None" by (auto simp: iop_ok_def)
  then show "\<exists>c'. do_call (Output_long dl n) c = Some c' \<and> conn_ok c'" using keep o by simp
qed

lemma write_call:
  assumes c: "conn_ok c"
  shows "\<exists>c'. do_call (Write s) c = Some c' \<and> conn_ok c'" "\<exists>c'. do_call (Puts s) c = Some c' \<and> conn_ok c'"
proof -
  obtain q where q: "iop_output (cn_iop c) = Some q" "iop_flags (cn_iop c) AND IO_WRITE \<noteq> 0" using c by (auto elim: conn_okE)
  note k = conn_ok_queue [OF c q(1), of s]
  show "\<exists>c'. do_call (Write s) c = Some c' \<and> conn_ok c'" using k q by (simp add: io_write_def)
  show "\<exists>c'. do_call (Puts s) c = Some c' \<and> conn_ok c'" using k q by (simp add: io_puts_def ioq_puts_def ioq_append_def)
qed

lemma do_call_ok:
  assumes "conn_ok c" "call_ok x"
  shows "\<exists>c'. do_call x c = Some c' \<and> conn_ok c'"
  using assms(2) write_call [OF assms(1)] output_call [OF assms(1)] input_call [OF assms(1)] read_call [OF assms(1)]
    gets_call [OF assms(1)] eof_call [OF assms(1)]
  by (cases x) (simp_all only: call_ok.simps)

lemma calls_ok: "conn_ok c \<Longrightarrow> (\<forall>x \<in> set xs. call_ok x) \<Longrightarrow> \<exists>c'. fold_opt do_call xs c = Some c' \<and> conn_ok c'"
proof (induction xs arbitrary: c)
  case (Cons x xs)
  then obtain c' where "do_call x c = Some c'" "conn_ok c'" using do_call_ok [of c x] by auto
  then show ?case using Cons by auto
qed simp

lemma open_ok:
  assumes o: "io_open fdes fl b g s = Some p" and fl: "fl AND IO_READ \<noteq> 0" "fl AND IO_WRITE \<noteq> 0" and b: "0 < b"
  shows "conn_ok \<lparr>cn_iop = p, cn_db = d, cn_queued = [], cn_sent = [], cn_arrived = [], cn_taken = []\<rparr>"
proof -
  have f: "(fl AND (IO_READ OR IO_WRITE)) AND IO_READ = fl AND IO_READ" "(fl AND (IO_READ OR IO_WRITE)) AND IO_WRITE = fl AND IO_WRITE"
    by (simp_all add: and.assoc io_flags)
  have "p = \<lparr>iop_fd = fdes, iop_input = Some (ioq_create b), iop_output = Some (ioq_create b),
      iop_flags = fl AND (IO_READ OR IO_WRITE), iop_bufsize = b, iop_last_out = 0\<rparr>"
    using o fl f by (auto simp: io_open_def Let_def split: if_splits)
  then show ?thesis using fl f create_dense [OF b] ioq.qsize_law [OF create_ok(1), of b]
    by (simp add: conn_ok_def iop_ok_def pending_def unread_def create_ok)
qed

text \<open>
  C20. On a connection opened for reading and writing, whatever calls are made and whatever the network
  answers, no call follows a null pointer; what was sent, followed by what waits in the output queue, is all
  that was queued, in that order; and what was taken out of the input queue, followed by what waits there, is
  all that arrived. Nothing is lost, doubled or reordered, on errors and timeouts too, and the mark
  \<open>last_out\<close> never passes the length of the queue, so that the check for it never fires.
\<close>

theorem io_streams:
  assumes "io_open fdes fl b getfl setfl = Some p" and "fl AND IO_READ \<noteq> 0" "fl AND IO_WRITE \<noteq> 0" and "0 < b"
    and "\<forall>x \<in> set xs. call_ok x"
  shows "\<exists>c. fold_opt do_call xs \<lparr>cn_iop = p, cn_db = d, cn_queued = [], cn_sent = [], cn_arrived = [], cn_taken = []\<rparr> = Some c
    \<and> cn_sent c @ pending (cn_iop c) = cn_queued c \<and> cn_taken c @ unread (cn_iop c) = cn_arrived c
    \<and> io_outputwaiting (cn_iop c) = Some (int (length (pending (cn_iop c))))
    \<and> io_inputwaiting (cn_iop c) = Some (int (length (unread (cn_iop c))))
    \<and> 0 \<le> iop_last_out (cn_iop c) \<and> iop_last_out (cn_iop c) \<le> int (length (pending (cn_iop c)))"
proof -
  obtain c where c: "fold_opt do_call xs \<lparr>cn_iop = p, cn_db = d, cn_queued = [], cn_sent = [], cn_arrived = [], cn_taken = []\<rparr> = Some c"
    "conn_ok c"
    using calls_ok [OF open_ok [OF assms(1-4)] assms(5)] by blast
  from c(2) show ?thesis
  proof (rule conn_okE)
    fix p i q
    assume a: "cn_iop c = p" "iop_input p = Some i" "iop_output p = Some q" "ioq_dense i" "ioq_dense q"
      "0 \<le> iop_last_out p" "iop_last_out p \<le> ioq_qsize q" "cn_sent c @ bytes q = cn_queued c" "cn_taken c @ bytes i = cn_arrived c"
    show ?thesis
      using c(1) a ioq.qsize_law [OF dense_ok [OF a(4)]] ioq.qsize_law [OF dense_ok [OF a(5)]]
      by (simp add: pending_def unread_def io_outputwaiting_def io_inputwaiting_def)
  qed
qed

definition net_example :: net where
  "net_example = \<lparr>n_now = (0, 0), n_select = (\<lambda>_. 1), n_read = Inr ''build'', n_writev = (\<lambda>iov. Inr (min 3 (int (length (concat iov)))))\<rparr>"

lemma net_example_ok: "net_ok net_example" "net_takes net_example"
  by (simp_all add: net_ok_def net_takes_def net_example_def)

theorem io_streams_witness:
  "\<forall>d :: int db. \<exists>c. fold_opt do_call [Write ''hello'', Output 5 net_example, Input 0 net_example, Puts ''x'']
       \<lparr>cn_iop = the (io_open 4 3 16 0 0), cn_db = d, cn_queued = [], cn_sent = [], cn_arrived = [], cn_taken = []\<rparr> = Some c
     \<and> cn_sent c @ pending (cn_iop c) = cn_queued c"
proof
  fix d :: "int db"
  have "io_open 4 3 16 0 0 = Some (the (io_open 4 3 16 0 0))" by (simp add: io_open_def Let_def io_flags)
  from io_streams [OF this, of "[Write ''hello'', Output 5 net_example, Input 0 net_example, Puts ''x'']" d]
  show "\<exists>c. fold_opt do_call [Write ''hello'', Output 5 net_example, Input 0 net_example, Puts ''x'']
       \<lparr>cn_iop = the (io_open 4 3 16 0 0), cn_db = d, cn_queued = [], cn_sent = [], cn_arrived = [], cn_taken = []\<rparr> = Some c
     \<and> cn_sent c @ pending (cn_iop c) = cn_queued c"
    using net_example_ok by (simp add: io_flags del: do_call.simps fold_opt.simps) blast
qed

section \<open>Flushing\<close>

lemma io_flush_ends:
  assumes "iop_ok p" "\<And>i. net_ok (ns i)"
  shows "\<exists>i s p' d'. io_flush dl ns j sent p d = Some (Some (i, sent @ s, p', d')) \<and> s @ pending p' = pending p \<and> iop_ok p'
     \<and> iop_input p' = iop_input p \<and> (iop_output p' = None \<longleftrightarrow> iop_output p = None) \<and> j < i \<and> i \<le> j + length (pending p) + 1
     \<and> ((\<forall>i. net_takes (ns i)) \<and> iop_flags p AND IO_WRITE \<noteq> 0 \<and> \<not> io_error p \<longrightarrow> pending p' = [])"
  using assms(1)
proof (induction "length (pending p)" arbitrary: p d j sent rule: less_induct)
  case less
  obtain r s p' d' where o: "io_output dl (ns j) p d = Some (r, s, p', d')" "iop_ok p'" "s @ pending p' = pending p"
    "r = int (length s) \<or> r = - 1 \<and> s = []"
    "net_takes (ns j) \<and> iop_flags p AND IO_WRITE \<noteq> 0 \<and> \<not> io_error p \<and> pending p \<noteq> [] \<longrightarrow> 0 < r"
    "r \<noteq> - 1 \<longrightarrow> iop_flags p' = iop_flags p" "iop_input p' = iop_input p" "iop_output p' = None \<longleftrightarrow> iop_output p = None"
    using io_output_step [OF less.prems assms(2), of dl j d] by (elim exE conjE) (rule that; blast)
  show ?case
  proof (cases "r > 0")
    case True
    then have s: "s \<noteq> []" using o(4) by auto
    then have l: "length (pending p') < length (pending p)" by (simp flip: o(3))
    obtain i t q e where f: "io_flush dl ns (Suc j) (sent @ s) p' d' = Some (Some (i, (sent @ s) @ t, q, e))"
      "t @ pending q = pending p'" "iop_ok q" "Suc j < i" "i \<le> Suc j + length (pending p') + 1"
      "(\<forall>i. net_takes (ns i)) \<and> iop_flags p' AND IO_WRITE \<noteq> 0 \<and> \<not> io_error p' \<longrightarrow> pending q = []"
      "iop_input q = iop_input p'" "iop_output q = None \<longleftrightarrow> iop_output p' = None"
      using less.hyps [OF l o(2), of "Suc j" "sent @ s" d'] by (elim exE conjE) (rule that; blast)
    have "io_flush dl ns j sent p d = Some (Some (i, sent @ s @ t, q, e))"
      using f(1) o(1) True by (subst io_flush.simps) simp
    moreover have "(s @ t) @ pending q = pending p" using f(2) o(3) by simp
    moreover have "(\<forall>i. net_takes (ns i)) \<and> iop_flags p AND IO_WRITE \<noteq> 0 \<and> \<not> io_error p \<longrightarrow> pending q = []"
      using f(6) o(6) True by (simp add: io_error_def)
    moreover have "j < i" "i \<le> j + length (pending p) + 1" using f(4,5) l by linarith+
    ultimately show ?thesis using f(3,7,8) o(7,8) by metis
  next
    case False
    have "io_flush dl ns j sent p d = Some (Some (Suc j, sent @ s, p', d'))"
      using o(1) False by (subst io_flush.simps) simp
    moreover have "(\<forall>i. net_takes (ns i)) \<and> iop_flags p AND IO_WRITE \<noteq> 0 \<and> \<not> io_error p \<longrightarrow> pending p' = []"
      using o(3,5) False by auto
    ultimately show ?thesis using o(2,3,7,8) by fastforce
  qed
qed

text \<open>
  C21. Flushing ends, after at most one call of \<open>io_output\<close> for each byte that waits and one more, loses
  nothing, and has sent everything when the network takes something at each call and no error is pending.
\<close>

theorem io_flush_sends:
  assumes "iop_ok p" "\<forall>i. net_ok (ns i)"
  shows "\<exists>i s p' d'. io_flush deadline ns 0 [] p d = Some (Some (i, s, p', d')) \<and> s @ pending p' = pending p
     \<and> i \<le> length (pending p) + 1
     \<and> ((\<forall>i. net_takes (ns i)) \<and> iop_flags p AND IO_WRITE \<noteq> 0 \<and> \<not> io_error p \<longrightarrow> s = pending p)"
  using io_flush_ends [of p ns deadline 0 "[]" d] assms by fastforce

theorem io_flush_sends_witness:
  "\<forall>d :: int db. \<exists>i p' d'. io_flush 0 (\<lambda>_. net_example) 0 [] \<lparr>iop_fd = 4, iop_input = None, iop_output = Some (ioq_append ''hello'' (ioq_create 2)),
      iop_flags = 2, iop_bufsize = 2, iop_last_out = 0\<rparr> d = Some (Some (i, ''hello'', p', d'))"
proof
  fix d :: "int db"
  let ?q = "ioq_append ''hello'' (ioq_create 2)"
  let ?p = "\<lparr>iop_fd = 4, iop_input = None, iop_output = Some ?q, iop_flags = 2, iop_bufsize = 2, iop_last_out = 0\<rparr>"
  have q: "ioq_dense ?q" using append_dense [OF create_dense [of 2]] by (simp add: ioq_append_def)
  have "iop_ok ?p" using q ioq.qsize_law [OF dense_ok [OF q]] by (simp add: iop_ok_def io_flags)
  moreover have "pending ?p = ''hello''" using ioq.append_law [OF create_ok(1)] by (simp add: pending_def create_ok)
  ultimately show "\<exists>i p' d'. io_flush 0 (\<lambda>_. net_example) 0 [] ?p d = Some (Some (i, ''hello'', p', d'))"
    using io_flush_sends [of ?p "\<lambda>_. net_example" 0 d] net_example_ok by (auto simp: io_error_def io_flags)
qed

section \<open>Errors and time\<close>

text \<open>When waiting, reading or writing fails other than by having to wait.\<close>

definition wait_result :: "int \<Rightarrow> net \<Rightarrow> int" where
  "wait_result dl n = (if dl \<noteq> 0 then n_select n (io_timeout dl (n_now n)) else 1)"

definition input_fails :: "int \<Rightarrow> net \<Rightarrow> iop \<Rightarrow> bool" where
  "input_fails dl n p \<longleftrightarrow> \<not> io_eof p \<and> (wait_result dl n < 0 \<or> 0 < wait_result dl n \<and> n_read n = Inl False)"

definition output_fails :: "int \<Rightarrow> net \<Rightarrow> iop \<Rightarrow> bool" where
  "output_fails dl n p \<longleftrightarrow> pending p \<noteq> []
     \<and> (wait_result dl n < 0 \<or> 0 < wait_result dl n \<and> n_writev n (ioq_makeiov (the (iop_output p)) IO_BUFSIZE) = Inl False)"

lemma input_reports:
  assumes c: "conn_ok c" and e: "\<not> io_error (cn_iop c)"
  shows "\<exists>r p'. io_input dl n (cn_iop c) = Some (r, p') \<and> (if input_fails dl n (cn_iop c) then r = - 1 \<and> p' = set_error (cn_iop c)
      else 0 \<le> r \<and> \<not> io_error p')"
proof (rule conn_okE [OF c], goal_cases)
  case (1 p i q)
  have f: "iop_flags p AND IO_READ \<noteq> 0" "iop_flags p AND IO_ERROR = 0" using 1 e by (simp_all add: io_error_def)
  have "\<not> io_error (p\<lparr>iop_flags := iop_flags p OR IO_EOF\<rparr>)" "\<not> io_error (p\<lparr>iop_input := x\<rparr>)" for x
    using f(2) by (simp_all add: io_error_def flags_or)
  moreover define w where "w = wait_result dl n"
  moreover have "io_input dl n p = (if io_eof p then Some (0, p) else if w < 0 then Some (- 1, set_error p) else if w = 0 then Some (0, p)
      else case n_read n of Inl again \<Rightarrow> if again then Some (0, p) else Some (- 1, set_error p)
        | Inr buf \<Rightarrow> if buf = [] then Some (0, p\<lparr>iop_flags := iop_flags p OR IO_EOF\<rparr>)
            else Some (int (length buf), p\<lparr>iop_input := Some (ioq_append buf i)\<rparr>))"
    using f 1(3) unfolding w_def wait_result_def io_input_def io_eof_def Let_def by (simp split: sum.split)
  ultimately show ?case
    using 1(1) e by (cases "n_read n") (auto simp: input_fails_def)
qed

lemma output_reports:
  assumes c: "conn_ok c" and e: "\<not> io_error (cn_iop c)" and n: "net_ok n"
  shows "\<exists>r s p' d'. io_output dl n (cn_iop c) d = Some (r, s, p', d')
    \<and> (if output_fails dl n (cn_iop c) then r = - 1 \<and> s = [] \<and> p' = set_error (cn_iop c) else r = int (length s) \<and> \<not> io_error p')"
proof (rule conn_okE [OF c], goal_cases)
  case (1 p i q)
  have f: "iop_flags p AND IO_WRITE \<noteq> 0" "iop_flags p AND IO_ERROR = 0" using 1 e by (simp_all add: io_error_def)
  have z: "ioq_qsize q = 0 \<longleftrightarrow> pending p = []" using qsize_zero [OF dense_ok [OF 1(6)]] 1(4) by (simp add: pending_def)
  have m: "\<not> io_error (p\<lparr>iop_output := x, iop_last_out := y\<rparr>)" for x y using f(2) by (simp add: io_error_def)
  define w where "w = wait_result dl n"
  define iov where "iov = ioq_makeiov q IO_BUFSIZE"
  obtain d' where out: "io_output dl n p d = (if pending p = [] \<or> w = 0 then Some (0, [], p, d')
      else if w < 0 then Some (- 1, [], set_error p, d')
      else case n_writev n iov of Inl again \<Rightarrow> if again then Some (0, [], p, d') else Some (- 1, [], set_error p, d')
        | Inr cc \<Rightarrow> Some (cc, take (nat cc) (concat iov), p\<lparr>iop_output := Some (ioq_dequeue cc q),
            iop_last_out := ioq_qsize (ioq_dequeue cc q)\<rparr>, d'))"
  proof
    show "io_output dl n p d = (if pending p = [] \<or> w = 0 then Some (0, [], p, if dl \<noteq> 0 then ef_make_stale d else d)
      else if w < 0 then Some (- 1, [], set_error p, if dl \<noteq> 0 then ef_make_stale d else d)
      else case n_writev n iov of Inl again \<Rightarrow> if again then Some (0, [], p, if dl \<noteq> 0 then ef_make_stale d else d)
          else Some (- 1, [], set_error p, if dl \<noteq> 0 then ef_make_stale d else d)
        | Inr cc \<Rightarrow> Some (cc, take (nat cc) (concat iov), p\<lparr>iop_output := Some (ioq_dequeue cc q),
            iop_last_out := ioq_qsize (ioq_dequeue cc q)\<rparr>, if dl \<noteq> 0 then ef_make_stale d else d))"
      using f 1(4) z unfolding w_def iov_def wait_result_def io_output_def Let_def by (auto split: sum.split)
  qed
  show ?case
  proof (cases "n_writev n iov")
    case (Inl again)
    then show ?thesis using 1(1,4) e out by (cases again) (auto simp: output_fails_def w_def iov_def)
  next
    case (Inr cc)
    have "0 \<le> cc" "cc \<le> int (length (concat iov))" using n [unfolded net_ok_def, rule_format, of iov] Inr by simp_all
    then have cc: "int (length (take (nat cc) (concat iov))) = cc" unfolding length_take by linarith
    have o: "output_fails dl n p \<longleftrightarrow> pending p \<noteq> [] \<and> w < 0" using Inr 1(4) by (simp add: output_fails_def w_def iov_def)
    show ?thesis unfolding 1(1) out o Inr using m e 1(1) cc by (cases "pending p = [] \<or> w = 0"; cases "w < 0") auto
  qed
qed

text \<open>With the mark set, every call keeps it, and nothing is sent or received.\<close>

lemma marked_call:
  assumes c: "conn_ok c" "io_error (cn_iop c)" and x: "do_call x c = Some c'"
  shows "io_error (cn_iop c') \<and> cn_sent c' = cn_sent c \<and> cn_arrived c' = cn_arrived c"
proof (rule conn_okE [OF c(1)], goal_cases)
  case (1 p i q)
  have e: "iop_flags p AND IO_ERROR \<noteq> 0" using c 1(1) by (simp add: io_error_def)
  show ?case
    using x 1(1,3,4,9,10) e
    by (cases x) (auto simp: io_write_def io_puts_def io_output_def io_output_if_queue_long_def io_input_def io_read_def
        io_gets_def io_set_eof_def io_error_def flags_or Let_def split: prod.splits if_splits)
qed

lemma marked_calls:
  "conn_ok c \<Longrightarrow> io_error (cn_iop c) \<Longrightarrow> (\<forall>x \<in> set xs. call_ok x) \<Longrightarrow>
     \<exists>c'. fold_opt do_call xs c = Some c' \<and> io_error (cn_iop c') \<and> cn_sent c' = cn_sent c \<and> cn_arrived c' = cn_arrived c"
proof (induction xs arbitrary: c)
  case (Cons x xs)
  obtain c1 where "do_call x c = Some c1" "conn_ok c1" using do_call_ok [OF Cons.prems(1), of x] Cons.prems(3) by auto
  then show ?case using marked_call [OF Cons.prems(1,2)] Cons.IH [of c1] Cons.prems(3) by fastforce
qed simp

text \<open>
  C22. An error is reported and final. On a connection without an error so far, \<open>io_input\<close> returns -1 and sets the error mark,
  and changes nothing else, exactly when the wait fails, or \<open>read\<close> does other than by having to wait; else its result is
  not negative and the mark stays clear. The same holds of \<open>io_output\<close> with bytes to write. From then on, whatever calls
  are made, the mark stays and nothing more is sent or received: each of the two returns -1 at once.
\<close>

theorem io_error_final:
  assumes "conn_ok c" and "\<not> io_error (cn_iop c)" and "net_ok n" and "\<forall>x \<in> set xs. call_ok x"
  shows "(\<exists>r p'. io_input dl n (cn_iop c) = Some (r, p')
        \<and> (if input_fails dl n (cn_iop c) then r = - 1 \<and> p' = set_error (cn_iop c) else 0 \<le> r \<and> \<not> io_error p'))
    \<and> (\<exists>r s p' d'. io_output dl n (cn_iop c) d = Some (r, s, p', d')
        \<and> (if output_fails dl n (cn_iop c) then r = - 1 \<and> s = [] \<and> p' = set_error (cn_iop c)
           else r = int (length s) \<and> \<not> io_error p'))
    \<and> (\<exists>c'. fold_opt do_call xs (c\<lparr>cn_iop := set_error (cn_iop c)\<rparr>) = Some c' \<and> io_error (cn_iop c')
        \<and> cn_sent c' = cn_sent c \<and> cn_arrived c' = cn_arrived c
        \<and> io_input dl' n' (cn_iop c') = Some (- 1, cn_iop c')
        \<and> io_output dl' n' (cn_iop c') d = Some (- 1, [], cn_iop c', if dl' \<noteq> 0 then ef_make_stale d else d))"
proof -
  let ?c = "c\<lparr>cn_iop := set_error (cn_iop c)\<rparr>"
  have ok: "conn_ok ?c" "io_error (cn_iop ?c)" using assms(1) error_set by (simp_all add: conn_ok_def set_error_ok)
  obtain c' where c': "fold_opt do_call xs ?c = Some c'" "io_error (cn_iop c')" "cn_sent c' = cn_sent c" "cn_arrived c' = cn_arrived c"
    using marked_calls [OF ok assms(4)] by auto
  moreover have "io_input dl' n' (cn_iop c') = Some (- 1, cn_iop c')"
    "io_output dl' n' (cn_iop c') d = Some (- 1, [], cn_iop c', if dl' \<noteq> 0 then ef_make_stale d else d)"
    using c'(2) by (simp_all add: io_input_def io_output_def io_error_def Let_def)
  ultimately show ?thesis using input_reports [OF assms(1,2)] output_reports [OF assms(1-3)] by blast
qed

text \<open>A connection whose peer has gone away.\<close>

definition net_broken :: net where
  "net_broken = net_example\<lparr>n_read := Inl False, n_writev := (\<lambda>_. Inl False)\<rparr>"

theorem io_error_final_witness:
  "\<exists>c :: int conn. pending (cn_iop c) = ''hello'' \<and> io_input 7 net_broken (cn_iop c) = Some (- 1, set_error (cn_iop c))
     \<and> (\<forall>d. \<exists>s p' d'. io_output 0 net_broken (cn_iop c) d = Some (- 1, s, p', d') \<and> io_error p')
     \<and> (\<exists>c'. fold_opt do_call [Write ''x'', Output 5 net_example] (c\<lparr>cn_iop := set_error (cn_iop c)\<rparr>) = Some c' \<and> cn_sent c' = [])"
proof -
  let ?c0 = "\<lparr>cn_iop = the (io_open 4 3 16 0 0), cn_db = undefined :: int db, cn_queued = [], cn_sent = [], cn_arrived = [], cn_taken = []\<rparr>"
  have o: "io_open 4 3 16 0 0 = Some (the (io_open 4 3 16 0 0))" by (simp add: io_open_def Let_def io_flags)
  have ok0: "conn_ok ?c0" by (rule open_ok [OF o]) (simp_all add: io_flags)
  have e0: "\<not> io_error (cn_iop ?c0)" by (simp add: io_open_def Let_def io_error_def io_flags)
  obtain c where w: "do_call (Write ''hello'') ?c0 = Some c" "conn_ok c" using do_call_ok [OF ok0, of "Write ''hello''"] by auto
  have "cn_sent c = []" "cn_queued c = ''hello''" "\<not> io_error (cn_iop c)" "\<not> io_eof (cn_iop c)"
    using w(1) by (auto simp: io_open_def Let_def io_flags io_write_def io_error_def io_eof_def)
  moreover from this w(2) have p: "pending (cn_iop c) = ''hello''" by (simp add: conn_ok_def)
  moreover from calculation have "input_fails 7 net_broken (cn_iop c)" "output_fails 0 net_broken (cn_iop c)"
    by (simp_all add: input_fails_def output_fails_def wait_result_def net_broken_def net_example_def)
  moreover have nb: "net_ok net_broken" "\<forall>x \<in> set [Write ''x'', Output 5 net_example]. call_ok x"
    using net_example_ok(1) by (simp_all add: net_ok_def net_broken_def)
  ultimately have f: "\<not> io_error (cn_iop c)" "input_fails 7 net_broken (cn_iop c)" "output_fails 0 net_broken (cn_iop c)" "cn_sent c = []"
    by simp_all
  note r = io_error_final [OF w(2) f(1) nb]
  have "io_input 7 net_broken (cn_iop c) = Some (- 1, set_error (cn_iop c))" using r [where dl = 7] f(2) by auto
  moreover have "\<exists>s p' d'. io_output 0 net_broken (cn_iop c) d = Some (- 1, s, p', d') \<and> io_error p'" for d
    using r [where dl = 0 and d = d] f(3) error_set by fastforce
  moreover obtain c' where "fold_opt do_call [Write ''x'', Output 5 net_example] (c\<lparr>cn_iop := set_error (cn_iop c)\<rparr>) = Some c'"
    "cn_sent c' = cn_sent c" using r [THEN conjunct2, THEN conjunct2] by blast
  ultimately show ?thesis using p f(4) by metis
qed

text \<open>A wait ends by the deadline, at most a microsecond before it.\<close>

lemma io_timeout_deadline:
  assumes "io_timeout deadline (s, u) = Some (ws, wu)" "0 \<le> u" "u < 1000000"
  shows "0 \<le> ws \<and> 0 \<le> wu \<and> wu < 1000000 \<and>
    (if s < deadline then (s + ws) * 1000000 + u + wu = deadline * 1000000 - 1 else ws = 0 \<and> wu = 0)"
  using assms by (auto simp: io_timeout_def split: if_splits)

end
