(* ===== verification/Output.thy ===== *)
theory Output
  imports Io Commands
begin

text \<open>
  What players are sent and what they type: \<open>src/lib/subs/pr.c\<close>, \<open>src/lib/player/recvclient.c\<close> and
  \<open>player_io_deadline\<close> of \<open>src/lib/player/accept.c\<close>, on the connections of theory \<open>Io\<close>.
  Output is line-buffered: each line starts with the character of its ID and a space. Strings are without
  their terminating zero and hold no zero bytes; \<open>printf\<close> formatting is done by the caller, except for
  the prompt. The journal is left out.

  \<open>pplayer\<close> has the members of \<open>struct player\<close> that output uses. The state \<open>dest\<close> of a player's output is the
  player, the files, the bytes sent so far and the number of calls made to the network \<open>ns\<close>, \<open>ns i\<close> being what
  it answers to call \<open>i\<close>. None is the result of a function that follows a null pointer, leaves its
  buffer or does not end.
\<close>

definition C_DATA :: int where "C_DATA = 0x1"
definition C_FLUSH :: int where "C_FLUSH = 0x4"
definition C_PROMPT :: int where "C_PROMPT = 0x6"
definition C_REDIR :: int where "C_REDIR = 0x8"
definition C_PIPE :: int where "C_PIPE = 0x9"
definition C_EXECUTE :: int where "C_EXECUTE = 0xC"
definition C_FLASH :: int where "C_FLASH = 0xD"
definition C_INFORM :: int where "C_INFORM = 0xE"
definition C_LAST :: int where "C_LAST = 0xE"

definition PS_PLAYING :: int where "PS_PLAYING = 1"
definition PF_UTF8 :: int where "PF_UTF8 = 1"

abbreviation NL :: char where "NL \<equiv> CHR 0x0A"

record pplayer =
  pl_iop :: iop
  pl_state :: int
  pl_flags :: int
  pl_nstat :: int
  pl_curup :: int
  pl_may_sleep :: player_sleep
  pl_aborted :: bool
  pl_got_ctld :: bool
  pl_recvfail :: int
  pl_curid :: int

record 'a dest =
  to_pl :: pplayer
  to_db :: "'a db"
  to_sent :: string
  to_calls :: nat

text \<open>The keys \<open>login_grace_time\<close> (in seconds), \<open>max_idle\<close> and \<open>max_idle_visitor\<close> (in minutes).\<close>

record io_config =
  login_grace_time :: int
  max_idle :: int
  max_idle_visitor :: int

fun sleep_rank :: "player_sleep \<Rightarrow> int" where
  "sleep_rank PLAYER_SLEEP_NEVER = 0"
| "sleep_rank PLAYER_SLEEP_ON_INPUT = 1"
| "sleep_rank PLAYER_SLEEP_FREELY = 2"

definition player_io_deadline :: "io_config \<Rightarrow> pplayer \<Rightarrow> bool \<Rightarrow> int" where
  "player_io_deadline cfg pl write =
     (if sleep_rank (pl_may_sleep pl) < sleep_rank (if write then PLAYER_SLEEP_FREELY else PLAYER_SLEEP_ON_INPUT) then 0
      else if pl_state pl \<noteq> PS_PLAYING then pl_curup pl + login_grace_time cfg
      else pl_curup pl + 60 * (if pl_nstat pl AND NONVIS \<noteq> 0 then max_idle cfg else max_idle_visitor cfg))"

text \<open>\<open>io_puts(pl->iop, s)\<close> and \<open>io_write(pl->iop, s, strlen(s))\<close>.\<close>

definition pl_puts :: "string \<Rightarrow> pplayer \<Rightarrow> (int \<times> pplayer) option" where
  "pl_puts s pl = map_option (\<lambda>(r, p). (r, pl\<lparr>pl_iop := p\<rparr>)) (io_puts s (pl_iop pl))"

definition pl_write :: "string \<Rightarrow> pplayer \<Rightarrow> (int \<times> pplayer) option" where
  "pl_write s pl = map_option (\<lambda>(r, p). (r, pl\<lparr>pl_iop := p\<rparr>)) (io_write s (pl_iop pl))"

definition id_char :: "int \<Rightarrow> char" where
  "id_char n = char_of (nat (if n \<ge> 10 then 97 - 10 + n else 48 + n))"

definition outid :: "int \<Rightarrow> pplayer \<Rightarrow> pplayer option" where
  "outid n pl =
     (let n = (if n > C_LAST then C_DATA else n)
      in map_option (\<lambda>(r, pl). pl\<lparr>pl_curid := n\<rparr>) (pl_puts [id_char n, CHR '' ''] pl))"

text \<open>The start of a line, in \<open>pr_player\<close> and \<open>upr_player\<close>: end a line with another ID, put out the ID.\<close>

definition end_line :: "pplayer \<Rightarrow> pplayer option" where
  "end_line pl = map_option (\<lambda>(r, pl). pl\<lparr>pl_curid := - 1\<rparr>) (pl_puts [NL] pl)"

definition begin_line :: "int \<Rightarrow> pplayer \<Rightarrow> pplayer option" where
  "begin_line n pl =
     Option.bind (if pl_curid pl \<noteq> - 1 \<and> pl_curid pl \<noteq> n then end_line pl else Some pl)
       (\<lambda>pl. if pl_curid pl = - 1 then outid n pl else Some pl)"

text \<open>
  The loop of \<open>pr_player\<close>; \<open>bp\<close> is an index into \<open>buf\<close>. When \<open>io_puts\<close> fails, \<open>bp\<close> moves back by one.
\<close>

partial_function (option) pr_loop :: "int \<Rightarrow> string \<Rightarrow> int \<Rightarrow> pplayer \<Rightarrow> pplayer option" where
  [code]: "pr_loop n buf bp pl =
     (if bp < 0 then None
      else if bp \<ge> int (length buf) then Some pl
      else case begin_line n pl of None \<Rightarrow> None | Some pl \<Rightarrow>
        let rest = drop (nat bp) buf; before = takeWhile (\<lambda>c. c \<noteq> NL) rest in
        if NL \<in> set rest
        then (case pl_write (before @ [NL]) pl of
                None \<Rightarrow> None
              | Some (r, pl) \<Rightarrow> pr_loop n buf (bp + int (length before) + 1) (pl\<lparr>pl_curid := - 1\<rparr>))
        else (case pl_puts rest pl of None \<Rightarrow> None | Some (r, pl) \<Rightarrow> pr_loop n buf (bp + r) pl))"

text \<open>\<open>me\<close>: the player is the current player.\<close>

partial_function (option) output_some_loop :: "int \<Rightarrow> (nat \<Rightarrow> net) \<Rightarrow> 'a dest \<Rightarrow> 'a dest option" where
  [code]: "output_some_loop deadline ns w =
     (case io_output_if_queue_long deadline (ns (to_calls w)) (pl_iop (to_pl w)) (to_db w) of
        None \<Rightarrow> None
      | Some (r, s, p, d) \<Rightarrow>
          let w = w\<lparr>to_pl := (to_pl w)\<lparr>pl_iop := p\<rparr>, to_db := d, to_sent := to_sent w @ s, to_calls := to_calls w + 1\<rparr>
          in if r > 0 then output_some_loop deadline ns w else Some w)"

definition player_output_some :: "io_config \<Rightarrow> (nat \<Rightarrow> net) \<Rightarrow> 'a dest \<Rightarrow> 'a dest option" where
  "player_output_some cfg ns w = output_some_loop (player_io_deadline cfg (to_pl w) True) ns w"

definition pr_player :: "io_config \<Rightarrow> (nat \<Rightarrow> net) \<Rightarrow> bool \<Rightarrow> int \<Rightarrow> string \<Rightarrow> 'a dest \<Rightarrow> 'a dest option" where
  "pr_player cfg ns me n buf w =
     Option.bind (pr_loop n buf 0 (to_pl w)) (\<lambda>pl.
       let w = w\<lparr>to_pl := pl\<rparr> in if me then player_output_some cfg ns w else Some w)"

text \<open>\<open>upr_player\<close> shifts highlighted characters, those with bit 7 set, out and in.\<close>

definition shift :: "bool \<Rightarrow> bool \<Rightarrow> pplayer \<Rightarrow> (bool \<times> pplayer) option" where
  "shift high standout pl =
     (if high then if \<not> standout then map_option (\<lambda>(r, pl). (True, pl)) (pl_puts [CHR 0x0E] pl) else Some (standout, pl)
      else if standout then map_option (\<lambda>(r, pl). (False, pl)) (pl_puts [CHR 0x0F] pl) else Some (standout, pl))"

fun upr_loop :: "int \<Rightarrow> string \<Rightarrow> bool \<Rightarrow> pplayer \<Rightarrow> pplayer option" where
  "upr_loop n [] standout pl = Some pl"
| "upr_loop n (ch # buf) standout pl =
     (case begin_line n pl of None \<Rightarrow> None | Some pl \<Rightarrow>
      case shift (of_char ch \<ge> (128 :: nat)) standout pl of None \<Rightarrow> None | Some (standout, pl) \<Rightarrow>
      let ch = char_of (of_char ch mod (128 :: nat)) in
      if ch = NL
      then (case pl_write [ch] pl of None \<Rightarrow> None | Some (r, pl) \<Rightarrow> upr_loop n buf standout (pl\<lparr>pl_curid := - 1\<rparr>))
      else (case pl_puts (if ch = CHR 0x00 then [] else [ch]) pl of None \<Rightarrow> None | Some (r, pl) \<Rightarrow> upr_loop n buf standout pl))"

definition upr_player :: "io_config \<Rightarrow> (nat \<Rightarrow> net) \<Rightarrow> bool \<Rightarrow> int \<Rightarrow> string \<Rightarrow> 'a dest \<Rightarrow> 'a dest option" where
  "upr_player cfg ns me n buf w =
     Option.bind (upr_loop n buf False (to_pl w)) (\<lambda>pl.
       let w = w\<lparr>to_pl := pl\<rparr> in if me then player_output_some cfg ns w else Some w)"

section \<open>Copying without funny characters\<close>

definition funny :: "nat \<Rightarrow> bool" where
  "funny ch \<longleftrightarrow> (ch < 0x20 \<and> ch \<noteq> 9 \<and> ch \<noteq> 10) \<or> ch = 0x7f"

text \<open>A byte that continues a UTF-8 sequence, \<open>(c & 0xc0) == 0x80\<close>, and one that starts one.\<close>

definition continues :: "char \<Rightarrow> bool" where
  "continues c \<longleftrightarrow> (of_char c :: int) AND 0xc0 = 0x80"

definition starts :: "char \<Rightarrow> bool" where
  "starts c \<longleftrightarrow> (of_char c :: int) AND 0xc0 = 0xc0"

fun copy_ascii_no_funny :: "string \<Rightarrow> string" where
  "copy_ascii_no_funny [] = []"
| "copy_ascii_no_funny (c # src) =
     (if funny (of_char c) then copy_ascii_no_funny src
      else if (of_char c :: nat) > 0x7f then CHR ''?'' # copy_ascii_no_funny src
      else c # copy_ascii_no_funny src)"

fun copy_utf8_no_funny :: "string \<Rightarrow> string" where
  "copy_utf8_no_funny [] = []"
| "copy_utf8_no_funny (c # src) =
     (if funny (of_char c) then copy_utf8_no_funny src else c # copy_utf8_no_funny src)"

function copy_utf8_to_ascii_no_funny :: "string \<Rightarrow> string" where
  "copy_utf8_to_ascii_no_funny [] = []"
| "copy_utf8_to_ascii_no_funny (c # src) =
     (if funny (of_char c) then copy_utf8_to_ascii_no_funny src
      else if (of_char c :: nat) > 0x7f then CHR ''?'' # copy_utf8_to_ascii_no_funny (dropWhile continues src)
      else c # copy_utf8_to_ascii_no_funny src)"
  by pat_completeness auto
termination
  by (relation "measure length") (auto simp: le_imp_less_Suc length_dropWhile_le)

function ufindpfx_loop :: "string \<Rightarrow> nat \<Rightarrow> nat \<Rightarrow> nat" where
  "ufindpfx_loop s n i =
     (if n \<noteq> 0 \<and> i < length s
      then ufindpfx_loop s (n - 1)
             (if starts (s ! i) then Suc i + length (takeWhile continues (drop (Suc i) s)) else Suc i)
      else i)"
  by pat_completeness auto
termination
  by (relation "measure (\<lambda>(s, n, i). n)") auto

declare ufindpfx_loop.simps [simp del]

definition ufindpfx :: "string \<Rightarrow> nat \<Rightarrow> nat" where
  "ufindpfx s n = ufindpfx_loop s n 0"

section \<open>Printing\<close>

definition pr :: "io_config \<Rightarrow> (nat \<Rightarrow> net) \<Rightarrow> string \<Rightarrow> 'a dest \<Rightarrow> 'a dest option" where
  "pr cfg ns buf w =
     (if pl_flags (to_pl w) AND PF_UTF8 \<noteq> 0 then upr_player cfg ns True C_DATA buf w
      else pr_player cfg ns True C_DATA buf w)"

definition uprnf :: "io_config \<Rightarrow> (nat \<Rightarrow> net) \<Rightarrow> string \<Rightarrow> 'a dest \<Rightarrow> 'a dest option" where
  "uprnf cfg ns buf w =
     (if pl_flags (to_pl w) AND PF_UTF8 = 0 then pr_player cfg ns True C_DATA (copy_utf8_to_ascii_no_funny buf) w
      else pr_player cfg ns True C_DATA buf w)"

definition pr_id :: "io_config \<Rightarrow> (nat \<Rightarrow> net) \<Rightarrow> bool \<Rightarrow> int \<Rightarrow> string \<Rightarrow> 'a dest \<Rightarrow> 'a dest option" where
  "pr_id cfg ns me n buf w =
     Option.bind (if pl_curid (to_pl w) \<ge> 0 then end_line (to_pl w) else Some (to_pl w))
       (\<lambda>pl. pr_player cfg ns me n buf (w\<lparr>to_pl := pl\<rparr>))"

definition output_now :: "(nat \<Rightarrow> net) \<Rightarrow> 'a dest \<Rightarrow> 'a dest option" where
  "output_now ns w =
     map_option (\<lambda>(r, s, p, d). w\<lparr>to_pl := (to_pl w)\<lparr>pl_iop := p\<rparr>, to_db := d, to_sent := to_sent w @ s, to_calls := to_calls w + 1\<rparr>)
       (io_output 0 (ns (to_calls w)) (pl_iop (to_pl w)) (to_db w))"

definition pr_flash :: "io_config \<Rightarrow> (nat \<Rightarrow> net) \<Rightarrow> bool \<Rightarrow> string \<Rightarrow> 'a dest \<Rightarrow> 'a dest option" where
  "pr_flash cfg ns me buf w =
     (if pl_state (to_pl w) \<noteq> PS_PLAYING then Some w
      else let buf = (if pl_flags (to_pl w) AND PF_UTF8 = 0 then copy_utf8_to_ascii_no_funny buf else buf)
           in Option.bind (pr_player cfg ns me C_FLASH buf w) (output_now ns))"

definition pr_inform :: "io_config \<Rightarrow> (nat \<Rightarrow> net) \<Rightarrow> bool \<Rightarrow> string \<Rightarrow> 'a dest \<Rightarrow> 'a dest option" where
  "pr_inform cfg ns me buf w =
     (if pl_state (to_pl w) \<noteq> PS_PLAYING then Some w
      else Option.bind (pr_player cfg ns me C_INFORM buf w) (output_now ns))"

definition prredir :: "io_config \<Rightarrow> (nat \<Rightarrow> net) \<Rightarrow> string \<Rightarrow> 'a dest \<Rightarrow> 'a dest option" where
  "prredir cfg ns redir = pr_id cfg ns True (if redir \<noteq> [] \<and> hd redir = CHR ''>'' then C_REDIR else C_PIPE) (redir @ [NL])"

definition prexec :: "io_config \<Rightarrow> (nat \<Rightarrow> net) \<Rightarrow> string \<Rightarrow> 'a dest \<Rightarrow> 'a dest option" where
  "prexec cfg ns file = pr_id cfg ns True C_EXECUTE (file @ [NL])"

text \<open>\<open>%d\<close>.\<close>

fun digits :: "nat \<Rightarrow> string" where
  "digits n = (if n < 10 then [char_of (48 + n)] else digits (n div 10) @ [char_of (48 + n mod 10)])"

declare digits.simps [simp del]

definition show_int :: "int \<Rightarrow> string" where
  "show_int i = (if i < 0 then CHR ''-'' # digits (nat (- i)) else digits (nat i))"

definition prprompt :: "io_config \<Rightarrow> (nat \<Rightarrow> net) \<Rightarrow> int \<Rightarrow> int \<Rightarrow> 'a dest \<Rightarrow> 'a dest option" where
  "prprompt cfg ns mins btu = pr_id cfg ns True C_PROMPT (show_int mins @ '' '' @ show_int btu @ [NL])"

section \<open>Input\<close>

text \<open>
  \<open>recvclient\<close>; \<open>ab i\<close> says that another thread has aborted the command by the time call \<open>i\<close> to the
  network returns. The bookkeeping of a thread that keeps failing (\<open>empth_sleep\<close>) is left out.
\<close>

definition set_iop :: "iop \<Rightarrow> 'a dest \<Rightarrow> 'a dest" where
  "set_iop p w = w\<lparr>to_pl := (to_pl w)\<lparr>pl_iop := p\<rparr>\<rparr>"

definition abort :: "bool \<Rightarrow> 'a dest \<Rightarrow> 'a dest" where
  "abort b w = (if b then w\<lparr>to_pl := (to_pl w)\<lparr>pl_aborted := True\<rparr>\<rparr> else w)"

definition got_line :: "io_config \<Rightarrow> string \<Rightarrow> 'a dest \<Rightarrow> 'a dest" where
  "got_line cfg cmd w =
     (let w = (if player_io_deadline cfg (to_pl w) False \<noteq> 0 then w\<lparr>to_db := ef_make_stale (to_db w)\<rparr> else w);
          w = (if cmd = ''ctld'' then w\<lparr>to_pl := (to_pl w)\<lparr>pl_aborted := True, pl_got_ctld := True\<rparr>\<rparr> else w)
      in abort (cmd = ''aborted'') w)"

definition flush_all :: "io_config \<Rightarrow> (nat \<Rightarrow> net) \<Rightarrow> 'a dest \<Rightarrow> 'a dest option" where
  "flush_all cfg ns w =
     (case io_flush (player_io_deadline cfg (to_pl w) False) ns (to_calls w) (to_sent w) (pl_iop (to_pl w)) (to_db w) of
        Some (Some (i, sent, p, d)) \<Rightarrow> Some (set_iop p w\<lparr>to_db := d, to_sent := sent, to_calls := i\<rparr>)
      | _ \<Rightarrow> None)"

definition idle_msg :: string where
  "idle_msg = ''idle connection terminated'' @ [NL]"

definition get_input :: "io_config \<Rightarrow> (nat \<Rightarrow> net) \<Rightarrow> (nat \<Rightarrow> bool) \<Rightarrow> 'a dest \<Rightarrow> 'a dest option" where
  "get_input cfg ns ab w =
     (case io_input (player_io_deadline cfg (to_pl w) False) (ns (to_calls w)) (pl_iop (to_pl w)) of
        None \<Rightarrow> None
      | Some (res, p) \<Rightarrow>
          let w = abort (ab (to_calls w)) (set_iop p w\<lparr>to_calls := to_calls w + 1\<rparr>) in
          if res > 0 then Some w
          else if res < 0 then Some (abort True w)
          else if io_eof p then Some (abort True w)
          else if \<not> pl_aborted (to_pl w)
          then Option.bind (pr_flash cfg ns True idle_msg w)
                 (\<lambda>w. map_option (\<lambda>p. abort True (set_iop p w)) (io_set_eof (pl_iop (to_pl w))))
          else Some w)"

partial_function (option) recv_loop ::
    "io_config \<Rightarrow> (nat \<Rightarrow> net) \<Rightarrow> (nat \<Rightarrow> bool) \<Rightarrow> int \<Rightarrow> int \<Rightarrow> string \<Rightarrow> 'a dest \<Rightarrow> (int \<times> string \<times> 'a dest) option" where
  [code]: "recv_loop cfg ns ab sz count cmd w =
     (if pl_aborted (to_pl w) then Some (count, cmd, w)
      else case io_gets sz (pl_iop (to_pl w)) of
        None \<Rightarrow> None
      | Some (count, line, p) \<Rightarrow>
          let w = set_iop p w in
          if count \<ge> 0 then Some (count, the line, got_line cfg (the line) w)
          else case flush_all cfg ns w of None \<Rightarrow> None | Some w \<Rightarrow>
               case get_input cfg ns ab (abort (ab (to_calls w - 1)) w) of None \<Rightarrow> None | Some w \<Rightarrow>
               recv_loop cfg ns ab sz count cmd w)"

definition recvclient :: "io_config \<Rightarrow> (nat \<Rightarrow> net) \<Rightarrow> (nat \<Rightarrow> bool) \<Rightarrow> int \<Rightarrow> string \<Rightarrow> 'a dest \<Rightarrow> (int \<times> string \<times> 'a dest) option" where
  "recvclient cfg ns ab sz cmd w =
     map_option (\<lambda>(count, cmd, w).
       if pl_aborted (to_pl w) then (- 1, cmd, w\<lparr>to_pl := (to_pl w)\<lparr>pl_recvfail := pl_recvfail (to_pl w) + 1\<rparr>\<rparr>)
       else (count, cmd, w\<lparr>to_pl := (to_pl w)\<lparr>pl_recvfail := 0\<rparr>\<rparr>))
     (recv_loop cfg ns ab sz (- 1) cmd w)"

text \<open>\<open>now\<close> is what \<open>time\<close> gives; \<open>copy\<close> is the copying for players who want UTF-8.\<close>

definition prompt_read :: "(string \<Rightarrow> string) \<Rightarrow> io_config \<Rightarrow> (nat \<Rightarrow> net) \<Rightarrow> (nat \<Rightarrow> bool) \<Rightarrow> int \<Rightarrow> string option \<Rightarrow> int \<Rightarrow> string
    \<Rightarrow> 'a dest \<Rightarrow> (int \<times> string \<times> 'a dest) option" where
  "prompt_read copy cfg ns ab now prompt sz buf w =
     (let prompt = (case prompt of None \<Rightarrow> ''? '' | Some p \<Rightarrow> p) in
      Option.bind (pr_id cfg ns True C_FLUSH (prompt @ [NL]) w) (\<lambda>w.
      Option.bind (recvclient cfg ns ab sz buf w) (\<lambda>(r, buf, w).
        if r < 0 then Some (r, buf, w)
        else let w = w\<lparr>to_pl := (to_pl w)\<lparr>pl_curup := now\<rparr>\<rparr> in
          if buf = [] then Some (1, buf, w)
          else let buf = (if pl_flags (to_pl w) AND PF_UTF8 \<noteq> 0 then copy buf else copy_ascii_no_funny buf)
               in Some (int (length buf), buf, w))))"

definition prmptrd :: "io_config \<Rightarrow> (nat \<Rightarrow> net) \<Rightarrow> (nat \<Rightarrow> bool) \<Rightarrow> int \<Rightarrow> string option \<Rightarrow> int \<Rightarrow> string
    \<Rightarrow> 'a dest \<Rightarrow> (int \<times> string \<times> 'a dest) option" where
  "prmptrd = prompt_read copy_utf8_to_ascii_no_funny"

definition uprmptrd :: "io_config \<Rightarrow> (nat \<Rightarrow> net) \<Rightarrow> (nat \<Rightarrow> bool) \<Rightarrow> int \<Rightarrow> string option \<Rightarrow> int \<Rightarrow> string
    \<Rightarrow> 'a dest \<Rightarrow> (int \<times> string \<times> 'a dest) option" where
  "uprmptrd = prompt_read copy_utf8_no_funny"

section \<open>Lines of output\<close>

text \<open>Lines with their IDs, and perhaps a started one; how they look on the wire; adding a character.\<close>

type_synonym lines = "(int \<times> string) list \<times> (int \<times> string) option"

definition enc_line :: "int \<times> string \<Rightarrow> string" where
  "enc_line l = id_char (fst l) # CHR '' '' # snd l"

definition enc :: "lines \<Rightarrow> string" where
  "enc st = concat (map (\<lambda>l. enc_line l @ [NL]) (fst st)) @ (case snd st of None \<Rightarrow> [] | Some l \<Rightarrow> enc_line l)"

definition cur_id :: "lines \<Rightarrow> int" where
  "cur_id st = (case snd st of None \<Rightarrow> - 1 | Some l \<Rightarrow> fst l)"

definition close_line :: "lines \<Rightarrow> lines" where
  "close_line st = (case snd st of None \<Rightarrow> st | Some l \<Rightarrow> (fst st @ [l], None))"

definition start_line :: "int \<Rightarrow> lines \<Rightarrow> lines" where
  "start_line n st = (if cur_id st = n then st else (fst (close_line st), Some (n, [])))"

definition add_char :: "int \<Rightarrow> char \<Rightarrow> lines \<Rightarrow> lines" where
  "add_char n c st =
     (let (ls, cur) = start_line n st; (m, s) = the cur
      in if c = NL then (ls @ [(m, s)], None) else (ls, Some (m, s @ [c])))"

definition lines_ok :: "lines \<Rightarrow> bool" where
  "lines_ok st \<longleftrightarrow> (\<forall>(n, s) \<in> set (fst (close_line st)). 0 \<le> n \<and> n \<le> C_LAST \<and> NL \<notin> set s)"

section \<open>A player's connection\<close>

definition pl_ok :: "pplayer \<Rightarrow> bool" where
  "pl_ok pl \<longleftrightarrow> iop_ok (pl_iop pl) \<and> iop_input (pl_iop pl) \<noteq> None \<and> iop_output (pl_iop pl) \<noteq> None"

text \<open>What all writing comes down to.\<close>

definition pl_put :: "string \<Rightarrow> pplayer \<Rightarrow> pplayer" where
  "pl_put s pl = pl\<lparr>pl_iop := (pl_iop pl)\<lparr>iop_output := Some (ioq_append s (the (iop_output (pl_iop pl))))\<rparr>\<rparr>"

lemma pl_put_ok:
  assumes "pl_ok pl"
  shows "pl_ok (pl_put s pl)" "pending (pl_iop (pl_put s pl)) = pending (pl_iop pl) @ s"
    "unread (pl_iop (pl_put s pl)) = unread (pl_iop pl)"
proof -
  obtain q where q: "iop_output (pl_iop pl) = Some q" using assms by (auto simp: pl_ok_def)
  have d: "ioq_dense q" "iop_last_out (pl_iop pl) \<le> ioq_qsize q" "0 \<le> iop_last_out (pl_iop pl)"
    using assms q by (auto simp: pl_ok_def iop_ok_def)
  have a: "ioq_ok (ioq_append s q) \<and> bytes (ioq_append s q) = bytes q @ s" by (rule ioq.append_law [OF dense_ok [OF d(1)]])
  have "ioq_dense (ioq_append s q)" using append_dense [OF d(1)] by (simp add: ioq_append_def)
  moreover have "ioq_qsize (ioq_append s q) = ioq_qsize q + int (length s)"
    using a ioq.qsize_law ioq.qsize_law [OF dense_ok [OF d(1)]] by simp
  ultimately show "pl_ok (pl_put s pl)" using assms d q by (simp add: pl_ok_def iop_ok_def pl_put_def)
  show "pending (pl_iop (pl_put s pl)) = pending (pl_iop pl) @ s" using a q by (simp add: pending_def pl_put_def)
  show "unread (pl_iop (pl_put s pl)) = unread (pl_iop pl)" by (simp add: unread_def pl_put_def)
qed

lemma pl_put_curid [simp]: "pl_curid (pl_put s pl) = pl_curid pl"
  by (simp add: pl_put_def)

lemma pl_ok_curid [simp]: "pl_ok (pl\<lparr>pl_curid := n\<rparr>) = pl_ok pl"
  by (simp add: pl_ok_def)

lemma pl_writes:
  assumes "pl_ok pl"
  shows "pl_puts s pl = Some (int (length s), pl_put s pl)" "pl_write s pl = Some (int (length s), pl_put s pl)"
proof -
  have "iop_flags (pl_iop pl) AND IO_WRITE \<noteq> 0" using assms by (auto simp: pl_ok_def iop_ok_def)
  then show "pl_puts s pl = Some (int (length s), pl_put s pl)" "pl_write s pl = Some (int (length s), pl_put s pl)"
    using assms by (auto simp: pl_ok_def pl_puts_def pl_write_def pl_put_def io_puts_def io_write_def ioq_puts_def ioq_append_def)
qed

text \<open>The player's connection shows the lines \<open>st\<close>, after the bytes \<open>sent\<close> before.\<close>

definition out_shows :: "string \<Rightarrow> pplayer \<Rightarrow> lines \<Rightarrow> bool" where
  "out_shows sent pl st \<longleftrightarrow> pl_ok pl \<and> sent @ pending (pl_iop pl) = enc st \<and> pl_curid pl = cur_id st \<and> lines_ok st"

lemma lines_cases:
  obtains (closed) ls where "st = (ls, None)" | (opened) ls n t where "st = (ls, Some (n, t))"
  by (cases st; cases "snd st") auto

lemma end_line_shows:
  assumes "out_shows sent pl st" "snd st \<noteq> None"
  shows "\<exists>pl'. end_line pl = Some pl' \<and> out_shows sent pl' (close_line st)"
proof -
  obtain ls n t where st: "st = (ls, Some (n, t))" using assms(2) by (cases st) auto
  have ok: "pl_ok pl" using assms(1) by (simp add: out_shows_def)
  have "sent @ pending (pl_iop (pl_put [NL] pl)) = enc (close_line st)"
    using assms(1) st pl_put_ok(2) [OF ok, of "[NL]"] by (simp add: out_shows_def enc_def close_line_def flip: append_assoc)
  then show ?thesis
    using assms(1) st pl_put_ok(1) [OF ok, of "[NL]"]
    by (simp add: end_line_def pl_writes [OF ok] out_shows_def cur_id_def close_line_def lines_ok_def)
qed

lemma cur_id_range: "lines_ok st \<Longrightarrow> cur_id st = - 1 \<longleftrightarrow> snd st = None"
  by (cases st rule: lines_cases) (auto simp: lines_ok_def cur_id_def close_line_def)

lemma outid_shows:
  assumes p: "out_shows sent pl st" and n: "0 \<le> n" "n \<le> C_LAST" and c: "snd st = None"
  shows "\<exists>pl'. outid n pl = Some pl' \<and> out_shows sent pl' (fst st, Some (n, []))"
proof -
  have ok: "pl_ok pl" using p by (simp add: out_shows_def)
  have "sent @ pending (pl_iop (pl_put [id_char n, CHR '' ''] pl)) = enc (fst st, Some (n, []))"
    using p c pl_put_ok(2) [OF ok, of "[id_char n, CHR '' '']"]
    by (simp add: out_shows_def enc_def enc_line_def flip: append_assoc)
  then show ?thesis
    using p n c pl_put_ok(1) [OF ok, of "[id_char n, CHR '' '']"]
    by (simp add: outid_def pl_writes [OF ok] out_shows_def cur_id_def close_line_def lines_ok_def)
qed

lemma close_close [simp]: "close_line (close_line st) = close_line st" "lines_ok (close_line st) = lines_ok st" "snd (close_line st) = None"
  by (cases st rule: lines_cases; simp add: close_line_def lines_ok_def)+

lemma begin_line_shows:
  assumes p: "out_shows sent pl st" and n: "0 \<le> n" "n \<le> C_LAST"
  shows "\<exists>pl'. begin_line n pl = Some pl' \<and> out_shows sent pl' (start_line n st)"
proof -
  have cur: "pl_curid pl = cur_id st" "lines_ok st" using p by (simp_all add: out_shows_def)
  show ?thesis
  proof (cases "cur_id st = - 1")
    case True
    then have "snd st = None" using cur_id_range [OF cur(2)] by simp
    then show ?thesis using outid_shows [OF p n] True cur(1) n
      by (simp add: begin_line_def start_line_def close_line_def)
  next
    case False
    then have opn: "snd st \<noteq> None" using cur_id_range [OF cur(2)] by simp
    show ?thesis
    proof (cases "cur_id st = n")
      case True
      then show ?thesis using p cur(1) False by (simp add: begin_line_def start_line_def)
    next
      case ne: False
      obtain pl' where e: "end_line pl = Some pl'" "out_shows sent pl' (close_line st)" using end_line_shows [OF p opn] by blast
      have "pl_curid pl' = - 1" using e(2) by (simp add: out_shows_def cur_id_def)
      then show ?thesis using outid_shows [OF e(2) n] e ne cur(1) False
        by (simp add: begin_line_def start_line_def)
    qed
  qed
qed

lemma fold_open: "NL \<notin> set s \<Longrightarrow> fold (add_char n) s (ls, Some (n, t)) = (ls, Some (n, t @ s))"
  by (induction s arbitrary: t) (auto simp: add_char_def start_line_def cur_id_def)

lemma start_line_open: "0 \<le> n \<Longrightarrow> \<exists>ls t. start_line n st = (ls, Some (n, t))"
  by (cases st rule: lines_cases) (auto simp: start_line_def cur_id_def close_line_def)

lemma add_char_start: "0 \<le> n \<Longrightarrow> add_char n c (start_line n st) = add_char n c st"
  using start_line_open [of n st] by (auto simp: add_char_def) (auto simp: start_line_def cur_id_def)

lemma fold_start: "0 \<le> n \<Longrightarrow> s \<noteq> [] \<Longrightarrow> fold (add_char n) s (start_line n st) = fold (add_char n) s st"
  by (cases s) (simp_all add: add_char_start)

text \<open>Adding text to a started line.\<close>

lemma put_shows:
  assumes p: "out_shows sent pl (ls, Some (n, t))" and s: "NL \<notin> set s"
  shows "out_shows sent (pl_put s pl) (ls, Some (n, t @ s))"
    "out_shows sent (pl_put (s @ [NL]) pl\<lparr>pl_curid := - 1\<rparr>) (ls @ [(n, t @ s)], None)"
proof -
  have ok: "pl_ok pl" using p by (simp add: out_shows_def)
  show "out_shows sent (pl_put s pl) (ls, Some (n, t @ s))"
    using p s pl_put_ok [OF ok, of s]
    by (simp add: out_shows_def enc_def enc_line_def cur_id_def lines_ok_def close_line_def flip: append_assoc)
  show "out_shows sent (pl_put (s @ [NL]) pl\<lparr>pl_curid := - 1\<rparr>) (ls @ [(n, t @ s)], None)"
    using p s pl_put_ok [OF ok, of "s @ [NL]"]
    by (simp add: out_shows_def enc_def enc_line_def cur_id_def lines_ok_def close_line_def flip: append_assoc)
qed

lemma pr_loop_shows:
  assumes "out_shows sent pl st" and n: "0 \<le> n" "n \<le> C_LAST" and "0 \<le> bp"
  shows "\<exists>pl'. pr_loop n buf bp pl = Some pl' \<and> out_shows sent pl' (fold (add_char n) (drop (nat bp) buf) st)"
  using assms(1,4)
proof (induction "nat (int (length buf) - bp)" arbitrary: bp pl st rule: less_induct)
  case less
  show ?case
  proof (cases "bp \<ge> int (length buf)")
    case True
    then show ?thesis using less.prems by (subst pr_loop.simps) simp
  next
    case False
    let ?rest = "drop (nat bp) buf"
    have rest: "?rest \<noteq> []" using False less.prems(2) by simp
    obtain ls t where st: "start_line n st = (ls, Some (n, t))" using start_line_open [OF n(1)] by blast
    obtain pl1 where b: "begin_line n pl = Some pl1" "out_shows sent pl1 (ls, Some (n, t))"
      using begin_line_shows [OF less.prems(1) n] st by auto
    have ok: "pl_ok pl1" using b(2) by (simp add: out_shows_def)
    have fold: "fold (add_char n) ?rest st = fold (add_char n) ?rest (ls, Some (n, t))"
      using fold_start [OF n(1) rest, of st] st by simp
    let ?before = "takeWhile (\<lambda>c. c \<noteq> NL) ?rest"
    have nl: "NL \<notin> set ?before" using set_takeWhileD by fastforce
    show ?thesis
    proof (cases "NL \<in> set ?rest")
      case True
      then obtain us vs where split: "?rest = us @ NL # vs" "NL \<notin> set us"
        by (rule split_list_first [THEN exE]) blast
      have bef: "?before = us" unfolding split(1) using split(2) by (subst takeWhile_append2) auto
      let ?bp = "bp + int (length us) + 1"
      have lt: "nat (int (length buf) - ?bp) < nat (int (length buf) - bp)" using False by linarith
      have nb: "nat ?bp = length us + 1 + nat bp" using less.prems(2) by linarith
      have "drop (nat ?bp) buf = drop (length us + 1) ?rest" by (simp only: nb drop_drop)
      then have vs: "drop (nat ?bp) buf = vs" by (simp add: split(1))
      obtain pl' where p': "pr_loop n buf ?bp (pl_put (us @ [NL]) pl1\<lparr>pl_curid := - 1\<rparr>) = Some pl'"
        "out_shows sent pl' (fold (add_char n) vs (ls @ [(n, t @ us)], None))"
        using less.hyps [OF lt put_shows(2) [OF b(2) split(2)]] less.prems(2) vs by auto
      have "fold (add_char n) ?rest st = fold (add_char n) vs (ls @ [(n, t @ us)], None)"
        unfolding fold unfolding split(1) using fold_open [OF split(2), of n ls t] by (simp add: add_char_def start_line_def cur_id_def)
      moreover have "pr_loop n buf bp pl = Some pl'"
        using less.prems(2) False b(1) True p'(1) bef by (subst pr_loop.simps) (simp add: pl_writes [OF ok] Let_def)
      ultimately show ?thesis using p'(2) by simp
    next
      case noNL: False
      have "pr_loop n buf bp pl = pr_loop n buf (bp + int (length ?rest)) (pl_put ?rest pl1)"
        using less.prems(2) False b(1) noNL by (subst pr_loop.simps) (simp add: pl_writes [OF ok] Let_def)
      also have "bp + int (length ?rest) = int (length buf)" using False less.prems(2) by simp
      also have "pr_loop n buf (int (length buf)) (pl_put ?rest pl1) = Some (pl_put ?rest pl1)"
        by (subst pr_loop.simps) simp
      finally show ?thesis using put_shows(1) [OF b(2) noNL] fold_open [OF noNL, of n ls t] by (simp add: fold)
    qed
  qed
qed

lemma output_some_shows:
  assumes ns: "\<forall>i. net_ok (ns i)"
  shows "out_shows (to_sent w) (to_pl w) st \<Longrightarrow>
    \<exists>w'. output_some_loop dl ns w = Some w' \<and> out_shows (to_sent w') (to_pl w') st \<and> to_calls w \<le> to_calls w'"
proof (induction "length (pending (pl_iop (to_pl w)))" arbitrary: w rule: less_induct)
  case less
  have p: "iop_ok (pl_iop (to_pl w))" "iop_flags (pl_iop (to_pl w)) AND IO_WRITE \<noteq> 0"
    using less.prems by (auto simp: out_shows_def pl_ok_def iop_ok_def)
  obtain r s p' d' where o: "io_output_if_queue_long dl (ns (to_calls w)) (pl_iop (to_pl w)) (to_db w) = Some (r, s, p', d')"
    "iop_ok p'" "s @ pending p' = pending (pl_iop (to_pl w))" "iop_input p' = iop_input (pl_iop (to_pl w))"
    "iop_flags p' AND IO_WRITE \<noteq> 0" "r = int (length s) \<or> r = - 1 \<and> s = []"
    using io_long_step [OF p spec [OF ns], of dl "to_calls w" "to_db w"] by blast
  let ?w = "w\<lparr>to_pl := (to_pl w)\<lparr>pl_iop := p'\<rparr>, to_db := d', to_sent := to_sent w @ s, to_calls := to_calls w + 1\<rparr>"
  have "iop_output p' \<noteq> None" using o(2,5) by (auto simp: iop_ok_def)
  then have sh: "out_shows (to_sent ?w) (to_pl ?w) st" using less.prems o(2,3,4) by (simp add: out_shows_def pl_ok_def)
  show ?case
  proof (cases "r > 0")
    case True
    then have "s \<noteq> []" using o(6) by auto
    then have "length (pending (pl_iop (to_pl ?w))) < length (pending (pl_iop (to_pl w)))" by (simp flip: o(3))
    from less.hyps [OF this sh] obtain w' where "output_some_loop dl ns ?w = Some w'" "out_shows (to_sent w') (to_pl w') st"
      "to_calls ?w \<le> to_calls w'" by blast
    then show ?thesis using o(1) True by (subst output_some_loop.simps) (simp add: Let_def)
  next
    case False
    then show ?thesis using o(1) sh by (subst output_some_loop.simps) (simp add: Let_def)
  qed
qed

lemma pr_player_shows:
  assumes "\<forall>i. net_ok (ns i)" "out_shows (to_sent w) (to_pl w) st" "0 \<le> n" "n \<le> C_LAST"
  shows "\<exists>w'. pr_player cfg ns me n buf w = Some w' \<and> out_shows (to_sent w') (to_pl w') (fold (add_char n) buf st)
    \<and> to_calls w \<le> to_calls w'"
proof -
  obtain pl' where l: "pr_loop n buf 0 (to_pl w) = Some pl'" "out_shows (to_sent w) pl' (fold (add_char n) buf st)"
    using pr_loop_shows [OF assms(2-4), of 0 buf] by auto
  then show ?thesis
    using output_some_shows [of ns "w\<lparr>to_pl := pl'\<rparr>" "fold (add_char n) buf st"] assms(1)
    by (auto simp: pr_player_def player_output_some_def Let_def)
qed

text \<open>The user text of normal text: highlighted characters between shift out and shift in.\<close>

definition high :: "char \<Rightarrow> bool" where
  "high c \<longleftrightarrow> of_char c \<ge> (128 :: nat)"

definition low :: "char \<Rightarrow> char" where
  "low c = char_of (of_char c mod (128 :: nat))"

lemma low_nonzero: "c \<noteq> CHR 0x00 \<Longrightarrow> c \<noteq> CHR 0x80 \<Longrightarrow> low c \<noteq> CHR 0x00"
proof
  assume c: "c \<noteq> CHR 0x00" "c \<noteq> CHR 0x80" and "low c = CHR 0x00"
  then have "of_char (low c) = (0 :: nat)" by simp
  then have "of_char c mod 128 = (0 :: nat)" by (simp add: low_def of_char_of)
  moreover have "of_char c < (256 :: nat)" by simp
  ultimately have "of_char c = (0 :: nat) \<or> of_char c = (128 :: nat)" by presburger
  moreover have "CHR 0x00 = char_of (0 :: nat)" "CHR 0x80 = char_of (128 :: nat)" by code_simp+
  ultimately show False using c char_of_char [of c] by metis
qed

fun user_text :: "bool \<Rightarrow> string \<Rightarrow> string" where
  "user_text standout [] = []"
| "user_text standout (c # cs) =
     (if high c \<noteq> standout then [if high c then CHR 0x0E else CHR 0x0F] else []) @ low c # user_text (high c) cs"

lemma put_char_shows:
  assumes p: "out_shows sent pl (start_line n st)" and n: "0 \<le> n" "n \<le> C_LAST" and c: "c \<noteq> NL"
  shows "out_shows sent (pl_put [c] pl) (add_char n c st)" "start_line n (add_char n c st) = add_char n c st"
proof -
  obtain ls t where st: "start_line n st = (ls, Some (n, t))" using start_line_open [OF n(1)] by blast
  have a: "add_char n c st = (ls, Some (n, t @ [c]))" using st c by (simp add: add_char_def)
  show "out_shows sent (pl_put [c] pl) (add_char n c st)"
    using put_shows(1) [of sent pl ls n t "[c]"] p st c by (simp add: a)
  show "start_line n (add_char n c st) = add_char n c st" by (simp add: a start_line_def cur_id_def)
qed

lemma shift_shows:
  assumes p: "out_shows sent pl (start_line n st)" and n: "0 \<le> n" "n \<le> C_LAST"
  shows "\<exists>pl'. shift h standout pl = Some (h, pl')
    \<and> out_shows sent pl' (start_line n (fold (add_char n) (if h \<noteq> standout then [if h then CHR 0x0E else CHR 0x0F] else []) st))"
proof -
  have ok: "pl_ok pl" using p by (simp add: out_shows_def)
  show ?thesis
    using p put_char_shows [OF p n, of "CHR 0x0E"] put_char_shows [OF p n, of "CHR 0x0F"]
    by (cases h; cases standout) (simp_all add: shift_def pl_writes [OF ok])
qed

lemma upr_loop_shows:
  assumes "out_shows sent pl st" and n: "0 \<le> n" "n \<le> C_LAST" and "CHR 0x80 \<notin> set buf" "CHR 0x00 \<notin> set buf"
  shows "\<exists>pl'. upr_loop n buf standout pl = Some pl' \<and> out_shows sent pl' (fold (add_char n) (user_text standout buf) st)"
  using assms(1,4,5)
proof (induction buf arbitrary: pl st standout)
  case (Cons ch buf)
  define pre where "pre = (if high ch \<noteq> standout then [if high ch then CHR 0x0E else CHR 0x0F] else [])"
  define st1 where "st1 = fold (add_char n) pre st"
  obtain pl1 where b: "begin_line n pl = Some pl1" "out_shows sent pl1 (start_line n st)"
    using begin_line_shows [OF Cons.prems(1) n] by blast
  obtain pl2 where s: "shift (high ch) standout pl1 = Some (high ch, pl2)" "out_shows sent pl2 (start_line n st1)"
    using shift_shows [OF b(2) n, of "high ch" standout] unfolding st1_def pre_def by blast
  have ok: "pl_ok pl2" using s(2) by (simp add: out_shows_def)
  have step: "upr_loop n (ch # buf) standout pl =
      (if low ch = NL then upr_loop n buf (high ch) (pl_put [NL] pl2\<lparr>pl_curid := - 1\<rparr>)
       else upr_loop n buf (high ch) (pl_put (if low ch = CHR 0x00 then [] else [low ch]) pl2))"
    using b(1) s(1) by (simp add: high_def low_def Let_def pl_writes [OF ok])
  have ut: "fold (add_char n) (user_text standout (ch # buf)) st
      = fold (add_char n) (user_text (high ch) buf) (add_char n (low ch) st1)"
    by (simp add: st1_def pre_def)
  have rest: "CHR 0x80 \<notin> set buf" "CHR 0x00 \<notin> set buf" using Cons.prems by simp_all
  show ?case
  proof (cases "low ch = NL")
    case True
    obtain ls t where st: "start_line n st1 = (ls, Some (n, t))" using start_line_open [OF n(1)] by blast
    have "out_shows sent (pl_put [NL] pl2\<lparr>pl_curid := - 1\<rparr>) (add_char n (low ch) st1)"
      using put_shows(2) [of sent pl2 ls n t "[]"] s(2) st True by (simp add: add_char_def)
    from Cons.IH [OF this rest, of "high ch"] show ?thesis using True by (simp add: step ut del: upr_loop.simps user_text.simps)
  next
    case False
    have nz: "low ch \<noteq> CHR 0x00" using Cons.prems by (intro low_nonzero) auto
    have "out_shows sent (pl_put [low ch] pl2) (add_char n (low ch) st1)"
      using put_char_shows(1) [OF s(2) n False] .
    from Cons.IH [OF this rest, of "high ch"] show ?thesis using False nz by (simp add: step ut del: upr_loop.simps user_text.simps)
  qed
qed simp

lemma upr_player_shows:
  assumes "\<forall>i. net_ok (ns i)" "out_shows (to_sent w) (to_pl w) st" "0 \<le> n" "n \<le> C_LAST"
    and "CHR 0x80 \<notin> set buf" "CHR 0x00 \<notin> set buf"
  shows "\<exists>w'. upr_player cfg ns me n buf w = Some w' \<and> out_shows (to_sent w') (to_pl w') (fold (add_char n) (user_text False buf) st)"
proof -
  obtain pl' where l: "upr_loop n buf False (to_pl w) = Some pl'" "out_shows (to_sent w) pl' (fold (add_char n) (user_text False buf) st)"
    using upr_loop_shows [OF assms(2-6)] by blast
  then show ?thesis
    using output_some_shows [of ns "w\<lparr>to_pl := pl'\<rparr>" "fold (add_char n) (user_text False buf) st"] assms(1)
    by (auto simp: upr_player_def player_output_some_def Let_def)
qed

lemma pr_id_shows:
  assumes ns: "\<forall>i. net_ok (ns i)" and w: "out_shows (to_sent w) (to_pl w) st" and n: "0 \<le> n" "n \<le> C_LAST"
  shows "\<exists>w'. pr_id cfg ns me n buf w = Some w' \<and> out_shows (to_sent w') (to_pl w') (fold (add_char n) buf (close_line st))"
proof (cases "snd st = None")
  case True
  then have "close_line st = st" "pl_curid (to_pl w) = - 1" using w by (auto simp: close_line_def out_shows_def cur_id_def)
  then show ?thesis using pr_player_shows [OF ns w n, of cfg me buf] by (auto simp: pr_id_def)
next
  case False
  then obtain pl' where e: "end_line (to_pl w) = Some pl'" "out_shows (to_sent w) pl' (close_line st)"
    using end_line_shows [OF w] by blast
  have "pl_curid (to_pl w) \<ge> 0"
    using w False by (cases st rule: lines_cases) (auto simp: out_shows_def cur_id_def lines_ok_def close_line_def)
  then show ?thesis
    using pr_player_shows [OF ns _ n, of "w\<lparr>to_pl := pl'\<rparr>" "close_line st" cfg me buf] e by (auto simp: pr_id_def)
qed

text \<open>
  C23. The bytes sent to a player and waiting for him always form lines, each with the ID it was printed
  with, whatever was printed under which IDs in whatever pieces, and however much of it was sent meanwhile:
  \<open>pr_player\<close> adds its text as it is, starting new lines where the ID changes, \<open>upr_player\<close> adds it as
  user text, and \<open>pr_id\<close> always starts a new line. Printing never fails or hangs.
\<close>

theorem pr_keeps_lines:
  assumes "\<forall>i. net_ok (ns i)" and "out_shows (to_sent w) (to_pl w) st" and "0 \<le> n" "n \<le> C_LAST"
  shows "(\<exists>w'. pr_player cfg ns me n buf w = Some w' \<and> out_shows (to_sent w') (to_pl w') (fold (add_char n) buf st))
    \<and> (\<exists>w'. pr_id cfg ns me n buf w = Some w' \<and> out_shows (to_sent w') (to_pl w') (fold (add_char n) buf (close_line st)))
    \<and> (CHR 0x80 \<notin> set buf \<and> CHR 0x00 \<notin> set buf \<longrightarrow>
        (\<exists>w'. upr_player cfg ns me n buf w = Some w' \<and> out_shows (to_sent w') (to_pl w') (fold (add_char n) (user_text False buf) st)))"
  using pr_player_shows [of ns w st n cfg me buf] pr_id_shows [of ns w st n cfg me buf] upr_player_shows [of ns w st n buf cfg me] assms
  by blast

definition pl_example :: pplayer where
  "pl_example = \<lparr>pl_iop = the (io_open 4 3 16 0 0), pl_state = PS_PLAYING, pl_flags = 0, pl_nstat = NONVIS, pl_curup = 100,
     pl_may_sleep = PLAYER_SLEEP_FREELY, pl_aborted = False, pl_got_ctld = False, pl_recvfail = 0, pl_curid = - 1\<rparr>"

lemma pl_example_shows: "out_shows [] pl_example ([], None)"
proof -
  have "io_open 4 3 16 0 0 = Some (the (io_open 4 3 16 0 0))" by (simp add: io_open_def Let_def io_flags)
  from open_ok [OF this, where d = undefined] have "pl_ok pl_example" "pending (pl_iop pl_example) = []"
    by (simp_all add: conn_ok_def pl_ok_def pl_example_def io_flags)
  then show ?thesis by (simp add: out_shows_def enc_def cur_id_def lines_ok_def close_line_def) (simp add: pl_example_def)
qed

theorem pr_keeps_lines_witness:
  "\<forall>d :: int db. \<exists>w'. pr_player \<lparr>login_grace_time = 120, max_idle = 15, max_idle_visitor = 5\<rparr> (\<lambda>_. net_example) True C_DATA
      ''ab'' \<lparr>to_pl = pl_example, to_db = d, to_sent = [], to_calls = 0\<rparr> = Some w'
    \<and> to_sent w' @ pending (pl_iop (to_pl w')) = ''1 ab''"
proof
  fix d :: "int db"
  let ?w = "\<lparr>to_pl = pl_example, to_db = d, to_sent = [], to_calls = 0\<rparr>"
  have "fold (add_char C_DATA) ''ab'' ([], None) = ([], Some (C_DATA, ''ab''))"
    by (simp add: add_char_def start_line_def cur_id_def close_line_def C_DATA_def)
  moreover have "enc ([], Some (C_DATA, ''ab'')) = ''1 ab''"
    by (simp add: enc_def enc_line_def id_char_def C_DATA_def) code_simp
  moreover obtain w' where "pr_player \<lparr>login_grace_time = 120, max_idle = 15, max_idle_visitor = 5\<rparr> (\<lambda>_. net_example) True C_DATA ''ab'' ?w = Some w'"
    "out_shows (to_sent w') (to_pl w') (fold (add_char C_DATA) ''ab'' ([], None))"
    using pr_keeps_lines [of "\<lambda>_. net_example" ?w "([], None)" C_DATA "\<lparr>login_grace_time = 120, max_idle = 15, max_idle_visitor = 5\<rparr>" True "''ab''"]
      net_example_ok pl_example_shows by (auto simp: C_DATA_def C_LAST_def)
  ultimately show "\<exists>w'. pr_player \<lparr>login_grace_time = 120, max_idle = 15, max_idle_visitor = 5\<rparr> (\<lambda>_. net_example) True C_DATA
      ''ab'' ?w = Some w' \<and> to_sent w' @ pending (pl_iop (to_pl w')) = ''1 ab''"
    by (simp add: out_shows_def)
qed

section \<open>Receiving\<close>

definition dest_ok :: "'a dest \<Rightarrow> bool" where
  "dest_ok w \<longleftrightarrow> (\<exists>st. out_shows (to_sent w) (to_pl w) st)"

text \<open>A call at which the client neither sends nor is waited for in vain without end.\<close>

definition silent :: "net \<Rightarrow> bool" where
  "silent n \<longleftrightarrow> (\<forall>t. n_select n t \<le> 0) \<and> (case n_read n of Inl _ \<Rightarrow> True | Inr buf \<Rightarrow> buf = [])"

lemma abort_fields [simp]:
  "to_sent (abort b w) = to_sent w" "to_calls (abort b w) = to_calls w" "pl_iop (to_pl (abort b w)) = pl_iop (to_pl w)"
  "pl_curid (to_pl (abort b w)) = pl_curid (to_pl w)" "pl_aborted (to_pl (abort b w)) = (b \<or> pl_aborted (to_pl w))"
  by (simp_all add: abort_def)

lemma set_iop_fields [simp]:
  "to_sent (set_iop p w) = to_sent w" "to_calls (set_iop p w) = to_calls w" "pl_iop (to_pl (set_iop p w)) = p"
  "pl_curid (to_pl (set_iop p w)) = pl_curid (to_pl w)" "pl_aborted (to_pl (set_iop p w)) = pl_aborted (to_pl w)"
  by (simp_all add: set_iop_def)

lemma dest_ok_pl: "dest_ok w \<Longrightarrow> pl_ok (to_pl w)"
  by (auto simp: dest_ok_def out_shows_def)

text \<open>What keeps the output as it is.\<close>

lemma dest_ok_same:
  assumes "dest_ok w" "pl_ok (to_pl w')" "to_sent w' @ pending (pl_iop (to_pl w')) = to_sent w @ pending (pl_iop (to_pl w))"
    "pl_curid (to_pl w') = pl_curid (to_pl w)"
  shows "dest_ok w'"
  using assms by (auto simp: dest_ok_def out_shows_def)

lemma flush_all_ok:
  assumes ns: "\<forall>i. net_ok (ns i)" and w: "dest_ok w"
  shows "\<exists>w'. flush_all cfg ns w = Some w' \<and> dest_ok w' \<and> to_calls w < to_calls w'
    \<and> unread (pl_iop (to_pl w')) = unread (pl_iop (to_pl w))"
proof -
  have ok: "iop_ok (pl_iop (to_pl w))" "iop_input (pl_iop (to_pl w)) \<noteq> None" "iop_output (pl_iop (to_pl w)) \<noteq> None"
    using dest_ok_pl [OF w] by (simp_all add: pl_ok_def)
  define dl where "dl = player_io_deadline cfg (to_pl w) False"
  obtain i s p' d' where f: "io_flush dl ns (to_calls w) (to_sent w) (pl_iop (to_pl w)) (to_db w) = Some (Some (i, to_sent w @ s, p', d'))"
    "s @ pending p' = pending (pl_iop (to_pl w))" "iop_ok p'" "iop_input p' = iop_input (pl_iop (to_pl w))"
    "iop_output p' = None \<longleftrightarrow> iop_output (pl_iop (to_pl w)) = None" "to_calls w < i"
    using io_flush_ends [of "pl_iop (to_pl w)" ns dl "to_calls w" "to_sent w" "to_db w", OF ok(1) spec [OF ns]] by (elim exE conjE) (rule that; blast)
  let ?w = "set_iop p' w\<lparr>to_db := d', to_sent := to_sent w @ s, to_calls := i\<rparr>"
  have "pl_ok (to_pl ?w)" using f ok by (simp add: pl_ok_def)
  then have "dest_ok ?w" using w f(2) by (intro dest_ok_same [OF w]) simp_all
  then show ?thesis using f by (simp add: flush_all_def dl_def unread_def)
qed

lemma output_now_ok:
  assumes ns: "\<forall>i. net_ok (ns i)" and w: "dest_ok w"
  shows "\<exists>w'. output_now ns w = Some w' \<and> dest_ok w' \<and> to_calls w \<le> to_calls w'"
proof -
  have ok: "iop_ok (pl_iop (to_pl w))" "iop_input (pl_iop (to_pl w)) \<noteq> None" "iop_output (pl_iop (to_pl w)) \<noteq> None"
    using dest_ok_pl [OF w] by (simp_all add: pl_ok_def)
  obtain r s p' d' where o: "io_output 0 (ns (to_calls w)) (pl_iop (to_pl w)) (to_db w) = Some (r, s, p', d')" "iop_ok p'"
    "s @ pending p' = pending (pl_iop (to_pl w))" "iop_input p' = iop_input (pl_iop (to_pl w))"
    "iop_output p' = None \<longleftrightarrow> iop_output (pl_iop (to_pl w)) = None"
    using io_output_step [OF ok(1) spec [OF ns], of 0 "to_calls w" "to_db w"] by (elim exE conjE) (rule that; blast)
  let ?w = "w\<lparr>to_pl := (to_pl w)\<lparr>pl_iop := p'\<rparr>, to_db := d', to_sent := to_sent w @ s, to_calls := to_calls w + 1\<rparr>"
  have "pl_ok (to_pl ?w)" using o ok by (simp add: pl_ok_def)
  then have "dest_ok ?w" using o(3) by (intro dest_ok_same [OF w]) simp_all
  then show ?thesis using o(1) by (simp add: output_now_def)
qed

lemma pr_flash_ok:
  assumes ns: "\<forall>i. net_ok (ns i)" and w: "dest_ok w"
  shows "\<exists>w'. pr_flash cfg ns True buf w = Some w' \<and> dest_ok w' \<and> to_calls w \<le> to_calls w'"
proof (cases "pl_state (to_pl w) = PS_PLAYING")
  case True
  define msg where "msg = (if pl_flags (to_pl w) AND PF_UTF8 = 0 then copy_utf8_to_ascii_no_funny buf else buf)"
  obtain st where st: "out_shows (to_sent w) (to_pl w) st" using w by (auto simp: dest_ok_def)
  obtain w1 where w1: "pr_player cfg ns True C_FLASH msg w = Some w1" "out_shows (to_sent w1) (to_pl w1) (fold (add_char C_FLASH) msg st)" and c: "to_calls w \<le> to_calls w1"
    using pr_player_shows [OF ns st, of C_FLASH cfg True msg] by (auto simp: C_FLASH_def C_LAST_def)
  have "dest_ok w1" using w1(2) unfolding dest_ok_def by blast
  then obtain w2 where "output_now ns w1 = Some w2" "dest_ok w2" "to_calls w1 \<le> to_calls w2" using output_now_ok [OF ns] by blast
  then show ?thesis using True w1(1) c by (simp add: pr_flash_def Let_def msg_def [symmetric])
next
  case False
  then show ?thesis using w by (simp add: pr_flash_def)
qed

lemma io_input_keeps:
  assumes p: "iop_ok p" "iop_input p = Some i" "iop_output p \<noteq> None"
  shows "\<exists>r p'. io_input dl n p = Some (r, p') \<and> iop_ok p' \<and> iop_input p' \<noteq> None \<and> iop_output p' \<noteq> None \<and> pending p' = pending p
    \<and> (silent n \<longrightarrow> r \<le> 0)"
proof -
  have d: "ioq_dense i" using p by (simp add: iop_ok_def)
  have a: "ioq_dense (ioq_append buf i)" for buf using append_dense [OF d] by (simp add: ioq_append_def)
  have ok: "iop_ok (p\<lparr>iop_input := Some (ioq_append buf i)\<rparr>)" "iop_ok (p\<lparr>iop_flags := iop_flags p OR IO_EOF\<rparr>)" for buf
    using p a by (simp_all add: iop_ok_def flags_or)
  have s: "\<not> silent n" if "n_read n = Inr buf" "buf \<noteq> []" for buf
    using that by (simp add: silent_def)
  show ?thesis
    using io_input_cases [OF p(2), of dl n]
  proof (elim disjE exE conjE insertE emptyE)
    fix buf assume b: "n_read n = Inr buf" "buf \<noteq> []"
      "io_input dl n p = Some (int (length buf), p\<lparr>iop_input := Some (ioq_append buf i)\<rparr>)"
    then show ?thesis using ok(1) [of buf] p s [OF b(1,2)] by (simp add: pending_def)
  qed (use p ok(2) in \<open>simp_all add: set_error_ok\<close>, simp_all add: pending_def)
qed

lemma get_input_ok:
  assumes ns: "\<forall>i. net_ok (ns i)" and w: "dest_ok w"
  shows "\<exists>w'. get_input cfg ns ab w = Some w' \<and> dest_ok w' \<and> to_calls w < to_calls w'
    \<and> (silent (ns (to_calls w)) \<longrightarrow> pl_aborted (to_pl w'))"
proof -
  have ok: "iop_ok (pl_iop (to_pl w))" "iop_input (pl_iop (to_pl w)) \<noteq> None" "iop_output (pl_iop (to_pl w)) \<noteq> None"
    using dest_ok_pl [OF w] by (simp_all add: pl_ok_def)
  then obtain i where i: "iop_input (pl_iop (to_pl w)) = Some i" by auto
  define dl where "dl = player_io_deadline cfg (to_pl w) False"
  obtain r p' where p': "io_input dl (ns (to_calls w)) (pl_iop (to_pl w)) = Some (r, p')" "iop_ok p'" "iop_input p' \<noteq> None"
    "iop_output p' \<noteq> None" "pending p' = pending (pl_iop (to_pl w))" "silent (ns (to_calls w)) \<longrightarrow> r \<le> 0"
    using io_input_keeps [OF ok(1) i ok(3), of dl "ns (to_calls w)"] by blast
  define w1 where "w1 = abort (ab (to_calls w)) (set_iop p' w\<lparr>to_calls := to_calls w + 1\<rparr>)"
  have w1: "dest_ok w1" using p' by (intro dest_ok_same [OF w]) (simp_all add: w1_def pl_ok_def)
  have ab: "dest_ok (abort True w1)" by (rule dest_ok_same [OF w1]) (use dest_ok_pl [OF w1] in \<open>simp_all add: pl_ok_def\<close>)
  have c: "to_calls w1 = to_calls w + 1" by (simp add: w1_def)
  obtain w2 where w2: "pr_flash cfg ns True idle_msg w1 = Some w2" "dest_ok w2" "to_calls w1 \<le> to_calls w2"
    using pr_flash_ok [OF ns w1] by blast
  obtain q where q: "iop_input (pl_iop (to_pl w2)) = Some q" using dest_ok_pl [OF w2(2)] by (auto simp: pl_ok_def)
  define p3 where "p3 = (pl_iop (to_pl w2))\<lparr>iop_input := Some (ioq_drain q), iop_flags := iop_flags (pl_iop (to_pl w2)) OR IO_EOF\<rparr>"
  have "ioq_dense q" using dest_ok_pl [OF w2(2)] q by (simp add: pl_ok_def iop_ok_def)
  then have "ioq_dense (ioq_drain q)" using drain_ok [of q] by (simp add: ioq_dense_def ioq_drain_def dense_list_def)
  then have "pl_ok (to_pl (abort True (set_iop p3 w2)))"
    using dest_ok_pl [OF w2(2)] by (simp add: pl_ok_def iop_ok_def p3_def flags_or)
  then have w3: "dest_ok (abort True (set_iop p3 w2))"
    by (rule dest_ok_same [OF w2(2)]) (simp_all add: p3_def pending_def)
  have eof: "io_set_eof (pl_iop (to_pl w2)) = Some p3" by (simp add: io_set_eof_def q p3_def)
  have g: "get_input cfg ns ab w = (if r > 0 then Some w1 else if r < 0 \<or> io_eof p' then Some (abort True w1)
      else if \<not> pl_aborted (to_pl w1) then Some (abort True (set_iop p3 w2)) else Some w1)"
    unfolding get_input_def dl_def [symmetric] p'(1) option.case prod.case Let_def w1_def [symmetric]
    using w2(1) eof by simp
  show ?thesis
    using w1 ab w3 c w2(3) p'(6) by (auto simp: g)
qed

lemma gets_keeps:
  assumes w: "dest_ok w" and g: "io_gets sz (pl_iop (to_pl w)) = Some (n, l, p)"
  shows "dest_ok (set_iop p w)"
proof -
  obtain i where i: "iop_input (pl_iop (to_pl w)) = Some i" "ioq_dense i" "iop_flags (pl_iop (to_pl w)) AND IO_READ \<noteq> 0"
    using dest_ok_pl [OF w] by (auto simp: pl_ok_def iop_ok_def)
  obtain j where j: "ioq_gets sz i = (n, l, j)" "p = (pl_iop (to_pl w))\<lparr>iop_input := Some j\<rparr>"
    using g i by (auto simp: io_gets_def split: prod.splits)
  have "pl_ok (to_pl (set_iop p w))"
    using dest_ok_pl [OF w] gets_dense [OF i(2) j(1)] by (simp add: pl_ok_def iop_ok_def j(2))
  then show ?thesis by (rule dest_ok_same [OF w]) (simp_all add: j(2) pending_def)
qed

lemma io_gets_some: "dest_ok w \<Longrightarrow> \<exists>n l p. io_gets sz (pl_iop (to_pl w)) = Some (n, l, p)"
proof -
  assume w: "dest_ok w"
  then obtain i where "iop_input (pl_iop (to_pl w)) = Some i" using dest_ok_pl [OF w] by (auto simp: pl_ok_def)
  then show ?thesis by (cases "ioq_gets sz i") (auto simp: io_gets_def)
qed

lemma got_line_fields [simp]:
  "pl_iop (to_pl (got_line cfg cmd w)) = pl_iop (to_pl w)" "to_sent (got_line cfg cmd w) = to_sent w"
  "to_calls (got_line cfg cmd w) = to_calls w" "pl_curid (to_pl (got_line cfg cmd w)) = pl_curid (to_pl w)"
  "pl_aborted (to_pl (got_line cfg cmd w)) \<longleftrightarrow> pl_aborted (to_pl w) \<or> cmd \<in> {''aborted'', ''ctld''}"
  "pl_got_ctld (to_pl (got_line cfg cmd w)) \<longleftrightarrow> pl_got_ctld (to_pl w) \<or> cmd = ''ctld''"
  by (auto simp: got_line_def Let_def abort_def)

lemma got_line_ok: "dest_ok w \<Longrightarrow> dest_ok (got_line cfg cmd w)"
proof -
  assume w: "dest_ok w"
  then show ?thesis using dest_ok_pl [OF w] by (intro dest_ok_same [OF w]) (simp_all add: pl_ok_def)
qed

lemma recv_loop_ends:
  assumes ns: "\<forall>i. net_ok (ns i)" and quiet: "\<forall>i \<ge> N. silent (ns i)"
  shows "dest_ok w \<Longrightarrow>
    \<exists>c cmd' w'. recv_loop cfg ns ab sz count cmd w = Some (c, cmd', w') \<and> dest_ok w' \<and> (c < 0 \<and> \<not> pl_aborted (to_pl w) \<longrightarrow> pl_aborted (to_pl w'))"
proof (induction "N - to_calls w" arbitrary: w count rule: less_induct)
  case less
  show ?case
  proof (cases "pl_aborted (to_pl w)")
    case True
    then show ?thesis using less.prems by (subst recv_loop.simps) simp
  next
    case na: False
    obtain n l p where g: "io_gets sz (pl_iop (to_pl w)) = Some (n, l, p)" using io_gets_some [OF less.prems] by blast
    have wp: "dest_ok (set_iop p w)" by (rule gets_keeps [OF less.prems g])
    show ?thesis
    proof (cases "n \<ge> 0")
      case True
      then show ?thesis using na g got_line_ok [OF wp] by (subst recv_loop.simps) (simp add: Let_def)
    next
      case neg: False
      obtain w1 where w1: "flush_all cfg ns (set_iop p w) = Some w1" "dest_ok w1" "to_calls w < to_calls w1"
        using flush_all_ok [OF ns wp, of cfg] by auto
      define w2 where "w2 = abort (ab (to_calls w1 - 1)) w1"
      have w2: "dest_ok w2" using dest_ok_pl [OF w1(2)] by (intro dest_ok_same [OF w1(2)]) (simp_all add: w2_def pl_ok_def)
      obtain w3 where w3: "get_input cfg ns ab w2 = Some w3" "dest_ok w3" "to_calls w2 < to_calls w3"
        "silent (ns (to_calls w2)) \<longrightarrow> pl_aborted (to_pl w3)"
        using get_input_ok [OF ns w2, of cfg ab] by blast
      have step: "recv_loop cfg ns ab sz count cmd w = recv_loop cfg ns ab sz n cmd w3"
        using na g neg w1(1) w3(1) [unfolded w2_def] by (subst recv_loop.simps) (simp add: Let_def)
      show ?thesis
      proof (cases "pl_aborted (to_pl w3)")
        case True
        then show ?thesis unfolding step using w3(2) by (subst recv_loop.simps) simp
      next
        case False
        then have "\<not> N \<le> to_calls w2" using w3(4) quiet by blast
        then have lt: "N - to_calls w3 < N - to_calls w" using w1(3) w3(3) by (simp add: w2_def)
        show ?thesis unfolding step using less.hyps [OF lt w3(2), of n] False by blast
      qed
    qed
  qed
qed

lemma first_split: "a @ c # b = a' @ c # b' \<Longrightarrow> c \<notin> set a \<Longrightarrow> c \<notin> set a' \<Longrightarrow> a = a' \<and> b = b'"
proof (induction a arbitrary: a')
  case Nil
  then show ?case by (cases a') auto
next
  case (Cons x a)
  then show ?case by (cases a') auto
qed

text \<open>
  C24. \<open>recvclient\<close> never hangs on a client that has fallen silent: if from some call on the client sends
  nothing more, it returns, with -1 just when the command is then aborted, and counts the failure.
\<close>

theorem recvclient_returns:
  assumes "\<forall>i. net_ok (ns i)" and "\<forall>i \<ge> N. silent (ns i)" and "dest_ok w"
  shows "\<exists>r buf' w'. recvclient cfg ns ab sz buf w = Some (r, buf', w') \<and> dest_ok w'
     \<and> (pl_aborted (to_pl w') \<longleftrightarrow> r < 0)
     \<and> (r < 0 \<longrightarrow> r = - 1) \<and> (0 \<le> r \<longrightarrow> pl_recvfail (to_pl w') = 0)"
proof -
  obtain c cmd' w' where l: "recv_loop cfg ns ab sz (- 1) buf w = Some (c, cmd', w')" "dest_ok w'"
    "c < 0 \<and> \<not> pl_aborted (to_pl w) \<longrightarrow> pl_aborted (to_pl w')"
    using recv_loop_ends [OF assms, where count = "- 1" and cfg = cfg and ab = ab and sz = sz and cmd = buf] by blast
  have ab: "c < 0 \<longrightarrow> pl_aborted (to_pl w')"
  proof (cases "pl_aborted (to_pl w)")
    case True
    then have "recv_loop cfg ns ab sz (- 1) buf w = Some (- 1, buf, w)" by (subst recv_loop.simps) simp
    then show ?thesis using True l(1) by simp
  qed (use l(3) in simp)
  have ok: "dest_ok (w'\<lparr>to_pl := (to_pl w')\<lparr>pl_recvfail := k\<rparr>\<rparr>)" for k
    using dest_ok_pl [OF l(2)] by (intro dest_ok_same [OF l(2)]) (simp_all add: pl_ok_def)
  show ?thesis
    using l(1) ab ok by (cases "pl_aborted (to_pl w')") (auto simp: recvclient_def)
qed

theorem recvclient_returns_witness:
  "\<forall>d :: int db. \<exists>r buf' w'. recvclient \<lparr>login_grace_time = 120, max_idle = 15, max_idle_visitor = 5\<rparr>
      (\<lambda>_. net_example\<lparr>n_select := (\<lambda>_. 0), n_read := Inl True\<rparr>) (\<lambda>_. False) 80 []
      \<lparr>to_pl = pl_example, to_db = d, to_sent = [], to_calls = 0\<rparr> = Some (r, buf', w')
    \<and> (pl_aborted (to_pl w') \<longleftrightarrow> r < 0)"
proof
  fix d :: "int db"
  let ?n = "net_example\<lparr>n_select := (\<lambda>_. 0), n_read := Inl True\<rparr>"
  let ?w = "\<lparr>to_pl = pl_example, to_db = d, to_sent = [], to_calls = 0\<rparr>"
  let ?cfg = "\<lparr>login_grace_time = 120, max_idle = 15, max_idle_visitor = 5\<rparr>"
  have w: "dest_ok ?w" using pl_example_shows unfolding dest_ok_def by auto
  have "\<forall>i :: nat. net_ok ?n" using net_example_ok(1) by (simp add: net_ok_def)
  moreover have "\<forall>i \<ge> (0 :: nat). silent ?n" by (simp add: silent_def)
  ultimately show "\<exists>r buf' w'. recvclient ?cfg (\<lambda>_. ?n) (\<lambda>_. False) 80 [] ?w = Some (r, buf', w') \<and> (pl_aborted (to_pl w') \<longleftrightarrow> r < 0)"
    using recvclient_returns [of "\<lambda>_. ?n" 0 ?w ?cfg "\<lambda>_. False" 80 "[]"] w by blast
qed

text \<open>
  A complete line that waits is what \<open>recvclient\<close> returns, at once and without touching the network: cut
  to the buffer, without its carriage return, and taken out of the queue. The lines \<open>aborted\<close> and \<open>ctld\<close>
  abort the command instead.
\<close>

theorem recvclient_line:
  assumes w: "dest_ok w" "\<not> pl_aborted (to_pl w)" and l: "unread (pl_iop (to_pl w)) = line @ NL # rest" "NL \<notin> set line"
    and sz: "1 \<le> sz" and cmd: "cmd = chop_cr (take (nat (sz - 1)) line)"
  shows "\<exists>w'. recvclient cfg ns ab sz buf w = Some (if cmd \<in> {''aborted'', ''ctld''} then - 1 else int (length line), cmd, w')
     \<and> unread (pl_iop (to_pl w')) = rest \<and> to_sent w' = to_sent w \<and> to_calls w' = to_calls w
     \<and> pending (pl_iop (to_pl w')) = pending (pl_iop (to_pl w))
     \<and> (pl_aborted (to_pl w') \<longleftrightarrow> cmd \<in> {''aborted'', ''ctld''})
     \<and> (pl_got_ctld (to_pl w') \<longleftrightarrow> pl_got_ctld (to_pl w) \<or> cmd = ''ctld'')"
proof -
  obtain i where i: "iop_input (pl_iop (to_pl w)) = Some i" "ioq_dense i" "iop_flags (pl_iop (to_pl w)) AND IO_READ \<noteq> 0"
    using dest_ok_pl [OF w(1)] by (auto simp: pl_ok_def iop_ok_def)
  have b: "bytes i = line @ NL # rest" using l(1) i(1) by (simp add: unread_def)
  have "NL \<in> set (bytes i)" using b by simp
  then obtain line' rest' q' where g: "bytes i = line' @ NL # rest'" "NL \<notin> set line'"
    "ioq_gets sz i = (int (length line'), Some (chop_cr (take (nat (sz - 1)) line')), q')" "bytes q' = rest'"
    using gets_line [OF dense_ok [OF i(2)] sz] by blast
  have "line' @ NL # rest' = line @ NL # rest" by (rule trans [OF g(1) [symmetric] b])
  note eqs = first_split [OF this g(2) l(2)]
  have eq: "line' = line" "rest' = rest" by (rule conjunct1 [OF eqs]) (rule conjunct2 [OF eqs])
  define p where "p = (pl_iop (to_pl w))\<lparr>iop_input := Some q'\<rparr>"
  have "io_gets sz (pl_iop (to_pl w)) = Some (int (length line), Some cmd, p)"
    using i g(3) by (simp add: io_gets_def eq cmd p_def)
  then have r: "recv_loop cfg ns ab sz (- 1) buf w = Some (int (length line), cmd, got_line cfg cmd (set_iop p w))"
    using w(2) by (subst recv_loop.simps) (simp add: Let_def)
  have "unread p = rest" "pending p = pending (pl_iop (to_pl w))" using g(4) eq by (simp_all add: p_def unread_def pending_def)
  moreover have "pl_got_ctld (to_pl (set_iop p w)) = pl_got_ctld (to_pl w)" by (simp add: set_iop_def)
  ultimately show ?thesis
    using w(2) by (cases "cmd \<in> {''aborted'', ''ctld''}") (simp_all add: recvclient_def r)
qed

theorem recvclient_line_witness:
  "\<forall>d :: int db. \<exists>w'. recvclient \<lparr>login_grace_time = 120, max_idle = 15, max_idle_visitor = 5\<rparr> (\<lambda>_. net_example) (\<lambda>_. False) 3 []
      \<lparr>to_pl = pl_example\<lparr>pl_iop := (pl_iop pl_example)\<lparr>iop_input := Some (ioq_append (''nation'' @ [NL]) (ioq_create 16))\<rparr>\<rparr>,
       to_db = d, to_sent = [], to_calls = 0\<rparr> = Some (6, ''na'', w')"
proof
  fix d :: "int db"
  let ?q = "ioq_append (''nation'' @ [NL]) (ioq_create 16)"
  let ?pl = "pl_example\<lparr>pl_iop := (pl_iop pl_example)\<lparr>iop_input := Some ?q\<rparr>\<rparr>"
  let ?w = "\<lparr>to_pl = ?pl, to_db = d, to_sent = [], to_calls = 0\<rparr>"
  have q: "ioq_dense ?q" using append_dense [OF create_dense [of 16]] by (simp add: ioq_append_def)
  have b: "bytes ?q = ''nation'' @ [NL]" using ioq.append_law [OF create_ok(1)] by (simp add: create_ok)
  have "dest_ok ?w"
    using pl_example_shows q unfolding dest_ok_def
    by (intro exI [of _ "([], None)"]) (auto simp: out_shows_def pl_ok_def iop_ok_def pending_def)
  moreover have "\<not> pl_aborted ?pl" by (simp add: pl_example_def)
  moreover have "unread (pl_iop ?pl) = ''nation'' @ NL # []" using b by (simp add: unread_def)
  ultimately show "\<exists>w'. recvclient \<lparr>login_grace_time = 120, max_idle = 15, max_idle_visitor = 5\<rparr> (\<lambda>_. net_example) (\<lambda>_. False) 3 [] ?w
      = Some (6, ''na'', w')"
    using recvclient_line [of ?w "''nation''" "[]" 3 "''na''"] by (simp add: chop_cr_def) blast
qed

section \<open>Clean text\<close>

lemma copy_utf8_ascii_set: "c \<in> set (copy_utf8_to_ascii_no_funny s) \<Longrightarrow> of_char c < (128 :: nat) \<and> \<not> funny (of_char c)"
proof (induction s rule: copy_utf8_to_ascii_no_funny.induct)
  case (2 d src)
  then show ?case by (auto simp: funny_def split: if_splits)
qed simp

lemma copy_utf8_ascii_length: "length (copy_utf8_to_ascii_no_funny s) \<le> length s"
proof (induction s rule: copy_utf8_to_ascii_no_funny.induct)
  case (2 d src)
  then show ?case using length_dropWhile_le [of continues src] by (auto intro: le_trans)
qed simp

lemma copy_ascii_set: "c \<in> set (copy_ascii_no_funny s) \<Longrightarrow> of_char c < (128 :: nat) \<and> \<not> funny (of_char c)"
  by (induction s) (auto simp: funny_def split: if_splits)

lemma copy_utf8_set: "c \<in> set (copy_utf8_no_funny s) \<Longrightarrow> \<not> funny (of_char c)"
  by (induction s) (auto split: if_splits)

lemma copy_ascii_idem: "(\<And>c. c \<in> set s \<Longrightarrow> of_char c < (128 :: nat) \<and> \<not> funny (of_char c)) \<Longrightarrow>
    copy_ascii_no_funny s = s \<and> copy_utf8_no_funny s = s \<and> copy_utf8_to_ascii_no_funny s = s"
proof (induction s)
  case (Cons c s)
  have "of_char c < (128 :: nat) \<and> \<not> funny (of_char c)" by (rule Cons.prems) simp
  moreover have "copy_ascii_no_funny s = s \<and> copy_utf8_no_funny s = s \<and> copy_utf8_to_ascii_no_funny s = s"
    by (rule Cons.IH) (rule Cons.prems, simp)
  ultimately show ?case by simp
qed simp

text \<open>A newline, a control character other than the tab, is kept.\<close>

lemma copy_keeps_newline: "copy_ascii_no_funny [NL] = [NL]" "copy_utf8_no_funny [NL] = [NL]" "copy_utf8_to_ascii_no_funny [NL] = [NL]"
  by (simp_all add: funny_def)

text \<open>An empty answer to a prompt counts as one byte.\<close>

lemma prmptrd_empty_is_one:
  assumes "pr_id cfg ns True C_FLUSH (p @ [NL]) w = Some w1" "recvclient cfg ns ab sz buf w1 = Some (0, [], w2)"
  shows "\<exists>w'. prmptrd cfg ns ab now (Some p) sz buf w = Some (1, [], w')"
  using assms by (simp add: prmptrd_def prompt_read_def)

end
