(* ===== verification/Ring.thy ===== *)
theory Ring
  imports Prelude "HOL-Library.Word" "HOL-Library.Sublist"
begin

text \<open>
  The client's ring buffer, \<open>src/client/ringbuf.c\<close>: bytes between two counters of type
  \<open>unsigned\<close> (32 bits) that only ever grow and wrap around; a counter modulo \<open>RING_SIZE\<close> is an index into
  the array. A failing \<open>assert\<close> is None. EOF as a byte is None, so that \<open>ring_peek\<close> has \<open>Some None\<close> for it.
  \<open>held\<close> is the queue of bytes a ring stands for.
\<close>

definition RING_SIZE :: nat where "RING_SIZE = 4096"

record ring =
  r_cons :: "32 word"
  r_prod :: "32 word"
  r_buf :: string

definition ring_init :: "ring \<Rightarrow> ring" where
  "ring_init r = r\<lparr>r_cons := 0, r_prod := 0\<rparr>"

definition ring_len :: "ring \<Rightarrow> int option" where
  "ring_len r = (if r_prod r - r_cons r \<le> of_nat RING_SIZE then Some (sint (r_prod r - r_cons r)) else None)"

definition ring_space :: "ring \<Rightarrow> int" where
  "ring_space r = sint (of_nat RING_SIZE - (r_prod r - r_cons r))"

definition ring_at :: "ring \<Rightarrow> 32 word \<Rightarrow> char" where
  "ring_at r idx = r_buf r ! (unat idx mod RING_SIZE)"

definition ring_peek :: "ring \<Rightarrow> int \<Rightarrow> char option option" where
  "ring_peek r n =
     (if \<not> (- int RING_SIZE - 1 \<le> n \<and> n \<le> int RING_SIZE) then None
      else if n \<ge> 0 then
        let idx = r_cons r + of_int n in if idx \<ge> r_prod r then Some None else Some (Some (ring_at r idx))
      else if r_prod r < r_cons r + of_int (- n) then Some None
      else Some (Some (ring_at r (r_prod r - of_int (- n)))))"

definition ring_getc :: "ring \<Rightarrow> char option \<times> ring" where
  "ring_getc r =
     (if r_cons r = r_prod r then (None, r)
      else (Some (ring_at r (r_cons r)), r\<lparr>r_cons := r_cons r + 1\<rparr>))"

definition ring_putc :: "char \<Rightarrow> ring \<Rightarrow> char option \<times> ring" where
  "ring_putc c r =
     (if r_prod r - r_cons r = of_nat RING_SIZE then (None, r)
      else (Some c, r\<lparr>r_buf := (r_buf r)[unat (r_prod r) mod RING_SIZE := c], r_prod := r_prod r + 1\<rparr>))"

fun put_all :: "string \<Rightarrow> char option \<Rightarrow> ring \<Rightarrow> char option \<times> ring" where
  "put_all [] res r = (res, r)"
| "put_all (c # cs) res r = (case ring_putc c r of (res, r) \<Rightarrow> put_all cs res r)"

text \<open>The space left is computed as a \<open>size_t\<close> and converted to \<open>int\<close>, which keeps its low 32 bits.\<close>

definition ring_putm :: "string \<Rightarrow> ring \<Rightarrow> (int \<times> ring) option" where
  "ring_putm buf r =
     (let left = signed_take_bit 31 (ring_space r - int (length buf)) in
      if left \<ge> 0 then
        case put_all buf (Some (CHR 0x00)) r of (res, r) \<Rightarrow> if res = None then None else Some (left, r)
      else Some (left, r))"

definition ring_discard :: "int \<Rightarrow> ring \<Rightarrow> ring option" where
  "ring_discard n r =
     (case ring_len r of
        None \<Rightarrow> None
      | Some len \<Rightarrow> if 0 \<le> n \<and> n \<le> len then Some (r\<lparr>r_cons := r_cons r + of_int n\<rparr>) else None)"

text \<open>\<open>ring_search\<close>; its \<open>i\<close> and \<open>j\<close> are of type \<open>size_t\<close>, with room for every value of the counters.\<close>

fun matches_at :: "ring \<Rightarrow> string \<Rightarrow> nat \<Rightarrow> bool" where
  "matches_at r [] i = True"
| "matches_at r (c # s) i = (c = r_buf r ! (i mod RING_SIZE) \<and> matches_at r s (i + 1))"

function ring_search_loop :: "ring \<Rightarrow> string \<Rightarrow> nat \<Rightarrow> int" where
  "ring_search_loop r s i =
     (if i + length s \<le> unat (r_prod r)
      then if matches_at r s i then int i - int (unat (r_cons r)) else ring_search_loop r s (i + 1)
      else - 1)"
  by pat_completeness auto
termination
  by (relation "measure (\<lambda>(r, s, i). Suc (unat (r_prod r)) - i)") auto

declare ring_search_loop.simps [simp del]

definition ring_search :: "ring \<Rightarrow> string \<Rightarrow> int \<Rightarrow> int" where
  "ring_search r s n = ring_search_loop r s (unat (r_cons r + of_int n))"

text \<open>
  \<open>ring_from_file\<close>: the free pieces of the array, as offsets and lengths, and what \<open>readv\<close> scatters over
  them. \<open>res\<close> is what it gives: an error, or the bytes read.
\<close>

definition free_pieces :: "ring \<Rightarrow> (nat \<times> nat) list" where
  "free_pieces r =
     (let cons = unat (r_cons r) mod RING_SIZE; prod = unat (r_prod r) mod RING_SIZE in
      if cons \<le> prod then [(prod, RING_SIZE - prod), (0, cons)] else [(prod, cons - prod)])"

definition put_at :: "nat \<Rightarrow> string \<Rightarrow> string \<Rightarrow> string" where
  "put_at off s buf = take off buf @ s @ drop (off + length s) buf"

fun scatter :: "(nat \<times> nat) list \<Rightarrow> string \<Rightarrow> string \<Rightarrow> string" where
  "scatter [] s buf = buf"
| "scatter ((off, len) # ps) s buf = scatter ps (drop len s) (put_at off (take len s) buf)"

definition ring_from_file :: "unit + string \<Rightarrow> ring \<Rightarrow> int \<times> ring" where
  "ring_from_file res r =
     (if r_prod r = r_cons r + of_nat RING_SIZE then (0, r)
      else case res of
             Inl _ \<Rightarrow> (- 1, r)
           | Inr s \<Rightarrow> (int (length s), r\<lparr>r_buf := scatter (free_pieces r) s (r_buf r), r_prod := r_prod r + of_nat (length s)\<rparr>))"

definition ring_to_iovec :: "ring \<Rightarrow> string list" where
  "ring_to_iovec r =
     (let cons = unat (r_cons r) mod RING_SIZE; prod = unat (r_prod r) mod RING_SIZE in
      if r_cons r = r_prod r then []
      else if prod > cons then [take (prod - cons) (drop cons (r_buf r))]
      else [drop cons (r_buf r), take prod (r_buf r)])"

section \<open>The bytes held\<close>

definition held_len :: "ring \<Rightarrow> nat" where
  "held_len r = unat (r_prod r - r_cons r)"

definition held :: "ring \<Rightarrow> string" where
  "held r = map (\<lambda>k. r_buf r ! ((unat (r_cons r) + k) mod RING_SIZE)) [0..<held_len r]"

definition ring_ok :: "ring \<Rightarrow> bool" where
  "ring_ok r \<longleftrightarrow> length (r_buf r) = RING_SIZE \<and> held_len r \<le> RING_SIZE"

lemma length_held [simp]: "length (held r) = held_len r"
  by (simp add: held_def)

lemma held_nth: "k < held_len r \<Longrightarrow> held r ! k = r_buf r ! ((unat (r_cons r) + k) mod RING_SIZE)"
  by (simp add: held_def)

lemma size_dvd: "RING_SIZE dvd 2 ^ 32"
  by (simp add: RING_SIZE_def)

lemma unat_plus_mod: "unat (a + b :: 32 word) mod RING_SIZE = (unat a + unat b) mod RING_SIZE"
proof -
  have "unat (a + b) = (unat a + unat b) mod 2 ^ 32" by (simp add: unat_word_ariths)
  then show ?thesis using size_dvd by (simp add: mod_mod_cancel)
qed

lemma unat_plus_of_nat: "unat (a + of_nat k :: 32 word) mod RING_SIZE = (unat a + k) mod RING_SIZE"
proof -
  have "unat (of_nat k :: 32 word) mod RING_SIZE = k mod RING_SIZE"
    using size_dvd by (simp add: unat_of_nat mod_mod_cancel)
  then show ?thesis unfolding unat_plus_mod by (metis mod_add_right_eq)
qed

lemma prod_index: "unat (r_prod r) mod RING_SIZE = (unat (r_cons r) + held_len r) mod RING_SIZE"
  using unat_plus_mod [of "r_cons r" "r_prod r - r_cons r"] by (simp add: held_len_def)

lemma unat_size [simp]: "unat (of_nat RING_SIZE :: 32 word) = RING_SIZE"
  by (simp add: RING_SIZE_def)

lemma sint_small: "unat (w :: 32 word) \<le> RING_SIZE \<Longrightarrow> sint w = int (unat w)"
proof -
  assume "unat w \<le> RING_SIZE"
  then have "int (unat w) \<le> int RING_SIZE" by (simp only: of_nat_le_iff)
  then have "uint w \<le> 4096" by (simp add: RING_SIZE_def)
  moreover have "- (2 ^ 31) \<le> uint w" by (rule order_trans [of _ 0]) simp_all
  ultimately have "signed_take_bit 31 (uint w) = uint w" by (intro signed_take_bit_int_eq_self) simp_all
  then show ?thesis by (simp add: sint_uint)
qed

lemma held_le: "ring_ok r \<Longrightarrow> r_prod r - r_cons r \<le> of_nat RING_SIZE"
  by (simp add: ring_ok_def held_len_def word_le_nat_alt)

lemma ring_len_held: "ring_ok r \<Longrightarrow> ring_len r = Some (int (held_len r))"
  using held_le [of r] by (simp add: ring_len_def ring_ok_def held_len_def sint_small)

lemma ring_space_held:
  assumes "ring_ok r"
  shows "ring_space r = int RING_SIZE - int (held_len r)"
proof -
  have "unat (of_nat RING_SIZE - (r_prod r - r_cons r) :: 32 word) = RING_SIZE - held_len r"
    using unat_sub [OF held_le [OF assms]] by (simp add: held_len_def)
  then show ?thesis using assms by (simp add: ring_space_def sint_small ring_ok_def)
qed

text \<open>Advancing a counter.\<close>

lemma unat_bound: "unat (w :: 32 word) < 2 ^ 32"
proof -
  have "unat w < 2 ^ LENGTH(32)" by (rule unsigned_less)
  then show ?thesis by simp
qed

lemma held_len_get:
  assumes "k \<le> held_len r"
  shows "held_len (r\<lparr>r_cons := r_cons r + of_nat k\<rparr>) = held_len r - k"
proof -
  have e: "held_len (r\<lparr>r_cons := r_cons r + of_nat k\<rparr>) = unat ((r_prod r - r_cons r) - of_nat k)"
    by (simp add: held_len_def algebra_simps)
  have k: "unat (of_nat k :: 32 word) = k"
    using assms unat_bound [of "r_prod r - r_cons r"] by (simp add: held_len_def unat_of_nat)
  have "of_nat k \<le> r_prod r - r_cons r" using assms k by (simp add: word_le_nat_alt held_len_def)
  then show ?thesis by (simp only: e unat_sub k) (simp add: held_len_def)
qed

lemma held_len_put:
  assumes "held_len r + k \<le> RING_SIZE"
  shows "held_len (r\<lparr>r_prod := r_prod r + of_nat k\<rparr>) = held_len r + k"
proof -
  have k: "unat (of_nat k :: 32 word) = k" using assms by (simp add: RING_SIZE_def unat_of_nat)
  have "held_len (r\<lparr>r_prod := r_prod r + of_nat k\<rparr>) = unat ((r_prod r - r_cons r) + of_nat k)"
    by (simp add: held_len_def algebra_simps)
  also have "\<dots> = (unat (r_prod r - r_cons r) + k) mod 2 ^ 32" by (subst unat_word_ariths) (simp add: k)
  also have "\<dots> = unat (r_prod r - r_cons r) + k" using assms by (simp add: held_len_def RING_SIZE_def)
  finally show ?thesis by (simp add: held_len_def)
qed

lemma held_drop:
  assumes "ring_ok r" "k \<le> held_len r"
  shows "ring_ok (r\<lparr>r_cons := r_cons r + of_nat k\<rparr>) \<and> held (r\<lparr>r_cons := r_cons r + of_nat k\<rparr>) = drop k (held r)"
proof
  note l = held_len_get [OF assms(2)]
  show "ring_ok (r\<lparr>r_cons := r_cons r + of_nat k\<rparr>)" using assms(1) by (auto simp: ring_ok_def l)
  show "held (r\<lparr>r_cons := r_cons r + of_nat k\<rparr>) = drop k (held r)"
  proof (rule nth_equalityI)
    fix i assume "i < length (held (r\<lparr>r_cons := r_cons r + of_nat k\<rparr>))"
    then have i: "i < held_len r - k" by (simp add: l)
    have "(unat (r_cons r + of_nat k) + i) mod RING_SIZE = (unat (r_cons r) + (k + i)) mod RING_SIZE"
      using unat_plus_of_nat [of "r_cons r" k] by (metis add.assoc mod_add_left_eq)
    then show "held (r\<lparr>r_cons := r_cons r + of_nat k\<rparr>) ! i = drop k (held r) ! i"
      using i l by (simp add: held_nth)
  qed (simp add: l)
qed

text \<open>Distinct positions of the ring have distinct indices.\<close>

lemma mod_inj: "i < RING_SIZE \<Longrightarrow> j < RING_SIZE \<Longrightarrow> (c + i) mod RING_SIZE = (c + j) mod RING_SIZE \<Longrightarrow> i = j"
proof -
  assume a: "i < RING_SIZE" "j < RING_SIZE" "(c + i) mod RING_SIZE = (c + j) mod RING_SIZE"
  then have "int RING_SIZE dvd (int c + int i) - (int c + int j)"
    by (metis mod_eq_dvd_iff of_nat_add of_nat_mod)
  then have "int RING_SIZE dvd int i - int j" by simp
  then have "int i - int j = 0 \<or> int RING_SIZE \<le> \<bar>int i - int j\<bar>" using dvd_imp_le_int [of "int i - int j" "int RING_SIZE"] by auto
  then show "i = j" using a(1,2) by linarith
qed

text \<open>Writing \<open>s\<close> behind the last byte.\<close>

definition ring_holds :: "string \<Rightarrow> nat \<Rightarrow> string \<Rightarrow> bool" where
  "ring_holds s c buf \<longleftrightarrow> (\<forall>k < length s. buf ! ((c + k) mod RING_SIZE) = s ! k)"

lemma held_append:
  assumes r: "ring_ok r" and s: "held_len r + length s \<le> RING_SIZE"
    and b: "length b = RING_SIZE" "ring_holds (held r @ s) (unat (r_cons r)) b"
  shows "ring_ok (r\<lparr>r_buf := b, r_prod := r_prod r + of_nat (length s)\<rparr>)
    \<and> held (r\<lparr>r_buf := b, r_prod := r_prod r + of_nat (length s)\<rparr>) = held r @ s"
proof
  let ?r = "r\<lparr>r_buf := b, r_prod := r_prod r + of_nat (length s)\<rparr>"
  have "held_len ?r = held_len (r\<lparr>r_prod := r_prod r + of_nat (length s)\<rparr>)" by (simp add: held_len_def)
  then have l: "held_len ?r = held_len r + length s" using held_len_put [OF s] by simp
  show "ring_ok ?r" using s b(1) l by (simp add: ring_ok_def)
  show "held ?r = held r @ s"
  proof (rule nth_equalityI)
    fix i assume "i < length (held ?r)"
    then have "i < held_len r + length s" by (simp only: length_held l)
    then show "held ?r ! i = (held r @ s) ! i" using b(2) l by (simp add: held_nth ring_holds_def)
  qed (simp add: l)
qed

lemma held_holds: "ring_ok r \<Longrightarrow> ring_holds (held r) (unat (r_cons r)) (r_buf r)"
  by (simp add: ring_holds_def held_nth)

lemma put_holds:
  assumes r: "ring_ok r" and f: "held_len r < RING_SIZE"
  shows "ring_holds (held r @ [c]) (unat (r_cons r)) ((r_buf r)[unat (r_prod r) mod RING_SIZE := c])"
  unfolding ring_holds_def
proof (intro allI impI)
  fix k assume "k < length (held r @ [c])"
  then have k: "k \<le> held_len r" by simp
  have len: "length (r_buf r) = RING_SIZE" "0 < RING_SIZE" using r f by (simp_all add: ring_ok_def)
  show "(r_buf r)[unat (r_prod r) mod RING_SIZE := c] ! ((unat (r_cons r) + k) mod RING_SIZE) = (held r @ [c]) ! k"
  proof (cases "k = held_len r")
    case True
    then show ?thesis using len by (simp add: prod_index nth_append)
  next
    case False
    then have "(unat (r_cons r) + held_len r) mod RING_SIZE \<noteq> (unat (r_cons r) + k) mod RING_SIZE"
      using mod_inj [of "held_len r" k "unat (r_cons r)"] k f by auto
    then show ?thesis using False k by (simp add: prod_index nth_append held_nth)
  qed
qed

lemma putc_full: "ring_ok r \<Longrightarrow> r_prod r - r_cons r = of_nat RING_SIZE \<longleftrightarrow> held_len r = RING_SIZE"
  using unat_size by (metis held_len_def word_unat_eq_iff)

lemma putc_held:
  assumes "ring_ok r"
  shows "if held_len r = RING_SIZE then ring_putc c r = (None, r)
    else \<exists>r'. ring_putc c r = (Some c, r') \<and> ring_ok r' \<and> held r' = held r @ [c] \<and> r_cons r' = r_cons r"
proof (cases "held_len r = RING_SIZE")
  case True
  then show ?thesis using putc_full [OF assms] by (simp add: ring_putc_def)
next
  case False
  then have f: "held_len r < RING_SIZE" using assms by (simp add: ring_ok_def)
  have "length ((r_buf r)[unat (r_prod r) mod RING_SIZE := c]) = RING_SIZE" using assms by (simp add: ring_ok_def)
  from held_append [OF assms, of "[c]", OF _ this] f put_holds [OF assms f, of c] False putc_full [OF assms]
  show ?thesis by (simp add: ring_putc_def)
qed

lemma put_all_held:
  "ring_ok r \<Longrightarrow> held_len r + length s \<le> RING_SIZE \<Longrightarrow> res \<noteq> None \<Longrightarrow>
    \<exists>res' r'. put_all s res r = (res', r') \<and> res' \<noteq> None \<and> ring_ok r' \<and> held r' = held r @ s"
proof (induction s arbitrary: r res)
  case (Cons c s)
  have "held_len r \<noteq> RING_SIZE" using Cons.prems by simp
  then obtain r' where r': "ring_putc c r = (Some c, r')" "ring_ok r'" "held r' = held r @ [c]" using putc_held [OF Cons.prems(1), of c] by auto
  have "held_len r' = held_len r + 1" using r'(3) by (metis length_append_singleton length_held Suc_eq_plus1)
  then show ?case using Cons.IH [OF r'(2), of "Some c"] Cons.prems r' by auto
qed simp

lemma space_int:
  assumes "ring_ok r" "length s < 2 ^ 31"
  shows "signed_take_bit 31 (int RING_SIZE - int (held_len r) - int (length s)) = int RING_SIZE - int (held_len r) - int (length s)"
proof -
  have "int (length s) < 2 ^ 31" using assms(2) by simp
  moreover have "held_len r \<le> RING_SIZE" using assms(1) by (simp add: ring_ok_def)
  ultimately show ?thesis by (intro signed_take_bit_int_eq_self) (simp_all add: RING_SIZE_def)
qed

lemma putm_held:
  assumes "ring_ok r" "length s < 2 ^ 31"
  shows "ring_putm s r = Some (int RING_SIZE - int (held_len r) - int (length s),
      snd (put_all s (Some (CHR 0x00)) r)) \<and> ring_ok (snd (put_all s (Some (CHR 0x00)) r)) \<and> held (snd (put_all s (Some (CHR 0x00)) r)) = held r @ s
    \<or> held_len r + length s > RING_SIZE \<and> ring_putm s r = Some (int RING_SIZE - int (held_len r) - int (length s), r)"
proof (cases "held_len r + length s \<le> RING_SIZE")
  case True
  then show ?thesis using put_all_held [OF assms(1) True, of "Some (CHR 0x00)"]
    by (auto simp: ring_putm_def ring_space_held [OF assms(1)] space_int [OF assms])
next
  case False
  then show ?thesis by (simp add: ring_putm_def ring_space_held [OF assms(1)] space_int [OF assms])
qed

lemma getc_held:
  assumes "ring_ok r"
  shows "ring_getc r = (case held r of [] \<Rightarrow> (None, r) | c # _ \<Rightarrow> (Some c, r\<lparr>r_cons := r_cons r + 1\<rparr>))
    \<and> ring_ok (snd (ring_getc r)) \<and> held (snd (ring_getc r)) = tl (held r)"
proof (cases "held_len r = 0")
  case True
  then have "r_cons r = r_prod r" by (simp add: held_len_def unat_eq_0)
  then show ?thesis using True assms by (simp add: ring_getc_def held_def)
next
  case False
  then obtain c cs where h: "held r = c # cs" by (cases "held r") (auto dest: arg_cong [where f = length])
  have "r_cons r \<noteq> r_prod r" using False by (auto simp: held_len_def)
  moreover have "ring_at r (r_cons r) = c" using held_nth [of 0 r] False h by (simp add: ring_at_def)
  moreover have "ring_ok (r\<lparr>r_cons := r_cons r + 1\<rparr>) \<and> held (r\<lparr>r_cons := r_cons r + 1\<rparr>) = drop 1 (held r)"
    using held_drop [OF assms, of 1] False by simp
  ultimately show ?thesis by (simp add: ring_getc_def h)
qed

lemma discard_held:
  assumes "ring_ok r"
  shows "if 0 \<le> n \<and> n \<le> int (held_len r)
    then \<exists>r'. ring_discard n r = Some r' \<and> ring_ok r' \<and> held r' = drop (nat n) (held r) else ring_discard n r = None"
proof (cases "0 \<le> n \<and> n \<le> int (held_len r)")
  case True
  then have "of_int n = (of_nat (nat n) :: 32 word)" by simp
  then show ?thesis using True held_drop [OF assms, of "nat n"] by (simp add: ring_discard_def ring_len_held [OF assms] nat_le_iff)
next
  case False
  then show ?thesis by (auto simp: ring_discard_def ring_len_held [OF assms])
qed

text \<open>Where the two ends lie in the array.\<close>

lemma ring_ends:
  assumes "ring_ok r"
  defines "c \<equiv> unat (r_cons r) mod RING_SIZE" and "p \<equiv> unat (r_prod r) mod RING_SIZE"
  shows "c \<le> p \<and> held_len r = p - c \<or> p \<le> c \<and> held_len r = RING_SIZE - c + p"
proof -
  have c: "c < RING_SIZE" by (simp add: c_def RING_SIZE_def)
  have h: "held_len r \<le> RING_SIZE" using assms(1) by (simp add: ring_ok_def)
  have p: "p = (c + held_len r) mod RING_SIZE" unfolding c_def p_def prod_index by (simp add: mod_add_left_eq)
  show ?thesis
  proof (cases "c + held_len r < RING_SIZE")
    case True
    then show ?thesis using p by simp
  next
    case False
    then have "p = c + held_len r - RING_SIZE" using p c h by (simp add: mod_if)
    then show ?thesis using False c h by linarith
  qed
qed

lemma held_index: "k < held_len r \<Longrightarrow> held r ! k = r_buf r ! ((unat (r_cons r) mod RING_SIZE + k) mod RING_SIZE)"
  by (simp add: held_nth mod_add_left_eq)

lemma put_at_nth:
  "off + length s \<le> length buf \<Longrightarrow> i < length buf \<Longrightarrow>
    put_at off s buf ! i = (if off \<le> i \<and> i < off + length s then s ! (i - off) else buf ! i)"
  by (auto simp: put_at_def nth_append min_def)

lemma length_put_at [simp]: "off + length s \<le> length buf \<Longrightarrow> length (put_at off s buf) = length buf"
  by (simp add: put_at_def)

lemma scatter_holds:
  assumes r: "ring_ok r" and s: "held_len r + length s \<le> RING_SIZE" and f: "held_len r < RING_SIZE"
  shows "length (scatter (free_pieces r) s (r_buf r)) = RING_SIZE
    \<and> ring_holds (held r @ s) (unat (r_cons r)) (scatter (free_pieces r) s (r_buf r))"
proof -
  define c where "c = unat (r_cons r) mod RING_SIZE"
  define p where "p = unat (r_prod r) mod RING_SIZE"
  define h where "h = held_len r"
  have lt: "c < RING_SIZE" "p < RING_SIZE" by (simp_all add: c_def p_def RING_SIZE_def)
  have len: "length (r_buf r) = RING_SIZE" using r by (simp add: ring_ok_def)
  have ends: "c \<le> p \<and> h = p - c \<or> p < c \<and> h = RING_SIZE - c + p"
    using ring_ends [OF r] f lt by (fastforce simp: c_def p_def h_def)
  have free: "free_pieces r = (if c \<le> p then [(p, RING_SIZE - p), (0, c)] else [(p, c - p)])"
    by (simp add: free_pieces_def c_def p_def Let_def)
  have goal: "ring_holds (held r @ s) (unat (r_cons r)) b"
    if hb: "\<And>k. k < h \<Longrightarrow> b ! ((c + k) mod RING_SIZE) = r_buf r ! ((c + k) mod RING_SIZE)"
      and sb: "\<And>k. k < length s \<Longrightarrow> b ! ((p + k) mod RING_SIZE) = s ! k" for b
    unfolding ring_holds_def
  proof (intro allI impI)
    fix k assume k: "k < length (held r @ s)"
    have i: "(unat (r_cons r) + k) mod RING_SIZE = (c + k) mod RING_SIZE" by (simp add: c_def mod_add_left_eq)
    show "b ! ((unat (r_cons r) + k) mod RING_SIZE) = (held r @ s) ! k"
    proof (cases "k < h")
      case True
      then show ?thesis using hb i by (simp add: nth_append h_def held_index c_def)
    next
      case False
      then obtain d where d: "k = h + d" using le_Suc_ex not_less by blast
      have "p = (c + h) mod RING_SIZE" unfolding c_def p_def h_def prod_index by (simp add: mod_add_left_eq)
      then have "(p + (k - h)) mod RING_SIZE = (c + k) mod RING_SIZE" by (simp add: d mod_add_left_eq add.assoc)
      then show ?thesis using sb [of "k - h"] i False k by (simp add: nth_append h_def)
    qed
  qed
  show ?thesis
  proof (cases "c \<le> p")
    case True
    then have h: "h = p - c" using ends by auto
    let ?a = "take (RING_SIZE - p) s"
    let ?b = "take c (drop (RING_SIZE - p) s)"
    let ?b1 = "put_at p ?a (r_buf r)"
    let ?b2 = "put_at 0 ?b ?b1"
    have l1: "length ?b1 = RING_SIZE" using lt len by simp
    have l2: "length ?b2 = RING_SIZE" using l1 lt by simp
    have sl: "length s \<le> RING_SIZE - p + c" using s h True lt by (simp add: h_def [symmetric])
    have n1: "?b1 ! i = (if p \<le> i \<and> i < p + length ?a then ?a ! (i - p) else r_buf r ! i)" if "i < RING_SIZE" for i
      using that lt len by (intro put_at_nth) simp_all
    have n2: "?b2 ! i = (if i < length ?b then ?b ! i else ?b1 ! i)" if "i < RING_SIZE" for i
      using put_at_nth [of 0 ?b ?b1 i] l1 lt that by simp
    have "ring_holds (held r @ s) (unat (r_cons r)) ?b2"
    proof (rule goal)
      fix k assume "k < h"
      then have k: "c + k < p" using h by linarith
      then show "?b2 ! ((c + k) mod RING_SIZE) = r_buf r ! ((c + k) mod RING_SIZE)"
        using lt n2 [of "c + k"] n1 [of "c + k"] by simp
    next
      fix k assume k: "k < length s"
      show "?b2 ! ((p + k) mod RING_SIZE) = s ! k"
      proof (cases "p + k < RING_SIZE")
        case True
        then have "k < RING_SIZE - p" by linarith
        then show ?thesis using n2 [of "p + k"] n1 [of "p + k"] \<open>c \<le> p\<close> k True by simp
      next
        case False
        let ?i = "p + k - RING_SIZE"
        have i: "?i < c" "(p + k) mod RING_SIZE = ?i" using False k sl lt by (simp_all add: mod_if)
        moreover have "?i < length s + p - RING_SIZE" using False k by linarith
        ultimately show ?thesis using n2 [of ?i] lt False k by simp
      qed
    qed
    then show ?thesis using l2 True by (simp add: free)
  next
    case False
    then have h: "h = RING_SIZE - c + p" using ends by auto
    let ?a = "take (c - p) s"
    have sl: "length s \<le> c - p" using s h lt False by (simp add: h_def [symmetric])
    have l1: "length (put_at p s (r_buf r)) = RING_SIZE" using sl lt len False by simp
    have n1: "put_at p s (r_buf r) ! i = (if p \<le> i \<and> i < p + length s then s ! (i - p) else r_buf r ! i)" if "i < RING_SIZE" for i
      using that lt len sl False by (intro put_at_nth) simp_all
    have "ring_holds (held r @ s) (unat (r_cons r)) (put_at p s (r_buf r))"
    proof (rule goal)
      fix k assume k: "k < h"
      show "put_at p s (r_buf r) ! ((c + k) mod RING_SIZE) = r_buf r ! ((c + k) mod RING_SIZE)"
      proof (cases "c + k < RING_SIZE")
        case True
        moreover have "\<not> c + k < p + length s" using sl False by linarith
        ultimately show ?thesis using n1 [of "c + k"] by simp
      next
        case wrap: False
        then have "(c + k) mod RING_SIZE = c + k - RING_SIZE" "c + k - RING_SIZE < p" using k h lt by (simp_all add: mod_if)
        then show ?thesis using n1 [of "c + k - RING_SIZE"] lt by simp
      qed
    next
      fix k assume "k < length s"
      then show "put_at p s (r_buf r) ! ((p + k) mod RING_SIZE) = s ! k" using n1 [of "p + k"] sl lt False by simp
    qed
    then show ?thesis using l1 False sl by (simp add: free)
  qed
qed

lemma from_file_held:
  assumes "ring_ok r" "held_len r + length s \<le> RING_SIZE"
  shows "if held_len r = RING_SIZE then ring_from_file (Inr s) r = (0, r)
    else \<exists>r'. ring_from_file (Inr s) r = (int (length s), r') \<and> ring_ok r' \<and> held r' = held r @ s"
proof -
  have full: "r_prod r = r_cons r + of_nat RING_SIZE \<longleftrightarrow> held_len r = RING_SIZE"
    using putc_full [OF assms(1)] by (simp add: eq_diff_eq add.commute diff_eq_eq)
  show ?thesis
  proof (cases "held_len r = RING_SIZE")
    case True
    then show ?thesis using full by (simp add: ring_from_file_def)
  next
    case False
    then have f: "held_len r < RING_SIZE" using assms(1) by (simp add: ring_ok_def)
    show ?thesis using False full scatter_holds [OF assms f] held_append [OF assms]
      by (auto simp: ring_from_file_def)
  qed
qed

lemma to_iovec_held:
  assumes r: "ring_ok r"
  shows "concat (ring_to_iovec r) = held r"
proof -
  define c where "c = unat (r_cons r) mod RING_SIZE"
  define p where "p = unat (r_prod r) mod RING_SIZE"
  have lt: "c < RING_SIZE" "p < RING_SIZE" by (simp_all add: c_def p_def RING_SIZE_def)
  have len: "length (r_buf r) = RING_SIZE" using r by (simp add: ring_ok_def)
  have ends: "c \<le> p \<and> held_len r = p - c \<or> p \<le> c \<and> held_len r = RING_SIZE - c + p"
    using ring_ends [OF r] by (simp add: c_def p_def)
  have eq: "ring_to_iovec r = (if r_cons r = r_prod r then [] else if p > c then [take (p - c) (drop c (r_buf r))]
      else [drop c (r_buf r), take p (r_buf r)])" by (simp add: ring_to_iovec_def Let_def c_def p_def)
  show ?thesis
  proof (cases "r_cons r = r_prod r")
    case True
    then show ?thesis by (simp add: eq held_def held_len_def)
  next
    case ne: False
    then have h0: "held_len r \<noteq> 0" by (simp add: held_len_def unat_eq_0)
    show ?thesis
    proof (cases "p > c")
      case True
      then have h: "held_len r = p - c" using ends by auto
      have "take (p - c) (drop c (r_buf r)) = held r"
        by (rule nth_equalityI) (use h True lt len in \<open>simp_all add: held_index c_def [symmetric]\<close>)
      then show ?thesis using ne True by (simp add: eq)
    next
      case False
      then have h: "held_len r = RING_SIZE - c + p" using ends h0 by auto
      have "drop c (r_buf r) @ take p (r_buf r) = held r"
      proof (rule nth_equalityI)
        fix i assume "i < length (drop c (r_buf r) @ take p (r_buf r))"
        then have i: "i < held_len r" using h lt len by simp
        have e: "held r ! i = r_buf r ! ((c + i) mod RING_SIZE)" using held_index [OF i] by (simp add: c_def)
        show "(drop c (r_buf r) @ take p (r_buf r)) ! i = held r ! i"
        proof (cases "c + i < RING_SIZE")
          case True
          then have "i < length (drop c (r_buf r))" using len by simp
          then show ?thesis using True by (simp add: e nth_append)
        next
          case wrap: False
          then have "(c + i) mod RING_SIZE = c + i - RING_SIZE" "c + i - RING_SIZE < p"
            using i h lt by (simp_all add: mod_if)
          moreover have "i - length (drop c (r_buf r)) = c + i - RING_SIZE" using len lt by simp
          moreover have "\<not> i < RING_SIZE - c" using wrap by linarith
          ultimately show ?thesis using len by (simp add: e nth_append)
        qed
      qed (use h lt len in simp)
      then show ?thesis using ne False by (simp add: eq)
    qed
  qed
qed

text \<open>\<open>ring_peek\<close> and \<open>ring_search\<close> compare counters, and so rely on their not having wrapped around.\<close>

definition unwrapped :: "ring \<Rightarrow> bool" where
  "unwrapped r \<longleftrightarrow> r_cons r \<le> r_prod r \<and> unat (r_prod r) + RING_SIZE + 1 < 2 ^ 32"

lemma unwrapped_len: "unwrapped r \<Longrightarrow> unat (r_prod r) = unat (r_cons r) + held_len r"
  by (simp add: unwrapped_def held_len_def unat_sub word_le_nat_alt)

lemma unat_plus: "unat (a :: 32 word) + k < 2 ^ 32 \<Longrightarrow> unat (a + of_nat k) = unat a + k"
  by (simp add: unat_word_ariths unat_of_nat)

lemma peek_held:
  assumes r: "ring_ok r" "unwrapped r" and n: "- int RING_SIZE - 1 \<le> n" "n \<le> int RING_SIZE"
  shows "ring_peek r n = Some (if 0 \<le> n then if n < int (held_len r) then Some (held r ! nat n) else None
    else if - n \<le> int (held_len r) then Some (held r ! (held_len r - nat (- n))) else None)"
proof -
  have b: "unat (r_prod r) + RING_SIZE + 1 < 2 ^ 32" using r(2) by (simp add: unwrapped_def)
  note l = unwrapped_len [OF r(2)]
  show ?thesis
  proof (cases "0 \<le> n")
    case True
    define k where "k = nat n"
    have k: "n = int k" "k \<le> RING_SIZE" using True n by (simp_all add: k_def)
    have u: "unat (r_cons r + of_nat k) = unat (r_cons r) + k" using k b l by (intro unat_plus) linarith
    have "r_cons r + of_nat k \<ge> r_prod r \<longleftrightarrow> k \<ge> held_len r" by (simp add: word_le_nat_alt u l)
    then show ?thesis using n by (auto simp: ring_peek_def k(1) Let_def ring_at_def u held_nth)
  next
    case False
    define k where "k = nat (- n)"
    have k: "- n = int k" "n = - int k" "0 < k" "k \<le> RING_SIZE + 1" using False n by (simp_all add: k_def)
    have u: "unat (r_cons r + of_nat k) = unat (r_cons r) + k" using k b l by (intro unat_plus) linarith
    have lt: "r_prod r < r_cons r + of_nat k \<longleftrightarrow> held_len r < k" by (simp add: word_less_nat_alt u l)
    show ?thesis
    proof (cases "held_len r < k")
      case True
      then show ?thesis using False n lt by (simp add: ring_peek_def k)
    next
      case le: False
      have ku: "unat (of_nat k :: 32 word) = k" using k(4) by (simp add: unat_of_nat RING_SIZE_def)
      have "of_nat k \<le> r_prod r" using le l ku by (simp add: word_le_nat_alt)
      then have "unat (r_prod r - of_nat k) = unat (r_cons r) + (held_len r - k)" using le l ku by (simp add: unat_sub)
      then show ?thesis using False n lt le k by (simp add: ring_peek_def ring_at_def held_nth)
    qed
  qed
qed

text \<open>The bytes held have \<open>s\<close> at \<open>i\<close>.\<close>

definition occurs :: "string \<Rightarrow> ring \<Rightarrow> nat \<Rightarrow> bool" where
  "occurs s r i \<longleftrightarrow> prefix s (drop i (held r))"

lemma occurs_bound: "occurs s r i \<Longrightarrow> s \<noteq> [] \<Longrightarrow> i + length s \<le> held_len r"
proof -
  assume "occurs s r i" "s \<noteq> []"
  then have "length s \<le> held_len r - i" "0 < length s" by (auto simp: occurs_def dest!: prefix_length_le)
  then show ?thesis by linarith
qed

lemma matches_occurs: "i + length s \<le> held_len r \<Longrightarrow> matches_at r s (unat (r_cons r) + i) \<longleftrightarrow> occurs s r i"
proof (induction s arbitrary: i)
  case Nil
  then show ?case by (simp add: occurs_def)
next
  case (Cons c s)
  then have i: "i < length (held r)" "Suc i + length s \<le> held_len r" by simp_all
  have "occurs (c # s) r i \<longleftrightarrow> c = held r ! i \<and> occurs s r (Suc i)"
    unfolding occurs_def Cons_nth_drop_Suc [OF i(1), symmetric] by simp
  then show ?case using Cons.IH [OF i(2)] i(1) by (simp add: held_nth)
qed

lemma search_loop_held:
  assumes r: "ring_ok r" "unwrapped r" and s: "s \<noteq> []"
  shows "(\<exists>j \<ge> i. ring_search_loop r s (unat (r_cons r) + i) = int j \<and> occurs s r j \<and> (\<forall>k. i \<le> k \<and> k < j \<longrightarrow> \<not> occurs s r k))
    \<or> ring_search_loop r s (unat (r_cons r) + i) = - 1 \<and> (\<forall>k \<ge> i. \<not> occurs s r k)"
proof (induction "held_len r - i" arbitrary: i rule: less_induct)
  case less
  let ?c = "unat (r_cons r)"
  have bound: "?c + i + length s \<le> unat (r_prod r) \<longleftrightarrow> i + length s \<le> held_len r" using unwrapped_len [OF r(2)] by simp
  show ?case
  proof (cases "i + length s \<le> held_len r")
    case False
    then have "ring_search_loop r s (?c + i) = - 1" using bound by (subst ring_search_loop.simps) simp
    moreover have "\<forall>k \<ge> i. \<not> occurs s r k" using False occurs_bound [OF _ s] by fastforce
    ultimately show ?thesis by blast
  next
    case True
    show ?thesis
    proof (cases "occurs s r i")
      case occ: True
      then have "ring_search_loop r s (?c + i) = int i"
        using bound True matches_occurs [OF True] by (subst ring_search_loop.simps) simp
      then show ?thesis using occ by auto
    next
      case nocc: False
      have step: "ring_search_loop r s (?c + i) = ring_search_loop r s (?c + Suc i)"
        using bound True matches_occurs [OF True] nocc by (subst ring_search_loop.simps) simp
      have "0 < length s" using s by simp
      then have lt: "held_len r - Suc i < held_len r - i" using True by linarith
      from less.hyps [OF lt] show ?thesis
      proof
        assume "\<exists>j \<ge> Suc i. ring_search_loop r s (?c + Suc i) = int j \<and> occurs s r j \<and> (\<forall>k. Suc i \<le> k \<and> k < j \<longrightarrow> \<not> occurs s r k)"
        then obtain j where j: "j \<ge> Suc i" "ring_search_loop r s (?c + Suc i) = int j" "occurs s r j" "\<forall>k. Suc i \<le> k \<and> k < j \<longrightarrow> \<not> occurs s r k"
          by blast
        have "\<forall>k. i \<le> k \<and> k < j \<longrightarrow> \<not> occurs s r k" using j(4) nocc by (metis le_eq_less_or_eq Suc_leI)
        then show ?thesis using j step by (intro disjI1 exI [of _ j]) simp
      next
        assume "ring_search_loop r s (?c + Suc i) = - 1 \<and> (\<forall>k \<ge> Suc i. \<not> occurs s r k)"
        then show ?thesis using step nocc by (metis le_eq_less_or_eq Suc_leI)
      qed
    qed
  qed
qed

lemma search_held:
  assumes "ring_ok r" "unwrapped r" "s \<noteq> []" "0 \<le> n" "n \<le> int RING_SIZE"
  shows "(\<exists>j \<ge> nat n. ring_search r s n = int j \<and> occurs s r j \<and> (\<forall>k. nat n \<le> k \<and> k < j \<longrightarrow> \<not> occurs s r k))
    \<or> ring_search r s n = - 1 \<and> (\<forall>k \<ge> nat n. \<not> occurs s r k)"
proof -
  have "unat (r_cons r + of_nat (nat n)) = unat (r_cons r) + nat n"
  proof (rule unat_plus)
    have "unat (r_prod r) + RING_SIZE + 1 < 2 ^ 32" using assms(2) by (simp add: unwrapped_def)
    moreover have "nat n \<le> RING_SIZE" using assms(5) by simp
    ultimately show "unat (r_cons r) + nat n < 2 ^ 32" using unwrapped_len [OF assms(2)] by linarith
  qed
  moreover have "of_int n = (of_nat (nat n) :: 32 word)" using assms(4) by simp
  ultimately have "ring_search r s n = ring_search_loop r s (unat (r_cons r) + nat n)" by (simp only: ring_search_def)
  then show ?thesis using search_loop_held [OF assms(1-3), of "nat n"] by simp
qed

section \<open>Properties\<close>

text \<open>
  C25. A ring buffer is a queue of at most \<open>RING_SIZE\<close> bytes, also when its 32-bit counters have wrapped around:
  length and space are right, a byte is put at the end or refused when the ring is full, several, fewer than \<open>2 ^ 31\<close>, are put all or
  not at all, the oldest is taken, discarding drops the oldest, \<open>readv\<close> into the free pieces appends what
  was read, and the pieces for \<open>writev\<close> are what it holds.
\<close>

theorem ring_refines_queue:
  assumes r: "ring_ok r"
  shows "ring_len r = Some (int (length (held r))) \<and> ring_space r = int RING_SIZE - int (length (held r))
    \<and> held (ring_init r) = [] \<and> ring_ok (ring_init r)
    \<and> (if length (held r) = RING_SIZE then ring_putc c r = (None, r)
       else \<exists>r'. ring_putc c r = (Some c, r') \<and> ring_ok r' \<and> held r' = held r @ [c])
    \<and> (length s < 2 ^ 31 \<longrightarrow>
        (\<exists>r'. ring_putm s r = Some (int RING_SIZE - int (length (held r)) - int (length s), r') \<and> ring_ok r'
         \<and> held r' = (if length (held r) + length s \<le> RING_SIZE then held r @ s else held r)))
    \<and> fst (ring_getc r) = (case held r of [] \<Rightarrow> None | c # _ \<Rightarrow> Some c)
    \<and> ring_ok (snd (ring_getc r)) \<and> held (snd (ring_getc r)) = tl (held r)
    \<and> (if 0 \<le> n \<and> n \<le> int (length (held r))
       then \<exists>r'. ring_discard n r = Some r' \<and> ring_ok r' \<and> held r' = drop (nat n) (held r) else ring_discard n r = None)
    \<and> (length (held r) + length t \<le> RING_SIZE \<and> length (held r) \<noteq> RING_SIZE \<longrightarrow>
        (\<exists>r'. ring_from_file (Inr t) r = (int (length t), r') \<and> ring_ok r' \<and> held r' = held r @ t))
    \<and> concat (ring_to_iovec r) = held r"
proof -
  have i: "held (ring_init r) = []" "ring_ok (ring_init r)" using r by (simp_all add: ring_ok_def ring_init_def held_def held_len_def)
  have g: "fst (ring_getc r) = (case held r of [] \<Rightarrow> None | c # _ \<Rightarrow> Some c)"
    using getc_held [OF r] by (cases "held r") simp_all
  have p: "\<exists>r'. ring_putm s r = Some (int RING_SIZE - int (length (held r)) - int (length s), r') \<and> ring_ok r'
         \<and> held r' = (if length (held r) + length s \<le> RING_SIZE then held r @ s else held r)" if s: "length s < 2 ^ 31"
  proof (cases "held_len r + length s \<le> RING_SIZE")
    case True
    then show ?thesis using putm_held [OF r s] by (intro exI [of _ "snd (put_all s (Some (CHR 0x00)) r)"]) simp
  next
    case False
    then show ?thesis using r by (intro exI [of _ r]) (simp add: ring_putm_def ring_space_held [OF r] space_int [OF r s])
  qed
  then have pm: "length s < 2 ^ 31 \<longrightarrow>
        (\<exists>r'. ring_putm s r = Some (int RING_SIZE - int (length (held r)) - int (length s), r') \<and> ring_ok r'
         \<and> held r' = (if length (held r) + length s \<le> RING_SIZE then held r @ s else held r))" by (rule impI)
  have pc: "if length (held r) = RING_SIZE then ring_putc c r = (None, r)
       else \<exists>r'. ring_putc c r = (Some c, r') \<and> ring_ok r' \<and> held r' = held r @ [c]"
    using putc_held [OF r, of c] by (auto split: if_splits)
  have ff: "length (held r) + length t \<le> RING_SIZE \<and> length (held r) \<noteq> RING_SIZE \<longrightarrow>
        (\<exists>r'. ring_from_file (Inr t) r = (int (length t), r') \<and> ring_ok r' \<and> held r' = held r @ t)"
    using from_file_held [OF r, of t] by simp
  have l: "ring_len r = Some (int (length (held r)))" "ring_space r = int RING_SIZE - int (length (held r))"
    using ring_len_held [OF r] ring_space_held [OF r] by simp_all
  have gk: "ring_ok (snd (ring_getc r))" "held (snd (ring_getc r)) = tl (held r)" using getc_held [OF r] by blast+
  have d: "if 0 \<le> n \<and> n \<le> int (length (held r))
       then \<exists>r'. ring_discard n r = Some r' \<and> ring_ok r' \<and> held r' = drop (nat n) (held r) else ring_discard n r = None"
    using discard_held [OF r, of n] by simp
  have io: "concat (ring_to_iovec r) = held r" by (rule to_iovec_held [OF r])
  show ?thesis by (intro conjI; fact)
qed

definition ring_example :: ring where
  "ring_example = \<lparr>r_cons = 0xFFFFFFFE, r_prod = 1, r_buf = replicate 4095 (CHR ''a'') @ ''b''\<rparr>"

lemma ring_example_ok: "ring_ok ring_example" "held_len ring_example = 3"
  by (simp_all add: ring_ok_def ring_example_def held_len_def RING_SIZE_def)

theorem ring_refines_queue_witness:
  "ring_len ring_example = Some 3 \<and> concat (ring_to_iovec ring_example) = held ring_example"
  using ring_refines_queue [of ring_example "CHR ''x''" "[]" 0 "[]"] ring_example_ok by simp

text \<open>
  After \<open>2 ^ 32\<close> bytes have been put in, a counter has wrapped around, and \<open>ring_peek\<close> and \<open>ring_search\<close> do
  not find what the ring holds.
\<close>

lemma ring_peek_wrapped: "ring_len ring_example = Some 3 \<and> ring_peek ring_example 0 = Some None"
  using ring_len_held [OF ring_example_ok(1)] ring_example_ok(2)
  by (simp add: ring_peek_def ring_example_def RING_SIZE_def)

lemma ring_search_wrapped: "occurs ''a'' ring_example 0 \<and> ring_search ring_example ''a'' 0 = - 1"
proof
  have "held ring_example ! 0 = CHR ''a''"
    by (subst held_nth) (simp_all add: ring_example_ok, simp add: ring_example_def RING_SIZE_def nth_append)
  then have "held ring_example \<noteq> []" "hd (held ring_example) = CHR ''a''"
    using ring_example_ok(2) by (auto simp: hd_conv_nth simp flip: length_greater_0_conv)
  then show "occurs ''a'' ring_example 0" by (cases "held ring_example") (simp_all add: occurs_def)
  show "ring_search ring_example ''a'' 0 = - 1"
    unfolding ring_search_def by (subst ring_search_loop.simps) (simp add: ring_example_def)
qed

end
