(* ===== verification/Client.thy ===== *)
theory Client
  imports Output Ring
begin

text \<open>
  The client's side of a session: the line buffer \<open>src/client/linebuf.c\<close>, IDs and the login dialogue's lines
  (\<open>expect.c\<close>), the state machine that takes the server's output apart (\<open>recv_output\<close> in \<open>play.c\<close>), what it
  does on the server's requests (\<open>servcmd.c\<close>), and the memory of recent input (\<open>secure.c\<close>) that keeps a
  server from making the client do what its user has not typed.

  What is displayed, written to files and run is a list of events; \<open>opened\<close> says what opening a
  file, starting a pipe or opening a batch file gives, a negative number on failure. None is a failing
  \<open>assert\<close>. Highlighting on the terminal is left out.
\<close>

section \<open>Line buffers\<close>

definition LBUF_LEN_MAX :: nat where "LBUF_LEN_MAX = 4096"

record lbuf =
  lb_line :: string
  lb_full :: bool

definition lbuf_init :: "lbuf \<Rightarrow> lbuf" where
  "lbuf_init b = b\<lparr>lb_line := [], lb_full := False\<rparr>"

definition lbuf_len :: "lbuf \<Rightarrow> int" where
  "lbuf_len b = int (length (lb_line b))"

definition lbuf_line :: "lbuf \<Rightarrow> string option" where
  "lbuf_line b = (if length (lb_line b) < LBUF_LEN_MAX then Some (lb_line b) else None)"

definition lbuf_putc :: "char \<Rightarrow> lbuf \<Rightarrow> (int \<times> lbuf) option" where
  "lbuf_putc ch b =
     (if lb_full b then None
      else if ch = NL then
        if length (lb_line b) + 1 < LBUF_LEN_MAX
        then Some (int (length (lb_line b)) + 1, b\<lparr>lb_line := lb_line b @ [ch], lb_full := True\<rparr>) else None
      else if length (lb_line b) + 2 \<ge> LBUF_LEN_MAX then Some (- 1, b)
      else Some (0, b\<lparr>lb_line := lb_line b @ [ch]\<rparr>))"

section \<open>IDs\<close>

text \<open>
  \<open>strtol(line, &end, 36)\<close>: the number, with the limits of a 64-bit \<open>long\<close>, and the rest of the line, or None
  when there is no number.
\<close>

definition digit36 :: "char \<Rightarrow> int option" where
  "digit36 c =
     (let n = of_char c in
      if 48 \<le> n \<and> n \<le> 57 then Some (n - 48)
      else if 97 \<le> n \<and> n \<le> 122 then Some (n - 87)
      else if 65 \<le> n \<and> n \<le> 90 then Some (n - 55) else None)"

fun digits36 :: "string \<Rightarrow> int \<Rightarrow> int \<times> string" where
  "digits36 [] v = (v, [])"
| "digits36 (c # s) v = (case digit36 c of None \<Rightarrow> (v, c # s) | Some d \<Rightarrow> digits36 s (36 * v + d))"

definition strtol36 :: "string \<Rightarrow> (int \<times> string) option" where
  "strtol36 s =
     (let s = dropWhile isspace s;
          (neg, s) = (case s of c # r \<Rightarrow> if c = CHR ''-'' then (True, r) else if c = CHR ''+'' then (False, r) else (False, s)
                       | [] \<Rightarrow> (False, s))
      in case s of
           [] \<Rightarrow> None
         | c # _ \<Rightarrow>
             if digit36 c = None then None
             else let (v, r) = digits36 s 0; v = (if neg then - v else v)
                  in Some (min (2 ^ 63 - 1) (max (- (2 ^ 63)) v), r))"

text \<open>The result is converted from \<open>long\<close> to \<open>int\<close>.\<close>

definition parseid :: "string \<Rightarrow> int" where
  "parseid line =
     (let i = (case strtol36 line of
                 Some (v, r) \<Rightarrow> if r \<noteq> [] \<and> hd r = CHR '' '' then v else - 1
               | None \<Rightarrow> - 1)
      in signed_take_bit 31 (if i > C_LAST then - 1 else i))"

text \<open>\<open>recvline\<close>: the line, cut to 1022 bytes, its ID, and what follows in the stream; EOF is -1.\<close>

definition recvline :: "string \<Rightarrow> int \<times> string \<times> string" where
  "recvline s =
     (if NL \<in> set s then
        let line = take 1022 (takeWhile (\<lambda>c. c \<noteq> NL) s) @ [NL]
        in (parseid line, line, tl (dropWhile (\<lambda>c. c \<noteq> NL) s))
      else (- 1, take 1022 s, []))"

definition expect :: "int \<Rightarrow> string \<Rightarrow> bool \<times> string \<times> string" where
  "expect match s = (case recvline s of (i, line, rest) \<Rightarrow> (i = match, line, rest))"

text \<open>
  \<open>sendcmd\<close>, given how many bytes each \<open>write\<close> takes (0 also when it is interrupted): what it has sent when
  the loop ends, None when it exits or the list is too short. It always writes from the start of \<open>buf\<close>.
\<close>

fun send_loop :: "nat list \<Rightarrow> string \<Rightarrow> nat \<Rightarrow> string \<Rightarrow> string option" where
  "send_loop ns buf 0 sent = Some sent"
| "send_loop [] buf len sent = None"
| "send_loop (n # ns) buf len sent = send_loop ns buf (len - min n len) (sent @ take (min n len) buf)"

definition sendcmd :: "nat list \<Rightarrow> string \<Rightarrow> string option \<Rightarrow> string option" where
  "sendcmd ns cmd arg =
     (let buf = cmd @ (case arg of None \<Rightarrow> [] | Some a \<Rightarrow> CHR '' '' # a) @ [NL]
      in if length buf \<ge> 128 then None else send_loop ns buf (length buf) [])"

section \<open>Recent input\<close>

partial_function (option) save_input :: "char \<Rightarrow> ring \<Rightarrow> ring option" where
  [code]: "save_input inp r =
     (case ring_putc inp r of
        (Some _, r) \<Rightarrow> Some r
      | (None, r) \<Rightarrow>
          let eol = ring_search r [NL] 0
          in if eol < 0 then None
             else case ring_discard (eol + 1) r of None \<Rightarrow> None | Some r \<Rightarrow> save_input inp r)"

text \<open>The terminating zero ends a C string.\<close>

definition cstr :: "string \<Rightarrow> string" where
  "cstr s = takeWhile (\<lambda>c. c \<noteq> CHR 0x00) s"

definition seen_input :: "string \<Rightarrow> ring \<Rightarrow> bool option" where
  "seen_input tail r =
     (if tail = [] \<or> last tail \<noteq> NL then None else Some (ring_search r tail 0 \<ge> 0))"

text \<open>The command before byte \<open>i\<close>: back to the last newline or the oldest byte.\<close>

fun command_before :: "nat \<Rightarrow> ring \<Rightarrow> string \<Rightarrow> string option" where
  "command_before 0 r acc = Some acc"
| "command_before (Suc i) r acc =
     (case ring_peek r (int i) of
        None \<Rightarrow> None
      | Some c \<Rightarrow> if c = Some NL then Some acc
                 else command_before i r ((case c of None \<Rightarrow> CHR 0xFF | Some c \<Rightarrow> c) # acc))"

definition is_execute :: "string \<Rightarrow> bool" where
  "is_execute buf =
     (let w = takeWhile (\<lambda>c. \<not> isspace c) (dropWhile isspace (cstr buf))
      in length w \<ge> 2 \<and> prefix w ''execute'')"

partial_function (option) seen_exec_loop :: "string \<Rightarrow> ring \<Rightarrow> int \<Rightarrow> bool option" where
  [code]: "seen_exec_loop arg r n =
     (let n = ring_search r arg (n + 1) in
      if n \<le> 0 then Some False
      else case ring_peek r (n - 1) of
             None \<Rightarrow> None
           | Some c \<Rightarrow>
               (case command_before (nat (if c = Some NL then n - 1 else n)) r [] of
                  None \<Rightarrow> None
                | Some buf \<Rightarrow> if is_execute buf then Some True else seen_exec_loop arg r n))"

definition seen_exec_input :: "string \<Rightarrow> ring \<Rightarrow> bool option" where
  "seen_exec_input arg r = (if arg = [] \<or> last arg \<noteq> NL then None else seen_exec_loop arg r 1)"

section \<open>Requests of the server\<close>

definition C_EXIT :: int where "C_EXIT = 3"

datatype event = Outch char | Shown int string | Redirect string string | Pipe string | Exec_file string

datatype scan = SCANNING_ID | BUFFERING | COPYING

record client =
  cl_scan :: scan
  cl_id :: int
  cl_lbuf :: lbuf
  cl_redir :: bool
  cl_executing :: bool
  cl_restricted :: bool
  cl_input_fd :: int
  cl_send_intr :: bool
  cl_recent :: ring
  cl_events :: "event list"

definition emit :: "event \<Rightarrow> client \<Rightarrow> client" where
  "emit e cl = cl\<lparr>cl_events := cl_events cl @ [e]\<rparr>"

definition common_authorized :: "client \<Rightarrow> bool" where
  "common_authorized cl \<longleftrightarrow> \<not> cl_restricted cl \<and> \<not> cl_executing cl"

definition redir_authorized :: "string \<Rightarrow> client \<Rightarrow> bool option" where
  "redir_authorized arg cl =
     (if cl_redir cl then Some False
      else case seen_input arg (cl_recent cl) of
             None \<Rightarrow> None
           | Some seen \<Rightarrow> Some (seen \<and> common_authorized cl))"

definition exec_authorized :: "string \<Rightarrow> client \<Rightarrow> bool option" where
  "exec_authorized arg cl =
     map_option (\<lambda>seen. seen \<and> common_authorized cl) (seen_exec_input arg (cl_recent cl))"

text \<open>
  \<open>fname\<close> looks for a white space after the name, past the end of the string if there is none, and writes there: \<open>None\<close> then.
\<close>

definition fname :: "string \<Rightarrow> string option" where
  "fname s =
     (let beg = dropWhile isspace s
      in if \<exists>c \<in> set beg. isspace c then Some (takeWhile (\<lambda>c. \<not> isspace c) beg) else None)"

definition doredir :: "(event \<Rightarrow> int) \<Rightarrow> string \<Rightarrow> client \<Rightarrow> client option" where
  "doredir opened p cl =
     (case redir_authorized p cl of
        None \<Rightarrow> None
      | Some ok \<Rightarrow>
          if \<not> ok then Some cl
          else if hd p \<noteq> CHR ''>'' then Some cl
          else let p = tl p;
                   (mode, p) = (if p \<noteq> [] \<and> hd p = CHR ''>'' then (''append'', tl p)
                               else if p \<noteq> [] \<and> hd p = CHR ''!'' then (''truncate'', tl p) else (''create'', p))
               in case fname p of
                    None \<Rightarrow> None
                  | Some f \<Rightarrow>
                      if f = [] then Some cl
                      else Some (emit (Redirect f mode) (cl\<lparr>cl_redir := opened (Redirect f mode) \<ge> 0\<rparr>)))"

definition dopipe :: "(event \<Rightarrow> int) \<Rightarrow> string \<Rightarrow> client \<Rightarrow> client option" where
  "dopipe opened p cl =
     (case redir_authorized p cl of
        None \<Rightarrow> None
      | Some ok \<Rightarrow>
          if \<not> ok then Some cl
          else if hd p \<noteq> CHR ''|'' then Some cl
          else let p = dropWhile isspace (tl p)
               in if p = [] then Some cl
                  else Some (emit (Pipe (butlast p)) (cl\<lparr>cl_redir := opened (Pipe (butlast p)) \<ge> 0\<rparr>)))"

definition doexecute :: "(event \<Rightarrow> int) \<Rightarrow> string \<Rightarrow> client \<Rightarrow> (int \<times> client) option" where
  "doexecute opened p cl =
     (case exec_authorized p cl of
        None \<Rightarrow> None
      | Some ok \<Rightarrow>
          if \<not> ok then Some (- 1, cl)
          else case fname p of
                 None \<Rightarrow> None
               | Some f \<Rightarrow>
                   if f = [] then Some (- 1, cl)
                   else Some (if opened (Exec_file f) < 0 then - 1 else opened (Exec_file f), emit (Exec_file f) cl))"

definition servercmd :: "(event \<Rightarrow> int) \<Rightarrow> int \<Rightarrow> string \<Rightarrow> client \<Rightarrow> (int \<times> client) option" where
  "servercmd opened code arg cl =
     (let arg = cstr arg in
      if code = C_PROMPT then
        Some (0, (emit (Shown code arg) (emit (Outch NL) (cl\<lparr>cl_redir := False\<rparr>)))\<lparr>cl_executing := False\<rparr>)
      else if code \<in> {C_FLUSH, C_EXIT, C_FLASH} then Some (0, emit (Shown code arg) cl)
      else if code = C_EXECUTE then
        (case doexecute opened arg cl of
           None \<Rightarrow> None
         | Some (h, cl) \<Rightarrow> Some (h, if h \<ge> 0 then cl\<lparr>cl_executing := True\<rparr> else cl))
      else if code = C_INFORM then
        Some (0, if (arg = [] \<or> hd arg \<noteq> NL) \<and> \<not> cl_redir cl then emit (Shown code arg) (emit (Outch NL) cl) else cl)
      else if code = C_PIPE then map_option (Pair 0) (dopipe opened arg cl)
      else if code = C_REDIR then map_option (Pair 0) (doredir opened arg cl)
      else None)"

text \<open>One character of the server's output.\<close>

definition buffered_ids :: "int set" where
  "buffered_ids = {C_PROMPT, C_FLUSH, C_EXECUTE, C_EXIT, C_FLASH, C_INFORM, C_PIPE, C_REDIR}"

definition after_cmd :: "int \<Rightarrow> client \<Rightarrow> client option" where
  "after_cmd h cl =
     (if h < 0 then Some (cl\<lparr>cl_input_fd := 0, cl_send_intr := True\<rparr>)
      else if h > 0 then if cl_input_fd cl \<noteq> 0 then None else Some (cl\<lparr>cl_input_fd := h\<rparr>)
      else Some cl)"

definition recv_char :: "(event \<Rightarrow> int) \<Rightarrow> char \<Rightarrow> client \<Rightarrow> client option" where
  "recv_char opened ch cl =
     (case cl_scan cl of
        SCANNING_ID \<Rightarrow>
          if ch = NL then Some (cl\<lparr>cl_lbuf := lbuf_init (cl_lbuf cl)\<rparr>)
          else (case lbuf_putc ch (cl_lbuf cl) of
            None \<Rightarrow> None
          | Some (len, b) \<Rightarrow>
              if ch \<noteq> CHR '' '' then Some (cl\<lparr>cl_lbuf := b\<rparr>)
              else case lbuf_line b of
                     None \<Rightarrow> None
                   | Some line \<Rightarrow>
                       let i = parseid line
                       in Some (cl\<lparr>cl_lbuf := lbuf_init b, cl_id := i, cl_scan := if i \<in> buffered_ids then BUFFERING else COPYING\<rparr>))
      | BUFFERING \<Rightarrow>
          (case lbuf_putc ch (cl_lbuf cl) of
             None \<Rightarrow> None
           | Some (len, b) \<Rightarrow>
               if len = 0 then Some (cl\<lparr>cl_lbuf := b\<rparr>)
               else case lbuf_line b of
                      None \<Rightarrow> None
                    | Some line \<Rightarrow>
                        Option.bind (servercmd opened (cl_id cl) line (cl\<lparr>cl_lbuf := b\<rparr>))
                          (\<lambda>(h, cl). map_option (\<lambda>cl. cl\<lparr>cl_lbuf := lbuf_init b, cl_scan := SCANNING_ID\<rparr>) (after_cmd h cl)))
      | COPYING \<Rightarrow>
          let cl = emit (Outch ch) cl
          in Some (if ch = NL then cl\<lparr>cl_scan := SCANNING_ID\<rparr> else cl))"

text \<open>\<open>recv_output\<close>, given what \<open>read\<close> gave.\<close>

definition recv_output :: "(event \<Rightarrow> int) \<Rightarrow> unit + string \<Rightarrow> client \<Rightarrow> (int \<times> client) option" where
  "recv_output opened res cl =
     (case res of
        Inl _ \<Rightarrow> Some (- 1, cl)
      | Inr buf \<Rightarrow> map_option (Pair (int (length buf))) (fold_opt (recv_char opened) buf cl))"

text \<open>
  \<open>send_input\<close>: the input buffer's bytes that \<open>writev\<close> took are remembered, except for carriage returns. \<open>res\<close> is
  the result of \<open>writev\<close>.
\<close>

fun save_sent :: "nat \<Rightarrow> ring \<Rightarrow> ring \<Rightarrow> (ring \<times> ring) option" where
  "save_sent 0 inbuf recent = Some (inbuf, recent)"
| "save_sent (Suc n) inbuf recent =
     (case ring_getc inbuf of
        (None, inbuf) \<Rightarrow> None
      | (Some ch, inbuf) \<Rightarrow>
          if ch = CHR 0x0D then save_sent n inbuf recent
          else case save_input ch recent of None \<Rightarrow> None | Some recent \<Rightarrow> save_sent n inbuf recent)"

definition send_input :: "unit + nat \<Rightarrow> ring \<Rightarrow> client \<Rightarrow> (int \<times> ring \<times> client) option" where
  "send_input res inbuf cl =
     (case res of
        Inl _ \<Rightarrow> Some (- 1, inbuf, cl)
      | Inr n \<Rightarrow> map_option (\<lambda>(inbuf, recent). (int n, inbuf, cl\<lparr>cl_recent := recent\<rparr>)) (save_sent n inbuf (cl_recent cl)))"


section \<open>What the server put out\<close>

text \<open>The reference: what each line of the server, as \<open>Output\<close> describes them, makes the client do.\<close>

definition take_line :: "(event \<Rightarrow> int) \<Rightarrow> int \<times> string \<Rightarrow> client \<Rightarrow> client option" where
  "take_line opened l cl =
     (case l of (n, s) \<Rightarrow>
        let cl = cl\<lparr>cl_id := n\<rparr> in
        if n \<in> buffered_ids then Option.bind (servercmd opened n (s @ [NL]) cl) (\<lambda>(h, cl). after_cmd h cl)
        else Some (cl\<lparr>cl_events := cl_events cl @ map Outch (s @ [NL])\<rparr>))"

definition scanning :: "client \<Rightarrow> bool" where
  "scanning cl \<longleftrightarrow> cl_scan cl = SCANNING_ID \<and> cl_lbuf cl = \<lparr>lb_line = [], lb_full = False\<rparr>"

definition ids :: "int list" where "ids = [0, 1, 2, 3, 4, 5, 6, 7, 8, 9, 10, 11, 12, 13, 14]"

lemma id_in_ids: "0 \<le> n \<Longrightarrow> n \<le> C_LAST \<Longrightarrow> n \<in> set ids"
  unfolding C_LAST_def ids_def by simp presburger

lemma id_chars:
  assumes "0 \<le> n" "n \<le> C_LAST"
  shows "parseid [id_char n, CHR '' ''] = n" "id_char n \<noteq> NL" "id_char n \<noteq> CHR '' ''"
proof -
  have "\<forall>n \<in> set ids. digit36 (id_char n) = Some n \<and> id_char n \<noteq> NL \<and> id_char n \<noteq> CHR '' '' \<and> \<not> isspace (id_char n)
    \<and> id_char n \<noteq> CHR ''-'' \<and> id_char n \<noteq> CHR ''+'' \<and> digit36 (CHR '' '') = None"
    by code_simp
  then have i: "digit36 (id_char n) = Some n" "id_char n \<noteq> NL" "id_char n \<noteq> CHR '' ''" "\<not> isspace (id_char n)"
    "id_char n \<noteq> CHR ''-''" "id_char n \<noteq> CHR ''+''" "digit36 (CHR '' '') = None"
    using id_in_ids [OF assms] by blast+
  then show "id_char n \<noteq> NL" "id_char n \<noteq> CHR '' ''" by simp_all
  have "signed_take_bit 31 n = n" using assms by (intro signed_take_bit_int_eq_self) (simp_all add: C_LAST_def)
  then show "parseid [id_char n, CHR '' ''] = n" using i assms by (simp add: parseid_def strtol36_def C_LAST_def)
qed

lemma id_scanned:
  assumes cl: "scanning cl" and n: "0 \<le> n" "n \<le> C_LAST"
  shows "fold_opt (recv_char opened) [id_char n, CHR '' ''] cl
    = Some (cl\<lparr>cl_id := n, cl_scan := if n \<in> buffered_ids then BUFFERING else COPYING\<rparr>)"
  using cl id_chars [OF n]
  by (cases cl) (simp add: scanning_def recv_char_def lbuf_putc_def LBUF_LEN_MAX_def lbuf_line_def lbuf_init_def Let_def)

lemma recv_copying: "cl_scan cl = COPYING \<Longrightarrow> c \<noteq> NL \<Longrightarrow> recv_char opened c cl = Some (emit (Outch c) cl)"
  by (simp add: recv_char_def Let_def)

lemma recv_buffering: "cl_scan cl = BUFFERING \<Longrightarrow> cl_lbuf cl = \<lparr>lb_line = t, lb_full = False\<rparr> \<Longrightarrow> c \<noteq> NL \<Longrightarrow>
    length t + 2 < LBUF_LEN_MAX \<Longrightarrow> recv_char opened c cl = Some (cl\<lparr>cl_lbuf := \<lparr>lb_line = t @ [c], lb_full = False\<rparr>\<rparr>)"
  by (simp add: recv_char_def lbuf_putc_def)

lemma copied: "NL \<notin> set s \<Longrightarrow> cl_scan cl = COPYING \<Longrightarrow>
  fold_opt (recv_char opened) s cl = Some (cl\<lparr>cl_events := cl_events cl @ map Outch s\<rparr>)"
proof (induction s arbitrary: cl)
  case (Cons c s)
  have "c \<noteq> NL" using Cons.prems by auto
  then have "recv_char opened c cl = Some (emit (Outch c) cl)" using Cons.prems by (simp add: recv_copying)
  then show ?case using Cons.IH [of "emit (Outch c) cl"] Cons.prems by (simp add: emit_def)
qed simp

lemma gathered: "NL \<notin> set s \<Longrightarrow> cl_scan cl = BUFFERING \<Longrightarrow> cl_lbuf cl = \<lparr>lb_line = t, lb_full = False\<rparr> \<Longrightarrow>
  length t + length s + 1 < LBUF_LEN_MAX \<Longrightarrow>
  fold_opt (recv_char opened) s cl = Some (cl\<lparr>cl_lbuf := \<lparr>lb_line = t @ s, lb_full = False\<rparr>\<rparr>)"
proof (induction s arbitrary: cl t)
  case (Cons c s)
  have "c \<noteq> NL" using Cons.prems by auto
  then have "recv_char opened c cl = Some (cl\<lparr>cl_lbuf := \<lparr>lb_line = t @ [c], lb_full = False\<rparr>\<rparr>)"
    using Cons.prems by (simp add: recv_buffering)
  then show ?case using Cons.IH [of "cl\<lparr>cl_lbuf := \<lparr>lb_line = t @ [c], lb_full = False\<rparr>\<rparr>" "t @ [c]"] Cons.prems by simp
qed simp

text \<open>What a command does is independent of the state machine's own variables.\<close>

definition at_state :: "scan \<Rightarrow> lbuf \<Rightarrow> client \<Rightarrow> client" where
  "at_state st b cl = cl\<lparr>cl_scan := st, cl_lbuf := b\<rparr>"

lemma emit_frame [simp]: "emit e (at_state st b cl) = at_state st b (emit e cl)"
  by (simp add: emit_def at_state_def)

lemma at_state_simps [simp]: "cl_redir (at_state st b cl) = cl_redir cl" "cl_recent (at_state st b cl) = cl_recent cl"
  "cl_executing (at_state st b cl) = cl_executing cl" "cl_restricted (at_state st b cl) = cl_restricted cl"
  "(at_state st b cl)\<lparr>cl_redir := x\<rparr> = at_state st b (cl\<lparr>cl_redir := x\<rparr>)"
  "(at_state st b cl)\<lparr>cl_executing := x\<rparr> = at_state st b (cl\<lparr>cl_executing := x\<rparr>)"
  by (simp_all add: at_state_def)

lemma auth_frame [simp]: "redir_authorized s (at_state st b cl) = redir_authorized s cl"
  "exec_authorized s (at_state st b cl) = exec_authorized s cl"
  by (simp_all add: redir_authorized_def exec_authorized_def common_authorized_def cong: option.case_cong)

lemma do_frame [simp]: "doredir opened s (at_state st b cl) = map_option (at_state st b) (doredir opened s cl)"
  "dopipe opened s (at_state st b cl) = map_option (at_state st b) (dopipe opened s cl)"
  "doexecute opened s (at_state st b cl) = map_option (map_prod (\<lambda>h. h) (at_state st b)) (doexecute opened s cl)"
  by (simp_all add: doredir_def dopipe_def doexecute_def Let_def split: option.split prod.split)

lemma servercmd_frame: "servercmd opened i s (at_state st b cl) = map_option (map_prod (\<lambda>h. h) (at_state st b)) (servercmd opened i s cl)"
  by (simp add: servercmd_def Let_def option.map_comp comp_def split: option.split)

lemma at_at [simp]: "at_state st b (at_state st' b' cl) = at_state st b cl"
  by (simp add: at_state_def)

lemma after_cmd_frame: "after_cmd h (at_state st b cl) = map_option (at_state st b) (after_cmd h cl)"
  by (simp add: after_cmd_def at_state_def)

lemma scanning_at_state: "scanning cl \<longleftrightarrow> at_state SCANNING_ID \<lparr>lb_line = [], lb_full = False\<rparr> cl = cl"
  by (cases cl) (auto simp: scanning_def at_state_def)

lemma buffered_taken:
  assumes s: "length s + 1 < LBUF_LEN_MAX"
  shows "recv_char opened NL (at_state BUFFERING \<lparr>lb_line = s, lb_full = False\<rparr> cl)
    = map_option (at_state SCANNING_ID \<lparr>lb_line = [], lb_full = False\<rparr>)
        (Option.bind (servercmd opened (cl_id cl) (s @ [NL]) cl) (\<lambda>(h, cl). after_cmd h cl))"
proof -
  let ?b = "\<lparr>lb_line = s @ [NL], lb_full = True\<rparr>"
  have "recv_char opened NL (at_state BUFFERING \<lparr>lb_line = s, lb_full = False\<rparr> cl)
      = Option.bind (servercmd opened (cl_id cl) (s @ [NL]) (at_state BUFFERING ?b cl))
          (\<lambda>(h, cl). map_option (\<lambda>cl. cl\<lparr>cl_lbuf := \<lparr>lb_line = [], lb_full = False\<rparr>, cl_scan := SCANNING_ID\<rparr>) (after_cmd h cl))"
    using s by (simp add: recv_char_def at_state_def lbuf_putc_def lbuf_line_def lbuf_init_def)
  also have "(\<lambda>cl :: client. cl\<lparr>cl_lbuf := \<lparr>lb_line = [], lb_full = False\<rparr>, cl_scan := SCANNING_ID\<rparr>)
      = at_state SCANNING_ID \<lparr>lb_line = [], lb_full = False\<rparr>"
    by (simp add: at_state_def fun_eq_iff)
  finally show ?thesis
    unfolding servercmd_frame
    by (cases "servercmd opened (cl_id cl) (s @ [NL]) cl") (auto simp: after_cmd_frame option.map_comp comp_def)
qed

lemma cmd_scanning:
  "scanning cl \<Longrightarrow> servercmd opened i s cl = Some (h, cl') \<Longrightarrow> scanning cl'"
  "scanning cl \<Longrightarrow> after_cmd h cl = Some cl' \<Longrightarrow> scanning cl'"
  using servercmd_frame [of opened i s SCANNING_ID "\<lparr>lb_line = [], lb_full = False\<rparr>" cl]
  by (auto simp: scanning_at_state) (auto simp: scanning_at_state [symmetric] scanning_def after_cmd_def split: if_splits)

lemma line_taken:
  assumes cl: "scanning cl" and n: "0 \<le> n" "n \<le> C_LAST" and s: "NL \<notin> set s" "length s + 1 < LBUF_LEN_MAX"
  shows "fold_opt (recv_char opened) (enc_line (n, s) @ [NL]) cl = take_line opened (n, s) cl"
    "\<forall>cl'. take_line opened (n, s) cl = Some cl' \<longrightarrow> scanning cl'"
proof -
  let ?e = "\<lparr>lb_line = [], lb_full = False\<rparr>" and ?cl = "cl\<lparr>cl_id := n\<rparr>"
  have c: "at_state SCANNING_ID ?e ?cl = ?cl" "cl_scan cl = SCANNING_ID" "cl_lbuf cl = ?e"
    using cl by (simp_all add: scanning_at_state [symmetric] scanning_def)
  have sc: "scanning ?cl" using cl by (simp add: scanning_def)
  have split: "enc_line (n, s) @ [NL] = [id_char n, CHR '' ''] @ s @ [NL]" by (simp add: enc_line_def)
  show "fold_opt (recv_char opened) (enc_line (n, s) @ [NL]) cl = take_line opened (n, s) cl"
  proof (cases "n \<in> buffered_ids")
    case True
    then have "?cl\<lparr>cl_scan := BUFFERING, cl_lbuf := \<lparr>lb_line = s, lb_full = False\<rparr>\<rparr>
        = at_state BUFFERING \<lparr>lb_line = s, lb_full = False\<rparr> ?cl" by (simp add: at_state_def)
    then have "fold_opt (recv_char opened) (enc_line (n, s) @ [NL]) cl
        = recv_char opened NL (at_state BUFFERING \<lparr>lb_line = s, lb_full = False\<rparr> ?cl)"
      unfolding split fold_opt_append id_scanned [OF cl n]
      using True gathered [of s "cl\<lparr>cl_id := n, cl_scan := BUFFERING\<rparr>" "[]" opened] s c(3) by (simp split: option.split)
    also have "\<dots> = Option.bind (servercmd opened n (s @ [NL]) ?cl) (\<lambda>(h, cl). after_cmd h cl)"
      unfolding buffered_taken [OF s(2)]
      using servercmd_frame [of opened n "s @ [NL]" SCANNING_ID ?e ?cl] c(1)
      by (cases "servercmd opened n (s @ [NL]) ?cl") (auto simp flip: after_cmd_frame)
    finally show ?thesis using True by (simp add: take_line_def)
  next
    case False
    then show ?thesis
      unfolding split fold_opt_append id_scanned [OF cl n]
      using copied [of s "cl\<lparr>cl_id := n, cl_scan := COPYING\<rparr>" opened] s c
      by (simp add: recv_char_def take_line_def emit_def Let_def)
  qed
  show "\<forall>cl'. take_line opened (n, s) cl = Some cl' \<longrightarrow> scanning cl'"
  proof (cases "n \<in> buffered_ids")
    case True
    then show ?thesis
      using cmd_scanning(1) [OF sc, of opened n "s @ [NL]"]
      by (cases "servercmd opened n (s @ [NL]) ?cl") (auto simp: take_line_def dest: cmd_scanning(2))
  next
    case False
    then show ?thesis using c by (auto simp: take_line_def scanning_def)
  qed
qed

lemma lines_taken:
  assumes "scanning cl" "\<forall>(n, s) \<in> set ls. 0 \<le> n \<and> n \<le> C_LAST \<and> NL \<notin> set s \<and> length s + 1 < LBUF_LEN_MAX"
  shows "fold_opt (recv_char opened) (enc (ls, None)) cl = fold_opt (take_line opened) ls cl"
  using assms
proof (induction ls arbitrary: cl)
  case (Cons l ls)
  obtain n s where l: "l = (n, s)" by (cases l)
  then have t: "fold_opt (recv_char opened) (enc_line (n, s) @ [NL]) cl = take_line opened (n, s) cl"
    "\<forall>cl'. take_line opened (n, s) cl = Some cl' \<longrightarrow> scanning cl'"
    using line_taken [OF Cons.prems(1), of n s opened] Cons.prems(2) by auto
  have e: "enc (l # ls, None) = (enc_line (n, s) @ [NL]) @ enc (ls, None)" by (simp add: enc_def l)
  have "fold_opt (recv_char opened) (enc (l # ls, None)) cl
      = (case take_line opened l cl of None \<Rightarrow> None | Some cl' \<Rightarrow> fold_opt (recv_char opened) (enc (ls, None)) cl')"
    unfolding e by (subst fold_opt_append) (simp only: t(1) l)
  then show ?case using t(2) l Cons.IH Cons.prems(2) by (cases "take_line opened l cl") auto
qed (simp add: enc_def)

section \<open>The memory of recent input\<close>

lemma search_newline:
  assumes r: "ring_ok r" "unwrapped r"
  shows "ring_search r [NL] 0 = (if NL \<in> set (held r) then int (length (takeWhile (\<lambda>c. c \<noteq> NL) (held r))) else - 1)"
proof -
  have at: "occurs [NL] r k \<longleftrightarrow> k < length (held r) \<and> held r ! k = NL" for k
    by (cases "k < length (held r)") (auto simp: occurs_def simp flip: Cons_nth_drop_Suc)
  from search_held [OF r, of "[NL]" 0] show ?thesis
  proof
    assume "\<exists>j \<ge> nat 0. ring_search r [NL] 0 = int j \<and> occurs [NL] r j \<and> (\<forall>k. nat 0 \<le> k \<and> k < j \<longrightarrow> \<not> occurs [NL] r k)"
    then obtain j where j: "ring_search r [NL] 0 = int j" "j < length (held r)" "held r ! j = NL"
      "\<forall>k < j. held r ! k \<noteq> NL" by (auto simp: at)
    then have "takeWhile (\<lambda>c. c \<noteq> NL) (held r) = take j (held r)" by (intro takeWhile_eq_take_P_nth) auto
    then show ?thesis using j by (auto simp: in_set_conv_nth)
  next
    assume "ring_search r [NL] 0 = - 1 \<and> (\<forall>k \<ge> nat 0. \<not> occurs [NL] r k)"
    then show ?thesis by (auto simp: at in_set_conv_nth)
  qed simp_all
qed

lemma takeWhile_shorter: "x \<in> set xs \<Longrightarrow> \<not> P x \<Longrightarrow> length (takeWhile P xs) < length xs"
  by (induction xs) auto

lemma save_input_room:
  "ring_ok r \<Longrightarrow> length (held r) < RING_SIZE \<Longrightarrow> \<exists>r'. save_input c r = Some r' \<and> ring_ok r' \<and> held r' = held r @ [c]"
  using putc_held [of r c] by (subst save_input.simps) auto

lemma save_input_held:
  assumes r: "ring_ok r" "unwrapped r"
  shows "if length (held r) < RING_SIZE then \<exists>r'. save_input c r = Some r' \<and> ring_ok r' \<and> held r' = held r @ [c]
    else if NL \<in> set (held r) then
      \<exists>r'. save_input c r = Some r' \<and> ring_ok r' \<and> held r' = tl (dropWhile (\<lambda>c. c \<noteq> NL) (held r)) @ [c]
    else save_input c r = None"
proof (cases "length (held r) < RING_SIZE")
  case True
  then show ?thesis using save_input_room [OF r(1), of c] by simp
next
  case False
  then have full: "ring_putc c r = (None, r)" using putc_held [OF r(1), of c] r(1) by (auto simp: ring_ok_def split: if_splits)
  show ?thesis
  proof (cases "NL \<in> set (held r)")
    case nl: True
    let ?n = "length (takeWhile (\<lambda>c. c \<noteq> NL) (held r))"
    have n: "?n < length (held r)" using takeWhile_shorter [OF nl, of "\<lambda>c. c \<noteq> NL"] by simp
    obtain r' where d: "ring_discard (int ?n + 1) r = Some r'" "ring_ok r'" "held r' = drop (Suc ?n) (held r)"
      using discard_held [OF r(1), of "int ?n + 1"] n by (auto simp: nat_add_distrib)
    have "drop (Suc ?n) (held r) = tl (dropWhile (\<lambda>c. c \<noteq> NL) (held r))" by (simp add: dropWhile_eq_drop drop_Suc tl_drop)
    moreover have "length (held r') < RING_SIZE" unfolding d(3) using n False r(1) by (simp add: ring_ok_def)
    ultimately obtain r'' where "save_input c r' = Some r''" "ring_ok r''" "held r'' = tl (dropWhile (\<lambda>c. c \<noteq> NL) (held r)) @ [c]"
      using save_input_room [OF d(2), of c] d(3) by auto
    then show ?thesis using False nl full d(1) search_newline [OF r] by (subst save_input.simps) (simp add: Let_def)
  next
    case False
    then show ?thesis using \<open>\<not> length (held r) < RING_SIZE\<close> full search_newline [OF r]
      by (subst save_input.simps) simp
  qed
qed

lemma command_before_held:
  assumes r: "ring_ok r" "unwrapped r"
  shows "i \<le> length (held r) \<Longrightarrow> \<exists>u cmd. command_before i r acc = Some (cmd @ acc) \<and> take i (held r) = u @ cmd \<and> NL \<notin> set cmd
    \<and> (u = [] \<or> last u = NL)"
proof (induction i arbitrary: acc)
  case (Suc i)
  then have i: "i < length (held r)" by simp
  have "held_len r \<le> RING_SIZE" using r(1) by (simp add: ring_ok_def)
  then have p: "ring_peek r (int i) = Some (Some (held r ! i))" using peek_held [OF r, of "int i"] i by simp
  have t: "take (Suc i) (held r) = take i (held r) @ [held r ! i]" using i by (simp add: take_Suc_conv_app_nth)
  show ?case
  proof (cases "held r ! i = NL")
    case True
    then show ?thesis using p t by (intro exI [of _ "take (Suc i) (held r)"] exI [of _ "[]"]) simp
  next
    case False
    obtain u cmd where "command_before i r (held r ! i # acc) = Some (cmd @ held r ! i # acc)" "take i (held r) = u @ cmd"
      "NL \<notin> set cmd" "u = [] \<or> last u = NL" using Suc.IH [of "held r ! i # acc"] i by auto
    then show ?thesis using p t False by (intro exI [of _ u] exI [of _ "cmd @ [held r ! i]"]) auto
  qed
qed simp

section \<open>What the server can make the client do\<close>

text \<open>
  The file, with the way it is opened, or the command of an event stands in the input the client remembers, just as the user
  must type it: a file name is a whole word, a command the rest of its line.
\<close>

fun op_mode :: "string \<Rightarrow> string \<Rightarrow> string \<Rightarrow> bool" where
  "op_mode p after m \<longleftrightarrow>
     p = ''>>'' \<and> m = ''append'' \<or> p = ''>!'' \<and> m = ''truncate''
     \<or> p = ''>'' \<and> m = ''create'' \<and> hd after \<notin> {CHR ''>'', CHR ''!''}"

definition blanks :: "string \<Rightarrow> bool" where
  "blanks s \<longleftrightarrow> (\<forall>c \<in> set s. isspace c)"

definition one_word :: "string \<Rightarrow> bool" where
  "one_word s \<longleftrightarrow> s \<noteq> [] \<and> (\<forall>c \<in> set s. \<not> isspace c)"

fun typed :: "string \<Rightarrow> event \<Rightarrow> bool" where
  "typed h (Redirect f mode) \<longleftrightarrow>
     (\<exists>p sp ws. op_mode p (sp @ f) mode \<and> blanks sp \<and> one_word f \<and> isspace ws \<and> sublist (p @ sp @ f @ [ws]) h)"
| "typed h (Pipe c) \<longleftrightarrow>
     (\<exists>sp. blanks sp \<and> c \<noteq> [] \<and> \<not> isspace (hd c) \<and> sublist (CHR ''|'' # sp @ c @ [NL]) h)"
| "typed h (Exec_file f) \<longleftrightarrow>
     (\<exists>cmd nl sp ws. is_execute cmd \<and> NL \<notin> set cmd \<and> nl \<in> {[], [NL]} \<and> blanks sp \<and> one_word f \<and> isspace ws
        \<and> sublist (cmd @ nl @ sp @ f @ [ws]) h)"
| "typed h e \<longleftrightarrow> True"

fun local_event :: "event \<Rightarrow> bool" where
  "local_event (Outch c) \<longleftrightarrow> True"
| "local_event (Shown i s) \<longleftrightarrow> True"
| "local_event e \<longleftrightarrow> False"

lemma fname_split:
  assumes "fname s = Some f"
  obtains sp ws v where "s = sp @ f @ ws # v" "blanks sp" "isspace ws" "one_word f"
proof -
  let ?beg = "dropWhile isspace s"
  obtain c where c: "c \<in> set ?beg" "isspace c" and f: "f = takeWhile (\<lambda>c. \<not> isspace c) ?beg"
    using assms by (auto simp: fname_def Let_def split: if_splits)
  have ne: "?beg \<noteq> []" using length_pos_if_in_set [OF c(1)] unfolding length_greater_0_conv .
  then have "\<not> isspace (hd ?beg)" by (rule hd_dropWhile)
  then have w: "one_word f" using ne unfolding one_word_def f by (cases ?beg) (auto dest: set_takeWhileD)
  let ?v = "dropWhile (\<lambda>c. \<not> isspace c) ?beg"
  have v: "?v \<noteq> []" using c by (auto simp: dropWhile_eq_Nil_conv simp del: set_dropWhileD)
  then have "isspace (hd ?v)" using hd_dropWhile [OF v] by simp
  moreover have "?beg = f @ hd ?v # tl ?v" using v f by (metis list.collapse takeWhile_dropWhile_id)
  then have "s = takeWhile isspace s @ f @ hd ?v # tl ?v" by (metis takeWhile_dropWhile_id)
  moreover have "blanks (takeWhile isspace s)" by (auto simp: blanks_def dest: set_takeWhileD)
  ultimately show thesis using that w by blast
qed

lemma occurs_sublist: "occurs s r i \<Longrightarrow> sublist s (held r)"
  unfolding occurs_def by (metis prefix_imp_sublist sublist_drop sublist_order.order_trans)

lemma seen_sound:
  assumes r: "ring_ok r" "unwrapped r" and s: "seen_input arg r = Some True"
  shows "sublist arg (held r) \<and> arg \<noteq> [] \<and> last arg = NL"
proof -
  have a: "arg \<noteq> []" "last arg = NL" "ring_search r arg 0 \<ge> 0" using s by (auto simp: seen_input_def split: if_splits)
  then show ?thesis using search_held [OF r a(1), of 0] by (auto dest: occurs_sublist)
qed

lemma seen_exec_sound:
  assumes r: "ring_ok r" "unwrapped r" and arg: "arg \<noteq> []"
  shows "1 \<le> n \<Longrightarrow> n + 1 \<le> int RING_SIZE \<Longrightarrow> \<exists>b. seen_exec_loop arg r n = Some b \<and>
    (b \<longrightarrow> (\<exists>cmd nl. is_execute cmd \<and> NL \<notin> set cmd \<and> nl \<in> {[], [NL]} \<and> sublist (cmd @ nl @ arg) (held r)))"
proof (induction "nat (int RING_SIZE - n)" arbitrary: n rule: less_induct)
  case less
  from search_held [OF r arg, of "n + 1"] less.prems
  consider j where "j \<ge> nat (n + 1)" "ring_search r arg (n + 1) = int j" "occurs arg r j" | "ring_search r arg (n + 1) = - 1" by auto
  then show ?case
  proof cases
    case 2
    then show ?thesis by (intro exI [of _ False]) (subst seen_exec_loop.simps, simp)
  next
    case 1
    have len: "held_len r \<le> RING_SIZE" using r(1) by (simp add: ring_ok_def)
    have j: "0 < j" "j < length (held r)" using 1(1) less.prems occurs_bound [OF 1(3) arg] length_greater_0_conv [of arg] arg by (simp_all del: length_greater_0_conv)
    have p: "ring_peek r (int j - 1) = Some (Some (held r ! (j - 1)))"
      using peek_held [OF r, of "int j - 1"] j len by (simp add: nat_diff_distrib)
    define i where "i = (if held r ! (j - 1) = NL then j - 1 else j)"
    have i: "i \<le> length (held r)" "nat (if held r ! (j - 1) = NL then int j - 1 else int j) = i" using j by (auto simp: i_def)
    obtain u cmd where c: "command_before i r [] = Some cmd" "take i (held r) = u @ cmd" "NL \<notin> set cmd"
      using command_before_held [OF r i(1), of "[]"] by auto
    obtain nl where nl: "nl \<in> {[], [NL]}" "take j (held r) = u @ cmd @ nl"
      using c(2) j take_Suc_conv_app_nth [of "j - 1" "held r"] by (cases "held r ! (j - 1) = NL") (auto simp: i_def)
    have "held r = u @ cmd @ nl @ drop j (held r)" using nl(2) append_take_drop_id [of j "held r"] by simp
    moreover obtain v where "drop j (held r) = arg @ v" using 1(3) by (auto simp: occurs_def prefix_def)
    ultimately have sub: "sublist (cmd @ nl @ arg) (held r)" by (metis append.assoc sublist_appendI)
    have "int j + 1 \<le> int RING_SIZE" using j(2) len by simp
    moreover have "nat (int RING_SIZE - int j) < nat (int RING_SIZE - n)" using 1(1) less.prems by linarith
    ultimately obtain b where "seen_exec_loop arg r (int j) = Some b"
      "b \<longrightarrow> (\<exists>cmd nl. is_execute cmd \<and> NL \<notin> set cmd \<and> nl \<in> {[], [NL]} \<and> sublist (cmd @ nl @ arg) (held r))"
      using less.hyps [of "int j"] j(1) by auto
    then show ?thesis using 1(2) j(1) p i(2) c nl(1) sub by (subst seen_exec_loop.simps) (auto simp: Let_def)
  qed
qed

lemma new_events:
  assumes r: "ring_ok (cl_recent cl)" "unwrapped (cl_recent cl)"
  shows "redir_authorized p cl = Some True \<Longrightarrow> sublist p (held (cl_recent cl)) \<and> p \<noteq> [] \<and> last p = NL \<and> common_authorized cl"
    "exec_authorized p cl = Some True \<Longrightarrow> common_authorized cl \<and>
      (\<exists>cmd nl. is_execute cmd \<and> NL \<notin> set cmd \<and> nl \<in> {[], [NL]} \<and> sublist (cmd @ nl @ p) (held (cl_recent cl)))"
proof -
  show "redir_authorized p cl = Some True \<Longrightarrow> sublist p (held (cl_recent cl)) \<and> p \<noteq> [] \<and> last p = NL \<and> common_authorized cl"
    using seen_sound [OF r, of p] by (auto simp: redir_authorized_def split: option.splits if_splits)
  assume a: "exec_authorized p cl = Some True"
  then have "p \<noteq> []" "seen_exec_loop p (cl_recent cl) 1 = Some True" "common_authorized cl"
    by (auto simp: exec_authorized_def seen_exec_input_def split: if_splits)
  then show "common_authorized cl \<and>
      (\<exists>cmd nl. is_execute cmd \<and> NL \<notin> set cmd \<and> nl \<in> {[], [NL]} \<and> sublist (cmd @ nl @ p) (held (cl_recent cl)))"
    using seen_exec_sound [OF r, of p 1] by (auto simp: RING_SIZE_def)
qed

text \<open>The events that a step adds, and what it leaves alone.\<close>

definition adds :: "(event \<Rightarrow> bool) \<Rightarrow> client \<Rightarrow> client \<Rightarrow> bool" where
  "adds P cl cl' \<longleftrightarrow> cl_recent cl' = cl_recent cl \<and> cl_restricted cl' = cl_restricted cl \<and>
     (\<exists>es. cl_events cl' = cl_events cl @ es \<and> (\<forall>e \<in> set es. P e))"

definition obeyed :: "client \<Rightarrow> event \<Rightarrow> bool" where
  "obeyed cl e \<longleftrightarrow> typed (held (cl_recent cl)) e \<and> (cl_restricted cl \<longrightarrow> local_event e)"

lemma adds_refl [intro]: "adds P cl cl"
  by (simp add: adds_def)

lemma adds_emit: "P e \<Longrightarrow> cl_events cl' = cl_events cl \<Longrightarrow> cl_recent cl' = cl_recent cl \<Longrightarrow> cl_restricted cl' = cl_restricted cl \<Longrightarrow>
    adds P cl (emit e cl')"
  by (simp add: adds_def emit_def)

lemma adds_trans: "adds P cl cl' \<Longrightarrow> adds P cl' cl'' \<Longrightarrow> adds P cl cl''"
  unfolding adds_def by (elim conjE exE) (intro conjI; force)

lemma sublist_tl: "sublist (c # p) h \<Longrightarrow> sublist p h"
  unfolding sublist_def by (metis append.assoc append_Cons append_Nil)

lemma isspace_NL: "isspace NL"
  by (simp add: isspace_def)

lemma sublist_front: "sublist (u @ v) h \<Longrightarrow> sublist u h"
  by (metis sublist_order.order_trans sublist_append_rightI)

lemma doredir_adds:
  assumes r: "ring_ok (cl_recent cl)" "unwrapped (cl_recent cl)" and d: "doredir opened p cl = Some cl'"
  shows "adds (obeyed cl) cl cl'"
proof (cases "redir_authorized p cl = Some True \<and> hd p = CHR ''>''")
  case True
  have n: "sublist p (held (cl_recent cl))" "p \<noteq> []" "common_authorized cl" using new_events(1) [OF r, of p] True by auto
  obtain q where q: "p = CHR ''>'' # q" using n(2) True by (cases p) auto
  define x where "x = (if q \<noteq> [] \<and> hd q = CHR ''>'' then (''>>'', ''append'', tl q)
    else if q \<noteq> [] \<and> hd q = CHR ''!'' then (''>!'', ''truncate'', tl q) else (''>'', ''create'', q))"
  obtain p1 mode rest where x: "x = (p1, mode, rest)" by (cases x) auto
  have p: "p = p1 @ rest" "rest \<noteq> [] \<Longrightarrow> op_mode p1 rest mode" using x by (cases q; auto simp: x_def q split: if_splits)+
  have "doredir opened p cl = (case fname rest of None \<Rightarrow> None | Some f \<Rightarrow>
      if f = [] then Some cl else Some (emit (Redirect f mode) (cl\<lparr>cl_redir := opened (Redirect f mode) \<ge> 0\<rparr>)))"
    using True x by (auto simp: doredir_def q Let_def x_def)
  then obtain f where f: "fname rest = Some f"
    "cl' = cl \<or> cl' = emit (Redirect f mode) (cl\<lparr>cl_redir := opened (Redirect f mode) \<ge> 0\<rparr>)"
    using d by (auto split: option.splits if_splits)
  obtain sp ws v where s: "rest = sp @ f @ ws # v" "blanks sp" "isspace ws" "one_word f" using fname_split [OF f(1)] by blast
  have "hd rest = hd (sp @ f)" using s(4) unfolding s(1) by (cases sp; cases f) (simp_all add: one_word_def)
  then have "op_mode p1 (sp @ f) mode" using p(2) s(1) by simp
  moreover have "p = (p1 @ sp @ f @ [ws]) @ v" using p(1) s(1) by simp
  then have "sublist (p1 @ sp @ f @ [ws]) (held (cl_recent cl))" using n(1) sublist_front by metis
  ultimately have "obeyed cl (Redirect f mode)"
    using s(2-4) n(3) unfolding obeyed_def typed.simps common_authorized_def by blast
  then show ?thesis using f(2) by (auto intro!: adds_emit)
next
  case False
  then have "cl' = cl" using d by (auto simp: doredir_def split: option.splits if_splits)
  then show ?thesis by auto
qed

lemma dopipe_adds:
  assumes r: "ring_ok (cl_recent cl)" "unwrapped (cl_recent cl)" and d: "dopipe opened p cl = Some cl'"
  shows "adds (obeyed cl) cl cl'"
proof (cases "redir_authorized p cl = Some True \<and> hd p = CHR ''|'' \<and> dropWhile isspace (tl p) \<noteq> []")
  case True
  have n: "sublist p (held (cl_recent cl))" "p \<noteq> []" "last p = NL" "common_authorized cl" using new_events(1) [OF r, of p] True by auto
  let ?c = "dropWhile isspace (tl p)" and ?sp = "takeWhile isspace (tl p)"
  have tlp: "tl p = ?sp @ ?c" by simp
  then have "tl p \<noteq> []" using True by auto
  then have "last ?c = NL" using n(2,3) True by (metis last_appendR last_tl tlp)
  then have "?c = butlast ?c @ [NL]" using True by (metis append_butlast_last_id)
  then have "p = CHR ''|'' # ?sp @ butlast ?c @ [NL]" using n(2) True tlp by (metis list.collapse)
  moreover have "blanks ?sp" by (auto simp: blanks_def dest: set_takeWhileD)
  moreover have "\<not> isspace (hd ?c)" using True by (simp add: hd_dropWhile)
  moreover from this have "butlast ?c \<noteq> []" "hd (butlast ?c) = hd ?c"
    using \<open>?c = butlast ?c @ [NL]\<close> by (metis append_Nil isspace_NL list.sel(1), metis append_Nil hd_append2 isspace_NL list.sel(1))
  ultimately have "obeyed cl (Pipe (butlast ?c))" using n(1,4) unfolding obeyed_def typed.simps common_authorized_def by metis
  moreover have "cl' = emit (Pipe (butlast ?c)) (cl\<lparr>cl_redir := opened (Pipe (butlast ?c)) \<ge> 0\<rparr>)"
    using d True by (auto simp: dopipe_def Let_def split: if_splits)
  ultimately show ?thesis by (simp add: adds_emit)
next
  case False
  then have "cl' = cl" using d by (auto simp: dopipe_def Let_def split: option.splits if_splits)
  then show ?thesis by auto
qed

lemma doexecute_adds:
  assumes r: "ring_ok (cl_recent cl)" "unwrapped (cl_recent cl)" and d: "doexecute opened p cl = Some (h, cl')"
  shows "adds (obeyed cl) cl cl'"
proof (cases "exec_authorized p cl = Some True")
  case True
  obtain cmd nl where n: "is_execute cmd" "NL \<notin> set cmd" "nl \<in> {[], [NL]}" "sublist (cmd @ nl @ p) (held (cl_recent cl))"
    "common_authorized cl" using new_events(2) [OF r, of p] True by blast
  obtain f where f: "fname p = Some f" "cl' = cl \<or> cl' = emit (Exec_file f) cl"
    using d True by (auto simp: doexecute_def split: option.splits if_splits)
  obtain sp ws v where s: "p = sp @ f @ ws # v" "blanks sp" "isspace ws" "one_word f" using fname_split [OF f(1)] by blast
  have "cmd @ nl @ p = (cmd @ nl @ sp @ f @ [ws]) @ v" using s(1) by simp
  then have "sublist (cmd @ nl @ sp @ f @ [ws]) (held (cl_recent cl))" using n(4) sublist_front by metis
  then have "obeyed cl (Exec_file f)"
    using n s(2-4) unfolding obeyed_def typed.simps common_authorized_def by blast
  then show ?thesis using f(2) by (auto intro!: adds_emit)
next
  case False
  then have "cl' = cl" using d by (auto simp: doexecute_def Let_def split: option.splits if_splits)
  then show ?thesis by auto
qed

lemma adds_local: "cl_recent cl' = cl_recent cl \<Longrightarrow> cl_restricted cl' = cl_restricted cl \<Longrightarrow>
    \<exists>es. cl_events cl' = cl_events cl @ es \<and> (\<forall>e \<in> set es. local_event e) \<Longrightarrow> adds (obeyed cl) cl cl'"
proof -
  have "obeyed cl e" if "local_event e" for e using that by (cases e) (auto simp: obeyed_def)
  then show "cl_recent cl' = cl_recent cl \<Longrightarrow> cl_restricted cl' = cl_restricted cl \<Longrightarrow>
    \<exists>es. cl_events cl' = cl_events cl @ es \<and> (\<forall>e \<in> set es. local_event e) \<Longrightarrow> adds (obeyed cl) cl cl'"
    unfolding adds_def by blast
qed

lemma servercmd_adds:
  assumes r: "ring_ok (cl_recent cl)" "unwrapped (cl_recent cl)" and d: "servercmd opened i p cl = Some (h, cl')"
  shows "adds (obeyed cl) cl cl'"
proof -
  consider "i = C_EXECUTE" | "i = C_PIPE" | "i = C_REDIR" | "i \<in> {C_PROMPT, C_FLUSH, C_EXIT, C_FLASH, C_INFORM}"
    using d by (auto simp: servercmd_def Let_def split: if_splits)
  then show ?thesis
  proof cases
    case 1
    then obtain h' cl1 where e: "doexecute opened (cstr p) cl = Some (h', cl1)" "cl' = (if h' \<ge> 0 then cl1\<lparr>cl_executing := True\<rparr> else cl1)"
      using d by (auto simp: servercmd_def C_EXECUTE_def C_PROMPT_def C_FLUSH_def C_EXIT_def C_FLASH_def Let_def split: option.splits)
    have "adds (obeyed cl) cl cl1" by (rule doexecute_adds [OF r e(1)])
    then show ?thesis by (auto simp: e(2) adds_def)
  next
    case 2
    then have "dopipe opened (cstr p) cl = Some cl'"
      using d by (simp add: servercmd_def C_EXECUTE_def C_PROMPT_def C_FLUSH_def C_EXIT_def C_FLASH_def C_INFORM_def C_PIPE_def Let_def)
    then show ?thesis by (rule dopipe_adds [OF r])
  next
    case 3
    then have "doredir opened (cstr p) cl = Some cl'"
      using d by (simp add: servercmd_def C_EXECUTE_def C_PROMPT_def C_FLUSH_def C_EXIT_def C_FLASH_def C_INFORM_def C_PIPE_def C_REDIR_def Let_def)
    then show ?thesis by (rule doredir_adds [OF r])
  next
    case 4
    show ?thesis using d 4
      by (intro adds_local; elim insertE emptyE)
        (auto simp: servercmd_def C_EXECUTE_def C_PROMPT_def C_FLUSH_def C_EXIT_def C_FLASH_def C_INFORM_def Let_def emit_def split: if_splits)
  qed
qed

lemma recv_char_adds:
  assumes r: "ring_ok (cl_recent cl)" "unwrapped (cl_recent cl)" and d: "recv_char opened c cl = Some cl'"
  shows "adds (obeyed cl) cl cl'"
proof (cases "cl_scan cl")
  case SCANNING_ID
  then show ?thesis using d by (intro adds_local) (auto simp: recv_char_def Let_def split: if_splits option.splits)
next
  case COPYING
  then show ?thesis using d by (intro adds_local) (auto simp: recv_char_def emit_def Let_def split: if_splits)
next
  case BUFFERING
  then obtain len b where b: "lbuf_putc c (cl_lbuf cl) = Some (len, b)" using d by (auto simp: recv_char_def split: option.splits)
  show ?thesis
  proof (cases "len = 0")
    case True
    then show ?thesis using BUFFERING b d by (intro adds_local) (auto simp: recv_char_def)
  next
    case False
    then obtain line h cl1 cl2 where s: "servercmd opened (cl_id cl) line (cl\<lparr>cl_lbuf := b\<rparr>) = Some (h, cl1)"
      "after_cmd h cl1 = Some cl2" "cl' = cl2\<lparr>cl_lbuf := lbuf_init b, cl_scan := SCANNING_ID\<rparr>"
      using BUFFERING b d by (auto simp: recv_char_def bind_eq_Some_conv split: option.splits)
    have "adds (obeyed cl) cl cl1" using servercmd_adds [OF _ _ s(1)] r by (simp add: adds_def obeyed_def)
    moreover have "cl_recent cl2 = cl_recent cl1" "cl_restricted cl2 = cl_restricted cl1" "cl_events cl2 = cl_events cl1"
      using s(2) by (auto simp: after_cmd_def split: if_splits)
    ultimately show ?thesis by (simp add: s(3) adds_def)
  qed
qed

lemma recv_adds:
  "ring_ok (cl_recent cl) \<Longrightarrow> unwrapped (cl_recent cl) \<Longrightarrow> fold_opt (recv_char opened) s cl = Some cl' \<Longrightarrow> adds (obeyed cl) cl cl'"
proof (induction s arbitrary: cl)
  case (Cons c s)
  then obtain cl1 where c: "recv_char opened c cl = Some cl1" "fold_opt (recv_char opened) s cl1 = Some cl'"
    by (auto split: option.splits)
  then have a: "adds (obeyed cl) cl cl1" using recv_char_adds Cons.prems by blast
  then have same: "cl_recent cl1 = cl_recent cl" "obeyed cl1 = obeyed cl" by (auto simp: adds_def obeyed_def fun_eq_iff)
  then have "adds (obeyed cl) cl1 cl'" using Cons.IH [of cl1] Cons.prems c(2) by simp
  then show ?case using a adds_trans by blast
qed auto

section \<open>Properties\<close>

lemma server_lines_taken:
  assumes "out_shows sent pl st" "snd st = None" "\<forall>(m, s) \<in> set (fst st). length s + 1 < LBUF_LEN_MAX" "scanning cl"
  shows "fold_opt (recv_char opened) (sent @ pending (pl_iop pl)) cl = fold_opt (take_line opened) (fst st) cl"
proof -
  have st: "st = (fst st, None)" using assms(2) by (cases st) simp
  have "lines_ok st" "sent @ pending (pl_iop pl) = enc st" using assms(1) by (simp_all add: out_shows_def)
  moreover from this have "\<forall>(n, s) \<in> set (fst st). 0 \<le> n \<and> n \<le> C_LAST \<and> NL \<notin> set s"
    using assms(2) by (simp add: lines_ok_def close_line_def)
  ultimately show ?thesis using lines_taken [OF assms(4), of "fst st" opened] assms(3) st by fastforce
qed

text \<open>
  C26. The client undoes the server's line format: when the server has put out some text with an ID, on top
  of lines put out before, and no line is open or too long, what the client does with all the bytes of the connection, read in
  pieces of any size, is what it should do for each line in turn: text with the IDs of commands goes to the
  commands with its newline, everything else is displayed with its newline.
\<close>

theorem client_takes_server_lines:
  assumes ns: "\<forall>i. net_ok (ns i)" and w: "out_shows (to_sent w) (to_pl w) st" and n: "0 \<le> n" "n \<le> C_LAST"
    and st: "snd (fold (add_char n) buf st) = None" "\<forall>(m, s) \<in> set (fst (fold (add_char n) buf st)). length s + 1 < LBUF_LEN_MAX"
    and cl: "scanning cl"
  shows "\<exists>w'. pr_player cfg ns me n buf w = Some w' \<and>
    (\<forall>a b. a @ b = to_sent w' @ pending (pl_iop (to_pl w')) \<longrightarrow>
      (case fold_opt (recv_char opened) a cl of None \<Rightarrow> None | Some cl \<Rightarrow> fold_opt (recv_char opened) b cl)
      = fold_opt (take_line opened) (fst (fold (add_char n) buf st)) cl)"
proof -
  obtain w' where w': "pr_player cfg ns me n buf w = Some w'" "out_shows (to_sent w') (to_pl w') (fold (add_char n) buf st)"
    using pr_player_shows [OF ns w n] by blast
  then show ?thesis using server_lines_taken [OF w'(2) st cl, of opened] by (metis fold_opt_append)
qed

definition client_example :: "bool \<Rightarrow> client" where
  "client_example restr = \<lparr>cl_scan = SCANNING_ID, cl_id = 0, cl_lbuf = \<lparr>lb_line = [], lb_full = False\<rparr>, cl_redir = False,
     cl_executing = False, cl_restricted = restr, cl_input_fd = 0, cl_send_intr = False,
     cl_recent = \<lparr>r_cons = 0, r_prod = 0, r_buf = replicate RING_SIZE (CHR 0x00)\<rparr>, cl_events = []\<rparr>"

theorem client_takes_server_lines_witness:
  "\<forall>d :: int db. \<exists>w'. pr_player \<lparr>login_grace_time = 120, max_idle = 15, max_idle_visitor = 5\<rparr> (\<lambda>_. net_example) True C_DATA
      (''ab'' @ [NL]) \<lparr>to_pl = pl_example, to_db = d, to_sent = [], to_calls = 0\<rparr> = Some w'
    \<and> map_option cl_events (fold_opt (recv_char (\<lambda>_. 0)) (to_sent w' @ pending (pl_iop (to_pl w'))) (client_example False))
      = Some [Outch (CHR ''a''), Outch (CHR ''b''), Outch NL]"
proof
  fix d :: "int db"
  let ?w = "\<lparr>to_pl = pl_example, to_db = d, to_sent = [], to_calls = 0\<rparr>"
  let ?cfg = "\<lparr>login_grace_time = 120, max_idle = 15, max_idle_visitor = 5\<rparr>"
  have st: "fold (add_char C_DATA) (''ab'' @ [NL]) ([], None) = ([(C_DATA, ''ab'')], None)"
    by (simp add: add_char_def start_line_def cur_id_def close_line_def C_DATA_def)
  have "C_DATA \<notin> buffered_ids"
    by (simp add: buffered_ids_def C_DATA_def C_PROMPT_def C_FLUSH_def C_EXECUTE_def C_EXIT_def C_FLASH_def C_INFORM_def C_PIPE_def C_REDIR_def)
  then have t: "map_option cl_events (fold_opt (take_line (\<lambda>_. 0)) [(C_DATA, ''ab'')] (client_example False))
      = Some [Outch (CHR ''a''), Outch (CHR ''b''), Outch NL]"
    by (simp add: take_line_def client_example_def)
  have "scanning (client_example False)" by (simp add: scanning_def client_example_def)
  then obtain w' where "pr_player ?cfg (\<lambda>_. net_example) True C_DATA (''ab'' @ [NL]) ?w = Some w'"
    "\<forall>a b. a @ b = to_sent w' @ pending (pl_iop (to_pl w')) \<longrightarrow>
      (case fold_opt (recv_char (\<lambda>_. 0)) a (client_example False) of None \<Rightarrow> None | Some cl \<Rightarrow> fold_opt (recv_char (\<lambda>_. 0)) b cl)
      = fold_opt (take_line (\<lambda>_. 0)) [(C_DATA, ''ab'')] (client_example False)"
    using client_takes_server_lines [of "\<lambda>_. net_example" ?w "([], None)" C_DATA "''ab'' @ [NL]" "client_example False" ?cfg True "\<lambda>_. 0"]
      net_example_ok pl_example_shows st by (auto simp: C_DATA_def C_LAST_def LBUF_LEN_MAX_def)
  moreover from this(2) have "fold_opt (recv_char (\<lambda>_. 0)) (to_sent w' @ pending (pl_iop (to_pl w'))) (client_example False)
      = fold_opt (take_line (\<lambda>_. 0)) [(C_DATA, ''ab'')] (client_example False)"
    by (metis append_Nil fold_opt.simps(1) option.simps(5))
  ultimately show "\<exists>w'. pr_player ?cfg (\<lambda>_. net_example) True C_DATA (''ab'' @ [NL]) ?w = Some w'
    \<and> map_option cl_events (fold_opt (recv_char (\<lambda>_. 0)) (to_sent w' @ pending (pl_iop (to_pl w'))) (client_example False))
      = Some [Outch (CHR ''a''), Outch (CHR ''b''), Outch NL]"
    using t by auto
qed

text \<open>
  C27. Whatever bytes a server sends, the client writes to a file, runs a shell command or reads a batch file only if
  it remembers input of its user that asks for just that: the operator for the way the file is opened (\<open>>>\<close> to append, \<open>>!\<close> to
  truncate, \<open>>\<close> to create) with the file name, a whole word; the operator with the whole
  command to the end of the line; or an \<open>execute\<close> command with the file name on the same or the next
  line. A restricted client does none of it. (Until \<open>2 ^ 32\<close> bytes of input have been sent, and up to the first
  request without a name, where \<open>fname\<close> leaves its string.)
\<close>

theorem client_only_obeys_input:
  assumes "ring_ok (cl_recent cl)" "unwrapped (cl_recent cl)" "fold_opt (recv_char opened) buf cl = Some cl'"
  shows "cl_recent cl' = cl_recent cl \<and> (\<exists>es. cl_events cl' = cl_events cl @ es \<and>
    (\<forall>e \<in> set es. typed (held (cl_recent cl)) e \<and> (cl_restricted cl \<longrightarrow> local_event e)))"
  using recv_adds [OF assms] unfolding adds_def obeyed_def by blast

text \<open>A client whose user has typed a redirection.\<close>

definition client_typed :: client where
  "client_typed = (client_example False)\<lparr>cl_recent :=
     \<lparr>r_cons = 0, r_prod = 4, r_buf = ''>>x'' @ [NL] @ replicate (RING_SIZE - 4) (CHR 0x00)\<rparr>\<rparr>"

lemma client_typed_ok: "scanning client_typed" "ring_ok (cl_recent client_typed)" "unwrapped (cl_recent client_typed)"
    "held (cl_recent client_typed) = ''>>x'' @ [NL]"
  by (simp_all add: client_typed_def scanning_def client_example_def ring_ok_def unwrapped_def held_len_def held_def RING_SIZE_def
      word_le_nat_alt upt_rec)

theorem client_only_obeys_input_witness:
  "\<exists>cl'. fold_opt (recv_char (\<lambda>_. 0)) (id_char C_REDIR # '' >>x'' @ [NL]) client_typed = Some cl'
     \<and> cl_events cl' = [Redirect ''x'' ''append''] \<and> typed (''>>x'' @ [NL]) (Redirect ''x'' ''append'')"
proof -
  let ?cl = "client_typed"
  have "occurs (''>>x'' @ [NL]) (cl_recent ?cl) 0" by (simp add: occurs_def client_typed_ok)
  then have "ring_search (cl_recent ?cl) (''>>x'' @ [NL]) 0 \<ge> 0"
    using search_held [OF client_typed_ok(2,3), of "''>>x'' @ [NL]" 0] by auto
  then have s: "seen_input (''>>x'' @ [NL]) (cl_recent ?cl) = Some True" by (simp add: seen_input_def)
  have n: "cstr (''>>x'' @ [NL]) = ''>>x'' @ [NL]" "fname (CHR ''x'' # [NL]) = Some ''x''"
    by (simp_all add: cstr_def fname_def isspace_def)
  have "id_char C_REDIR # '' >>x'' @ [NL] = enc ([(C_REDIR, ''>>x'')], None)" by (simp add: enc_def enc_line_def)
  moreover have "take_line (\<lambda>_. 0) (C_REDIR, ''>>x'') ?cl
      = Some (?cl\<lparr>cl_id := C_REDIR, cl_redir := True, cl_events := [Redirect ''x'' ''append'']\<rparr>)"
    using s n by (simp add: take_line_def servercmd_def buffered_ids_def C_DATA_def C_PROMPT_def C_FLUSH_def C_EXECUTE_def C_EXIT_def
        C_FLASH_def C_INFORM_def C_PIPE_def C_REDIR_def doredir_def redir_authorized_def common_authorized_def emit_def
        after_cmd_def client_typed_def client_example_def)
  ultimately have e: "fold_opt (recv_char (\<lambda>_. 0)) (id_char C_REDIR # '' >>x'' @ [NL]) ?cl
      = Some (?cl\<lparr>cl_id := C_REDIR, cl_redir := True, cl_events := [Redirect ''x'' ''append'']\<rparr>)"
    using lines_taken [OF client_typed_ok(1), of "[(C_REDIR, ''>>x'')]" "\<lambda>_. 0"]
    by (simp add: C_REDIR_def C_LAST_def LBUF_LEN_MAX_def)
  have "cl_events ?cl = []" by (simp add: client_typed_def client_example_def)
  then show ?thesis using client_only_obeys_input [OF client_typed_ok(2,3) e] e client_typed_ok(4) by auto
qed

text \<open>
  \<open>sendcmd\<close> sends the wrong bytes when the first \<open>write\<close> takes only a part of them: it starts over at the start of the buffer.
\<close>

lemma sendcmd_resends: "sendcmd [3, 5] ''pass'' (Some ''xy'') = Some ''paspass '' \<and> sendcmd [8] ''pass'' (Some ''xy'') = Some (''pass xy'' @ [NL])"
  by (simp add: sendcmd_def eval_nat_numeral)

text \<open>
  A line of more than \<open>RING_SIZE\<close> bytes without a newline makes \<open>save_input\<close>'s assertion fail.
\<close>

lemma save_input_long_line: "ring_ok r \<Longrightarrow> unwrapped r \<Longrightarrow> length (held r) = RING_SIZE \<Longrightarrow> NL \<notin> set (held r) \<Longrightarrow> save_input c r = None"
  using save_input_held [of r c] by simp
end
