(* ===== verification/Lwp.thy ===== *)
theory Lwp
  imports Prelude
begin

text \<open>
  The server's cooperative threads, \<open>src/lib/lwp/\<close>: the queues of threads (\<open>queue.c\<close>), the scheduler (\<open>lwp.c\<close>),
  sleeping on a file descriptor or until a time with the thread that selects (\<open>sel.c\<close>), waiting for signals
  (\<open>sig.c\<close>), and read-write locks (\<open>rwlock.c\<close>).

  A thread is the address of its \<open>struct lwpProc\<close>, queues are linked through the threads' \<open>next\<close>. A thread
  runs until it calls \<open>lwpReschedule\<close>; where it goes on when it is next switched to is its \<open>pc\<close>. A step runs the
  current thread up to its next \<open>lwpReschedule\<close> or return: an operation called by code outside this
  directory (\<open>pc\<close> is \<open>User\<close>), or the rest of the one that blocked. None is an \<open>abort\<close> or \<open>exit\<close>. The time, the result
  of \<open>select\<close> and the address \<open>malloc\<close> gives are parameters of a step. Contexts, stacks and status output are left out.
\<close>

section \<open>State\<close>

definition LWP_MAX_PRIO :: nat where "LWP_MAX_PRIO = 8"
definition FD_SETSIZE :: int where "FD_SETSIZE = 1024"

datatype pc = User | In_sleep_fd | In_sleep_until | In_wrlock nat | In_rdlock nat | In_sig_wait | Selecting

record lwpProc =
  pr_next :: "nat option"
  pr_dead :: bool
  pr_pri :: nat
  pr_runtime :: int
  pr_fd :: int
  pr_fd_ready :: bool
  pr_pc :: pc

datatype queue_id = SchedQ nat | DeadQ | DelayQ | SaveQ | Rq nat | Wq nat

record lwpQueue =
  q_head :: "nat option"
  q_tail :: "nat option"

text \<open>
  \<open>l_live\<close> are the threads created and not destroyed. \<open>l_oops\<close> is set by \<open>CANT_HAPPEN\<close> in the locks. \<open>l_readers\<close> and
  \<open>l_writers\<close> are history: the threads that have acquired a lock and not released it.
\<close>

record lwp =
  l_proc :: "nat \<Rightarrow> lwpProc"
  l_queue :: "queue_id \<Rightarrow> lwpQueue"
  l_current :: nat
  l_maxpri :: nat
  l_live :: "nat set"
  l_maxfd :: int
  l_nfds :: int
  l_readfds :: "int set"
  l_writefds :: "int set"
  l_fdwait :: "int \<Rightarrow> nat option"
  l_selproc :: nat
  l_awaited :: "int list"
  l_pending :: "bool list"
  l_sigcheck :: bool
  l_sigwaiter :: "nat option"
  l_count :: "nat \<Rightarrow> int"
  l_oops :: bool
  l_readers :: "nat \<Rightarrow> nat list"
  l_writers :: "nat \<Rightarrow> nat list"

definition upd :: "nat \<Rightarrow> (lwpProc \<Rightarrow> lwpProc) \<Rightarrow> lwp \<Rightarrow> lwp" where
  "upd p g st = st\<lparr>l_proc := (l_proc st)(p := g (l_proc st p))\<rparr>"

definition goes_on :: "pc \<Rightarrow> lwp \<Rightarrow> lwp" where
  "goes_on k st = upd (l_current st) (pr_pc_update (\<lambda>_. k)) st"

section \<open>Queues\<close>

definition lwpGetFirst :: "queue_id \<Rightarrow> lwp \<Rightarrow> nat option \<times> lwp" where
  "lwpGetFirst q st =
     (let qu = l_queue st q in
      case q_head qu of
        None \<Rightarrow> (None, st)
      | Some h \<Rightarrow>
          let qu = qu\<lparr>q_head := pr_next (l_proc st h)\<rparr>;
              qu = (if q_head qu = None then qu\<lparr>q_tail := None\<rparr> else qu)
          in (Some h, st\<lparr>l_queue := (l_queue st)(q := qu)\<rparr>))"

definition lwpAddTail :: "queue_id \<Rightarrow> nat \<Rightarrow> lwp \<Rightarrow> lwp" where
  "lwpAddTail q p st =
     (let qu = l_queue st q;
          (qu, st) = (case q_tail qu of
                        None \<Rightarrow> (qu\<lparr>q_head := Some p\<rparr>, st)
                      | Some t \<Rightarrow> (qu, upd t (pr_next_update (\<lambda>_. Some p)) st));
          st = st\<lparr>l_queue := (l_queue st)(q := qu\<lparr>q_tail := Some p\<rparr>)\<rparr>
      in upd p (pr_next_update (\<lambda>_. None)) st)"

section \<open>The scheduler\<close>

definition lwpReady :: "nat \<Rightarrow> lwp \<Rightarrow> lwp" where
  "lwpReady p st = lwpAddTail (SchedQ (pr_pri (l_proc st p))) p st"

definition lwpSigWakeup :: "lwp \<Rightarrow> lwp" where
  "lwpSigWakeup st =
     (case l_sigwaiter st of
        None \<Rightarrow> st
      | Some p \<Rightarrow> if l_sigcheck st then (lwpReady p st)\<lparr>l_sigwaiter := None\<rparr> else st)"

definition lwpWakeupFd :: "nat \<Rightarrow> lwp \<Rightarrow> lwp" where
  "lwpWakeupFd p st =
     (let pr = l_proc st p in
      if pr_fd pr < 0 \<or> pr_fd pr > l_maxfd st then st
      else if pr_runtime pr \<noteq> - 1 \<and> pr_runtime pr \<noteq> 0 then upd p (pr_runtime_update (\<lambda>_. - 1)) st
      else lwpReady p (upd p (pr_fd_update (\<lambda>_. - 1))
             (st\<lparr>l_readfds := l_readfds st - {pr_fd pr}, l_writefds := l_writefds st - {pr_fd pr},
                 l_nfds := l_nfds st - 1, l_fdwait := (l_fdwait st)(pr_fd pr := None)\<rparr>)))"

definition wake_or_save :: "int \<Rightarrow> nat \<Rightarrow> lwp \<Rightarrow> lwp" where
  "wake_or_save now p st =
     (if now \<ge> pr_runtime (l_proc st p) then
        let st = (if pr_runtime (l_proc st p) \<noteq> 0 then upd p (pr_runtime_update (\<lambda>_. - 1)) st else st)
        in if pr_fd (l_proc st p) \<ge> 0 then lwpWakeupFd p st else lwpReady p st
      else lwpAddTail SaveQ p st)"

partial_function (option) delay_loop :: "int \<Rightarrow> lwp \<Rightarrow> lwp option" where
  [code]: "delay_loop now st =
     (case lwpGetFirst DelayQ st of
        (None, st) \<Rightarrow> Some st
      | (Some p, st) \<Rightarrow> delay_loop now (wake_or_save now p st))"

definition empty_queue :: lwpQueue where
  "empty_queue = \<lparr>q_head = None, q_tail = None\<rparr>"

text \<open>\<open>save\<close> is a local variable, empty when it is not in use.\<close>

definition lwpWakeupSleep :: "int \<Rightarrow> lwp \<Rightarrow> lwp option" where
  "lwpWakeupSleep now st =
     (if q_head (l_queue st DelayQ) = None then Some st
      else map_option (\<lambda>st. st\<lparr>l_queue := (l_queue st)(DelayQ := l_queue st SaveQ, SaveQ := empty_queue)\<rparr>)
             (delay_loop now (st\<lparr>l_queue := (l_queue st)(SaveQ := empty_queue)\<rparr>)))"

definition lwpDestroy :: "nat \<Rightarrow> lwp \<Rightarrow> lwp" where
  "lwpDestroy p st = st\<lparr>l_live := l_live st - {p}\<rparr>"

partial_function (option) bury_loop :: "lwp \<Rightarrow> lwp option" where
  [code]: "bury_loop st =
     (case lwpGetFirst DeadQ st of
        (None, st) \<Rightarrow> Some st
      | (Some p, st) \<Rightarrow> if p = l_current st then None else bury_loop (lwpDestroy p st))"

partial_function (option) first_alive :: "nat \<Rightarrow> lwp \<Rightarrow> (nat option \<times> lwp) option" where
  [code]: "first_alive i st =
     (case lwpGetFirst (SchedQ i) st of
        (None, st) \<Rightarrow> Some (None, st)
      | (Some p, st) \<Rightarrow>
          if \<not> pr_dead (l_proc st p) then Some (Some p, st)
          else first_alive i (if p = l_current st then lwpAddTail DeadQ p st else lwpDestroy p st))"

fun next_thread :: "nat \<Rightarrow> lwp \<Rightarrow> (nat option \<times> lwp) option" where
  "next_thread 0 st = Some (None, st)"
| "next_thread (Suc i) st =
     (case first_alive i st of
        None \<Rightarrow> None
      | Some (Some p, st) \<Rightarrow> Some (Some p, st)
      | Some (None, st) \<Rightarrow> next_thread i st)"

definition lwpReschedule :: "int \<Rightarrow> lwp \<Rightarrow> lwp option" where
  "lwpReschedule now st =
     (case lwpWakeupSleep now (lwpSigWakeup st) of
        None \<Rightarrow> None
      | Some st \<Rightarrow>
         (case bury_loop st of
            None \<Rightarrow> None
          | Some st \<Rightarrow>
             (case next_thread (l_maxpri st + 1) st of
                None \<Rightarrow> None
              | Some (None, st) \<Rightarrow> None
              | Some (Some p, st) \<Rightarrow> Some (st\<lparr>l_current := p\<rparr>))))"

definition lwpYield :: "int \<Rightarrow> lwp \<Rightarrow> lwp option" where
  "lwpYield now st = lwpReschedule now (lwpReady (l_current st) st)"

definition lwpExit :: "int \<Rightarrow> lwp \<Rightarrow> lwp option" where
  "lwpExit now st = lwpYield now (upd (l_current st) (pr_dead_update (\<lambda>_. True)) st)"

text \<open>\<open>got\<close> is the address \<open>malloc\<close> gave the new thread, \<open>stack\<close> says whether there was memory for its stack.\<close>

definition lwpCreate :: "int \<Rightarrow> nat \<Rightarrow> pc \<Rightarrow> nat option \<Rightarrow> bool \<Rightarrow> lwp \<Rightarrow> lwp option" where
  "lwpCreate now priority entry got stack st =
     (case got of
        None \<Rightarrow> Some st
      | Some p \<Rightarrow>
          let priority = (if LWP_MAX_PRIO \<le> priority then LWP_MAX_PRIO - 1 else priority);
              st = (if l_maxpri st < priority then st\<lparr>l_maxpri := priority\<rparr> else st)
          in if \<not> stack then Some st
             else let st = upd p (\<lambda>_. \<lparr>pr_next = None, pr_dead = False, pr_pri = priority, pr_runtime = - 1, pr_fd = - 1,
                                       pr_fd_ready = False, pr_pc = entry\<rparr>) (st\<lparr>l_live := insert p (l_live st)\<rparr>)
                  in lwpReschedule now (lwpReady (l_current st) (lwpReady p st)))"

definition lwpSetPriority :: "int \<Rightarrow> nat \<Rightarrow> lwp \<Rightarrow> lwp option" where
  "lwpSetPriority now new st =
     (let old = pr_pri (l_proc st (l_current st));
          new = (if LWP_MAX_PRIO \<le> new then LWP_MAX_PRIO - 1 else new);
          st = (if l_maxpri st < new then st\<lparr>l_maxpri := new\<rparr> else st);
          st = upd (l_current st) (pr_pri_update (\<lambda>_. new)) st
      in if new < old then lwpYield now st else Some st)"


section \<open>Sleeping\<close>

text \<open>The thread that selects is woken when it waits for a first sleeper.\<close>

definition wake_selector :: "lwp \<Rightarrow> lwp" where
  "wake_selector st =
     (if l_maxfd st = 0 \<and> q_head (l_queue st DelayQ) = None then lwpReady (l_selproc st) st else st)"

definition mask_fds :: "int \<Rightarrow> bool \<times> bool \<Rightarrow> lwp \<Rightarrow> lwp" where
  "mask_fds fd rw st =
     (let st = (if fst rw then st\<lparr>l_readfds := insert fd (l_readfds st)\<rparr> else st);
          st = (if snd rw then st\<lparr>l_writefds := insert fd (l_writefds st)\<rparr> else st)
      in st\<lparr>l_nfds := l_nfds st + 1\<rparr>)"

text \<open>
  \<open>rw\<close> are the bits \<open>LWP_FD_READ\<close> and \<open>LWP_FD_WRITE\<close>, \<open>timeout\<close> its seconds, rounded up. A failure, with \<open>errno\<close>
  \<open>EBADF\<close>, leaves the state alone.
\<close>

definition lwpSleepFd :: "int \<Rightarrow> int \<Rightarrow> bool \<times> bool \<Rightarrow> int option \<Rightarrow> lwp \<Rightarrow> lwp option" where
  "lwpSleepFd now fd rw timeout st =
     (if fd < 0 \<or> fd \<ge> FD_SETSIZE then Some st
      else if l_fdwait st fd \<noteq> None then Some st
      else let cur = l_current st;
               st = wake_selector (mask_fds fd rw st);
               st = (case timeout of
                       Some t \<Rightarrow> lwpAddTail DelayQ cur (upd cur (pr_runtime_update (\<lambda>_. now + t)) st)
                     | None \<Rightarrow> upd cur (pr_runtime_update (\<lambda>_. - 1)) st);
               st = (if fd > l_maxfd st then st\<lparr>l_maxfd := fd\<rparr> else st);
               st = st\<lparr>l_fdwait := (l_fdwait st)(fd := Some cur)\<rparr>;
               st = upd cur (\<lambda>pr. pr\<lparr>pr_fd := fd, pr_fd_ready := False\<rparr>) st
           in lwpReschedule now (goes_on In_sleep_fd st))"

definition lwpWakeup :: "int \<Rightarrow> nat \<Rightarrow> lwp \<Rightarrow> lwp option" where
  "lwpWakeup now p st =
     (let pr = l_proc st p;
          st = (if pr_fd pr \<ge> 0 then lwpWakeupFd p st
                else if pr_runtime pr \<noteq> - 1 then upd p (pr_runtime_update (\<lambda>_. 0)) st else st)
      in lwpWakeupSleep now st)"

definition lwpTerminate :: "int \<Rightarrow> nat \<Rightarrow> lwp \<Rightarrow> lwp option" where
  "lwpTerminate now p st = lwpWakeup now p (upd p (pr_dead_update (\<lambda>_. True)) st)"

definition lwpSleepUntil :: "int \<Rightarrow> int \<Rightarrow> lwp \<Rightarrow> lwp option" where
  "lwpSleepUntil now until st =
     (let cur = l_current st;
          st = upd cur (pr_runtime_update (\<lambda>_. until)) st;
          st = wake_selector st
      in lwpReschedule now (goes_on In_sleep_until (lwpAddTail DelayQ cur st)))"

text \<open>What \<open>lwpSleepUntil\<close> returns, and leaves behind, when the thread goes on.\<close>

definition slept_until :: "lwp \<Rightarrow> int \<times> lwp" where
  "slept_until st =
     (let cur = l_current st
      in (if pr_runtime (l_proc st cur) \<noteq> 0 then 0 else - 1, upd cur (pr_runtime_update (\<lambda>_. - 1)) st))"

text \<open>The \<open>for\<close> loop of \<open>lwpSelect\<close>; \<open>ready\<close> are the two sets \<open>select\<close> left.\<close>

definition fd_activity :: "int set \<times> int set \<Rightarrow> nat \<Rightarrow> lwp \<Rightarrow> lwp option" where
  "fd_activity ready i st =
     Some (case l_fdwait st (int i) of
             None \<Rightarrow> st
           | Some p \<Rightarrow>
               if int i \<in> fst ready \<or> int i \<in> snd ready
               then lwpWakeupFd p (upd p (pr_fd_ready_update (\<lambda>_. True)) st) else st)"

text \<open>\<open>res\<close> is what \<open>select\<close> gave: an error, whether it is \<open>EINTR\<close>, or how many file descriptors are ready.\<close>

definition lwpSelect_body :: "int \<Rightarrow> bool + int \<Rightarrow> int set \<times> int set \<Rightarrow> lwp \<Rightarrow> lwp option" where
  "lwpSelect_body now res ready st =
     (let us = l_current st in
      if l_nfds st = 0 \<and> q_head (l_queue st DelayQ) = None then lwpReschedule now (st\<lparr>l_maxfd := 0\<rparr>)
      else case res of
             Inl eintr \<Rightarrow> if eintr then lwpReschedule now (lwpReady us st) else None
           | Inr n \<Rightarrow>
               Option.bind (if n > 0 then fold_opt (fd_activity ready) [0..<nat (l_maxfd st + 1)] st else Some st)
                 (\<lambda>st. Option.bind (lwpWakeupSleep now st) (\<lambda>st. lwpReschedule now (lwpReady us st))))"

section \<open>Signals\<close>

definition lwpHandleAwaitedSig :: "int \<Rightarrow> lwp \<Rightarrow> lwp" where
  "lwpHandleAwaitedSig sig st =
     st\<lparr>l_pending := map (\<lambda>(a, pend). a = sig \<or> pend) (zip (l_awaited st) (l_pending st)), l_sigcheck := True\<rparr>"

text \<open>
  Its second loop starts where the first has ended, at the end of the arrays, and so does nothing; \<open>beyond\<close> is what
  it finds there, behind the end of \<open>LwpPendingSig\<close>.
\<close>

definition lwpGetSig :: "bool \<Rightarrow> lwp \<Rightarrow> int \<times> lwp" where
  "lwpGetSig beyond st =
     (let got = filter snd (zip (l_awaited st) (l_pending st));
          ret = (if got = [] then 0 else fst (last got));
          st = st\<lparr>l_pending := map (\<lambda>_. False) (l_pending st)\<rparr>
      in (ret, if \<not> beyond then st\<lparr>l_sigcheck := False\<rparr> else st))"

definition sig_loop :: "int \<Rightarrow> bool \<Rightarrow> lwp \<Rightarrow> lwp option" where
  "sig_loop now beyond st =
     (case lwpGetSig beyond st of (res, st) \<Rightarrow>
        if res > 0 then Some (goes_on User st)
        else lwpReschedule now (goes_on In_sig_wait (st\<lparr>l_sigwaiter := Some (l_current st)\<rparr>)))"

definition lwpSigWait :: "int \<Rightarrow> bool \<Rightarrow> lwp \<Rightarrow> lwp option" where
  "lwpSigWait now beyond st = (if l_sigwaiter st \<noteq> None then Some st else sig_loop now beyond st)"

section \<open>Read-write locks\<close>

text \<open>What \<open>lwp_rwlock_wrlock\<close> and \<open>lwp_rwlock_rdlock\<close> do when they need not wait, or have waited.\<close>

definition got_wrlock :: "nat \<Rightarrow> lwp \<Rightarrow> lwp" where
  "got_wrlock l st =
     goes_on User (st\<lparr>l_oops := l_oops st \<or> l_count st l \<noteq> 0, l_count := (l_count st)(l := - 1),
       l_writers := (l_writers st)(l := l_current st # l_writers st l)\<rparr>)"

definition got_rdlock :: "nat \<Rightarrow> lwp \<Rightarrow> lwp" where
  "got_rdlock l st =
     goes_on User (st\<lparr>l_oops := l_oops st \<or> l_count st l < 0, l_count := (l_count st)(l := l_count st l + 1),
       l_readers := (l_readers st)(l := l_current st # l_readers st l)\<rparr>)"

definition lwp_rwlock_wrlock :: "int \<Rightarrow> nat \<Rightarrow> lwp \<Rightarrow> lwp option" where
  "lwp_rwlock_wrlock now l st =
     (if l_count st l \<noteq> 0 then lwpReschedule now (goes_on (In_wrlock l) (lwpAddTail (Wq l) (l_current st) st))
      else Some (got_wrlock l st))"

definition lwp_rwlock_rdlock :: "int \<Rightarrow> nat \<Rightarrow> lwp \<Rightarrow> lwp option" where
  "lwp_rwlock_rdlock now l st =
     (if l_count st l < 0 \<or> q_head (l_queue st (Wq l)) \<noteq> None
      then lwpReschedule now (goes_on (In_rdlock l) (lwpAddTail (Rq l) (l_current st) st))
      else Some (got_rdlock l st))"

partial_function (option) wake_readers :: "nat \<Rightarrow> nat \<Rightarrow> lwp \<Rightarrow> (nat \<times> lwp) option" where
  [code]: "wake_readers l maxpri st =
     (case lwpGetFirst (Rq l) st of
        (None, st) \<Rightarrow> Some (maxpri, st)
      | (Some p, st) \<Rightarrow> wake_readers l (max maxpri (pr_pri (l_proc st p))) (lwpReady p st))"

text \<open>The threads to wake: the largest priority of them and the state, nothing when there are none.\<close>

definition wake_next :: "nat \<Rightarrow> lwp \<Rightarrow> ((nat \<times> lwp) option) option" where
  "wake_next l st =
     (if l_count st l = 0 \<and> q_head (l_queue st (Wq l)) \<noteq> None then
        (case lwpGetFirst (Wq l) st of
           (None, st) \<Rightarrow> None
         | (Some p, st) \<Rightarrow> Some (Some (pr_pri (l_proc st p), lwpReady p st)))
      else if l_count st l \<ge> 0 \<and> q_head (l_queue st (Rq l)) \<noteq> None \<and> q_head (l_queue st (Wq l)) = None
      then map_option Some (wake_readers l 0 st)
      else Some None)"

definition lwp_rwlock_unlock :: "int \<Rightarrow> nat \<Rightarrow> lwp \<Rightarrow> lwp option" where
  "lwp_rwlock_unlock now l st =
     (if l_count st l = 0 then Some (st\<lparr>l_oops := True\<rparr>)
      else let cur = l_current st;
               st = st\<lparr>l_count := (l_count st)(l := if l_count st l < 0 then 0 else l_count st l - 1),
                       l_readers := (l_readers st)(l := remove1 cur (l_readers st l)),
                       l_writers := (l_writers st)(l := remove1 cur (l_writers st l))\<rparr>
           in case wake_next l st of
                None \<Rightarrow> None
              | Some None \<Rightarrow> Some st
              | Some (Some (maxpri, st)) \<Rightarrow> if pr_pri (l_proc st cur) < maxpri then lwpYield now st else Some st)"

section \<open>Steps\<close>

text \<open>
  What a thread outside this directory may call. It creates threads with a priority, at an address not in use; sleeps to a time
  that is positive; wakes a thread that exists, and is not the main thread before this has slept on a file descriptor;
  waits for signals only when no other thread does; and unlocks what it holds, but may lock again what it holds.
  One call that the server makes is left out, because what it does is wrong: \<open>lwpSleepUntil\<close> in the main thread,
  with which \<open>main.c\<close> waits for the players at the end. \<open>lwpInitSystem\<close> leaves that thread's \<open>fd\<close> 0, not -1, so waking it counts
  a sleeper on file descriptor 0 off \<open>l_nfds\<close> that has never been counted. \<open>lwpTerminate\<close>, which nothing calls, is left out too.
\<close>

datatype call = Yield | Exit | Create nat "nat option" bool | Sleep_fd int "bool \<times> bool" "int option" | Sleep_until int
  | Wakeup nat | Sig_wait bool | Wrlock nat | Rdlock nat | Unlock nat | Set_priority nat

definition allowed :: "int \<Rightarrow> call \<Rightarrow> lwp \<Rightarrow> bool" where
  "allowed now c st =
     (case c of
        Create pri got stack \<Rightarrow> pri > 0 \<and> (case got of None \<Rightarrow> True | Some p \<Rightarrow> p \<notin> l_live st)
      | Sleep_fd fd rw t \<Rightarrow> (case t of None \<Rightarrow> True | Some d \<Rightarrow> d \<ge> 0)
      | Sleep_until until \<Rightarrow> until > 0 \<and> pr_fd (l_proc st (l_current st)) < 0
      | Wakeup p \<Rightarrow> p \<in> l_live st \<and> (pr_fd (l_proc st p) < 0 \<or> l_fdwait st (pr_fd (l_proc st p)) = Some p)
      | Sig_wait beyond \<Rightarrow> (\<forall>p \<in> l_live st. pr_pc (l_proc st p) \<noteq> In_sig_wait)
      | Unlock l \<Rightarrow> l_current st \<in> set (l_readers st l @ l_writers st l)
      | Set_priority pri \<Rightarrow> pri > 0
      | _ \<Rightarrow> True)"

definition do_call :: "int \<Rightarrow> call \<Rightarrow> lwp \<Rightarrow> lwp option" where
  "do_call now c st =
     (case c of
        Yield \<Rightarrow> lwpYield now st
      | Exit \<Rightarrow> lwpExit now st
      | Create pri got stack \<Rightarrow> lwpCreate now pri User got stack st
      | Sleep_fd fd rw t \<Rightarrow> lwpSleepFd now fd rw t st
      | Sleep_until until \<Rightarrow> lwpSleepUntil now until st
      | Wakeup p \<Rightarrow> lwpWakeup now p st
      | Sig_wait beyond \<Rightarrow> lwpSigWait now beyond st
      | Wrlock l \<Rightarrow> lwp_rwlock_wrlock now l st
      | Rdlock l \<Rightarrow> lwp_rwlock_rdlock now l st
      | Unlock l \<Rightarrow> lwp_rwlock_unlock now l st
      | Set_priority pri \<Rightarrow> lwpSetPriority now pri st)"

text \<open>The rest of the operation in which the current thread was switched out.\<close>

definition resume :: "int \<Rightarrow> bool + int \<Rightarrow> int set \<times> int set \<Rightarrow> bool \<Rightarrow> lwp \<Rightarrow> lwp option" where
  "resume now res ready beyond st =
     (case pr_pc (l_proc st (l_current st)) of
        User \<Rightarrow> None
      | In_sleep_fd \<Rightarrow> Some (goes_on User st)
      | In_sleep_until \<Rightarrow> Some (goes_on User (snd (slept_until st)))
      | In_wrlock l \<Rightarrow> Some (got_wrlock l st)
      | In_rdlock l \<Rightarrow> Some (got_rdlock l st)
      | In_sig_wait \<Rightarrow> sig_loop now beyond st
      | Selecting \<Rightarrow> lwpSelect_body now res ready st)"

inductive lwp_step :: "lwp \<Rightarrow> lwp \<Rightarrow> bool" where
  call: "pr_pc (l_proc st (l_current st)) = User \<Longrightarrow> now > 0 \<Longrightarrow> allowed now c st \<Longrightarrow> do_call now c st = Some st' \<Longrightarrow> lwp_step st st'"
| resume: "pr_pc (l_proc st (l_current st)) \<noteq> User \<Longrightarrow> now > 0 \<Longrightarrow> resume now res ready beyond st = Some st' \<Longrightarrow> lwp_step st st'"
| signal: "lwp_step st (lwpHandleAwaitedSig sig st)"

text \<open>\<open>lwpInitSystem\<close>: the main thread and the one that selects, at the addresses \<open>main\<close> and \<open>sel\<close>.\<close>

definition lwpInitSystem :: "int \<Rightarrow> nat \<Rightarrow> nat \<Rightarrow> nat \<Rightarrow> int list \<Rightarrow> lwp option" where
  "lwpInitSystem now pri main sel sigs =
     (let pri = (if pri < 1 then 1 else pri);
          pri = (if LWP_MAX_PRIO \<le> pri then LWP_MAX_PRIO - 1 else pri);
          pr = \<lparr>pr_next = None, pr_dead = False, pr_pri = pri, pr_runtime = 0, pr_fd = 0, pr_fd_ready = False, pr_pc = User\<rparr>
      in lwpCreate now 0 Selecting (Some sel) True
           \<lparr>l_proc = (\<lambda>_. pr), l_queue = (\<lambda>_. empty_queue), l_current = main, l_maxpri = max 0 pri, l_live = {main},
            l_maxfd = 0, l_nfds = 0, l_readfds = {}, l_writefds = {}, l_fdwait = (\<lambda>_. None), l_selproc = sel, l_awaited = sigs,
            l_pending = map (\<lambda>_. False) sigs, l_sigcheck = False, l_sigwaiter = None, l_count = (\<lambda>_. 0), l_oops = False,
            l_readers = (\<lambda>_. []), l_writers = (\<lambda>_. [])\<rparr>)"

inductive lwp_reachable :: "lwp \<Rightarrow> bool" where
  start: "lwpInitSystem now pri main sel sigs = Some st \<Longrightarrow> main \<noteq> sel \<Longrightarrow> now > 0 \<Longrightarrow> lwp_reachable st"
| step: "lwp_reachable st \<Longrightarrow> lwp_step st st' \<Longrightarrow> lwp_reachable st'"

inductive_cases stepE: "lwp_step st st'"

section \<open>Queues are lists\<close>

fun linked :: "(nat \<Rightarrow> lwpProc) \<Rightarrow> nat list \<Rightarrow> bool" where
  "linked pr [] \<longleftrightarrow> True"
| "linked pr [x] \<longleftrightarrow> pr_next (pr x) = None"
| "linked pr (x # y # ys) \<longleftrightarrow> pr_next (pr x) = Some y \<and> linked pr (y # ys)"

definition is_queue :: "(nat \<Rightarrow> lwpProc) \<Rightarrow> lwpQueue \<Rightarrow> nat list \<Rightarrow> bool" where
  "is_queue pr qu xs \<longleftrightarrow> q_head qu = (if xs = [] then None else Some (hd xs)) \<and>
     q_tail qu = (if xs = [] then None else Some (last xs)) \<and> linked pr xs"

text \<open>The queues represent the lists \<open>f\<close>, and no thread is in two places.\<close>

definition rep :: "lwp \<Rightarrow> (queue_id \<Rightarrow> nat list) \<Rightarrow> bool" where
  "rep st f \<longleftrightarrow> (\<forall>q. is_queue (l_proc st) (l_queue st q) (f q)) \<and> (\<forall>q. distinct (f q)) \<and>
     (\<forall>q q'. q \<noteq> q' \<longrightarrow> set (f q) \<inter> set (f q') = {})"

lemma linked_next: "\<forall>x \<in> set xs. pr_next (pr' x) = pr_next (pr x) \<Longrightarrow> linked pr' xs = linked pr xs"
  by (induction pr xs rule: linked.induct) auto

lemma linked_snoc:
  "linked pr xs \<Longrightarrow> xs \<noteq> [] \<Longrightarrow> distinct (xs @ [p]) \<Longrightarrow> pr_next (pr' (last xs)) = Some p \<Longrightarrow> pr_next (pr' p) = None \<Longrightarrow>
    \<forall>x. x \<noteq> last xs \<longrightarrow> x \<noteq> p \<longrightarrow> pr_next (pr' x) = pr_next (pr x) \<Longrightarrow> linked pr' (xs @ [p])"
proof (induction pr xs rule: linked.induct)
  case (3 pr x y ys)
  have "x \<noteq> last (y # ys)" "x \<noteq> p" using 3(4) by (auto dest: last_in_set)
  then show ?case using 3 by auto
qed auto

lemma linked_tl: "linked pr (x # xs) \<Longrightarrow> linked pr xs \<and> pr_next (pr x) = (if xs = [] then None else Some (hd xs))"
  by (cases xs) auto

lemma rep_cong: "rep st f \<Longrightarrow> \<forall>p. pr_next (l_proc st' p) = pr_next (l_proc st p) \<Longrightarrow> l_queue st' = l_queue st \<Longrightarrow> rep st' f"
  unfolding rep_def is_queue_def using linked_next by metis

lemma rep_head: "rep st f \<Longrightarrow> q_head (l_queue st q) = (if f q = [] then None else Some (hd (f q)))"
  by (simp add: rep_def is_queue_def)

lemma get_first_rep:
  assumes "rep st f"
  shows "case f q of [] \<Rightarrow> lwpGetFirst q st = (None, st)
    | x # xs \<Rightarrow> \<exists>Q. lwpGetFirst q st = (Some x, st\<lparr>l_queue := Q\<rparr>) \<and> rep (st\<lparr>l_queue := Q\<rparr>) (f(q := xs))"
proof (cases "f q")
  case Nil
  then show ?thesis using rep_head [OF assms, of q] by (simp add: lwpGetFirst_def)
next
  case (Cons x xs)
  have q: "is_queue (l_proc st) (l_queue st q) (x # xs)" using assms Cons unfolding rep_def by metis
  then have n: "pr_next (l_proc st x) = (if xs = [] then None else Some (hd xs))" "linked (l_proc st) xs"
    using linked_tl unfolding is_queue_def by blast+
  define qu where "qu = (if pr_next (l_proc st x) = None then (l_queue st q)\<lparr>q_head := None, q_tail := None\<rparr> else (l_queue st q)\<lparr>q_head := pr_next (l_proc st x)\<rparr>)"
  have "is_queue (l_proc st) qu xs" using q n by (cases xs) (auto simp: is_queue_def qu_def)
  then have "rep (st\<lparr>l_queue := (l_queue st)(q := qu)\<rparr>) (f(q := xs))"
    using assms Cons unfolding rep_def by (auto, (metis distinct.simps(2)), (metis Int_iff empty_iff insert_iff list.simps(15))+)
  moreover have "lwpGetFirst q st = (Some x, st\<lparr>l_queue := (l_queue st)(q := qu)\<rparr>)"
    using q by (auto simp: lwpGetFirst_def is_queue_def qu_def Let_def)
  ultimately show ?thesis using Cons by auto
qed

lemma add_tail_fields [simp]:
  "l_current (lwpAddTail q p st) = l_current st"
  "l_maxpri (lwpAddTail q p st) = l_maxpri st"
  "l_live (lwpAddTail q p st) = l_live st"
  "l_maxfd (lwpAddTail q p st) = l_maxfd st"
  "l_nfds (lwpAddTail q p st) = l_nfds st"
  "l_readfds (lwpAddTail q p st) = l_readfds st"
  "l_writefds (lwpAddTail q p st) = l_writefds st"
  "l_fdwait (lwpAddTail q p st) = l_fdwait st"
  "l_selproc (lwpAddTail q p st) = l_selproc st"
  "l_awaited (lwpAddTail q p st) = l_awaited st"
  "l_pending (lwpAddTail q p st) = l_pending st"
  "l_sigcheck (lwpAddTail q p st) = l_sigcheck st"
  "l_sigwaiter (lwpAddTail q p st) = l_sigwaiter st"
  "l_count (lwpAddTail q p st) = l_count st"
  "l_oops (lwpAddTail q p st) = l_oops st"
  "l_readers (lwpAddTail q p st) = l_readers st"
  "l_writers (lwpAddTail q p st) = l_writers st"
  "pr_dead (l_proc (lwpAddTail q p st) y) = pr_dead (l_proc st y)"
  "pr_pri (l_proc (lwpAddTail q p st) y) = pr_pri (l_proc st y)"
  "pr_runtime (l_proc (lwpAddTail q p st) y) = pr_runtime (l_proc st y)"
  "pr_fd (l_proc (lwpAddTail q p st) y) = pr_fd (l_proc st y)"
  "pr_fd_ready (l_proc (lwpAddTail q p st) y) = pr_fd_ready (l_proc st y)"
  "pr_pc (l_proc (lwpAddTail q p st) y) = pr_pc (l_proc st y)"
  by (cases "q_tail (l_queue st q)"; simp add: lwpAddTail_def upd_def Let_def)+

lemma add_tail_rep:
  assumes r: "rep st f" and p: "\<forall>q. p \<notin> set (f q)"
  shows "rep (lwpAddTail q p st) (f(q := f q @ [p]))"
proof -
  let ?st = "lwpAddTail q p st"
  have q: "is_queue (l_proc st) (l_queue st q) (f q)" "distinct (f q)" using r unfolding rep_def by blast+
  have others: "l_queue ?st q' = l_queue st q'" if "q' \<noteq> q" for q'
    using that by (cases "q_tail (l_queue st q)") (simp_all add: lwpAddTail_def upd_def Let_def)
  have nx: "pr_next (l_proc ?st x) = (if x = p then None else if f q \<noteq> [] \<and> x = last (f q) then Some p else pr_next (l_proc st x))" for x
    using q(1) by (cases "f q = []") (auto simp: is_queue_def lwpAddTail_def upd_def Let_def)
  have "is_queue (l_proc ?st) (l_queue ?st q') ((f(q := f q @ [p])) q')" for q'
  proof (cases "q' = q")
    case False
    have "\<forall>x \<in> set (f q'). pr_next (l_proc ?st x) = pr_next (l_proc st x)"
      using r p False last_in_set [of "f q"] unfolding rep_def nx by (metis disjoint_iff)
    then have "linked (l_proc ?st) (f q') = linked (l_proc st) (f q')" by (rule linked_next)
    then show ?thesis using r False others unfolding rep_def is_queue_def by simp
  next
    case True
    have "linked (l_proc ?st) (f q @ [p])"
    proof (cases "f q = []")
      case False
      have "last (f q) \<noteq> p" using p last_in_set [OF False] by metis
      then show ?thesis using q p False nx unfolding is_queue_def by (intro linked_snoc [of "l_proc st"]) auto
    qed (simp add: nx)
    moreover have "q_head (l_queue ?st q) = Some (hd (f q @ [p])) \<and> q_tail (l_queue ?st q) = Some p"
      using q(1) by (cases "f q = []") (auto simp: is_queue_def lwpAddTail_def upd_def Let_def)
    ultimately show ?thesis using True by (simp add: is_queue_def)
  qed
  then show ?thesis using r p unfolding rep_def by auto
qed

text \<open>Adding the thread that is already the last changes nothing.\<close>

lemma add_tail_last:
  assumes r: "rep st f" and q: "f q = xs @ [p]"
  shows "lwpAddTail q p st = st"
proof -
  have i: "q_tail (l_queue st q) = Some p" using r q by (simp add: rep_def is_queue_def)
  have "linked (l_proc st) (xs @ [p]) \<Longrightarrow> pr_next (l_proc st p) = None"
    by (induction xs rule: induct_list012) (auto split: if_splits dest: linked_tl)
  moreover have "linked (l_proc st) (xs @ [p])" using r q unfolding rep_def is_queue_def by metis
  ultimately have n: "(l_proc st p)\<lparr>pr_next := None\<rparr> = l_proc st p" by (cases "l_proc st p") simp
  have "(l_queue st q)\<lparr>q_tail := Some p\<rparr> = l_queue st q" using i by (cases "l_queue st q") simp
  then have "(l_queue st)(q := (l_queue st q)\<lparr>q_tail := Some p\<rparr>) = l_queue st" by (metis fun_upd_triv)
  moreover have "(l_proc st)(p := (l_proc st p)\<lparr>pr_next := None\<rparr>) = l_proc st" unfolding n by (rule fun_upd_triv)
  ultimately show ?thesis using i by (simp add: lwpAddTail_def upd_def Let_def)
qed

section \<open>Where the threads are\<close>

definition sleepers :: "(queue_id \<Rightarrow> nat list) \<Rightarrow> nat set" where
  "sleepers f = set (f DelayQ) \<union> set (f SaveQ)"

definition threads_ok :: "lwp \<Rightarrow> bool" where
  "threads_ok st \<longleftrightarrow> l_selproc st \<in> l_live st \<and> \<not> pr_dead (l_proc st (l_selproc st)) \<and> l_current st \<in> l_live st \<and>
     (\<forall>p \<in> l_live st. (pr_pri (l_proc st p) = 0 \<longleftrightarrow> p = l_selproc st) \<and> (pr_pc (l_proc st p) = Selecting \<longleftrightarrow> p = l_selproc st) \<and>
        (pr_dead (l_proc st p) \<longrightarrow> pr_pc (l_proc st p) = User) \<and> pr_pri (l_proc st p) \<le> l_maxpri st)"

definition queues_ok :: "lwp \<Rightarrow> (queue_id \<Rightarrow> nat list) \<Rightarrow> bool" where
  "queues_ok st f \<longleftrightarrow> (\<forall>q. set (f q) \<subseteq> l_live st) \<and> (\<forall>i. \<forall>p \<in> set (f (SchedQ i)). pr_pri (l_proc st p) = i) \<and>
     (\<forall>p \<in> set (f DeadQ). pr_dead (l_proc st p)) \<and>
     (\<forall>l. \<forall>p \<in> set (f (Wq l)). pr_pc (l_proc st p) = In_wrlock l) \<and> (\<forall>l. \<forall>p \<in> set (f (Rq l)). pr_pc (l_proc st p) = In_rdlock l) \<and>
     (\<forall>p \<in> sleepers f. pr_pc (l_proc st p) \<in> {In_sleep_fd, In_sleep_until} \<and>
        (0 \<le> pr_fd (l_proc st p) \<longrightarrow> l_fdwait st (pr_fd (l_proc st p)) = Some p))"

definition fds_ok :: "lwp \<Rightarrow> (queue_id \<Rightarrow> nat list) \<Rightarrow> bool" where
  "fds_ok st f \<longleftrightarrow> finite (dom (l_fdwait st)) \<and> l_nfds st = int (card (dom (l_fdwait st))) \<and>
     (\<forall>d p. l_fdwait st d = Some p \<longrightarrow> p \<in> l_live st \<and> pr_fd (l_proc st p) = d \<and> 0 \<le> d \<and> d \<le> l_maxfd st \<and>
        pr_pc (l_proc st p) = In_sleep_fd \<and> (p \<in> sleepers f \<or> pr_runtime (l_proc st p) = - 1 \<and> (\<forall>q. p \<notin> set (f q))))"

definition sig_ok :: "lwp \<Rightarrow> (queue_id \<Rightarrow> nat list) \<Rightarrow> bool" where
  "sig_ok st f \<longleftrightarrow> (\<forall>p. l_sigwaiter st = Some p \<longrightarrow> p \<in> l_live st \<and> pr_pc (l_proc st p) = In_sig_wait \<and> (\<forall>q. p \<notin> set (f q)))"

text \<open>The selecting thread sleeps when nobody else does.\<close>

definition idle :: "lwp \<Rightarrow> (queue_id \<Rightarrow> nat list) \<Rightarrow> bool" where
  "idle st f \<longleftrightarrow> l_nfds st = 0 \<and> l_maxfd st = 0 \<and> sleepers f = {}"

definition free :: "lwp \<Rightarrow> (queue_id \<Rightarrow> nat list) \<Rightarrow> nat \<Rightarrow> bool" where
  "free st f p \<longleftrightarrow> (\<forall>q. p \<notin> set (f q)) \<and> (\<forall>d. l_fdwait st d \<noteq> Some p) \<and> l_sigwaiter st \<noteq> Some p"

definition placed :: "lwp \<Rightarrow> (queue_id \<Rightarrow> nat list) \<Rightarrow> nat \<Rightarrow> bool" where
  "placed st f p \<longleftrightarrow> (\<exists>q. p \<in> set (f q)) \<or> (\<exists>d. l_fdwait st d = Some p) \<or> l_sigwaiter st = Some p \<or> p = l_selproc st \<and> idle st f"

text \<open>The threads \<open>X\<close> are in hand, every other one is in its place.\<close>

definition lwp_ok :: "nat set \<Rightarrow> lwp \<Rightarrow> (queue_id \<Rightarrow> nat list) \<Rightarrow> bool" where
  "lwp_ok X st f \<longleftrightarrow> rep st f \<and> threads_ok st \<and> queues_ok st f \<and> fds_ok st f \<and> sig_ok st f \<and>
     (\<forall>p \<in> X. p \<in> l_live st \<and> free st f p) \<and> (\<forall>p \<in> l_live st. p \<in> X \<or> placed st f p)"

lemmas ok_defs = threads_ok_def queues_ok_def fds_ok_def sig_ok_def free_def placed_def sleepers_def idle_def

lemma okD:
  assumes "lwp_ok X st f"
  shows "rep st f" "threads_ok st" "queues_ok st f" "fds_ok st f" "sig_ok st f" "\<And>p. p \<in> X \<Longrightarrow> p \<in> l_live st" "\<And>p. p \<in> X \<Longrightarrow> free st f p"
    "\<And>p. p \<in> l_live st \<Longrightarrow> p \<notin> X \<Longrightarrow> placed st f p"
  using assms unfolding lwp_ok_def by blast+

lemma somewhere_added: "(\<exists>q. x \<in> set ((f(q0 := f q0 @ [p])) q)) \<longleftrightarrow> x = p \<or> (\<exists>q. x \<in> set (f q))"
  by auto

lemma ok_ready:
  assumes o: "lwp_ok X st f" and p: "p \<in> X"
  shows "lwp_ok (X - {p}) (lwpReady p st) (f(SchedQ (pr_pri (l_proc st p)) := f (SchedQ (pr_pri (l_proc st p))) @ [p]))"
    (is "lwp_ok _ ?st ?f")
proof -
  note d = okD [OF o]
  have fr: "\<forall>q. p \<notin> set (f q)" "\<forall>d. l_fdwait st d \<noteq> Some p" "l_sigwaiter st \<noteq> Some p" using d(7) [OF p] by (auto simp: free_def)
  have "rep ?st ?f" unfolding lwpReady_def by (intro add_tail_rep d(1) fr(1))
  moreover have "threads_ok ?st" using d(2) by (simp add: threads_ok_def lwpReady_def)
  moreover have sl: "sleepers ?f = sleepers f" by (simp add: sleepers_def)
  have "queues_ok ?st ?f" using d(3) d(6) [OF p] unfolding queues_ok_def sl by (auto simp: lwpReady_def)
  moreover have "fds_ok ?st ?f" using d(4) fr(2) unfolding fds_ok_def sl by (auto simp: lwpReady_def)
  moreover have "sig_ok ?st ?f" using d(5) fr(3) unfolding sig_ok_def by (auto simp: lwpReady_def)
  moreover have "\<forall>x \<in> X - {p}. x \<in> l_live ?st \<and> free ?st ?f x" using d(6,7) unfolding free_def by (auto simp: lwpReady_def)
  moreover have "placed ?st ?f x" if "x \<in> l_live ?st" "x \<notin> X - {p}" for x
  proof (cases "x = p")
    case True
    then show ?thesis unfolding placed_def by (intro disjI1 exI [of _ "SchedQ (pr_pri (l_proc st p))"]) simp
  next
    case False
    then have "placed st f x" using that d(8) by (simp add: lwpReady_def)
    then show ?thesis unfolding placed_def idle_def sl somewhere_added by (simp add: lwpReady_def)
  qed
  ultimately show ?thesis unfolding lwp_ok_def by blast
qed

text \<open>
  What concerns locks and signals stays as it was: the locks, their queues, and which threads are in one of their
  operations.
\<close>

definition stopped_at :: "lwp \<Rightarrow> pc \<Rightarrow> nat set" where
  "stopped_at st k = {p \<in> l_live st. pr_pc (l_proc st p) = k}"

definition same_locks :: "lwp \<Rightarrow> (queue_id \<Rightarrow> nat list) \<Rightarrow> lwp \<Rightarrow> (queue_id \<Rightarrow> nat list) \<Rightarrow> bool" where
  "same_locks st f st' f' \<longleftrightarrow> l_count st' = l_count st \<and> l_oops st' = l_oops st \<and> l_readers st' = l_readers st \<and> l_writers st' = l_writers st \<and>
     (\<forall>l. f' (Wq l) = f (Wq l) \<and> f' (Rq l) = f (Rq l)) \<and>
     (\<forall>k. k \<notin> {User, In_sleep_fd, In_sleep_until} \<longrightarrow> stopped_at st' k = stopped_at st k)"

lemma same_locks_refl [simp]: "same_locks st f st f"
  by (simp add: same_locks_def)

lemma same_locks_trans: "same_locks st f st' f' \<Longrightarrow> same_locks st' f' st'' f'' \<Longrightarrow> same_locks st f st'' f''"
  unfolding same_locks_def by simp

lemma same_locks_ready: "same_locks st f (lwpReady p st) (f(SchedQ i := xs))"
  by (simp add: same_locks_def lwpReady_def stopped_at_def)

lemma ok_get:
  assumes o: "lwp_ok X st f" and q: "f q = p # xs" "q \<noteq> DelayQ" "q \<noteq> SaveQ"
  obtains Q where "lwpGetFirst q st = (Some p, st\<lparr>l_queue := Q\<rparr>)" "lwp_ok (insert p X) (st\<lparr>l_queue := Q\<rparr>) (f(q := xs))"
proof -
  note d = okD [OF o]
  obtain Q where Q: "lwpGetFirst q st = (Some p, st\<lparr>l_queue := Q\<rparr>)" "rep (st\<lparr>l_queue := Q\<rparr>) (f(q := xs))"
    using get_first_rep [OF d(1), of q] q(1) by auto
  let ?st = "st\<lparr>l_queue := Q\<rparr>" and ?f = "f(q := xs)"
  have sl: "sleepers ?f = sleepers f" using q by (simp add: sleepers_def)
  have in_q: "p \<in> set (f q)" using q(1) by simp
  then have only: "p \<notin> set (f q')" if "q' \<noteq> q" for q' using d(1) that unfolding rep_def by blast
  have p: "p \<in> l_live st" "p \<notin> sleepers f" "\<forall>q'. p \<notin> set (?f q')" "\<forall>d. l_fdwait st d \<noteq> Some p" "l_sigwaiter st \<noteq> Some p"
  proof -
    show "p \<in> l_live st" using d(3) in_q unfolding queues_ok_def by blast
    show np: "p \<notin> sleepers f" using only q(2,3) by (simp add: sleepers_def)
    have "distinct (p # xs)" using d(1) q(1) unfolding rep_def by metis
    then show "\<forall>q'. p \<notin> set (?f q')" using only by simp
    show "\<forall>d. l_fdwait st d \<noteq> Some p" using d(4) np in_q unfolding fds_ok_def by metis
    show "l_sigwaiter st \<noteq> Some p" using d(5) in_q unfolding sig_ok_def by blast
  qed
  have "queues_ok ?st ?f" using d(3) q(1) unfolding queues_ok_def sl by (auto, (metis list.set_intros(2) subsetD)+)
  moreover have sub: "x \<notin> set (?f q')" if "\<forall>q. x \<notin> set (f q)" for x q' using that q(1) by (metis fun_upd_apply list.set_intros(2))
  have "fds_ok ?st ?f" using d(4) sub unfolding fds_ok_def sl by (simp del: fun_upd_apply) blast
  moreover have "sig_ok ?st ?f" using d(5) sub unfolding sig_ok_def by (simp del: fun_upd_apply)
  moreover have "threads_ok ?st" using d(2) by (simp add: threads_ok_def)
  moreover have "\<forall>x \<in> insert p X. x \<in> l_live ?st \<and> free ?st ?f x" using d(6,7) p sub unfolding free_def by (simp del: fun_upd_apply)
  moreover have "placed ?st ?f x" if "x \<in> l_live ?st" "x \<notin> insert p X" for x
  proof -
    have "placed st f x" using that d(8) by simp
    moreover have "(\<exists>q'. x \<in> set (f q')) \<longleftrightarrow> (\<exists>q'. x \<in> set (?f q'))" using that q(1) by (metis fun_upd_apply insert_iff list.set(2) set_ConsD)
    ultimately show ?thesis unfolding placed_def idle_def sl by simp
  qed
  ultimately show ?thesis using Q that unfolding lwp_ok_def by blast
qed

lemma ok_destroy:
  assumes o: "lwp_ok X st f" and p: "p \<in> X" "p \<noteq> l_current st" "p \<noteq> l_selproc st"
  shows "lwp_ok (X - {p}) (lwpDestroy p st) f"
proof -
  note d = okD [OF o]
  have fr: "\<forall>q. p \<notin> set (f q)" "\<forall>d. l_fdwait st d \<noteq> Some p" "l_sigwaiter st \<noteq> Some p" using d(7) [OF p(1)] by (auto simp: free_def)
  have "rep (lwpDestroy p st) f" by (rule rep_cong [OF d(1)]) (simp_all add: lwpDestroy_def)
  moreover have "threads_ok (lwpDestroy p st)" using d(2) p by (simp add: threads_ok_def lwpDestroy_def)
  moreover have "queues_ok (lwpDestroy p st) f" using d(3) fr(1) unfolding queues_ok_def by (auto simp: lwpDestroy_def)
  moreover have "fds_ok (lwpDestroy p st) f" using d(4) fr(2) unfolding fds_ok_def by (auto simp: lwpDestroy_def)
  moreover have "sig_ok (lwpDestroy p st) f" using d(5) fr(3) unfolding sig_ok_def by (auto simp: lwpDestroy_def)
  ultimately show ?thesis using d(6,7,8) unfolding lwp_ok_def free_def placed_def idle_def
    by (simp add: lwpDestroy_def) blast
qed

lemma ok_dead:
  assumes o: "lwp_ok X st f" and p: "p \<in> X" "pr_dead (l_proc st p)"
  shows "lwp_ok (X - {p}) (lwpAddTail DeadQ p st) (f(DeadQ := f DeadQ @ [p]))" (is "lwp_ok _ ?st ?f")
proof -
  note d = okD [OF o]
  have fr: "\<forall>q. p \<notin> set (f q)" "\<forall>d. l_fdwait st d \<noteq> Some p" "l_sigwaiter st \<noteq> Some p" using d(7) [OF p(1)] by (auto simp: free_def)
  have sl: "sleepers ?f = sleepers f" by (simp add: sleepers_def)
  have "rep ?st ?f" by (intro add_tail_rep d(1) fr(1))
  moreover have "threads_ok ?st" using d(2) by (simp add: threads_ok_def)
  moreover have "queues_ok ?st ?f" using d(3) d(6) [OF p(1)] p(2) unfolding queues_ok_def sl by auto
  moreover have "fds_ok ?st ?f" using d(4) fr(2) unfolding fds_ok_def sl by auto
  moreover have "sig_ok ?st ?f" using d(5) fr(3) unfolding sig_ok_def by auto
  moreover have "\<forall>x \<in> X - {p}. x \<in> l_live ?st \<and> free ?st ?f x" using d(6,7) unfolding free_def by auto
  moreover have "placed ?st ?f x" if "x \<in> l_live ?st" "x \<notin> X - {p}" for x
    using that d(8) [of x] unfolding placed_def idle_def sl somewhere_added by auto
  ultimately show ?thesis unfolding lwp_ok_def by blast
qed

lemma sel_queue:
  assumes o: "lwp_ok X st f" and i: "l_selproc st \<in> set (f q)"
  shows "q = SchedQ 0"
proof -
  note d = okD [OF o]
  have s: "pr_pri (l_proc st (l_selproc st)) = 0" "\<not> pr_dead (l_proc st (l_selproc st))" "pr_pc (l_proc st (l_selproc st)) = Selecting"
    using d(2) unfolding threads_ok_def by blast+
  have "l_selproc st \<notin> sleepers f"
  proof
    assume "l_selproc st \<in> sleepers f"
    then have "pr_pc (l_proc st (l_selproc st)) \<in> {In_sleep_fd, In_sleep_until}" using d(3) unfolding queues_ok_def by blast
    then show False using s(3) by simp
  qed
  then have n: "q \<noteq> DelayQ" "q \<noteq> SaveQ" using i by (auto simp: sleepers_def)
  show ?thesis
  proof (cases q)
    case (SchedQ i)
    then show ?thesis using d(3) i s(1) unfolding queues_ok_def by auto
  qed (use d(3) i s(2,3) n in \<open>auto simp: queues_ok_def\<close>)
qed

lemma sel_alone:
  assumes o: "lwp_ok X st f"
  shows "f (SchedQ 0) = [] \<or> f (SchedQ 0) = [l_selproc st]"
proof -
  note d = okD [OF o]
  have "set (f (SchedQ 0)) \<subseteq> {l_selproc st}" using d(2,3) unfolding threads_ok_def queues_ok_def by blast
  moreover have "distinct (f (SchedQ 0))" using d(1) unfolding rep_def by blast
  ultimately show ?thesis by (cases "f (SchedQ 0)"; cases "tl (f (SchedQ 0))") auto
qed

lemma ok_ready_sel:
  assumes o: "lwp_ok X st f" and s: "l_selproc st \<notin> X"
  shows "lwp_ok X (lwpReady (l_selproc st) st) (f(SchedQ 0 := [l_selproc st]))"
proof -
  note d = okD [OF o]
  let ?s = "l_selproc st"
  have t: "pr_pri (l_proc st ?s) = 0" "pr_pc (l_proc st ?s) = Selecting" "?s \<in> l_live st" using d(2) unfolding threads_ok_def by blast+
  show ?thesis
  proof (cases "\<exists>q. ?s \<in> set (f q)")
    case True
    then have "?s \<in> set (f (SchedQ 0))" using sel_queue [OF o] by blast
    then have f: "f (SchedQ 0) = [?s]" using sel_alone [OF o] by auto
    then have "lwpReady ?s st = st" unfolding lwpReady_def t by (intro add_tail_last [OF d(1), where xs = "[]"]) simp
    moreover have "f(SchedQ 0 := [?s]) = f" using f by auto
    ultimately show ?thesis using o by simp
  next
    case False
    have "l_fdwait st e \<noteq> Some ?s" for e using d(4) t(2) unfolding fds_ok_def by force
    moreover have "l_sigwaiter st \<noteq> Some ?s" using d(5) t(2) unfolding sig_ok_def by auto
    ultimately have fr: "free st f ?s" using False by (simp add: free_def)
    then have "lwp_ok (insert ?s X) st f" using o t(3) unfolding lwp_ok_def by blast
    from ok_ready [OF this, of ?s] show ?thesis using s t(1) sel_alone [OF o] False by (metis Diff_insert_absorb append_Nil insertI1 list.set_intros(1))
  qed
qed

section \<open>Waking up\<close>

text \<open>A sleeper is taken off its list and, when its time has come, from the file descriptor.\<close>

definition sleeper_off :: "nat \<Rightarrow> lwp \<Rightarrow> lwp" where
  "sleeper_off p st =
     (if pr_fd (l_proc st p) \<ge> 0
      then upd p (pr_fd_update (\<lambda>_. - 1))
             (st\<lparr>l_readfds := l_readfds st - {pr_fd (l_proc st p)}, l_writefds := l_writefds st - {pr_fd (l_proc st p)},
                 l_nfds := l_nfds st - 1, l_fdwait := (l_fdwait st)(pr_fd (l_proc st p) := None)\<rparr>)
      else st)"

lemma upd_fields [simp]:
  "l_queue (upd p g st) = l_queue st" "l_current (upd p g st) = l_current st" "l_maxpri (upd p g st) = l_maxpri st"
  "l_live (upd p g st) = l_live st" "l_maxfd (upd p g st) = l_maxfd st" "l_nfds (upd p g st) = l_nfds st"
  "l_fdwait (upd p g st) = l_fdwait st" "l_selproc (upd p g st) = l_selproc st" "l_sigwaiter (upd p g st) = l_sigwaiter st"
  "l_sigcheck (upd p g st) = l_sigcheck st"
  "l_count (upd p g st) = l_count st" "l_oops (upd p g st) = l_oops st" "l_readers (upd p g st) = l_readers st"
  "l_writers (upd p g st) = l_writers st" "l_proc (upd p g st) x = (if x = p then g (l_proc st p) else l_proc st x)"
  by (simp_all add: upd_def)

lemma upd_same: "g (l_proc st p) = l_proc st p \<Longrightarrow> upd p g st = st"
  by (simp add: upd_def)

lemma rep_upd [simp]: "(\<And>x. pr_next (g x) = pr_next x) \<Longrightarrow> rep (upd p g st) f = rep st f"
  by (auto intro: rep_cong)

text \<open>Taking a thread that sleeps away from where it sleeps.\<close>

lemma ok_off:
  assumes o: "lwp_ok X st f" and p: "p \<in> sleepers f \<or> 0 \<le> pr_fd (l_proc st p) \<and> l_fdwait st (pr_fd (l_proc st p)) = Some p"
    and r: "rep st' f'" and f': "\<forall>q. set (f' q) = set (f q) - {p}"
    and same: "l_proc st' p = (l_proc st p)\<lparr>pr_next := pr_next (l_proc st' p), pr_runtime := pr_runtime (l_proc st' p)\<rparr>"
      "\<forall>x. x \<noteq> p \<longrightarrow> (\<exists>n. l_proc st' x = (l_proc st x)\<lparr>pr_next := n\<rparr>)"
      "l_fdwait st' = l_fdwait st" "l_nfds st' = l_nfds st" "l_maxfd st' = l_maxfd st" "l_live st' = l_live st" "l_selproc st' = l_selproc st"
      "l_current st' = l_current st" "l_sigwaiter st' = l_sigwaiter st" "l_maxpri st' = l_maxpri st"
  shows "lwp_ok (insert p X) (sleeper_off p st') f'"
proof -
  note d = okD [OF o]
  let ?fd = "pr_fd (l_proc st p)" and ?st = "sleeper_off p st'"
  have fld: "pr_pc (l_proc st' x) = pr_pc (l_proc st x)" "pr_fd (l_proc st' x) = pr_fd (l_proc st x)" "pr_pri (l_proc st' x) = pr_pri (l_proc st x)"
    "pr_dead (l_proc st' x) = pr_dead (l_proc st x)" "x \<noteq> p \<Longrightarrow> pr_runtime (l_proc st' x) = pr_runtime (l_proc st x)" for x
  proof -
    have a: "pr_pc (l_proc st' p) = pr_pc (l_proc st p)" "pr_fd (l_proc st' p) = pr_fd (l_proc st p)" "pr_pri (l_proc st' p) = pr_pri (l_proc st p)"
      "pr_dead (l_proc st' p) = pr_dead (l_proc st p)"
      by (subst same(1), simp)+
    obtain n where b: "x \<noteq> p \<Longrightarrow> l_proc st' x = (l_proc st x)\<lparr>pr_next := n\<rparr>" using same(2) by blast
    show "pr_pc (l_proc st' x) = pr_pc (l_proc st x)" "pr_fd (l_proc st' x) = pr_fd (l_proc st x)" "pr_pri (l_proc st' x) = pr_pri (l_proc st x)"
      "pr_dead (l_proc st' x) = pr_dead (l_proc st x)" "x \<noteq> p \<Longrightarrow> pr_runtime (l_proc st' x) = pr_runtime (l_proc st x)"
      using a b by (cases "x = p"; simp)+
  qed
  have slp: "sleepers f' = sleepers f - {p}" using f' by (auto simp: sleepers_def)
  have pp: "0 \<le> ?fd \<Longrightarrow> l_fdwait st ?fd = Some p" "p \<in> l_live st" "pr_pc (l_proc st p) \<in> {In_sleep_fd, In_sleep_until}"
    using p d(3,4) unfolding queues_ok_def fds_ok_def sleepers_def by blast+
  have fdp: "l_fdwait st e = Some p \<Longrightarrow> e = ?fd \<and> 0 \<le> e" for e using d(4) unfolding fds_ok_def by blast
  have fw: "l_fdwait ?st = (if 0 \<le> ?fd then (l_fdwait st)(?fd := None) else l_fdwait st)" using same by (simp add: sleeper_off_def fld)
  have off: "l_proc ?st x = (l_proc st' x)\<lparr>pr_fd := if x = p then min ?fd (- 1) else pr_fd (l_proc st x)\<rparr>" for x
    by (cases "l_proc st' x") (use fld(2) [of x] in \<open>auto simp: sleeper_off_def\<close>)
  have oth: "l_live ?st = l_live st" "l_selproc ?st = l_selproc st" "l_current ?st = l_current st" "l_maxpri ?st = l_maxpri st" "l_maxfd ?st = l_maxfd st"
    "l_sigwaiter ?st = l_sigwaiter st" "l_queue ?st = l_queue st'" "l_nfds ?st = (if 0 \<le> ?fd then l_nfds st - 1 else l_nfds st)"
    using same by (simp_all add: sleeper_off_def fld)
  have fw': "l_fdwait ?st e = Some x \<longleftrightarrow> l_fdwait st e = Some x \<and> x \<noteq> p" for e x
  proof (cases "0 \<le> ?fd")
    case True
    show ?thesis
    proof (cases "e = ?fd")
      case e: True
      have "l_fdwait ?st e = None" "l_fdwait st e = Some p" using True pp(1) by (simp_all add: fw e)
      then show ?thesis by auto
    next
      case False
      then have "l_fdwait ?st e = l_fdwait st e" "l_fdwait st e \<noteq> Some p" using True fdp [of e] by (auto simp: fw)
      then show ?thesis by auto
    qed
  next
    case False
    then show ?thesis using fdp [of e] unfolding fw by (metis linorder_not_le)
  qed
  have "rep ?st f'" by (rule rep_cong [OF r]) (simp_all add: off oth)
  moreover have "threads_ok ?st" using d(2) unfolding threads_ok_def by (simp add: off fld oth)
  moreover have "queues_ok ?st f'"
  proof -
    have pc: "pr_pc (l_proc ?st x) = pr_pc (l_proc st x)" "pr_pri (l_proc ?st x) = pr_pri (l_proc st x)" "pr_dead (l_proc ?st x) = pr_dead (l_proc st x)"
      "x \<noteq> p \<Longrightarrow> pr_fd (l_proc ?st x) = pr_fd (l_proc st x)" for x by (simp_all add: off fld)
    have sub: "set (f' q) \<subseteq> set (f q)" for q using f' by blast
    note dq = d(3) [unfolded queues_ok_def]
    have "\<forall>q. set (f' q) \<subseteq> l_live st" using dq sub by (meson order_trans)
    moreover have "\<forall>i. \<forall>p \<in> set (f' (SchedQ i)). pr_pri (l_proc st p) = i" using dq sub by (meson subsetD)
    moreover have "\<forall>p \<in> set (f' DeadQ). pr_dead (l_proc st p)" using dq sub by (meson subsetD)
    moreover have "\<forall>l. \<forall>p \<in> set (f' (Wq l)). pr_pc (l_proc st p) = In_wrlock l" using dq sub by (meson subsetD)
    moreover have "\<forall>l. \<forall>p \<in> set (f' (Rq l)). pr_pc (l_proc st p) = In_rdlock l" using dq sub by (meson subsetD)
    moreover have "\<forall>x \<in> sleepers f - {p}. pr_pc (l_proc st x) \<in> {In_sleep_fd, In_sleep_until} \<and>
        (0 \<le> pr_fd (l_proc ?st x) \<longrightarrow> l_fdwait ?st (pr_fd (l_proc ?st x)) = Some x)"
    proof
      fix x
      assume x: "x \<in> sleepers f - {p}"
      then have e: "pr_fd (l_proc ?st x) = pr_fd (l_proc st x)" by (intro pc(4)) simp
      have dx: "pr_pc (l_proc st x) \<in> {In_sleep_fd, In_sleep_until} \<and> (0 \<le> pr_fd (l_proc st x) \<longrightarrow> l_fdwait st (pr_fd (l_proc st x)) = Some x)"
        using dq x by blast
      show "pr_pc (l_proc st x) \<in> {In_sleep_fd, In_sleep_until} \<and>
        (0 \<le> pr_fd (l_proc ?st x) \<longrightarrow> l_fdwait ?st (pr_fd (l_proc ?st x)) = Some x)"
        unfolding fw' e using dx x by blast
    qed
    ultimately show ?thesis unfolding queues_ok_def slp pc oth by blast
  qed
  moreover have fin: "finite (dom (l_fdwait st))" "l_nfds st = int (card (dom (l_fdwait st)))" using d(4) unfolding fds_ok_def by blast+
  have pos: "card (dom (l_fdwait st)) > 0" if "0 \<le> ?fd" using pp(1) [OF that] fin(1) by (auto simp only: card_gt_0_iff dom_def)
  have "fds_ok ?st f'"
  proof -
    have "card (dom (l_fdwait ?st)) = (if 0 \<le> ?fd then card (dom (l_fdwait st)) - 1 else card (dom (l_fdwait st)))"
      using pp(1) by (simp add: fw card_Diff_singleton domI)
    then have n: "l_nfds ?st = int (card (dom (l_fdwait ?st)))" using pos fin(2) by (cases "0 \<le> ?fd") (simp_all add: oth)
    have fi: "finite (dom (l_fdwait ?st))" using fin(1) by (simp add: fw)
    have "x \<in> l_live ?st \<and> pr_fd (l_proc ?st x) = e \<and> 0 \<le> e \<and> e \<le> l_maxfd ?st \<and> pr_pc (l_proc ?st x) = In_sleep_fd \<and>
        (x \<in> sleepers f' \<or> pr_runtime (l_proc ?st x) = - 1 \<and> (\<forall>q. x \<notin> set (f' q)))" if "l_fdwait ?st e = Some x" for e x
    proof -
      have x: "l_fdwait st e = Some x" "x \<noteq> p" using that unfolding fw' by blast+
      then have "x \<in> l_live st \<and> pr_fd (l_proc st x) = e \<and> 0 \<le> e \<and> e \<le> l_maxfd st \<and> pr_pc (l_proc st x) = In_sleep_fd \<and>
        (x \<in> sleepers f \<or> pr_runtime (l_proc st x) = - 1 \<and> (\<forall>q. x \<notin> set (f q)))" using d(4) unfolding fds_ok_def by blast
      moreover have "pr_runtime (l_proc ?st x) = pr_runtime (l_proc st x)" "pr_pc (l_proc ?st x) = pr_pc (l_proc st x)"
        "pr_fd (l_proc ?st x) = pr_fd (l_proc st x)" using x(2) by (simp_all add: off fld)
      ultimately show ?thesis using x(2) f' unfolding slp oth by auto
    qed
    then show ?thesis unfolding fds_ok_def using n fi by blast
  qed
  moreover have "sig_ok ?st f'" using d(5) f' unfolding sig_ok_def by (simp add: off fld oth)
  moreover have "free ?st f' p" using pp(3) d(5) f' unfolding free_def sig_ok_def by (auto simp: fw' oth)
  moreover have "\<forall>x \<in> X. x \<in> l_live ?st \<and> free ?st f' x" using d(6,7) f' unfolding free_def by (simp add: fw' oth)
  moreover have "placed ?st f' x" if "x \<in> l_live ?st" "x \<notin> insert p X" for x
  proof -
    have "\<not> idle st f"
    proof
      assume i: "idle st f"
      then have "0 \<le> ?fd \<and> l_fdwait st ?fd = Some p" using p by (auto simp: idle_def)
      then have "card (dom (l_fdwait st)) > 0" using pos by blast
      then show False using i fin(2) unfolding idle_def by simp
    qed
    then show ?thesis using d(8) [of x] that f' unfolding placed_def by (auto simp: fw' oth)
  qed
  ultimately show ?thesis using pp(2) oth(1) unfolding lwp_ok_def by blast
qed

lemma wake_sleeper:
  assumes o: "lwp_ok X st f" and p: "p \<in> sleepers f \<or> 0 \<le> pr_fd (l_proc st p) \<and> l_fdwait st (pr_fd (l_proc st p)) = Some p"
    and r: "rep st' f'" and f': "\<forall>q. set (f' q) = set (f q) - {p}"
    and st': "\<exists>Q t. st' = upd p (pr_runtime_update (\<lambda>_. t)) (st\<lparr>l_queue := Q\<rparr>)"
  shows "lwp_ok (X - {p}) (lwpReady p (sleeper_off p st'))
    (f'(SchedQ (pr_pri (l_proc st p)) := f' (SchedQ (pr_pri (l_proc st p))) @ [p]))"
proof -
  obtain Q t where e: "st' = upd p (pr_runtime_update (\<lambda>_. t)) (st\<lparr>l_queue := Q\<rparr>)" using st' by blast
  have "lwp_ok (insert p X) (sleeper_off p st') f'"
  proof (rule ok_off [OF o p r f'])
    show "l_proc st' p = (l_proc st p)\<lparr>pr_next := pr_next (l_proc st' p), pr_runtime := pr_runtime (l_proc st' p)\<rparr>" by (simp add: e)
    show "\<forall>x. x \<noteq> p \<longrightarrow> (\<exists>n. l_proc st' x = (l_proc st x)\<lparr>pr_next := n\<rparr>)"
    proof (intro allI impI exI)
      show "l_proc st' x = (l_proc st x)\<lparr>pr_next := pr_next (l_proc st x)\<rparr>" if "x \<noteq> p" for x using that by (simp add: e)
    qed
  qed (simp_all add: e)
  moreover have "pr_pri (l_proc (sleeper_off p st') p) = pr_pri (l_proc st p)" by (simp add: sleeper_off_def e)
  moreover have "insert p X - {p} = X - {p}" by auto
  ultimately show ?thesis using ok_ready [of "insert p X" "sleeper_off p st'" f' p] by simp
qed

lemma same_locks_off: "same_locks st f (upd p (pr_runtime_update (\<lambda>_. t)) (st\<lparr>l_queue := Q\<rparr>)) f' \<Longrightarrow>
    same_locks st f (lwpReady p (sleeper_off p (upd p (pr_runtime_update (\<lambda>_. t)) (st\<lparr>l_queue := Q\<rparr>)))) (f'(SchedQ i := xs))"
  by (auto simp: same_locks_def lwpReady_def sleeper_off_def stopped_at_def)

lemma wake_step:
  assumes o: "lwp_ok X st f" and q: "f DelayQ = p # xs" and g: "lwpGetFirst DelayQ st = (Some p, st1)"
  shows "\<exists>f'. lwp_ok X (wake_or_save now p st1) f' \<and> f' DelayQ = xs \<and> same_locks st f (wake_or_save now p st1) f' \<and>
    l_current (wake_or_save now p st1) = l_current st \<and> l_selproc (wake_or_save now p st1) = l_selproc st \<and>
    (\<forall>x \<in> set (f' SaveQ). x \<in> set (f SaveQ) \<and> x \<noteq> p \<or> x = p \<and> now < pr_runtime (l_proc st p)) \<and>
    (\<forall>x. x \<noteq> p \<or> now < pr_runtime (l_proc st p) \<longrightarrow> pr_runtime (l_proc (wake_or_save now p st1) x) = pr_runtime (l_proc st x)) \<and>
    (\<forall>i. set (f (SchedQ i)) \<subseteq> set (f' (SchedQ i))) \<and> f' DeadQ = f DeadQ \<and>
    (\<forall>x. pr_dead (l_proc (wake_or_save now p st1) x) = pr_dead (l_proc st x))"
proof -
  note d = okD [OF o]
  obtain Q where Q: "st1 = st\<lparr>l_queue := Q\<rparr>" "rep (st\<lparr>l_queue := Q\<rparr>) (f(DelayQ := xs))"
    using get_first_rep [OF d(1), of DelayQ] q g by auto
  have ps: "p \<in> sleepers f" using q by (simp add: sleepers_def)
  have dis: "p \<notin> set xs" "\<forall>q'. q' \<noteq> DelayQ \<longrightarrow> p \<notin> set (f q')" "distinct xs" using d(1) q unfolding rep_def
    by (metis distinct.simps(2), metis disjoint_iff list.set_intros(1), metis distinct.simps(2))
  have px: "p \<notin> X" using d(7) [of p] q unfolding free_def by (metis list.set_intros(1))
  let ?f1 = "f(DelayQ := xs)"
  have f1: "\<forall>q'. set (?f1 q') = set (f q') - {p}" using dis q by auto
  show ?thesis
  proof (cases "now \<ge> pr_runtime (l_proc st p)")
    case True
    define t where "t = (if pr_runtime (l_proc st p) \<noteq> 0 then - 1 else pr_runtime (l_proc st p))"
    let ?st2 = "upd p (pr_runtime_update (\<lambda>_. t)) (st\<lparr>l_queue := Q\<rparr>)"
    have st2: "(if pr_runtime (l_proc st1 p) \<noteq> 0 then upd p (pr_runtime_update (\<lambda>_. - 1)) st1 else st1) = ?st2"
      by (auto simp: Q(1) t_def intro!: upd_same [symmetric])
    have fd: "0 \<le> pr_fd (l_proc st p) \<Longrightarrow> pr_fd (l_proc st p) \<le> l_maxfd st" using ps d(3,4) unfolding queues_ok_def fds_ok_def by blast
    have e: "wake_or_save now p st1 = lwpReady p (sleeper_off p ?st2)"
    proof (cases "0 \<le> pr_fd (l_proc st p)")
      case True
      have "lwpWakeupFd p ?st2 = lwpReady p (sleeper_off p ?st2)"
        using True fd by (simp add: lwpWakeupFd_def sleeper_off_def t_def Let_def)
      then show ?thesis using \<open>now \<ge> _\<close> True unfolding wake_or_save_def st2 by (simp add: Q(1))
    next
      case False
      then show ?thesis using \<open>now \<ge> _\<close> unfolding wake_or_save_def st2 by (simp add: Q(1) sleeper_off_def)
    qed
    have r: "rep ?st2 ?f1" using Q(2) by simp
    let ?R = "lwpReady p (sleeper_off p ?st2)" and ?f2 = "?f1(SchedQ (pr_pri (l_proc st p)) := ?f1 (SchedQ (pr_pri (l_proc st p))) @ [p])"
    have ok: "lwp_ok X (lwpReady p (sleeper_off p ?st2)) (?f1(SchedQ (pr_pri (l_proc st p)) := ?f1 (SchedQ (pr_pri (l_proc st p))) @ [p]))"
      using wake_sleeper [OF o disjI1 [OF ps] r f1] px by (metis Diff_insert0 Diff_empty)
    have "same_locks st f ?st2 ?f1" by (auto simp: same_locks_def stopped_at_def)
    then have sa: "same_locks st f ?R ?f2" by (rule same_locks_off)
    have c: "l_current ?R = l_current st" "l_selproc ?R = l_selproc st" "\<forall>x. pr_dead (l_proc ?R x) = pr_dead (l_proc st x)" "\<forall>x. x \<noteq> p \<longrightarrow> pr_runtime (l_proc ?R x) = pr_runtime (l_proc st x)"
      by (simp_all add: lwpReady_def sleeper_off_def)
    show ?thesis unfolding e
    proof (intro exI [of _ ?f2] conjI ok sa c(1,2,3))
      show "\<forall>x. x \<noteq> p \<or> now < pr_runtime (l_proc st p) \<longrightarrow> pr_runtime (l_proc ?R x) = pr_runtime (l_proc st x)" using c(4) True by auto
    qed (use dis(2) in auto)
  next
    case False
    then have e: "wake_or_save now p st1 = lwpAddTail SaveQ p st1" by (simp add: wake_or_save_def Q(1))
    let ?f = "?f1(SaveQ := ?f1 SaveQ @ [p])"
    have r: "rep (lwpAddTail SaveQ p st1) ?f" using dis by (intro add_tail_rep) (auto simp: Q)
    have sl: "sleepers ?f = sleepers f" using q by (auto simp: sleepers_def)
    have inq: "(\<exists>q'. x \<in> set (?f q')) \<longleftrightarrow> (\<exists>q'. x \<in> set (f q'))" for x
      using somewhere_added [of x ?f1 SaveQ p] f1 q by (metis DiffD1 DiffI list.set_intros(1) singletonD)
    have "set (f DelayQ) \<subseteq> l_live st" using d(3) unfolding queues_ok_def by blast
    then have "set xs \<subseteq> l_live st" "p \<in> l_live st" using q by auto
    then have "queues_ok (lwpAddTail SaveQ p st1) ?f" using d(3) unfolding queues_ok_def sl by (auto simp: Q(1))
    moreover have "fds_ok (lwpAddTail SaveQ p st1) ?f" using d(4) inq unfolding fds_ok_def sl by (simp add: Q(1) del: fun_upd_apply) blast
    moreover have "sig_ok (lwpAddTail SaveQ p st1) ?f" using d(5) inq unfolding sig_ok_def by (simp add: Q(1) del: fun_upd_apply) blast
    moreover have "threads_ok (lwpAddTail SaveQ p st1)" using d(2) by (simp add: threads_ok_def Q(1))
    moreover have "\<forall>x \<in> X. x \<in> l_live (lwpAddTail SaveQ p st1) \<and> free (lwpAddTail SaveQ p st1) ?f x"
      using d(6,7) inq unfolding free_def by (simp add: Q(1) del: fun_upd_apply) blast
    moreover have "\<forall>x \<in> l_live (lwpAddTail SaveQ p st1). x \<in> X \<or> placed (lwpAddTail SaveQ p st1) ?f x"
      using d(8) inq unfolding placed_def idle_def sl by (simp add: Q(1) del: fun_upd_apply) blast
    ultimately have "lwp_ok X (lwpAddTail SaveQ p st1) ?f" using r unfolding lwp_ok_def by blast
    moreover have "same_locks st f (lwpAddTail SaveQ p st1) ?f" by (simp add: same_locks_def stopped_at_def Q(1))
    ultimately show ?thesis unfolding e using False dis(2) by (intro exI [of _ ?f]) (auto simp: Q(1))
  qed
qed

text \<open>Waking up threads puts some into the run queues, and does nothing else.\<close>

definition wakes :: "lwp \<Rightarrow> (queue_id \<Rightarrow> nat list) \<Rightarrow> lwp \<Rightarrow> (queue_id \<Rightarrow> nat list) \<Rightarrow> bool" where
  "wakes st f st' f' \<longleftrightarrow> same_locks st f st' f' \<and> l_current st' = l_current st \<and> l_selproc st' = l_selproc st \<and> f' DeadQ = f DeadQ \<and>
     (\<forall>p. pr_dead (l_proc st' p) = pr_dead (l_proc st p)) \<and> (\<forall>i. set (f (SchedQ i)) \<subseteq> set (f' (SchedQ i)))"

lemma wakes_refl [simp]: "wakes st f st f"
  by (simp add: wakes_def)

lemma wakes_trans: "wakes st f st' f' \<Longrightarrow> wakes st' f' st'' f'' \<Longrightarrow> wakes st f st'' f''"
  unfolding wakes_def by (elim conjE, intro conjI) (rule same_locks_trans, assumption+, simp_all, blast)

lemma delay_loop_ok:
  "lwp_ok X st f \<Longrightarrow> \<forall>x \<in> set (f SaveQ). now < pr_runtime (l_proc st x) \<Longrightarrow>
    \<exists>st' f'. delay_loop now st = Some st' \<and> lwp_ok X st' f' \<and> wakes st f st' f' \<and> f' DelayQ = [] \<and>
      (\<forall>x \<in> set (f' SaveQ). now < pr_runtime (l_proc st' x))"
proof (induction "f DelayQ" arbitrary: st f)
  case Nil
  then have "lwpGetFirst DelayQ st = (None, st)" using get_first_rep [OF okD(1) [OF Nil(2)], of DelayQ] by simp
  then have "delay_loop now st = Some st" by (subst delay_loop.simps) simp
  then show ?case using Nil by (intro exI [of _ st] exI [of _ f]) simp
next
  case (Cons p xs)
  obtain st1 where g: "lwpGetFirst DelayQ st = (Some p, st1)"
    using get_first_rep [OF okD(1) [OF Cons(3)], of DelayQ] Cons(2) by (auto split: list.splits)
  obtain f1 where f1: "lwp_ok X (wake_or_save now p st1) f1" "f1 DelayQ = xs" "wakes st f (wake_or_save now p st1) f1"
    "\<forall>x \<in> set (f1 SaveQ). x \<in> set (f SaveQ) \<and> x \<noteq> p \<or> x = p \<and> now < pr_runtime (l_proc st p)"
    "\<forall>x. x \<noteq> p \<or> now < pr_runtime (l_proc st p) \<longrightarrow> pr_runtime (l_proc (wake_or_save now p st1) x) = pr_runtime (l_proc st x)"
    using wake_step [OF Cons(3) Cons(2) [symmetric] g, of now] unfolding wakes_def by blast
  have "\<forall>x \<in> set (f1 SaveQ). now < pr_runtime (l_proc (wake_or_save now p st1) x)"
    using f1(4,5) Cons(4) by metis
  from Cons(1) [OF f1(2) [symmetric] f1(1) this] obtain st' f' where "delay_loop now (wake_or_save now p st1) = Some st'" "lwp_ok X st' f'"
    "wakes (wake_or_save now p st1) f1 st' f'" "f' DelayQ = []" "\<forall>x \<in> set (f' SaveQ). now < pr_runtime (l_proc st' x)" by blast
  then show ?case using g wakes_trans [OF f1(3)] by (intro exI [of _ st'] exI [of _ f']) (subst delay_loop.simps, simp)
qed

lemma ok_queues:
  assumes o: "lwp_ok X st f" and r: "rep (st\<lparr>l_queue := Q\<rparr>) f'" and sl: "sleepers f' = sleepers f"
    and f': "\<forall>q. q \<noteq> DelayQ \<and> q \<noteq> SaveQ \<longrightarrow> f' q = f q"
  shows "lwp_ok X (st\<lparr>l_queue := Q\<rparr>) f'"
proof -
  note d = okD [OF o]
  have inq: "(\<exists>q. x \<in> set (f' q)) \<longleftrightarrow> (\<exists>q. x \<in> set (f q))" for x
    using sl f' unfolding sleepers_def by (metis Un_iff)
  then have ninq: "(\<forall>q. x \<notin> set (f' q)) \<longleftrightarrow> (\<forall>q. x \<notin> set (f q))" for x by blast
  have "\<forall>q. set (f q) \<subseteq> l_live st" using d(3) unfolding queues_ok_def by blast
  then have "set (f' q) \<subseteq> l_live st" for q using inq by (meson subsetD subsetI)
  then have "queues_ok (st\<lparr>l_queue := Q\<rparr>) f'" using d(3) f' unfolding queues_ok_def sl by simp
  moreover have "fds_ok (st\<lparr>l_queue := Q\<rparr>) f'" using d(4) unfolding fds_ok_def sl by (simp add: ninq)
  moreover have "sig_ok (st\<lparr>l_queue := Q\<rparr>) f'" using d(5) unfolding sig_ok_def by (simp add: ninq)
  moreover have "threads_ok (st\<lparr>l_queue := Q\<rparr>)" using d(2) by (simp add: threads_ok_def)
  moreover have "\<forall>x \<in> X. x \<in> l_live st \<and> free (st\<lparr>l_queue := Q\<rparr>) f' x" using d(6,7) unfolding free_def by (simp add: ninq)
  moreover have "\<forall>x \<in> l_live st. x \<in> X \<or> placed (st\<lparr>l_queue := Q\<rparr>) f' x" using d(8) unfolding placed_def idle_def sl by (simp add: inq) blast
  ultimately show ?thesis using r unfolding lwp_ok_def by simp
qed

lemma wakeup_sleep_ok:
  assumes o: "lwp_ok X st f" and s: "f SaveQ = []"
  shows "\<exists>st' f'. lwpWakeupSleep now st = Some st' \<and> lwp_ok X st' f' \<and> wakes st f st' f' \<and> f' SaveQ = [] \<and>
    (\<forall>x \<in> set (f' DelayQ). now < pr_runtime (l_proc st' x))"
proof (cases "f DelayQ = []")
  case True
  then have "lwpWakeupSleep now st = Some st" using rep_head [OF okD(1) [OF o], of DelayQ] by (simp add: lwpWakeupSleep_def)
  then show ?thesis using o s True by (intro exI [of _ st] exI [of _ f]) simp
next
  case False
  let ?st0 = "st\<lparr>l_queue := (l_queue st)(SaveQ := empty_queue)\<rparr>"
  have "rep ?st0 f" using okD(1) [OF o] s unfolding rep_def by (auto simp: is_queue_def empty_queue_def)
  then have o0: "lwp_ok X ?st0 f" by (intro ok_queues [OF o]) simp_all
  obtain st1 f1 where 1: "delay_loop now ?st0 = Some st1" "lwp_ok X st1 f1" "wakes ?st0 f st1 f1" "f1 DelayQ = []"
    "\<forall>x \<in> set (f1 SaveQ). now < pr_runtime (l_proc st1 x)" using delay_loop_ok [OF o0, of now] s by auto
  let ?Q = "(l_queue st1)(DelayQ := l_queue st1 SaveQ, SaveQ := empty_queue)" and ?f = "f1(DelayQ := f1 SaveQ, SaveQ := [])"
  have "rep (st1\<lparr>l_queue := ?Q\<rparr>) ?f" using okD(1) [OF 1(2)] unfolding rep_def by (auto simp: is_queue_def empty_queue_def)
  then have "lwp_ok X (st1\<lparr>l_queue := ?Q\<rparr>) ?f" by (intro ok_queues [OF 1(2)]) (simp_all add: sleepers_def 1(4))
  moreover have "wakes st f (st1\<lparr>l_queue := ?Q\<rparr>) ?f" using 1(3) by (simp add: wakes_def same_locks_def stopped_at_def)
  moreover have "lwpWakeupSleep now st = Some (st1\<lparr>l_queue := ?Q\<rparr>)"
    using 1(1) rep_head [OF okD(1) [OF o], of DelayQ] False by (simp add: lwpWakeupSleep_def)
  ultimately show ?thesis using 1(5) by (intro exI [of _ "st1\<lparr>l_queue := ?Q\<rparr>"] exI [of _ ?f]) simp
qed

lemma sig_wakeup_ok:
  assumes o: "lwp_ok X st f" and s: "f SaveQ = []" "\<forall>x \<in> set (f DelayQ). 0 < pr_runtime (l_proc st x)"
  shows "\<exists>f'. lwp_ok X (lwpSigWakeup st) f' \<and> wakes st f (lwpSigWakeup st) f' \<and> f' SaveQ = [] \<and>
    (\<forall>x \<in> set (f' DelayQ). 0 < pr_runtime (l_proc (lwpSigWakeup st) x))"
proof (cases "\<exists>p. l_sigwaiter st = Some p \<and> l_sigcheck st")
  case False
  then have "lwpSigWakeup st = st" by (auto simp: lwpSigWakeup_def split: option.splits)
  then show ?thesis using o s by (intro exI [of _ f]) simp
next
  case True
  then obtain p where p: "l_sigwaiter st = Some p" "l_sigcheck st" by blast
  note d = okD [OF o]
  let ?st = "st\<lparr>l_sigwaiter := None\<rparr>"
  have pp: "p \<in> l_live st" "pr_pc (l_proc st p) = In_sig_wait" "\<forall>q. p \<notin> set (f q)" using d(5) p(1) unfolding sig_ok_def by blast+
  have nf: "l_fdwait st e \<noteq> Some p" for e using d(4) pp(2) unfolding fds_ok_def by force
  have "lwp_ok (insert p X) ?st f"
    unfolding lwp_ok_def
  proof (intro conjI)
    show "rep ?st f" by (rule rep_cong [OF d(1)]) simp_all
    show "\<forall>x \<in> insert p X. x \<in> l_live ?st \<and> free ?st f x" using d(6,7) pp nf by (auto simp: free_def)
    show "\<forall>x \<in> l_live ?st. x \<in> insert p X \<or> placed ?st f x" using d(8) p(1) by (auto simp: placed_def idle_def)
  qed (use d(2,3,4) in \<open>simp_all add: threads_ok_def queues_ok_def fds_ok_def sig_ok_def\<close>)
  from ok_ready [OF this, of p]
  have "lwp_ok (insert p X - {p}) (lwpReady p ?st) (f(SchedQ (pr_pri (l_proc st p)) := f (SchedQ (pr_pri (l_proc st p))) @ [p]))" by simp
  moreover have "p \<notin> X" using d(7) [of p] p(1) by (auto simp: free_def)
  then have "insert p X - {p} = X" by simp
  moreover have "lwpReady p ?st = lwpSigWakeup st" using p
    by (cases "q_tail (l_queue st (SchedQ (pr_pri (l_proc st p))))") (simp_all add: lwpSigWakeup_def lwpReady_def lwpAddTail_def upd_def Let_def)
  moreover have "same_locks st f (lwpSigWakeup st) (f(SchedQ i := xs))" for i xs
    using p by (simp add: same_locks_def lwpSigWakeup_def lwpReady_def stopped_at_def)
  ultimately show ?thesis using s p
    by (intro exI [of _ "f(SchedQ (pr_pri (l_proc st p)) := f (SchedQ (pr_pri (l_proc st p))) @ [p])"])
      (auto simp: wakes_def lwpSigWakeup_def lwpReady_def)
qed

section \<open>Rescheduling\<close>

text \<open>Between two switches the current thread is in hand and every other one in its place.\<close>

definition timely :: "lwp \<Rightarrow> (queue_id \<Rightarrow> nat list) \<Rightarrow> bool" where
  "timely st f \<longleftrightarrow> f SaveQ = [] \<and> (\<forall>x \<in> set (f DelayQ). 0 < pr_runtime (l_proc st x))"

definition running :: "lwp \<Rightarrow> (queue_id \<Rightarrow> nat list) \<Rightarrow> bool" where
  "running st f \<longleftrightarrow> lwp_ok {l_current st} st f \<and> timely st f \<and> \<not> pr_dead (l_proc st (l_current st))"

text \<open>Taking threads off a run queue, or burying dead ones: the lists change only there.\<close>

definition takes :: "lwp \<Rightarrow> (queue_id \<Rightarrow> nat list) \<Rightarrow> lwp \<Rightarrow> (queue_id \<Rightarrow> nat list) \<Rightarrow> bool" where
  "takes st f st' f' \<longleftrightarrow> same_locks st f st' f' \<and> l_current st' = l_current st \<and> l_selproc st' = l_selproc st \<and> f' DelayQ = f DelayQ \<and> f' SaveQ = f SaveQ \<and>
     (\<forall>p. pr_runtime (l_proc st' p) = pr_runtime (l_proc st p) \<and> pr_dead (l_proc st' p) = pr_dead (l_proc st p) \<and>
        pr_pri (l_proc st' p) = pr_pri (l_proc st p)) \<and> l_maxpri st' = l_maxpri st"

lemma takes_refl [simp]: "takes st f st f"
  by (simp add: takes_def)

lemma takes_trans: "takes st f st' f' \<Longrightarrow> takes st' f' st'' f'' \<Longrightarrow> takes st f st'' f''"
  unfolding takes_def using same_locks_trans by metis

lemma takes_timely: "takes st f st' f' \<Longrightarrow> timely st f \<Longrightarrow> timely st' f'"
  by (simp add: takes_def timely_def)

lemma bury_loop_ok:
  "lwp_ok {} st f \<Longrightarrow> l_current st \<notin> set (f DeadQ) \<Longrightarrow>
    \<exists>st' f'. bury_loop st = Some st' \<and> lwp_ok {} st' f' \<and> takes st f st' f' \<and> (\<forall>i. f' (SchedQ i) = f (SchedQ i))"
proof (induction "f DeadQ" arbitrary: st f)
  case Nil
  then have "lwpGetFirst DeadQ st = (None, st)" using get_first_rep [OF okD(1) [OF Nil(2)], of DeadQ] by simp
  then have "bury_loop st = Some st" by (subst bury_loop.simps) simp
  then show ?case using Nil by (intro exI [of _ st] exI [of _ f]) simp
next
  case (Cons p xs)
  note d = okD [OF Cons(3)]
  obtain Q where g: "lwpGetFirst DeadQ st = (Some p, st\<lparr>l_queue := Q\<rparr>)" "lwp_ok {p} (st\<lparr>l_queue := Q\<rparr>) (f(DeadQ := xs))"
    using ok_get [OF Cons(3) Cons(2) [symmetric]] by auto
  let ?st = "lwpDestroy p (st\<lparr>l_queue := Q\<rparr>)"
  have dead: "pr_dead (l_proc st p)" using d(3) Cons(2) unfolding queues_ok_def by (metis list.set_intros(1))
  then have "p \<noteq> l_selproc st" using d(2) unfolding threads_ok_def by blast
  moreover have ne: "p \<noteq> l_current st" using Cons(2,4) by (metis list.set_intros(1))
  ultimately have o: "lwp_ok {} ?st (f(DeadQ := xs))" using ok_destroy [OF g(2), of p] by simp
  have "pr_pc (l_proc st p) = User" using d(2,6) dead o okD(3) [OF Cons(3)] Cons(2) unfolding threads_ok_def queues_ok_def
    by (metis list.set_intros(1) subsetD)
  then have t: "takes st f ?st (f(DeadQ := xs))" by (auto simp: takes_def same_locks_def lwpDestroy_def stopped_at_def)
  have "l_current ?st \<notin> set ((f(DeadQ := xs)) DeadQ)" using Cons(2,4) by (simp add: lwpDestroy_def) (metis list.set_intros(2))
  then obtain st' f' where "bury_loop ?st = Some st'" "lwp_ok {} st' f'" "takes ?st (f(DeadQ := xs)) st' f'" "\<forall>i. f' (SchedQ i) = f (SchedQ i)"
    using Cons(1) [of "f(DeadQ := xs)" ?st] o by auto
  then show ?case using g(1) ne takes_trans [OF t] by (intro exI [of _ st'] exI [of _ f']) (subst bury_loop.simps, simp)
qed

lemma first_alive_ok:
  "lwp_ok {} st f \<Longrightarrow>
    \<exists>r st' f'. first_alive i st = Some (r, st') \<and> lwp_ok (set_option r) st' f' \<and> takes st f st' f' \<and>
      (\<forall>p. r = Some p \<longrightarrow> \<not> pr_dead (l_proc st' p)) \<and> (\<forall>j. j \<noteq> i \<longrightarrow> f' (SchedQ j) = f (SchedQ j)) \<and>
      r = find (\<lambda>p. \<not> pr_dead (l_proc st p)) (f (SchedQ i))"
proof (induction "f (SchedQ i)" arbitrary: st f)
  case Nil
  then have "lwpGetFirst (SchedQ i) st = (None, st)" using get_first_rep [OF okD(1) [OF Nil(2)], of "SchedQ i"] by simp
  then have "first_alive i st = Some (None, st)" by (subst first_alive.simps) simp
  then show ?case using Nil by (intro exI [of _ None] exI [of _ st] exI [of _ f]) simp
next
  case (Cons p xs)
  note d = okD [OF Cons(3)]
  obtain Q where g: "lwpGetFirst (SchedQ i) st = (Some p, st\<lparr>l_queue := Q\<rparr>)" "lwp_ok {p} (st\<lparr>l_queue := Q\<rparr>) (f(SchedQ i := xs))"
    using ok_get [OF Cons(3) Cons(2) [symmetric]] by auto
  let ?st = "st\<lparr>l_queue := Q\<rparr>" and ?f = "f(SchedQ i := xs)"
  have t: "takes st f ?st ?f" by (simp add: takes_def same_locks_def stopped_at_def)
  show ?case
  proof (cases "pr_dead (l_proc st p)")
    case False
    then have "first_alive i st = Some (Some p, ?st)" using g(1) by (subst first_alive.simps) simp
    then show ?thesis using g(2) t False Cons(2) [symmetric] by (intro exI [of _ "Some p"] exI [of _ ?st] exI [of _ ?f]) simp
  next
    case True
    define st1 where "st1 = (if p = l_current st then lwpAddTail DeadQ p ?st else lwpDestroy p ?st)"
    have ns: "p \<noteq> l_selproc st" using True d(2) unfolding threads_ok_def by blast
    obtain f1 where f1: "lwp_ok {} st1 f1" "takes ?st ?f st1 f1" "f1 (SchedQ i) = xs" "\<forall>j. j \<noteq> i \<longrightarrow> f1 (SchedQ j) = f (SchedQ j)"
    proof (cases "p = l_current st")
      case c: True
      have "lwp_ok {} st1 (?f(DeadQ := ?f DeadQ @ [p]))" using ok_dead [OF g(2), of p] True c by (simp add: st1_def)
      moreover have "takes ?st ?f st1 (?f(DeadQ := ?f DeadQ @ [p]))" using c by (simp add: takes_def same_locks_def st1_def stopped_at_def)
      ultimately show ?thesis using that by simp
    next
      case c: False
      have "lwp_ok {} st1 ?f" using ok_destroy [OF g(2), of p] c ns by (simp add: st1_def)
      moreover have "pr_pc (l_proc st p) = User" using True d(2) okD(6) [OF g(2), of p] unfolding threads_ok_def by simp
      then have "takes ?st ?f st1 ?f" using c by (auto simp: takes_def same_locks_def st1_def lwpDestroy_def stopped_at_def)
      ultimately show ?thesis using that by simp
    qed
    have "first_alive i st = first_alive i st1" using g(1) True by (subst first_alive.simps) (simp add: st1_def)
    moreover obtain r st' f' where "first_alive i st1 = Some (r, st')" "lwp_ok (set_option r) st' f'" "takes st1 f1 st' f'"
      "\<forall>p. r = Some p \<longrightarrow> \<not> pr_dead (l_proc st' p)" "\<forall>j. j \<noteq> i \<longrightarrow> f' (SchedQ j) = f1 (SchedQ j)"
      "r = find (\<lambda>p. \<not> pr_dead (l_proc st1 p)) xs" using Cons(1) [of f1 st1] f1(1,3) by auto
    moreover have "pr_dead (l_proc st1 x) = pr_dead (l_proc st x)" for x using f1(2) by (simp add: takes_def)
    ultimately show ?thesis using takes_trans [OF takes_trans [OF t f1(2)]] f1(4) True Cons(2) [symmetric]
      by (intro exI [of _ r] exI [of _ st'] exI [of _ f']) simp
  qed
qed

lemma next_thread_ok:
  "lwp_ok {} st f \<Longrightarrow>
    \<exists>r st' f'. next_thread n st = Some (r, st') \<and> lwp_ok (set_option r) st' f' \<and> takes st f st' f' \<and>
      (\<forall>p. r = Some p \<longrightarrow> \<not> pr_dead (l_proc st' p)) \<and>
      (\<forall>j < n. \<forall>x \<in> set (f (SchedQ j)). \<not> pr_dead (l_proc st x) \<longrightarrow> (\<exists>i < n. \<exists>p. r = Some p \<and> j \<le> i \<and> p \<in> set (f (SchedQ i))))"
proof (induction n arbitrary: st f)
  case 0
  then show ?case by (intro exI [of _ None] exI [of _ st] exI [of _ f]) simp
next
  case (Suc i)
  obtain r st1 f1 where 1: "first_alive i st = Some (r, st1)" "lwp_ok (set_option r) st1 f1" "takes st f st1 f1"
    "\<forall>p. r = Some p \<longrightarrow> \<not> pr_dead (l_proc st1 p)" "\<forall>j. j \<noteq> i \<longrightarrow> f1 (SchedQ j) = f (SchedQ j)"
    "r = find (\<lambda>p. \<not> pr_dead (l_proc st p)) (f (SchedQ i))" using first_alive_ok [OF Suc.prems, of i] by blast
  show ?case
  proof (cases r)
    case (Some p)
    then have "p \<in> set (f (SchedQ i))" using 1(6) by (auto simp: find_Some_iff)
    then show ?thesis using 1(1-4) Some by (intro exI [of _ r] exI [of _ st1] exI [of _ f1]) (auto simp: less_Suc_eq_le)
  next
    case None
    then have all: "\<forall>x \<in> set (f (SchedQ i)). pr_dead (l_proc st x)" using 1(6) by (auto simp: find_None_iff)
    have dead: "pr_dead (l_proc st1 x) = pr_dead (l_proc st x)" for x using 1(3) by (simp add: takes_def)
    obtain r2 st2 f2 where 2: "next_thread i st1 = Some (r2, st2)" "lwp_ok (set_option r2) st2 f2" "takes st1 f1 st2 f2"
      "\<forall>p. r2 = Some p \<longrightarrow> \<not> pr_dead (l_proc st2 p)"
      "\<forall>j < i. \<forall>x \<in> set (f1 (SchedQ j)). \<not> pr_dead (l_proc st1 x) \<longrightarrow> (\<exists>k < i. \<exists>p. r2 = Some p \<and> j \<le> k \<and> p \<in> set (f1 (SchedQ k)))"
      using Suc.IH [of st1 f1] 1(2) None by auto
    have "\<exists>k < Suc i. \<exists>p. r2 = Some p \<and> j \<le> k \<and> p \<in> set (f (SchedQ k))"
      if x: "j < Suc i" "x \<in> set (f (SchedQ j))" "\<not> pr_dead (l_proc st x)" for j x
    proof -
      have "j < i" using x all by (metis less_SucE)
      moreover have "x \<in> set (f1 (SchedQ j))" using x(2) 1(5) \<open>j < i\<close> by simp
      ultimately obtain k p where k: "k < i" "r2 = Some p" "j \<le> k" "p \<in> set (f1 (SchedQ k))" using 2(5) x(3) dead by blast
      then have "p \<in> set (f (SchedQ k))" using 1(5) by simp
      then show ?thesis using k by (intro exI [of _ k]) simp
    qed
    then show ?thesis using 1(1) None 2(1,2,4) takes_trans [OF 1(3) 2(3)] by (intro exI [of _ r2] exI [of _ st2] exI [of _ f2]) auto
  qed
qed

text \<open>When every thread is in its place, rescheduling aborts or switches to one that is ready.\<close>

lemma reschedule_ok:
  assumes o: "lwp_ok {} st f" and t: "timely st f" and now: "now > 0" and c: "l_current st \<notin> set (f DeadQ)"
    and r: "lwpReschedule now st = Some st'"
  shows "\<exists>f'. running st' f' \<and> same_locks st f st' f'"
proof -
  obtain f1 where 1: "lwp_ok {} (lwpSigWakeup st) f1" "wakes st f (lwpSigWakeup st) f1" "f1 SaveQ = []"
    using sig_wakeup_ok [OF o] t unfolding timely_def by blast
  obtain st2 f2 where 2: "lwpWakeupSleep now (lwpSigWakeup st) = Some st2" "lwp_ok {} st2 f2" "wakes (lwpSigWakeup st) f1 st2 f2" "f2 SaveQ = []"
    "\<forall>x \<in> set (f2 DelayQ). now < pr_runtime (l_proc st2 x)" using wakeup_sleep_ok [OF 1(1,3)] by blast
  have w: "wakes st f st2 f2" by (rule wakes_trans [OF 1(2) 2(3)])
  have t2: "timely st2 f2" using 2(4,5) now by (auto simp: timely_def)
  have "l_current st2 \<notin> set (f2 DeadQ)" using w c by (simp add: wakes_def)
  then obtain st3 f3 where 3: "bury_loop st2 = Some st3" "lwp_ok {} st3 f3" "takes st2 f2 st3 f3" using bury_loop_ok [OF 2(2)] by blast
  obtain q st4 f4 where 4: "next_thread (l_maxpri st3 + 1) st3 = Some (q, st4)" "lwp_ok (set_option q) st4 f4" "takes st3 f3 st4 f4"
    "\<forall>p. q = Some p \<longrightarrow> \<not> pr_dead (l_proc st4 p)"
    using next_thread_ok [OF 3(2), of "l_maxpri st3 + 1"] by (elim exE conjE) (rule that; assumption)
  then obtain p where p: "q = Some p" "st' = st4\<lparr>l_current := p\<rparr>" using r 2(1) 3(1) by (auto simp: lwpReschedule_def split: option.splits)
  have tk: "takes st2 f2 st4 f4" by (rule takes_trans [OF 3(3) 4(3)])
  note d = okD [OF 4(2)]
  have "lwp_ok {p} st' f4" unfolding lwp_ok_def
  proof (intro conjI)
    show "rep st' f4" by (rule rep_cong [OF d(1)]) (simp_all add: p)
    show "threads_ok st'" using d(2) d(6) [of p] p by (simp add: threads_ok_def)
    show "\<forall>x \<in> {p}. x \<in> l_live st' \<and> free st' f4 x" using d(6,7) p by (simp add: free_def)
    show "\<forall>x \<in> l_live st'. x \<in> {p} \<or> placed st' f4 x" using d(8) p by (simp add: placed_def idle_def) blast
  qed (use d(3-5) p in \<open>simp_all add: queues_ok_def fds_ok_def sig_ok_def\<close>)
  moreover have "timely st' f4" using takes_timely [OF tk t2] p by (simp add: timely_def)
  moreover have "same_locks st f st' f4"
  proof -
    have "same_locks st f st4 f4" using w tk same_locks_trans unfolding wakes_def takes_def by blast
    then show ?thesis by (simp add: same_locks_def stopped_at_def p)
  qed
  ultimately show ?thesis using 4(4) p by (auto simp: running_def)
qed

text \<open>When a thread is ready, rescheduling switches to one whose priority is no lower.\<close>

lemma reschedule_runs:
  assumes o: "lwp_ok {} st f" and t: "timely st f" and now: "now > 0" and c: "l_current st \<notin> set (f DeadQ)"
    and x: "x \<in> set (f (SchedQ i))" "\<not> pr_dead (l_proc st x)"
  shows "\<exists>st'. lwpReschedule now st = Some st' \<and>
    (\<forall>j. \<forall>y \<in> set (f (SchedQ j)). \<not> pr_dead (l_proc st y) \<longrightarrow> j \<le> pr_pri (l_proc st' (l_current st')))"
proof -
  obtain f1 where 1: "lwp_ok {} (lwpSigWakeup st) f1" "wakes st f (lwpSigWakeup st) f1" "f1 SaveQ = []"
    using sig_wakeup_ok [OF o] t unfolding timely_def by blast
  obtain st2 f2 where 2: "lwpWakeupSleep now (lwpSigWakeup st) = Some st2" "lwp_ok {} st2 f2" "wakes (lwpSigWakeup st) f1 st2 f2"
    using wakeup_sleep_ok [OF 1(1,3)] by blast
  have w: "wakes st f st2 f2" by (rule wakes_trans [OF 1(2) 2(3)])
  have "l_current st2 \<notin> set (f2 DeadQ)" using w c by (simp add: wakes_def)
  then obtain st3 f3 where 3: "bury_loop st2 = Some st3" "lwp_ok {} st3 f3" "takes st2 f2 st3 f3" "\<forall>i. f3 (SchedQ i) = f2 (SchedQ i)"
    using bury_loop_ok [OF 2(2)] by blast
  obtain q st4 f4 where 4: "next_thread (l_maxpri st3 + 1) st3 = Some (q, st4)" "takes st3 f3 st4 f4"
    "\<forall>j < l_maxpri st3 + 1. \<forall>x \<in> set (f3 (SchedQ j)). \<not> pr_dead (l_proc st3 x) \<longrightarrow>
      (\<exists>i < l_maxpri st3 + 1. \<exists>p. q = Some p \<and> j \<le> i \<and> p \<in> set (f3 (SchedQ i)))"
    using next_thread_ok [OF 3(2), of "l_maxpri st3 + 1"] by (elim exE conjE) (rule that; assumption)
  note d = okD [OF 3(2)]
  have pri: "pr_pri (l_proc st3 y) = j \<and> j \<le> l_maxpri st3" if "y \<in> set (f3 (SchedQ j))" for y j
  proof -
    have q: "\<forall>q. set (f3 q) \<subseteq> l_live st3" "\<forall>i. \<forall>p \<in> set (f3 (SchedQ i)). pr_pri (l_proc st3 p) = i" using d(3) by (simp_all add: queues_ok_def)
    have "\<forall>p \<in> l_live st3. pr_pri (l_proc st3 p) \<le> l_maxpri st3" using d(2) by (simp add: threads_ok_def)
    moreover have "y \<in> l_live st3" "pr_pri (l_proc st3 y) = j" using q that by (blast, blast)
    ultimately show ?thesis by auto
  qed
  have dead: "pr_dead (l_proc st3 y) = pr_dead (l_proc st y)" for y using w 3(3) by (simp add: wakes_def takes_def)
  have sub: "set (f (SchedQ j)) \<subseteq> set (f3 (SchedQ j))" for j using w 3(4) by (simp add: wakes_def)
  have best: "\<exists>p. q = Some p \<and> j \<le> pr_pri (l_proc st4 p)" if y: "y \<in> set (f (SchedQ j))" "\<not> pr_dead (l_proc st y)" for y j
  proof -
    have y3: "y \<in> set (f3 (SchedQ j))" using sub y(1) by blast
    then have "j < l_maxpri st3 + 1" using pri by fastforce
    then obtain k p where k: "q = Some p" "j \<le> k" "p \<in> set (f3 (SchedQ k))" using 4(3) y3 y(2) dead by blast
    then have "pr_pri (l_proc st4 p) = k" using pri 4(2) by (simp add: takes_def)
    then show ?thesis using k by blast
  qed
  then obtain p where p: "q = Some p" using x by blast
  then have "lwpReschedule now st = Some (st4\<lparr>l_current := p\<rparr>)" using 2(1) 3(1) 4(1) by (simp add: lwpReschedule_def)
  then show ?thesis using best p by auto
qed

section \<open>The operations\<close>

lemma threads_ok_upd:
  assumes t: "threads_ok st" "p \<in> l_live st"
    and st': "l_live st' = l_live st" "l_selproc st' = l_selproc st" "l_current st' = l_current st" "l_maxpri st' = l_maxpri st"
      "\<forall>x. x \<noteq> p \<longrightarrow> l_proc st' x = l_proc st x"
    and p: "pr_pri (l_proc st' p) = pr_pri (l_proc st p) \<or>
        0 < pr_pri (l_proc st' p) \<and> pr_pri (l_proc st' p) \<le> l_maxpri st \<and> p \<noteq> l_selproc st" "pr_pc (l_proc st' p) = Selecting \<longleftrightarrow> p = l_selproc st"
      "pr_dead (l_proc st' p) \<longrightarrow> pr_pc (l_proc st' p) = User" "p = l_selproc st \<longrightarrow> \<not> pr_dead (l_proc st' p)"
  shows "threads_ok st'"
proof -
  have a: "(pr_pri (l_proc st x) = 0 \<longleftrightarrow> x = l_selproc st) \<and> (pr_pc (l_proc st x) = Selecting \<longleftrightarrow> x = l_selproc st) \<and>
        (pr_dead (l_proc st x) \<longrightarrow> pr_pc (l_proc st x) = User) \<and> pr_pri (l_proc st x) \<le> l_maxpri st" if "x \<in> l_live st" for x
    using t(1) that by (simp add: threads_ok_def)
  have "(pr_pri (l_proc st' x) = 0 \<longleftrightarrow> x = l_selproc st) \<and> (pr_pc (l_proc st' x) = Selecting \<longleftrightarrow> x = l_selproc st) \<and>
        (pr_dead (l_proc st' x) \<longrightarrow> pr_pc (l_proc st' x) = User) \<and> pr_pri (l_proc st' x) \<le> l_maxpri st" if "x \<in> l_live st" for x
    using a [OF that] st'(5) p by (cases "x = p"; cases "pr_pri (l_proc st' p) = pr_pri (l_proc st p)") simp_all
  moreover have s: "l_selproc st \<in> l_live st" "\<not> pr_dead (l_proc st (l_selproc st))" "l_current st \<in> l_live st"
    using t(1) by (simp_all add: threads_ok_def)
  moreover have "\<not> pr_dead (l_proc st' (l_selproc st))" using p(4) st'(5) s(2) by (cases "l_selproc st = p") simp_all
  ultimately show ?thesis by (simp add: threads_ok_def st'(1-4))
qed

lemma queues_ok_other:
  assumes q: "queues_ok st f" "\<forall>q. p \<notin> set (f q)"
    and st': "l_live st \<subseteq> l_live st'" "l_fdwait st' = l_fdwait st" "\<forall>x. x \<noteq> p \<longrightarrow> l_proc st' x = l_proc st x"
  shows "queues_ok st' f"
proof -
  have e: "x \<in> set (f q) \<Longrightarrow> l_proc st' x = l_proc st x" "x \<in> sleepers f \<Longrightarrow> l_proc st' x = l_proc st x" for x q
    using q(2) st'(3) by (metis, metis Un_iff sleepers_def)
  show ?thesis unfolding queues_ok_def
  proof (intro conjI allI ballI)
    show "set (f q) \<subseteq> l_live st'" for q using q(1) st'(1) unfolding queues_ok_def by (meson order_trans)
  qed (use q(1) in \<open>auto simp: queues_ok_def e st'(2)\<close>)
qed

lemma fds_ok_other:
  assumes q: "fds_ok st f" "\<forall>d. l_fdwait st d \<noteq> Some p"
    and st': "l_live st \<subseteq> l_live st'" "l_fdwait st' = l_fdwait st" "l_nfds st' = l_nfds st" "l_maxfd st' = l_maxfd st"
      "\<forall>x. x \<noteq> p \<longrightarrow> l_proc st' x = l_proc st x"
  shows "fds_ok st' f"
proof -
  have "l_proc st' x = l_proc st x" if "l_fdwait st d = Some x" for d x using that q(2) st'(5) by metis
  then show ?thesis using q(1) st' unfolding fds_ok_def by (metis subsetD)
qed

lemma ok_upd:
  assumes o: "lwp_ok X st f" and p: "p \<in> X" and g: "\<And>x. pr_next (g x) = pr_next x"
      "pr_pri (g (l_proc st p)) = pr_pri (l_proc st p) \<or>
        0 < pr_pri (g (l_proc st p)) \<and> pr_pri (g (l_proc st p)) \<le> l_maxpri st \<and> p \<noteq> l_selproc st"
    "pr_pc (g (l_proc st p)) = Selecting \<longleftrightarrow> p = l_selproc st" "pr_dead (g (l_proc st p)) \<Longrightarrow> pr_pc (g (l_proc st p)) = User"
  shows "lwp_ok X (upd p g st) f"
proof -
  note d = okD [OF o]
  have fr: "\<forall>q. p \<notin> set (f q)" "\<forall>d. l_fdwait st d \<noteq> Some p" "l_sigwaiter st \<noteq> Some p" using d(7) [OF p] by (auto simp: free_def)
  have ns: "x \<in> sleepers f \<Longrightarrow> x \<noteq> p" for x using fr(1) by (auto simp: sleepers_def)
  have nq: "x \<in> set (f q) \<Longrightarrow> x \<noteq> p" for x q using fr(1) by auto
  have nd: "p = l_selproc st \<Longrightarrow> \<not> pr_dead (g (l_proc st p))" using g(3,4) by force
  have "rep (upd p g st) f" using d(1) g(1) by simp
  moreover have "threads_ok (upd p g st)" using d(2) g(2-4) nd by (intro threads_ok_upd [OF d(2) d(6) [OF p]]) simp_all
  moreover have "queues_ok (upd p g st) f" by (rule queues_ok_other [OF d(3) fr(1)]) simp_all
  moreover have "fds_ok (upd p g st) f" by (rule fds_ok_other [OF d(4) fr(2)]) simp_all
  moreover have "sig_ok (upd p g st) f" using d(5) fr(3) unfolding sig_ok_def by simp
  ultimately show ?thesis using d(6-8) unfolding lwp_ok_def free_def placed_def idle_def by simp blast
qed

lemma ok_wait:
  assumes o: "lwp_ok X st f" and p: "p \<in> X"
    and q: "(\<exists>l. q = Wq l \<and> pr_pc (l_proc st p) = In_wrlock l) \<or> (\<exists>l. q = Rq l \<and> pr_pc (l_proc st p) = In_rdlock l)"
  shows "lwp_ok (X - {p}) (lwpAddTail q p st) (f(q := f q @ [p]))" (is "lwp_ok _ ?st ?f")
proof -
  note d = okD [OF o]
  have fr: "\<forall>q. p \<notin> set (f q)" "\<forall>d. l_fdwait st d \<noteq> Some p" "l_sigwaiter st \<noteq> Some p" using d(7) [OF p] by (auto simp: free_def)
  have sl: "sleepers ?f = sleepers f" using q by (auto simp: sleepers_def)
  have "rep ?st ?f" by (intro add_tail_rep d(1) fr(1))
  moreover have "threads_ok ?st" using d(2) by (simp add: threads_ok_def)
  moreover have "queues_ok ?st ?f" using d(3) d(6) [OF p] q unfolding queues_ok_def sl by auto
  moreover have "fds_ok ?st ?f" using d(4) fr(2) unfolding fds_ok_def sl by auto
  moreover have "sig_ok ?st ?f" using d(5) fr(3) unfolding sig_ok_def by auto
  moreover have "\<forall>x \<in> X - {p}. x \<in> l_live ?st \<and> free ?st ?f x" using d(6,7) unfolding free_def by auto
  moreover have "placed ?st ?f x" if "x \<in> l_live ?st" "x \<notin> X - {p}" for x
    using that d(8) [of x] unfolding placed_def idle_def sl somewhere_added by auto
  ultimately show ?thesis unfolding lwp_ok_def by blast
qed

lemma ok_fields:
  assumes "lwp_ok X st f" "l_proc st' = l_proc st" "l_queue st' = l_queue st" "l_current st' = l_current st" "l_live st' = l_live st"
    "l_nfds st' = l_nfds st" "l_maxfd st' = l_maxfd st" "l_fdwait st' = l_fdwait st" "l_selproc st' = l_selproc st"
    "l_sigwaiter st' = l_sigwaiter st" "l_maxpri st \<le> l_maxpri st'"
  shows "lwp_ok X st' f"
proof -
  note d = okD [OF assms(1)]
  have "threads_ok st'" using d(2) assms(2-) unfolding threads_ok_def by (metis le_trans)
  moreover have "rep st' f" by (rule rep_cong [OF d(1)]) (simp_all add: assms(2-10))
  moreover have "queues_ok st' f" using d(3) by (simp add: queues_ok_def assms(2-10))
  moreover have "fds_ok st' f" using d(4) by (simp add: fds_ok_def assms(2-10))
  moreover have "sig_ok st' f" using d(5) by (simp add: sig_ok_def assms(2-10))
  moreover have "free st' f = free st f" "placed st' f = placed st f" by (simp_all add: fun_eq_iff free_def placed_def idle_def assms(2-10))
  ultimately show ?thesis using assms(1,5) unfolding lwp_ok_def by simp
qed

lemma ok_new:
  assumes o: "lwp_ok X st f" and p: "p \<notin> l_live st" and pri: "0 < pri" "pri \<le> l_maxpri st"
  shows "lwp_ok (insert p X) (upd p (\<lambda>_. \<lparr>pr_next = None, pr_dead = False, pr_pri = pri, pr_runtime = - 1, pr_fd = - 1,
      pr_fd_ready = False, pr_pc = User\<rparr>) (st\<lparr>l_live := insert p (l_live st)\<rparr>)) f" (is "lwp_ok _ ?st f")
proof -
  note d = okD [OF o]
  have "\<forall>q. set (f q) \<subseteq> l_live st" using d(3) unfolding queues_ok_def by blast
  then have nq: "p \<notin> set (f q)" for q using p by blast
  then have ns: "p \<notin> sleepers f" by (simp add: sleepers_def)
  have nf: "l_fdwait st e \<noteq> Some p" for e using d(4) p unfolding fds_ok_def by blast
  have nsig: "l_sigwaiter st \<noteq> Some p" using d(5) p unfolding sig_ok_def by blast
  have sel: "p \<noteq> l_selproc st" "p \<noteq> l_current st" using d(2) p unfolding threads_ok_def by blast+
  have "linked (l_proc ?st) (f q) = linked (l_proc st) (f q)" for q using nq [of q] by (intro linked_next) auto
  then have "rep ?st f" using d(1) unfolding rep_def is_queue_def by simp
  moreover have "threads_ok ?st" using d(2) pri sel unfolding threads_ok_def by auto
  moreover have "queues_ok ?st f" by (rule queues_ok_other [OF d(3), of p]) (use nq in auto)
  moreover have "fds_ok ?st f" by (rule fds_ok_other [OF d(4), of p]) (use nf in auto)
  moreover have "sig_ok ?st f" using d(5) nsig unfolding sig_ok_def by auto
  moreover have "\<forall>x \<in> insert p X. x \<in> l_live ?st \<and> free ?st f x" using d(6,7) nq nf nsig unfolding free_def by simp
  moreover have "\<forall>x \<in> l_live ?st. x \<in> insert p X \<or> placed ?st f x" using d(8) unfolding placed_def idle_def by simp blast
  ultimately show ?thesis unfolding lwp_ok_def by blast
qed

lemma running_current: "running st f \<Longrightarrow> free st f (l_current st) \<and> l_current st \<in> l_live st"
  unfolding running_def lwp_ok_def by blast

text \<open>Yielding, from a state in which the current thread is in hand.\<close>

lemma yield_ok:
  assumes o: "lwp_ok {l_current st} st f" "timely st f" "now > 0" and r: "lwpYield now st = Some st'"
  shows "\<exists>f'. running st' f' \<and> same_locks st f st' f'"
proof -
  let ?c = "l_current st" and ?st = "lwpReady (l_current st) st"
  let ?f = "f(SchedQ (pr_pri (l_proc st ?c)) := f (SchedQ (pr_pri (l_proc st ?c))) @ [?c])"
  have o1: "lwp_ok {} ?st ?f" using ok_ready [OF o(1), of ?c] by simp
  have t: "timely ?st ?f" using o(2) by (simp add: timely_def lwpReady_def)
  have "?c \<notin> set (f DeadQ)" using okD(7) [OF o(1), of ?c] by (simp add: free_def)
  then have nd: "l_current ?st \<notin> set (?f DeadQ)" by (simp add: lwpReady_def)
  have rr: "lwpReschedule now ?st = Some st'" using r by (simp add: lwpYield_def)
  obtain f' where "running st' f'" "same_locks ?st ?f st' f'" using reschedule_ok [OF o1 t o(3) nd rr] by blast
  then show ?thesis using same_locks_trans [OF same_locks_ready] by blast
qed

lemma lwp_create_ok:
  assumes o: "running st f" and now: "now > 0" and p: "\<forall>p. got = Some p \<longrightarrow> p \<notin> l_live st" "pri > 0"
    and r: "lwpCreate now pri User got stack st = Some st'"
  shows "\<exists>f'. running st' f' \<and> same_locks st f st' f'"
proof (cases "got")
  case None
  then show ?thesis using r o by (auto simp: lwpCreate_def)
next
  case (Some p)
  define k where "k = (if LWP_MAX_PRIO \<le> pri then LWP_MAX_PRIO - 1 else pri)"
  define s0 where "s0 = (if l_maxpri st < k then st\<lparr>l_maxpri := k\<rparr> else st)"
  have k: "0 < k" "k \<le> l_maxpri s0" using p(2) by (auto simp: k_def s0_def LWP_MAX_PRIO_def)
  have o0: "lwp_ok {l_current st} s0 f" by (rule ok_fields [of "{l_current st}" st f]) (use o in \<open>simp_all add: running_def s0_def\<close>)
  have same0: "l_current s0 = l_current st" "l_live s0 = l_live st" "l_proc s0 = l_proc st" "l_count s0 = l_count st" "l_oops s0 = l_oops st"
    "l_readers s0 = l_readers st" "l_writers s0 = l_writers st" by (auto simp: s0_def)
  have t0: "timely s0 f" using o by (auto simp: running_def timely_def s0_def)
  show ?thesis
  proof (cases stack)
    case False
    then have "st' = s0" using r Some by (auto simp: lwpCreate_def k_def s0_def Let_def split: if_splits)
    then show ?thesis using o0 t0 o same0 by (intro exI [of _ f]) (auto simp: running_def same_locks_def stopped_at_def)
  next
    case True
    have np: "p \<notin> l_live s0" using p(1) Some same0 by simp
    define s1 where "s1 = upd p (\<lambda>_. \<lparr>pr_next = None, pr_dead = False, pr_pri = k, pr_runtime = - 1, pr_fd = - 1,
      pr_fd_ready = False, pr_pc = User\<rparr>) (s0\<lparr>l_live := insert p (l_live s0)\<rparr>)"
    have o1: "lwp_ok {p, l_current st} s1 f" unfolding s1_def by (rule ok_new [OF o0 np k])
    have cp: "l_current st \<noteq> p" "l_current st \<in> l_live st" using running_current [OF o] np same0 by auto
    let ?f2 = "f(SchedQ k := f (SchedQ k) @ [p])"
    have pk: "pr_pri (l_proc s1 p) = k" by (simp add: s1_def)
    have "lwp_ok ({p, l_current st} - {p}) (lwpReady p s1) ?f2" using ok_ready [OF o1, of p] pk by (metis insertI1)
    moreover have "{p, l_current st} - {p} = {l_current st}" using cp by auto
    moreover have cs: "l_current (lwpReady p s1) = l_current st" by (simp add: lwpReady_def s1_def same0)
    ultimately have o2: "lwp_ok {l_current (lwpReady p s1)} (lwpReady p s1) ?f2" by simp
    have t1: "timely (lwpReady p s1) ?f2"
    proof -
      have "\<forall>q. set (f q) \<subseteq> l_live s0" using okD(3) [OF o0] unfolding queues_ok_def by blast
      then have "p \<notin> set (f DelayQ)" using np by blast
      then show ?thesis using t0 by (auto simp: timely_def lwpReady_def s1_def)
    qed
    have "lwpReschedule now (lwpReady (l_current s1) (lwpReady p s1)) = Some st'"
      using r Some True by (simp only: lwpCreate_def option.simps Let_def k_def [symmetric] s0_def [symmetric] s1_def [symmetric] if_True if_False simp_thms)
    moreover have "l_current s1 = l_current st" by (simp add: s1_def same0)
    ultimately have "lwpYield now (lwpReady p s1) = Some st'" using cs by (simp add: lwpYield_def)
    then obtain f' where f': "running st' f'" "same_locks (lwpReady p s1) ?f2 st' f'" using yield_ok [OF o2 t1 now] by blast
    have "same_locks s1 f st' f'" using same_locks_trans [OF same_locks_ready f'(2)] by simp
    moreover have "same_locks st f s1 f" using np same0 by (auto simp: same_locks_def stopped_at_def s1_def)
    ultimately show ?thesis using f'(1) same_locks_trans by blast
  qed
qed

lemma running_user:
  assumes o: "running st f" and u: "pr_pc (l_proc st (l_current st)) \<noteq> Selecting"
  shows "l_current st \<noteq> l_selproc st" "0 < pr_pri (l_proc st (l_current st))"
proof -
  have "l_current st \<in> l_live st" "threads_ok st" using o okD(2) running_current unfolding running_def by blast+
  then show "l_current st \<noteq> l_selproc st" "0 < pr_pri (l_proc st (l_current st))" using u by (auto simp: threads_ok_def)
qed

lemma exit_ok:
  assumes o: "running st f" and u: "pr_pc (l_proc st (l_current st)) = User" and now: "now > 0" and r: "lwpExit now st = Some st'"
  shows "\<exists>f'. running st' f' \<and> same_locks st f st' f'"
proof -
  let ?st = "upd (l_current st) (pr_dead_update (\<lambda>_. True)) st"
  have n: "l_current st \<noteq> l_selproc st" using running_user(1) [OF o] u by simp
  have "lwp_ok {l_current st} ?st f" by (rule ok_upd) (use o n u in \<open>simp_all add: running_def\<close>)
  moreover have "timely ?st f" using o by (auto simp: running_def timely_def)
  moreover have "lwpYield now ?st = Some st'" using r by (simp add: lwpExit_def)
  moreover have "same_locks st f ?st f" by (auto simp: same_locks_def stopped_at_def)
  ultimately show ?thesis using yield_ok [of ?st f now st'] now same_locks_trans by fastforce
qed

text \<open>Going to sleep: what all of it comes down to.\<close>

lemma set_priority_ok:
  assumes o: "running st f" and u: "pr_pc (l_proc st (l_current st)) = User" and now: "now > 0" and pri: "pri > 0"
    and r: "lwpSetPriority now pri st = Some st'"
  shows "\<exists>f'. running st' f' \<and> same_locks st f st' f'"
proof -
  define k where "k = (if LWP_MAX_PRIO \<le> pri then LWP_MAX_PRIO - 1 else pri)"
  define s0 where "s0 = (if l_maxpri st < k then st\<lparr>l_maxpri := k\<rparr> else st)"
  define s1 where "s1 = upd (l_current st) (pr_pri_update (\<lambda>_. k)) s0"
  have k: "0 < k" "k \<le> l_maxpri s0" using pri by (auto simp: k_def s0_def LWP_MAX_PRIO_def)
  have o0: "lwp_ok {l_current st} s0 f" by (rule ok_fields [of "{l_current st}" st f]) (use o in \<open>simp_all add: running_def s0_def\<close>)
  have same0: "l_current s0 = l_current st" "l_live s0 = l_live st" "l_proc s0 = l_proc st" "l_count s0 = l_count st" "l_oops s0 = l_oops st"
    "l_readers s0 = l_readers st" "l_writers s0 = l_writers st" "l_selproc s0 = l_selproc st" by (auto simp: s0_def)
  have n: "l_current st \<noteq> l_selproc st" using running_user(1) [OF o] u by simp
  have nd: "\<not> pr_dead (l_proc st (l_current st))" using o by (simp add: running_def)
  have o1: "lwp_ok {l_current st} s1 f" unfolding s1_def
  proof (rule ok_upd [OF o0])
    show "pr_pri (pr_pri_update (\<lambda>_. k) (l_proc s0 (l_current st))) = pr_pri (l_proc s0 (l_current st)) \<or>
        0 < pr_pri (pr_pri_update (\<lambda>_. k) (l_proc s0 (l_current st))) \<and>
        pr_pri (pr_pri_update (\<lambda>_. k) (l_proc s0 (l_current st))) \<le> l_maxpri s0 \<and> l_current st \<noteq> l_selproc s0"
      using k n unfolding same0 by simp
    show "pr_pc (pr_pri_update (\<lambda>_. k) (l_proc s0 (l_current st))) = Selecting \<longleftrightarrow> l_current st = l_selproc s0"
      using u n unfolding same0 by simp
    show "pr_pc (pr_pri_update (\<lambda>_. k) (l_proc s0 (l_current st))) = User" using u unfolding same0 by simp
  qed simp_all
  have t1: "timely s1 f" using o by (auto simp: running_def timely_def s1_def s0_def)
  have c1: "l_current s1 = l_current st" "\<not> pr_dead (l_proc s1 (l_current st))" using nd by (simp_all add: s1_def same0)
  have sl: "same_locks st f s1 f" using same0 by (auto simp: same_locks_def stopped_at_def s1_def)
  have y: "(if k < pr_pri (l_proc st (l_current st)) then lwpYield now s1 else Some s1) = Some st'"
    using r unfolding lwpSetPriority_def Let_def k_def [symmetric] s0_def [symmetric] same0(1) s1_def [symmetric] .
  show ?thesis
  proof (cases "k < pr_pri (l_proc st (l_current st))")
    case False
    then have "st' = s1" using y by (simp only: if_False option.inject)
    moreover have "running s1 f" using o1 t1 c1 unfolding running_def by simp
    ultimately show ?thesis using sl by blast
  next
    case True
    then have "lwpYield now s1 = Some st'" using y by (simp only: if_True)
    then obtain f' where "running st' f'" "same_locks s1 f st' f'" using yield_ok [of s1 f now st'] o1 t1 c1 now by auto
    then show ?thesis using same_locks_trans [OF sl] by blast
  qed
qed

lemma sel_ready_if:
  assumes o: "running st f" and n: "l_current st \<noteq> l_selproc st"
    and st1: "st1 = (if l_maxfd st = 0 \<and> q_head (l_queue st DelayQ) = None then lwpReady (l_selproc st) st else st)"
  shows "\<exists>f1. lwp_ok {l_current st} st1 f1 \<and> timely st1 f1 \<and> l_selproc st \<in> set (f1 (SchedQ 0)) \<and> same_locks st f st1 f1"
proof (cases "l_maxfd st = 0 \<and> q_head (l_queue st DelayQ) = None")
  case True
  have "lwp_ok {l_current st} (lwpReady (l_selproc st) st) (f(SchedQ 0 := [l_selproc st]))"
    using o n by (intro ok_ready_sel) (auto simp: running_def)
  moreover have "timely (lwpReady (l_selproc st) st) (f(SchedQ 0 := [l_selproc st]))" using o by (simp add: running_def timely_def lwpReady_def)
  ultimately show ?thesis using True same_locks_ready unfolding st1 by (intro exI [of _ "f(SchedQ 0 := [l_selproc st])"]) simp
next
  case False
  have ok: "lwp_ok {l_current st} st f" using o by (simp add: running_def)
  note d = okD [OF ok]
  have "f DelayQ \<noteq> [] \<or> l_maxfd st \<noteq> 0" using False rep_head [OF d(1), of DelayQ] by auto
  then have ni: "\<not> idle st f" by (auto simp: idle_def sleepers_def)
  have s: "l_selproc st \<in> l_live st" "pr_pc (l_proc st (l_selproc st)) = Selecting" using d(2) by (simp_all add: threads_ok_def)
  have "placed st f (l_selproc st)" using d(8) s(1) n by auto
  moreover have "l_fdwait st e \<noteq> Some (l_selproc st)" for e using d(4) s(2) unfolding fds_ok_def by force
  moreover have "l_sigwaiter st \<noteq> Some (l_selproc st)" using d(5) s(2) unfolding sig_ok_def by force
  ultimately obtain q where "l_selproc st \<in> set (f q)" using ni unfolding placed_def by blast
  then have "l_selproc st \<in> set (f (SchedQ 0))" using sel_queue [OF ok] by blast
  moreover have "st1 = st" unfolding st1 by (rule if_not_P [OF False])
  ultimately show ?thesis using ok o by (intro exI [of _ f]) (simp add: running_def)
qed

lemma ok_sleep:
  assumes o: "lwp_ok {c} st f" and sel: "l_selproc st \<in> set (f (SchedQ 0))" and c: "c \<noteq> l_selproc st" "\<not> pr_dead (l_proc st c)"
    and r: "rep st' f'" and f': "\<forall>q. q \<noteq> DelayQ \<longrightarrow> f' q = f q" "f' DelayQ = f DelayQ @ (if delay then [c] else [])"
    and same: "\<forall>x. x \<noteq> c \<longrightarrow> (\<exists>n. l_proc st' x = (l_proc st x)\<lparr>pr_next := n\<rparr>)" "l_live st' = l_live st" "l_selproc st' = l_selproc st"
      "l_current st' = l_current st" "l_sigwaiter st' = l_sigwaiter st" "l_maxpri st' = l_maxpri st"
      "pr_pri (l_proc st' c) = pr_pri (l_proc st c)" "pr_dead (l_proc st' c) = pr_dead (l_proc st c)"
    and sl: "fd < 0 \<and> delay \<and> pr_pc (l_proc st' c) = In_sleep_until \<and> pr_fd (l_proc st' c) < 0 \<and> l_fdwait st' = l_fdwait st \<and> l_nfds st' = l_nfds st
        \<and> l_maxfd st' = l_maxfd st
      \<or> 0 \<le> fd \<and> l_fdwait st fd = None \<and> pr_pc (l_proc st' c) = In_sleep_fd \<and> pr_fd (l_proc st' c) = fd \<and> l_fdwait st' = (l_fdwait st)(fd := Some c)
        \<and> l_nfds st' = l_nfds st + 1 \<and> l_maxfd st' = max fd (l_maxfd st) \<and> (delay \<or> pr_runtime (l_proc st' c) = - 1)"
  shows "lwp_ok {} st' f'"
proof -
  note d = okD [OF o]
  have fr: "\<forall>q. c \<notin> set (f q)" "\<forall>d. l_fdwait st d \<noteq> Some c" "l_sigwaiter st \<noteq> Some c" using d(7) by (auto simp: free_def)
  have fld: "pr_pc (l_proc st' x) = pr_pc (l_proc st x)" "pr_fd (l_proc st' x) = pr_fd (l_proc st x)" "pr_pri (l_proc st' x) = pr_pri (l_proc st x)"
    "pr_dead (l_proc st' x) = pr_dead (l_proc st x)" "pr_runtime (l_proc st' x) = pr_runtime (l_proc st x)" if "x \<noteq> c" for x
  proof -
    obtain n where "l_proc st' x = (l_proc st x)\<lparr>pr_next := n\<rparr>" using same(1) \<open>x \<noteq> c\<close> by blast
    then show "pr_pc (l_proc st' x) = pr_pc (l_proc st x)" "pr_fd (l_proc st' x) = pr_fd (l_proc st x)" "pr_pri (l_proc st' x) = pr_pri (l_proc st x)"
      "pr_dead (l_proc st' x) = pr_dead (l_proc st x)" "pr_runtime (l_proc st' x) = pr_runtime (l_proc st x)" by simp_all
  qed
  have inq: "x \<in> set (f' q) \<longleftrightarrow> x \<in> set (f q) \<or> x = c \<and> delay \<and> q = DelayQ" for x q
    by (cases "q = DelayQ") (simp_all add: f')
  have slp: "x \<in> sleepers f' \<longleftrightarrow> x \<in> sleepers f \<or> x = c \<and> delay" for x by (auto simp: sleepers_def inq)
  have pcc: "pr_pc (l_proc st' c) \<in> {In_sleep_fd, In_sleep_until}" using sl by auto
  have clive: "c \<in> l_live st" using d(6) by simp
  have fw: "l_fdwait st' e = Some x \<longleftrightarrow> l_fdwait st e = Some x \<or> x = c \<and> 0 \<le> fd \<and> e = fd" for e x using sl by (auto split: if_splits)
  have "threads_ok st'"
  proof -
    have a: "(pr_pri (l_proc st x) = 0 \<longleftrightarrow> x = l_selproc st) \<and> (pr_pc (l_proc st x) = Selecting \<longleftrightarrow> x = l_selproc st) \<and>
        (pr_dead (l_proc st x) \<longrightarrow> pr_pc (l_proc st x) = User) \<and> pr_pri (l_proc st x) \<le> l_maxpri st" if "x \<in> l_live st" for x
      using d(2) that by (simp add: threads_ok_def)
    have "(pr_pri (l_proc st' x) = 0 \<longleftrightarrow> x = l_selproc st) \<and> (pr_pc (l_proc st' x) = Selecting \<longleftrightarrow> x = l_selproc st) \<and>
        (pr_dead (l_proc st' x) \<longrightarrow> pr_pc (l_proc st' x) = User) \<and> pr_pri (l_proc st' x) \<le> l_maxpri st" if "x \<in> l_live st" for x
      using a [OF that] fld same c pcc by (cases "x = c") auto
    moreover have "l_selproc st \<in> l_live st" "\<not> pr_dead (l_proc st' (l_selproc st))" "l_current st \<in> l_live st"
      using d(2) fld(4) c(1) by (simp_all add: threads_ok_def)
    ultimately show ?thesis by (simp add: threads_ok_def same)
  qed
  moreover have "queues_ok st' f'" unfolding queues_ok_def
  proof (intro conjI allI ballI subsetI impI)
    note dq = d(3) [unfolded queues_ok_def]
    show "x \<in> l_live st'" if "x \<in> set (f' q)" for x q using that dq clive same(2) unfolding inq by (metis subsetD)
    have ne: "x \<noteq> c \<and> x \<in> set (f q)" if "x \<in> set (f' q)" "q \<noteq> DelayQ" for x q using that fr(1) unfolding inq by metis
    show "pr_pri (l_proc st' x) = i" if "x \<in> set (f' (SchedQ i))" for x i using dq ne [OF that] fld(3) by simp
    show "pr_dead (l_proc st' x)" if "x \<in> set (f' DeadQ)" for x using dq ne [OF that] fld(4) by simp
    show "pr_pc (l_proc st' x) = In_wrlock l" if "x \<in> set (f' (Wq l))" for x l using dq ne [OF that] fld(1) by simp
    show "pr_pc (l_proc st' x) = In_rdlock l" if "x \<in> set (f' (Rq l))" for x l using dq ne [OF that] fld(1) by simp
    have sx: "x = c \<or> x \<noteq> c \<and> x \<in> sleepers f" if "x \<in> sleepers f'" for x using that unfolding slp by blast
    show "pr_pc (l_proc st' x) \<in> {In_sleep_fd, In_sleep_until}" if "x \<in> sleepers f'" for x
      using sx [OF that] pcc dq fld(1) by metis
    show "l_fdwait st' (pr_fd (l_proc st' x)) = Some x" if "x \<in> sleepers f'" "0 \<le> pr_fd (l_proc st' x)" for x
    proof (cases "x = c")
      case True
      then show ?thesis using sl that(2) unfolding fw by auto
    next
      case False
      then have e: "pr_fd (l_proc st' x) = pr_fd (l_proc st x)" "x \<in> sleepers f" using sx [OF that(1)] fld(2) by auto
      then have "l_fdwait st (pr_fd (l_proc st x)) = Some x" using dq that(2) by simp
      then show ?thesis unfolding fw e by blast
    qed
  qed
  moreover have "fds_ok st' f'" unfolding fds_ok_def
  proof (intro conjI allI impI)
    note df = d(4) [unfolded fds_ok_def]
    show "finite (dom (l_fdwait st'))" using df sl by auto
    show "l_nfds st' = int (card (dom (l_fdwait st')))" using df sl by (auto simp: card_insert_if domIff)
    fix e x
    assume x: "l_fdwait st' e = Some x"
    have "x \<in> l_live st' \<and> pr_fd (l_proc st' x) = e \<and> 0 \<le> e \<and> e \<le> l_maxfd st' \<and> pr_pc (l_proc st' x) = In_sleep_fd \<and>
      (x \<in> sleepers f' \<or> pr_runtime (l_proc st' x) = - 1 \<and> (\<forall>q. x \<notin> set (f' q)))"
    proof (cases "x = c")
      case True
      then have "0 \<le> fd" "e = fd" using x fr(2) unfolding fw by blast+
      then have y: "pr_pc (l_proc st' c) = In_sleep_fd" "pr_fd (l_proc st' c) = fd" "l_maxfd st' = max fd (l_maxfd st)"
        "delay \<or> pr_runtime (l_proc st' c) = - 1" using sl by auto
      have "c \<in> sleepers f' \<or> pr_runtime (l_proc st' c) = - 1 \<and> (\<forall>q. c \<notin> set (f' q))"
        using y(4) fr(1) unfolding slp inq by blast
      then show ?thesis using True y clive \<open>0 \<le> fd\<close> \<open>e = fd\<close> by (simp add: same)
    next
      case False
      then have w: "l_fdwait st e = Some x" using x unfolding fw by blast
      have y: "x \<in> l_live st \<and> pr_fd (l_proc st x) = e \<and> 0 \<le> e \<and> e \<le> l_maxfd st \<and> pr_pc (l_proc st x) = In_sleep_fd \<and>
        (x \<in> sleepers f \<or> pr_runtime (l_proc st x) = - 1 \<and> (\<forall>q. x \<notin> set (f q)))" using df w by blast
      moreover have "l_maxfd st \<le> l_maxfd st'" using sl by auto
      ultimately show ?thesis using False fld [OF False] unfolding slp inq same by auto
    qed
    then show "x \<in> l_live st'" "pr_fd (l_proc st' x) = e" "0 \<le> e" "e \<le> l_maxfd st'" "pr_pc (l_proc st' x) = In_sleep_fd"
      "x \<in> sleepers f' \<or> pr_runtime (l_proc st' x) = - 1 \<and> (\<forall>q. x \<notin> set (f' q))" by blast+
  qed
  moreover have "sig_ok st' f'" using d(5) fr(3) unfolding sig_ok_def inq same by (metis fld(1))
  moreover have "placed st' f' x" if "x \<in> l_live st'" for x
  proof (cases "x = c")
    case True
    then show ?thesis using sl inq [of c DelayQ] fw [of fd c] unfolding placed_def by blast
  next
    case False
    then have "placed st f x" using d(8) that same(2) by simp
    moreover have "idle st f \<Longrightarrow> x = l_selproc st \<Longrightarrow> \<exists>q. x \<in> set (f' q)" using sel unfolding inq by blast
    ultimately show ?thesis unfolding placed_def same inq fw by blast
  qed
  ultimately show ?thesis using r unfolding lwp_ok_def by blast
qed

lemma ready_fields [simp]:
  "l_current (lwpReady p st) = l_current st" "l_maxpri (lwpReady p st) = l_maxpri st" "l_live (lwpReady p st) = l_live st"
  "l_maxfd (lwpReady p st) = l_maxfd st" "l_nfds (lwpReady p st) = l_nfds st" "l_fdwait (lwpReady p st) = l_fdwait st"
  "l_selproc (lwpReady p st) = l_selproc st" "l_sigwaiter (lwpReady p st) = l_sigwaiter st" "l_count (lwpReady p st) = l_count st"
  "l_oops (lwpReady p st) = l_oops st" "l_readers (lwpReady p st) = l_readers st" "l_writers (lwpReady p st) = l_writers st"
  "pr_pri (l_proc (lwpReady p st) x) = pr_pri (l_proc st x)" "pr_pc (l_proc (lwpReady p st) x) = pr_pc (l_proc st x)"
  "pr_dead (l_proc (lwpReady p st) x) = pr_dead (l_proc st x)" "pr_runtime (l_proc (lwpReady p st) x) = pr_runtime (l_proc st x)"
  "pr_fd (l_proc (lwpReady p st) x) = pr_fd (l_proc st x)"
  by (simp_all add: lwpReady_def)

lemma ready_comm: "lwpReady p (st\<lparr>l_readfds := a, l_writefds := b, l_nfds := n\<rparr>) = (lwpReady p st)\<lparr>l_readfds := a, l_writefds := b, l_nfds := n\<rparr>"
  "lwpReady p (upd q (pr_runtime_update g) st) = upd q (pr_runtime_update g) (lwpReady p st)"
  by (cases "q_tail (l_queue st (SchedQ (pr_pri (l_proc st p))))"; auto simp: lwpReady_def lwpAddTail_def upd_def Let_def fun_eq_iff)+

lemma same_locks_sleep:
  assumes "same_locks st f st1 f1" "\<forall>q. q \<noteq> DelayQ \<longrightarrow> f2 q = f1 q" "l_count st2 = l_count st1" "l_oops st2 = l_oops st1"
    "l_readers st2 = l_readers st1" "l_writers st2 = l_writers st1" "l_live st2 = l_live st1"
    "\<forall>x. x \<noteq> c \<longrightarrow> pr_pc (l_proc st2 x) = pr_pc (l_proc st1 x)" "pr_pc (l_proc st1 c) = User" "pr_pc (l_proc st2 c) \<in> {In_sleep_fd, In_sleep_until}"
  shows "same_locks st f st2 f2"
proof -
  have "stopped_at st2 k = stopped_at st1 k" if "k \<notin> {User, In_sleep_fd, In_sleep_until}" for k
  proof -
    have "pr_pc (l_proc st2 x) = k \<longleftrightarrow> pr_pc (l_proc st1 x) = k" for x using assms(8-10) that by (cases "x = c") auto
    then show ?thesis by (simp add: stopped_at_def assms(7))
  qed
  then show ?thesis using assms(1-6) by (simp add: same_locks_def)
qed

lemma sleep_fd_ok:
  assumes o: "running st f" and u: "pr_pc (l_proc st (l_current st)) = User" and now: "now > 0" and t: "\<forall>d. timeout = Some d \<longrightarrow> d \<ge> 0"
    and r: "lwpSleepFd now fd rw timeout st = Some st'"
  shows "\<exists>f'. running st' f' \<and> same_locks st f st' f'"
proof (cases "fd < 0 \<or> fd \<ge> FD_SETSIZE \<or> l_fdwait st fd \<noteq> None")
  case True
  then have "st' = st" using r by (auto simp: lwpSleepFd_def split: if_splits)
  then show ?thesis using o by auto
next
  case False
  let ?c = "l_current st"
  have n: "?c \<noteq> l_selproc st" using running_user(1) [OF o] u by simp
  define st1 where "st1 = (if l_maxfd st = 0 \<and> q_head (l_queue st DelayQ) = None then lwpReady (l_selproc st) st else st)"
  obtain f1 where f1: "lwp_ok {?c} st1 f1" "timely st1 f1" "l_selproc st \<in> set (f1 (SchedQ 0))" "same_locks st f st1 f1"
    using sel_ready_if [OF o n st1_def] by blast
  have e1: "l_current st1 = ?c" "l_selproc st1 = l_selproc st" "l_maxfd st1 = l_maxfd st" "l_fdwait st1 = l_fdwait st" "l_nfds st1 = l_nfds st"
    "pr_pc (l_proc st1 ?c) = User" "pr_dead (l_proc st1 ?c) = pr_dead (l_proc st ?c)" using u by (simp_all add: st1_def)
  define B where "B = st1\<lparr>l_readfds := if fst rw then insert fd (l_readfds st) else l_readfds st,
    l_writefds := if snd rw then insert fd (l_writefds st) else l_writefds st, l_nfds := l_nfds st + 1\<rparr>"
  define A where "A = (case timeout of Some t \<Rightarrow> lwpAddTail DelayQ ?c (upd ?c (pr_runtime_update (\<lambda>_. now + t)) B)
    | None \<Rightarrow> upd ?c (pr_runtime_update (\<lambda>_. - 1)) B)"
  define S where "S = goes_on In_sleep_fd (upd ?c (\<lambda>pr. pr\<lparr>pr_fd := fd, pr_fd_ready := False\<rparr>)
    (A\<lparr>l_maxfd := max fd (l_maxfd st), l_fdwait := (l_fdwait st)(fd := Some ?c)\<rparr>))"
  have S: "lwpSleepFd now fd rw timeout st = lwpReschedule now S"
  proof -
    have "mask_fds fd rw st = st\<lparr>l_readfds := if fst rw then insert fd (l_readfds st) else l_readfds st,
      l_writefds := if snd rw then insert fd (l_writefds st) else l_writefds st, l_nfds := l_nfds st + 1\<rparr>"
      by (simp add: mask_fds_def)
    then have b: "wake_selector (mask_fds fd rw st) = B" by (simp add: wake_selector_def B_def st1_def ready_comm)
    have m: "(if fd > l_maxfd A then A\<lparr>l_maxfd := fd\<rparr> else A) = A\<lparr>l_maxfd := max fd (l_maxfd st)\<rparr>" "l_fdwait A = l_fdwait st"
      by (auto simp: A_def B_def e1 max_def split: option.split)
    have "lwpSleepFd now fd rw timeout st = lwpReschedule now (goes_on In_sleep_fd (upd ?c (\<lambda>pr. pr\<lparr>pr_fd := fd, pr_fd_ready := False\<rparr>)
      ((if fd > l_maxfd A then A\<lparr>l_maxfd := fd\<rparr> else A)\<lparr>l_fdwait := (l_fdwait (if fd > l_maxfd A then A\<lparr>l_maxfd := fd\<rparr> else A))(fd := Some ?c)\<rparr>)))"
      using False unfolding lwpSleepFd_def Let_def b A_def [symmetric] by (simp only: de_Morgan_disj if_False simp_thms)
    then show ?thesis unfolding S_def m by (simp add: m)
  qed
  let ?f2 = "f1(DelayQ := f1 DelayQ @ (if timeout \<noteq> None then [?c] else []))"
  have fr: "\<forall>q. ?c \<notin> set (f1 q)" using okD(7) [OF f1(1), of ?c] by (simp add: free_def)
  have rA: "rep A ?f2"
  proof (cases timeout)
    case None
    have "rep B f1" by (rule rep_cong [OF okD(1) [OF f1(1)]]) (simp_all add: B_def)
    then show ?thesis using None by (simp add: A_def)
  next
    case (Some t)
    have "rep B f1" by (rule rep_cong [OF okD(1) [OF f1(1)]]) (simp_all add: B_def)
    then have "rep (upd ?c (pr_runtime_update (\<lambda>_. now + t)) B) f1" by simp
    from add_tail_rep [OF this fr, of DelayQ] show ?thesis using Some by (simp add: A_def)
  qed
  have AS: "l_live A = l_live st1" "l_selproc A = l_selproc st" "l_current A = ?c" "l_sigwaiter A = l_sigwaiter st1" "l_maxpri A = l_maxpri st1"
    "l_nfds A = l_nfds st + 1" "l_count A = l_count st1" "l_oops A = l_oops st1" "l_readers A = l_readers st1" "l_writers A = l_writers st1"
    "pr_pri (l_proc A x) = pr_pri (l_proc st1 x)" "pr_dead (l_proc A x) = pr_dead (l_proc st1 x)" "pr_pc (l_proc A x) = pr_pc (l_proc st1 x)"
    "pr_fd (l_proc A x) = pr_fd (l_proc st1 x)" "pr_fd_ready (l_proc A x) = pr_fd_ready (l_proc st1 x)"
    "pr_runtime (l_proc A x) = (if x = ?c then case timeout of None \<Rightarrow> - 1 | Some t \<Rightarrow> now + t else pr_runtime (l_proc st1 x))" for x
    by (simp_all add: A_def B_def e1 split: option.split)
  have rS: "rep S ?f2" by (rule rep_cong [OF rA]) (simp_all add: S_def goes_on_def)
  have oS: "lwp_ok {} S ?f2"
  proof (rule ok_sleep [OF f1(1) _ _ _ rS, where fd = fd and delay = "timeout \<noteq> None"])
    show "l_selproc st1 \<in> set (f1 (SchedQ 0))" "?c \<noteq> l_selproc st1" using f1(3) n e1(2) by simp_all
    show "\<not> pr_dead (l_proc st1 ?c)" using o e1 by (simp add: running_def)
    show "\<forall>x. x \<noteq> ?c \<longrightarrow> (\<exists>n. l_proc S x = (l_proc st1 x)\<lparr>pr_next := n\<rparr>)"
    proof (intro allI impI)
      fix x
      assume "x \<noteq> ?c"
      then have "l_proc S x = (l_proc st1 x)\<lparr>pr_next := pr_next (l_proc S x)\<rparr>"
        using AS(11-16) [of x] by (cases "l_proc st1 x"; cases "l_proc A x") (simp add: S_def goes_on_def AS)
      then show "\<exists>n. l_proc S x = (l_proc st1 x)\<lparr>pr_next := n\<rparr>" by blast
    qed
  qed (use False in \<open>auto simp: S_def goes_on_def AS e1 split: option.splits\<close>)
  have tS: "timely S ?f2"
  proof -
    have "pr_runtime (l_proc S x) = pr_runtime (l_proc A x)" for x by (simp add: S_def goes_on_def AS)
    then show ?thesis using f1(2) fr t now by (auto simp: timely_def AS split: option.split)
  qed
  have "same_locks st f S ?f2"
    by (rule same_locks_sleep [OF f1(4), where c = ?c]) (simp_all add: S_def goes_on_def AS e1)
  moreover have "?c \<notin> set (?f2 DeadQ)" "l_current S = ?c" using fr by (simp_all add: S_def goes_on_def AS)
  moreover have "lwpReschedule now S = Some st'" using r S by simp
  ultimately show ?thesis using reschedule_ok [OF oS tS now] same_locks_trans by metis
qed

lemma sleep_until_ok:
  assumes o: "running st f" and u: "pr_pc (l_proc st (l_current st)) = User" and now: "now > 0" and t: "until > 0" "pr_fd (l_proc st (l_current st)) < 0"
    and r: "lwpSleepUntil now until st = Some st'"
  shows "\<exists>f'. running st' f' \<and> same_locks st f st' f'"
proof -
  let ?c = "l_current st"
  have n: "?c \<noteq> l_selproc st" using running_user(1) [OF o] u by simp
  define st1 where "st1 = (if l_maxfd st = 0 \<and> q_head (l_queue st DelayQ) = None then lwpReady (l_selproc st) st else st)"
  obtain f1 where f1: "lwp_ok {?c} st1 f1" "timely st1 f1" "l_selproc st \<in> set (f1 (SchedQ 0))" "same_locks st f st1 f1"
    using sel_ready_if [OF o n st1_def] by blast
  have e1: "l_current st1 = ?c" "l_selproc st1 = l_selproc st" "l_maxfd st1 = l_maxfd st" "l_fdwait st1 = l_fdwait st" "l_nfds st1 = l_nfds st"
    "pr_pc (l_proc st1 ?c) = User" "pr_dead (l_proc st1 ?c) = pr_dead (l_proc st ?c)" "pr_fd (l_proc st1 ?c) = pr_fd (l_proc st ?c)"
    using u by (simp_all add: st1_def)
  define A where "A = lwpAddTail DelayQ ?c (upd ?c (pr_runtime_update (\<lambda>_. until)) st1)"
  define S where "S = goes_on In_sleep_until A"
  have S: "lwpReschedule now S = Some st'"
  proof -
    let ?u = "upd ?c (pr_runtime_update (\<lambda>_. until)) st"
    have "wake_selector ?u = upd ?c (pr_runtime_update (\<lambda>_. until)) st1" by (simp add: wake_selector_def st1_def ready_comm)
    then show ?thesis using r unfolding lwpSleepUntil_def Let_def S_def A_def by simp
  qed
  let ?f2 = "f1(DelayQ := f1 DelayQ @ [?c])"
  have fr: "\<forall>q. ?c \<notin> set (f1 q)" using okD(7) [OF f1(1), of ?c] by (simp add: free_def)
  have "rep (upd ?c (pr_runtime_update (\<lambda>_. until)) st1) f1" using okD(1) [OF f1(1)] by simp
  then have rS: "rep S ?f2" using add_tail_rep [OF _ fr, of _ DelayQ] by (simp add: S_def A_def goes_on_def)
  have AS: "l_live A = l_live st1" "l_selproc A = l_selproc st" "l_current A = ?c" "l_sigwaiter A = l_sigwaiter st1" "l_maxpri A = l_maxpri st1"
    "l_nfds A = l_nfds st" "l_count A = l_count st1" "l_oops A = l_oops st1" "l_readers A = l_readers st1" "l_writers A = l_writers st1"
    "l_fdwait A = l_fdwait st" "l_maxfd A = l_maxfd st"
    "pr_pri (l_proc A x) = pr_pri (l_proc st1 x)" "pr_dead (l_proc A x) = pr_dead (l_proc st1 x)" "pr_pc (l_proc A x) = pr_pc (l_proc st1 x)"
    "pr_fd (l_proc A x) = pr_fd (l_proc st1 x)" "pr_fd_ready (l_proc A x) = pr_fd_ready (l_proc st1 x)"
    "pr_runtime (l_proc A x) = (if x = ?c then until else pr_runtime (l_proc st1 x))" for x
    by (simp_all add: A_def e1)
  have oS: "lwp_ok {} S ?f2"
  proof (rule ok_sleep [OF f1(1) _ _ _ rS, where fd = "- 1" and delay = True])
    show "l_selproc st1 \<in> set (f1 (SchedQ 0))" "?c \<noteq> l_selproc st1" using f1(3) n e1(2) by simp_all
    show "\<not> pr_dead (l_proc st1 ?c)" using o e1 by (simp add: running_def)
    show "\<forall>x. x \<noteq> ?c \<longrightarrow> (\<exists>n. l_proc S x = (l_proc st1 x)\<lparr>pr_next := n\<rparr>)"
    proof (intro allI impI)
      fix x
      assume "x \<noteq> ?c"
      then have "l_proc S x = (l_proc st1 x)\<lparr>pr_next := pr_next (l_proc S x)\<rparr>"
        using AS(13-18) [of x] by (cases "l_proc st1 x"; cases "l_proc A x") (simp add: S_def goes_on_def AS)
      then show "\<exists>n. l_proc S x = (l_proc st1 x)\<lparr>pr_next := n\<rparr>" by blast
    qed
  qed (use t in \<open>auto simp: S_def goes_on_def AS e1\<close>)
  have tS: "timely S ?f2"
  proof -
    have "pr_runtime (l_proc S x) = pr_runtime (l_proc A x)" for x by (simp add: S_def goes_on_def AS)
    then show ?thesis using f1(2) fr t by (auto simp: timely_def AS)
  qed
  have "same_locks st f S ?f2"
    by (rule same_locks_sleep [OF f1(4), where c = ?c]) (simp_all add: S_def goes_on_def AS e1)
  moreover have "?c \<notin> set (?f2 DeadQ)" "l_current S = ?c" using fr by (simp_all add: S_def goes_on_def AS)
  ultimately show ?thesis using reschedule_ok [OF oS tS now _ S] same_locks_trans by metis
qed

lemma ok_runtime:
  assumes o: "lwp_ok X st f" and p: "p \<in> sleepers f \<or> (\<forall>d. l_fdwait st d \<noteq> Some p)"
  shows "lwp_ok X (upd p (pr_runtime_update g) st) f" (is "lwp_ok X ?st f")
proof -
  note d = okD [OF o]
  have e: "pr_pc (l_proc ?st x) = pr_pc (l_proc st x)" "pr_fd (l_proc ?st x) = pr_fd (l_proc st x)" "pr_pri (l_proc ?st x) = pr_pri (l_proc st x)"
    "pr_dead (l_proc ?st x) = pr_dead (l_proc st x)" for x by simp_all
  have "rep ?st f" using d(1) by simp
  moreover have "threads_ok ?st" using d(2) unfolding threads_ok_def e by simp
  moreover have "queues_ok ?st f" using d(3) unfolding queues_ok_def e by simp
  moreover have "fds_ok ?st f" unfolding fds_ok_def e
  proof (intro conjI allI impI)
    note df = d(4) [unfolded fds_ok_def]
    show "finite (dom (l_fdwait ?st))" "l_nfds ?st = int (card (dom (l_fdwait ?st)))" using df by simp_all
    fix y x
    assume "l_fdwait ?st y = Some x"
    then have x: "l_fdwait st y = Some x" by simp
    then show "x \<in> l_live ?st" "pr_fd (l_proc st x) = y" "0 \<le> y" "y \<le> l_maxfd ?st" "pr_pc (l_proc st x) = In_sleep_fd" using df by auto
    have "x \<in> sleepers f \<or> pr_runtime (l_proc st x) = - 1 \<and> (\<forall>q. x \<notin> set (f q))" using df x by blast
    then show "x \<in> sleepers f \<or> pr_runtime (l_proc ?st x) = - 1 \<and> (\<forall>q. x \<notin> set (f q))" using p x by (cases "x = p") auto
  qed
  moreover have "sig_ok ?st f" using d(5) unfolding sig_ok_def e by simp
  moreover have "free ?st f = free st f" "placed ?st f = placed st f" by (simp_all add: fun_eq_iff free_def placed_def idle_def)
  ultimately show ?thesis using o unfolding lwp_ok_def by simp
qed

text \<open>Waking up a thread that waits for a file descriptor.\<close>

lemma wakeup_fd_ok:
  assumes o: "lwp_ok X st f" and p: "l_fdwait st (pr_fd (l_proc st p)) = Some p"
    and t: "pr_runtime (l_proc st p) \<in> {- 1, 0} \<Longrightarrow> p \<notin> sleepers f" and sv: "f SaveQ = []"
  shows "\<exists>f'. lwp_ok X (lwpWakeupFd p st) f' \<and> wakes st f (lwpWakeupFd p st) f' \<and> f' SaveQ = [] \<and> f' DelayQ = f DelayQ \<and>
    l_maxfd (lwpWakeupFd p st) = l_maxfd st \<and>
    (\<forall>x. x \<noteq> p \<longrightarrow> pr_runtime (l_proc (lwpWakeupFd p st) x) = pr_runtime (l_proc st x)) \<and>
    (\<forall>x. x \<noteq> p \<or> x \<in> sleepers f \<longrightarrow> pr_fd (l_proc (lwpWakeupFd p st) x) = pr_fd (l_proc st x)) \<and>
    (\<forall>y z. l_fdwait (lwpWakeupFd p st) y = Some z \<longrightarrow> l_fdwait st y = Some z)"
proof -
  note d = okD [OF o]
  have fd: "0 \<le> pr_fd (l_proc st p)" "pr_fd (l_proc st p) \<le> l_maxfd st" "p \<in> sleepers f \<or> pr_runtime (l_proc st p) = - 1 \<and> (\<forall>q. p \<notin> set (f q))"
    "pr_pc (l_proc st p) = In_sleep_fd"
    using d(4) p unfolding fds_ok_def by blast+
  show ?thesis
  proof (cases "pr_runtime (l_proc st p) \<in> {- 1, 0}")
    case False
    then have e: "lwpWakeupFd p st = upd p (pr_runtime_update (\<lambda>_. - 1)) st" using fd by (simp add: lwpWakeupFd_def Let_def)
    have "lwp_ok X (lwpWakeupFd p st) f" unfolding e using fd False by (intro ok_runtime [OF o]) auto
    moreover have "wakes st f (lwpWakeupFd p st) f" unfolding e by (auto simp: wakes_def same_locks_def stopped_at_def)
    ultimately show ?thesis using sv by (intro exI [of _ f]) (auto simp: e)
  next
    case True
    have e: "lwpWakeupFd p st = lwpReady p (sleeper_off p st)" using fd True by (auto simp: lwpWakeupFd_def sleeper_off_def Let_def)
    have np: "\<forall>q. p \<notin> set (f q)" using fd(3) t True by auto
    let ?i = "pr_pri (l_proc st p)"
    have "lwp_ok (X - {p}) (lwpReady p (sleeper_off p st)) (f(SchedQ ?i := f (SchedQ ?i) @ [p]))"
    proof (rule wake_sleeper [OF o _ d(1)])
      show "p \<in> sleepers f \<or> 0 \<le> pr_fd (l_proc st p) \<and> l_fdwait st (pr_fd (l_proc st p)) = Some p" using fd p by blast
      show "\<forall>q. set (f q) = set (f q) - {p}" using np by blast
      show "\<exists>Q t. st = upd p (pr_runtime_update (\<lambda>_. t)) (st\<lparr>l_queue := Q\<rparr>)"
        by (intro exI [of _ "l_queue st"] exI [of _ "pr_runtime (l_proc st p)"]) (simp add: upd_same)
    qed
    moreover have "p \<notin> X" using d(7) [of p] p by (auto simp: free_def)
    ultimately have ok: "lwp_ok X (lwpWakeupFd p st) (f(SchedQ ?i := f (SchedQ ?i) @ [p]))" by (simp add: e)
    have w: "wakes st f (lwpWakeupFd p st) (f(SchedQ ?i := f (SchedQ ?i) @ [p]))"
      by (auto simp: e wakes_def same_locks_def stopped_at_def sleeper_off_def)
    show ?thesis
      by (intro exI [of _ "f(SchedQ ?i := f (SchedQ ?i) @ [p])"] conjI ok w)
        (use sv np in \<open>auto simp: e sleeper_off_def sleepers_def split: if_splits\<close>)
  qed
qed

lemma wakeup_ok:
  assumes o: "running st f" and p: "pr_fd (l_proc st p) < 0 \<or> l_fdwait st (pr_fd (l_proc st p)) = Some p" and now: "now > 0"
    and r: "lwpWakeup now p st = Some st'"
  shows "\<exists>f'. running st' f' \<and> same_locks st f st' f'"
proof -
  have ok: "lwp_ok {l_current st} st f" and t: "timely st f" and nd: "\<not> pr_dead (l_proc st (l_current st))" using o by (simp_all add: running_def)
  have tn: "pr_runtime (l_proc st x) \<in> {- 1, 0} \<Longrightarrow> x \<notin> sleepers f" for x using t by (auto simp: timely_def sleepers_def)
  define st1 where "st1 = (if pr_fd (l_proc st p) \<ge> 0 then lwpWakeupFd p st
                else if pr_runtime (l_proc st p) \<noteq> - 1 then upd p (pr_runtime_update (\<lambda>_. 0)) st else st)"
  have "\<exists>f1. lwp_ok {l_current st} st1 f1 \<and> wakes st f st1 f1 \<and> f1 SaveQ = []"
  proof (cases "pr_fd (l_proc st p) \<ge> 0")
    case True
    then have "l_fdwait st (pr_fd (l_proc st p)) = Some p" using p by auto
    then obtain f1 where "lwp_ok {l_current st} (lwpWakeupFd p st) f1" "wakes st f (lwpWakeupFd p st) f1" "f1 SaveQ = []"
      using wakeup_fd_ok [OF ok _ tn, of p] t unfolding timely_def by blast
    then show ?thesis using True by (auto simp: st1_def)
  next
    case False
    have "l_fdwait st e \<noteq> Some p" for e using okD(4) [OF ok] False unfolding fds_ok_def by auto
    then have "lwp_ok {l_current st} (upd p (pr_runtime_update (\<lambda>_. 0)) st) f" by (intro ok_runtime [OF ok]) blast
    moreover have "wakes st f (upd p (pr_runtime_update (\<lambda>_. 0)) st) f" by (auto simp: wakes_def same_locks_def stopped_at_def)
    ultimately show ?thesis using ok t False by (auto simp: st1_def timely_def)
  qed
  then obtain f1 where f1: "lwp_ok {l_current st} st1 f1" "wakes st f st1 f1" "f1 SaveQ = []" by blast
  obtain st2 f2 where 2: "lwpWakeupSleep now st1 = Some st2" "lwp_ok {l_current st} st2 f2" "wakes st1 f1 st2 f2" "f2 SaveQ = []"
    "\<forall>x \<in> set (f2 DelayQ). now < pr_runtime (l_proc st2 x)" using wakeup_sleep_ok [OF f1(1,3)] by blast
  have st': "st' = st2" using r 2(1) by (simp add: lwpWakeup_def st1_def Let_def)
  have w: "wakes st f st2 f2" by (rule wakes_trans [OF f1(2) 2(3)])
  then have c: "l_current st2 = l_current st" "pr_dead (l_proc st2 x) = pr_dead (l_proc st x)" for x unfolding wakes_def by blast+
  have "timely st2 f2" using 2(4,5) now by (auto simp: timely_def)
  then have "running st2 f2" using 2(2) c nd by (simp add: running_def)
  then show ?thesis using w unfolding st' wakes_def by blast
qed

lemma ok_fd_ready:
  assumes "lwp_ok X st f"
  shows "lwp_ok X (upd p (pr_fd_ready_update g) st) f"
proof -
  note d = okD [OF assms]
  let ?st = "upd p (pr_fd_ready_update g) st"
  have e: "pr_pc (l_proc ?st x) = pr_pc (l_proc st x)" "pr_fd (l_proc ?st x) = pr_fd (l_proc st x)" "pr_pri (l_proc ?st x) = pr_pri (l_proc st x)"
    "pr_dead (l_proc ?st x) = pr_dead (l_proc st x)" "pr_runtime (l_proc ?st x) = pr_runtime (l_proc st x)" for x by simp_all
  have "free ?st f = free st f" "placed ?st f = placed st f" by (simp_all add: fun_eq_iff free_def placed_def idle_def)
  then show ?thesis using assms unfolding lwp_ok_def threads_ok_def queues_ok_def fds_ok_def sig_ok_def e by simp
qed

text \<open>The loop over the file descriptors, up to \<open>i\<close>: who sleeps until a time may have been woken by its file descriptor.\<close>

definition woken_below :: "nat \<Rightarrow> lwp \<Rightarrow> (queue_id \<Rightarrow> nat list) \<Rightarrow> bool" where
  "woken_below i st f \<longleftrightarrow> f SaveQ = [] \<and>
     (\<forall>x \<in> set (f DelayQ). 0 < pr_runtime (l_proc st x) \<or> 0 \<le> pr_fd (l_proc st x) \<and> pr_fd (l_proc st x) < int i)"

lemma fd_activity_ok:
  assumes o: "lwp_ok X st f" and w: "woken_below i st f"
  shows "\<exists>st' f'. fd_activity ready i st = Some st' \<and> lwp_ok X st' f' \<and> wakes st f st' f' \<and> woken_below (Suc i) st' f'"
proof (cases "\<exists>p. l_fdwait st (int i) = Some p \<and> (int i \<in> fst ready \<or> int i \<in> snd ready)")
  case False
  then have "fd_activity ready i st = Some st" by (auto simp: fd_activity_def split: option.split)
  moreover have "woken_below (Suc i) st f" using w by (auto simp: woken_below_def)
  ultimately show ?thesis using o by (intro exI [of _ st] exI [of _ f]) simp
next
  case True
  then obtain p where p: "l_fdwait st (int i) = Some p" "int i \<in> fst ready \<or> int i \<in> snd ready" by blast
  have fd: "pr_fd (l_proc st p) = int i" using okD(4) [OF o] p(1) unfolding fds_ok_def by blast
  let ?st = "upd p (pr_fd_ready_update (\<lambda>_. True)) st"
  have o1: "lwp_ok X ?st f" by (rule ok_fd_ready [OF o])
  have t: "p \<notin> sleepers f" if "pr_runtime (l_proc ?st p) \<in> {- 1, 0}" using w that fd by (auto simp: woken_below_def sleepers_def)
  have sv: "f SaveQ = []" "l_fdwait ?st (pr_fd (l_proc ?st p)) = Some p" using w p(1) fd by (simp_all add: woken_below_def)
  obtain f' where f': "lwp_ok X (lwpWakeupFd p ?st) f'" "wakes ?st f (lwpWakeupFd p ?st) f'" "f' SaveQ = []" "f' DelayQ = f DelayQ"
    "\<forall>x. x \<noteq> p \<longrightarrow> pr_runtime (l_proc (lwpWakeupFd p ?st) x) = pr_runtime (l_proc ?st x)"
    "\<forall>x. x \<noteq> p \<or> x \<in> sleepers f \<longrightarrow> pr_fd (l_proc (lwpWakeupFd p ?st) x) = pr_fd (l_proc ?st x)"
    using wakeup_fd_ok [OF o1 sv(2) t sv(1)] by blast
  have "woken_below (Suc i) (lwpWakeupFd p ?st) f'" unfolding woken_below_def
  proof (intro conjI ballI)
    fix x
    assume x: "x \<in> set (f' DelayQ)"
    then have "x \<in> sleepers f" by (simp add: f'(4) sleepers_def)
    then have e: "pr_fd (l_proc (lwpWakeupFd p ?st) x) = pr_fd (l_proc st x)" using f'(6) by (cases "x = p") auto
    show "0 < pr_runtime (l_proc (lwpWakeupFd p ?st) x) \<or> 0 \<le> pr_fd (l_proc (lwpWakeupFd p ?st) x) \<and>
        pr_fd (l_proc (lwpWakeupFd p ?st) x) < int (Suc i)"
    proof (cases "x = p")
      case True
      then show ?thesis using e fd by simp
    next
      case False
      have "0 < pr_runtime (l_proc st x) \<or> 0 \<le> pr_fd (l_proc st x) \<and> pr_fd (l_proc st x) < int i"
        using w x f'(4) unfolding woken_below_def by metis
      moreover have "pr_runtime (l_proc (lwpWakeupFd p ?st) x) = pr_runtime (l_proc st x)" using f'(5) False by simp
      ultimately show ?thesis unfolding e by auto
    qed
  qed (rule f'(3))
  moreover have "fd_activity ready i st = Some (lwpWakeupFd p ?st)" using p by (auto simp: fd_activity_def)
  moreover have "wakes st f (lwpWakeupFd p ?st) f'"
  proof (rule wakes_trans [OF _ f'(2)])
    show "wakes st f ?st f" by (auto simp: wakes_def same_locks_def stopped_at_def)
  qed
  ultimately show ?thesis using f'(1) by blast
qed

lemma select_ok:
  assumes o: "running st f" and u: "pr_pc (l_proc st (l_current st)) = Selecting" and now: "now > 0"
    and r: "lwpSelect_body now res ready st = Some st'"
  shows "\<exists>f'. running st' f' \<and> same_locks st f st' f'"
proof -
  let ?c = "l_current st"
  have ok: "lwp_ok {?c} st f" and t: "timely st f" and nd: "\<not> pr_dead (l_proc st ?c)" using o by (simp_all add: running_def)
  note d = okD [OF ok]
  have sel: "?c = l_selproc st" using d(2) u by (auto simp: threads_ok_def)
  have fr: "free st f ?c" using d(7) by simp
  show ?thesis
  proof (cases "l_nfds st = 0 \<and> q_head (l_queue st DelayQ) = None")
    case True
    let ?st = "st\<lparr>l_maxfd := 0\<rparr>"
    have "f DelayQ = []" using True rep_head [OF d(1), of DelayQ] by (auto split: if_splits)
    then have i: "idle ?st f" using True t by (simp add: idle_def sleepers_def timely_def)
    have "dom (l_fdwait st) = {}" using d(4) True by (auto simp: fds_ok_def)
    then have nf: "l_fdwait st y = None" for y by auto
    have "lwp_ok {} ?st f" unfolding lwp_ok_def
    proof (intro conjI)
      show "rep ?st f" by (rule rep_cong [OF d(1)]) simp_all
      show "\<forall>x \<in> l_live ?st. x \<in> {} \<or> placed ?st f x" using d(8) i sel by (auto simp: placed_def nf idle_def)
    qed (use d(2,3,4,5) nf in \<open>simp_all add: threads_ok_def queues_ok_def fds_ok_def sig_ok_def\<close>)
    moreover have "timely ?st f" using t by (simp add: timely_def)
    moreover have "lwpReschedule now ?st = Some st'" using r True by (simp add: lwpSelect_body_def)
    moreover have "same_locks st f ?st f" by (simp add: same_locks_def stopped_at_def)
    ultimately show ?thesis using reschedule_ok [of ?st f now st'] now fr same_locks_trans by (fastforce simp: free_def)
  next
    case False
    show ?thesis
    proof (cases res)
      case (Inl eintr)
      then have "lwpYield now st = Some st'" using r False by (auto simp: lwpSelect_body_def lwpYield_def split: if_splits)
      then show ?thesis using yield_ok [OF ok t now] by blast
    next
      case (Inr n)
      define loop where "loop = (if n > 0 then fold_opt (fd_activity ready) [0..<nat (l_maxfd st + 1)] st else Some st)"
      have wb: "woken_below 0 st f" using t by (simp add: woken_below_def timely_def)
      have "\<exists>s. loop = Some s \<and> (\<exists>f1. lwp_ok {?c} s f1 \<and> wakes st f s f1 \<and> f1 SaveQ = [])"
      proof (cases "n > 0")
        case True
        have "\<exists>s. fold_opt (fd_activity ready) [0..<nat (l_maxfd st + 1)] st = Some s \<and>
            (\<exists>f1. lwp_ok {?c} s f1 \<and> wakes st f s f1 \<and> woken_below (nat (l_maxfd st + 1)) s f1)"
        proof (rule fold_opt_upt)
          show "\<exists>f1. lwp_ok {?c} st f1 \<and> wakes st f st f1 \<and> woken_below 0 st f1" using ok wb by (intro exI [of _ f]) simp
        next
          fix i s
          assume "\<exists>f1. lwp_ok {?c} s f1 \<and> wakes st f s f1 \<and> woken_below i s f1"
          then obtain f1 where f1: "lwp_ok {?c} s f1" "wakes st f s f1" "woken_below i s f1" by blast
          obtain s' f2 where "fd_activity ready i s = Some s'" "lwp_ok {?c} s' f2" "wakes s f1 s' f2" "woken_below (Suc i) s' f2"
            using fd_activity_ok [OF f1(1,3)] by blast
          then show "\<exists>s'. fd_activity ready i s = Some s' \<and> (\<exists>f1. lwp_ok {?c} s' f1 \<and> wakes st f s' f1 \<and> woken_below (Suc i) s' f1)"
            using wakes_trans [OF f1(2)] by blast
        qed
        then show ?thesis using True by (auto simp: loop_def woken_below_def)
      next
        case False
        then show ?thesis using ok t by (auto simp: loop_def timely_def intro!: exI [of _ f])
      qed
      then obtain s f1 where s: "loop = Some s" "lwp_ok {?c} s f1" "wakes st f s f1" "f1 SaveQ = []" by blast
      obtain s2 f2 where 2: "lwpWakeupSleep now s = Some s2" "lwp_ok {?c} s2 f2" "wakes s f1 s2 f2" "f2 SaveQ = []"
        "\<forall>x \<in> set (f2 DelayQ). now < pr_runtime (l_proc s2 x)" using wakeup_sleep_ok [OF s(2,4)] by blast
      have w: "wakes st f s2 f2" by (rule wakes_trans [OF s(3) 2(3)])
      then have c: "l_current s2 = ?c" by (simp add: wakes_def)
      have "lwpYield now s2 = Some st'"
        using r False Inr s(1) 2(1) c unfolding lwpSelect_body_def Let_def loop_def by (simp add: lwpYield_def)
      moreover have "timely s2 f2" using 2(4,5) now by (auto simp: timely_def)
      ultimately show ?thesis using yield_ok [of s2 f2 now st'] 2(2) c now w same_locks_trans unfolding wakes_def by metis
    qed
  qed
qed

lemma running_goes_on:
  assumes o: "running st f" and k: "k \<noteq> Selecting" and u: "pr_pc (l_proc st (l_current st)) \<noteq> Selecting"
  shows "running (goes_on k st) f"
proof -
  have "\<not> pr_dead (l_proc st (l_current st))" using o by (simp add: running_def)
  then have "lwp_ok {l_current st} (goes_on k st) f" unfolding goes_on_def
    using o k running_user(1) [OF o u] by (intro ok_upd) (auto simp: running_def)
  moreover have "timely (goes_on k st) f" using o by (auto simp: running_def timely_def goes_on_def)
  ultimately show ?thesis using o by (simp add: running_def goes_on_def)
qed

lemma running_fields:
  assumes "running st f" "l_proc st' = l_proc st" "l_queue st' = l_queue st" "l_current st' = l_current st" "l_live st' = l_live st"
    "l_nfds st' = l_nfds st" "l_maxfd st' = l_maxfd st" "l_fdwait st' = l_fdwait st" "l_selproc st' = l_selproc st"
    "l_sigwaiter st' = l_sigwaiter st" "l_maxpri st' = l_maxpri st"
  shows "running st' f"
  using assms ok_fields [of "{l_current st}" st f st'] by (simp add: running_def timely_def)

lemma sig_loop_ok:
  assumes o: "running st f" and u: "pr_pc (l_proc st (l_current st)) \<noteq> Selecting" and w: "l_sigwaiter st = None" and now: "now > 0"
    and r: "sig_loop now beyond st = Some st'"
  shows "\<exists>f' k. k \<in> {User, In_sig_wait} \<and> running st' f' \<and> same_locks (goes_on k st) f st' f'"
proof -
  obtain res st1 where g: "lwpGetSig beyond st = (res, st1)" by (cases "lwpGetSig beyond st")
  have st1: "running st1 f" "l_current st1 = l_current st" "l_proc st1 = l_proc st" "l_sigwaiter st1 = l_sigwaiter st" "l_count st1 = l_count st"
    "l_oops st1 = l_oops st" "l_readers st1 = l_readers st" "l_writers st1 = l_writers st" "l_live st1 = l_live st"
    using g running_fields [OF o, of st1] by (auto simp: lwpGetSig_def Let_def split: if_splits)
  have pc1: "pr_pc (l_proc st1 (l_current st1)) \<noteq> Selecting" using u st1 by simp
  have same: "same_locks (goes_on k st) f (goes_on k st1) f" for k by (simp add: same_locks_def stopped_at_def goes_on_def st1)
  show ?thesis
  proof (cases "res > 0")
    case True
    then have "st' = goes_on User st1" using r g by (simp add: sig_loop_def)
    then show ?thesis using running_goes_on [OF st1(1) _ pc1, of User] same [of User] by blast
  next
    case False
    let ?c = "l_current st"
    define G where "G = goes_on In_sig_wait st1"
    have "goes_on In_sig_wait (st1\<lparr>l_sigwaiter := Some ?c\<rparr>) = G\<lparr>l_sigwaiter := Some ?c\<rparr>" by (simp add: G_def goes_on_def upd_def)
    then have rr: "lwpReschedule now (G\<lparr>l_sigwaiter := Some ?c\<rparr>) = Some st'" using r g False st1(2) by (simp add: sig_loop_def)
    have rg: "running G f" unfolding G_def by (rule running_goes_on [OF st1(1) _ pc1]) simp
    have G: "l_current G = ?c" "l_live G = l_live st" "l_sigwaiter G = None" "pr_pc (l_proc G ?c) = In_sig_wait"
      using st1 w by (simp_all add: G_def goes_on_def)
    have "lwp_ok {?c} G f" using rg G(1) by (simp add: running_def)
    note d = okD [OF this]
    have fr: "\<forall>q. ?c \<notin> set (f q)" "?c \<in> l_live G" using d(6,7) by (auto simp: free_def)
    have ok: "lwp_ok {} (G\<lparr>l_sigwaiter := Some ?c\<rparr>) f" unfolding lwp_ok_def
    proof (intro conjI)
      show "rep (G\<lparr>l_sigwaiter := Some ?c\<rparr>) f" by (rule rep_cong [OF d(1)]) simp_all
      show "sig_ok (G\<lparr>l_sigwaiter := Some ?c\<rparr>) f" using fr G(4) by (simp add: sig_ok_def)
      show "\<forall>x \<in> l_live (G\<lparr>l_sigwaiter := Some ?c\<rparr>). x \<in> {} \<or> placed (G\<lparr>l_sigwaiter := Some ?c\<rparr>) f x"
        using d(8) G(3) by (auto simp: placed_def idle_def)
    qed (use d(2,3,4) in \<open>simp_all add: threads_ok_def queues_ok_def fds_ok_def\<close>)
    have t: "timely (G\<lparr>l_sigwaiter := Some ?c\<rparr>) f" using rg by (simp add: running_def timely_def)
    have "same_locks G f (G\<lparr>l_sigwaiter := Some ?c\<rparr>) f" by (simp add: same_locks_def stopped_at_def)
    then have s: "same_locks (goes_on In_sig_wait st) f (G\<lparr>l_sigwaiter := Some ?c\<rparr>) f"
      using same [of In_sig_wait] same_locks_trans unfolding G_def by blast
    have "l_current (G\<lparr>l_sigwaiter := Some ?c\<rparr>) \<notin> set (f DeadQ)" using fr(1) G(1) by simp
    then obtain f' where "running st' f'" "same_locks (G\<lparr>l_sigwaiter := Some ?c\<rparr>) f st' f'" using reschedule_ok [OF ok t now _ rr] by blast
    then show ?thesis using same_locks_trans [OF s] by blast
  qed
qed

section \<open>The locks\<close>

definition lock_ok :: "lwp \<Rightarrow> nat \<Rightarrow> bool" where
  "lock_ok st l \<longleftrightarrow>
     (l_count st l = - 1 \<and> length (l_writers st l) = 1 \<and> l_readers st l = []) \<or>
     (l_writers st l = [] \<and> l_count st l = int (length (l_readers st l)))"

text \<open>Somebody has been woken to take the lock \<open>l\<close>, and has not taken it yet.\<close>

definition woken :: "lwp \<Rightarrow> (queue_id \<Rightarrow> nat list) \<Rightarrow> nat \<Rightarrow> bool" where
  "woken st f l \<longleftrightarrow> (\<exists>p. (p \<in> stopped_at st (In_wrlock l) \<and> p \<notin> set (f (Wq l))) \<or> (p \<in> stopped_at st (In_rdlock l) \<and> p \<notin> set (f (Rq l))))"

definition locks_ok :: "lwp \<Rightarrow> (queue_id \<Rightarrow> nat list) \<Rightarrow> bool" where
  "locks_ok st f \<longleftrightarrow> (\<forall>p \<in> stopped_at st In_sig_wait. \<forall>q \<in> stopped_at st In_sig_wait. p = q) \<and>
     (\<not> l_oops st \<longrightarrow> (\<forall>l. lock_ok st l \<and> (f (Wq l) = [] \<and> f (Rq l) = [] \<or> l_count st l \<noteq> 0 \<or> woken st f l)))"

lemma locks_same: "same_locks st f st' f' \<Longrightarrow> locks_ok st f \<Longrightarrow> locks_ok st' f'"
  unfolding locks_ok_def lock_ok_def woken_def same_locks_def by (elim conjE) (simp add: pc.distinct)

text \<open>Whether a step can have reported something.\<close>

definition calm :: "lwp \<Rightarrow> lwp \<Rightarrow> bool" where
  "calm st st' \<longleftrightarrow> (\<not> l_oops st \<longrightarrow> \<not> l_oops st')"

lemma calm_refl [simp]: "calm st st"
  by (simp add: calm_def)

lemma locks_calm: "same_locks st f st' f' \<Longrightarrow> locks_ok st f \<Longrightarrow> locks_ok st' f' \<and> calm st st'"
  using locks_same by (auto simp: calm_def same_locks_def)

text \<open>A thread that goes on, to take the lock it has waited for, and finds it taken.\<close>

definition comes_late :: "lwp \<Rightarrow> bool" where
  "comes_late st \<longleftrightarrow> (case pr_pc (l_proc st (l_current st)) of
     In_wrlock l \<Rightarrow> l_count st l \<noteq> 0 | In_rdlock l \<Rightarrow> l_count st l < 0 | _ \<Rightarrow> False)"

lemma locks_goes_on:
  assumes l: "locks_ok st f" and k: "k \<in> {User, In_sleep_fd, In_sleep_until} \<or> k = In_sig_wait \<and> stopped_at st In_sig_wait \<subseteq> {l_current st}"
    and u: "pr_pc (l_proc st (l_current st)) \<in> {User, In_sleep_fd, In_sleep_until, In_sig_wait}"
  shows "locks_ok (goes_on k st) f"
proof -
  have "stopped_at (goes_on k st) (In_wrlock i) = stopped_at st (In_wrlock i)" "stopped_at (goes_on k st) (In_rdlock i) = stopped_at st (In_rdlock i)" for i
    using k u by (auto simp: stopped_at_def goes_on_def)
  moreover have "\<forall>p \<in> stopped_at (goes_on k st) In_sig_wait. \<forall>q \<in> stopped_at (goes_on k st) In_sig_wait. p = q"
    using k l unfolding locks_ok_def stopped_at_def goes_on_def by (auto split: if_splits)
  ultimately show ?thesis using l by (simp add: locks_ok_def lock_ok_def woken_def) (simp add: goes_on_def)
qed

lemma goes_on_add: "goes_on k (lwpAddTail q (l_current st) st) = lwpAddTail q (l_current st) (goes_on k st)"
  by (cases "q_tail (l_queue st q)") (auto simp: goes_on_def lwpAddTail_def upd_def Let_def fun_eq_iff)

lemma blocked_ok:
  assumes o: "running st f" and u: "pr_pc (l_proc st (l_current st)) = User" and now: "now > 0" and l: "locks_ok st f" "\<not> l_oops st \<Longrightarrow> l_count st l \<noteq> 0 \<or> f (Wq l) \<noteq> []"
    and q: "q = Wq l \<and> k = In_wrlock l \<or> q = Rq l \<and> k = In_rdlock l"
    and r: "lwpReschedule now (goes_on k (lwpAddTail q (l_current st) st)) = Some st'"
  shows "\<exists>f'. running st' f' \<and> locks_ok st' f' \<and> calm st st'"
proof -
  let ?c = "l_current st" and ?G = "goes_on k st"
  let ?S = "lwpAddTail q ?c ?G" and ?f = "f(q := f q @ [l_current st])"
  have c: "l_current ?G = ?c" "pr_pc (l_proc ?G ?c) = k" "l_oops ?G = l_oops st" "l_count ?G = l_count st" by (simp_all add: goes_on_def)
  have "k \<noteq> Selecting" using q by auto
  then have g: "running ?G f" using running_goes_on [OF o] u by simp
  then have gl: "lwp_ok {?c} ?G f" using c(1) by (simp add: running_def)
  have fr: "\<forall>q. ?c \<notin> set (f q)" using okD(7) [OF gl] by (simp add: free_def)
  have "lwp_ok ({?c} - {?c}) ?S ?f" by (rule ok_wait [OF gl]) (use q c(2) in auto)
  then have ok: "lwp_ok {} ?S ?f" by simp
  have t: "timely ?S ?f" using g q by (auto simp: running_def timely_def)
  have "?c \<notin> set (?f DeadQ)" using fr q by auto
  moreover have "l_current ?S = ?c" by (simp add: c)
  ultimately obtain f' where f': "running st' f'" "same_locks ?S ?f st' f'"
    using reschedule_ok [OF ok t now _] r goes_on_add by metis
  have st: "stopped_at ?S j = (if j = k then insert ?c (stopped_at st j) else stopped_at st j - {?c})" for j
  proof -
    have "?c \<in> l_live st" using running_current [OF o] by blast
    then show ?thesis using u q by (auto simp: stopped_at_def goes_on_def)
  qed
  have w: "woken ?S ?f i" if "woken st f i" for i
  proof -
    obtain p where p: "(p \<in> stopped_at st (In_wrlock i) \<and> p \<notin> set (f (Wq i))) \<or> (p \<in> stopped_at st (In_rdlock i) \<and> p \<notin> set (f (Rq i)))"
      using \<open>woken st f i\<close> unfolding woken_def by blast
    then have "p \<noteq> ?c" using u by (auto simp: stopped_at_def)
    then have "(p \<in> stopped_at ?S (In_wrlock i) \<and> p \<notin> set (?f (Wq i))) \<or> (p \<in> stopped_at ?S (In_rdlock i) \<and> p \<notin> set (?f (Rq i)))"
      using p by (auto simp: st)
    then show ?thesis unfolding woken_def by blast
  qed
  have "l_count st l \<noteq> 0 \<or> woken st f l" if "\<not> l_oops st" using l that unfolding locks_ok_def by auto
  then have "locks_ok ?S ?f"
    unfolding locks_ok_def
  proof (intro conjI)
    show "\<forall>p \<in> stopped_at ?S In_sig_wait. \<forall>p' \<in> stopped_at ?S In_sig_wait. p = p'"
      using l(1) q unfolding locks_ok_def by (auto simp: st)
    show "\<not> l_oops ?S \<longrightarrow> (\<forall>i. lock_ok ?S i \<and> (?f (Wq i) = [] \<and> ?f (Rq i) = [] \<or> l_count ?S i \<noteq> 0 \<or> woken ?S ?f i))"
    proof (intro impI allI conjI)
      fix i
      assume "\<not> l_oops ?S"
      then have no: "\<not> l_oops st" by (simp add: c)
      show "lock_ok ?S i" using l(1) no by (simp add: locks_ok_def lock_ok_def c) (simp add: goes_on_def)
      have "f (Wq i) = [] \<and> f (Rq i) = [] \<or> l_count st i \<noteq> 0 \<or> woken st f i" using l(1) no unfolding locks_ok_def by blast
      moreover have "l_count st l \<noteq> 0 \<or> woken st f l" using l no unfolding locks_ok_def by blast
      ultimately show "?f (Wq i) = [] \<and> ?f (Rq i) = [] \<or> l_count ?S i \<noteq> 0 \<or> woken ?S ?f i"
        using w q by (cases "i = l") (auto simp: c)
    qed
  qed
  then have "locks_ok st' f' \<and> calm ?S st'" by (rule locks_calm [OF f'(2)])
  then show ?thesis using f'(1) c(3) by (auto simp: calm_def)
qed

text \<open>Taking a lock.\<close>

lemma got_ok:
  assumes o: "running st f" and l: "locks_ok st f" and u: "pr_pc (l_proc st (l_current st)) \<in> {User, k}"
    and k: "k = In_wrlock l \<and> st' = got_wrlock l st \<or> k = In_rdlock l \<and> st' = got_rdlock l st"
  shows "running st' f \<and> locks_ok st' f"
proof
  let ?c = "l_current st"
  have pc: "pr_pc (l_proc st ?c) \<noteq> Selecting" using u k by auto
  have "running (goes_on User st) f" by (rule running_goes_on [OF o _ pc]) simp
  moreover define G where "G = goes_on User st"
  ultimately have g: "running G f" by simp
  have "goes_on User (st\<lparr>l_oops := a, l_count := b, l_writers := d\<rparr>) = G\<lparr>l_oops := a, l_count := b, l_writers := d\<rparr>"
    "goes_on User (st\<lparr>l_oops := a, l_count := b, l_readers := d\<rparr>) = G\<lparr>l_oops := a, l_count := b, l_readers := d\<rparr>" for a b d
    by (simp_all add: G_def goes_on_def upd_def)
  then have "\<exists>a b d. st' = G\<lparr>l_oops := a, l_count := b, l_writers := d\<rparr> \<or> st' = G\<lparr>l_oops := a, l_count := b, l_readers := d\<rparr>"
    using k unfolding got_wrlock_def got_rdlock_def by metis
  then show "running st' f" by (elim exE disjE; intro running_fields [OF g]) simp_all
  have st: "stopped_at st' j = stopped_at st j - {?c}" if "j \<noteq> User" for j
    using that k by (auto simp: stopped_at_def got_wrlock_def got_rdlock_def goes_on_def)
  have w: "woken st' f i" if "woken st f i" "i \<noteq> l" for i
  proof -
    obtain p where p: "(p \<in> stopped_at st (In_wrlock i) \<and> p \<notin> set (f (Wq i))) \<or> (p \<in> stopped_at st (In_rdlock i) \<and> p \<notin> set (f (Rq i)))"
      using \<open>woken st f i\<close> unfolding woken_def by blast
    then have "p \<noteq> ?c" using u k that(2) by (auto simp: stopped_at_def)
    then show ?thesis using p unfolding woken_def by (auto simp: st)
  qed
  show "locks_ok st' f" unfolding locks_ok_def
  proof (intro conjI)
    show "\<forall>p \<in> stopped_at st' In_sig_wait. \<forall>p' \<in> stopped_at st' In_sig_wait. p = p'" using l unfolding locks_ok_def by (auto simp: st)
    show "\<not> l_oops st' \<longrightarrow> (\<forall>i. lock_ok st' i \<and> (f (Wq i) = [] \<and> f (Rq i) = [] \<or> l_count st' i \<noteq> 0 \<or> woken st' f i))"
    proof (intro impI allI)
      fix i
      assume no': "\<not> l_oops st'"
      then have no: "\<not> l_oops st" using k by (auto simp: got_wrlock_def got_rdlock_def goes_on_def)
      then have li: "lock_ok st i" "f (Wq i) = [] \<and> f (Rq i) = [] \<or> l_count st i \<noteq> 0 \<or> woken st f i" using l unfolding locks_ok_def by blast+
      show "lock_ok st' i \<and> (f (Wq i) = [] \<and> f (Rq i) = [] \<or> l_count st' i \<noteq> 0 \<or> woken st' f i)"
      proof (cases "i = l")
        case False
        then have "l_count st' i = l_count st i" "l_readers st' i = l_readers st i" "l_writers st' i = l_writers st i"
          using k by (auto simp: got_wrlock_def got_rdlock_def goes_on_def)
        then show ?thesis using li w False unfolding lock_ok_def by auto
      next
        case True
        from k show ?thesis
        proof (elim disjE conjE)
          assume "st' = got_wrlock l st"
          then show ?thesis using li(1) no' True by (auto simp: got_wrlock_def goes_on_def lock_ok_def)
        next
          assume "st' = got_rdlock l st"
          then show ?thesis using li(1) no' True by (auto simp: got_rdlock_def goes_on_def lock_ok_def)
        qed
      qed
    qed
  qed
qed

text \<open>Releasing a lock and waking who waits for it.\<close>

lemma ready_queue_ok:
  assumes o: "running st f" and q: "f q = p # xs" "q = Wq l \<or> q = Rq l"
  obtains st1 where "lwpGetFirst q st = (Some p, st1)" "running (lwpReady p st1) (f(q := xs, SchedQ (pr_pri (l_proc st p)) := f (SchedQ (pr_pri (l_proc st p))) @ [p]))"
    "l_current st1 = l_current st" "l_proc st1 = l_proc st" "l_live st1 = l_live st" "l_count st1 = l_count st" "l_oops st1 = l_oops st"
    "l_readers st1 = l_readers st" "l_writers st1 = l_writers st"
proof -
  let ?c = "l_current st"
  have ok: "lwp_ok {?c} st f" using o by (simp add: running_def)
  obtain Q where Q: "lwpGetFirst q st = (Some p, st\<lparr>l_queue := Q\<rparr>)" "lwp_ok {p, ?c} (st\<lparr>l_queue := Q\<rparr>) (f(q := xs))"
    using ok_get [OF ok q(1)] q(2) by auto
  have "p \<noteq> ?c" using okD(7) [OF ok] q(1) by (auto simp: free_def) (metis list.set_intros(1))
  then have "{p, ?c} - {p} = {?c}" by auto
  moreover have "f (SchedQ i) = (f(q := xs)) (SchedQ i)" for i using q(2) by auto
  ultimately have "lwp_ok {?c} (lwpReady p (st\<lparr>l_queue := Q\<rparr>)) (f(q := xs, SchedQ (pr_pri (l_proc st p)) := f (SchedQ (pr_pri (l_proc st p))) @ [p]))"
    using ok_ready [OF Q(2), of p] by simp
  then have "running (lwpReady p (st\<lparr>l_queue := Q\<rparr>)) (f(q := xs, SchedQ (pr_pri (l_proc st p)) := f (SchedQ (pr_pri (l_proc st p))) @ [p]))"
    using o q(2) by (auto simp: running_def timely_def)
  then show ?thesis using that [OF Q(1)] by simp
qed

definition same_but_queues :: "lwp \<Rightarrow> lwp \<Rightarrow> bool" where
  "same_but_queues st st' \<longleftrightarrow> l_current st' = l_current st \<and> l_count st' = l_count st \<and> l_oops st' = l_oops st \<and> l_readers st' = l_readers st \<and>
     l_writers st' = l_writers st \<and> (\<forall>k. stopped_at st' k = stopped_at st k)"

lemma wake_readers_ok:
  "running st f \<Longrightarrow> \<exists>m st' f'. wake_readers l maxpri st = Some (m, st') \<and> running st' f' \<and> same_but_queues st st' \<and> f' (Rq l) = [] \<and>
    (\<forall>i. f' (Wq i) = f (Wq i) \<and> (i \<noteq> l \<longrightarrow> f' (Rq i) = f (Rq i)))"
proof (induction "f (Rq l)" arbitrary: st f maxpri)
  case Nil
  then have "rep st f" using okD(1) unfolding running_def by blast
  then have "lwpGetFirst (Rq l) st = (None, st)" using get_first_rep [of st f "Rq l"] Nil(1) by simp
  then have "wake_readers l maxpri st = Some (maxpri, st)" by (subst wake_readers.simps) simp
  then show ?case using Nil by (intro exI [of _ maxpri] exI [of _ st] exI [of _ f]) (simp add: same_but_queues_def)
next
  case (Cons p xs)
  let ?i = "pr_pri (l_proc st p)"
  obtain st1 where g: "lwpGetFirst (Rq l) st = (Some p, st1)" "running (lwpReady p st1) (f(Rq l := xs, SchedQ ?i := f (SchedQ ?i) @ [p]))"
    "l_current st1 = l_current st" "l_proc st1 = l_proc st" "l_live st1 = l_live st" "l_count st1 = l_count st" "l_oops st1 = l_oops st"
    "l_readers st1 = l_readers st" "l_writers st1 = l_writers st" using ready_queue_ok [OF Cons(3) Cons(2) [symmetric]] by blast
  have sb: "same_but_queues st (lwpReady p st1)" using g(3-) by (simp add: same_but_queues_def stopped_at_def)
  obtain m st' f' where r: "wake_readers l (max maxpri ?i) (lwpReady p st1) = Some (m, st')" "running st' f'" "same_but_queues (lwpReady p st1) st'"
    "f' (Rq l) = []" "\<forall>i. f' (Wq i) = (f(Rq l := xs, SchedQ ?i := f (SchedQ ?i) @ [p])) (Wq i) \<and>
      (i \<noteq> l \<longrightarrow> f' (Rq i) = (f(Rq l := xs, SchedQ ?i := f (SchedQ ?i) @ [p])) (Rq i))"
    using Cons(1) [OF _ g(2), of "max maxpri ?i"] by auto
  have "wake_readers l maxpri st = Some (m, st')" using g(1,4) r(1) by (subst wake_readers.simps) simp
  then show ?case using r(2,4,5) sb r(3) by (intro exI [of _ m] exI [of _ st'] exI [of _ f']) (simp add: same_but_queues_def)
qed

lemma wake_next_ok:
  assumes o: "running st f"
  shows "\<exists>w. wake_next l st = Some w \<and> (case w of
      None \<Rightarrow> l_count st l < 0 \<or> l_count st l > 0 \<or> f (Wq l) = [] \<and> f (Rq l) = []
    | Some (m, st') \<Rightarrow> \<exists>f'. running st' f' \<and> same_but_queues st st' \<and> ((\<forall>i. i \<noteq> l \<longrightarrow> f (Wq i) = [] \<and> f (Rq i) = [] \<or> l_count st i \<noteq> 0 \<or> woken st f i) \<longrightarrow>
        (\<forall>i. f' (Wq i) = [] \<and> f' (Rq i) = [] \<or> l_count st i \<noteq> 0 \<or> woken st' f' i)))"
proof -
  have r: "rep st f" using o okD(1) unfolding running_def by blast
  note h = rep_head [OF r]
  have keep: "woken st' f' i" if "woken st f i" "same_but_queues st st'" "set (f' (Wq i)) \<subseteq> set (f (Wq i))" "set (f' (Rq i)) \<subseteq> set (f (Rq i))" for st' f' i
    using that unfolding woken_def same_but_queues_def by blast
  show ?thesis
  proof (cases "l_count st l = 0 \<and> f (Wq l) \<noteq> []")
    case True
    then obtain p xs where p: "f (Wq l) = p # xs" by (cases "f (Wq l)") auto
    let ?i = "pr_pri (l_proc st p)" and ?f = "\<lambda>i. f(Wq l := xs, SchedQ i := f (SchedQ i) @ [p])"
    obtain st1 where g: "lwpGetFirst (Wq l) st = (Some p, st1)" "running (lwpReady p st1) (?f ?i)"
      "l_current st1 = l_current st" "l_proc st1 = l_proc st" "l_live st1 = l_live st" "l_count st1 = l_count st" "l_oops st1 = l_oops st"
      "l_readers st1 = l_readers st" "l_writers st1 = l_writers st" using ready_queue_ok [OF o p] by blast
    have sb: "same_but_queues st (lwpReady p st1)" using g(3-) by (simp add: same_but_queues_def stopped_at_def)
    have "p \<in> stopped_at st (In_wrlock l)" using o p okD(3) unfolding running_def queues_ok_def stopped_at_def
      by (metis (mono_tags, lifting) list.set_intros(1) mem_Collect_eq subsetD)
    moreover have "p \<notin> set xs" using r p unfolding rep_def by (metis distinct.simps(2))
    ultimately have "woken (lwpReady p st1) (?f ?i) l" using sb unfolding woken_def same_but_queues_def by auto
    moreover have "woken (lwpReady p st1) (?f ?i) i" if "woken st f i" for i by (rule keep [OF that sb]) (auto simp: p)
    ultimately have all: "(?f ?i) (Wq i) = [] \<and> (?f ?i) (Rq i) = [] \<or> l_count st i \<noteq> 0 \<or> woken (lwpReady p st1) (?f ?i) i"
      if l: "\<forall>i. i \<noteq> l \<longrightarrow> f (Wq i) = [] \<and> f (Rq i) = [] \<or> l_count st i \<noteq> 0 \<or> woken st f i" for i
      using l by (cases "i = l") auto
    have "wake_next l st = Some (Some (?i, lwpReady p st1))" using True g(1,4) h by (simp add: wake_next_def)
    moreover have "\<exists>f'. running (lwpReady p st1) f' \<and> same_but_queues st (lwpReady p st1) \<and> ((\<forall>i. i \<noteq> l \<longrightarrow> f (Wq i) = [] \<and> f (Rq i) = [] \<or> l_count st i \<noteq> 0 \<or> woken st f i) \<longrightarrow>
        (\<forall>i. f' (Wq i) = [] \<and> f' (Rq i) = [] \<or> l_count st i \<noteq> 0 \<or> woken (lwpReady p st1) f' i))"
      using g(2) sb all by blast
    ultimately show ?thesis by (intro exI [of _ "Some (?i, lwpReady p st1)"]) (simp only: option.case prod.case simp_thms)
  next
    case nw: False
    show ?thesis
    proof (cases "l_count st l \<ge> 0 \<and> f (Rq l) \<noteq> [] \<and> f (Wq l) = []")
      case True
      obtain m st' f' where w: "wake_readers l 0 st = Some (m, st')" "running st' f'" "same_but_queues st st'" "f' (Rq l) = []"
        "\<forall>i. f' (Wq i) = f (Wq i) \<and> (i \<noteq> l \<longrightarrow> f' (Rq i) = f (Rq i))" using wake_readers_ok [OF o, of l 0] by blast
      have all: "f' (Wq i) = [] \<and> f' (Rq i) = [] \<or> l_count st i \<noteq> 0 \<or> woken st' f' i"
        if l: "\<forall>i. i \<noteq> l \<longrightarrow> f (Wq i) = [] \<and> f (Rq i) = [] \<or> l_count st i \<noteq> 0 \<or> woken st f i" for i
        using l w(4,5) True keep [OF _ w(3), of i f'] by (cases "i = l") auto
      have "wake_next l st = Some (Some (m, st'))" using nw True w(1) h by (auto simp: wake_next_def)
      moreover have "\<exists>f'. running st' f' \<and> same_but_queues st st' \<and> ((\<forall>i. i \<noteq> l \<longrightarrow> f (Wq i) = [] \<and> f (Rq i) = [] \<or> l_count st i \<noteq> 0 \<or> woken st f i) \<longrightarrow>
          (\<forall>i. f' (Wq i) = [] \<and> f' (Rq i) = [] \<or> l_count st i \<noteq> 0 \<or> woken st' f' i))"
        using w(2,3) all by blast
      ultimately show ?thesis by (intro exI [of _ "Some (m, st')"]) (simp only: option.case prod.case simp_thms)
    next
      case False
      then have "wake_next l st = Some None" using nw h by (auto simp: wake_next_def)
      then show ?thesis using False nw by (intro exI [of _ None]) auto
    qed
  qed
qed

lemma unlock_ok:
  assumes o: "running st f" and l: "locks_ok st f" and now: "now > 0"
    and c: "l_current st \<in> set (l_readers st l @ l_writers st l)" and r: "lwp_rwlock_unlock now l st = Some st'"
  shows "\<exists>f'. running st' f' \<and> locks_ok st' f' \<and> calm st st'"
proof (cases "l_count st l = 0")
  case True
  then have "st' = st\<lparr>l_oops := True\<rparr>" using r by (simp add: lwp_rwlock_unlock_def)
  moreover have "l_oops st"
  proof (rule ccontr)
    assume "\<not> l_oops st"
    then have "lock_ok st l" using l unfolding locks_ok_def by blast
    then show False using True c by (auto simp: lock_ok_def)
  qed
  ultimately show ?thesis using o l running_fields [OF o, of st'] by (intro exI [of _ f]) (simp add: locks_ok_def stopped_at_def calm_def)
next
  case False
  let ?c = "l_current st"
  define st1 where "st1 = st\<lparr>l_count := (l_count st)(l := if l_count st l < 0 then 0 else l_count st l - 1),
    l_readers := (l_readers st)(l := remove1 ?c (l_readers st l)), l_writers := (l_writers st)(l := remove1 ?c (l_writers st l))\<rparr>"
  have run1: "running st1 f" by (rule running_fields [OF o]) (simp_all add: st1_def)
  have wok: "woken st1 f i = woken st f i" for i by (simp add: woken_def stopped_at_def st1_def)
  have sig: "\<forall>p \<in> stopped_at st1 In_sig_wait. \<forall>q \<in> stopped_at st1 In_sig_wait. p = q" using l by (simp add: locks_ok_def stopped_at_def st1_def)
  have lk: "lock_ok st1 i" if "\<not> l_oops st" for i
  proof -
    have i: "lock_ok st i" using l that unfolding locks_ok_def by blast
    show ?thesis
    proof (cases "i = l")
      case True
      from i [unfolded lock_ok_def] show ?thesis
      proof (elim disjE conjE)
        assume w: "l_count st i = - 1" "length (l_writers st i) = 1" "l_readers st i = []"
        then have "l_writers st i = [?c]" using c True by (cases "l_writers st i") auto
        then show ?thesis using w True by (simp add: lock_ok_def st1_def)
      next
        assume w: "l_writers st i = []" "l_count st i = int (length (l_readers st i))"
        then have "?c \<in> set (l_readers st i)" using c True by simp
        then have "length (remove1 ?c (l_readers st i)) = length (l_readers st i) - 1" "0 < length (l_readers st i)"
          by (auto simp: length_remove1 length_pos_if_in_set)
        then show ?thesis using w True by (simp add: lock_ok_def st1_def int_ops(6))
      qed
    next
      case False
      then show ?thesis using i by (simp add: lock_ok_def st1_def)
    qed
  qed
  have unl: "(case wake_next l st1 of None \<Rightarrow> None | Some None \<Rightarrow> Some st1
    | Some (Some (maxpri, st)) \<Rightarrow> if pr_pri (l_proc st ?c) < maxpri then lwpYield now st else Some st) = Some st'"
    using r False unfolding lwp_rwlock_unlock_def Let_def st1_def [symmetric] by (simp only: if_False)
  have wl: "\<forall>i. i \<noteq> l \<longrightarrow> f (Wq i) = [] \<and> f (Rq i) = [] \<or> l_count st1 i \<noteq> 0 \<or> woken st1 f i" if "\<not> l_oops st"
    using l that unfolding locks_ok_def wok by (simp add: st1_def)
  from wake_next_ok [OF run1, of l] obtain w where w: "wake_next l st1 = Some w" "(case w of
        None \<Rightarrow> l_count st1 l < 0 \<or> l_count st1 l > 0 \<or> f (Wq l) = [] \<and> f (Rq l) = []
      | Some (m, st') \<Rightarrow> \<exists>f'. running st' f' \<and> same_but_queues st1 st' \<and>
          ((\<forall>i. i \<noteq> l \<longrightarrow> f (Wq i) = [] \<and> f (Rq i) = [] \<or> l_count st1 i \<noteq> 0 \<or> woken st1 f i) \<longrightarrow>
            (\<forall>i. f' (Wq i) = [] \<and> f' (Rq i) = [] \<or> l_count st1 i \<noteq> 0 \<or> woken st' f' i)))"
    by blast
  have os: "l_oops st1 = l_oops st" by (simp add: st1_def)
  show ?thesis
  proof (cases w)
    case None
    have "f (Wq i) = [] \<and> f (Rq i) = [] \<or> l_count st1 i \<noteq> 0 \<or> woken st1 f i" if "\<not> l_oops st" for i
      using wl [OF that] w(2) None by (cases "i = l") auto
    then have "locks_ok st1 f" using sig lk unfolding locks_ok_def os by blast
    then show ?thesis using run1 unl w(1) None os by (auto simp: calm_def)
  next
    case (Some p)
    obtain m st2 where p: "p = (m, st2)" by (cases p)
    then obtain f2 where f2: "running st2 f2" "same_but_queues st1 st2"
      "\<not> l_oops st \<Longrightarrow> \<forall>i. f2 (Wq i) = [] \<and> f2 (Rq i) = [] \<or> l_count st1 i \<noteq> 0 \<or> woken st2 f2 i"
      using w(2) Some wl by auto
    have c2: "l_oops st2 = l_oops st" using f2(2) os by (simp add: same_but_queues_def)
    have l2: "locks_ok st2 f2" using sig lk f2(2,3) os unfolding locks_ok_def same_but_queues_def lock_ok_def by simp
    show ?thesis
    proof (cases "pr_pri (l_proc st2 ?c) < m")
      case True
      then have y: "lwpYield now st2 = Some st'" using unl w(1) Some p by simp
      show ?thesis using yield_ok [OF _ _ now y] f2(1) locks_calm [OF _ l2] c2 unfolding running_def calm_def by metis
    next
      case False
      then show ?thesis using unl w(1) Some p f2(1) l2 c2 by (auto simp: calm_def)
    qed
  qed
qed

section \<open>All steps\<close>

lemma call_ok:
  assumes o: "running st f" and l: "locks_ok st f" and u: "pr_pc (l_proc st (l_current st)) = User" and now: "now > 0"
    and a: "allowed now c st" and r: "do_call now c st = Some st'"
  shows "\<exists>f'. running st' f' \<and> locks_ok st' f' \<and> calm st st'"
proof -
  have ok: "lwp_ok {l_current st} st f" "timely st f" using o by (simp_all add: running_def)
  note same = locks_calm [OF _ l]
  show ?thesis
  proof (cases c)
    case Yield
    then show ?thesis using r yield_ok [OF ok now] same by (auto simp: do_call_def)
  next
    case Exit
    then show ?thesis using r exit_ok [OF o u now] same by (auto simp: do_call_def)
  next
    case (Create pri got stack)
    then show ?thesis using r a lwp_create_ok [OF o now, of got pri stack st'] same by (auto simp: do_call_def allowed_def split: option.splits)
  next
    case (Sleep_fd fd rw t)
    then show ?thesis using r a sleep_fd_ok [OF o u now, of t fd rw st'] same by (auto simp: do_call_def allowed_def split: option.splits)
  next
    case (Sleep_until until)
    then show ?thesis using r a sleep_until_ok [OF o u now, of until st'] same by (auto simp: do_call_def allowed_def)
  next
    case (Wakeup p)
    then show ?thesis using r a wakeup_ok [OF o _ now, of p st'] same by (auto simp: do_call_def allowed_def)
  next
    case (Sig_wait beyond)
    have none: "stopped_at st In_sig_wait = {}" using a Sig_wait by (auto simp: allowed_def stopped_at_def)
    show ?thesis
    proof (cases "l_sigwaiter st = None")
      case False
      then show ?thesis using r o l Sig_wait by (auto simp: do_call_def lwpSigWait_def)
    next
      case True
      then have s: "sig_loop now beyond st = Some st'" using r Sig_wait by (simp add: do_call_def lwpSigWait_def)
      obtain f' k where f': "k \<in> {User, In_sig_wait}" "running st' f'" "same_locks (goes_on k st) f st' f'"
        using sig_loop_ok [OF o _ True now s] u by auto
      have "locks_ok (goes_on k st) f" using f'(1) none u by (intro locks_goes_on [OF l]) auto
      then show ?thesis using f'(2) locks_calm [OF f'(3)] by (auto simp: calm_def goes_on_def)
    qed
  next
    case (Wrlock l')
    show ?thesis
    proof (cases "l_count st l' = 0")
      case True
      then have "st' = got_wrlock l' st" using r Wrlock by (simp add: do_call_def lwp_rwlock_wrlock_def)
      moreover have "calm st (got_wrlock l' st)" using True by (simp add: calm_def got_wrlock_def goes_on_def)
      ultimately show ?thesis using got_ok [OF o l, of "In_wrlock l'" l' st'] u by auto
    next
      case False
      then have "lwpReschedule now (goes_on (In_wrlock l') (lwpAddTail (Wq l') (l_current st) st)) = Some st'"
        using r Wrlock by (simp add: do_call_def lwp_rwlock_wrlock_def)
      then show ?thesis using blocked_ok [OF o u now l _ _, of l' "Wq l'" "In_wrlock l'" st'] False by auto
    qed
  next
    case (Rdlock l')
    have h: "q_head (l_queue st (Wq l')) = None \<longleftrightarrow> f (Wq l') = []" using rep_head [OF okD(1) [OF ok(1)], of "Wq l'"] by auto
    show ?thesis
    proof (cases "l_count st l' < 0 \<or> f (Wq l') \<noteq> []")
      case False
      then have "st' = got_rdlock l' st" using r h Rdlock by (simp add: do_call_def lwp_rwlock_rdlock_def)
      moreover have "calm st (got_rdlock l' st)" using False by (simp add: calm_def got_rdlock_def goes_on_def)
      ultimately show ?thesis using got_ok [OF o l, of "In_rdlock l'" l' st'] u by auto
    next
      case True
      then have "lwpReschedule now (goes_on (In_rdlock l') (lwpAddTail (Rq l') (l_current st) st)) = Some st'"
        using r h Rdlock by (auto simp: do_call_def lwp_rwlock_rdlock_def)
      then show ?thesis using blocked_ok [OF o u now l _ _, of l' "Rq l'" "In_rdlock l'" st'] True by auto
    qed
  next
    case (Unlock l')
    then show ?thesis using r a unlock_ok [OF o l now, of l' st'] by (auto simp: do_call_def allowed_def)
  next
    case (Set_priority pri)
    then show ?thesis using r a set_priority_ok [OF o u now, of pri st'] same by (auto simp: do_call_def allowed_def)
  qed
qed

lemma resume_ok:
  assumes o: "running st f" and l: "locks_ok st f" and now: "now > 0" and r: "resume now res ready beyond st = Some st'"
  shows "\<exists>f'. running st' f' \<and> locks_ok st' f' \<and> (comes_late st \<or> calm st st')"
proof (cases "pr_pc (l_proc st (l_current st))")
  case User
  then show ?thesis using r by (simp add: resume_def)
next
  case In_sleep_fd
  then have "st' = goes_on User st" using r by (simp add: resume_def)
  then show ?thesis using running_goes_on [OF o, of User] locks_goes_on [OF l, of User] In_sleep_fd
    by (auto simp: calm_def goes_on_def)
next
  case In_sleep_until
  let ?u = "upd (l_current st) (pr_runtime_update (\<lambda>_. - 1)) st"
  have st': "st' = goes_on User ?u" using r In_sleep_until by (simp add: resume_def slept_until_def Let_def)
  have fr: "free st f (l_current st)" using running_current [OF o] by blast
  then have "lwp_ok {l_current st} ?u f" using o by (intro ok_runtime) (auto simp: running_def free_def)
  moreover have "timely ?u f" using o fr by (auto simp: running_def timely_def free_def)
  ultimately have u: "running ?u f" using o by (simp add: running_def)
  have "locks_ok ?u f" by (rule locks_same [OF _ l]) (auto simp: same_locks_def stopped_at_def)
  then show ?thesis using running_goes_on [OF u, of User] locks_goes_on [of ?u f User] In_sleep_until st'
    by (auto simp: calm_def goes_on_def)
next
  case (In_wrlock i)
  then have "st' = got_wrlock i st" using r by (simp add: resume_def)
  moreover have "comes_late st \<or> calm st (got_wrlock i st)"
    using In_wrlock by (simp add: calm_def comes_late_def got_wrlock_def goes_on_def)
  ultimately show ?thesis using got_ok [OF o l, of "In_wrlock i" i st'] In_wrlock by auto
next
  case (In_rdlock i)
  then have "st' = got_rdlock i st" using r by (simp add: resume_def)
  moreover have "comes_late st \<or> calm st (got_rdlock i st)"
    using In_rdlock by (auto simp: calm_def comes_late_def got_rdlock_def goes_on_def)
  ultimately show ?thesis using got_ok [OF o l, of "In_rdlock i" i st'] In_rdlock by auto
next
  case In_sig_wait
  have c: "l_current st \<in> stopped_at st In_sig_wait" "free st f (l_current st)" using In_sig_wait running_current [OF o] by (auto simp: stopped_at_def)
  then have only: "stopped_at st In_sig_wait \<subseteq> {l_current st}" using l unfolding locks_ok_def by blast
  have w: "l_sigwaiter st = None"
  proof (cases "l_sigwaiter st")
    case (Some p)
    have "sig_ok st f" using o okD(5) unfolding running_def by blast
    then have "p \<in> stopped_at st In_sig_wait" using Some by (simp add: sig_ok_def stopped_at_def)
    then show ?thesis using only c(2) Some by (auto simp: free_def)
  qed simp
  have s: "sig_loop now beyond st = Some st'" using r In_sig_wait by (simp add: resume_def)
  obtain f' k where f': "k \<in> {User, In_sig_wait}" "running st' f'" "same_locks (goes_on k st) f st' f'"
    using sig_loop_ok [OF o _ w now s] In_sig_wait by auto
  have "locks_ok (goes_on k st) f" using f'(1) only In_sig_wait by (intro locks_goes_on [OF l]) auto
  then show ?thesis using f'(2) locks_calm [OF f'(3)] by (auto simp: calm_def goes_on_def)
next
  case Selecting
  then have "lwpSelect_body now res ready st = Some st'" using r by (simp add: resume_def)
  then show ?thesis using select_ok [OF o Selecting now] locks_calm [OF _ l] by blast
qed

lemma start_ok:
  assumes r: "lwpInitSystem now pri main sel sigs = Some st" and ne: "main \<noteq> sel" and now: "now > 0"
  shows "\<exists>f. running st f \<and> locks_ok st f \<and> \<not> l_oops st"
proof -
  define k :: nat where "k = (if LWP_MAX_PRIO \<le> (if pri < 1 then 1 else pri) then LWP_MAX_PRIO - 1 else if pri < 1 then 1 else pri)"
  have k: "0 < k" by (simp add: k_def LWP_MAX_PRIO_def)
  define s0 where "s0 = \<lparr>l_proc = (\<lambda>_. \<lparr>pr_next = None, pr_dead = False, pr_pri = k, pr_runtime = 0, pr_fd = 0, pr_fd_ready = False, pr_pc = User\<rparr>),
    l_queue = (\<lambda>_. empty_queue), l_current = main, l_maxpri = max 0 k, l_live = {main}, l_maxfd = 0, l_nfds = 0, l_readfds = {}, l_writefds = {},
    l_fdwait = (\<lambda>_. None), l_selproc = sel, l_awaited = sigs, l_pending = map (\<lambda>_. False) sigs, l_sigcheck = False, l_sigwaiter = None,
    l_count = (\<lambda>_. 0), l_oops = False, l_readers = (\<lambda>_. []), l_writers = (\<lambda>_. [])\<rparr>"
  define s1 where "s1 = upd sel (\<lambda>_. \<lparr>pr_next = None, pr_dead = False, pr_pri = 0, pr_runtime = - 1, pr_fd = - 1,
    pr_fd_ready = False, pr_pc = Selecting\<rparr>) (s0\<lparr>l_live := insert sel (l_live s0)\<rparr>)"
  have "lwpCreate now 0 Selecting (Some sel) True s0 = Some st"
    using r by (simp only: lwpInitSystem_def Let_def k_def [symmetric] s0_def [symmetric])
  then have "lwpReschedule now (lwpReady (l_current s1) (lwpReady sel s1)) = Some st"
    by (simp add: lwpCreate_def s1_def LWP_MAX_PRIO_def s0_def Let_def)
  then have y: "lwpYield now (lwpReady sel s1) = Some st" by (simp add: lwpYield_def lwpReady_def)
  let ?e = "\<lambda>_. [] :: nat list"
  have f1: "l_current s1 = main" "l_live s1 = {sel, main}" "l_queue s1 = (\<lambda>_. empty_queue)" "l_fdwait s1 = (\<lambda>_. None)" "l_sigwaiter s1 = None"
    "l_selproc s1 = sel" "l_count s1 = (\<lambda>_. 0)" "l_readers s1 = (\<lambda>_. [])" "l_writers s1 = (\<lambda>_. [])" "l_nfds s1 = 0" "l_maxpri s1 = k"
    "pr_pri (l_proc s1 sel) = 0" "pr_pri (l_proc s1 main) = k" "pr_pc (l_proc s1 sel) = Selecting" "pr_pc (l_proc s1 main) = User"
    "\<not> pr_dead (l_proc s1 sel)" "\<not> pr_dead (l_proc s1 main)"
    using ne by (auto simp: s1_def s0_def)
  have "lwp_ok {sel, main} s1 ?e"
    using f1 k ne by (simp add: lwp_ok_def ok_defs rep_def is_queue_def empty_queue_def)
  then have "lwp_ok ({sel, main} - {sel}) (lwpReady sel s1) (?e(SchedQ 0 := [sel]))" using ok_ready [of "{sel, main}" s1 ?e sel] f1 by simp
  moreover have "{sel, main} - {sel} = {main}" using ne by auto
  ultimately have o: "lwp_ok {l_current (lwpReady sel s1)} (lwpReady sel s1) (?e(SchedQ 0 := [sel]))" by (simp add: lwpReady_def f1)
  have t: "timely (lwpReady sel s1) (?e(SchedQ 0 := [sel]))" by (simp add: timely_def)
  obtain f where f: "running st f" "same_locks (lwpReady sel s1) (?e(SchedQ 0 := [sel])) st f" using yield_ok [OF o t now y] by blast
  have "locks_ok s1 ?e" using f1 by (auto simp: locks_ok_def lock_ok_def stopped_at_def)
  then have "locks_ok (lwpReady sel s1) (?e(SchedQ 0 := [sel]))"
    using locks_same [OF same_locks_ready, of s1 ?e sel 0 "[sel]"] by simp
  moreover have "\<not> l_oops s1" by (simp add: s1_def s0_def)
  then have "\<not> l_oops st" using f(2) by (simp add: same_locks_def lwpReady_def)
  ultimately show ?thesis using f locks_same by blast
qed

lemma signal_ok:
  assumes o: "running st f" and l: "locks_ok st f"
  shows "running (lwpHandleAwaitedSig sig st) f \<and> locks_ok (lwpHandleAwaitedSig sig st) f"
proof
  show "running (lwpHandleAwaitedSig sig st) f" by (rule running_fields [OF o]) (simp_all add: lwpHandleAwaitedSig_def)
  show "locks_ok (lwpHandleAwaitedSig sig st) f"
    by (rule locks_same [OF _ l]) (simp add: same_locks_def stopped_at_def lwpHandleAwaitedSig_def)
qed

lemma reachable_ok: "lwp_reachable st \<Longrightarrow> \<exists>f. running st f \<and> locks_ok st f"
proof (induction rule: lwp_reachable.induct)
  case (start now pri main sel sigs st)
  then show ?case using start_ok [of now pri main sel sigs st] by blast
next
  case (step st st')
  then obtain f where f: "running st f" "locks_ok st f" by blast
  from step.hyps(2) show ?case
  proof (cases rule: lwp_step.cases)
    case (call now c)
    then show ?thesis using call_ok [OF f, of now c st'] by blast
  next
    case (resume now res ready beyond)
    then show ?thesis using resume_ok [OF f, of now res ready beyond st'] by blast
  next
    case (signal sig)
    then show ?thesis using signal_ok [OF f] by blast
  qed
qed

section \<open>Runs\<close>

text \<open>What happens, step by step: a call, or the rest of the operation the current thread is in.\<close>

datatype happening = Calls int call | Goes_on int "bool + int" "int set \<times> int set" bool

fun lwp_run :: "happening list \<Rightarrow> lwp \<Rightarrow> lwp option" where
  "lwp_run [] st = Some st"
| "lwp_run (Calls now c # hs) st =
     (if pr_pc (l_proc st (l_current st)) = User \<and> now > 0 \<and> allowed now c st
      then Option.bind (do_call now c st) (lwp_run hs) else None)"
| "lwp_run (Goes_on now res ready beyond # hs) st =
     (if pr_pc (l_proc st (l_current st)) \<noteq> User \<and> now > 0 then Option.bind (resume now res ready beyond st) (lwp_run hs) else None)"

lemma run_reachable: "lwp_run hs st = Some st' \<Longrightarrow> lwp_reachable st \<Longrightarrow> lwp_reachable st'"
proof (induction hs st rule: lwp_run.induct)
  case (2 now c hs st)
  then obtain st1 where 1: "pr_pc (l_proc st (l_current st)) = User" "now > 0" "allowed now c st" "do_call now c st = Some st1" "lwp_run hs st1 = Some st'"
    by (auto split: if_splits simp: bind_eq_Some_conv)
  have "lwp_reachable st1" by (rule lwp_reachable.step [OF "2.prems"(2) lwp_step.call [OF 1(1-4)]])
  then show ?case using "2.IH" 1 by blast
next
  case (3 now res ready beyond hs st)
  then obtain st1 where 1: "pr_pc (l_proc st (l_current st)) \<noteq> User" "now > 0" "resume now res ready beyond st = Some st1" "lwp_run hs st1 = Some st'"
    by (auto split: if_splits simp: bind_eq_Some_conv)
  have "lwp_reachable st1" by (rule lwp_reachable.step [OF "3.prems"(2) lwp_step.resume [OF 1(1-3)]])
  then show ?case using "3.IH" 1 by blast
qed simp

lemma init_reachable: "lwpInitSystem now pri main sel sigs = Some st \<Longrightarrow> main \<noteq> sel \<Longrightarrow> now > 0 \<Longrightarrow> lwp_reachable st"
  by (rule lwp_reachable.start)

text \<open>
  Threads of the same priority, as all of the server's are. The reader 0 unlocks while the writer 2 waits. This makes 2 ready,
  but 3 runs before it and gets a read lock, and then 2 goes on and has its write lock too.
\<close>

definition late_writer :: "happening list" where
  "late_writer =
     [Calls 1 (Rdlock 0), Calls 1 (Create 1 (Some 2) True), Calls 1 (Wrlock 0), Calls 1 (Create 1 (Some 3) True), Calls 1 Yield,
      Calls 1 (Unlock 0), Calls 1 Yield, Calls 1 (Rdlock 0), Calls 1 Yield, Goes_on 1 (Inl True) ({}, {}) False]"

lemmas exec_defs = lwpInitSystem_def lwpCreate_def LWP_MAX_PRIO_def upd_def lwpReady_def lwpAddTail_def lwpGetFirst_def empty_queue_def
  lwpReschedule_def lwpSigWakeup_def lwpWakeupSleep_def lwpYield_def goes_on_def do_call_def allowed_def resume_def
  lwp_rwlock_rdlock_def lwp_rwlock_wrlock_def lwp_rwlock_unlock_def got_rdlock_def got_wrlock_def wake_next_def bury_loop.simps first_alive.simps

lemma late_writer_runs:
  "map_option (\<lambda>st. (l_readers st 0, l_writers st 0, l_oops st)) (Option.bind (lwpInitSystem 1 1 0 1 []) (lwp_run late_writer)) =
     Some ([3], [2], True)"
  by (simp add: exec_defs late_writer_def Let_def)

lemma woken_writer_can_be_late: "\<exists>st. lwp_reachable st \<and> l_readers st 0 = [3] \<and> l_writers st 0 = [2]"
proof -
  obtain st0 st where st: "lwpInitSystem 1 1 0 1 [] = Some st0" "lwp_run late_writer st0 = Some st" "l_readers st 0 = [3]" "l_writers st 0 = [2]"
    using late_writer_runs by (auto simp: bind_eq_Some_conv simp del: One_nat_def)
  have "lwp_reachable st0" using st(1) by (rule init_reachable) simp_all
  then show ?thesis using run_reachable [OF st(2)] st(3,4) by blast
qed

lemma init_runs: "\<exists>st. lwpInitSystem 1 1 0 1 [] = Some st \<and> l_current st = 0 \<and> pr_pc (l_proc st 0) = User"
  by (simp add: exec_defs Let_def)

section \<open>What holds in every reachable state\<close>

lemma linked_unique: "linked pr xs \<Longrightarrow> linked pr ys \<Longrightarrow> xs \<noteq> [] \<Longrightarrow> ys \<noteq> [] \<Longrightarrow> hd xs = hd ys \<Longrightarrow> xs = ys"
proof (induction pr xs arbitrary: ys rule: linked.induct)
  case (2 pr x)
  then show ?case by (cases "(pr, ys)" rule: linked.cases) auto
next
  case (3 pr x y xs)
  from 3(3,5,6) obtain zs where zs: "ys = x # y # zs" "linked pr (y # zs)"
    by (cases "(pr, ys)" rule: linked.cases) (use 3(2) in auto)
  moreover have "y # xs = y # zs" using 3(1) [of "y # zs"] 3(2) zs(2) by simp
  ultimately show ?case by simp
qed simp

lemma rep_unique: "rep st f \<Longrightarrow> rep st g \<Longrightarrow> f = g"
proof
  fix q
  assume "rep st f" "rep st g"
  then have "is_queue (l_proc st) (l_queue st q) (f q)" "is_queue (l_proc st) (l_queue st q) (g q)" by (simp_all add: rep_def)
  then show "f q = g q" using linked_unique [of "l_proc st" "f q" "g q"] by (auto simp: is_queue_def split: if_splits)
qed

definition ready_thread :: "lwp \<Rightarrow> nat \<Rightarrow> bool" where
  "ready_thread st p \<longleftrightarrow> (\<exists>f i. rep st f \<and> p \<in> set (f (SchedQ i)) \<and> \<not> pr_dead (l_proc st p))"

lemma yield_runs:
  assumes o: "running st f" and now: "now > 0"
  shows "\<exists>st'. lwpYield now st = Some st' \<and>
    (\<forall>p. p = l_current st \<or> ready_thread st p \<longrightarrow> pr_pri (l_proc st p) \<le> pr_pri (l_proc st' (l_current st')))"
proof -
  let ?c = "l_current st" and ?st = "lwpReady (l_current st) st"
  let ?f = "f(SchedQ (pr_pri (l_proc st ?c)) := f (SchedQ (pr_pri (l_proc st ?c))) @ [?c])"
  have r: "lwp_ok {?c} st f" "timely st f" "\<not> pr_dead (l_proc st ?c)" using o by (simp_all add: running_def)
  have o1: "lwp_ok {} ?st ?f" using ok_ready [OF r(1), of ?c] by simp
  have t: "timely ?st ?f" using r(2) by (simp add: timely_def lwpReady_def)
  have "?c \<notin> set (f DeadQ)" using okD(7) [OF r(1), of ?c] by (simp add: free_def)
  then have nd: "l_current ?st \<notin> set (?f DeadQ)" by (simp add: lwpReady_def)
  have dead: "pr_dead (l_proc ?st x) = pr_dead (l_proc st x)" for x by (simp add: lwpReady_def)
  obtain st' where st': "lwpReschedule now ?st = Some st'"
    "\<forall>j. \<forall>y \<in> set (?f (SchedQ j)). \<not> pr_dead (l_proc ?st y) \<longrightarrow> j \<le> pr_pri (l_proc st' (l_current st'))"
    using reschedule_runs [OF o1 t now nd, of ?c "pr_pri (l_proc st ?c)"] r(3) dead by auto
  have "pr_pri (l_proc st p) \<le> pr_pri (l_proc st' (l_current st'))" if p: "p = ?c \<or> ready_thread st p" for p
  proof -
    obtain j where j: "p \<in> set (?f (SchedQ j))" "\<not> pr_dead (l_proc st p)" "pr_pri (l_proc st p) = j"
    proof (cases "p = ?c")
      case True
      then show ?thesis using that [of "pr_pri (l_proc st ?c)"] r(3) by simp
    next
      case False
      then obtain g i where g: "rep st g" "p \<in> set (g (SchedQ i))" "\<not> pr_dead (l_proc st p)" using p unfolding ready_thread_def by blast
      then have "p \<in> set (f (SchedQ i))" using rep_unique [OF okD(1) [OF r(1)] g(1)] by simp
      moreover from this have "pr_pri (l_proc st p) = i" using okD(3) [OF r(1)] by (simp add: queues_ok_def)
      moreover have "p \<in> set (?f (SchedQ i))" using \<open>p \<in> set (f (SchedQ i))\<close> by auto
      ultimately show ?thesis using that g(3) by blast
    qed
    have "\<not> pr_dead (l_proc ?st p)" using j(2) dead by simp
    then show ?thesis using st'(2) j(1,3) by blast
  qed
  then show ?thesis using st'(1) by (auto simp: lwpYield_def)
qed





text \<open>
  The states that are reached as long as no thread that has been woken to take a lock finds it taken when it goes on. Nothing in
  the scheduler keeps this from happening: see \<open>woken_writer_can_be_late\<close>.
\<close>

inductive lwp_punctual :: "lwp \<Rightarrow> bool" where
  start: "lwpInitSystem now pri main sel sigs = Some st \<Longrightarrow> main \<noteq> sel \<Longrightarrow> now > 0 \<Longrightarrow> lwp_punctual st"
| step: "lwp_punctual st \<Longrightarrow> lwp_step st st' \<Longrightarrow> \<not> comes_late st \<Longrightarrow> lwp_punctual st'"

lemma punctual_ok: "lwp_punctual st \<Longrightarrow> \<not> l_oops st \<and> (\<exists>f. running st f \<and> locks_ok st f)"
proof (induction rule: lwp_punctual.induct)
  case (start now pri main sel sigs st)
  then show ?case using start_ok [of now pri main sel sigs st] by blast
next
  case (step st st')
  then obtain f where f: "running st f" "locks_ok st f" "\<not> l_oops st" by blast
  from step.hyps(2) show ?case
  proof (cases rule: lwp_step.cases)
    case (call now c)
    then show ?thesis using call_ok [OF f(1,2), of now c st'] f(3) by (auto simp: calm_def)
  next
    case (resume now res ready beyond)
    then show ?thesis using resume_ok [OF f(1,2), of now res ready beyond st'] f(3) step.hyps(3) by (auto simp: calm_def)
  next
    case (signal sig)
    then show ?thesis using signal_ok [OF f(1,2)] f(3) by (auto simp: lwpHandleAwaitedSig_def)
  qed
qed

text \<open>
  C29. As long as no thread that has waited for a lock comes too late, a read-write lock excludes: whatever threads lock and unlock,
  also again what they hold, it is held either by one writer and no reader, with \<open>count\<close> -1, or by \<open>count\<close> readers, each as often as it
  has locked, and no writer; nobody waits for a lock that is free, unless a thread that has
  been woken to take it is still on its way; and the locks report no \<open>CANT_HAPPEN\<close>. So exclusion can only be
  broken by a thread that goes on after it has waited.
\<close>

theorem lwp_rwlock_excludes:
  assumes "lwp_punctual st"
  shows "\<not> l_oops st \<and>
    (l_count st l = - 1 \<and> length (l_writers st l) = 1 \<and> l_readers st l = [] \<or>
      l_writers st l = [] \<and> l_count st l = int (length (l_readers st l))) \<and>
    (\<exists>f. rep st f \<and> (f (Wq l) = [] \<and> f (Rq l) = [] \<or> l_count st l \<noteq> 0 \<or>
       (\<exists>p \<in> l_live st. pr_pc (l_proc st p) = In_wrlock l \<and> p \<notin> set (f (Wq l)) \<or> pr_pc (l_proc st p) = In_rdlock l \<and> p \<notin> set (f (Rq l)))))"
proof -
  obtain f where f: "running st f" "locks_ok st f" and n: "\<not> l_oops st" using punctual_ok [OF assms] by blast
  then have l: "lock_ok st l" "f (Wq l) = [] \<and> f (Rq l) = [] \<or> l_count st l \<noteq> 0 \<or> woken st f l" by (auto simp: locks_ok_def)
  have "rep st f" using f(1) okD(1) unfolding running_def by blast
  moreover have "f (Wq l) = [] \<and> f (Rq l) = [] \<or> l_count st l \<noteq> 0 \<or>
    (\<exists>p \<in> l_live st. pr_pc (l_proc st p) = In_wrlock l \<and> p \<notin> set (f (Wq l)) \<or> pr_pc (l_proc st p) = In_rdlock l \<and> p \<notin> set (f (Rq l)))"
    using l(2) by (auto simp: woken_def stopped_at_def)
  ultimately show ?thesis using l(1) n unfolding lock_ok_def by blast
qed

text \<open>
  The thread 0 reads, twice, and the writer 2 waits; 0 unlocks both and 2 goes on and has its lock.
\<close>

definition handed_over :: "happening list" where
  "handed_over =
     [Calls 1 (Rdlock 0), Calls 1 (Rdlock 0), Calls 1 (Create 1 (Some 2) True), Calls 1 (Wrlock 0), Calls 1 (Unlock 0),
      Calls 1 (Unlock 0), Calls 1 Yield, Goes_on 1 (Inl True) ({}, {}) False]"

fun punctual_run :: "happening list \<Rightarrow> lwp \<Rightarrow> bool" where
  "punctual_run [] st \<longleftrightarrow> True"
| "punctual_run (h # hs) st \<longleftrightarrow> \<not> comes_late st \<and> (case lwp_run [h] st of None \<Rightarrow> True | Some st \<Rightarrow> punctual_run hs st)"

lemma run_punctual: "lwp_run hs st = Some st' \<Longrightarrow> punctual_run hs st \<Longrightarrow> lwp_punctual st \<Longrightarrow> lwp_punctual st'"
proof (induction hs arbitrary: st)
  case (Cons h hs)
  obtain st1 where 1: "lwp_run [h] st = Some st1" "lwp_run hs st1 = Some st'"
    using Cons.prems(1) by (cases h) (auto split: if_splits simp: bind_eq_Some_conv)
  have "lwp_step st st1"
    using 1(1) by (cases h) (auto split: if_splits simp: bind_eq_Some_conv intro: lwp_step.intros)
  then have "lwp_punctual st1" using Cons.prems(2,3) lwp_punctual.step by simp
  then show ?case using Cons.IH [OF 1(2)] Cons.prems(2) 1(1) by simp
qed simp

lemma handed_over_runs:
  "(case lwpInitSystem 1 1 0 1 [] of None \<Rightarrow> False | Some st0 \<Rightarrow> punctual_run handed_over st0 \<and>
     map_option (\<lambda>st. (l_readers st 0, l_writers st 0, l_current st)) (lwp_run handed_over st0) = Some ([], [2], 2))"
  by (simp add: exec_defs handed_over_def comes_late_def Let_def)

lemma lwp_rwlock_excludes_witness:
  "\<exists>st. Option.bind (lwpInitSystem 1 1 0 1 []) (lwp_run handed_over) = Some st \<and> l_writers st 0 = [2] \<and> l_readers st 0 = [] \<and> l_count st 0 = - 1"
proof -
  obtain st0 st where st: "lwpInitSystem 1 1 0 1 [] = Some st0" "punctual_run handed_over st0" "lwp_run handed_over st0 = Some st"
    "l_writers st 0 = [2]"
    using handed_over_runs by (auto split: option.splits simp del: One_nat_def lwp_run.simps punctual_run.simps)
  have "lwp_punctual st0" by (rule lwp_punctual.start [OF st(1)]) simp_all
  then have "lwp_punctual st" by (rule run_punctual [OF st(3,2)])
  from lwp_rwlock_excludes [OF this, of 0] st show ?thesis by (auto simp del: One_nat_def lwp_run.simps)
qed

text \<open>
  C30. Yielding always finds a thread to run, and one whose priority is at least that of every thread that was ready,
  the yielding one included.
\<close>

theorem lwp_yield_runs_best:
  assumes "lwp_reachable st" and "now > 0"
  shows "\<exists>st'. lwpYield now st = Some st' \<and>
    (\<forall>p. p = l_current st \<or> ready_thread st p \<longrightarrow> pr_pri (l_proc st p) \<le> pr_pri (l_proc st' (l_current st')))"
  using reachable_ok [OF assms(1)] yield_runs [OF _ assms(2)] by blast

lemma lwp_yield_runs_best_witness:
  "\<exists>st st'. lwpInitSystem 1 1 0 1 [] = Some st \<and> lwpYield 1 st = Some st' \<and> pr_pri (l_proc st (l_current st)) \<le> pr_pri (l_proc st' (l_current st'))"
proof -
  obtain st where st: "lwpInitSystem 1 1 0 1 [] = Some st" using init_runs by blast
  have r: "lwp_reachable st" using st by (rule init_reachable) simp_all
  have "(0 :: int) < 1" by simp
  from lwp_yield_runs_best [OF r this] st show ?thesis by auto
qed

text \<open>
  Signals are lost: when two are pending, \<open>lwpGetSig\<close> returns the last and forgets the other, whatever follows.
\<close>

lemma lwpGetSig_loses_signals:
  "l_awaited st = [a, b] \<Longrightarrow> l_pending st = [True, True] \<Longrightarrow>
    lwpGetSig beyond st = (b, (if beyond then st else st\<lparr>l_sigcheck := False\<rparr>)\<lparr>l_pending := [False, False]\<rparr>)"
  by (simp add: lwpGetSig_def Let_def)

end
