(* ===== verification/Selector.thy ===== *)
theory Selector
  imports Match Hexmap
begin

text \<open>
  Conditions on game objects, the part of a command argument after \<open>?\<close>: \<open>include/nsc.h\<close>,
  \<open>src/lib/subs/nstr.c\<close> (compiling and executing them), \<open>src/lib/common/nstreval.c\<close> (values),
  the searches for values by name of \<open>src/lib/common/type.c\<close> and \<open>cnumb.c\<close>, and the virtual selectors of
  \<open>src/lib/common/nsc.c\<close>.

  The text of a condition is a C string, the list of its characters without the terminating zero. What a \<open>char *\<close>
  points to is the list of the characters that may be read there, zeros included. A context object is of type \<open>'o\<close>,
  a floating-point number of type \<open>'d\<close>; reading a member of an object and arithmetic on \<open>'d\<close> are in the
  record \<open>objects\<close>. An offset is the name of a member. None stands for a report by \<open>CANT_HAPPEN\<close> or \<open>CANT_REACH\<close>, after
  which the code gives zero, and for what C leaves undefined: reading a member of the union that was not the one
  stored, or behind the end of a string.
\<close>

section \<open>Selectors and values\<close>

datatype nsc_type = NSC_NOTYPE | NSC_LONG | NSC_DOUBLE | NSC_STRING | NSC_CHAR | NSC_UCHAR | NSC_SHORT | NSC_USHORT
  | NSC_INT | NSC_XCOORD | NSC_YCOORD | NSC_TIME | NSC_FLOAT | NSC_STRINGY

definition NSC_NATID :: nsc_type where "NSC_NATID = NSC_UCHAR"

definition NSC_IS_PROMOTED :: "nsc_type \<Rightarrow> bool" where
  "NSC_IS_PROMOTED t \<longleftrightarrow> t \<in> {NSC_LONG, NSC_DOUBLE, NSC_STRING}"

datatype nsc_cat = NSC_NOCAT | NSC_VAL | NSC_OFF | NSC_ID

datatype offset = Zero | Member string | Element string nat | Key nat

datatype getter = nsc_ver | nsc_ver_maxnoc | nsc_ver_version | nsc_sct_terr | nsc_sct_track | nsc_cargo_nplane | nsc_cargo_nchopper
  | nsc_cargo_nxlight | nsc_cargo_nland | nsc_pln_att | nsc_pln_def | nsc_pln_nuketype | nsc_lnd_att | nsc_lnd_def | nsc_lnd_vul
  | nsc_lnd_spd | nsc_lnd_vis | nsc_lnd_frg | nsc_lnd_acc | nsc_lnd_dam | nsc_lnd_aaf | nsc_lchr | nsc_nws_timestamp | nsc_meta_type
  | nsc_meta_len

datatype table = EF_BAD | EF_SECTOR | EF_SHIP | EF_PLANE | EF_LAND | EF_NUKE | EF_NEWS | EF_TRADE | EF_POWER | EF_NATION | EF_RELAT
  | EF_CONTACT | EF_REJECT | EF_LOAN | EF_MAP | EF_BMAP | EF_COMM | EF_LOST | EF_REALM | EF_GAME
  | EF_ITEM | EF_PRODUCT | EF_SECTOR_CHR | EF_SHIP_CHR | EF_PLANE_CHR | EF_LAND_CHR | EF_NUKE_CHR | EF_NEWS_CHR | EF_INFRASTRUCTURE
  | EF_UPDATES | EF_TABLE | EF_VERSION | EF_META
  | EF_AGREEMENT_STATUS | EF_LAND_CHR_FLAGS | EF_LEVEL | EF_META_FLAGS | EF_META_TYPE | EF_MISSIONS | EF_NATION_FLAGS | EF_NATION_REJECTS
  | EF_NATION_RELATIONS | EF_NATION_STATUS | EF_NUKE_CHR_FLAGS | EF_PACKING | EF_PAGE_HEADINGS | EF_PLAGUE_STAGES | EF_PLANE_CHR_FLAGS
  | EF_PLANE_FLAGS | EF_RESOURCES | EF_RETREAT_FLAGS | EF_SECTOR_NAVIGATION | EF_SECTOR_CHR_FLAGS | EF_SHIP_CHR_FLAGS | EF_COUNTRY

datatype ca_dump = CA_DUMP | CA_DUMP_CONST | CA_DUMP_ONLY | CA_DUMP_NONE

definition NSC_DEITY :: int where "NSC_DEITY = 1"
definition NSC_BITS :: int where "NSC_BITS = 8"
definition NSC_HIDDEN :: int where "NSC_HIDDEN = 16"

record castr =
  ca_name :: string
  ca_off :: offset
  ca_type :: nsc_type
  ca_len :: nat
  ca_get :: "getter option"
  ca_table :: table
  ca_flags :: int
  ca_dump :: ca_dump

definition CA_IS_ARRAY :: "castr \<Rightarrow> bool" where
  "CA_IS_ARRAY ca \<longleftrightarrow> ca_type ca \<noteq> NSC_STRINGY \<and> ca_len ca \<noteq> 0"

record sym =
  off :: offset
  len :: nat
  idx :: int
  get :: "getter option"
  hidden :: bool

text \<open>The union of \<open>valstr\<close>, with the member last stored.\<close>

datatype 'd val_as = Sym sym | Dbl 'd | Str string nat | Lng int

record 'd valstr =
  val_type :: nsc_type
  val_cat :: nsc_cat
  val_as :: "'d val_as"

record 'd nscstr =
  operator :: char
  optype :: nsc_type
  lft :: "'d valstr"
  rgt :: "'d valstr"

fun nstr_promote :: "nsc_type \<Rightarrow> nsc_type" where
  "nstr_promote NSC_LONG = NSC_LONG"
| "nstr_promote NSC_DOUBLE = NSC_DOUBLE"
| "nstr_promote NSC_STRING = NSC_STRING"
| "nstr_promote NSC_CHAR = NSC_LONG"
| "nstr_promote NSC_UCHAR = NSC_LONG"
| "nstr_promote NSC_SHORT = NSC_LONG"
| "nstr_promote NSC_USHORT = NSC_LONG"
| "nstr_promote NSC_INT = NSC_LONG"
| "nstr_promote NSC_XCOORD = NSC_LONG"
| "nstr_promote NSC_YCOORD = NSC_LONG"
| "nstr_promote NSC_TIME = NSC_LONG"
| "nstr_promote NSC_FLOAT = NSC_DOUBLE"
| "nstr_promote NSC_STRINGY = NSC_STRING"
| "nstr_promote NSC_NOTYPE = NSC_NOTYPE"

definition nstr_mksymval :: "castr \<Rightarrow> int \<Rightarrow> 'd valstr" where
  "nstr_mksymval ca i =
     \<lparr>val_type = ca_type ca, val_cat = NSC_OFF,
      val_as = Sym \<lparr>off = ca_off ca, len = ca_len ca, idx = i, get = ca_get ca, hidden = (and (ca_flags ca) NSC_HIDDEN \<noteq> 0)\<rparr>\<rparr>"

section \<open>Parsing values\<close>

definition isdigit :: "char \<Rightarrow> bool" where
  "isdigit c \<longleftrightarrow> 48 \<le> (of_char c :: nat) \<and> of_char c \<le> (57 :: nat)"

definition isalpha :: "char \<Rightarrow> bool" where
  "isalpha c \<longleftrightarrow> 65 \<le> (of_char c :: nat) \<and> of_char c \<le> (90 :: nat) \<or> 97 \<le> (of_char c :: nat) \<and> of_char c \<le> (122 :: nat)"

definition isalnum :: "char \<Rightarrow> bool" where
  "isalnum c \<longleftrightarrow> isalpha c \<or> isdigit c"

text \<open>\<open>strtol\<close> of the C library with base 0: the value and how many characters it has read.\<close>

definition digit_value :: "char \<Rightarrow> int" where
  "digit_value c =
     (if isdigit c then of_char c - 48
      else if 65 \<le> (of_char c :: nat) \<and> of_char c \<le> (90 :: nat) then of_char c - 55
      else if 97 \<le> (of_char c :: nat) \<and> of_char c \<le> (122 :: nat) then of_char c - 87
      else 99)"

definition digits_of :: "int \<Rightarrow> string \<Rightarrow> string" where
  "digits_of base s = takeWhile (\<lambda>c. digit_value c < base) s"

definition number_of_digits :: "int \<Rightarrow> string \<Rightarrow> int" where
  "number_of_digits base ds = foldl (\<lambda>n c. n * base + digit_value c) 0 ds"

definition clamp_long :: "int \<Rightarrow> int" where
  "clamp_long n = max (- (2 ^ 63)) (min (2 ^ 63 - 1) n)"

definition strtol0 :: "string \<Rightarrow> int \<times> nat" where
  "strtol0 s =
     (let sp = length (takeWhile isspace s);
          s1 = drop sp s;
          sg = (if s1 \<noteq> [] \<and> hd s1 \<in> {CHR ''+'', CHR ''-''} then 1 else 0);
          neg = (sg = 1 \<and> hd s1 = CHR ''-'');
          s2 = drop sg s1;
          hex = (take 1 s2 = ''0'' \<and> take 1 (drop 1 s2) \<in> {''x'', ''X''} \<and> digits_of 16 (drop 2 s2) \<noteq> []);
          base = (if hex then 16 else if take 1 s2 = ''0'' then 8 else 10);
          ds = digits_of base (if hex then drop 2 s2 else s2);
          n = number_of_digits base ds
      in if ds = [] then (0, 0)
         else (clamp_long (if neg then - n else n), sp + sg + (if hex then 2 else 0) + length ds))"

text \<open>\<open>strtod\<close> likewise gives a value and how many characters it has read.\<close>

definition nstr_parse_val :: "(string \<Rightarrow> 'd \<times> nat) \<Rightarrow> string \<Rightarrow> 'd valstr \<times> string" where
  "nstr_parse_val strtod str =
     (if str \<noteq> [] \<and> hd str = CHR 0x27 then
        let s = takeWhile (\<lambda>c. c \<noteq> CHR 0x27) (tl str); tail = drop (length s) (tl str)
        in (\<lparr>val_type = NSC_STRING, val_cat = NSC_VAL, val_as = Str (tl str @ [CHR 0x00]) (length s)\<rparr>, drop 1 tail)
      else if str \<noteq> [] \<and> isalpha (hd str) then
        let s = takeWhile (\<lambda>c. isalnum c \<or> c = CHR ''_'') (tl str)
        in (\<lparr>val_type = NSC_NOTYPE, val_cat = NSC_ID, val_as = Str (str @ [CHR 0x00]) (Suc (length s))\<rparr>, drop (length s) (tl str))
      else
        let (l, tail) = strtol0 str; (d, tail2) = strtod str
        in if tail2 > tail then (\<lparr>val_type = NSC_DOUBLE, val_cat = NSC_VAL, val_as = Dbl d\<rparr>, drop tail2 str)
           else if tail \<noteq> 0 then (\<lparr>val_type = NSC_LONG, val_cat = NSC_VAL, val_as = Lng l\<rparr>, drop tail str)
           else (\<lparr>val_type = NSC_NOTYPE, val_cat = NSC_ID, val_as = Str (str @ [CHR 0x00]) (length (take 1 str))\<rparr>, drop 1 str))"

section \<open>Values by name\<close>

text \<open>
  The names in the tables: of the nations, with whether each is unused; the map symbols of the sector types; and of the other tables
  that are searched by name.
\<close>

record names =
  nm_nats :: "(bool \<times> string) list"
  nm_dchr :: string
  nm_tab :: "table \<Rightarrow> string list"

fun cnumb_loop :: "string \<Rightarrow> (bool \<times> string) list \<Rightarrow> int \<Rightarrow> int \<Rightarrow> int" where
  "cnumb_loop cntry [] cn res = res"
| "cnumb_loop cntry ((unused, name) # nats) cn res =
     (if unused then cnumb_loop cntry nats (cn + 1) res
      else if cntry = name then cn
      else if take (length cntry) name = cntry then (if res \<ge> 0 then M_NOTUNIQUE else cnumb_loop cntry nats (cn + 1) cn)
      else cnumb_loop cntry nats (cn + 1) res)"

definition cnumb :: "names \<Rightarrow> string \<Rightarrow> int" where
  "cnumb nm cntry = cnumb_loop cntry (nm_nats nm) 0 M_NOTFOUND"

fun typematch_loop :: "char \<Rightarrow> string \<Rightarrow> int \<Rightarrow> int" where
  "typematch_loop c [] i = M_NOTFOUND"
| "typematch_loop c (m # ms) i = (if m = c then i else typematch_loop c ms (i + 1))"

definition sct_typematch :: "names \<Rightarrow> string \<Rightarrow> int" where
  "sct_typematch nm name = (if length name = 1 then typematch_loop (hd name) (nm_dchr nm) 0 else M_NOTFOUND)"

text \<open>The tables with \<open>symbol_ca\<close> for selectors.\<close>

definition symbol_tables :: "table list" where
  "symbol_tables =
     [EF_AGREEMENT_STATUS, EF_LAND_CHR_FLAGS, EF_LEVEL, EF_META_FLAGS, EF_META_TYPE, EF_MISSIONS, EF_NATION_FLAGS, EF_NATION_REJECTS,
      EF_NATION_RELATIONS, EF_NATION_STATUS, EF_NUKE_CHR_FLAGS, EF_PACKING, EF_PAGE_HEADINGS, EF_PLAGUE_STAGES, EF_PLANE_CHR_FLAGS,
      EF_PLANE_FLAGS, EF_RESOURCES, EF_RETREAT_FLAGS, EF_SECTOR_NAVIGATION, EF_SECTOR_CHR_FLAGS, EF_SHIP_CHR_FLAGS]"

definition ef_elt_byname :: "names \<Rightarrow> table \<Rightarrow> string \<Rightarrow> int" where
  "ef_elt_byname nm t name =
     (if t = EF_BAD then M_NOTFOUND
      else if t = EF_NATION then cnumb nm name
      else if t = EF_SECTOR_CHR then sct_typematch nm name
      else if t \<in> set [EF_SHIP_CHR, EF_LAND_CHR, EF_PLANE_CHR, EF_NUKE_CHR, EF_ITEM, EF_PRODUCT, EF_TABLE] then stmtch name (nm_tab nm t)
      else if t \<in> set symbol_tables then stmtch name (nm_tab nm t)
      else M_NOTFOUND)"

section \<open>Compiling conditions\<close>

text \<open>An identifier, the first \<open>maxsz\<close> characters at \<open>base\<close>.\<close>

definition ident :: "'d valstr \<Rightarrow> string" where
  "ident v = (case val_as v of Str base maxsz \<Rightarrow> take maxsz base | _ \<Rightarrow> [])"

definition nstr_match_ca :: "'d valstr \<Rightarrow> castr list \<Rightarrow> int" where
  "nstr_match_ca v ca =
     (if val_cat v \<noteq> NSC_ID \<or> length (ident v) \<ge> 32 then M_NOTFOUND
      else stmtch (ident v) (map ca_name ca))"

definition nstr_is_name_of_ca :: "'d valstr \<Rightarrow> castr list \<Rightarrow> int \<Rightarrow> bool" where
  "nstr_is_name_of_ca v ca i \<longleftrightarrow> i \<ge> 0 \<and> length (ca_name (ca ! nat i)) = length (ident v)"

definition nstr_optype :: "nsc_type \<Rightarrow> nsc_type \<Rightarrow> nsc_type" where
  "nstr_optype l r =
     (let l = nstr_promote l; r = nstr_promote r
      in if l = r then l
         else if l = NSC_DOUBLE \<and> r = NSC_LONG then NSC_DOUBLE
         else if r = NSC_DOUBLE \<and> l = NSC_LONG then NSC_DOUBLE
         else NSC_NOTYPE)"

definition nstr_ca_comparable :: "castr list \<Rightarrow> int \<Rightarrow> int \<Rightarrow> bool" where
  "nstr_ca_comparable ca li ri \<longleftrightarrow>
     (if li < 0 \<or> ri < 0 then False
      else if ca_table (ca ! nat li) \<noteq> ca_table (ca ! nat ri) then False
      else nstr_optype (ca_type (ca ! nat li)) (ca_type (ca ! nat ri)) \<noteq> NSC_NOTYPE)"

definition nstr_match_val :: "names \<Rightarrow> 'd valstr \<Rightarrow> castr list \<Rightarrow> int \<Rightarrow> int" where
  "nstr_match_val nm v ca i =
     (if val_cat v \<noteq> NSC_ID \<or> i < 0 then M_NOTFOUND
      else let t = nstr_promote (ca_type (ca ! nat i))
           in if t = NSC_STRING then 0
              else if ca_table (ca ! nat i) = EF_BAD \<or> t \<noteq> NSC_LONG then M_NOTFOUND
              else if length (ident v) \<ge> 32 then M_NOTFOUND
              else ef_elt_byname nm (ca_table (ca ! nat i)) (ident v))"

text \<open>What is reported to the player when a condition does not compile.\<close>

datatype nstr_error = Condition_expected | Expected_operator | Missing_operator | Operand_expected | Not_comparable | Ambiguous_condition
  | Ambiguous_name string | Unknown_name string | Not_usable string | Not_accessible string | Expected_and | Too_many_conditions

definition nstr_resolve_id :: "bool \<Rightarrow> 'd valstr \<Rightarrow> castr list \<Rightarrow> int \<Rightarrow> nstr_error + 'd valstr" where
  "nstr_resolve_id god v ca i =
     (if val_cat v \<noteq> NSC_ID then Inr v
      else if i = M_NOTUNIQUE then Inl (Ambiguous_name (ident v))
      else if i = M_NOTFOUND then Inl (Unknown_name (ident v))
      else if CA_IS_ARRAY (ca ! nat i) then Inl (Not_usable (ident v))
      else if and (ca_flags (ca ! nat i)) NSC_DEITY \<noteq> 0 \<and> \<not> god then Inl (Not_accessible (ident v))
      else Inr (nstr_mksymval (ca ! nat i) 0))"

definition nstr_resolve_val :: "'d valstr \<Rightarrow> int \<Rightarrow> castr \<Rightarrow> 'd valstr" where
  "nstr_resolve_val v selval ca =
     (let t = nstr_promote (ca_type ca)
      in if val_cat v \<noteq> NSC_ID then v\<lparr>val_cat := NSC_NOCAT\<rparr>
         else if t = NSC_STRING then
           (case val_as v of
              Str base maxsz \<Rightarrow>
                \<lparr>val_type = NSC_STRING, val_cat = NSC_VAL, val_as = Str base (if maxsz = 1 \<and> base \<noteq> [] \<and> hd base = CHR ''~'' then 0 else maxsz)\<rparr>
            | _ \<Rightarrow> v)
         else if t \<noteq> NSC_LONG \<or> ca_table ca = EF_BAD then v\<lparr>val_type := NSC_NOTYPE, val_cat := NSC_NOCAT\<rparr>
         else \<lparr>val_type = t, val_cat = NSC_VAL, val_as = Lng selval\<rparr>)"

text \<open>The \<open>switch\<close>: how two identifiers are taken, as a value and a selector or as two selectors.\<close>

definition nstr_disambiguate :: "names \<Rightarrow> castr list \<Rightarrow> 'd valstr \<Rightarrow> 'd valstr \<Rightarrow> nstr_error + (int \<times> int)" where
  "nstr_disambiguate nm ca l r =
     (let li = nstr_match_ca l ca; ri = nstr_match_ca r ca;
          lv = nstr_match_val nm l ca ri; rv = nstr_match_val nm r ca li;
          two = nstr_ca_comparable ca li ri;
          interpretations = (\<lambda>lv rv two. (if lv \<ge> 0 then 1 else 0) + (if rv \<ge> 0 then 1 else 0) + (if two then 1 else 0 :: nat))
      in if interpretations lv rv two = 0 then if li \<ge> 0 \<and> ri \<ge> 0 then Inl Not_comparable else Inr (lv, rv)
         else if interpretations lv rv two = 1 then Inr (lv, rv)
         else let ln = nstr_is_name_of_ca l ca li; rn = nstr_is_name_of_ca r ca ri;
                  lv = (if ln then - 1 else lv); rv = (if rn then - 1 else rv); two = (two \<and> ln \<and> rn)
              in if interpretations lv rv two = 1 then Inr (lv, rv) else Inl Ambiguous_condition)"

definition nstr_resolve :: "names \<Rightarrow> bool \<Rightarrow> castr list \<Rightarrow> 'd valstr \<Rightarrow> 'd valstr \<Rightarrow> nstr_error + ('d valstr \<times> 'd valstr)" where
  "nstr_resolve nm god ca l r =
     (let li = nstr_match_ca l ca; ri = nstr_match_ca r ca
      in case (if val_cat l = NSC_ID \<and> val_cat r = NSC_ID then nstr_disambiguate nm ca l r else Inr (- 1, - 1)) of
           Inl e \<Rightarrow> Inl e
         | Inr (lv, rv) \<Rightarrow>
             let l = (if lv \<ge> 0 then nstr_resolve_val l lv (ca ! nat ri) else l);
                 r = (if rv \<ge> 0 then nstr_resolve_val r rv (ca ! nat li) else r)
             in case nstr_resolve_id god l ca li of
                  Inl e \<Rightarrow> Inl e
                | Inr l \<Rightarrow>
                    (case nstr_resolve_id god r ca ri of
                       Inl e \<Rightarrow> Inl e
                     | Inr r \<Rightarrow> Inr (l, r)))"

text \<open>One round of the loop: a condition, and what follows it.\<close>

definition nstr_comp1 :: "names \<Rightarrow> bool \<Rightarrow> (string \<Rightarrow> 'd \<times> nat) \<Rightarrow> castr list \<Rightarrow> string \<Rightarrow> nstr_error + ('d nscstr \<times> string)" where
  "nstr_comp1 nm god strtod ca cond =
     (if cond = [] then Inl Condition_expected
      else case nstr_parse_val strtod cond of (l, tail) \<Rightarrow>
        if tail = [] then Inl Missing_operator
        else if hd tail \<notin> {CHR ''<'', CHR ''='', CHR ''>'', CHR ''#''} then Inl Expected_operator
        else if tl tail = [] then Inl Operand_expected
        else case nstr_parse_val strtod (tl tail) of (r, rest) \<Rightarrow>
          (case nstr_resolve nm god ca l r of
             Inl e \<Rightarrow> Inl e
           | Inr (l, r) \<Rightarrow>
               let t = nstr_optype (val_type l) (val_type r)
               in if t = NSC_NOTYPE then Inl Not_comparable
                  else Inr (\<lparr>operator = hd tail, optype = t, lft = l, rgt = r\<rparr>, rest)))"

lemma drop_Suc_length: "s \<noteq> [] \<Longrightarrow> length (drop (Suc n) s) < length s"
  by (cases s) auto

lemma parse_val_shorter:
  "nstr_parse_val strtod s = (v, t) \<Longrightarrow> length t \<le> length s" "nstr_parse_val strtod s = (v, t) \<Longrightarrow> s \<noteq> [] \<Longrightarrow> length t < length s"
proof -
  assume p: "nstr_parse_val strtod s = (v, t)"
  then obtain n where t: "t = drop (if s = [] then 0 else Suc n) s"
  proof (cases "s \<noteq> [] \<and> hd s = CHR 0x27")
    case True
    then have "t = drop (Suc (Suc (length (takeWhile (\<lambda>c. c \<noteq> CHR 0x27) (tl s))))) s"
      using p by (cases s) (auto simp: nstr_parse_val_def Let_def)
    then show ?thesis using that True by auto
  next
    case nq: False
    show ?thesis
    proof (cases "s \<noteq> [] \<and> isalpha (hd s)")
      case True
      then have "t = drop (Suc (length (takeWhile (\<lambda>c. isalnum c \<or> c = CHR ''_'') (tl s)))) s"
        using p nq by (cases s) (auto simp: nstr_parse_val_def Let_def)
      then show ?thesis using that True by auto
    next
      case False
      obtain n where "t = drop (Suc n) s"
      proof (cases "snd (strtod s) > snd (strtol0 s)")
        case True
        then have "t = drop (snd (strtod s)) s" "snd (strtod s) \<noteq> 0"
          using p nq False by (auto simp: nstr_parse_val_def split: prod.splits)
        then show ?thesis using that by (metis not0_implies_Suc)
      next
        case g: False
        show ?thesis
        proof (cases "snd (strtol0 s) = 0")
          case True
          then have "t = drop (Suc 0) s" using p nq False g by (auto simp: nstr_parse_val_def split: prod.splits)
          then show ?thesis using that by blast
        next
          case z: False
          then have "t = drop (snd (strtol0 s)) s" using p nq False g by (auto simp: nstr_parse_val_def split: prod.splits)
          then show ?thesis using that z by (metis not0_implies_Suc)
        qed
      qed
      then show ?thesis using that [of n] by (cases s) auto
    qed
  qed
  then show "length t \<le> length s" by simp
  assume "s \<noteq> []"
  then show "length t < length s" using t drop_Suc_length [of s n] by simp
qed

lemma comp1_shorter: "nstr_comp1 nm god strtod ca cond = Inr (c, rest) \<Longrightarrow> length rest < length cond"
proof -
  assume a: "nstr_comp1 nm god strtod ca cond = Inr (c, rest)"
  obtain l tail where l: "nstr_parse_val strtod cond = (l, tail)" by (cases "nstr_parse_val strtod cond")
  obtain r t where r: "nstr_parse_val strtod (tl tail) = (r, t)" by (cases "nstr_parse_val strtod (tl tail)")
  have "rest = t" "cond \<noteq> []" using a l r by (auto simp: nstr_comp1_def Let_def split: if_splits sum.splits prod.splits)
  moreover have "length t \<le> length (tl tail)" "length tail \<le> length cond" "tail \<noteq> []"
    using parse_val_shorter(1) [OF l] parse_val_shorter(1) [OF r] a l by (auto simp: nstr_comp1_def split: if_splits)
  ultimately show ?thesis by (cases tail) auto
qed

text \<open>The conditions from \<open>cond\<close> on.\<close>

function nstr_comp_loop :: "names \<Rightarrow> bool \<Rightarrow> (string \<Rightarrow> 'd \<times> nat) \<Rightarrow> castr list \<Rightarrow> string \<Rightarrow> nstr_error + 'd nscstr list" where
  "nstr_comp_loop nm god strtod ca cond =
     (case nstr_comp1 nm god strtod ca cond of
        Inl e \<Rightarrow> Inl e
      | Inr (c, rest) \<Rightarrow>
          if rest = [] then Inr [c]
          else if hd rest \<noteq> CHR ''&'' then Inl Expected_and
          else case nstr_comp_loop nm god strtod ca (tl rest) of
                 Inl e \<Rightarrow> Inl e
               | Inr cs \<Rightarrow> Inr (c # cs))"
  by pat_completeness auto
termination
  by (relation "measure (\<lambda>(nm, god, strtod, ca, cond). length cond)") (auto dest!: comp1_shorter)

declare nstr_comp_loop.simps [simp del]

text \<open>\<open>n\<close> is the length of the array the conditions go to; \<open>god\<close> says whether the player is a deity.\<close>

definition nstr_comp :: "names \<Rightarrow> bool \<Rightarrow> (string \<Rightarrow> 'd \<times> nat) \<Rightarrow> nat \<Rightarrow> castr list \<Rightarrow> string \<Rightarrow> nstr_error + 'd nscstr list" where
  "nstr_comp nm god strtod n ca str =
     (case nstr_comp_loop nm god strtod ca str of
        Inl e \<Rightarrow> Inl e
      | Inr cs \<Rightarrow> if length cs > n then Inl Too_many_conditions else Inr cs)"

definition nstr_comp_val :: "bool \<Rightarrow> (string \<Rightarrow> 'd \<times> nat) \<Rightarrow> castr list \<Rightarrow> string \<Rightarrow> nstr_error + ('d valstr \<times> string)" where
  "nstr_comp_val god strtod ca str =
     (case nstr_parse_val strtod str of (v, tail) \<Rightarrow>
        (case nstr_resolve_id god v ca (nstr_match_ca v ca) of
           Inl e \<Rightarrow> Inl e
         | Inr v \<Rightarrow> Inr (v, tail)))"

section \<open>Evaluating values\<close>

text \<open>
  Reading a member of a given C type from a context object; the numbers the virtual selectors compute elsewhere; the
  land unit type of a land unit and the configuration variables; the country number of a relations object; arithmetic; and the
  world, nations and options.
\<close>

record ('o, 'd) objects =
  ob_int :: "nsc_type \<Rightarrow> 'o \<Rightarrow> offset \<Rightarrow> int \<Rightarrow> int"
  ob_dbl :: "nsc_type \<Rightarrow> 'o \<Rightarrow> offset \<Rightarrow> int \<Rightarrow> 'd"
  ob_chars :: "'o \<Rightarrow> offset \<Rightarrow> string"
  ob_ptr :: "'o \<Rightarrow> offset \<Rightarrow> int \<Rightarrow> string"
  ob_lng :: "getter \<Rightarrow> 'o \<Rightarrow> int"
  ob_att :: "getter \<Rightarrow> 'o \<Rightarrow> 'd"
  ob_lchr :: "'o \<Rightarrow> 'o"
  ob_key :: "nat \<Rightarrow> 'o"
  ob_rel :: "'o \<Rightarrow> int option"
  d_of_long :: "int \<Rightarrow> 'd"
  d_less :: "'d \<Rightarrow> 'd \<Rightarrow> bool"
  d_eq :: "'d \<Rightarrow> 'd \<Rightarrow> bool"
  en_version :: string
  en_maxnoc :: int
  en_world :: world
  en_orig :: "int \<Rightarrow> natorg"
  en_god :: "int \<Rightarrow> bool"
  en_contact :: "int \<Rightarrow> int \<Rightarrow> bool"
  opt_HIDDEN :: bool

definition NATID_BAD_int :: int where "NATID_BAD_int = 255"

definition INT_MAX :: nat where "INT_MAX = 2147483647"

text \<open>
  Calling \<open>get\<close> of a virtual selector: the context object it returns, if any, and what it stores. There is no nation for
  \<open>NATID_BAD\<close>.
\<close>

definition call_get :: "('o, 'd) objects \<Rightarrow> getter \<Rightarrow> sym \<Rightarrow> int \<Rightarrow> 'o \<Rightarrow> ('o option \<times> 'd val_as) option" where
  "call_get env g s cnum ptr =
     (case g of
        nsc_ver \<Rightarrow> (case off s of Key k \<Rightarrow> Some (Some (ob_key env k), Sym (s\<lparr>off := Zero, get := None\<rparr>)) | _ \<Rightarrow> None)
      | nsc_ver_maxnoc \<Rightarrow> Some (None, Lng (en_maxnoc env))
      | nsc_ver_version \<Rightarrow> Some (None, Str (en_version env @ [CHR 0x00]) INT_MAX)
      | nsc_sct_terr \<Rightarrow>
          Some (Some ptr, Sym (s\<lparr>off := Member (if cnum = NATID_BAD_int \<or> en_god env cnum then ''sct_dterr'' else ''sct_terr''), get := None\<rparr>))
      | nsc_lchr \<Rightarrow> Some (Some (ob_lchr env ptr), Sym (s\<lparr>get := None\<rparr>))
      | nsc_lnd_att \<Rightarrow> Some (None, Dbl (ob_att env g ptr))
      | nsc_lnd_def \<Rightarrow> Some (None, Dbl (ob_att env g ptr))
      | nsc_nws_timestamp \<Rightarrow>
          Some (None, Lng (ob_int env NSC_TIME ptr (Member ''nws_when'') 0 + ob_int env NSC_SHORT ptr (Member ''nws_duration'') 0))
      | _ \<Rightarrow> Some (None, Lng (ob_lng env g ptr)))"

text \<open>The \<open>do\<close> loop: the last object and what is stored, once there is no object or nothing more to call.\<close>

partial_function (option) get_loop :: "('o, 'd) objects \<Rightarrow> getter \<Rightarrow> sym \<Rightarrow> int \<Rightarrow> 'o \<Rightarrow> ('o option \<times> 'd val_as) option" where
  "get_loop env g s cnum ptr =
     (case call_get env g s cnum ptr of
        None \<Rightarrow> None
      | Some (None, a) \<Rightarrow> Some (None, a)
      | Some (Some ptr, Sym s) \<Rightarrow> (case get s of None \<Rightarrow> Some (Some ptr, Sym s) | Some g \<Rightarrow> get_loop env g s cnum ptr)
      | Some (Some ptr, a) \<Rightarrow> None)"

declare get_loop.simps [code]

text \<open>Coordinates are shown relative to the country's origin.\<close>

definition rel_coord :: "('o, 'd) objects \<Rightarrow> int \<Rightarrow> nsc_type \<Rightarrow> int \<Rightarrow> int" where
  "rel_coord env cnum t c =
     (if t = NSC_XCOORD then
        if cnum = NATID_BAD_int then if c \<ge> world_x (en_world env) sdiv 2 then c - world_x (en_world env) else c
        else xrel (en_world env) (en_orig env cnum) c
      else
        if cnum = NATID_BAD_int then if c \<ge> world_y (en_world env) sdiv 2 then c - world_y (en_world env) else c
        else yrel (en_world env) (en_orig env cnum) c)"

text \<open>The member at \<open>s\<close> of type \<open>t\<close>: its promoted type and value.\<close>

definition nstr_read :: "('o, 'd) objects \<Rightarrow> int \<Rightarrow> 'o \<Rightarrow> nsc_type \<Rightarrow> sym \<Rightarrow> (nsc_type \<times> 'd val_as) option" where
  "nstr_read env cnum ptr t s =
     (case t of
        NSC_NOTYPE \<Rightarrow> None
      | NSC_XCOORD \<Rightarrow> Some (NSC_LONG, Lng (rel_coord env cnum t (ob_int env t ptr (off s) (idx s))))
      | NSC_YCOORD \<Rightarrow> Some (NSC_LONG, Lng (rel_coord env cnum t (ob_int env t ptr (off s) (idx s))))
      | NSC_FLOAT \<Rightarrow> Some (NSC_DOUBLE, Dbl (ob_dbl env t ptr (off s) (idx s)))
      | NSC_DOUBLE \<Rightarrow> Some (NSC_DOUBLE, Dbl (ob_dbl env t ptr (off s) (idx s)))
      | NSC_STRINGY \<Rightarrow> if idx s \<noteq> 0 then None else Some (NSC_STRING, Str (ob_chars env ptr (off s)) (len s))
      | NSC_STRING \<Rightarrow> Some (NSC_STRING, Str (ob_ptr env ptr (off s) (idx s)) INT_MAX)
      | _ \<Rightarrow> Some (NSC_LONG, Lng (ob_int env t ptr (off s) (idx s))))"

definition nstr_hide :: "('o, 'd) objects \<Rightarrow> int \<Rightarrow> 'o \<Rightarrow> sym \<Rightarrow> nsc_type \<times> 'd val_as \<Rightarrow> (nsc_type \<times> 'd val_as) option" where
  "nstr_hide env cnum ptr s v =
     (if \<not> hidden s then Some v
      else if fst v \<noteq> NSC_LONG then None
      else case ob_rel env ptr of
             None \<Rightarrow> None
           | Some them \<Rightarrow>
               if \<not> opt_HIDDEN env \<or> cnum = NATID_BAD_int \<or> en_god env cnum then Some v
               else if \<not> en_contact env cnum (idx s) \<or> \<not> en_contact env them (idx s) then Some (fst v, Lng (- 1))
               else Some v)"

definition nstr_coerce :: "('o, 'd) objects \<Rightarrow> nsc_type \<Rightarrow> nsc_type \<times> 'd val_as \<Rightarrow> 'd valstr option" where
  "nstr_coerce env want v =
     (case v of (t, a) \<Rightarrow>
        if t = want \<or> want = NSC_NOTYPE then Some \<lparr>val_type = t, val_cat = NSC_VAL, val_as = a\<rparr>
        else if want = NSC_DOUBLE \<and> t = NSC_LONG then
          (case a of Lng n \<Rightarrow> Some \<lparr>val_type = want, val_cat = NSC_VAL, val_as = Dbl (d_of_long env n)\<rparr> | _ \<Rightarrow> None)
        else None)"

definition nstr_eval :: "('o, 'd) objects \<Rightarrow> 'd valstr \<Rightarrow> int \<Rightarrow> 'o \<Rightarrow> nsc_type \<Rightarrow> 'd valstr option" where
  "nstr_eval env v cnum ptr want =
     (if want \<noteq> NSC_NOTYPE \<and> \<not> NSC_IS_PROMOTED want then None
      else case val_cat v of
        NSC_VAL \<Rightarrow> if NSC_IS_PROMOTED (val_type v) then nstr_coerce env want (val_type v, val_as v) else None
      | NSC_OFF \<Rightarrow>
          (case val_as v of
             Sym s \<Rightarrow>
               (case (case get s of None \<Rightarrow> Some (Some ptr, Sym s) | Some g \<Rightarrow> get_loop env g s cnum ptr) of
                  None \<Rightarrow> None
                | Some (None, a) \<Rightarrow> nstr_coerce env want (val_type v, a)
                | Some (Some ptr, Sym s) \<Rightarrow>
                    Option.bind (Option.bind (nstr_read env cnum ptr (val_type v) s) (nstr_hide env cnum ptr s)) (nstr_coerce env want)
                | Some (Some ptr, a) \<Rightarrow> None)
           | _ \<Rightarrow> None)
      | _ \<Rightarrow> None)"

section \<open>Executing conditions\<close>

fun strncmp :: "nat \<Rightarrow> string \<Rightarrow> string \<Rightarrow> int option" where
  "strncmp n [] bs = (if n = 0 then Some 0 else None)"
| "strncmp n (a # as) bs =
     (if n = 0 then Some 0
      else case bs of
             [] \<Rightarrow> None
           | b # bs \<Rightarrow>
               if a \<noteq> b then Some (int (of_char a) - int (of_char b))
               else if a = CHR 0x00 then Some 0 else strncmp (n - 1) as bs)"

text \<open>A \<open>char\<close> is signed.\<close>

definition char_value :: "char \<Rightarrow> int" where
  "char_value c = (if (of_char c :: nat) < 128 then int (of_char c) else int (of_char c) - 256)"

definition strnncmp_ge :: "string \<Rightarrow> nat \<Rightarrow> string \<Rightarrow> nat \<Rightarrow> int option" where
  "strnncmp_ge s1 sz1 s2 sz2 =
     (if sz1 = sz2 then strncmp sz2 s1 s2
      else case strncmp sz2 s1 s2 of
             None \<Rightarrow> None
           | Some res \<Rightarrow> if res \<noteq> 0 then Some res else if sz2 < length s1 then Some (char_value (s1 ! sz2)) else None)"

definition strnncmp :: "string \<Rightarrow> nat \<Rightarrow> string \<Rightarrow> nat \<Rightarrow> int option" where
  "strnncmp s1 sz1 s2 sz2 =
     (if sz1 < sz2 then map_option uminus (strnncmp_ge s2 sz2 s1 sz1) else strnncmp_ge s1 sz1 s2 sz2)"

definition eval_op :: "char \<Rightarrow> bool \<Rightarrow> bool \<Rightarrow> bool \<Rightarrow> bool option" where
  "eval_op opr lt eq gt =
     (if opr = CHR ''<'' then Some lt
      else if opr = CHR ''='' then Some eq
      else if opr = CHR ''>'' then Some gt
      else if opr = CHR ''#'' then Some (\<not> eq)
      else None)"

definition nstr_compare :: "('o, 'd) objects \<Rightarrow> char \<Rightarrow> 'd val_as \<Rightarrow> 'd val_as \<Rightarrow> nsc_type \<Rightarrow> bool option" where
  "nstr_compare env opr l r t =
     (case (t, l, r) of
        (NSC_LONG, Lng a, Lng b) \<Rightarrow> eval_op opr (a < b) (a = b) (a > b)
      | (NSC_DOUBLE, Dbl a, Dbl b) \<Rightarrow> eval_op opr (d_less env a b) (d_eq env a b) (d_less env b a)
      | (NSC_STRING, Str a m, Str b n) \<Rightarrow> Option.bind (strnncmp a m b n) (\<lambda>cmp. eval_op opr (cmp < 0) (cmp = 0) (cmp > 0))
      | _ \<Rightarrow> None)"

fun nstr_exec :: "('o, 'd) objects \<Rightarrow> int \<Rightarrow> 'd nscstr list \<Rightarrow> 'o \<Rightarrow> bool option" where
  "nstr_exec env cnum [] ptr = Some True"
| "nstr_exec env cnum (c # cs) ptr =
     (if val_cat (lft c) = NSC_NOCAT \<or> val_cat (rgt c) = NSC_NOCAT then Some False
      else Option.bind (nstr_eval env (lft c) cnum ptr (optype c)) (\<lambda>l.
           Option.bind (nstr_eval env (rgt c) cnum ptr (optype c)) (\<lambda>r.
             if val_type l \<noteq> optype c \<or> val_type r \<noteq> optype c then None
             else Option.bind (nstr_compare env (operator c) (val_as l) (val_as r) (optype c)) (\<lambda>b.
                  if b then nstr_exec env cnum cs ptr else Some False))))"

section \<open>Compiled conditions are well typed\<close>

text \<open>The type of the value a virtual selector stores; none when it names another object or member instead.\<close>

definition getter_type :: "getter \<Rightarrow> nsc_type option" where
  "getter_type g =
     (if g \<in> {nsc_ver, nsc_sct_terr, nsc_lchr} then None
      else if g \<in> {nsc_lnd_att, nsc_lnd_def} then Some NSC_DOUBLE
      else if g = nsc_ver_version then Some NSC_STRING
      else Some NSC_LONG)"

definition ca_ok :: "castr \<Rightarrow> bool" where
  "ca_ok ca \<longleftrightarrow> ca_type ca \<noteq> NSC_NOTYPE \<and> (and (ca_flags ca) NSC_HIDDEN \<noteq> 0 \<longrightarrow> CA_IS_ARRAY ca) \<and>
     (ca_get ca \<noteq> None \<longrightarrow> ca_type ca \<noteq> NSC_STRINGY) \<and>
     (case ca_get ca of
        None \<Rightarrow> True
      | Some g \<Rightarrow> (case getter_type g of
                    Some t \<Rightarrow> ca_type ca = t
                  | None \<Rightarrow> g = nsc_ver \<longrightarrow> (case ca_off ca of Key k \<Rightarrow> True | _ \<Rightarrow> False)))"

definition value_ok :: "nsc_type \<Rightarrow> 'd val_as \<Rightarrow> bool" where
  "value_ok t a \<longleftrightarrow> t = NSC_LONG \<and> (\<exists>n. a = Lng n) \<or> t = NSC_DOUBLE \<and> (\<exists>d. a = Dbl d) \<or> t = NSC_STRING \<and> (\<exists>s m. a = Str s m)"

definition operand_ok :: "castr list \<Rightarrow> 'd valstr \<Rightarrow> bool" where
  "operand_ok cas v \<longleftrightarrow> val_cat v = NSC_VAL \<and> value_ok (val_type v) (val_as v) \<or>
     (\<exists>ca \<in> set cas. \<not> CA_IS_ARRAY ca \<and> v = nstr_mksymval ca 0)"

text \<open>The C string of at most \<open>n\<close> characters, and when it can be read.\<close>

definition cstring :: "string \<Rightarrow> nat \<Rightarrow> string" where
  "cstring s n = takeWhile (\<lambda>c. c \<noteq> CHR 0x00) (take n s)"

definition readable :: "string \<Rightarrow> nat \<Rightarrow> bool" where
  "readable s n \<longleftrightarrow> n \<le> length s \<or> CHR 0x00 \<in> set s"

text \<open>The strings of context objects can be read: pointers point to C strings, and arrays have their length.\<close>

definition strings_ok :: "('o, 'd) objects \<Rightarrow> castr list \<Rightarrow> bool" where
  "strings_ok env cas \<longleftrightarrow> (\<forall>ptr off i. CHR 0x00 \<in> set (ob_ptr env ptr off i)) \<and>
     (\<forall>ca \<in> set cas. ca_type ca = NSC_STRINGY \<longrightarrow> (\<forall>ptr. ca_len ca \<le> length (ob_chars env ptr (ca_off ca))))"

definition value_readable :: "'d val_as \<Rightarrow> bool" where
  "value_readable a \<longleftrightarrow> (\<forall>s n. a = Str s n \<longrightarrow> readable s n)"

lemma value_ok_promoted: "value_ok t a \<Longrightarrow> NSC_IS_PROMOTED t \<and> nstr_promote t = t"
  by (auto simp: value_ok_def NSC_IS_PROMOTED_def)

lemma promote_promoted: "t \<noteq> NSC_NOTYPE \<Longrightarrow> NSC_IS_PROMOTED (nstr_promote t)"
  by (cases t) (simp_all add: NSC_IS_PROMOTED_def)

lemma coerce_ok:
  assumes "value_ok t a" "value_readable a" and "want = t \<or> want = NSC_DOUBLE \<and> t = NSC_LONG"
  shows "\<exists>b. nstr_coerce env want (t, a) = Some \<lparr>val_type = want, val_cat = NSC_VAL, val_as = b\<rparr> \<and>
    value_ok want b \<and> value_readable b"
  using assms by (auto simp: nstr_coerce_def value_ok_def value_readable_def)

lemma read_ok:
  assumes "t \<noteq> NSC_NOTYPE" and "idx s = 0"
  shows "\<exists>a. nstr_read env cnum ptr t s = Some (nstr_promote t, a) \<and> value_ok (nstr_promote t) a"
  using assms by (cases t) (simp_all add: nstr_read_def value_ok_def)

lemma symval_ok:
  fixes env :: "('o, 'd) objects"
  assumes ca: "ca_ok ca" "\<not> CA_IS_ARRAY ca" and str: "strings_ok env [ca]"
  shows "\<exists>a t. value_ok t a \<and> value_readable a \<and> t = nstr_promote (ca_type ca) \<and>
    (\<forall>want. NSC_IS_PROMOTED want \<longrightarrow> nstr_eval env (nstr_mksymval ca 0) cnum ptr want = nstr_coerce env want (t, a))"
proof -
  let ?s = "\<lparr>off = ca_off ca, len = ca_len ca, idx = 0, get = ca_get ca, hidden = False\<rparr>"
  have t: "ca_type ca \<noteq> NSC_NOTYPE" and h: "\<not> and (ca_flags ca) NSC_HIDDEN \<noteq> 0" using ca by (auto simp: ca_ok_def)
  have v: "(nstr_mksymval ca 0 :: 'd valstr) = \<lparr>val_type = ca_type ca, val_cat = NSC_OFF, val_as = Sym ?s\<rparr>"
    using h by (simp add: nstr_mksymval_def)
  have rd: ?thesis
    if g: "(case ca_get ca of None \<Rightarrow> Some (Some ptr, Sym ?s) | Some g \<Rightarrow> get_loop env g ?s cnum ptr) = Some (Some ptr', Sym s')"
      "idx s' = 0" "\<not> hidden s'" "ca_type ca = NSC_STRINGY \<longrightarrow> s' = ?s" for ptr' s'
  proof -
    obtain a where a: "nstr_read env cnum ptr' (ca_type ca) s' = Some (nstr_promote (ca_type ca), a)" "value_ok (nstr_promote (ca_type ca)) a"
      using read_ok [OF t g(2), of env cnum ptr'] by blast
    have "value_readable a" using a(1) g(4) str
      by (cases "ca_type ca") (auto simp: nstr_read_def value_readable_def readable_def strings_ok_def)
    show ?thesis
      by (intro exI [of _ a] exI [of _ "nstr_promote (ca_type ca)"]) (use a g \<open>value_readable a\<close> in \<open>auto simp: nstr_eval_def v nstr_hide_def NSC_IS_PROMOTED_def\<close>)
  qed
  show ?thesis
  proof (cases "ca_get ca")
    case None
    then show ?thesis using rd [of ptr ?s] by simp
  next
    case (Some g)
    show ?thesis
    proof (cases "getter_type g")
      case None
      then have k: "g \<in> {nsc_ver, nsc_sct_terr, nsc_lchr}" by (auto simp: getter_type_def split: if_splits)
      have "g = nsc_ver \<Longrightarrow> \<exists>k. ca_off ca = Key k" using ca(1) Some None by (auto simp: ca_ok_def split: offset.splits)
      then have "\<exists>ptr' s'. get_loop env g ?s cnum ptr = Some (Some ptr', Sym s') \<and> idx s' = 0 \<and> \<not> hidden s'"
        using k by (subst get_loop.simps) (auto simp: call_get_def)
      moreover have "ca_type ca \<noteq> NSC_STRINGY" using ca(1) Some by (simp add: ca_ok_def)
      ultimately show ?thesis using rd Some by auto
    next
      case t': (Some t')
      then have ct: "ca_type ca = t'" using ca(1) Some by (simp add: ca_ok_def)
      have "\<exists>a. get_loop env g ?s cnum ptr = Some (None, a) \<and> value_ok t' a \<and> value_readable a"
        using t' by (subst get_loop.simps)
          (cases g; auto simp: call_get_def getter_type_def value_ok_def value_readable_def readable_def split: if_splits)
      then obtain a where a: "get_loop env g ?s cnum ptr = Some (None, a)" "value_ok t' a" "value_readable a" by blast
      show ?thesis
        by (intro exI [of _ a] exI [of _ t']) (use a ct Some value_ok_promoted [OF a(2)] in \<open>auto simp: nstr_eval_def v NSC_IS_PROMOTED_def\<close>)
    qed
  qed
qed

text \<open>What an operand of a compiled condition is, for a deity or a mortal, and what its text is when it is a string.\<close>

definition operand_from :: "bool \<Rightarrow> castr list \<Rightarrow> 'd valstr \<Rightarrow> bool" where
  "operand_from god cas v \<longleftrightarrow> val_cat v = NSC_VAL \<and> value_ok (val_type v) (val_as v) \<or>
     (\<exists>ca \<in> set cas. \<not> CA_IS_ARRAY ca \<and> (and (ca_flags ca) NSC_DEITY = 0 \<or> god) \<and> v = nstr_mksymval ca 0)"

definition text_ok :: "'d valstr \<Rightarrow> bool" where
  "text_ok v \<longleftrightarrow>
     (\<forall>base n. val_cat v \<noteq> NSC_OFF \<and> val_as v = Str base n \<longrightarrow> n < length base \<and> CHR 0x00 \<notin> set (take n base))"

definition cond_ok :: "bool \<Rightarrow> castr list \<Rightarrow> 'd nscstr \<Rightarrow> bool" where
  "cond_ok god cas c \<longleftrightarrow> operand_from god cas (lft c) \<and> operand_from god cas (rgt c) \<and> text_ok (lft c) \<and> text_ok (rgt c) \<and>
     optype c = nstr_optype (val_type (lft c)) (val_type (rgt c)) \<and> optype c \<noteq> NSC_NOTYPE \<and>
     operator c \<in> {CHR ''<'', CHR ''='', CHR ''>'', CHR ''#''}"

lemma stmtch_loop_bound: "res < i \<Longrightarrow> 0 \<le> i \<Longrightarrow> stmtch_loop needle names i res < i + int (length names)"
proof (induction needle names i res rule: stmtch_loop.induct)
  case (2 needle name names i res)
  have m: "M_NOTUNIQUE < i + 1" using 2(5) by (simp add: M_NOTUNIQUE_def)
  show ?case
  proof (cases "name = []")
    case True
    then show ?thesis using 2(1) 2(4,5) by simp
  next
    case False
    then show ?thesis using 2(2-5) m by (cases "mineq needle name") auto
  qed
qed simp

lemma match_ca_bound: "nstr_match_ca v ca < int (length ca)"
  using stmtch_loop_bound [of M_NOTFOUND 0 "ident v" "map ca_name ca"]
  by (simp add: nstr_match_ca_def stmtch_def M_NOTFOUND_def)

definition parsed_ok :: "'d valstr \<Rightarrow> bool" where
  "parsed_ok v \<longleftrightarrow> (val_cat v = NSC_VAL \<and> value_ok (val_type v) (val_as v) \<or> val_cat v = NSC_ID \<and> (\<exists>base n. val_as v = Str base n)) \<and>
     text_ok v"

lemma takeWhile_split: "takeWhile P xs @ drop (length (takeWhile P xs)) xs = xs"
  by (metis append_take_drop_id takeWhile_eq_take)

lemma text_okI: "s = s1 @ s2 \<Longrightarrow> n = length s1 \<Longrightarrow> CHR 0x00 \<notin> set s \<Longrightarrow> val_as v = Str (s @ [CHR 0x00]) n \<Longrightarrow> text_ok v"
  by (auto simp: text_ok_def)

lemma parse_val_ok:
  assumes p: "nstr_parse_val strtod s = (v, t)" and z: "CHR 0x00 \<notin> set s" and ne: "s \<noteq> []"
  shows "parsed_ok v" "CHR 0x00 \<notin> set t"
proof -
  obtain c cs where s: "s = c # cs" using ne by (cases s) auto
  have ex: "\<exists>n. t = drop n s" using p unfolding nstr_parse_val_def Let_def
    by (auto split: if_splits prod.splits simp: drop_Suc [symmetric] tl_drop drop_drop)
  then show "CHR 0x00 \<notin> set t" using z set_drop_subset by fastforce
  show "parsed_ok v"
  proof (cases "c = CHR 0x27")
    case True
    let ?w = "takeWhile (\<lambda>c. c \<noteq> CHR 0x27) cs"
    have v: "v = \<lparr>val_type = NSC_STRING, val_cat = NSC_VAL, val_as = Str (cs @ [CHR 0x00]) (length ?w)\<rparr>"
      using p True s by (simp add: nstr_parse_val_def Let_def)
    have "text_ok v" by (rule text_okI [of cs ?w "drop (length ?w) cs"]) (use z s v in \<open>simp_all add: takeWhile_split\<close>)
    then show ?thesis using v by (simp add: parsed_ok_def value_ok_def)
  next
    case nq: False
    show ?thesis
    proof (cases "isalpha c")
      case True
      let ?w = "takeWhile (\<lambda>c. isalnum c \<or> c = CHR ''_'') cs"
      have v: "v = \<lparr>val_type = NSC_NOTYPE, val_cat = NSC_ID, val_as = Str (s @ [CHR 0x00]) (Suc (length ?w))\<rparr>"
        using p True nq s by (simp add: nstr_parse_val_def Let_def)
      have "text_ok v" by (rule text_okI [of s "c # ?w" "drop (length ?w) cs"]) (use z s v in \<open>simp_all add: takeWhile_split\<close>)
      then show ?thesis using v by (simp add: parsed_ok_def)
    next
      case False
      consider d where "v = \<lparr>val_type = NSC_DOUBLE, val_cat = NSC_VAL, val_as = Dbl d\<rparr>"
        | l where "v = \<lparr>val_type = NSC_LONG, val_cat = NSC_VAL, val_as = Lng l\<rparr>"
        | "v = \<lparr>val_type = NSC_NOTYPE, val_cat = NSC_ID, val_as = Str (s @ [CHR 0x00]) 1\<rparr>"
        using p nq False s by (auto simp: nstr_parse_val_def split: prod.splits if_splits)
      then show ?thesis
      proof cases
        case 3
        have "text_ok v" by (rule text_okI [of s "[c]" cs]) (use z s 3 in simp_all)
        then show ?thesis using 3 by (simp add: parsed_ok_def)
      qed (simp_all add: parsed_ok_def value_ok_def text_ok_def)
    qed
  qed
qed

lemma disambiguate_vals:
  assumes "nstr_disambiguate nm ca l r = Inr (lv, rv)"
  shows "lv \<ge> 0 \<Longrightarrow> lv = nstr_match_val nm l ca (nstr_match_ca r ca)" "rv \<ge> 0 \<Longrightarrow> rv = nstr_match_val nm r ca (nstr_match_ca l ca)"
  using assms by (auto simp: nstr_disambiguate_def Let_def split: if_splits)

lemma resolve_val_ok:
  assumes v: "parsed_ok v" and m: "nstr_match_val nm v ca i \<ge> 0" "k = nstr_match_val nm v ca i"
  shows "val_cat (nstr_resolve_val v k (ca ! nat i)) = NSC_VAL \<and> parsed_ok (nstr_resolve_val v k (ca ! nat i))"
proof -
  have c: "val_cat v = NSC_ID" using m(1) by (auto simp: nstr_match_val_def M_NOTFOUND_def split: if_splits)
  then obtain base n where b: "val_as v = Str base n" "text_ok v" using v by (auto simp: parsed_ok_def)
  then have bn: "n < length base" "CHR 0x00 \<notin> set (take n base)" using c unfolding text_ok_def by auto
  show ?thesis
  proof (cases "nstr_promote (ca_type (ca ! nat i)) = NSC_STRING")
    case True
    then show ?thesis using b bn c by (auto simp: nstr_resolve_val_def Let_def parsed_ok_def value_ok_def text_ok_def)
  next
    case False
    then have "nstr_promote (ca_type (ca ! nat i)) = NSC_LONG \<and> ca_table (ca ! nat i) \<noteq> EF_BAD"
      using m(1) by (auto simp: nstr_match_val_def M_NOTFOUND_def Let_def split: if_splits)
    then show ?thesis using c by (auto simp: nstr_resolve_val_def Let_def parsed_ok_def value_ok_def text_ok_def)
  qed
qed

lemma resolve_id_ok:
  assumes v: "parsed_ok v" and i: "nstr_resolve_id god v ca i = Inr w" "i < int (length ca)" "val_cat v = NSC_ID \<longrightarrow> i \<ge> 0 \<or> i = M_NOTFOUND \<or> i = M_NOTUNIQUE"
  shows "operand_from god ca w \<and> text_ok w"
proof (cases "val_cat v = NSC_ID")
  case True
  then have n: "i \<noteq> M_NOTUNIQUE" "i \<noteq> M_NOTFOUND" and nar: "\<not> CA_IS_ARRAY (ca ! nat i)"
    and g: "and (ca_flags (ca ! nat i)) NSC_DEITY = 0 \<or> god" and w: "w = nstr_mksymval (ca ! nat i) 0"
    using i(1) by (auto simp: nstr_resolve_id_def split: if_splits)
  have "ca ! nat i \<in> set ca" using i(2,3) n True by (intro nth_mem) auto
  then show ?thesis using nar g w by (auto simp: operand_from_def text_ok_def nstr_mksymval_def)
next
  case False
  then show ?thesis using v i(1) by (auto simp: nstr_resolve_id_def operand_from_def parsed_ok_def)
qed

lemma stmtch_loop_codes: "res \<ge> 0 \<or> res = M_NOTFOUND \<or> res = M_NOTUNIQUE \<Longrightarrow> 0 \<le> i \<Longrightarrow>
    stmtch_loop needle names i res \<ge> 0 \<or> stmtch_loop needle names i res = M_NOTFOUND \<or> stmtch_loop needle names i res = M_NOTUNIQUE"
  by (induction needle names i res rule: stmtch_loop.induct) (auto split: mineq_result.splits)

lemma match_ca_codes: "nstr_match_ca v ca \<ge> 0 \<or> nstr_match_ca v ca = M_NOTFOUND \<or> nstr_match_ca v ca = M_NOTUNIQUE"
  using stmtch_loop_codes [of M_NOTFOUND 0] by (auto simp: nstr_match_ca_def stmtch_def)

lemma case_two:
  "(case x of Inl e \<Rightarrow> Inl e | Inr l \<Rightarrow> (case y of Inl e \<Rightarrow> Inl e | Inr r \<Rightarrow> Inr (l, r))) = Inr (a, b) \<Longrightarrow> x = Inr a \<and> y = Inr b"
  by (auto split: sum.splits)

lemma resolve_ok:
  assumes v: "parsed_ok l" "parsed_ok r" and res: "nstr_resolve nm god ca l r = Inr (l', r')"
  shows "operand_from god ca l' \<and> text_ok l' \<and> operand_from god ca r' \<and> text_ok r'"
proof -
  let ?li = "nstr_match_ca l ca" and ?ri = "nstr_match_ca r ca"
  obtain lv rv where d: "(if val_cat l = NSC_ID \<and> val_cat r = NSC_ID then nstr_disambiguate nm ca l r else Inr (- 1, - 1)) = Inr (lv, rv)"
    using res unfolding nstr_resolve_def Let_def by (auto split: sum.splits)
  let ?l = "if lv \<ge> 0 then nstr_resolve_val l lv (ca ! nat ?ri) else l" and ?r = "if rv \<ge> 0 then nstr_resolve_val r rv (ca ! nat ?li) else r"
  have u: "(case nstr_resolve_id god ?l ca ?li of Inl e \<Rightarrow> Inl e
      | Inr l \<Rightarrow> (case nstr_resolve_id god ?r ca ?ri of Inl e \<Rightarrow> Inl e | Inr r \<Rightarrow> Inr (l, r))) = Inr (l', r')"
    using res unfolding nstr_resolve_def Let_def d by (simp only: sum.case prod.case)
  note ids = conjunct1 [OF case_two [OF u]] conjunct2 [OF case_two [OF u]]
  have lv: "lv \<ge> 0 \<Longrightarrow> lv = nstr_match_val nm l ca ?ri" and rv: "rv \<ge> 0 \<Longrightarrow> rv = nstr_match_val nm r ca ?li"
    using d disambiguate_vals [of nm ca l r lv rv] by (auto split: if_splits)
  have vals: "parsed_ok (if k \<ge> 0 then nstr_resolve_val w k (ca ! nat i) else w)"
    if "parsed_ok w" "k \<ge> 0 \<Longrightarrow> k = nstr_match_val nm w ca i" for w :: "'a valstr" and k i
  proof (cases "k \<ge> 0")
    case True
    have "nstr_match_val nm w ca i \<ge> 0" using that(2) [OF True] True by metis
    then show ?thesis using resolve_val_ok [OF that(1) _ that(2) [OF True]] True by simp
  qed (use that in simp)
  have pl: "parsed_ok ?l" by (rule vals [OF v(1) lv])
  have pr: "parsed_ok ?r" by (rule vals [OF v(2) rv])
  show ?thesis
    by (intro conjI; (rule conjunct1 [OF resolve_id_ok [OF pl ids(1) match_ca_bound impI [OF match_ca_codes]]]
      conjunct2 [OF resolve_id_ok [OF pl ids(1) match_ca_bound impI [OF match_ca_codes]]]
      conjunct1 [OF resolve_id_ok [OF pr ids(2) match_ca_bound impI [OF match_ca_codes]]]
      conjunct2 [OF resolve_id_ok [OF pr ids(2) match_ca_bound impI [OF match_ca_codes]]])?)
qed

lemma comp1_ok:
  assumes c: "nstr_comp1 nm god strtod ca s = Inr (c, rest)" and z: "CHR 0x00 \<notin> set s"
  shows "cond_ok god ca c \<and> CHR 0x00 \<notin> set rest"
proof -
  obtain l tail where l: "nstr_parse_val strtod s = (l, tail)" by (cases "nstr_parse_val strtod s")
  obtain r t where r: "nstr_parse_val strtod (tl tail) = (r, t)" by (cases "nstr_parse_val strtod (tl tail)")
  have ne: "s \<noteq> []" "tail \<noteq> []" "tl tail \<noteq> []" "hd tail \<in> {CHR ''<'', CHR ''='', CHR ''>'', CHR ''#''}"
    using c l by (auto simp: nstr_comp1_def split: if_splits)
  have pl: "parsed_ok l" "CHR 0x00 \<notin> set tail" using parse_val_ok [OF l z ne(1)] by blast+
  then have "CHR 0x00 \<notin> set (tl tail)" by (metis list.set_sel(2) tl_Nil)
  then have pr: "parsed_ok r" "CHR 0x00 \<notin> set t" using parse_val_ok [OF r _ ne(3)] by blast+
  obtain l' r' where res: "nstr_resolve nm god ca l r = Inr (l', r')"
    using c l r ne by (auto simp: nstr_comp1_def Let_def split: sum.splits if_splits)
  have "c = \<lparr>operator = hd tail, optype = nstr_optype (val_type l') (val_type r'), lft = l', rgt = r'\<rparr>" "rest = t"
    "nstr_optype (val_type l') (val_type r') \<noteq> NSC_NOTYPE"
    using c l r ne res by (auto simp: nstr_comp1_def Let_def split: if_splits)
  then show ?thesis using resolve_ok [OF pl(1) pr(1) res] pr(2) ne(4) by (simp add: cond_ok_def)
qed

lemma comp_loop_ok:
  "nstr_comp_loop nm god strtod ca s = Inr cs \<Longrightarrow> CHR 0x00 \<notin> set s \<Longrightarrow> \<forall>c \<in> set cs. cond_ok god ca c"
proof (induction nm god strtod ca s arbitrary: cs rule: nstr_comp_loop.induct)
  case (1 nm god strtod ca s)
  obtain c rest where c: "nstr_comp1 nm god strtod ca s = Inr (c, rest)"
    using 1(2) by (subst (asm) nstr_comp_loop.simps) (auto split: sum.splits)
  note ok = comp1_ok [OF c 1(3)]
  show ?case
  proof (cases "rest = []")
    case True
    then show ?thesis using 1(2) c ok by (subst (asm) nstr_comp_loop.simps) auto
  next
    case False
    then have amp: "hd rest = CHR ''&''" using 1(2) c by (subst (asm) nstr_comp_loop.simps) (auto split: if_splits)
    then obtain cs' where cs': "nstr_comp_loop nm god strtod ca (tl rest) = Inr cs'" "cs = c # cs'"
      using 1(2) c False by (subst (asm) nstr_comp_loop.simps) (auto split: sum.splits)
    have "CHR 0x00 \<notin> set (tl rest)" using ok False by (metis list.set_sel(2))
    then show ?thesis using 1(1) [OF c refl False _ cs'(1)] amp ok cs'(2) by auto
  qed
qed

lemma comp_ok: "nstr_comp nm god strtod n ca s = Inr cs \<Longrightarrow> CHR 0x00 \<notin> set s \<Longrightarrow> \<forall>c \<in> set cs. cond_ok god ca c"
  using comp_loop_ok [of nm god strtod ca s cs] by (auto simp: nstr_comp_def split: sum.splits if_splits)

lemma operand_from_ok: "operand_from god cas v \<Longrightarrow> operand_ok cas v"
  by (auto simp: operand_from_def operand_ok_def)

lemma optype_wants:
  assumes "nstr_optype a b \<noteq> NSC_NOTYPE" "t = nstr_optype a b"
  shows "NSC_IS_PROMOTED t" "t = nstr_promote a \<or> t = NSC_DOUBLE \<and> nstr_promote a = NSC_LONG"
    "t = nstr_promote b \<or> t = NSC_DOUBLE \<and> nstr_promote b = NSC_LONG"
proof -
  have n: "nstr_promote a \<noteq> NSC_NOTYPE" using assms by (auto simp: nstr_optype_def Let_def split: if_splits)
  then have "a \<noteq> NSC_NOTYPE" by auto
  then show "NSC_IS_PROMOTED t" using promote_promoted [of a] assms by (auto simp: nstr_optype_def Let_def NSC_IS_PROMOTED_def split: if_splits)
qed (use assms in \<open>auto simp: nstr_optype_def Let_def split: if_splits\<close>)

lemma eval_ok:
  assumes v: "operand_ok cas v" "text_ok v" and cas: "\<forall>ca \<in> set cas. ca_ok ca" "strings_ok env cas"
    and want: "NSC_IS_PROMOTED want" "want = nstr_promote (val_type v) \<or> want = NSC_DOUBLE \<and> nstr_promote (val_type v) = NSC_LONG"
  shows "\<exists>a. nstr_eval env v cnum ptr want = Some \<lparr>val_type = want, val_cat = NSC_VAL, val_as = a\<rparr> \<and> value_ok want a \<and> value_readable a \<and>
    (val_cat v = NSC_VAL \<and> want = NSC_STRING \<longrightarrow> a = val_as v)"
proof (cases "val_cat v = NSC_VAL \<and> value_ok (val_type v) (val_as v)")
  case True
  then have "nstr_eval env v cnum ptr want = nstr_coerce env want (val_type v, val_as v)"
    using want(1) value_ok_promoted by (auto simp: nstr_eval_def)
  moreover have "value_readable (val_as v)" using v(2) True by (auto simp: value_readable_def readable_def text_ok_def)
  moreover have "val_type v = want \<or> want = NSC_DOUBLE \<and> val_type v = NSC_LONG" using want(2) True value_ok_promoted by metis
  ultimately show ?thesis using coerce_ok [of "val_type v" "val_as v" want env] True by (auto simp: nstr_coerce_def)
next
  case False
  then obtain ca where ca: "ca \<in> set cas" "\<not> CA_IS_ARRAY ca" "v = nstr_mksymval ca 0" using v(1) by (auto simp: operand_ok_def)
  have "strings_ok env [ca]" using cas(2) ca(1) by (simp add: strings_ok_def)
  then obtain a t where a: "value_ok t a" "value_readable a" "t = nstr_promote (ca_type ca)"
    "\<forall>want. NSC_IS_PROMOTED want \<longrightarrow> nstr_eval env (nstr_mksymval ca 0) cnum ptr want = nstr_coerce env want (t, a)"
    using symval_ok [of ca env cnum ptr] cas(1) ca by blast
  have "val_type v = ca_type ca" using ca(3) by (simp add: nstr_mksymval_def)
  moreover have "val_cat v = NSC_OFF" using ca(3) by (simp add: nstr_mksymval_def)
  ultimately show ?thesis using coerce_ok [OF a(1,2), of want env] a want ca(3) by simp
qed

section \<open>Comparing strings\<close>

lemma strncmp_some: "readable a n \<Longrightarrow> readable b n \<Longrightarrow> \<exists>r. strncmp n a b = Some r \<and> (r = 0 \<longleftrightarrow> cstring a n = cstring b n)"
proof (induction n a b rule: strncmp.induct)
  case (2 n a as bs)
  show ?case
  proof (cases "n = 0")
    case True
    then show ?thesis by (simp add: cstring_def)
  next
    case False
    then obtain m where n: "n = Suc m" by (cases n) auto
    obtain b bs' where bs: "bs = b # bs'" using 2(3) False by (cases bs) (auto simp: readable_def)
    have ne: "a \<noteq> b \<Longrightarrow> int (of_char a) \<noteq> int (of_char b :: nat)" by (metis char_of_char of_nat_eq_iff)
    show ?thesis
    proof (cases "a = b \<and> a \<noteq> CHR 0x00")
      case True
      then have "readable as m" "readable bs' m" using 2(2,3) n bs by (auto simp: readable_def)
      then show ?thesis using 2(1) [OF False bs] True n bs by (simp add: cstring_def)
    qed (use n bs ne in \<open>auto simp: cstring_def\<close>)
  qed
qed (auto simp: readable_def cstring_def)

lemma char_value_zero: "char_value c = 0 \<longleftrightarrow> c = CHR 0x00"
proof -
  have b: "(of_char c :: nat) < 256" by simp
  have "(of_char c :: nat) = of_char (CHR 0x00) \<longleftrightarrow> c = CHR 0x00" by (rule of_char_eq_iff)
  then have z: "(of_char c :: nat) = 0 \<longleftrightarrow> c = CHR 0x00" by simp
  show ?thesis
  proof (cases "(of_char c :: nat) < 128")
    case True
    then show ?thesis using z by (simp only: char_value_def if_True) (metis of_nat_eq_0_iff)
  next
    case False
    have "int (of_char c) < 256" using b by (metis of_nat_less_iff of_nat_numeral)
    then have "char_value c \<noteq> 0" using False by (simp only: char_value_def if_False)
    then show ?thesis using z False by auto
  qed
qed

lemma takeWhile_take_swap: "takeWhile P (take n xs) = take n (takeWhile P xs)"
  by (induction xs arbitrary: n) (auto simp: take_Cons split: nat.splits)

lemma cstring_text: "CHR 0x00 \<notin> set (take n base) \<Longrightarrow> cstring base n = take n base"
  unfolding cstring_def by (subst takeWhile_eq_all_conv) auto

lemma cstring_length: "length (cstring s n) \<le> n"
  by (simp add: cstring_def takeWhile_take_swap)

lemma cstring_take: "n \<le> m \<Longrightarrow> cstring s n = take n (cstring s m)"
  by (simp add: cstring_def takeWhile_take_swap min_absorb1)

lemma cstring_nth:
  assumes l: "length (cstring s n) = n" and m: "n < m" "readable s m"
  shows "n < length s \<and> (cstring s m = cstring s n \<longleftrightarrow> s ! n = CHR 0x00)"
proof -
  let ?t = "takeWhile (\<lambda>c. c \<noteq> CHR 0x00) s"
  have n: "n \<le> length ?t" using l by (simp add: cstring_def takeWhile_take_swap)
  have "length ?t < length s" if "CHR 0x00 \<in> set s"
  proof -
    have "?t \<noteq> s" using takeWhile_eq_all_conv [of "\<lambda>c. c \<noteq> CHR 0x00" s] that by auto
    then show ?thesis by (metis not_le take_all takeWhile_eq_take)
  qed
  then have ls: "n < length s" using m n length_takeWhile_le [of "\<lambda>c. c \<noteq> CHR 0x00" s] by (auto simp: readable_def)
  have "cstring s m = cstring s n \<longleftrightarrow> length ?t = n"
  proof
    assume "cstring s m = cstring s n"
    then have "length (take m ?t) = length (take n ?t)" by (simp add: cstring_def takeWhile_take_swap)
    then show "length ?t = n" using n m(1) by simp
  qed (use m(1) in \<open>simp add: cstring_def takeWhile_take_swap\<close>)
  also have "\<dots> \<longleftrightarrow> s ! n = CHR 0x00"
  proof
    assume "length ?t = n"
    then show "s ! n = CHR 0x00" using nth_length_takeWhile [of "\<lambda>c. c \<noteq> CHR 0x00" s] ls by simp
  next
    assume z: "s ! n = CHR 0x00"
    show "length ?t = n"
    proof (rule ccontr)
      assume "length ?t \<noteq> n"
      then have "n < length ?t" using n by simp
      then have "s ! n \<noteq> CHR 0x00" by (metis (mono_tags, lifting) nth_mem set_takeWhileD takeWhile_nth)
      then show False using z by simp
    qed
  qed
  finally show ?thesis using ls by blast
qed

text \<open>Comparing with a literal, a text without zeros and then more, is right: zero just for equal strings.\<close>

lemma strnncmp_ge_literal:
  assumes b: "n < length base" "CHR 0x00 \<notin> set (take n base)" and s: "readable s m"
  shows "m \<le> n \<Longrightarrow> \<exists>r. strnncmp_ge base n s m = Some r \<and> (r = 0 \<longleftrightarrow> take n base = cstring s m)"
    and "n \<le> m \<Longrightarrow> \<exists>r. strnncmp_ge s m base n = Some r \<and> (r = 0 \<longleftrightarrow> take n base = cstring s m)"
proof -
  have cb: "cstring base n = take n base" by (rule cstring_text [OF b(2)])
  { assume mn: "m \<le> n"
    have "readable base m" using b(1) mn by (simp add: readable_def)
    from strncmp_some [OF this s] obtain r where r: "strncmp m base s = Some r" "r = 0 \<longleftrightarrow> cstring base m = cstring s m" by blast
    show "\<exists>r. strnncmp_ge base n s m = Some r \<and> (r = 0 \<longleftrightarrow> take n base = cstring s m)"
    proof (cases "m = n")
      case True
      then show ?thesis using r cb by (simp add: strnncmp_ge_def)
    next
      case False
      then have lt: "m < n" "m < length base" using mn b(1) by simp_all
      have "take n base ! m = base ! m" using lt by simp
      then have "base ! m \<in> set (take n base)" using lt b(1) by (metis length_take min.absorb2 nat_less_le nth_mem)
      then have "char_value (base ! m) \<noteq> 0" using b(2) char_value_zero by metis
      moreover have "length (take n base) = n" using b(1) by simp
      then have "take n base \<noteq> cstring s m" using cstring_length [of s m] lt(1) by (metis not_le)
      ultimately show ?thesis using r(1) lt by (auto simp: strnncmp_ge_def)
    qed }
  { assume nm: "n \<le> m"
    have "readable s n" using s nm by (auto simp: readable_def)
    moreover have "readable base n" using b(1) by (simp add: readable_def)
    ultimately obtain r where r: "strncmp n s base = Some r" "r = 0 \<longleftrightarrow> cstring s n = take n base" using strncmp_some cb by metis
    show "\<exists>r. strnncmp_ge s m base n = Some r \<and> (r = 0 \<longleftrightarrow> take n base = cstring s m)"
    proof (cases "n = m")
      case True
      then show ?thesis using r by (auto simp: strnncmp_ge_def)
    next
      case False
      then have lt: "n < m" using nm by simp
      show ?thesis
      proof (cases "r = 0")
        case True
        then have e: "cstring s n = take n base" using r(2) by blast
        then have "length (cstring s n) = n" using b(1) by simp
        note nth = cstring_nth [OF this lt s]
        then show ?thesis using r(1) True lt e by (auto simp: strnncmp_ge_def char_value_zero)
      next
        case False
        then have "cstring s n \<noteq> take n base" using r(2) by blast
        then have "take n base \<noteq> cstring s m" using cstring_take [OF nm, of s] b(1) by (metis append_take_drop_id take_take min.idem)
        then show ?thesis using r(1) False by (auto simp: strnncmp_ge_def)
      qed
    qed }
qed

lemma strnncmp_literal:
  assumes b: "n < length base" "CHR 0x00 \<notin> set (take n base)" and s: "readable s m"
  shows "\<exists>r. strnncmp base n s m = Some r \<and> (r = 0 \<longleftrightarrow> take n base = cstring s m)"
    and "\<exists>r. strnncmp s m base n = Some r \<and> (r = 0 \<longleftrightarrow> take n base = cstring s m)"
proof -
  note g = strnncmp_ge_literal [OF assms]
  show "\<exists>r. strnncmp base n s m = Some r \<and> (r = 0 \<longleftrightarrow> take n base = cstring s m)"
  proof (cases "n < m")
    case True
    then obtain r where "strnncmp_ge s m base n = Some r" "r = 0 \<longleftrightarrow> take n base = cstring s m" using g(2) by auto
    then show ?thesis using True by (simp add: strnncmp_def)
  qed (use g(1) in \<open>simp add: strnncmp_def\<close>)
  show "\<exists>r. strnncmp s m base n = Some r \<and> (r = 0 \<longleftrightarrow> take n base = cstring s m)"
  proof (cases "m < n")
    case True
    then obtain r where "strnncmp_ge base n s m = Some r" "r = 0 \<longleftrightarrow> take n base = cstring s m" using g(1) by auto
    then show ?thesis using True by (simp add: strnncmp_def)
  qed (use g(2) in \<open>simp add: strnncmp_def\<close>)
qed

section \<open>Executing compiled conditions\<close>

definition literal_text :: "'d nscstr \<Rightarrow> bool" where
  "literal_text c \<longleftrightarrow> (optype c = NSC_STRING \<longrightarrow> val_cat (lft c) = NSC_VAL \<or> val_cat (rgt c) = NSC_VAL)"

lemma eval_op_some: "opr \<in> {CHR ''<'', CHR ''='', CHR ''>'', CHR ''#''} \<Longrightarrow> \<exists>b. eval_op opr lt eq gt = Some b"
  by (auto simp: eval_op_def)

lemma cond_runs:
  assumes c: "cond_ok god cas c" and cas: "\<forall>ca \<in> set cas. ca_ok ca" "strings_ok env cas" and t: "literal_text c"
  shows "\<exists>a b r. nstr_eval env (lft c) cnum ptr (optype c) = Some \<lparr>val_type = optype c, val_cat = NSC_VAL, val_as = a\<rparr> \<and>
    nstr_eval env (rgt c) cnum ptr (optype c) = Some \<lparr>val_type = optype c, val_cat = NSC_VAL, val_as = b\<rparr> \<and>
    nstr_compare env (operator c) a b (optype c) = Some r"
proof -
  have f: "operand_ok cas (lft c)" "operand_ok cas (rgt c)" "text_ok (lft c)" "text_ok (rgt c)" using c operand_from_ok by (auto simp: cond_ok_def)
  have o: "optype c = nstr_optype (val_type (lft c)) (val_type (rgt c))" "optype c \<noteq> NSC_NOTYPE"
    "operator c \<in> {CHR ''<'', CHR ''='', CHR ''>'', CHR ''#''}" using c unfolding cond_ok_def by blast+
  note w = optype_wants [OF o(2) [unfolded o(1)] o(1)]
  obtain a where a: "nstr_eval env (lft c) cnum ptr (optype c) = Some \<lparr>val_type = optype c, val_cat = NSC_VAL, val_as = a\<rparr>"
    "value_ok (optype c) a" "value_readable a" "val_cat (lft c) = NSC_VAL \<and> optype c = NSC_STRING \<longrightarrow> a = val_as (lft c)"
    using eval_ok [OF f(1,3) cas w(1,2)] by blast
  obtain b where b: "nstr_eval env (rgt c) cnum ptr (optype c) = Some \<lparr>val_type = optype c, val_cat = NSC_VAL, val_as = b\<rparr>"
    "value_ok (optype c) b" "value_readable b" "val_cat (rgt c) = NSC_VAL \<and> optype c = NSC_STRING \<longrightarrow> b = val_as (rgt c)"
    using eval_ok [OF f(2,4) cas w(1,3)] by blast
  have "\<exists>r. nstr_compare env (operator c) a b (optype c) = Some r"
  proof (cases "optype c = NSC_STRING")
    case False
    then show ?thesis using a(2) b(2) eval_op_some [OF o(3)] by (auto simp: nstr_compare_def value_ok_def)
  next
    case True
    obtain s m u n where ab: "a = Str s m" "b = Str u n" using a(2) b(2) True by (auto simp: value_ok_def)
    have rd: "readable s m" "readable u n" using a(3) b(3) ab by (auto simp: value_readable_def)
    have lit: "m < length s \<and> CHR 0x00 \<notin> set (take m s) \<or> n < length u \<and> CHR 0x00 \<notin> set (take n u)"
      using t True a(4) b(4) ab f(3,4) unfolding literal_text_def text_ok_def by auto
    then have "\<exists>cmp. strnncmp s m u n = Some cmp" using strnncmp_literal rd by blast
    then show ?thesis using eval_op_some [OF o(3)] True ab by (auto simp: nstr_compare_def)
  qed
  then show ?thesis using a(1) b(1) by blast
qed

lemma exec_runs:
  "\<forall>c \<in> set cs. cond_ok god cas c \<and> literal_text c \<Longrightarrow> \<forall>ca \<in> set cas. ca_ok ca \<Longrightarrow> strings_ok env cas \<Longrightarrow>
    \<exists>b. nstr_exec env cnum cs ptr = Some b"
proof (induction cs)
  case (Cons c cs)
  have ne: "val_cat (lft c) \<noteq> NSC_NOCAT" "val_cat (rgt c) \<noteq> NSC_NOCAT"
    using Cons.prems(1) by (auto simp: cond_ok_def operand_from_def nstr_mksymval_def)
  obtain a b r where "nstr_eval env (lft c) cnum ptr (optype c) = Some \<lparr>val_type = optype c, val_cat = NSC_VAL, val_as = a\<rparr>"
    "nstr_eval env (rgt c) cnum ptr (optype c) = Some \<lparr>val_type = optype c, val_cat = NSC_VAL, val_as = b\<rparr>"
    "nstr_compare env (operator c) a b (optype c) = Some r"
    using cond_runs [of god cas c env cnum ptr] Cons.prems by auto
  then show ?case using ne Cons by auto
qed auto

section \<open>What conditions mean\<close>

lemma stmtch_loop_exact:
  "k < length names \<Longrightarrow> names ! k = needle \<Longrightarrow> needle \<noteq> [] \<Longrightarrow> \<forall>j < k. names ! j \<noteq> needle \<and> CHR '' '' \<notin> set (names ! j) \<Longrightarrow>
    stmtch_loop needle names i res = i + int k"
proof (induction needle names i res arbitrary: k rule: stmtch_loop.induct)
  case (2 needle name names i res)
  show ?case
  proof (cases k)
    case 0
    have "mineq needle needle = ME_EXACT" by (simp add: mineq_exact)
    then show ?thesis using 2(4-6) 0 by auto
  next
    case (Suc l)
    have l: "l < length names" "names ! l = needle" "\<forall>j < l. names ! j \<noteq> needle \<and> CHR '' '' \<notin> set (names ! j)"
      using 2(4,5,7) Suc by auto
    have n: "name \<noteq> needle" "CHR '' '' \<notin> set name" using 2(7) Suc by auto
    then have "mineq needle name \<noteq> ME_EXACT" by (auto simp: mineq_exact)
    then show ?thesis using 2(1,2,3) l 2(6) Suc by (cases "name = []"; cases "mineq needle name") auto
  qed
qed simp

text \<open>A name that is an identifier, no longer than the buffer for it, and the first of its table.\<close>

definition selector_name :: "castr list \<Rightarrow> nat \<Rightarrow> bool" where
  "selector_name cas k \<longleftrightarrow> k < length cas \<and> ca_name (cas ! k) \<noteq> [] \<and> isalpha (hd (ca_name (cas ! k))) \<and>
     (\<forall>c \<in> set (tl (ca_name (cas ! k))). isalnum c \<or> c = CHR ''_'') \<and> length (ca_name (cas ! k)) < 32 \<and>
     (\<forall>j < k. ca_name (cas ! j) \<noteq> ca_name (cas ! k) \<and> CHR '' '' \<notin> set (ca_name (cas ! j)))"

lemma parse_name:
  assumes "selector_name cas k" and r: "rest = [] \<or> \<not> (isalnum (hd rest) \<or> hd rest = CHR ''_'')"
  shows "nstr_parse_val strtod (ca_name (cas ! k) @ rest) =
      (\<lparr>val_type = NSC_NOTYPE, val_cat = NSC_ID,
        val_as = Str (ca_name (cas ! k) @ rest @ [CHR 0x00]) (length (ca_name (cas ! k)))\<rparr>, rest)"
proof -
  obtain c cs where n: "ca_name (cas ! k) = c # cs" using assms(1) by (auto simp: selector_name_def neq_Nil_conv)
  have c: "isalpha c" "c \<noteq> CHR 0x27" "\<forall>x \<in> set cs. isalnum x \<or> x = CHR ''_''"
    using assms(1) n by (auto simp: selector_name_def isalpha_def)
  have "takeWhile (\<lambda>c. isalnum c \<or> c = CHR ''_'') (cs @ rest) = cs"
    using c(3) r by (cases rest) (auto simp: takeWhile_append2)
  then show ?thesis using n c by (simp add: nstr_parse_val_def Let_def)
qed

lemma match_name:
  assumes "selector_name cas k" "val_cat v = NSC_ID" "ident v = ca_name (cas ! k)"
  shows "nstr_match_ca v cas = int k"
  using stmtch_loop_exact [of k "map ca_name cas" "ca_name (cas ! k)" 0 M_NOTFOUND] assms
  by (auto simp: nstr_match_ca_def stmtch_def selector_name_def)

lemma comp_name:
  assumes n: "selector_name cas k" and acc: "\<not> CA_IS_ARRAY (cas ! k)" "and (ca_flags (cas ! k)) NSC_DEITY = 0 \<or> god"
    and opr: "opr \<in> {CHR ''<'', CHR ''='', CHR ''>'', CHR ''#''}"
    and p: "txt \<noteq> []" "nstr_parse_val strtod txt = (v, [])" "val_cat v = NSC_VAL"
    and t: "nstr_optype (ca_type (cas ! k)) (val_type v) = t" "t \<noteq> NSC_NOTYPE"
  shows "nstr_comp_loop nm god strtod cas (ca_name (cas ! k) @ opr # txt) =
      Inr [\<lparr>operator = opr, optype = t, lft = nstr_mksymval (cas ! k) 0, rgt = v\<rparr>]"
proof -
  have "\<not> (isalnum opr \<or> opr = CHR ''_'')" using opr by (auto simp: isalnum_def isalpha_def isdigit_def)
  then have pn: "nstr_parse_val strtod (ca_name (cas ! k) @ opr # txt) =
      (\<lparr>val_type = NSC_NOTYPE, val_cat = NSC_ID,
        val_as = Str (ca_name (cas ! k) @ (opr # txt) @ [CHR 0x00]) (length (ca_name (cas ! k)))\<rparr>, opr # txt)" (is "_ = (?v, _)")
    by (intro parse_name [OF n]) simp
  have m: "nstr_match_ca ?v cas = int k" by (rule match_name [OF n]) (simp_all add: ident_def)
  have "nstr_resolve nm god cas ?v v = Inr (nstr_mksymval (cas ! k) 0, v)"
    using p(3) acc m by (simp add: nstr_resolve_def Let_def nstr_resolve_id_def M_NOTUNIQUE_def M_NOTFOUND_def)
  moreover have "val_type (nstr_mksymval (cas ! k) 0 :: 'a valstr) = ca_type (cas ! k)" by (simp add: nstr_mksymval_def)
  ultimately have "nstr_comp1 nm god strtod cas (ca_name (cas ! k) @ opr # txt) =
      Inr (\<lparr>operator = opr, optype = t, lft = nstr_mksymval (cas ! k) 0, rgt = v\<rparr>, [])"
    using n p t opr pn by (auto simp: nstr_comp1_def Let_def selector_name_def)
  then show ?thesis by (subst nstr_comp_loop.simps) simp
qed

lemma parse_number:
  assumes d: "ds \<noteq> []" "\<forall>c \<in> set ds. isdigit c" "hd ds \<noteq> CHR ''0''" and f: "snd (strtod ds) \<le> length ds"
  shows "nstr_parse_val strtod ds = (\<lparr>val_type = NSC_LONG, val_cat = NSC_VAL, val_as = Lng (clamp_long (number_of_digits 10 ds))\<rparr>, [])"
proof -
  obtain c cs where ds: "ds = c # cs" using d(1) by (cases ds) auto
  have c: "isdigit c" "c \<noteq> CHR ''0''" using d ds by auto
  then have nc: "\<not> isspace c" "c \<noteq> CHR ''+''" "c \<noteq> CHR ''-''" "c \<noteq> CHR 0x27" "\<not> isalpha c"
    by (auto simp: isdigit_def isspace_def isalpha_def)
  have "digit_value x < 10" if "isdigit x" for x
  proof -
    have "(of_char x :: nat) \<le> 57" using that by (simp add: isdigit_def)
    then have "(of_char x :: int) \<le> 57" by (metis of_nat_le_iff of_nat_numeral of_nat_of_char)
    then show ?thesis using that by (simp add: digit_value_def)
  qed
  then have "digits_of 10 ds = ds" using d(2) by (auto simp: digits_of_def takeWhile_eq_all_conv)
  then have "strtol0 ds = (clamp_long (number_of_digits 10 ds), length ds)"
    using ds nc c(2) by (simp add: strtol0_def Let_def)
  then show ?thesis using ds nc f by (cases "strtod ds") (simp add: nstr_parse_val_def)
qed

lemma parse_literal:
  assumes "CHR 0x27 \<notin> set w"
  shows "nstr_parse_val strtod (CHR 0x27 # w @ [CHR 0x27]) =
    (\<lparr>val_type = NSC_STRING, val_cat = NSC_VAL, val_as = Str (w @ [CHR 0x27, CHR 0x00]) (length w)\<rparr>, [])"
proof -
  have "takeWhile (\<lambda>c. c \<noteq> CHR 0x27) (w @ [CHR 0x27]) = w" using assms by (subst takeWhile_append2) auto
  then show ?thesis by (simp add: nstr_parse_val_def Let_def)
qed

end
