(* ===== verification/SelTables.thy ===== *)
theory SelTables
  imports Selector
begin

text \<open>
  The selectors of every table of the game: the tables of \<open>src/lib/common/nsc.c\<close>, entry by entry, with the names of the
  members for their offsets and the macros that repeat entries as functions; which table of \<open>src/lib/common/filetable.c\<close> has
  which; and what holds for all of them. The sentinel of a table is left out. The selectors of \<open>EF_VERSION\<close> are made from the
  configuration when the server starts, and not here. An enumeration declared packed is a \<open>char\<close>, others are an \<open>int\<close>.
\<close>

section \<open>The tables\<close>

definition MAXNOC :: nat where "MAXNOC = 99"

definition sel :: "string \<Rightarrow> offset \<Rightarrow> nsc_type \<Rightarrow> nat \<Rightarrow> getter option \<Rightarrow> table \<Rightarrow> int \<Rightarrow> ca_dump \<Rightarrow> castr" where
  "sel name offs t n g tab flags dump =
     \<lparr>ca_name = name, ca_off = offs, ca_type = t, ca_len = n, ca_get = g, ca_table = tab, ca_flags = flags, ca_dump = dump\<rparr>"

text \<open>The item types, in the order of \<open>i_type\<close>: the full name of a selector and its abbreviation.\<close>

definition NSC_IELT :: "string \<Rightarrow> string \<Rightarrow> string \<Rightarrow> string \<Rightarrow> nat \<Rightarrow> castr" where
  "NSC_IELT name pfx sfx base itype =
     sel (if sfx = [] then name else pfx @ sfx) (Element base itype) NSC_SHORT 0 None EF_BAD 0 CA_DUMP"

definition NSC_IVEC :: "string \<Rightarrow> string \<Rightarrow> castr list" where
  "NSC_IVEC base sfx =
     [NSC_IELT ''civil'' ''c'' sfx base 0, NSC_IELT ''milit'' ''m'' sfx base 1, NSC_IELT ''shell'' ''s'' sfx base 2,
      NSC_IELT ''gun'' ''g'' sfx base 3, NSC_IELT ''petrol'' ''p'' sfx base 4, NSC_IELT ''iron'' ''i'' sfx base 5,
      NSC_IELT ''dust'' ''d'' sfx base 6, NSC_IELT ''bar'' ''b'' sfx base 7, NSC_IELT ''food'' ''f'' sfx base 8,
      NSC_IELT ''oil'' ''o'' sfx base 9, NSC_IELT ''lcm'' ''l'' sfx base 10, NSC_IELT ''hcm'' ''h'' sfx base 11,
      NSC_IELT ''uw'' ''u'' sfx base 12, NSC_IELT ''rad'' ''r'' sfx base 13]"

definition NSC_MELT :: "string \<Rightarrow> string \<Rightarrow> nat \<Rightarrow> int \<Rightarrow> ca_dump \<Rightarrow> castr" where
  "NSC_MELT name base itype flags dump = sel name (Element base itype) NSC_SHORT 0 None EF_BAD flags dump"

definition NSC_MVEC :: "string \<Rightarrow> ca_dump \<Rightarrow> ca_dump \<Rightarrow> ca_dump \<Rightarrow> castr list" where
  "NSC_MVEC base mil_dump oil_dump rad_dump =
     [NSC_MELT ''c_build'' base 0 0 CA_DUMP_ONLY, NSC_MELT ''m_build'' base 1 0 mil_dump, NSC_MELT ''s_build'' base 2 0 CA_DUMP_ONLY,
      NSC_MELT ''g_build'' base 3 0 CA_DUMP_ONLY, NSC_MELT ''p_build'' base 4 0 CA_DUMP_ONLY, NSC_MELT ''i_build'' base 5 0 CA_DUMP_ONLY,
      NSC_MELT ''d_build'' base 6 0 CA_DUMP_ONLY, NSC_MELT ''b_build'' base 7 0 CA_DUMP_ONLY, NSC_MELT ''f_build'' base 8 0 CA_DUMP_ONLY,
      NSC_MELT ''o_build'' base 9 0 oil_dump, NSC_MELT ''l_build'' base 10 0 CA_DUMP, NSC_MELT ''h_build'' base 11 0 CA_DUMP,
      NSC_MELT ''u_build'' base 12 0 CA_DUMP_ONLY, NSC_MELT ''r_build'' base 13 0 rad_dump]"

definition NSC_GENITEM :: "table \<Rightarrow> table \<Rightarrow> castr list" where
  "NSC_GENITEM ef_type ef_chr =
     [sel ''uid'' (Member ''uid'') NSC_INT 0 None ef_type 0 CA_DUMP,
      sel ''timestamp'' (Member ''timestamp'') NSC_TIME 0 None EF_BAD 0 CA_DUMP_NONE,
      sel ''owner'' (Member ''own'') NSC_NATID 0 None EF_NATION 0 CA_DUMP,
      sel ''xloc'' (Member ''x'') NSC_XCOORD 0 None EF_BAD 0 CA_DUMP,
      sel ''yloc'' (Member ''y'') NSC_YCOORD 0 None EF_BAD 0 CA_DUMP,
      sel ''type'' (Member ''type'') NSC_CHAR 0 None ef_chr 0 CA_DUMP,
      sel ''effic'' (Member ''effic'') NSC_CHAR 0 None EF_BAD 0 CA_DUMP,
      sel ''mobil'' (Member ''mobil'') NSC_CHAR 0 None EF_BAD 0 CA_DUMP,
      sel ''off'' (Member ''off'') NSC_UCHAR 0 None EF_BAD 0 CA_DUMP,
      sel ''tech'' (Member ''tech'') NSC_SHORT 0 None EF_BAD 0 CA_DUMP,
      sel ''group'' (Member ''group'') NSC_STRINGY 1 None EF_BAD 0 CA_DUMP_NONE,
      sel ''opx'' (Member ''opx'') NSC_XCOORD 0 None EF_BAD 0 CA_DUMP,
      sel ''opy'' (Member ''opy'') NSC_YCOORD 0 None EF_BAD 0 CA_DUMP,
      sel ''mission'' (Member ''mission'') NSC_SHORT 0 None EF_MISSIONS 0 CA_DUMP,
      sel ''radius'' (Member ''radius'') NSC_SHORT 0 None EF_BAD 0 CA_DUMP]"

definition ichr_ca :: "castr list" where
  "ichr_ca =
     [sel ''uid'' (Member ''i_uid'') NSC_CHAR 0 None EF_ITEM 0 CA_DUMP,
      sel ''name'' (Member ''i_name'') NSC_STRING 0 None EF_BAD 0 CA_DUMP,
      sel ''mnem'' (Member ''i_mnem'') NSC_STRINGY 1 None EF_BAD 0 CA_DUMP_CONST,
      sel ''power'' (Member ''i_power'') NSC_INT 0 None EF_BAD 0 CA_DUMP,
      sel ''sell'' (Member ''i_sell'') NSC_INT 0 None EF_BAD 0 CA_DUMP,
      sel ''lbs'' (Member ''i_lbs'') NSC_INT 0 None EF_BAD 0 CA_DUMP,
      sel ''pkg'' (Member ''i_pkg'') NSC_INT 5 None EF_BAD 0 CA_DUMP,
      sel ''melt_denom'' (Member ''i_melt_denom'') NSC_INT 0 None EF_BAD 0 CA_DUMP]"

definition pchr_ca :: "castr list" where
  "pchr_ca =
     [sel ''uid'' (Member ''p_uid'') NSC_INT 0 None EF_PRODUCT 0 CA_DUMP,
      sel ''name'' (Member ''p_name'') NSC_STRING 0 None EF_BAD 0 CA_DUMP,
      sel ''sname'' (Member ''p_sname'') NSC_STRING 0 None EF_BAD 0 CA_DUMP,
      sel ''ctype'' (Member ''p_ctype'') NSC_CHAR 3 None EF_ITEM 0 CA_DUMP,
      sel ''camt'' (Member ''p_camt'') NSC_USHORT 3 None EF_BAD 0 CA_DUMP,
      sel ''bwork'' (Member ''p_bwork'') NSC_INT 0 None EF_BAD 0 CA_DUMP,
      sel ''type'' (Member ''p_type'') NSC_CHAR 0 None EF_ITEM 0 CA_DUMP,
      sel ''level'' (Member ''p_level'') NSC_INT 0 None EF_LEVEL 0 CA_DUMP,
      sel ''cost'' (Member ''p_cost'') NSC_INT 0 None EF_BAD 0 CA_DUMP,
      sel ''nrndx'' (Member ''p_nrndx'') NSC_INT 0 None EF_RESOURCES 0 CA_DUMP,
      sel ''nrdep'' (Member ''p_nrdep'') NSC_INT 0 None EF_BAD 0 CA_DUMP,
      sel ''nlndx'' (Member ''p_nlndx'') NSC_INT 0 None EF_LEVEL 0 CA_DUMP,
      sel ''nlmin'' (Member ''p_nlmin'') NSC_INT 0 None EF_BAD 0 CA_DUMP,
      sel ''nllag'' (Member ''p_nllag'') NSC_INT 0 None EF_BAD 0 CA_DUMP]"

definition sect_ca :: "castr list" where
  "sect_ca =
     [sel ''uid'' (Member ''sct_uid'') NSC_INT 0 None EF_SECTOR NSC_DEITY CA_DUMP_NONE,
      sel ''timestamp'' (Member ''sct_timestamp'') NSC_TIME 0 None EF_BAD 0 CA_DUMP_NONE,
      sel ''owner'' (Member ''sct_own'') NSC_NATID 0 None EF_NATION 0 CA_DUMP,
      sel ''xloc'' (Member ''sct_x'') NSC_XCOORD 0 None EF_BAD 0 CA_DUMP_CONST,
      sel ''yloc'' (Member ''sct_y'') NSC_YCOORD 0 None EF_BAD 0 CA_DUMP_CONST,
      sel ''des'' (Member ''sct_type'') NSC_CHAR 0 None EF_SECTOR_CHR 0 CA_DUMP,
      sel ''effic'' (Member ''sct_effic'') NSC_CHAR 0 None EF_BAD 0 CA_DUMP,
      sel ''mobil'' (Member ''sct_mobil'') NSC_CHAR 0 None EF_BAD 0 CA_DUMP,
      sel ''off'' (Member ''sct_off'') NSC_UCHAR 0 None EF_BAD 0 CA_DUMP,
      sel ''loyal'' (Member ''sct_loyal'') NSC_UCHAR 0 None EF_BAD NSC_DEITY CA_DUMP,
      sel ''terr'' Zero NSC_UCHAR 0 (Some nsc_sct_terr) EF_BAD 0 CA_DUMP_NONE,
      sel ''terr0'' (Member ''sct_terr'') NSC_UCHAR 0 None EF_BAD 0 CA_DUMP,
      sel ''terr1'' (Member ''sct_terr1'') NSC_UCHAR 0 None EF_BAD 0 CA_DUMP,
      sel ''terr2'' (Member ''sct_terr2'') NSC_UCHAR 0 None EF_BAD 0 CA_DUMP,
      sel ''terr3'' (Member ''sct_terr3'') NSC_UCHAR 0 None EF_BAD 0 CA_DUMP,
      sel ''dterr'' (Member ''sct_dterr'') NSC_UCHAR 0 None EF_BAD NSC_DEITY CA_DUMP,
      sel ''xdist'' (Member ''sct_dist_x'') NSC_XCOORD 0 None EF_BAD 0 CA_DUMP,
      sel ''ydist'' (Member ''sct_dist_y'') NSC_YCOORD 0 None EF_BAD 0 CA_DUMP,
      sel ''avail'' (Member ''sct_avail'') NSC_SHORT 0 None EF_BAD 0 CA_DUMP,
      sel ''elev'' (Member ''sct_elev'') NSC_SHORT 0 None EF_BAD NSC_DEITY CA_DUMP,
      sel ''work'' (Member ''sct_work'') NSC_UCHAR 0 None EF_BAD 0 CA_DUMP,
      sel ''coastal'' (Member ''sct_coastal'') NSC_UCHAR 0 None EF_BAD 0 CA_DUMP,
      sel ''newdes'' (Member ''sct_newtype'') NSC_CHAR 0 None EF_SECTOR_CHR 0 CA_DUMP,
      sel ''min'' (Member ''sct_min'') NSC_UCHAR 0 None EF_BAD 0 CA_DUMP,
      sel ''gold'' (Member ''sct_gmin'') NSC_UCHAR 0 None EF_BAD 0 CA_DUMP,
      sel ''fert'' (Member ''sct_fertil'') NSC_UCHAR 0 None EF_BAD 0 CA_DUMP,
      sel ''ocontent'' (Member ''sct_oil'') NSC_UCHAR 0 None EF_BAD 0 CA_DUMP,
      sel ''uran'' (Member ''sct_uran'') NSC_UCHAR 0 None EF_BAD 0 CA_DUMP,
      sel ''oldown'' (Member ''sct_oldown'') NSC_NATID 0 None EF_NATION 0 CA_DUMP,
      sel ''track'' Zero NSC_LONG 0 (Some nsc_sct_track) EF_BAD 0 CA_DUMP_NONE]
     @ NSC_IVEC ''sct_item'' []
     @ NSC_IVEC ''sct_dist'' ''_dist''
     @ NSC_IVEC ''sct_del'' ''_del''
     @ [sel ''mines'' (Member ''sct_mines'') NSC_SHORT 0 None EF_BAD NSC_DEITY CA_DUMP,
      sel ''pstage'' (Member ''sct_pstage'') NSC_SHORT 0 None EF_PLAGUE_STAGES NSC_DEITY CA_DUMP,
      sel ''ptime'' (Member ''sct_ptime'') NSC_SHORT 0 None EF_BAD NSC_DEITY CA_DUMP,
      sel ''che'' (Member ''sct_che'') NSC_UCHAR 0 None EF_BAD NSC_DEITY CA_DUMP,
      sel ''che_target'' (Member ''sct_che_target'') NSC_NATID 0 None EF_NATION NSC_DEITY CA_DUMP,
      sel ''fallout'' (Member ''sct_fallout'') NSC_USHORT 0 None EF_BAD 0 CA_DUMP,
      sel ''access'' (Member ''sct_access'') NSC_SHORT 0 None EF_BAD 0 CA_DUMP,
      sel ''road'' (Member ''sct_road'') NSC_UCHAR 0 None EF_BAD 0 CA_DUMP,
      sel ''rail'' (Member ''sct_rail'') NSC_UCHAR 0 None EF_BAD 0 CA_DUMP,
      sel ''dfense'' (Member ''sct_defense'') NSC_UCHAR 0 None EF_BAD 0 CA_DUMP]"

definition dchr_ca :: "castr list" where
  "dchr_ca =
     [sel ''uid'' (Member ''d_uid'') NSC_UCHAR 0 None EF_SECTOR_CHR 0 CA_DUMP,
      sel ''name'' (Member ''d_name'') NSC_STRING 0 None EF_BAD 0 CA_DUMP,
      sel ''mnem'' (Member ''d_mnem'') NSC_STRINGY 1 None EF_BAD 0 CA_DUMP_CONST,
      sel ''terrain'' (Member ''d_terrain'') NSC_UCHAR 0 None EF_SECTOR_CHR 0 CA_DUMP,
      sel ''prd'' (Member ''d_prd'') NSC_INT 0 None EF_PRODUCT 0 CA_DUMP,
      sel ''peffic'' (Member ''d_peffic'') NSC_INT 0 None EF_BAD 0 CA_DUMP,
      sel ''mob0'' (Member ''d_mob0'') NSC_FLOAT 0 None EF_BAD 0 CA_DUMP,
      sel ''mob1'' (Member ''d_mob1'') NSC_FLOAT 0 None EF_BAD 0 CA_DUMP,
      sel ''nav'' (Member ''d_nav'') NSC_INT 0 None EF_SECTOR_NAVIGATION 0 CA_DUMP,
      sel ''pkg'' (Member ''d_pkg'') NSC_INT 0 None EF_PACKING 0 CA_DUMP,
      sel ''ostr'' (Member ''d_ostr'') NSC_FLOAT 0 None EF_BAD 0 CA_DUMP,
      sel ''dstr'' (Member ''d_dstr'') NSC_FLOAT 0 None EF_BAD 0 CA_DUMP]
     @ NSC_MVEC ''d_mat'' CA_DUMP_ONLY CA_DUMP_ONLY CA_DUMP_ONLY
     @ [sel ''bwork'' (Member ''d_bwork'') NSC_INT 0 None EF_BAD 0 CA_DUMP,
      sel ''cost'' (Member ''d_cost'') NSC_INT 0 None EF_BAD 0 CA_DUMP,
      sel ''maint'' (Member ''d_maint'') NSC_INT 0 None EF_BAD 0 CA_DUMP,
      sel ''maxpop'' (Member ''d_maxpop'') NSC_INT 0 None EF_BAD 0 CA_DUMP,
      sel ''flags'' (Member ''d_flags'') NSC_INT 0 None EF_SECTOR_CHR_FLAGS NSC_BITS CA_DUMP]"

definition ship_ca :: "castr list" where
  "ship_ca =
     NSC_GENITEM EF_SHIP EF_SHIP_CHR
     @ [sel ''fleet'' (Member ''shp_fleet'') NSC_STRINGY 1 None EF_BAD 0 CA_DUMP]
     @ NSC_IVEC ''shp_item'' []
     @ [sel ''pstage'' (Member ''shp_pstage'') NSC_SHORT 0 None EF_PLAGUE_STAGES NSC_DEITY CA_DUMP,
      sel ''ptime'' (Member ''shp_ptime'') NSC_SHORT 0 None EF_BAD NSC_DEITY CA_DUMP,
      sel ''access'' (Member ''shp_access'') NSC_SHORT 0 None EF_BAD 0 CA_DUMP,
      sel ''name'' (Member ''shp_name'') NSC_STRINGY 24 None EF_BAD 0 CA_DUMP,
      sel ''xbuilt'' (Member ''shp_orig_x'') NSC_XCOORD 0 None EF_BAD NSC_DEITY CA_DUMP,
      sel ''ybuilt'' (Member ''shp_orig_y'') NSC_YCOORD 0 None EF_BAD NSC_DEITY CA_DUMP,
      sel ''builder'' (Member ''shp_orig_own'') NSC_NATID 0 None EF_NATION NSC_DEITY CA_DUMP,
      sel ''rflags'' (Member ''shp_rflags'') NSC_INT 0 None EF_RETREAT_FLAGS NSC_BITS CA_DUMP,
      sel ''rpath'' (Member ''shp_rpath'') NSC_STRINGY 10 None EF_BAD 0 CA_DUMP,
      sel ''nplane'' Zero NSC_LONG 0 (Some nsc_cargo_nplane) EF_BAD 0 CA_DUMP_NONE,
      sel ''nchoppers'' Zero NSC_LONG 0 (Some nsc_cargo_nchopper) EF_BAD 0 CA_DUMP_NONE,
      sel ''nxlight'' Zero NSC_LONG 0 (Some nsc_cargo_nxlight) EF_BAD 0 CA_DUMP_NONE,
      sel ''nland'' Zero NSC_LONG 0 (Some nsc_cargo_nland) EF_BAD 0 CA_DUMP_NONE]"

definition mchr_ca :: "castr list" where
  "mchr_ca =
     [sel ''type'' (Member ''m_type'') NSC_CHAR 0 None EF_SHIP_CHR 0 CA_DUMP,
      sel ''name'' (Member ''m_name'') NSC_STRING 0 None EF_BAD 0 CA_DUMP]
     @ NSC_IVEC ''m_item'' []
     @ NSC_MVEC ''m_mat'' CA_DUMP_ONLY CA_DUMP_ONLY CA_DUMP_ONLY
     @ [sel ''armor'' (Member ''m_armor'') NSC_INT 0 None EF_BAD 0 CA_DUMP,
      sel ''speed'' (Member ''m_speed'') NSC_INT 0 None EF_BAD 0 CA_DUMP,
      sel ''visib'' (Member ''m_visib'') NSC_INT 0 None EF_BAD 0 CA_DUMP,
      sel ''vrnge'' (Member ''m_vrnge'') NSC_INT 0 None EF_BAD 0 CA_DUMP,
      sel ''frnge'' (Member ''m_frnge'') NSC_INT 0 None EF_BAD 0 CA_DUMP,
      sel ''glim'' (Member ''m_glim'') NSC_INT 0 None EF_BAD 0 CA_DUMP,
      sel ''nxlight'' (Member ''m_nxlight'') NSC_UCHAR 0 None EF_BAD 0 CA_DUMP,
      sel ''nchoppers'' (Member ''m_nchoppers'') NSC_UCHAR 0 None EF_BAD 0 CA_DUMP,
      sel ''bwork'' (Member ''m_bwork'') NSC_INT 0 None EF_BAD 0 CA_DUMP,
      sel ''tech'' (Member ''m_tech'') NSC_INT 0 None EF_BAD 0 CA_DUMP,
      sel ''cost'' (Member ''m_cost'') NSC_INT 0 None EF_BAD 0 CA_DUMP,
      sel ''flags'' (Member ''m_flags'') NSC_INT 0 None EF_SHIP_CHR_FLAGS NSC_BITS CA_DUMP,
      sel ''nplanes'' (Member ''m_nplanes'') NSC_UCHAR 0 None EF_BAD 0 CA_DUMP,
      sel ''nland'' (Member ''m_nland'') NSC_UCHAR 0 None EF_BAD 0 CA_DUMP]"

definition plane_ca :: "castr list" where
  "plane_ca =
     NSC_GENITEM EF_PLANE EF_PLANE_CHR
     @ [sel ''wing'' (Member ''pln_wing'') NSC_STRINGY 1 None EF_BAD 0 CA_DUMP,
      sel ''range'' (Member ''pln_range'') NSC_UCHAR 0 None EF_BAD 0 CA_DUMP,
      sel ''harden'' (Member ''pln_harden'') NSC_CHAR 0 None EF_BAD 0 CA_DUMP,
      sel ''ship'' (Member ''pln_ship'') NSC_INT 0 None EF_SHIP 0 CA_DUMP,
      sel ''land'' (Member ''pln_land'') NSC_INT 0 None EF_LAND 0 CA_DUMP,
      sel ''flags'' (Member ''pln_flags'') NSC_INT 0 None EF_PLANE_FLAGS NSC_BITS CA_DUMP,
      sel ''access'' (Member ''pln_access'') NSC_SHORT 0 None EF_BAD 0 CA_DUMP,
      sel ''theta'' (Member ''pln_theta'') NSC_FLOAT 0 None EF_BAD 0 CA_DUMP,
      sel ''att'' Zero NSC_LONG 0 (Some nsc_pln_att) EF_BAD 0 CA_DUMP_NONE,
      sel ''def'' Zero NSC_LONG 0 (Some nsc_pln_def) EF_BAD 0 CA_DUMP_NONE,
      sel ''nuketype'' Zero NSC_LONG 0 (Some nsc_pln_nuketype) EF_BAD 0 CA_DUMP_NONE]"

definition plchr_ca :: "castr list" where
  "plchr_ca =
     [sel ''type'' (Member ''pl_type'') NSC_CHAR 0 None EF_PLANE_CHR 0 CA_DUMP,
      sel ''name'' (Member ''pl_name'') NSC_STRING 0 None EF_BAD 0 CA_DUMP]
     @ NSC_MVEC ''pl_mat'' CA_DUMP CA_DUMP_ONLY CA_DUMP_ONLY
     @ [sel ''bwork'' (Member ''pl_bwork'') NSC_INT 0 None EF_BAD 0 CA_DUMP,
      sel ''tech'' (Member ''pl_tech'') NSC_INT 0 None EF_BAD 0 CA_DUMP,
      sel ''cost'' (Member ''pl_cost'') NSC_INT 0 None EF_BAD 0 CA_DUMP,
      sel ''acc'' (Member ''pl_acc'') NSC_INT 0 None EF_BAD 0 CA_DUMP,
      sel ''load'' (Member ''pl_load'') NSC_INT 0 None EF_BAD 0 CA_DUMP,
      sel ''att'' (Member ''pl_att'') NSC_INT 0 None EF_BAD 0 CA_DUMP,
      sel ''def'' (Member ''pl_def'') NSC_INT 0 None EF_BAD 0 CA_DUMP,
      sel ''range'' (Member ''pl_range'') NSC_INT 0 None EF_BAD 0 CA_DUMP,
      sel ''fuel'' (Member ''pl_fuel'') NSC_INT 0 None EF_BAD 0 CA_DUMP,
      sel ''stealth'' (Member ''pl_stealth'') NSC_INT 0 None EF_BAD 0 CA_DUMP,
      sel ''flags'' (Member ''pl_flags'') NSC_INT 0 None EF_PLANE_CHR_FLAGS NSC_BITS CA_DUMP]"

definition land_ca :: "castr list" where
  "land_ca =
     NSC_GENITEM EF_LAND EF_LAND_CHR
     @ [sel ''army'' (Member ''lnd_army'') NSC_STRINGY 1 None EF_BAD 0 CA_DUMP,
      sel ''ship'' (Member ''lnd_ship'') NSC_INT 0 None EF_SHIP 0 CA_DUMP,
      sel ''harden'' (Member ''lnd_harden'') NSC_CHAR 0 None EF_BAD 0 CA_DUMP,
      sel ''retreat'' (Member ''lnd_retreat'') NSC_SHORT 0 None EF_BAD 0 CA_DUMP,
      sel ''rflags'' (Member ''lnd_rflags'') NSC_INT 0 None EF_RETREAT_FLAGS NSC_BITS CA_DUMP,
      sel ''rpath'' (Member ''lnd_rpath'') NSC_STRINGY 10 None EF_BAD 0 CA_DUMP]
     @ NSC_IVEC ''lnd_item'' []
     @ [sel ''pstage'' (Member ''lnd_pstage'') NSC_SHORT 0 None EF_PLAGUE_STAGES NSC_DEITY CA_DUMP,
      sel ''ptime'' (Member ''lnd_ptime'') NSC_SHORT 0 None EF_BAD NSC_DEITY CA_DUMP,
      sel ''land'' (Member ''lnd_land'') NSC_INT 0 None EF_LAND 0 CA_DUMP,
      sel ''access'' (Member ''lnd_access'') NSC_SHORT 0 None EF_BAD 0 CA_DUMP,
      sel ''att'' Zero NSC_DOUBLE 0 (Some nsc_lnd_att) EF_BAD 0 CA_DUMP_NONE,
      sel ''def'' Zero NSC_DOUBLE 0 (Some nsc_lnd_def) EF_BAD 0 CA_DUMP_NONE,
      sel ''vul'' Zero NSC_LONG 0 (Some nsc_lnd_vul) EF_BAD 0 CA_DUMP_NONE,
      sel ''spd'' Zero NSC_LONG 0 (Some nsc_lnd_spd) EF_BAD 0 CA_DUMP_NONE,
      sel ''vis'' Zero NSC_LONG 0 (Some nsc_lnd_vis) EF_BAD 0 CA_DUMP_NONE,
      sel ''frg'' Zero NSC_LONG 0 (Some nsc_lnd_frg) EF_BAD 0 CA_DUMP_NONE,
      sel ''acc'' Zero NSC_LONG 0 (Some nsc_lnd_acc) EF_BAD 0 CA_DUMP_NONE,
      sel ''dam'' Zero NSC_LONG 0 (Some nsc_lnd_dam) EF_BAD 0 CA_DUMP_NONE,
      sel ''aaf'' Zero NSC_LONG 0 (Some nsc_lnd_aaf) EF_BAD 0 CA_DUMP_NONE,
      sel ''nland'' Zero NSC_LONG 0 (Some nsc_cargo_nland) EF_BAD 0 CA_DUMP_NONE,
      sel ''nxlight'' Zero NSC_LONG 0 (Some nsc_cargo_nxlight) EF_BAD 0 CA_DUMP_NONE,
      sel ''spy'' (Member ''l_spy'') NSC_INT 0 (Some nsc_lchr) EF_BAD 0 CA_DUMP_NONE,
      sel ''rmax'' (Member ''l_rad'') NSC_INT 0 (Some nsc_lchr) EF_BAD 0 CA_DUMP_NONE,
      sel ''ammo'' (Member ''l_ammo'') NSC_INT 0 (Some nsc_lchr) EF_BAD 0 CA_DUMP_NONE,
      sel ''maxlight'' (Member ''l_nxlight'') NSC_UCHAR 0 (Some nsc_lchr) EF_BAD 0 CA_DUMP_NONE]"

definition lchr_ca :: "castr list" where
  "lchr_ca =
     [sel ''type'' (Member ''l_type'') NSC_CHAR 0 None EF_LAND_CHR 0 CA_DUMP,
      sel ''name'' (Member ''l_name'') NSC_STRING 0 None EF_BAD 0 CA_DUMP]
     @ NSC_IVEC ''l_item'' []
     @ NSC_MVEC ''l_mat'' CA_DUMP_ONLY CA_DUMP_ONLY CA_DUMP_ONLY
     @ [sel ''bwork'' (Member ''l_bwork'') NSC_INT 0 None EF_BAD 0 CA_DUMP,
      sel ''tech'' (Member ''l_tech'') NSC_INT 0 None EF_BAD 0 CA_DUMP,
      sel ''cost'' (Member ''l_cost'') NSC_INT 0 None EF_BAD 0 CA_DUMP,
      sel ''att'' (Member ''l_att'') NSC_FLOAT 0 None EF_BAD 0 CA_DUMP,
      sel ''def'' (Member ''l_def'') NSC_FLOAT 0 None EF_BAD 0 CA_DUMP,
      sel ''vul'' (Member ''l_vul'') NSC_INT 0 None EF_BAD 0 CA_DUMP,
      sel ''spd'' (Member ''l_spd'') NSC_INT 0 None EF_BAD 0 CA_DUMP,
      sel ''vis'' (Member ''l_vis'') NSC_INT 0 None EF_BAD 0 CA_DUMP,
      sel ''spy'' (Member ''l_spy'') NSC_INT 0 None EF_BAD 0 CA_DUMP,
      sel ''rmax'' (Member ''l_rad'') NSC_INT 0 None EF_BAD 0 CA_DUMP,
      sel ''frg'' (Member ''l_frg'') NSC_INT 0 None EF_BAD 0 CA_DUMP,
      sel ''acc'' (Member ''l_acc'') NSC_INT 0 None EF_BAD 0 CA_DUMP,
      sel ''dam'' (Member ''l_dam'') NSC_INT 0 None EF_BAD 0 CA_DUMP,
      sel ''ammo'' (Member ''l_ammo'') NSC_INT 0 None EF_BAD 0 CA_DUMP,
      sel ''aaf'' (Member ''l_aaf'') NSC_INT 0 None EF_BAD 0 CA_DUMP,
      sel ''flags'' (Member ''l_flags'') NSC_INT 0 None EF_LAND_CHR_FLAGS NSC_BITS CA_DUMP,
      sel ''nxlight'' (Member ''l_nxlight'') NSC_UCHAR 0 None EF_BAD 0 CA_DUMP,
      sel ''nland'' (Member ''l_nland'') NSC_UCHAR 0 None EF_BAD 0 CA_DUMP]"

definition nuke_ca :: "castr list" where
  "nuke_ca =
     NSC_GENITEM EF_NUKE EF_NUKE_CHR
     @ [sel ''stockpile'' (Member ''nuk_stockpile'') NSC_STRINGY 1 None EF_BAD 0 CA_DUMP,
      sel ''plane'' (Member ''nuk_plane'') NSC_INT 0 None EF_PLANE 0 CA_DUMP]"

definition nchr_ca :: "castr list" where
  "nchr_ca =
     [sel ''type'' (Member ''n_type'') NSC_CHAR 0 None EF_NUKE_CHR 0 CA_DUMP,
      sel ''name'' (Member ''n_name'') NSC_STRING 0 None EF_BAD 0 CA_DUMP]
     @ NSC_MVEC ''n_mat'' CA_DUMP_ONLY CA_DUMP CA_DUMP
     @ [sel ''blast'' (Member ''n_blast'') NSC_INT 0 None EF_BAD 0 CA_DUMP,
      sel ''dam'' (Member ''n_dam'') NSC_INT 0 None EF_BAD 0 CA_DUMP,
      sel ''bwork'' (Member ''n_bwork'') NSC_INT 0 None EF_BAD 0 CA_DUMP,
      sel ''tech'' (Member ''n_tech'') NSC_INT 0 None EF_BAD 0 CA_DUMP,
      sel ''cost'' (Member ''n_cost'') NSC_INT 0 None EF_BAD 0 CA_DUMP,
      sel ''weight'' (Member ''n_weight'') NSC_INT 0 None EF_BAD 0 CA_DUMP,
      sel ''flags'' (Member ''n_flags'') NSC_INT 0 None EF_NUKE_CHR_FLAGS NSC_BITS CA_DUMP]"

definition loan_ca :: "castr list" where
  "loan_ca =
     [sel ''uid'' (Member ''l_uid'') NSC_INT 0 None EF_LOAN 0 CA_DUMP,
      sel ''timestamp'' (Member ''l_timestamp'') NSC_TIME 0 None EF_BAD 0 CA_DUMP_NONE,
      sel ''loaner'' (Member ''l_loner'') NSC_NATID 0 None EF_NATION 0 CA_DUMP,
      sel ''loanee'' (Member ''l_lonee'') NSC_NATID 0 None EF_NATION 0 CA_DUMP,
      sel ''status'' (Member ''l_status'') NSC_CHAR 0 None EF_AGREEMENT_STATUS 0 CA_DUMP,
      sel ''irate'' (Member ''l_irate'') NSC_INT 0 None EF_BAD 0 CA_DUMP,
      sel ''ldur'' (Member ''l_ldur'') NSC_INT 0 None EF_BAD 0 CA_DUMP,
      sel ''amtpaid'' (Member ''l_amtpaid'') NSC_INT 0 None EF_BAD 0 CA_DUMP,
      sel ''amtdue'' (Member ''l_amtdue'') NSC_INT 0 None EF_BAD 0 CA_DUMP,
      sel ''lastpay'' (Member ''l_lastpay'') NSC_TIME 0 None EF_BAD 0 CA_DUMP,
      sel ''duedate'' (Member ''l_duedate'') NSC_TIME 0 None EF_BAD 0 CA_DUMP]"

definition news_ca :: "castr list" where
  "news_ca =
     [sel ''timestamp'' Zero NSC_LONG 0 (Some nsc_nws_timestamp) EF_BAD 0 CA_DUMP_NONE,
      sel ''actor'' (Member ''nws_ano'') NSC_NATID 0 None EF_NATION 0 CA_DUMP,
      sel ''action'' (Member ''nws_vrb'') NSC_UCHAR 0 None EF_NEWS_CHR 0 CA_DUMP,
      sel ''victim'' (Member ''nws_vno'') NSC_NATID 0 None EF_NATION 0 CA_DUMP,
      sel ''times'' (Member ''nws_ntm'') NSC_USHORT 0 None EF_BAD 0 CA_DUMP,
      sel ''duration'' (Member ''nws_duration'') NSC_SHORT 0 None EF_BAD 0 CA_DUMP,
      sel ''time'' (Member ''nws_when'') NSC_TIME 0 None EF_BAD 0 CA_DUMP]"

definition lost_ca :: "castr list" where
  "lost_ca =
     [sel ''timestamp'' (Member ''lost_timestamp'') NSC_TIME 0 None EF_BAD 0 CA_DUMP,
      sel ''owner'' (Member ''lost_owner'') NSC_NATID 0 None EF_NATION 0 CA_DUMP,
      sel ''type'' (Member ''lost_type'') NSC_SHORT 0 None EF_TABLE 0 CA_DUMP,
      sel ''id'' (Member ''lost_id'') NSC_INT 0 None EF_BAD 0 CA_DUMP,
      sel ''x'' (Member ''lost_x'') NSC_XCOORD 0 None EF_BAD 0 CA_DUMP,
      sel ''y'' (Member ''lost_y'') NSC_YCOORD 0 None EF_BAD 0 CA_DUMP]"

definition commodity_ca :: "castr list" where
  "commodity_ca =
     [sel ''uid'' (Member ''com_uid'') NSC_INT 0 None EF_COMM 0 CA_DUMP,
      sel ''timestamp'' (Member ''com_timestamp'') NSC_TIME 0 None EF_BAD 0 CA_DUMP_NONE,
      sel ''owner'' (Member ''com_owner'') NSC_NATID 0 None EF_NATION 0 CA_DUMP,
      sel ''type'' (Member ''com_type'') NSC_CHAR 0 None EF_ITEM 0 CA_DUMP,
      sel ''amount'' (Member ''com_amount'') NSC_INT 0 None EF_BAD 0 CA_DUMP,
      sel ''price'' (Member ''com_price'') NSC_FLOAT 0 None EF_BAD 0 CA_DUMP,
      sel ''maxbidder'' (Member ''com_maxbidder'') NSC_INT 0 None EF_NATION 0 CA_DUMP,
      sel ''markettime'' (Member ''com_markettime'') NSC_TIME 0 None EF_BAD 0 CA_DUMP,
      sel ''xbuy'' (Member ''com_x'') NSC_XCOORD 0 None EF_BAD NSC_DEITY CA_DUMP,
      sel ''ybuy'' (Member ''com_y'') NSC_XCOORD 0 None EF_BAD NSC_DEITY CA_DUMP,
      sel ''xsell'' (Member ''sell_x'') NSC_XCOORD 0 None EF_BAD NSC_DEITY CA_DUMP,
      sel ''ysell'' (Member ''sell_y'') NSC_YCOORD 0 None EF_BAD NSC_DEITY CA_DUMP]"

definition trade_ca :: "castr list" where
  "trade_ca =
     [sel ''uid'' (Member ''trd_uid'') NSC_INT 0 None EF_TRADE 0 CA_DUMP,
      sel ''timestamp'' (Member ''trd_timestamp'') NSC_TIME 0 None EF_BAD 0 CA_DUMP_NONE,
      sel ''owner'' (Member ''trd_owner'') NSC_NATID 0 None EF_NATION 0 CA_DUMP,
      sel ''type'' (Member ''trd_type'') NSC_SHORT 0 None EF_TABLE 0 CA_DUMP,
      sel ''unitid'' (Member ''trd_unitid'') NSC_INT 0 None EF_BAD 0 CA_DUMP,
      sel ''price'' (Member ''trd_price'') NSC_INT 0 None EF_BAD 0 CA_DUMP,
      sel ''maxbidder'' (Member ''trd_maxbidder'') NSC_INT 0 None EF_NATION 0 CA_DUMP,
      sel ''markettime'' (Member ''trd_markettime'') NSC_TIME 0 None EF_BAD 0 CA_DUMP,
      sel ''xloc'' (Member ''trd_x'') NSC_XCOORD 0 None EF_BAD NSC_DEITY CA_DUMP,
      sel ''yloc'' (Member ''trd_y'') NSC_YCOORD 0 None EF_BAD NSC_DEITY CA_DUMP]"

definition cou_ca :: "castr list" where
  "cou_ca =
     [sel ''cnum'' (Member ''nat_cnum'') NSC_NATID 0 None EF_NATION 0 CA_DUMP,
      sel ''timestamp'' (Member ''nat_timestamp'') NSC_TIME 0 None EF_BAD 0 CA_DUMP_NONE,
      sel ''stat'' (Member ''nat_stat'') NSC_INT 0 None EF_NATION_STATUS 0 CA_DUMP_NONE,
      sel ''flags'' (Member ''nat_flags'') NSC_INT 0 None EF_NATION_FLAGS NSC_BITS CA_DUMP,
      sel ''cname'' (Member ''nat_cnam'') NSC_STRINGY 20 None EF_BAD 0 CA_DUMP_NONE,
      sel ''passwd'' (Member ''nat_pnam'') NSC_STRINGY 20 None EF_BAD NSC_DEITY CA_DUMP_NONE,
      sel ''ip'' (Member ''nat_hostaddr'') NSC_STRINGY 46 None EF_BAD 0 CA_DUMP,
      sel ''userid'' (Member ''nat_userid'') NSC_STRINGY 32 None EF_BAD 0 CA_DUMP,
      sel ''xcap'' (Member ''nat_xcap'') NSC_XCOORD 0 None EF_BAD 0 CA_DUMP,
      sel ''ycap'' (Member ''nat_ycap'') NSC_YCOORD 0 None EF_BAD 0 CA_DUMP,
      sel ''xorg'' (Member ''nat_xorg'') NSC_XCOORD 0 None EF_BAD NSC_DEITY CA_DUMP_NONE,
      sel ''yorg'' (Member ''nat_yorg'') NSC_YCOORD 0 None EF_BAD NSC_DEITY CA_DUMP_NONE,
      sel ''update'' (Member ''nat_update'') NSC_CHAR 0 None EF_BAD 0 CA_DUMP,
      sel ''tgms'' (Member ''nat_tgms'') NSC_USHORT 0 None EF_BAD 0 CA_DUMP,
      sel ''ann'' (Member ''nat_ann'') NSC_USHORT 0 None EF_BAD 0 CA_DUMP,
      sel ''timeused'' (Member ''nat_timeused'') NSC_INT 0 None EF_BAD 0 CA_DUMP,
      sel ''btu'' (Member ''nat_btu'') NSC_SHORT 0 None EF_BAD 0 CA_DUMP,
      sel ''access'' (Member ''nat_access'') NSC_SHORT 0 None EF_BAD 0 CA_DUMP,
      sel ''milreserve'' (Member ''nat_reserve'') NSC_INT 0 None EF_BAD 0 CA_DUMP,
      sel ''money'' (Member ''nat_money'') NSC_INT 0 None EF_BAD 0 CA_DUMP,
      sel ''login'' (Member ''nat_last_login'') NSC_TIME 0 None EF_BAD 0 CA_DUMP,
      sel ''logout'' (Member ''nat_last_logout'') NSC_TIME 0 None EF_BAD 0 CA_DUMP,
      sel ''newstim'' (Member ''nat_newstim'') NSC_TIME 0 None EF_BAD 0 CA_DUMP,
      sel ''annotim'' (Member ''nat_annotim'') NSC_TIME 0 None EF_BAD 0 CA_DUMP,
      sel ''tech'' (Element ''nat_level'' 0) NSC_FLOAT 0 None EF_BAD 0 CA_DUMP,
      sel ''research'' (Element ''nat_level'' 1) NSC_FLOAT 0 None EF_BAD 0 CA_DUMP,
      sel ''education'' (Element ''nat_level'' 2) NSC_FLOAT 0 None EF_BAD 0 CA_DUMP,
      sel ''happiness'' (Element ''nat_level'' 3) NSC_FLOAT 0 None EF_BAD 0 CA_DUMP]"

text \<open>\<open>nsc_init\<close> derives the public view of nations from the owner's.\<close>

definition nat_ca :: "castr list" where
  "nat_ca =
     take 2 cou_ca @
     map (\<lambda>ca. if ca_dump ca = CA_DUMP_NONE then ca\<lparr>ca_dump := CA_DUMP\<rparr> else ca\<lparr>ca_flags := or (ca_flags ca) NSC_DEITY\<rparr>) (drop 2 cou_ca)"

definition relat_ca :: "castr list" where
  "relat_ca =
     [sel ''uid'' (Member ''rel_uid'') NSC_INT 0 None EF_RELAT 0 CA_DUMP,
      sel ''timestamp'' (Member ''rel_timestamp'') NSC_TIME 0 None EF_BAD 0 CA_DUMP_NONE,
      sel ''relations'' (Member ''rel_relate'') NSC_UCHAR MAXNOC None EF_NATION_RELATIONS NSC_HIDDEN CA_DUMP]"

definition contact_ca :: "castr list" where
  "contact_ca =
     [sel ''uid'' (Member ''con_uid'') NSC_INT 0 None EF_CONTACT 0 CA_DUMP,
      sel ''timestamp'' (Member ''con_timestamp'') NSC_TIME 0 None EF_BAD 0 CA_DUMP_NONE,
      sel ''contacts'' (Member ''con_contact'') NSC_UCHAR MAXNOC None EF_BAD NSC_DEITY CA_DUMP]"

definition reject_ca :: "castr list" where
  "reject_ca =
     [sel ''uid'' (Member ''rej_uid'') NSC_INT 0 None EF_REJECT 0 CA_DUMP,
      sel ''timestamp'' (Member ''rej_timestamp'') NSC_TIME 0 None EF_BAD 0 CA_DUMP_NONE,
      sel ''rejects'' (Member ''rej_rejects'') NSC_UCHAR MAXNOC None EF_NATION_REJECTS NSC_BITS CA_DUMP]"

definition realm_ca :: "castr list" where
  "realm_ca =
     [sel ''timestamp'' (Member ''r_timestamp'') NSC_TIME 0 None EF_BAD 0 CA_DUMP_NONE,
      sel ''cnum'' (Member ''r_cnum'') NSC_NATID 0 None EF_NATION 0 CA_DUMP_CONST,
      sel ''realm'' (Member ''r_realm'') NSC_USHORT 0 None EF_BAD 0 CA_DUMP_CONST,
      sel ''xl'' (Member ''r_xl'') NSC_XCOORD 0 None EF_BAD 0 CA_DUMP,
      sel ''xh'' (Member ''r_xh'') NSC_XCOORD 0 None EF_BAD 0 CA_DUMP,
      sel ''yl'' (Member ''r_yl'') NSC_YCOORD 0 None EF_BAD 0 CA_DUMP,
      sel ''yh'' (Member ''r_yh'') NSC_YCOORD 0 None EF_BAD 0 CA_DUMP]"

definition game_ca :: "castr list" where
  "game_ca =
     [sel ''timestamp'' (Member ''game_timestamp'') NSC_TIME 0 None EF_BAD 0 CA_DUMP_NONE,
      sel ''upd_disable'' (Member ''game_upd_disable'') NSC_CHAR 0 None EF_BAD 0 CA_DUMP,
      sel ''down'' (Member ''game_down'') NSC_CHAR 0 None EF_BAD 0 CA_DUMP,
      sel ''turn'' (Member ''game_turn'') NSC_SHORT 0 None EF_BAD 0 CA_DUMP,
      sel ''tick'' (Member ''game_tick'') NSC_SHORT 0 None EF_BAD NSC_DEITY CA_DUMP,
      sel ''rt'' (Member ''game_rt'') NSC_TIME 0 None EF_BAD NSC_DEITY CA_DUMP]"

definition intrchr_ca :: "castr list" where
  "intrchr_ca =
     [sel ''name'' (Member ''in_name'') NSC_STRING 0 None EF_BAD 0 CA_DUMP_CONST]
     @ NSC_MVEC ''in_mat'' CA_DUMP_ONLY CA_DUMP_ONLY CA_DUMP_ONLY
     @ [sel ''bmobil'' (Member ''in_bmobil'') NSC_SHORT 0 None EF_BAD 0 CA_DUMP,
      sel ''cost'' (Member ''in_cost'') NSC_INT 0 None EF_BAD 0 CA_DUMP,
      sel ''enable'' (Member ''in_enable'') NSC_UCHAR 0 None EF_BAD 0 CA_DUMP]"

definition rpt_ca :: "castr list" where
  "rpt_ca =
     [sel ''uid'' (Member ''r_uid'') NSC_CHAR 0 None EF_NEWS_CHR 0 CA_DUMP,
      sel ''newstory'' (Member ''r_newstory'') NSC_STRING 2 None EF_BAD 0 CA_DUMP,
      sel ''good_will'' (Member ''r_good_will'') NSC_INT 0 None EF_BAD 0 CA_DUMP,
      sel ''newspage'' (Member ''r_newspage'') NSC_INT 0 None EF_PAGE_HEADINGS 0 CA_DUMP]"

definition update_ca :: "castr list" where
  "update_ca =
     [sel ''time'' Zero NSC_TIME 0 None EF_BAD 0 CA_DUMP]"

definition empfile_ca :: "castr list" where
  "empfile_ca =
     [sel ''uid'' (Member ''uid'') NSC_INT 0 None EF_TABLE 0 CA_DUMP,
      sel ''name'' (Member ''name'') NSC_STRING 0 None EF_BAD 0 CA_DUMP_CONST]"

definition symbol_ca :: "castr list" where
  "symbol_ca =
     [sel ''value'' (Member ''value'') NSC_INT 0 None EF_BAD 0 CA_DUMP_CONST,
      sel ''name'' (Member ''name'') NSC_STRING 0 None EF_BAD 0 CA_DUMP_CONST]"

definition mdchr_ca :: "castr list" where
  "mdchr_ca =
     [sel ''name'' (Member ''ca_name'') NSC_STRING 0 None EF_BAD 0 CA_DUMP_CONST,
      sel ''type'' (Member ''ca_type'') NSC_LONG 0 (Some nsc_meta_type) EF_META_TYPE 0 CA_DUMP_CONST,
      sel ''flags'' (Member ''ca_flags'') NSC_INT 0 None EF_META_FLAGS NSC_BITS CA_DUMP_CONST,
      sel ''len'' (Member ''ca_len'') NSC_LONG 0 (Some nsc_meta_len) EF_BAD 0 CA_DUMP_CONST,
      sel ''table'' (Member ''ca_table'') NSC_INT 0 None EF_TABLE 0 CA_DUMP_CONST]"

text \<open>The tables with selectors.\<close>

definition cadef :: "(table \<times> castr list) list" where
  "cadef =
     [(EF_SECTOR, sect_ca), (EF_SHIP, ship_ca), (EF_PLANE, plane_ca), (EF_LAND, land_ca), (EF_NUKE, nuke_ca), (EF_NEWS, news_ca),
      (EF_TRADE, trade_ca), (EF_NATION, nat_ca), (EF_RELAT, relat_ca), (EF_CONTACT, contact_ca), (EF_REJECT, reject_ca),
      (EF_LOAN, loan_ca), (EF_COMM, commodity_ca), (EF_LOST, lost_ca), (EF_REALM, realm_ca), (EF_GAME, game_ca), (EF_ITEM, ichr_ca),
      (EF_PRODUCT, pchr_ca), (EF_SECTOR_CHR, dchr_ca), (EF_SHIP_CHR, mchr_ca), (EF_PLANE_CHR, plchr_ca), (EF_LAND_CHR, lchr_ca),
      (EF_NUKE_CHR, nchr_ca), (EF_NEWS_CHR, rpt_ca), (EF_INFRASTRUCTURE, intrchr_ca), (EF_UPDATES, update_ca), (EF_TABLE, empfile_ca),
      (EF_META, mdchr_ca), (EF_COUNTRY, cou_ca)] @ map (\<lambda>t. (t, symbol_ca)) symbol_tables"

section \<open>What holds for all selectors\<close>

definition name_ok :: "string \<Rightarrow> bool" where
  "name_ok s \<longleftrightarrow> s \<noteq> [] \<and> isalpha (hd s) \<and> list_all (\<lambda>c. isalnum c \<or> c = CHR ''_'') s \<and> length s < 32"

lemmas table_defs = ichr_ca_def pchr_ca_def sect_ca_def dchr_ca_def ship_ca_def mchr_ca_def plane_ca_def plchr_ca_def land_ca_def lchr_ca_def nuke_ca_def nchr_ca_def loan_ca_def news_ca_def lost_ca_def commodity_ca_def trade_ca_def cou_ca_def relat_ca_def contact_ca_def reject_ca_def realm_ca_def game_ca_def intrchr_ca_def rpt_ca_def update_ca_def empfile_ca_def symbol_ca_def mdchr_ca_def NSC_IVEC_def NSC_IELT_def NSC_MVEC_def NSC_MELT_def NSC_GENITEM_def sel_def NSC_NATID_def

lemmas sel_ok_defs = ca_ok_def getter_type_def CA_IS_ARRAY_def NSC_HIDDEN_def NSC_DEITY_def NSC_BITS_def MAXNOC_def

lemma ichr_ca_types: "list_all ca_ok ichr_ca"
  by (simp add: table_defs sel_ok_defs)

lemma pchr_ca_types: "list_all ca_ok pchr_ca"
  by (simp add: table_defs sel_ok_defs)

lemma sect_ca_types: "list_all ca_ok sect_ca"
  by (simp add: table_defs sel_ok_defs)

lemma dchr_ca_types: "list_all ca_ok dchr_ca"
  by (simp add: table_defs sel_ok_defs)

lemma ship_ca_types: "list_all ca_ok ship_ca"
  by (simp add: table_defs sel_ok_defs)

lemma mchr_ca_types: "list_all ca_ok mchr_ca"
  by (simp add: table_defs sel_ok_defs)

lemma plane_ca_types: "list_all ca_ok plane_ca"
  by (simp add: table_defs sel_ok_defs)

lemma plchr_ca_types: "list_all ca_ok plchr_ca"
  by (simp add: table_defs sel_ok_defs)

lemma land_ca_types: "list_all ca_ok land_ca"
  by (simp add: table_defs sel_ok_defs)

lemma lchr_ca_types: "list_all ca_ok lchr_ca"
  by (simp add: table_defs sel_ok_defs)

lemma nuke_ca_types: "list_all ca_ok nuke_ca"
  by (simp add: table_defs sel_ok_defs)

lemma nchr_ca_types: "list_all ca_ok nchr_ca"
  by (simp add: table_defs sel_ok_defs)

lemma loan_ca_types: "list_all ca_ok loan_ca"
  by (simp add: table_defs sel_ok_defs)

lemma news_ca_types: "list_all ca_ok news_ca"
  by (simp add: table_defs sel_ok_defs)

lemma lost_ca_types: "list_all ca_ok lost_ca"
  by (simp add: table_defs sel_ok_defs)

lemma commodity_ca_types: "list_all ca_ok commodity_ca"
  by (simp add: table_defs sel_ok_defs)

lemma trade_ca_types: "list_all ca_ok trade_ca"
  by (simp add: table_defs sel_ok_defs)

lemma cou_ca_types: "list_all ca_ok cou_ca"
  by (simp add: table_defs sel_ok_defs)

lemma relat_ca_types: "list_all ca_ok relat_ca"
  by (simp add: table_defs sel_ok_defs)

lemma contact_ca_types: "list_all ca_ok contact_ca"
  by (simp add: table_defs sel_ok_defs)

lemma reject_ca_types: "list_all ca_ok reject_ca"
  by (simp add: table_defs sel_ok_defs)

lemma realm_ca_types: "list_all ca_ok realm_ca"
  by (simp add: table_defs sel_ok_defs)

lemma game_ca_types: "list_all ca_ok game_ca"
  by (simp add: table_defs sel_ok_defs)

lemma intrchr_ca_types: "list_all ca_ok intrchr_ca"
  by (simp add: table_defs sel_ok_defs)

lemma rpt_ca_types: "list_all ca_ok rpt_ca"
  by (simp add: table_defs sel_ok_defs)

lemma update_ca_types: "list_all ca_ok update_ca"
  by (simp add: table_defs sel_ok_defs)

lemma empfile_ca_types: "list_all ca_ok empfile_ca"
  by (simp add: table_defs sel_ok_defs)

lemma symbol_ca_types: "list_all ca_ok symbol_ca"
  by (simp add: table_defs sel_ok_defs)

lemma mdchr_ca_types: "list_all ca_ok mdchr_ca"
  by (simp add: table_defs sel_ok_defs)


lemma nat_ca_types: "list_all ca_ok nat_ca"
proof -
  have c: "\<forall>ca \<in> set cou_ca. ca_ok ca" using cou_ca_types by (simp add: list_all_iff)
  have h: "\<forall>ca \<in> set cou_ca. ca_flags ca \<in> {0, NSC_DEITY, NSC_BITS}"
    by (simp add: cou_ca_def NSC_NATID_def NSC_DEITY_def NSC_BITS_def sel_def)
  have "ca_ok (ca\<lparr>ca_dump := d\<rparr>)" if "ca_ok ca" for ca d
    using that by (cases "ca_get ca") (auto simp: ca_ok_def CA_IS_ARRAY_def split: option.splits)
  moreover have "ca_ok (ca\<lparr>ca_flags := or (ca_flags ca) NSC_DEITY\<rparr>)" if "ca \<in> set cou_ca" for ca
  proof -
    have "and (or (ca_flags ca) NSC_DEITY) NSC_HIDDEN = 0" using h that by (auto simp: NSC_DEITY_def NSC_HIDDEN_def NSC_BITS_def)
    then show ?thesis using c that by (cases "ca_get ca") (auto simp: ca_ok_def CA_IS_ARRAY_def split: option.splits)
  qed
  ultimately show ?thesis using c unfolding nat_ca_def list_all_iff by (auto dest: in_set_takeD in_set_dropD)
qed

lemmas name_defs = name_ok_def isalpha_def isalnum_def isdigit_def

text \<open>The names of a table are identifiers, short enough, and different.\<close>

definition names_ok :: "castr list \<Rightarrow> bool" where
  "names_ok cas \<longleftrightarrow> list_all name_ok (map ca_name cas) \<and> distinct (map ca_name cas)"

lemma ichr_ca_names: "names_ok ichr_ca"
  by (simp add: names_ok_def table_defs name_defs)

lemma pchr_ca_names: "names_ok pchr_ca"
  by (simp add: names_ok_def table_defs name_defs)

lemma sect_ca_names: "names_ok sect_ca"
  by (simp add: names_ok_def table_defs name_defs)

lemma dchr_ca_names: "names_ok dchr_ca"
  by (simp add: names_ok_def table_defs name_defs)

lemma ship_ca_names: "names_ok ship_ca"
  by (simp add: names_ok_def table_defs name_defs)

lemma mchr_ca_names: "names_ok mchr_ca"
  by (simp add: names_ok_def table_defs name_defs)

lemma plane_ca_names: "names_ok plane_ca"
  by (simp add: names_ok_def table_defs name_defs)

lemma plchr_ca_names: "names_ok plchr_ca"
  by (simp add: names_ok_def table_defs name_defs)

lemma land_ca_names: "names_ok land_ca"
  by (simp add: names_ok_def table_defs name_defs)

lemma lchr_ca_names: "names_ok lchr_ca"
  by (simp add: names_ok_def table_defs name_defs)

lemma nuke_ca_names: "names_ok nuke_ca"
  by (simp add: names_ok_def table_defs name_defs)

lemma nchr_ca_names: "names_ok nchr_ca"
  by (simp add: names_ok_def table_defs name_defs)

lemma loan_ca_names: "names_ok loan_ca"
  by (simp add: names_ok_def table_defs name_defs)

lemma news_ca_names: "names_ok news_ca"
  by (simp add: names_ok_def table_defs name_defs)

lemma lost_ca_names: "names_ok lost_ca"
  by (simp add: names_ok_def table_defs name_defs)

lemma commodity_ca_names: "names_ok commodity_ca"
  by (simp add: names_ok_def table_defs name_defs)

lemma trade_ca_names: "names_ok trade_ca"
  by (simp add: names_ok_def table_defs name_defs)

lemma cou_ca_names: "names_ok cou_ca"
  by (simp add: names_ok_def table_defs name_defs)

lemma relat_ca_names: "names_ok relat_ca"
  by (simp add: names_ok_def table_defs name_defs)

lemma contact_ca_names: "names_ok contact_ca"
  by (simp add: names_ok_def table_defs name_defs)

lemma reject_ca_names: "names_ok reject_ca"
  by (simp add: names_ok_def table_defs name_defs)

lemma realm_ca_names: "names_ok realm_ca"
  by (simp add: names_ok_def table_defs name_defs)

lemma game_ca_names: "names_ok game_ca"
  by (simp add: names_ok_def table_defs name_defs)

lemma intrchr_ca_names: "names_ok intrchr_ca"
  by (simp add: names_ok_def table_defs name_defs)

lemma rpt_ca_names: "names_ok rpt_ca"
  by (simp add: names_ok_def table_defs name_defs)

lemma update_ca_names: "names_ok update_ca"
  by (simp add: names_ok_def table_defs name_defs)

lemma empfile_ca_names: "names_ok empfile_ca"
  by (simp add: names_ok_def table_defs name_defs)

lemma symbol_ca_names: "names_ok symbol_ca"
  by (simp add: names_ok_def table_defs name_defs)

lemma mdchr_ca_names: "names_ok mdchr_ca"
  by (simp add: names_ok_def table_defs name_defs)

lemma nat_ca_names: "names_ok nat_ca"
proof -
  have "map ca_name nat_ca = map ca_name (take 2 cou_ca) @ map ca_name (drop 2 cou_ca)" by (simp add: nat_ca_def)
  also have "\<dots> = map ca_name cou_ca" by (metis append_take_drop_id map_append)
  finally show ?thesis using cou_ca_names by (simp add: names_ok_def)
qed

lemma names_ok_selector_name: "names_ok cas \<Longrightarrow> k < length cas \<Longrightarrow> selector_name cas k"
proof -
  assume n: "names_ok cas" and k: "k < length cas"
  have i: "name_ok (ca_name (cas ! j))" if "j < length cas" for j
    using n that by (simp add: names_ok_def list_all_length)
  have "CHR '' '' \<notin> set (ca_name (cas ! j))" if "j < length cas" for j
    using i [OF that] by (auto simp: name_ok_def list_all_iff isalnum_def isalpha_def isdigit_def)
  moreover have "ca_name (cas ! j) \<noteq> ca_name (cas ! k)" if "j < k" for j
    using n k that unfolding names_ok_def by (metis (no_types, lifting) distinct_conv_nth length_map nat_less_le nth_map order.strict_trans)
  moreover have "\<forall>c \<in> set (tl (ca_name (cas ! k))). isalnum c \<or> c = CHR ''_''"
    using i [OF k] by (auto simp: name_ok_def list_all_iff dest: list.set_sel(2) [rotated])
  ultimately show ?thesis using i [OF k] k by (auto simp: selector_name_def name_ok_def)
qed

lemmas all_ca_types = ichr_ca_types pchr_ca_types sect_ca_types dchr_ca_types ship_ca_types mchr_ca_types plane_ca_types plchr_ca_types land_ca_types lchr_ca_types nuke_ca_types nchr_ca_types loan_ca_types news_ca_types lost_ca_types commodity_ca_types trade_ca_types cou_ca_types relat_ca_types contact_ca_types reject_ca_types realm_ca_types game_ca_types intrchr_ca_types rpt_ca_types update_ca_types empfile_ca_types symbol_ca_types mdchr_ca_types nat_ca_types
lemmas all_ca_names = ichr_ca_names pchr_ca_names sect_ca_names dchr_ca_names ship_ca_names mchr_ca_names plane_ca_names plchr_ca_names land_ca_names lchr_ca_names nuke_ca_names nchr_ca_names loan_ca_names news_ca_names lost_ca_names commodity_ca_names trade_ca_names cou_ca_names relat_ca_names contact_ca_names reject_ca_names realm_ca_names game_ca_names intrchr_ca_names rpt_ca_names update_ca_names empfile_ca_names symbol_ca_names mdchr_ca_names nat_ca_names

lemma cadef_ok:
  assumes "(t, cas) \<in> set cadef"
  shows "\<forall>ca \<in> set cas. ca_ok ca" and "names_ok cas"
proof -
  have "\<forall>(t, cas) \<in> set cadef. list_all ca_ok cas \<and> names_ok cas"
    by (simp add: cadef_def all_ca_types all_ca_names)
  then show "\<forall>ca \<in> set cas. ca_ok ca" and "names_ok cas" using assms by (auto simp: list_all_iff)
qed

section \<open>What conditions mean\<close>

lemma mksymval_reads:
  assumes "ca_get ca = None" "\<not> CA_IS_ARRAY ca" "ca_ok ca"
    and r: "nstr_read env cnum ptr (ca_type ca) \<lparr>off = ca_off ca, len = ca_len ca, idx = 0, get = None, hidden = False\<rparr> = Some (t, a)"
    and "NSC_IS_PROMOTED t"
  shows "nstr_eval env (nstr_mksymval ca 0) cnum ptr t = Some \<lparr>val_type = t, val_cat = NSC_VAL, val_as = a\<rparr>"
proof -
  have "and (ca_flags ca) NSC_HIDDEN = 0" using assms(2,3) by (auto simp: ca_ok_def)
  then show ?thesis using assms(1,5) r by (simp add: nstr_eval_def nstr_mksymval_def nstr_hide_def nstr_coerce_def)
qed

text \<open>What a player sees of a member that is a number.\<close>

definition shown_number :: "('o, 'd) objects \<Rightarrow> int \<Rightarrow> castr \<Rightarrow> 'o \<Rightarrow> int" where
  "shown_number env cnum ca ptr =
     (let m = ob_int env (ca_type ca) ptr (ca_off ca) 0
      in if ca_type ca \<in> {NSC_XCOORD, NSC_YCOORD} then rel_coord env cnum (ca_type ca) m else m)"

definition shown_text :: "('o, 'd) objects \<Rightarrow> castr \<Rightarrow> 'o \<Rightarrow> string" where
  "shown_text env ca ptr =
     (if ca_type ca = NSC_STRINGY then cstring (ob_chars env ptr (ca_off ca)) (ca_len ca) else cstring (ob_ptr env ptr (ca_off ca) 0) INT_MAX)"

lemma comp_single:
  assumes "(t, cas) \<in> set cadef" "k < length cas" "0 < n"
    and "\<not> CA_IS_ARRAY (cas ! k)" "and (ca_flags (cas ! k)) NSC_DEITY = 0 \<or> god" "opr \<in> {CHR ''<'', CHR ''='', CHR ''>'', CHR ''#''}"
    and "txt \<noteq> []" "nstr_parse_val strtod txt = (v, [])" "val_cat v = NSC_VAL"
    and "nstr_optype (ca_type (cas ! k)) (val_type v) = ty" "ty \<noteq> NSC_NOTYPE"
  shows "nstr_comp nm god strtod n cas (ca_name (cas ! k) @ opr # txt) = Inr [\<lparr>operator = opr, optype = ty, lft = nstr_mksymval (cas ! k) 0, rgt = v\<rparr>]"
  using comp_name [OF names_ok_selector_name [OF cadef_ok(2) [OF assms(1)] assms(2)] assms(4-11), of nm] assms(3)
  by (simp add: nstr_comp_def)

lemma exec_single:
  assumes "nstr_eval env l cnum ptr ty = Some \<lparr>val_type = ty, val_cat = NSC_VAL, val_as = a\<rparr>"
    and "nstr_eval env r cnum ptr ty = Some \<lparr>val_type = ty, val_cat = NSC_VAL, val_as = b\<rparr>"
    and "val_cat l \<noteq> NSC_NOCAT" "val_cat r \<noteq> NSC_NOCAT"
  shows "nstr_exec env cnum [\<lparr>operator = opr, optype = ty, lft = l, rgt = r\<rparr>] ptr = nstr_compare env opr a b ty"
  using assms by (cases "nstr_compare env opr a b ty") auto

lemma number_condition_means:
  fixes env :: "('o, 'd) objects"
  assumes t: "(t, cas) \<in> set cadef" "k < length cas" "\<not> CA_IS_ARRAY (cas ! k)" "ca_get (cas ! k) = None"
    and ty: "nstr_promote (ca_type (cas ! k)) = NSC_LONG" and acc: "and (ca_flags (cas ! k)) NSC_DEITY = 0 \<or> god"
    and n: "0 < n" and opr: "opr \<in> {CHR ''<'', CHR ''='', CHR ''>'', CHR ''#''}"
    and ds: "ds \<noteq> []" "\<forall>c \<in> set ds. isdigit c" "hd ds \<noteq> CHR ''0''" "snd (strtod ds) \<le> length ds"
  shows "\<exists>cs. nstr_comp nm god strtod n cas (ca_name (cas ! k) @ opr # ds) = Inr cs \<and>
    nstr_exec env cnum cs ptr =
      (let m = shown_number env cnum (cas ! k) ptr; v = clamp_long (number_of_digits 10 ds) in eval_op opr (m < v) (m = v) (m > v))"
proof -
  let ?v = "clamp_long (number_of_digits 10 ds)"
  have ca: "ca_ok (cas ! k)" using cadef_ok(1) [OF t(1)] t(2) by simp
  note p = parse_number [where strtod = strtod, OF ds]
  have c: "nstr_comp nm god strtod n cas (ca_name (cas ! k) @ opr # ds) =
      Inr [\<lparr>operator = opr, optype = NSC_LONG, lft = nstr_mksymval (cas ! k) 0, rgt = \<lparr>val_type = NSC_LONG, val_cat = NSC_VAL, val_as = Lng ?v\<rparr>\<rparr>]"
    by (rule comp_single [OF t(1,2) n t(3) acc opr ds(1) p]) (simp_all add: nstr_optype_def ty)
  have "nstr_eval env (nstr_mksymval (cas ! k) 0) cnum ptr NSC_LONG =
      Some \<lparr>val_type = NSC_LONG, val_cat = NSC_VAL, val_as = Lng (shown_number env cnum (cas ! k) ptr)\<rparr>"
    by (rule mksymval_reads [OF t(4,3) ca])
      (use ty in \<open>cases "ca_type (cas ! k)"; simp add: nstr_read_def shown_number_def NSC_IS_PROMOTED_def\<close>)+
  then have "nstr_exec env cnum [\<lparr>operator = opr, optype = NSC_LONG, lft = nstr_mksymval (cas ! k) 0,
      rgt = \<lparr>val_type = NSC_LONG, val_cat = NSC_VAL, val_as = Lng ?v\<rparr>\<rparr>] ptr =
      nstr_compare env opr (Lng (shown_number env cnum (cas ! k) ptr)) (Lng ?v) NSC_LONG"
    by (rule exec_single) (simp_all add: nstr_mksymval_def nstr_eval_def nstr_coerce_def NSC_IS_PROMOTED_def)
  then show ?thesis using c by (simp add: nstr_compare_def Let_def)
qed

lemma text_condition_means:
  fixes env :: "('o, 'd) objects"
  assumes t: "(t, cas) \<in> set cadef" "k < length cas" "\<not> CA_IS_ARRAY (cas ! k)" "ca_get (cas ! k) = None"
    and ty: "nstr_promote (ca_type (cas ! k)) = NSC_STRING" and acc: "and (ca_flags (cas ! k)) NSC_DEITY = 0 \<or> god"
    and n: "0 < n" and w: "CHR 0x27 \<notin> set w" "CHR 0x00 \<notin> set w" and s: "strings_ok env cas"
  shows "\<exists>cs. nstr_comp nm god strtod n cas (ca_name (cas ! k) @ CHR ''='' # CHR 0x27 # w @ [CHR 0x27]) = Inr cs \<and>
    nstr_exec env cnum cs ptr = Some (shown_text env (cas ! k) ptr = w)"
proof -
  let ?b = "w @ [CHR 0x27, CHR 0x00]"
  let ?r = "\<lparr>val_type = NSC_STRING, val_cat = NSC_VAL, val_as = Str ?b (length w)\<rparr> :: 'd valstr"
  have ca: "ca_ok (cas ! k)" using cadef_ok(1) [OF t(1)] t(2) by simp
  note p = parse_literal [OF w(1), of strtod]
  have c: "nstr_comp nm god strtod n cas (ca_name (cas ! k) @ CHR ''='' # CHR 0x27 # w @ [CHR 0x27]) =
      Inr [\<lparr>operator = CHR ''='', optype = NSC_STRING, lft = nstr_mksymval (cas ! k) 0, rgt = ?r\<rparr>]"
    by (rule comp_single [OF t(1,2) n t(3) acc _ _ p]) (simp_all add: nstr_optype_def ty)
  obtain u m where e: "nstr_read env cnum ptr (ca_type (cas ! k))
        \<lparr>off = ca_off (cas ! k), len = ca_len (cas ! k), idx = 0, get = None, hidden = False\<rparr> = Some (NSC_STRING, Str u m)"
      "readable u m" "cstring u m = shown_text env (cas ! k) ptr"
  proof (cases "ca_type (cas ! k) = NSC_STRINGY")
    case True
    then show ?thesis using s t(2) by (intro that) (auto simp: nstr_read_def shown_text_def strings_ok_def readable_def)
  next
    case False
    then have "ca_type (cas ! k) = NSC_STRING" using ty by (cases "ca_type (cas ! k)") auto
    then show ?thesis using s by (intro that) (auto simp: nstr_read_def shown_text_def strings_ok_def readable_def)
  qed
  have "nstr_eval env (nstr_mksymval (cas ! k) 0) cnum ptr NSC_STRING = Some \<lparr>val_type = NSC_STRING, val_cat = NSC_VAL, val_as = Str u m\<rparr>"
    by (rule mksymval_reads [OF t(4,3) ca e(1)]) (simp add: NSC_IS_PROMOTED_def)
  then have x: "nstr_exec env cnum [\<lparr>operator = CHR ''='', optype = NSC_STRING, lft = nstr_mksymval (cas ! k) 0, rgt = ?r\<rparr>] ptr =
      nstr_compare env (CHR ''='') (Str u m) (Str ?b (length w)) NSC_STRING"
    by (rule exec_single) (simp_all add: nstr_mksymval_def nstr_eval_def nstr_coerce_def NSC_IS_PROMOTED_def)
  obtain r where "strnncmp u m ?b (length w) = Some r" "r = 0 \<longleftrightarrow> w = cstring u m"
    using strnncmp_literal(2) [of "length w" ?b u m] w(2) e(2) by auto
  then show ?thesis using c x e(3) by (auto simp: nstr_compare_def eval_op_def)
qed

lemma strnncmp_reads_behind: "strnncmp (''ab'' @ [CHR 0x00, CHR ''x'']) 4 (''ab'' @ [CHR 0x00]) 3 \<noteq> Some 0"
  by code_simp

lemma ybuy_is_no_y: "map ca_type (filter (\<lambda>ca. ca_name ca = ''ybuy'') commodity_ca) = [NSC_XCOORD]"
  by code_simp

section \<open>An example\<close>

text \<open>A game with one kind of object: the characters at a member are \<open>ab\<close> or \<open>x\<close>, and every number is the object.\<close>

definition example_names :: names where
  "example_names = \<lparr>nm_nats = [(False, ''POGO''), (False, ''1''), (False, ''12'')], nm_dchr = ''.^cx'', nm_tab = (\<lambda>t. [''civilian'', ''military''])\<rparr>"

definition example_objects :: "(int, int) objects" where
  "example_objects =
     \<lparr>ob_int = \<lambda>t x offs i. x, ob_dbl = \<lambda>t x offs i. x, ob_chars = \<lambda>x offs. ''x'' @ replicate 99 (CHR 0x00), ob_ptr = \<lambda>x offs i. ''ab'' @ [CHR 0x00],
      ob_lng = \<lambda>g x. x, ob_att = \<lambda>g x. x, ob_lchr = \<lambda>x. x, ob_key = int, ob_rel = \<lambda>x. None, d_of_long = \<lambda>n. n, d_less = (<), d_eq = (=),
      en_version = ''4.4'', en_maxnoc = 99, en_world = \<lparr>world_x = 64, world_y = 32\<rparr>, en_orig = \<lambda>c. \<lparr>nat_xorg = 0, nat_yorg = 0\<rparr>,
      en_god = \<lambda>c. c = 0, en_contact = \<lambda>c d. True, opt_HIDDEN = False\<rparr>"

definition example_conditions :: "int nscstr list" where
  "example_conditions =
     [\<lparr>operator = CHR ''='', optype = NSC_STRING, lft = nstr_mksymval (ichr_ca ! 2) 0,
       rgt = \<lparr>val_type = NSC_STRING, val_cat = NSC_VAL, val_as = Str (''x&lbs<5'' @ [CHR 0x00]) 1\<rparr>\<rparr>,
      \<lparr>operator = CHR ''<'', optype = NSC_LONG, lft = nstr_mksymval (ichr_ca ! 5) 0,
       rgt = \<lparr>val_type = NSC_LONG, val_cat = NSC_VAL, val_as = Lng 5\<rparr>\<rparr>]"

lemma example_compiles: "nstr_comp example_names False (\<lambda>s. (0, 0)) 8 ichr_ca ''mnem=x&lbs<5'' = Inr example_conditions"
  by code_simp

lemma example_strings: "strings_ok example_objects ichr_ca"
  by (simp add: strings_ok_def example_objects_def ichr_ca_def sel_def)

section \<open>Properties\<close>

text \<open>C32. A condition that compiled for a table of the game, with at most one selector of each comparison of texts, is executed without
  a report: every operand has the type that was compiled, and no text is read behind its end.\<close>

theorem conditions_execute:
  fixes env :: "('o, 'd) objects"
  assumes "(t, cas) \<in> set cadef" "nstr_comp nm god strtod n cas str = Inr cs" "CHR 0x00 \<notin> set str" "strings_ok env cas"
    and "\<forall>c \<in> set cs. literal_text c"
  shows "\<exists>b. nstr_exec env cnum cs ptr = Some b"
  using exec_runs [of cs god cas env cnum ptr] comp_ok [OF assms(2,3)] cadef_ok(1) [OF assms(1)] assms(4,5) by blast

lemma conditions_execute_witness: "\<exists>b. nstr_exec example_objects 1 example_conditions 4 = Some b"
proof (rule conditions_execute)
  show "(EF_ITEM, ichr_ca) \<in> set cadef" by (simp add: cadef_def)
  show "nstr_comp example_names False (\<lambda>s. (0, 0)) 8 ichr_ca ''mnem=x&lbs<5'' = Inr example_conditions" by (rule example_compiles)
  show "strings_ok example_objects ichr_ca" by (rule example_strings)
qed (simp_all add: example_conditions_def literal_text_def)

text \<open>C31. A condition compiled for a player who is no deity only looks at selectors that are not for deities, and never at an array.\<close>

theorem mortal_conditions_accessible:
  assumes "nstr_comp nm False strtod n cas str = Inr cs" "CHR 0x00 \<notin> set str" "c \<in> set cs" "v \<in> {lft c, rgt c}" "val_cat v \<noteq> NSC_VAL"
  shows "\<exists>ca \<in> set cas. v = nstr_mksymval ca 0 \<and> and (ca_flags ca) NSC_DEITY = 0 \<and> \<not> CA_IS_ARRAY ca"
  using comp_ok [OF assms(1,2)] assms(3-5) by (auto simp: cond_ok_def operand_from_def)

lemma mortal_conditions_accessible_witness:
  "\<exists>ca \<in> set ichr_ca. lft (hd example_conditions) = nstr_mksymval ca 0 \<and> and (ca_flags ca) NSC_DEITY = 0 \<and> \<not> CA_IS_ARRAY ca"
  by (rule mortal_conditions_accessible [OF example_compiles, of "hd example_conditions"]) (simp_all add: example_conditions_def nstr_mksymval_def)

text \<open>The full name of a selector for a number, an operator and a decimal number compile, and the condition compares what the
  player may see of that member with that number.\<close>

theorem number_condition:
  fixes env :: "('o, 'd) objects"
  assumes "(t, cas) \<in> set cadef" "k < length cas" "\<not> CA_IS_ARRAY (cas ! k)" "ca_get (cas ! k) = None"
    and "nstr_promote (ca_type (cas ! k)) = NSC_LONG" "and (ca_flags (cas ! k)) NSC_DEITY = 0 \<or> god" "0 < n"
    and "opr \<in> {CHR ''<'', CHR ''='', CHR ''>'', CHR ''#''}"
    and "ds \<noteq> []" "\<forall>c \<in> set ds. isdigit c" "hd ds \<noteq> CHR ''0''" "snd (strtod ds) \<le> length ds"
  shows "\<exists>cs. nstr_comp nm god strtod n cas (ca_name (cas ! k) @ opr # ds) = Inr cs \<and>
    nstr_exec env cnum cs ptr =
      (let m = shown_number env cnum (cas ! k) ptr; v = clamp_long (number_of_digits 10 ds) in eval_op opr (m < v) (m = v) (m > v))"
  by (rule number_condition_means [where strtod = strtod, OF assms])

lemma number_condition_witness:
  "\<exists>cs. nstr_comp example_names False (\<lambda>s. (0, 0)) 1 ichr_ca (ca_name (ichr_ca ! 5) @ CHR ''<'' # ''12'') = Inr cs \<and>
    nstr_exec example_objects 1 cs 4 =
      (let m = shown_number example_objects 1 (ichr_ca ! 5) 4; v = clamp_long (number_of_digits 10 ''12'')
       in eval_op (CHR ''<'') (m < v) (m = v) (m > v))"
  by (rule number_condition [of EF_ITEM]) (simp_all add: cadef_def ichr_ca_def sel_def CA_IS_ARRAY_def isdigit_def)

text \<open>C33. The full name of a selector for a text, \<open>=\<close> and a text in quotes compile, and the condition holds just for the objects
  with that very text.\<close>

theorem text_condition:
  fixes env :: "('o, 'd) objects"
  assumes "(t, cas) \<in> set cadef" "k < length cas" "\<not> CA_IS_ARRAY (cas ! k)" "ca_get (cas ! k) = None"
    and "nstr_promote (ca_type (cas ! k)) = NSC_STRING" "and (ca_flags (cas ! k)) NSC_DEITY = 0 \<or> god" "0 < n"
    and "CHR 0x27 \<notin> set w" "CHR 0x00 \<notin> set w" "strings_ok env cas"
  shows "\<exists>cs. nstr_comp nm god strtod n cas (ca_name (cas ! k) @ CHR ''='' # CHR 0x27 # w @ [CHR 0x27]) = Inr cs \<and>
    nstr_exec env cnum cs ptr = Some (shown_text env (cas ! k) ptr = w)"
  by (rule text_condition_means [OF assms])

lemma text_condition_witness:
  "\<exists>cs. nstr_comp example_names False (\<lambda>s. (0, 0)) 1 ichr_ca (ca_name (ichr_ca ! 2) @ CHR ''='' # CHR 0x27 # ''x'' @ [CHR 0x27]) = Inr cs \<and>
    nstr_exec example_objects 1 cs 4 = Some (shown_text example_objects (ichr_ca ! 2) 4 = ''x'')"
  by (rule text_condition [of EF_ITEM])
    (simp_all add: cadef_def example_strings, simp_all add: ichr_ca_def sel_def CA_IS_ARRAY_def)

end
