(* ===== verification/Selection.thy ===== *)
theory Selection
  imports Cargo SelTables FileTable
begin

text \<open>
  Selecting sectors and items: how the text of a selection is read (\<open>src/lib/subs/sarg.c\<close>, \<open>strtox\<close> and \<open>strtoy\<close> of
  \<open>src/lib/common/xy.c\<close>, \<open>src/lib/subs/natarg.c\<close>), and the iterators over what is selected (\<open>src/lib/subs/snxtsct.c\<close>, \<open>nxtsct.c\<close>,
  \<open>snxtitem.c\<close>, \<open>nxtitem.c\<close>). An iterator reads elements through \<open>rd\<close>, which is \<open>ef_read\<close> of the table; conditions are
  compiled and executed as in \<open>Selector\<close>. None as the result of a step stands for a report by \<open>CANT_HAPPEN\<close>, or for what C leaves undefined.
\<close>

section \<open>Reading selections\<close>

text \<open>\<open>strtol\<close> of the C library with base 10: the value, how many characters it has read, and whether the value is out of range.\<close>

definition strtol10 :: "string \<Rightarrow> int \<times> nat \<times> bool" where
  "strtol10 s =
     (let sp = length (takeWhile isspace s);
          s1 = drop sp s;
          sg = (if s1 \<noteq> [] \<and> hd s1 \<in> {CHR ''+'', CHR ''-''} then 1 else 0);
          ds = takeWhile isdigit (drop sg s1);
          n = (if sg = 1 \<and> hd s1 = CHR ''-'' then - number_of_digits 10 ds else number_of_digits 10 ds)
      in if ds = [] then (0, 0, False) else (clamp_long n, sp + sg + length ds, clamp_long n \<noteq> n))"

definition strtox :: "world \<Rightarrow> string \<Rightarrow> int \<times> string" where
  "strtox w str = (case strtol10 str of (l, n, erange) \<Rightarrow> (if n = 0 \<or> erange then - 1 else to_coord (XNORM w l), drop n str))"

definition strtoy :: "world \<Rightarrow> string \<Rightarrow> int \<times> string" where
  "strtoy w str = (case strtol10 str of (l, n, erange) \<Rightarrow> (if n = 0 \<or> erange then - 1 else to_coord (YNORM w l), drop n str))"

datatype ns_seltype = NS_UNDEF | NS_LIST | NS_DIST | NS_AREA | NS_ALL | NS_XY | NS_GROUP | NS_CARGO

text \<open>The character at the start of a string, zero at its end.\<close>

definition ch :: "string \<Rightarrow> char" where
  "ch s = (if s = [] then CHR 0x00 else hd s)"

definition sarg_type :: "string \<Rightarrow> ns_seltype" where
  "sarg_type str =
     (if ch str = CHR ''@'' then NS_DIST
      else if ch str = CHR ''*'' then NS_ALL
      else if ch str = CHR ''#'' \<or> CHR '','' \<in> set str then NS_AREA
      else if isdigit (ch str) then NS_LIST
      else if ch str = CHR ''~'' \<or> isalpha (ch str) then NS_GROUP
      else NS_UNDEF)"

definition at_end :: "string \<Rightarrow> bool" where
  "at_end s \<longleftrightarrow> s = [] \<or> isspace (hd s)"

text \<open>The results of these functions are absolute coordinates; \<open>np\<close> is the origin of the player's country.\<close>

definition sarg_xy :: "world \<Rightarrow> natorg \<Rightarrow> string \<Rightarrow> (int \<times> int) option" where
  "sarg_xy w np str =
     (let (x, str) = strtox w str
      in if x < 0 \<or> ch str \<noteq> CHR '','' then None
         else let (y, str) = strtoy w (tl str)
              in if y < 0 \<or> \<not> at_end str \<or> odd x \<noteq> odd y then None
                 else Some (xabs w np x, yabs w np y))"

definition MAXNOR :: int where "MAXNOR = 50"

text \<open>A range to an upper bound after a colon, if there is one.\<close>

definition sarg_upto :: "(string \<Rightarrow> int \<times> string) \<Rightarrow> string \<Rightarrow> (int \<times> int \<times> string) option" where
  "sarg_upto strtoc str =
     (let (l, str) = strtoc str
      in if l < 0 then None
         else if ch str = CHR '':'' then let (h, str) = strtoc (tl str) in if h < 0 then None else Some (l, h, str)
         else Some (l, l, str))"

text \<open>\<open>realm\<close> gives the corners of the player's realm with a number.\<close>

definition sarg_area :: "world \<Rightarrow> natorg \<Rightarrow> (int \<Rightarrow> range) \<Rightarrow> string \<Rightarrow> range option" where
  "sarg_area w np realm str =
     (if ch str = CHR ''#'' then
        let (rlm, n, erange) = (if tl str = [] then (0, 1, False) else strtol10 (tl str))
        in if n = 0 \<or> (tl str \<noteq> [] \<and> \<not> at_end (drop n (tl str))) \<or> rlm < 0 \<or> MAXNOR \<le> rlm then None
           else Some (xysize_range w (realm rlm))
      else case sarg_upto (strtox w) str of
             None \<Rightarrow> None
           | Some (xl, xh, str) \<Rightarrow>
               if ch str \<noteq> CHR '','' then None
               else case sarg_upto (strtoy w) (tl str) of
                      None \<Rightarrow> None
                    | Some (yl, yh, str) \<Rightarrow>
                        if \<not> at_end str then None
                        else Some (xysize_range w \<lparr>lx = xabs w np xl, ly = yabs w np yl, hx = xabs w np xh, hy = yabs w np yh,
                                                   width = 0, height = 0\<rparr>))"

text \<open>A distance is read as a \<open>long\<close> and stored as an \<open>int\<close>.\<close>

definition to_int :: "int \<Rightarrow> int" where
  "to_int n = signed_take_bit 31 n"

definition sarg_range :: "world \<Rightarrow> natorg \<Rightarrow> string \<Rightarrow> (int \<times> int \<times> int) option" where
  "sarg_range w np str =
     (if ch str \<noteq> CHR ''@'' then None
      else let (x, str) = strtox w (tl str)
           in if x < 0 \<or> ch str \<noteq> CHR '','' then None
              else let (y, str) = strtoy w (tl str)
                   in if y < 0 \<or> ch str \<noteq> CHR '':'' then None
                      else let (d, n, erange) = strtol10 (tl str)
                           in if n = 0 \<or> \<not> at_end (drop n (tl str)) \<or> d < 0 then None
                              else Some (xabs w np x, yabs w np y, to_int d))"

lemma strtol10_shorter: "strtol10 s = (l, n, e) \<Longrightarrow> n \<le> length s"
proof -
  assume s: "strtol10 s = (l, n, e)"
  let ?sp = "length (takeWhile isspace s)"
  let ?s1 = "drop ?sp s"
  let ?sg = "if ?s1 \<noteq> [] \<and> hd ?s1 \<in> {CHR ''+'', CHR ''-''} then 1 else 0 :: nat"
  have "?sp \<le> length s" by (rule length_takeWhile_le)
  moreover have "?sg \<le> length ?s1" by (cases ?s1) auto
  moreover have "length (takeWhile isdigit (drop ?sg ?s1)) \<le> length (drop ?sg ?s1)" by (rule length_takeWhile_le)
  moreover have "n = 0 \<or> n = ?sp + ?sg + length (takeWhile isdigit (drop ?sg ?s1))"
    using s unfolding strtol10_def Let_def by (auto split: if_splits)
  ultimately show ?thesis by (auto simp: length_drop)
qed

text \<open>The loop of \<open>sarg_list\<close>: the list so far, and the text from the next identifier on.\<close>

function sarg_list_loop :: "int list \<Rightarrow> string \<Rightarrow> nat \<Rightarrow> int list option" where
  "sarg_list_loop list str mx =
     (let (n, k, erange) = strtol10 str
      in if k = 0 \<or> n < 0 then None
         else if n \<notin> set list \<and> length list \<ge> mx then None
         else let list = (if n \<in> set list then list else list @ [to_int n]); str = drop k str
              in if ch str = CHR ''/'' then sarg_list_loop list (tl str) mx
                 else if at_end str then Some list
                 else None)"
  by pat_completeness auto
termination
proof (relation "measure (\<lambda>(list, str, mx). length str)", goal_cases)
  case (2 list str mx p n q k e list' str')
  then have "str' \<noteq> []" by (auto simp: ch_def)
  then have "length (tl str') < length str'" by (cases str') auto
  also have "\<dots> \<le> length str" using 2 by simp
  finally show ?case by simp
qed simp

declare sarg_list_loop.simps [simp del]

definition sarg_list :: "string \<Rightarrow> nat \<Rightarrow> int list option" where
  "sarg_list str mx = sarg_list_loop [] str mx"

text \<open>A country argument: what the text \<open>arg\<close> names. The tests of \<open>natarg\<close> come after those of \<open>natargp\<close>.\<close>

definition natargp :: "names \<Rightarrow> string \<Rightarrow> int option" where
  "natargp nm arg =
     (let n = (if isdigit (ch arg) then (case strtol10 arg of (n, _) \<Rightarrow> to_int n) else cnumb nm arg)
      in if n < 0 \<or> n \<ge> int (length (nm_nats nm)) \<or> fst (nm_nats nm ! nat n) then None else Some n)"

definition natarg :: "names \<Rightarrow> ('o, 'd) objects \<Rightarrow> int \<Rightarrow> string \<Rightarrow> int" where
  "natarg nm env cnum arg =
     (case natargp nm arg of
        None \<Rightarrow> - 1
      | Some n \<Rightarrow> if opt_HIDDEN env \<and> \<not> en_god env cnum \<and> \<not> en_contact env cnum n \<and> \<not> en_god env n then - 1 else n)"

section \<open>Selecting sectors\<close>

definition NS_LSIZE :: nat where "NS_LSIZE = 128"
definition NS_NCOND :: nat where "NS_NCOND = 16"

record 'd nstr_sect =
  s_x :: int
  s_y :: int
  s_dx :: int
  s_dy :: int
  s_id :: int
  s_type :: ns_seltype
  s_curdist :: int
  s_range :: range
  s_dist :: int
  s_cx :: int
  s_cy :: int
  s_cond :: "'d nscstr list"

text \<open>The player: the country and what follows \<open>?\<close> in the command, if anything.\<close>

record player_sel =
  p_cnum :: int
  p_condarg :: "string option"

definition snxtsct_area :: "range \<Rightarrow> 'd nstr_sect" where
  "snxtsct_area r =
     \<lparr>s_x = lx r - 1, s_y = ly r, s_dx = - 1, s_dy = 0, s_id = 0, s_type = NS_AREA, s_curdist = 0, s_range = r, s_dist = 0,
      s_cx = 0, s_cy = 0, s_cond = []\<rparr>"

definition snxtsct_dist :: "world \<Rightarrow> int \<Rightarrow> int \<Rightarrow> int \<Rightarrow> 'd nstr_sect option" where
  "snxtsct_dist w cx cy dist =
     map_option (\<lambda>r.
         \<lparr>s_x = lx r - 1, s_y = ly r, s_dx = - 1, s_dy = 0, s_id = 0, s_type = NS_DIST, s_curdist = 0, s_range = r, s_dist = dist,
          s_cx = cx, s_cy = cy, s_cond = []\<rparr>)
       (xydist_range w cx cy dist)"

definition snxtsct_all :: "world \<Rightarrow> 'd nstr_sect" where
  "snxtsct_all w =
     snxtsct_area (xysize_range w \<lparr>lx = 0, ly = 0, hx = world_x w - 1, hy = world_y w - 1, width = 0, height = 0\<rparr>)"

definition snxtsct_rewind :: "'d nstr_sect \<Rightarrow> 'd nstr_sect" where
  "snxtsct_rewind np = np\<lparr>s_x := lx (s_range np) - 1, s_y := ly (s_range np), s_dx := - 1, s_dy := 0, s_id := - 1\<rparr>"

definition snxtsct_use_condarg :: "names \<Rightarrow> bool \<Rightarrow> (string \<Rightarrow> 'd \<times> nat) \<Rightarrow> player_sel \<Rightarrow> 'd nstr_sect \<Rightarrow> 'd nstr_sect option" where
  "snxtsct_use_condarg nm god strtod p np =
     (case p_condarg p of
        None \<Rightarrow> Some np
      | Some str \<Rightarrow>
          (case nstr_comp nm god strtod NS_NCOND sect_ca str of
             Inl e \<Rightarrow> None
           | Inr cs \<Rightarrow> Some (np\<lparr>s_cond := cs\<rparr>)))"

text \<open>
  \<open>snxtsct\<close>, once it has a text, from the argument or the player's answer. \<open>None\<close> stands for its result 0, and for the overflow in
  \<open>xydist_range\<close>, which it does not keep from happening.
\<close>

definition snxtsct :: "world \<Rightarrow> natorg \<Rightarrow> (int \<Rightarrow> range) \<Rightarrow> names \<Rightarrow> bool \<Rightarrow> (string \<Rightarrow> 'd \<times> nat) \<Rightarrow> player_sel \<Rightarrow> string \<Rightarrow> 'd nstr_sect option" where
  "snxtsct w org realm nm god strtod p str =
     Option.bind
       (case sarg_type str of
          NS_AREA \<Rightarrow> map_option snxtsct_area (sarg_area w org realm str)
        | NS_DIST \<Rightarrow> Option.bind (sarg_range w org str) (\<lambda>(cx, cy, dist). snxtsct_dist w cx cy dist)
        | NS_ALL \<Rightarrow>
            (let l = xabs w org (- (world_x w sdiv 2)); b = yabs w org (- (world_y w sdiv 2))
             in Some (snxtsct_area (xysize_range w
                  \<lparr>lx = l, ly = b, hx = xnorm w (l + world_x w - 1), hy = ynorm w (b + world_y w - 1), width = 0, height = 0\<rparr>)))
        | _ \<Rightarrow> None)
       (snxtsct_use_condarg nm god strtod p)"

text \<open>\<open>nxtsct\<close>: to the next position, if there is one.\<close>

definition next_pos :: "world \<Rightarrow> 'd nstr_sect \<Rightarrow> bool \<times> 'd nstr_sect" where
  "next_pos w np =
     (let np = np\<lparr>s_dx := s_dx np + 1, s_x := (if s_x np + 1 \<ge> world_x w then 0 else s_x np + 1)\<rparr>
      in if s_dx np \<ge> width (s_range np) then
           let np = np\<lparr>s_dx := 0, s_x := lx (s_range np), s_dy := s_dy np + 1\<rparr>
           in if s_dy np \<ge> height (s_range np) then (False, np)
              else (True, np\<lparr>s_y := (if s_y np + 1 \<ge> world_y w then 0 else s_y np + 1)\<rparr>)
         else (True, np))"

function nxtsct ::
  "world \<Rightarrow> ('o, 'd) objects \<Rightarrow> int \<Rightarrow> (int \<Rightarrow> 'st \<Rightarrow> 'o option \<times> 'st) \<Rightarrow> 'd nstr_sect \<Rightarrow> 'st \<Rightarrow> ('o option \<times> 'd nstr_sect \<times> 'st) option" where
  "nxtsct w env cnum rd np st =
     (let (mr, np) = next_pos w np
      in if \<not> mr then Some (None, np, st)
         else if odd (s_y np + s_x np) then nxtsct w env cnum rd np st
         else let np = (if s_type np = NS_DIST then np\<lparr>s_curdist := mapdist w (s_x np) (s_y np) (s_cx np) (s_cy np)\<rparr> else np)
              in if s_type np = NS_DIST \<and> s_curdist np > s_dist np then nxtsct w env cnum rd np st
                 else let np = np\<lparr>s_id := sctoff w (s_x np) (s_y np)\<rparr>
                      in case rd (s_id np) st of
                           (None, st) \<Rightarrow> nxtsct w env cnum rd np st
                         | (Some x, st) \<Rightarrow>
                             (case nstr_exec env cnum (s_cond np) x of
                                None \<Rightarrow> None
                              | Some True \<Rightarrow> Some (Some x, np, st)
                              | Some False \<Rightarrow> nxtsct w env cnum rd np st))"
  by pat_completeness auto
termination
  by (relation "measures [\<lambda>(w, env, cnum, rd, np, st). nat (height (s_range np) - s_dy np), \<lambda>(w, env, cnum, rd, np, st). nat (width (s_range np) - s_dx np)]")
    (auto simp: next_pos_def Let_def split: if_splits)

declare nxtsct.simps [simp del]

section \<open>Selecting items\<close>

record 'd nstr_item =
  i_cur :: int
  i_sel :: ns_seltype
  i_type :: Selector.table
  i_curdist :: int
  i_range :: range
  i_dist :: int
  i_cx :: int
  i_cy :: int
  i_group :: char
  i_next :: int
  i_index :: int
  i_list :: "int list"
  i_cond :: "'d nscstr list"

definition no_range :: range where
  "no_range = \<lparr>lx = 0, ly = 0, hx = 0, hy = 0, width = 0, height = 0\<rparr>"

text \<open>\<open>memset\<close> and the assignments all these functions start with.\<close>

definition zero_item :: "Selector.table \<Rightarrow> ns_seltype \<Rightarrow> 'd nstr_item" where
  "zero_item t sl =
     \<lparr>i_cur = - 1, i_sel = sl, i_type = t, i_curdist = 0, i_range = no_range, i_dist = 0, i_cx = 0, i_cy = 0, i_group = CHR 0x00,
      i_next = 0, i_index = - 1, i_list = [], i_cond = []\<rparr>"

definition snxtitem_area :: "world \<Rightarrow> Selector.table \<Rightarrow> range \<Rightarrow> 'd nstr_item" where
  "snxtitem_area w t r = (zero_item t NS_AREA)\<lparr>i_range := xysize_range w r\<rparr>"

definition snxtitem_dist :: "world \<Rightarrow> Selector.table \<Rightarrow> int \<Rightarrow> int \<Rightarrow> int \<Rightarrow> 'd nstr_item option" where
  "snxtitem_dist w t cx cy dist =
     map_option (\<lambda>r. (zero_item t NS_DIST)\<lparr>i_range := r, i_cx := to_coord cx, i_cy := to_coord cy, i_dist := dist\<rparr>)
       (xydist_range w cx cy dist)"

definition snxtitem_xy :: "world \<Rightarrow> Selector.table \<Rightarrow> int \<Rightarrow> int \<Rightarrow> 'd nstr_item" where
  "snxtitem_xy w t x y = (zero_item t NS_XY)\<lparr>i_cx := xnorm w x, i_cy := ynorm w y\<rparr>"

definition snxtitem_all :: "world \<Rightarrow> Selector.table \<Rightarrow> 'd nstr_item" where
  "snxtitem_all w t = (zero_item t NS_ALL)\<lparr>i_range := xysize_range w no_range\<rparr>"

definition snxtitem_group :: "world \<Rightarrow> Selector.table \<Rightarrow> char \<Rightarrow> 'd nstr_item" where
  "snxtitem_group w t g =
     (zero_item t NS_GROUP)\<lparr>i_group := (if g = CHR ''~'' then CHR 0x00 else g), i_range := xysize_range w no_range\<rparr>"

definition snxtitem_rewind :: "'d nstr_item \<Rightarrow> 'd nstr_item" where
  "snxtitem_rewind np = np\<lparr>i_cur := - 1, i_index := - 1\<rparr>"

definition snxtitem_list :: "Selector.table \<Rightarrow> int list \<Rightarrow> 'd nstr_item option" where
  "snxtitem_list t ids = (if length ids \<le> 0 \<or> length ids > NS_LSIZE then None else Some ((zero_item t NS_LIST)\<lparr>i_list := ids\<rparr>))"

text \<open>\<open>first\<close> is \<open>unit_cargo_first\<close> for the carrier.\<close>

definition snxtitem_cargo :: "Selector.table \<Rightarrow> int \<Rightarrow> 'd nstr_item" where
  "snxtitem_cargo t first = (zero_item t NS_CARGO)\<lparr>i_index := 0, i_next := first\<rparr>"

definition snxtitem_use_condarg ::
  "names \<Rightarrow> bool \<Rightarrow> (string \<Rightarrow> 'd \<times> nat) \<Rightarrow> (Selector.table \<Rightarrow> castr list) \<Rightarrow> player_sel \<Rightarrow> 'd nstr_item \<Rightarrow> 'd nstr_item option" where
  "snxtitem_use_condarg nm god strtod cadefs p np =
     (case p_condarg p of
        None \<Rightarrow> Some np
      | Some str \<Rightarrow>
          (case nstr_comp nm god strtod NS_NCOND (cadefs (i_type np)) str of
             Inl e \<Rightarrow> None
           | Inr cs \<Rightarrow> Some (np\<lparr>i_cond := cs\<rparr>)))"

text \<open>\<open>snxtitem\<close>, once it has a text; \<open>fl\<close> are the flags of the table.\<close>

fun decimal_digit :: "int \<Rightarrow> char" where
  "decimal_digit d = ''0123456789'' ! nat d"

function decimal :: "int \<Rightarrow> string" where
  "decimal n = (if n < 10 then [decimal_digit n] else decimal (n div 10) @ [decimal_digit (n mod 10)])"
  by pat_completeness auto
termination by (relation "measure nat") auto

declare decimal.simps [simp del]

definition snxtitem_str ::
  "world \<Rightarrow> natorg \<Rightarrow> (int \<Rightarrow> range) \<Rightarrow> eff set \<Rightarrow> Selector.table \<Rightarrow> string \<Rightarrow> 'd nstr_item option" where
  "snxtitem_str w org realm fl t str =
     (case sarg_type str of
        NS_AREA \<Rightarrow> if EFF_XY \<notin> fl then None else map_option (snxtitem_area w t) (sarg_area w org realm str)
      | NS_DIST \<Rightarrow> if EFF_XY \<notin> fl then None else Option.bind (sarg_range w org str) (\<lambda>(cx, cy, dist). snxtitem_dist w t cx cy dist)
      | NS_ALL \<Rightarrow> Some (snxtitem_all w t)
      | NS_LIST \<Rightarrow> Option.bind (sarg_list str NS_LSIZE) (snxtitem_list t)
      | NS_XY \<Rightarrow> if EFF_XY \<notin> fl then None else map_option (\<lambda>(x, y). snxtitem_xy w t x y) (sarg_xy w org str)
      | NS_GROUP \<Rightarrow> if EFF_GROUP \<notin> fl then None else Some (snxtitem_group w t (ch str))
      | _ \<Rightarrow> None)"

definition snxtitem ::
  "world \<Rightarrow> natorg \<Rightarrow> (int \<Rightarrow> range) \<Rightarrow> names \<Rightarrow> ('o, 'd) objects \<Rightarrow> bool \<Rightarrow> (string \<Rightarrow> 'd \<times> nat) \<Rightarrow> (Selector.table \<Rightarrow> castr list) \<Rightarrow>
    eff set \<Rightarrow> player_sel \<Rightarrow> Selector.table \<Rightarrow> string \<Rightarrow> 'd nstr_item option" where
  "snxtitem w org realm nm env god strtod cadefs fl p t str =
     (if str = [] then None
      else let cnum = natarg nm env (p_cnum p) str; nation = (t = EF_NATION \<and> isalpha (hd str))
           in if nation \<and> cnum < 0 then None
              else Option.bind (snxtitem_str w org realm fl t (if nation then decimal cnum else str))
                     (snxtitem_use_condarg nm god strtod cadefs p))"

text \<open>The members of an object that select it.\<close>

record 'o members =
  gp_x :: "'o \<Rightarrow> int"
  gp_y :: "'o \<Rightarrow> int"
  gp_group :: "'o \<Rightarrow> char"

text \<open>The identifier \<open>nxtitem\<close> tries next, if any; \<open>cnext\<close> is \<open>unit_cargo_next\<close> for the table.\<close>

definition next_item :: "(int \<Rightarrow> int) \<Rightarrow> 'd nstr_item \<Rightarrow> bool \<times> 'd nstr_item" where
  "next_item cnext np =
     (if i_sel np = NS_LIST then
        let np = np\<lparr>i_index := i_index np + 1\<rparr>
        in if i_index np \<ge> int (length (i_list np)) then (False, np) else (True, np\<lparr>i_cur := i_list np ! nat (i_index np)\<rparr>)
      else if i_sel np = NS_CARGO then
        if i_next np < 0 then (False, np) else (True, np\<lparr>i_cur := i_next np, i_next := cnext (i_next np)\<rparr>)
      else (True, np\<lparr>i_cur := i_cur np + 1\<rparr>))"

text \<open>Whether the selection takes the object \<open>x\<close>; the conditions are not looked at.\<close>

definition item_selected :: "world \<Rightarrow> 'o members \<Rightarrow> eff set \<Rightarrow> 'd nstr_item \<Rightarrow> 'o \<Rightarrow> (bool \<times> 'd nstr_item) option" where
  "item_selected w mb fl np x =
     (let in_range = xyinrange (gp_x mb x) (gp_y mb x) (i_range np)
      in case i_sel np of
           NS_DIST \<Rightarrow>
             if EFF_XY \<notin> fl then None
             else if \<not> in_range then Some (False, np)
             else let np = np\<lparr>i_curdist := mapdist w (gp_x mb x) (gp_y mb x) (i_cx np) (i_cy np)\<rparr> in Some (i_curdist np \<le> i_dist np, np)
         | NS_AREA \<Rightarrow> if EFF_XY \<notin> fl then None else Some (in_range, np)
         | NS_XY \<Rightarrow> if EFF_XY \<notin> fl then None else Some (xnorm w (gp_x mb x) = i_cx np \<and> ynorm w (gp_y mb x) = i_cy np, np)
         | NS_GROUP \<Rightarrow> if EFF_GROUP \<notin> fl then None else Some (i_group np = gp_group mb x, np)
         | NS_UNDEF \<Rightarrow> None
         | _ \<Rightarrow> Some (True, np))"

partial_function (option) nxtitem_loop ::
  "world \<Rightarrow> ('o, 'd) objects \<Rightarrow> int \<Rightarrow> 'o members \<Rightarrow> eff set \<Rightarrow> (int \<Rightarrow> int) \<Rightarrow> (int \<Rightarrow> 'st \<Rightarrow> 'o option \<times> 'st) \<Rightarrow> 'd nstr_item \<Rightarrow> 'st \<Rightarrow>
    ('o option \<times> 'd nstr_item \<times> 'st) option" where
  "nxtitem_loop w env cnum mb fl cnext rd np st =
     (case next_item cnext np of (mr, np) \<Rightarrow>
        if \<not> mr then Some (None, np, st)
        else case rd (i_cur np) st of
               (None, st) \<Rightarrow> Some (None, np, st)
             | (Some x, st) \<Rightarrow>
                 Option.bind (item_selected w mb fl np x) (\<lambda>(tk, np).
                   if \<not> tk then nxtitem_loop w env cnum mb fl cnext rd np st
                   else Option.bind (nstr_exec env cnum (i_cond np) x) (\<lambda>b.
                     if b then Some (Some x, np, st) else nxtitem_loop w env cnum mb fl cnext rd np st)))"

declare nxtitem_loop.simps [code]

definition nxtitem ::
  "world \<Rightarrow> ('o, 'd) objects \<Rightarrow> int \<Rightarrow> 'o members \<Rightarrow> eff set \<Rightarrow> (int \<Rightarrow> int) \<Rightarrow> (int \<Rightarrow> 'st \<Rightarrow> 'o option \<times> 'st) \<Rightarrow> 'd nstr_item \<Rightarrow> 'st \<Rightarrow>
    ('o option \<times> 'd nstr_item \<times> 'st) option" where
  "nxtitem w env cnum mb fl cnext rd np st =
     (if i_sel np = NS_UNDEF then Some (None, np, st) else nxtitem_loop w env cnum mb fl cnext rd np st)"

section \<open>Iterating\<close>

text \<open>All that an iterator gives, called until it gives nothing.\<close>

inductive iterates :: "('np \<Rightarrow> 'st \<Rightarrow> ('o option \<times> 'np \<times> 'st) option) \<Rightarrow> 'np \<Rightarrow> 'st \<Rightarrow> 'o list \<Rightarrow> bool" for nxt where
  iterates_end: "nxt np st = Some (None, np', st') \<Longrightarrow> iterates nxt np st []"
| iterates_step: "nxt np st = Some (Some x, np', st') \<Longrightarrow> iterates nxt np' st' xs \<Longrightarrow> iterates nxt np st (x # xs)"

inductive_simps iterates_Nil: "iterates nxt np st []"
inductive_simps iterates_Cons: "iterates nxt np st (x # xs)"

lemma iterates_unique: "iterates nxt np st xs \<Longrightarrow> iterates nxt np st ys \<Longrightarrow> xs = ys"
proof (induction arbitrary: ys rule: iterates.induct)
  case (iterates_end np st np' st')
  from iterates_end.prems iterates_end.hyps show ?case by cases simp_all
next
  case (iterates_step np st x np' st' xs)
  from iterates_step.prems show ?case
  proof cases
    case (iterates_step x' np'' st'' ys')
    then show ?thesis using iterates_step.hyps iterates_step.IH by simp
  qed (use iterates_step.hyps in simp)
qed

section \<open>The positions of a range\<close>

text \<open>A range of positions: its corners are on the map, and its size is as \<open>xysize_range\<close> and \<open>xydist_range\<close> compute it.\<close>

definition range_ok :: "world \<Rightarrow> range \<Rightarrow> bool" where
  "range_ok w r \<longleftrightarrow> 0 \<le> lx r \<and> lx r < world_x w \<and> 0 \<le> ly r \<and> ly r < world_y w \<and>
     0 < width r \<and> width r \<le> world_x w \<and> 0 < height r \<and> height r \<le> world_y w \<and>
     hx r = (lx r + width r - 1) mod world_x w \<and> hy r = (ly r + height r - 1) mod world_y w"

text \<open>The positions that come after the \<open>i\<close>-th of row \<open>j\<close>, row by row.\<close>

definition row :: "range \<Rightarrow> int \<Rightarrow> int \<Rightarrow> (int \<times> int) list" where
  "row r i j = map (\<lambda>k. (k, j)) [i..width r - 1]"

definition cells_from :: "range \<Rightarrow> int \<Rightarrow> int \<Rightarrow> (int \<times> int) list" where
  "cells_from r i j = row r (i + 1) j @ concat (map (row r 0) [j + 1..height r - 1])"

definition cell_xy :: "world \<Rightarrow> range \<Rightarrow> int \<times> int \<Rightarrow> int \<times> int" where
  "cell_xy w r c = ((lx r + fst c) mod world_x w, (ly r + snd c) mod world_y w)"

definition at_cell :: "world \<Rightarrow> int \<Rightarrow> int \<Rightarrow> 'd nstr_sect \<Rightarrow> bool" where
  "at_cell w i j np \<longleftrightarrow> range_ok w (s_range np) \<and> s_dx np = i \<and> s_dy np = j \<and> - 1 \<le> i \<and> i < width (s_range np) \<and> 0 \<le> j \<and>
     j < height (s_range np) \<and> s_x np = (if i = - 1 then lx (s_range np) - 1 else (lx (s_range np) + i) mod world_x w) \<and>
     s_y np = (ly (s_range np) + j) mod world_y w"

definition same_sel :: "'d nstr_sect \<Rightarrow> 'd nstr_sect \<Rightarrow> bool" where
  "same_sel np np' \<longleftrightarrow> s_range np' = s_range np \<and> s_type np' = s_type np \<and> s_dist np' = s_dist np \<and> s_cx np' = s_cx np \<and>
     s_cy np' = s_cy np \<and> s_cond np' = s_cond np"

lemma same_sel_refl [simp]: "same_sel np np"
  by (simp add: same_sel_def)

lemma same_sel_trans: "same_sel np np' \<Longrightarrow> same_sel np' np'' \<Longrightarrow> same_sel np np''"
  by (simp add: same_sel_def)

lemma mod_next: "0 < m \<Longrightarrow> (if a mod m + 1 \<ge> m then 0 else a mod m + 1) = (a + 1) mod (m :: int)"
proof -
  assume m: "0 < m"
  have a: "0 \<le> a mod m" "a mod m < m" using m by simp_all
  have "(a + 1) mod m = (a mod m + 1) mod m" by (simp add: mod_add_left_eq)
  then show ?thesis using a by (cases "a mod m + 1 = m") auto
qed

lemma next_pos_end: "at_cell w i j np \<Longrightarrow> cells_from (s_range np) i j = [] \<Longrightarrow> \<not> fst (next_pos w np)"
proof -
  assume a: "at_cell w i j np" and e: "cells_from (s_range np) i j = []"
  let ?r = "s_range np"
  have p: "0 < width ?r" using a by (simp add: at_cell_def range_ok_def)
  have "width ?r \<le> i + 1" using e by (simp add: cells_from_def row_def)
  moreover have "height ?r \<le> j + 1"
  proof (rule ccontr)
    assume "\<not> height ?r \<le> j + 1"
    then have "j + 1 \<in> set [j + 1..height ?r - 1]" "0 \<in> set [0..width ?r - 1]" using p by simp_all
    then show False using e by (auto simp: cells_from_def row_def)
  qed
  ultimately show ?thesis using a by (auto simp: next_pos_def at_cell_def Let_def)
qed

lemma next_pos_cell:
  assumes a: "at_cell w i j np" and c: "cells_from (s_range np) i j = (i', j') # cs"
  shows "fst (next_pos w np)" and "at_cell w i' j' (snd (next_pos w np))" and "cs = cells_from (s_range np) i' j'"
    and "same_sel np (snd (next_pos w np))"
    and "(s_x (snd (next_pos w np)), s_y (snd (next_pos w np))) = cell_xy w (s_range np) (i', j')"
proof -
  let ?r = "s_range np"
  have r: "range_ok w ?r" "0 < world_x w" "0 < world_y w" "lx ?r mod world_x w = lx ?r" "0 < width ?r" "lx ?r < world_x w"
    using a by (auto simp: at_cell_def range_ok_def)
  have x: "s_dx np = i" "s_dy np = j" "- 1 \<le> i" "i < width ?r" "0 \<le> j" "j < height ?r"
    "s_x np = (if i = - 1 then lx ?r - 1 else (lx ?r + i) mod world_x w)" "s_y np = (ly ?r + j) mod world_y w"
    using a by (auto simp: at_cell_def)
  have ny: "(if s_y np + 1 \<ge> world_y w then 0 else s_y np + 1) = (ly ?r + (j + 1)) mod world_y w"
    using mod_next [OF r(3), of "ly ?r + j"] unfolding x(8) by (simp only: add.assoc)
  have "fst (next_pos w np) \<and> at_cell w i' j' (snd (next_pos w np)) \<and> cs = cells_from ?r i' j' \<and> same_sel np (snd (next_pos w np)) \<and>
    (s_x (snd (next_pos w np)), s_y (snd (next_pos w np))) = cell_xy w ?r (i', j')"
  proof (cases "i + 1 < width ?r")
    case True
    have "row ?r (i + 1) j = (i + 1, j) # row ?r (i + 1 + 1) j" using True by (simp add: row_def upto_rec1)
    then have c': "i' = i + 1" "j' = j" "cs = cells_from ?r i' j'" using c by (auto simp: cells_from_def)
    have nx: "(if s_x np + 1 \<ge> world_x w then 0 else s_x np + 1) = (lx ?r + (i + 1)) mod world_x w"
    proof (cases "i = - 1")
      case True
      then show ?thesis using r x(7) by simp
    next
      case False
      then have "s_x np = (lx ?r + i) mod world_x w" using x(7) by simp
      then show ?thesis using mod_next [OF r(2), of "lx ?r + i"] by (simp only: add.assoc)
    qed
    have "next_pos w np = (True, np\<lparr>s_dx := i + 1, s_x := (lx ?r + (i + 1)) mod world_x w\<rparr>)"
      using True x(1) nx by (simp add: next_pos_def Let_def)
    then show ?thesis using c' x True r(1) by (simp add: at_cell_def same_sel_def cell_xy_def)
  next
    case False
    then have e: "row ?r (i + 1) j = []" by (simp add: row_def)
    have h: "j + 1 < height ?r"
    proof (rule ccontr)
      assume "\<not> j + 1 < height ?r"
      then show False using c e by (simp add: cells_from_def)
    qed
    have "[j + 1..height ?r - 1] = (j + 1) # [j + 1 + 1..height ?r - 1]" using h by (simp add: upto_rec1)
    moreover have "row ?r 0 (j + 1) = (0, j + 1) # row ?r (0 + 1) (j + 1)" using r(5) by (simp add: row_def upto_rec1)
    ultimately have c': "i' = 0" "j' = j + 1" "cs = cells_from ?r i' j'" using c e by (auto simp: cells_from_def)
    have "next_pos w np = (True, np\<lparr>s_dx := 0, s_x := lx ?r, s_dy := j + 1, s_y := (ly ?r + (j + 1)) mod world_y w\<rparr>)"
      using False x(1,2) h by (simp add: next_pos_def Let_def flip: ny)
    then show ?thesis using c' x h r by (simp add: at_cell_def same_sel_def cell_xy_def)
  qed
  then show "fst (next_pos w np)" and "at_cell w i' j' (snd (next_pos w np))" and "cs = cells_from (s_range np) i' j'"
    and "same_sel np (snd (next_pos w np))"
    and "(s_x (snd (next_pos w np)), s_y (snd (next_pos w np))) = cell_xy w (s_range np) (i', j')"
    by blast+
qed
lemma at_cell_upd [simp]:
  "at_cell w i j (np\<lparr>s_curdist := d\<rparr>) = at_cell w i j np" "at_cell w i j (np\<lparr>s_id := k\<rparr>) = at_cell w i j np"
  "same_sel np' (np\<lparr>s_curdist := d\<rparr>) = same_sel np' np" "same_sel np' (np\<lparr>s_id := k\<rparr>) = same_sel np' np"
  by (simp_all add: at_cell_def same_sel_def)

text \<open>What the iterator is to give at a cell of its range, when the table has the elements \<open>es\<close>.\<close>

definition sect_id :: "world \<Rightarrow> 'd nstr_sect \<Rightarrow> int \<times> int \<Rightarrow> int" where
  "sect_id w np c = (case cell_xy w (s_range np) c of (x, y) \<Rightarrow> sctoff w x y)"

definition wanted :: "world \<Rightarrow> ('o, 'd) objects \<Rightarrow> int \<Rightarrow> 'o list \<Rightarrow> 'd nstr_sect \<Rightarrow> int \<times> int \<Rightarrow> bool" where
  "wanted w env cnum es np c \<longleftrightarrow>
     (case cell_xy w (s_range np) c of (x, y) \<Rightarrow>
        even (y + x) \<and> (s_type np = NS_DIST \<longrightarrow> mapdist w x y (s_cx np) (s_cy np) \<le> s_dist np)) \<and>
     0 \<le> sect_id w np c \<and> sect_id w np c < int (length es) \<and> nstr_exec env cnum (s_cond np) (es ! nat (sect_id w np c)) = Some True"

lemma same_sel_wanted: "same_sel np np' \<Longrightarrow> wanted w env cnum es np' = wanted w env cnum es np \<and> sect_id w np' = sect_id w np"
  by (auto simp: wanted_def sect_id_def same_sel_def fun_eq_iff)

text \<open>The identifiers an item iterator tries, of a table of \<open>n\<close> elements, until it comes to its end or to one that is not in the table.\<close>

inductive supplies :: "(int \<Rightarrow> int) \<Rightarrow> int \<Rightarrow> 'd nstr_item \<Rightarrow> int list \<Rightarrow> bool" for cnext n where
  supplies_end: "next_item cnext np = (False, np') \<Longrightarrow> supplies cnext n np []"
| supplies_bad: "next_item cnext np = (True, np') \<Longrightarrow> \<not> (0 \<le> i_cur np' \<and> i_cur np' < n) \<Longrightarrow> supplies cnext n np []"
| supplies_id: "next_item cnext np = (True, np') \<Longrightarrow> 0 \<le> i_cur np' \<Longrightarrow> i_cur np' < n \<Longrightarrow> supplies cnext n np' ids \<Longrightarrow>
    supplies cnext n np (i_cur np' # ids)"

lemma next_item_curdist: "next_item cnext (np\<lparr>i_curdist := d\<rparr>) = (case next_item cnext np of (b, np') \<Rightarrow> (b, np'\<lparr>i_curdist := d\<rparr>))"
  by (simp add: next_item_def Let_def)

lemma supplies_curdist: "supplies cnext n np ids \<Longrightarrow> supplies cnext n (np\<lparr>i_curdist := d\<rparr>) ids"
proof (induction rule: supplies.induct)
  case (supplies_end np np')
  then show ?case by (intro supplies.supplies_end [of _ _ "np'\<lparr>i_curdist := d\<rparr>"]) (simp add: next_item_curdist)
next
  case (supplies_bad np np')
  then show ?case by (intro supplies.supplies_bad [of _ _ "np'\<lparr>i_curdist := d\<rparr>"]) (simp_all add: next_item_curdist)
next
  case (supplies_id np np' ids)
  then show ?case using supplies.supplies_id [of cnext "np\<lparr>i_curdist := d\<rparr>" "np'\<lparr>i_curdist := d\<rparr>" n ids] by (simp add: next_item_curdist)
qed

text \<open>A search goes on with the same selection.\<close>

definition same_item :: "'d nstr_item \<Rightarrow> 'd nstr_item \<Rightarrow> bool" where
  "same_item np np' \<longleftrightarrow> i_sel np' = i_sel np \<and> i_range np' = i_range np \<and> i_dist np' = i_dist np \<and> i_cx np' = i_cx np \<and>
     i_cy np' = i_cy np \<and> i_group np' = i_group np \<and> i_cond np' = i_cond np"

lemma next_item_same: "next_item cnext np = (b, np') \<Longrightarrow> same_item np np'"
  by (auto simp: next_item_def Let_def same_item_def split: if_splits)

text \<open>The table has what the kind of selection needs.\<close>

definition sel_ok :: "eff set \<Rightarrow> 'd nstr_item \<Rightarrow> bool" where
  "sel_ok fl np \<longleftrightarrow> i_sel np \<noteq> NS_UNDEF \<and> (i_sel np \<in> {NS_DIST, NS_AREA, NS_XY} \<longrightarrow> EFF_XY \<in> fl) \<and> (i_sel np = NS_GROUP \<longrightarrow> EFF_GROUP \<in> fl)"

definition item_in :: "world \<Rightarrow> 'o members \<Rightarrow> 'd nstr_item \<Rightarrow> 'o \<Rightarrow> bool" where
  "item_in w mb np x \<longleftrightarrow>
     (i_sel np \<in> {NS_DIST, NS_AREA} \<longrightarrow> xyinrange (gp_x mb x) (gp_y mb x) (i_range np)) \<and>
     (i_sel np = NS_DIST \<longrightarrow> mapdist w (gp_x mb x) (gp_y mb x) (i_cx np) (i_cy np) \<le> i_dist np) \<and>
     (i_sel np = NS_XY \<longrightarrow> xnorm w (gp_x mb x) = i_cx np \<and> ynorm w (gp_y mb x) = i_cy np) \<and>
     (i_sel np = NS_GROUP \<longrightarrow> gp_group mb x = i_group np)"

lemma item_selected_in: "sel_ok fl np \<Longrightarrow> \<exists>d. item_selected w mb fl np x = Some (item_in w mb np x, np\<lparr>i_curdist := d\<rparr>)"
proof -
  assume ok: "sel_ok fl np"
  have d: "np = np\<lparr>i_curdist := i_curdist np\<rparr>" by simp
  show ?thesis
  proof (cases "i_sel np = NS_DIST \<and> xyinrange (gp_x mb x) (gp_y mb x) (i_range np)")
    case True
    then show ?thesis using ok by (auto simp: item_selected_def item_in_def sel_ok_def Let_def)
  next
    case False
    then have "item_selected w mb fl np x = Some (item_in w mb np x, np)"
      using ok by (cases "i_sel np") (auto simp: item_selected_def item_in_def sel_ok_def Let_def)
    then show ?thesis using d by metis
  qed
qed

lemma iterates_cong: "nxt np st = nxt np' st' \<Longrightarrow> iterates nxt np' st' xs \<Longrightarrow> iterates nxt np st xs"
  by (cases xs) (auto simp: iterates_Nil iterates_Cons)

lemma same_item_in: "same_item np np' \<Longrightarrow> item_in w mb np' = item_in w mb np"
  by (simp add: same_item_def item_in_def fun_eq_iff)

lemma same_item_ok: "same_item np np' \<Longrightarrow> sel_ok fl np' = sel_ok fl np"
  by (simp add: same_item_def sel_ok_def)

text \<open>What the iterators need of the table they read: reading gives the elements of the table, and leaves it as it was.\<close>

locale elements =
  fixes rd :: "int \<Rightarrow> 'st \<Rightarrow> 'o option \<times> 'st"
    and elts :: "'st \<Rightarrow> 'o list"
    and good :: "'st \<Rightarrow> bool"
  assumes read_elt: "good st \<Longrightarrow> fst (rd i st) = (if 0 \<le> i \<and> i < int (length (elts st)) then Some (elts st ! nat i) else None)"
    and read_good: "good st \<Longrightarrow> good (snd (rd i st))"
    and read_elts: "good st \<Longrightarrow> elts (snd (rd i st)) = elts st"
begin

lemma read_cases:
  assumes "good st"
  obtains st' where "good st'" "elts st' = elts st"
    "rd i st = ((if 0 \<le> i \<and> i < int (length (elts st)) then Some (elts st ! nat i) else None), st')"
  by (rule that [of "snd (rd i st)"]) (auto intro: prod_eqI simp: read_elt [OF assms] read_good [OF assms] read_elts [OF assms])

text \<open>The sector iterator finds the next cell that is wanted.\<close>

lemma nxtsct_skip:
  assumes g: "good st" and a: "at_cell w i j np" and c: "cells_from (s_range np) i j = (i', j') # cs"
    and ex: "\<forall>x \<in> set (elts st). nstr_exec env cnum (s_cond np) x \<noteq> None"
  shows "\<exists>np' st'. good st' \<and> elts st' = elts st \<and> same_sel np np' \<and> at_cell w i' j' np' \<and>
    nxtsct w env cnum rd np st =
      (if wanted w env cnum (elts st) np (i', j') then Some (Some (elts st ! nat (sect_id w np (i', j'))), np', st')
       else nxtsct w env cnum rd np' st')"
proof -
  obtain np1 where n: "next_pos w np = (True, np1)" using next_pos_cell(1) [OF a c] by (cases "next_pos w np") auto
  have p: "at_cell w i' j' np1" "same_sel np np1" "(s_x np1, s_y np1) = cell_xy w (s_range np) (i', j')"
    using next_pos_cell [OF a c] n by simp_all
  have f: "s_type np1 = s_type np" "s_dist np1 = s_dist np" "s_cx np1 = s_cx np" "s_cy np1 = s_cy np" "s_cond np1 = s_cond np"
    using p(2) by (simp_all add: same_sel_def)
  note r = nxtsct.simps [of w env cnum rd np st, unfolded n Let_def prod.case]
  have id: "sect_id w np (i', j') = sctoff w (s_x np1) (s_y np1)" by (simp add: sect_id_def flip: p(3))
  consider "odd (s_y np1 + s_x np1)"
    | "even (s_y np1 + s_x np1)" "s_type np = NS_DIST" "mapdist w (s_x np1) (s_y np1) (s_cx np) (s_cy np) > s_dist np"
    | "even (s_y np1 + s_x np1)" "s_type np = NS_DIST \<longrightarrow> mapdist w (s_x np1) (s_y np1) (s_cx np) (s_cy np) \<le> s_dist np"
    by linarith
  then show ?thesis
  proof cases
    case 1
    then have "\<not> wanted w env cnum (elts st) np (i', j')" by (simp add: wanted_def flip: p(3))
    then show ?thesis using r 1 g p(1,2) by auto
  next
    case 2
    then have "\<not> wanted w env cnum (elts st) np (i', j')" by (simp add: wanted_def flip: p(3))
    moreover have "nxtsct w env cnum rd np st =
        nxtsct w env cnum rd (np1\<lparr>s_curdist := mapdist w (s_x np1) (s_y np1) (s_cx np) (s_cy np)\<rparr>) st"
      using r 2 f by simp
    ultimately show ?thesis using g p(1,2) at_cell_upd by metis
  next
    case 3
    define np2 where "np2 = (if s_type np1 = NS_DIST then np1\<lparr>s_curdist := mapdist w (s_x np1) (s_y np1) (s_cx np1) (s_cy np1)\<rparr> else np1)
      \<lparr>s_id := sctoff w (s_x np1) (s_y np1)\<rparr>"
    have p2: "at_cell w i' j' np2" "same_sel np np2" "s_id np2 = sect_id w np (i', j')" "s_cond np2 = s_cond np"
      using p(1,2) f id by (auto simp: np2_def)
    obtain st' where st': "good st'" "elts st' = elts st" "rd (sect_id w np (i', j')) st =
        ((if 0 \<le> sect_id w np (i', j') \<and> sect_id w np (i', j') < int (length (elts st))
          then Some (elts st ! nat (sect_id w np (i', j'))) else None), st')"
      by (rule read_cases [OF g])
    have r2: "nxtsct w env cnum rd np st =
        (case rd (sect_id w np (i', j')) st of
           (None, st) \<Rightarrow> nxtsct w env cnum rd np2 st
         | (Some x, st) \<Rightarrow>
             (case nstr_exec env cnum (s_cond np) x of
                None \<Rightarrow> None
              | Some True \<Rightarrow> Some (Some x, np2, st)
              | Some False \<Rightarrow> nxtsct w env cnum rd np2 st))"
      using r 3 f id by (cases "s_type np = NS_DIST") (simp_all add: np2_def cong: prod.case_cong option.case_cong bool.case_cong)
    show ?thesis
    proof (cases "0 \<le> sect_id w np (i', j') \<and> sect_id w np (i', j') < int (length (elts st))")
      case False
      then show ?thesis using r2 st' p2 by (intro exI [of _ np2] exI [of _ st']) (auto simp: wanted_def)
    next
      case True
      then have "elts st ! nat (sect_id w np (i', j')) \<in> set (elts st)" by (intro nth_mem) linarith
      then obtain b where b: "nstr_exec env cnum (s_cond np) (elts st ! nat (sect_id w np (i', j'))) = Some b" using ex by auto
      then have "b = wanted w env cnum (elts st) np (i', j')" using True 3 by (simp add: wanted_def flip: p(3))
      then show ?thesis using r2 st' p2 True b by (intro exI [of _ np2] exI [of _ st']) (cases b; simp)
    qed
  qed
qed

lemma nxtsct_finds:
  assumes "good st" "at_cell w i j np" "\<forall>x \<in> set (elts st). nstr_exec env cnum (s_cond np) x \<noteq> None"
  shows "case filter (wanted w env cnum (elts st) np) (cells_from (s_range np) i j) of
      [] \<Rightarrow> \<exists>np' st'. nxtsct w env cnum rd np st = Some (None, np', st')
    | c # cs \<Rightarrow> \<exists>np' st'. nxtsct w env cnum rd np st = Some (Some (elts st ! nat (sect_id w np c)), np', st') \<and> good st' \<and> elts st' = elts st \<and>
        same_sel np np' \<and> at_cell w (fst c) (snd c) np' \<and>
        filter (wanted w env cnum (elts st) np) (cells_from (s_range np) (fst c) (snd c)) = cs"
  using assms
proof (induction "cells_from (s_range np) i j" arbitrary: i j np st)
  case Nil
  have "nxtsct w env cnum rd np st = Some (None, snd (next_pos w np), st)"
    using next_pos_end [OF Nil(3)] Nil(1) by (subst nxtsct.simps) (simp add: split_beta)
  then show ?case using Nil(1) by simp
next
  case (Cons c cs)
  obtain i' j' where c: "c = (i', j')" by (cases c)
  have cc: "cells_from (s_range np) i j = (i', j') # cs" using Cons.hyps(2) c by simp
  obtain np' st' where n: "good st'" "elts st' = elts st" "same_sel np np'" "at_cell w i' j' np'"
    "nxtsct w env cnum rd np st =
      (if wanted w env cnum (elts st) np (i', j') then Some (Some (elts st ! nat (sect_id w np (i', j'))), np', st')
       else nxtsct w env cnum rd np' st')"
    using nxtsct_skip [OF Cons.prems(1,2) cc Cons.prems(3)] by blast
  have s: "s_range np' = s_range np" "s_cond np' = s_cond np" using n(3) by (simp_all add: same_sel_def)
  have cs: "cs = cells_from (s_range np) i' j'" by (rule next_pos_cell(3) [OF Cons.prems(2) cc])
  show ?case
  proof (cases "wanted w env cnum (elts st) np (i', j')")
    case True
    then show ?thesis using n cs by (simp flip: Cons.hyps(2) add: c)
  next
    case False
    note w = same_sel_wanted [OF n(3), of w env cnum "elts st"]
    have "case filter (wanted w env cnum (elts st') np') (cells_from (s_range np') i' j') of
        [] \<Rightarrow> \<exists>np'' st''. nxtsct w env cnum rd np' st' = Some (None, np'', st'')
      | c # cs \<Rightarrow> \<exists>np'' st''. nxtsct w env cnum rd np' st' = Some (Some (elts st' ! nat (sect_id w np' c)), np'', st'') \<and> good st'' \<and> elts st'' = elts st' \<and>
          same_sel np' np'' \<and> at_cell w (fst c) (snd c) np'' \<and>
          filter (wanted w env cnum (elts st') np') (cells_from (s_range np') (fst c) (snd c)) = cs"
      using cs s n(1,2,4) Cons.prems(3) by (intro Cons.hyps(1)) simp_all
    then show ?thesis
      using False n(2,5) s w same_sel_trans [OF n(3)] cs unfolding Cons.hyps(2) [symmetric] c by (auto split: list.splits)
  qed
qed

lemma nxtsct_iterates:
  assumes "good st" "at_cell w i j np" "\<forall>x \<in> set (elts st). nstr_exec env cnum (s_cond np) x \<noteq> None"
  shows "iterates (nxtsct w env cnum rd) np st
    (map (\<lambda>c. elts st ! nat (sect_id w np c)) (filter (wanted w env cnum (elts st) np) (cells_from (s_range np) i j)))"
  using assms
proof (induction "filter (wanted w env cnum (elts st) np) (cells_from (s_range np) i j)" arbitrary: i j np st)
  case Nil
  then show ?case using nxtsct_finds [OF Nil.prems] by (auto simp: iterates_Nil)
next
  case (Cons c cs)
  obtain np' st' where n: "nxtsct w env cnum rd np st = Some (Some (elts st ! nat (sect_id w np c)), np', st')" "good st'" "elts st' = elts st"
    "same_sel np np'" "at_cell w (fst c) (snd c) np'" "filter (wanted w env cnum (elts st) np) (cells_from (s_range np) (fst c) (snd c)) = cs"
    using nxtsct_finds [OF Cons.prems] unfolding Cons.hyps(2) [symmetric] by auto
  note w = same_sel_wanted [OF n(4), of w env cnum "elts st"]
  have s: "s_range np' = s_range np" "s_cond np' = s_cond np" using n(4) by (simp_all add: same_sel_def)
  have "iterates (nxtsct w env cnum rd) np' st' (map (\<lambda>c. elts st ! nat (sect_id w np c)) cs)"
    using Cons.hyps(1) [of st' np' "fst c" "snd c"] n(2,3,5,6) w s Cons.prems(3) by simp
  then show ?case using n(1) unfolding Cons.hyps(2) [symmetric] by (auto simp: iterates_Cons)
qed
text \<open>The item iterator gives those of the identifiers it tries whose elements are selected and satisfy the conditions.\<close>

lemma nxtitem_iterates_from:
  assumes "supplies cnext n np ids" "n = int (length (elts st))" "good st" "sel_ok fl np"
    "\<forall>x \<in> set (elts st). nstr_exec env cnum (i_cond np) x \<noteq> None"
  shows "iterates (nxtitem w env cnum mb fl cnext rd) (np\<lparr>i_curdist := d\<rparr>) st
    (filter (\<lambda>x. item_in w mb np x \<and> nstr_exec env cnum (i_cond np) x = Some True) (map (\<lambda>i. elts st ! nat i) ids))"
  using assms
proof (induction arbitrary: st d rule: supplies.induct)
  case (supplies_end np np')
  then show ?case by (auto simp: iterates_Nil nxtitem_def nxtitem_loop.simps sel_ok_def next_item_curdist)
next
  case (supplies_bad np np')
  obtain st' where "rd (i_cur np') st = (None, st')"
    using supplies_bad(2,3) by (rule_tac read_cases [OF supplies_bad(4), of "i_cur np'"]) auto
  then show ?case using supplies_bad(1,5) by (auto simp: iterates_Nil nxtitem_def nxtitem_loop.simps sel_ok_def next_item_curdist)
next
  case (supplies_id np np' ids)
  define x where "x = elts st ! nat (i_cur np')"
  obtain st' where st': "good st'" "elts st' = elts st" "rd (i_cur np') st = (Some x, st')"
    using supplies_id(2,3,6) by (rule_tac read_cases [OF supplies_id(7), of "i_cur np'"]) (auto simp: x_def)
  note same = next_item_same [OF supplies_id(1)]
  have ok: "sel_ok fl np'" using supplies_id(8) same_item_ok [OF same] by simp
  then have ok': "sel_ok fl (np'\<lparr>i_curdist := d\<rparr>)" by (simp add: sel_ok_def)
  have iin: "item_in w mb (np'\<lparr>i_curdist := d\<rparr>) x = item_in w mb np x" for x
    using same by (simp add: item_in_def same_item_def)
  obtain d' where d': "item_selected w mb fl (np'\<lparr>i_curdist := d\<rparr>) x = Some (item_in w mb np x, np'\<lparr>i_curdist := d'\<rparr>)"
    using item_selected_in [OF ok', of w mb x] iin by auto
  have cond: "i_cond np' = i_cond np" using same by (simp add: same_item_def)
  have "x \<in> set (elts st)" using supplies_id(2,3,6) by (simp add: x_def)
  then obtain b where b: "nstr_exec env cnum (i_cond np) x = Some b" using supplies_id(9) by auto
  have u: "i_sel np \<noteq> NS_UNDEF" "i_sel np' \<noteq> NS_UNDEF" using supplies_id(8) ok by (simp_all add: sel_ok_def)
  have n: "next_item cnext (np\<lparr>i_curdist := d\<rparr>) = (True, np'\<lparr>i_curdist := d\<rparr>)" using supplies_id(1) by (simp add: next_item_curdist)
  have r: "nxtitem w env cnum mb fl cnext rd (np\<lparr>i_curdist := d\<rparr>) st =
      (if item_in w mb np x \<and> b then Some (Some x, np'\<lparr>i_curdist := d'\<rparr>, st')
       else nxtitem w env cnum mb fl cnext rd (np'\<lparr>i_curdist := d'\<rparr>) st')"
    using u st'(3) d' b cond
    by (subst nxtitem_def, subst nxtitem_loop.simps) (auto simp: n nxtitem_def)
  have it: "iterates (nxtitem w env cnum mb fl cnext rd) (np'\<lparr>i_curdist := d'\<rparr>) st'
      (filter (\<lambda>x. item_in w mb np x \<and> nstr_exec env cnum (i_cond np) x = Some True) (map (\<lambda>i. elts st ! nat i) ids))"
    using supplies_id(5) [of st' d'] supplies_id(6,9) st' ok cond same_item_in [OF same, of w mb] by simp
  show ?case
  proof (cases "item_in w mb np x \<and> b")
    case True
    then show ?thesis using r b it by (auto simp: iterates_Cons simp flip: x_def)
  next
    case False
    then have "nxtitem w env cnum mb fl cnext rd (np\<lparr>i_curdist := d\<rparr>) st = nxtitem w env cnum mb fl cnext rd (np'\<lparr>i_curdist := d'\<rparr>) st'"
      using r by argo
    from iterates_cong [where nxt = "nxtitem w env cnum mb fl cnext rd", OF this it] show ?thesis using False b by (auto simp flip: x_def)
  qed
qed

lemma nxtitem_iterates:
  assumes "supplies cnext (int (length (elts st))) np ids" "good st" "sel_ok fl np"
    "\<forall>x \<in> set (elts st). nstr_exec env cnum (i_cond np) x \<noteq> None"
  shows "iterates (nxtitem w env cnum mb fl cnext rd) np st
    (filter (\<lambda>x. item_in w mb np x \<and> nstr_exec env cnum (i_cond np) x = Some True) (map (\<lambda>i. elts st ! nat i) ids))"
  using nxtitem_iterates_from [OF assms(1) refl assms(2-4), of w mb "i_curdist np"] by simp

end

section \<open>The tables are what the iterators need\<close>

text \<open>The elements of a table as reading shows them.\<close>

definition seen :: "int \<Rightarrow> 'a db \<Rightarrow> 'a elt list" where
  "seen t d =
     map (\<lambda>i. let x = mark_fresh (empfile d t) (sys d) (contents (empfile d t) ! i)
              in case postread (empfile d t) of None \<Rightarrow> x | Some f \<Rightarrow> f (int i) x) [0..<length (contents (empfile d t))]"

definition readable_table :: "int \<Rightarrow> 'a::zero db \<Rightarrow> bool" where
  "readable_table t d \<longleftrightarrow> ef_check t \<and> tab_ok (empfile d t) \<and> (EFF_MEM \<in> flags (empfile d t) \<or> quiet (sys d))"

lemma tab_read_cases:
  assumes ok: "tab_ok ep" "EFF_MEM \<in> flags ep \<or> quiet e" and r: "tab_read ix (ep, e) = (r, ep', e')"
  shows "cache_moved ep ep' \<and> e' = e \<and> r = (if 0 \<le> ix \<and> ix < fids ep then
      Some (let y = mark_fresh ep e (contents ep ! nat ix) in case postread ep of None \<Rightarrow> y | Some f \<Rightarrow> f ix y) else None)"
proof -
  note m = tab_read_result [OF ok(1) r]
  show ?thesis
  proof (cases "0 \<le> ix \<and> ix < fids ep")
    case True
    then obtain x where "r = Some x" "e' = e" using m(3) ok(2) by auto
    then show ?thesis using m(1,2) True by simp
  next
    case False
    obtain c where "cache ep = Some c" by (rule tab_okD [OF ok(1)])
    then have "r = None \<and> e' = e" using r False by (auto simp: tab_read_def)
    then show ?thesis using m(1) False by auto
  qed
qed

lemma ef_read_seen:
  assumes "readable_table t st"
  shows "fst (ef_read t i st) = (if 0 \<le> i \<and> i < int (length (seen t st)) then Some (seen t st ! nat i) else None)"
    and "readable_table t (snd (ef_read t i st))" and "seen t (snd (ef_read t i st)) = seen t st"
proof -
  obtain r ep' e' where rd: "tab_read i (empfile st t, sys st) = (r, ep', e')" by (metis prod_cases3)
  have e: "ef_read t i st = (r, st\<lparr>empfile := (empfile st)(t := ep'), sys := e'\<rparr>)"
    using rd assms by (simp add: ef_read_def readable_table_def)
  have c: "cache_moved (empfile st t) ep'" "e' = sys st" "r = (if 0 \<le> i \<and> i < fids (empfile st t) then
      Some (let y = mark_fresh (empfile st t) (sys st) (contents (empfile st t) ! nat i)
            in case postread (empfile st t) of None \<Rightarrow> y | Some f \<Rightarrow> f i y) else None)"
    using tab_read_cases [OF _ _ rd] assms by (auto simp: readable_table_def)
  have f: "flags ep' = flags (empfile st t)" "postread ep' = postread (empfile st t)" "contents ep' = contents (empfile st t)" "tab_ok ep'"
    using c(1) by (auto simp: cache_moved_def)
  have l: "int (length (seen t st)) = fids (empfile st t)" using length_contents [of "empfile st t"] assms by (simp add: seen_def readable_table_def)
  then show "fst (ef_read t i st) = (if 0 \<le> i \<and> i < int (length (seen t st)) then Some (seen t st ! nat i) else None)"
  proof (cases "0 \<le> i \<and> i < fids (empfile st t)")
    case True
    from True have "nat i < length (contents (empfile st t))" using l by (auto simp: seen_def nat_less_iff)
    moreover from this have "[0..<length (contents (empfile st t))] ! nat i = nat i" by simp
    ultimately show ?thesis using True c(3) e l by (simp add: seen_def Let_def split: option.split)
  qed (use c(3) e l in auto)
  show "readable_table t (snd (ef_read t i st))" using assms e f c(2) by (simp add: readable_table_def)
  show "seen t (snd (ef_read t i st)) = seen t st" using e f c(2) by (simp add: seen_def mark_fresh_def)
qed

interpretation table_elements: elements "ef_read t" "seen t" "readable_table t" for t
  by unfold_locales (rule ef_read_seen; assumption)+

section \<open>The positions of a range are those in range\<close>

lemma axis_positions:
  assumes "0 \<le> l" "l < m" "0 < n" "n \<le> m" "h = (l + n - 1) mod (m::int)"
  shows "bij_betw (\<lambda>k. (l + k) mod m) {0..<n} {x. 0 \<le> x \<and> x < m \<and> \<not> (if l \<le> h then x < l \<or> x > h else x < l \<and> x > h)}"
proof (rule bij_betwI')
  have md: "(l + k) mod m = (if l + k \<ge> m then l + k - m else l + k)" if "0 \<le> k" "k < n" for k
    using mod_wrap [of l m k] assms that by auto
  have h: "h = (if l + n - 1 \<ge> m then l + n - 1 - m else l + n - 1)" using md [of "n - 1"] assms by (simp add: algebra_simps)
  fix x y assume x: "x \<in> {0..<n}"
  { assume y: "y \<in> {0..<n}"
    show "((l + x) mod m = (l + y) mod m) = (x = y)" using md [of x] md [of y] x y assms(4) by (auto split: if_splits)
  }
  show "(l + x) mod m \<in> {x. 0 \<le> x \<and> x < m \<and> \<not> (if l \<le> h then x < l \<or> x > h else x < l \<and> x > h)}"
    using md [of x] h x assms by (auto split: if_splits)
next
  have md: "(l + k) mod m = (if l + k \<ge> m then l + k - m else l + k)" if "0 \<le> k" "k < n" for k
    using mod_wrap [of l m k] assms that by auto
  have h: "h = (if l + n - 1 \<ge> m then l + n - 1 - m else l + n - 1)" using md [of "n - 1"] assms by (simp add: algebra_simps)
  fix y assume "y \<in> {x. 0 \<le> x \<and> x < m \<and> \<not> (if l \<le> h then x < l \<or> x > h else x < l \<and> x > h)}"
  then have y: "0 \<le> y" "y < m" "\<not> (if l \<le> h then y < l \<or> y > h else y < l \<and> y > h)" by auto
  define k where "k = (if y < l then y - l + m else y - l)"
  have "0 \<le> k" "k < n" using y h assms by (auto simp: k_def split: if_splits)
  moreover from this have "y = (l + k) mod m" using md [of k] y assms by (auto simp: k_def split: if_splits)
  ultimately show "\<exists>x \<in> {0..<n}. y = (l + x) mod m" by auto
qed

lemma set_cells: "set (cells_from r (- 1) 0) = {0..<width r} \<times> {0..<height r}" if "0 < height r"
proof -
  have "[0..height r - 1] = 0 # [0 + 1..height r - 1]" using that by (intro upto_rec1) simp
  then have "cells_from r (- 1) 0 = concat (map (row r 0) [0..height r - 1])" by (simp add: cells_from_def)
  then show ?thesis by (auto simp: row_def)
qed

lemma distinct_cells: "distinct (cells_from r (- 1) 0)" if "0 < height r"
proof -
  have "[0..height r - 1] = 0 # [0 + 1..height r - 1]" using that by (intro upto_rec1) simp
  then have e: "cells_from r (- 1) 0 = concat (map (row r 0) [0..height r - 1])" by (simp add: cells_from_def)
  have "distinct (concat (map (row r 0) ls))" if "distinct ls" for ls
    using that by (induction ls) (auto simp: row_def distinct_map inj_on_def)
  then show ?thesis by (simp add: e)
qed

lemma cells_positions:
  assumes "range_ok w r"
  shows "bij_betw (cell_xy w r) (set (cells_from r (- 1) 0))
    {(x, y). 0 \<le> x \<and> x < world_x w \<and> 0 \<le> y \<and> y < world_y w \<and> xyinrange x y r}"
proof -
  have r: "0 \<le> lx r" "lx r < world_x w" "0 < width r" "width r \<le> world_x w" "hx r = (lx r + width r - 1) mod world_x w"
    "0 \<le> ly r" "ly r < world_y w" "0 < height r" "height r \<le> world_y w" "hy r = (ly r + height r - 1) mod world_y w"
    using assms by (simp_all add: range_ok_def)
  have "bij_betw (map_prod (\<lambda>k. (lx r + k) mod world_x w) (\<lambda>k. (ly r + k) mod world_y w)) ({0..<width r} \<times> {0..<height r})
      ({x. 0 \<le> x \<and> x < world_x w \<and> \<not> (if lx r \<le> hx r then x < lx r \<or> x > hx r else x < lx r \<and> x > hx r)} \<times>
       {y. 0 \<le> y \<and> y < world_y w \<and> \<not> (if ly r \<le> hy r then y < ly r \<or> y > hy r else y < ly r \<and> y > hy r)})"
    by (rule bij_betw_map_prod [OF axis_positions [OF r(1-5)] axis_positions [OF r(6-10)]])
  moreover have "map_prod (\<lambda>k. (lx r + k) mod world_x w) (\<lambda>k. (ly r + k) mod world_y w) = cell_xy w r"
    by (simp add: cell_xy_def fun_eq_iff)
  moreover have "{x. 0 \<le> x \<and> x < world_x w \<and> \<not> (if lx r \<le> hx r then x < lx r \<or> x > hx r else x < lx r \<and> x > hx r)} \<times>
       {y. 0 \<le> y \<and> y < world_y w \<and> \<not> (if ly r \<le> hy r then y < ly r \<or> y > hy r else y < ly r \<and> y > hy r)} =
       {(x, y). 0 \<le> x \<and> x < world_x w \<and> 0 \<le> y \<and> y < world_y w \<and> xyinrange x y r}"
    by (auto simp: xyinrange_def)
  ultimately show ?thesis using set_cells [OF r(8)] by simp
qed

section \<open>What selections give\<close>

lemma set_map_filter: "(\<And>c. c \<in> set xs \<Longrightarrow> P c = (f c \<in> S)) \<Longrightarrow> set (map f (filter P xs)) = f ` set xs \<inter> S"
  by auto

lemma sectors_iterated:
  fixes env :: "('a::zero elt, 'd) objects"
  assumes w: "world_ok w" and d: "readable_table t d" "int (length (seen t d)) = WORLD_SZ w" and a: "at_cell w (- 1) 0 np"
    and ex: "\<forall>x. nstr_exec env cnum (s_cond np) x \<noteq> None"
  shows "\<exists>ps. iterates (nxtsct w env cnum (ef_read t)) np d (map (\<lambda>(x, y). seen t d ! nat (sctoff w x y)) ps) \<and> distinct ps \<and>
    set ps = {(x, y). sector_xy w x y \<and> xyinrange x y (s_range np) \<and>
      (s_type np = NS_DIST \<longrightarrow> mapdist w x y (s_cx np) (s_cy np) \<le> s_dist np) \<and>
      nstr_exec env cnum (s_cond np) (seen t d ! nat (sctoff w x y)) = Some True}"
proof -
  let ?r = "s_range np" and ?es = "seen t d"
  let ?c = "filter (wanted w env cnum ?es np) (cells_from ?r (- 1) 0)"
  have r: "range_ok w ?r" "0 < height ?r" using a by (simp_all add: at_cell_def range_ok_def)
  note b = cells_positions [OF r(1)]
  have "iterates (nxtsct w env cnum (ef_read t)) np d (map (\<lambda>c. ?es ! nat (sect_id w np c)) ?c)"
    using ex by (intro table_elements.nxtsct_iterates [OF d(1) a]) simp
  moreover have "map (\<lambda>c. ?es ! nat (sect_id w np c)) ?c = map (\<lambda>(x, y). ?es ! nat (sctoff w x y)) (map (cell_xy w ?r) ?c)"
    by (simp add: sect_id_def split_beta)
  moreover have "distinct (map (cell_xy w ?r) ?c)"
    using b distinct_cells [OF r(2)] by (auto simp: distinct_map bij_betw_def intro: inj_on_subset)
  moreover have "set (map (cell_xy w ?r) ?c) = {(x, y). sector_xy w x y \<and> xyinrange x y ?r \<and>
      (s_type np = NS_DIST \<longrightarrow> mapdist w x y (s_cx np) (s_cy np) \<le> s_dist np) \<and>
      nstr_exec env cnum (s_cond np) (?es ! nat (sctoff w x y)) = Some True}" (is "_ = ?S")
  proof -
    have "wanted w env cnum ?es np c \<longleftrightarrow> cell_xy w ?r c \<in> ?S" if "c \<in> set (cells_from ?r (- 1) 0)" for c
    proof -
      obtain x y where xy: "cell_xy w ?r c = (x, y)" by (cases "cell_xy w ?r c")
      have "(x, y) \<in> {(x, y). 0 \<le> x \<and> x < world_x w \<and> 0 \<le> y \<and> y < world_y w \<and> xyinrange x y ?r}"
        using b that xy unfolding bij_betw_def by (metis (no_types, lifting) image_eqI)
      then have i: "0 \<le> x" "x < world_x w" "0 \<le> y" "y < world_y w" "xyinrange x y ?r" by simp_all
      then have s: "sector_xy w x y \<longleftrightarrow> even (y + x)" by (auto simp: sector_xy_def)
      then have "0 \<le> sctoff w x y \<and> sctoff w x y < int (length ?es)" if "even (y + x)"
        using XYOFFSET_bounds [OF w, of x y] sctoff_sector [OF w, of x y] that d(2) by simp
      then show ?thesis using xy i s by (auto simp: wanted_def sect_id_def)
    qed
    then have "set (map (cell_xy w ?r) ?c) = cell_xy w ?r ` set (cells_from ?r (- 1) 0) \<inter> ?S" by (rule set_map_filter)
    also have "cell_xy w ?r ` set (cells_from ?r (- 1) 0) = {(x, y). 0 \<le> x \<and> x < world_x w \<and> 0 \<le> y \<and> y < world_y w \<and> xyinrange x y ?r}"
      using b by (simp add: bij_betw_def)
    finally show ?thesis by (auto simp: sector_xy_def)
  qed
  ultimately show ?thesis by (intro exI [of _ "map (cell_xy w ?r) ?c"]) simp
qed

lemma size_axis:
  assumes "0 \<le> l" "l < m" "0 \<le> h" "h < (m::int)" and n: "n = (if l > h then m + h + 1 - l else h + 1 - l)"
  shows "0 < n \<and> n \<le> m \<and> h = (l + n - 1) mod m"
proof -
  have "0 < n" "n \<le> m" using assms by (auto split: if_splits)
  moreover from this have "(l + (n - 1)) mod m = (if l + (n - 1) \<ge> m then l + (n - 1) - m else l + (n - 1))"
    using mod_wrap [of l m "n - 1"] assms by auto
  ultimately show ?thesis using assms by (auto simp: algebra_simps split: if_splits)
qed

lemma xysize_range_ok:
  assumes "0 \<le> lx r" "lx r < world_x w" "0 \<le> hx r" "hx r < world_x w" "0 \<le> ly r" "ly r < world_y w" "0 \<le> hy r" "hy r < world_y w"
  shows "range_ok w (xysize_range w r)"
  using size_axis [OF assms(1-4) refl] size_axis [OF assms(5-8) refl] assms
  by (simp add: range_ok_def xysize_range_def Let_def split: if_splits)

lemma xysize_range_corners [simp]:
  "lx (xysize_range w r) = lx r" "hx (xysize_range w r) = hx r" "ly (xysize_range w r) = ly r" "hy (xysize_range w r) = hy r"
  by (simp_all add: xysize_range_def Let_def)

lemma xyinrange_corners: "lx r = lx r' \<Longrightarrow> hx r = hx r' \<Longrightarrow> ly r = ly r' \<Longrightarrow> hy r = hy r' \<Longrightarrow> xyinrange x y r = xyinrange x y r'"
  by (simp add: xyinrange_def)

lemma dist_axis:
  assumes m: "0 < m" "even m" "m \<le> 16384" "0 \<le> c" "c < m" "0 \<le> k"
    and nrm: "\<And>x. - 32768 \<le> x \<Longrightarrow> x < 32768 \<Longrightarrow> nrm x = x mod (m::int)"
    and r: "(l, h, n) = (if 2 * k + 1 < m then (nrm (c - k), nrm (c + k), 2 * k + 1)
      else (let l = nrm (c - m sdiv 2) in (l, nrm (l + m - 1), m)))"
  shows "0 \<le> l \<and> l < m \<and> 0 < n \<and> n \<le> m \<and> h = (l + n - 1) mod m"
proof (cases "2 * k + 1 < m")
  case True
  have "nrm (c - k) = (c - k) mod m" "nrm (c + k) = (c + k) mod m" using True m by (auto intro!: nrm)
  moreover have "((c - k) mod m + (2 * k + 1) - 1) mod m = (c + k) mod m"
    by (metis (no_types, opaque_lifting) add.commute add_diff_cancel_right' diff_add_cancel mod_add_left_eq mult_2 add.left_commute add_diff_eq)
  ultimately show ?thesis using True r m by simp
next
  case False
  have "nrm (c - m sdiv 2) = (c - m div 2) mod m" using m by (auto simp: sdiv_nonneg intro!: nrm)
  then have l: "l = (c - m div 2) mod m" "n = m" "h = nrm (l + m - 1)" using False r by (simp_all add: Let_def)
  have b: "0 \<le> l" "l < m" using l(1) m by simp_all
  then have "nrm (l + m - 1) = (l + m - 1) mod m" using m by (intro nrm) auto
  then show ?thesis using b l(2,3) m(1) by simp
qed

lemma xydist_range_ok:
  assumes w: "world_ok w" and c: "sector_xy w cx cy" and d: "0 \<le> dist" and r: "xydist_range w cx cy dist = Some r"
  shows "range_ok w r"
proof -
  have W: "0 < world_x w" "even (world_x w)" "world_x w \<le> 16384" "0 < world_y w" "even (world_y w)" "world_y w \<le> 16384"
    using w by (simp_all add: world_okD)
  have xy: "0 \<le> cx" "cx < world_x w" "0 \<le> cy" "cy < world_y w" using c by (simp_all add: sector_xy_def)
  have "0 \<le> lx r \<and> lx r < world_x w \<and> 0 < width r \<and> width r \<le> world_x w \<and> hx r = (lx r + width r - 1) mod world_x w"
    using d r by (intro dist_axis [OF W(1-3) xy(1,2), of "2 * dist" "xnorm w"])
      (auto simp: xydist_range_def Let_def xnorm_mod [OF w] split: prod.splits if_splits)
  moreover have "0 \<le> ly r \<and> ly r < world_y w \<and> 0 < height r \<and> height r \<le> world_y w \<and> hy r = (ly r + height r - 1) mod world_y w"
    using d r by (intro dist_axis [OF W(4-6) xy(3,4), of dist "ynorm w"])
      (auto simp: xydist_range_def Let_def ynorm_mod [OF w] split: prod.splits if_splits)
  ultimately show ?thesis by (simp add: range_ok_def)
qed

lemma at_cell_start:
  "range_ok w r \<Longrightarrow> at_cell w (- 1) 0 ((snxtsct_area r)\<lparr>s_cond := cs\<rparr>)"
  "xydist_range w cx cy dist = Some r \<Longrightarrow> range_ok w r \<Longrightarrow> snxtsct_dist w cx cy dist = Some np \<Longrightarrow> at_cell w (- 1) 0 (np\<lparr>s_cond := cs\<rparr>)"
  by (auto simp: at_cell_def snxtsct_area_def snxtsct_dist_def range_ok_def Let_def)

lemma conditions_total:
  assumes "\<forall>c \<in> set cs. cond_ok god cas c \<and> literal_text c" "(t, cas) \<in> set cadef" "strings_ok env cas"
  shows "\<forall>x. nstr_exec env cnum cs x \<noteq> None"
  using exec_runs [OF assms(1) cadef_ok(1) [OF assms(2)] assms(3)] by (metis option.distinct(1))

lemma xabs_bounds:
  assumes "world_ok w" "0 \<le> nat_xorg org" "nat_xorg org < world_x w" "0 \<le> nat_yorg org" "nat_yorg org < world_y w"
    and "- 8192 \<le> x" "x \<le> 16383" "- 8192 \<le> y" "y \<le> 16383"
  shows "xabs w org x = (x + nat_xorg org) mod world_x w" "yabs w org y = (y + nat_yorg org) mod world_y w"
proof -
  have W: "0 < world_x w" "world_x w \<le> 16384" "0 < world_y w" "world_y w \<le> 16384" using assms(1) by (simp_all add: world_okD)
  have "to_coord x = x" "to_coord (x + nat_xorg org) = x + nat_xorg org" "to_coord y = y" "to_coord (y + nat_yorg org) = y + nat_yorg org"
    using assms W by (simp_all add: to_coord_id)
  moreover have "to_coord ((x + nat_xorg org) mod world_x w) = (x + nat_xorg org) mod world_x w"
    "to_coord ((y + nat_yorg org) mod world_y w) = (y + nat_yorg org) mod world_y w"
    using W pos_mod_bound [of "world_x w" "x + nat_xorg org"] pos_mod_bound [of "world_y w" "y + nat_yorg org"]
      pos_mod_sign [of "world_x w" "x + nat_xorg org"] pos_mod_sign [of "world_y w" "y + nat_yorg org"]
    by (intro to_coord_id; linarith)+
  ultimately show "xabs w org x = (x + nat_xorg org) mod world_x w" "yabs w org y = (y + nat_yorg org) mod world_y w"
    using W by (simp_all add: xabs_def yabs_def XNORM_mod YNORM_mod)
qed

lemma full_range:
  assumes w: "world_ok w" and l: "0 \<le> l" "l < world_x w" "0 \<le> b" "b < world_y w"
    and r: "r = xysize_range w \<lparr>lx = l, ly = b, hx = xnorm w (l + world_x w - 1), hy = ynorm w (b + world_y w - 1), width = 0, height = 0\<rparr>"
  shows "range_ok w r" and "sector_xy w x y \<Longrightarrow> xyinrange x y r"
proof -
  have W: "0 < world_x w" "world_x w \<le> 16384" "0 < world_y w" "world_y w \<le> 16384" using w by (simp_all add: world_okD)
  have n: "xnorm w (l + world_x w - 1) = (l + world_x w - 1) mod world_x w" "ynorm w (b + world_y w - 1) = (b + world_y w - 1) mod world_y w"
    using W l by (simp_all add: xnorm_mod [OF w] ynorm_mod [OF w])
  show "range_ok w r" unfolding r using l W n by (intro xysize_range_ok) simp_all
  show "xyinrange x y r" if "sector_xy w x y"
  proof -
    have xy: "0 \<le> x" "x < world_x w" "0 \<le> y" "y < world_y w" using that by (simp_all add: sector_xy_def)
    have c: "lx r = l" "hx r = (l + world_x w - 1) mod world_x w" "ly r = b" "hy r = (b + world_y w - 1) mod world_y w"
      by (simp_all add: r n)
    show ?thesis
      unfolding xyinrange_def c using range_axis_full [OF W(1) xy(1,2) l(1,2) refl] range_axis_full [OF W(3) xy(3,4) l(3,4) refl] by simp
  qed
qed


lemma supplies_list:
  assumes "i_sel np = NS_LIST" "- 1 \<le> i_index np"
  shows "supplies cnext n np (takeWhile (\<lambda>i. 0 \<le> i \<and> i < n) (drop (nat (i_index np + 1)) (i_list np)))"
  using assms
proof (induction "length (i_list np) - nat (i_index np + 1)" arbitrary: np)
  case 0
  then have "supplies cnext n np []"
    by (intro supplies_end [of _ _ "np\<lparr>i_index := i_index np + 1\<rparr>"]) (auto simp: next_item_def Let_def)
  then show ?case using 0 by simp
next
  case (Suc k)
  let ?j = "nat (i_index np + 1)"
  have j: "?j < length (i_list np)" using Suc.hyps(2) by simp
  define np' where "np' = np\<lparr>i_index := i_index np + 1, i_cur := i_list np ! ?j\<rparr>"
  have n: "next_item cnext np = (True, np')" using Suc.prems j by (auto simp: next_item_def Let_def np'_def)
  have sc: "nat (i_index np' + 1) = Suc ?j" using Suc.prems(2) by (simp add: np'_def)
  have e: "drop ?j (i_list np) = i_list np ! ?j # drop (nat (i_index np' + 1)) (i_list np')"
    unfolding sc using j by (simp add: np'_def Cons_nth_drop_Suc)
  have cur: "i_cur np' = i_list np ! ?j" by (simp add: np'_def)
  show ?case
  proof (cases "0 \<le> i_cur np' \<and> i_cur np' < n")
    case True
    have "supplies cnext n np' (takeWhile (\<lambda>i. 0 \<le> i \<and> i < n) (drop (nat (i_index np' + 1)) (i_list np')))"
      using Suc.hyps(2) Suc.prems sc by (intro Suc.hyps(1)) (simp_all add: np'_def)
    then show ?thesis using supplies_id [OF n] True cur by (simp add: e)
  next
    case False
    then show ?thesis using supplies_bad [OF n False] cur by (auto simp: e)
  qed
qed

lemma supplies_cargo:
  assumes "chain cnext (i_next np) us" "i_sel np = NS_CARGO" "\<forall>u \<in> set us. 0 \<le> u \<and> u < n"
  shows "supplies cnext n np us"
  using assms
proof (induction us arbitrary: np)
  case Nil
  then show ?case by (intro supplies_end [of _ _ np]) (simp add: next_item_def)
next
  case (Cons u us)
  let ?np = "np\<lparr>i_cur := u, i_next := cnext u\<rparr>"
  have n: "next_item cnext np = (True, ?np)" using Cons.prems by (simp add: next_item_def)
  have "supplies cnext n ?np us" using Cons.prems by (intro Cons.IH) simp_all
  then show ?case using supplies_id [OF n] Cons.prems(3) by simp
qed


section \<open>What is printed can be read\<close>

text \<open>How \<open>printf\<close> shows a number with \<open>%d\<close>, and \<open>xyas\<close> a position to the player of a country with the origin \<open>np\<close>.\<close>

definition print_int :: "int \<Rightarrow> string" where
  "print_int n = (if n < 0 then CHR ''-'' # decimal (- n) else decimal n)"

definition xyas :: "world \<Rightarrow> natorg \<Rightarrow> int \<Rightarrow> int \<Rightarrow> string" where
  "xyas w np x y = print_int (xrel w np x) @ CHR '','' # print_int (yrel w np y)"

lemma digit_cases: "0 \<le> d \<Longrightarrow> d < 10 \<Longrightarrow> d \<in> {0, 1, 2, 3, 4, 5, 6, 7, 8, 9 :: int}"
  unfolding insert_iff empty_iff by presburger

lemma decimal_digit_ok: "0 \<le> d \<Longrightarrow> d < 10 \<Longrightarrow> isdigit (decimal_digit d) \<and> digit_value (decimal_digit d) = d"
  by (drule (1) digit_cases) (auto simp: isdigit_def digit_value_def)

lemma decimal_ok:
  "0 \<le> n \<Longrightarrow> decimal n \<noteq> [] \<and> (\<forall>c \<in> set (decimal n). isdigit c) \<and> number_of_digits 10 (decimal n) = n"
proof (induction n rule: decimal.induct)
  case (1 n)
  show ?case
  proof (cases "n < 10")
    case True
    then show ?thesis using decimal_digit_ok [of n] 1(2) by (subst (1 2 3) decimal.simps) (simp add: number_of_digits_def)
  next
    case False
    have "number_of_digits 10 (decimal n) = number_of_digits 10 (decimal (n div 10)) * 10 + digit_value (decimal_digit (n mod 10))"
      using False by (subst decimal.simps) (simp add: number_of_digits_def del: decimal_digit.simps)
    moreover have "n mod 10 < 10" "0 \<le> n mod 10" by simp_all
    ultimately show ?thesis
      using False 1 decimal_digit_ok [of "n mod 10"] by (subst (1 2) decimal.simps) (auto simp del: decimal_digit.simps)
  qed
qed

lemma strtol10_print:
  assumes n: "- (2 ^ 63) \<le> n" "n < 2 ^ 63" and r: "rest = [] \<or> \<not> isdigit (hd rest)"
  shows "strtol10 (print_int n @ rest) = (n, length (print_int n), False)"
proof -
  define m where "m = (if n < 0 then - n else n)"
  have m: "decimal m \<noteq> []" "\<forall>c \<in> set (decimal m). isdigit c" "number_of_digits 10 (decimal m) = m"
    using decimal_ok [of m] by (auto simp: m_def)
  have p: "print_int n = (if n < 0 then [CHR ''-''] else []) @ decimal m" by (simp add: print_int_def m_def)
  have t: "takeWhile isdigit (decimal m @ rest) = decimal m" using m(2) r by (cases rest) (auto simp: takeWhile_append2)
  obtain c cs where cs: "decimal m = c # cs" using m(1) by (cases "decimal m") auto
  then have c: "\<not> isspace c" "c \<noteq> CHR ''+''" "c \<noteq> CHR ''-''" using m(2) by (auto simp: isdigit_def isspace_def)
  have cl: "clamp_long n = n" using n by (simp add: clamp_long_def)
  show ?thesis
  proof (cases "n < 0")
    case True
    have "\<not> isspace (CHR ''-'')" by (simp add: isspace_def)
    then show ?thesis using True p t m cl by (simp add: strtol10_def Let_def m_def)
  next
    case False
    have "hd (decimal m @ rest) = c" "takeWhile isspace (decimal m @ rest) = []" using cs c by simp_all
    then show ?thesis using False p t m cl c cs by (simp add: strtol10_def Let_def m_def)
  qed
qed

lemma print_int_nonempty [simp]: "print_int n \<noteq> []" "length (print_int n) \<noteq> 0"
  using decimal_ok [of n] by (auto simp: print_int_def)

lemma norm_coord_mod:
  assumes "world_ok w"
  shows "to_coord (XNORM w x) = x mod world_x w" "to_coord (YNORM w y) = y mod world_y w"
proof -
  have W: "0 < world_x w" "world_x w \<le> 16384" "0 < world_y w" "world_y w \<le> 16384" using assms by (simp_all add: world_okD)
  have "to_coord (x mod world_x w) = x mod world_x w" "to_coord (y mod world_y w) = y mod world_y w"
    using W pos_mod_bound [of "world_x w" x] pos_mod_bound [of "world_y w" y] pos_mod_sign [of "world_x w" x] pos_mod_sign [of "world_y w" y]
    by (intro to_coord_id; linarith)+
  then show "to_coord (XNORM w x) = x mod world_x w" "to_coord (YNORM w y) = y mod world_y w"
    using W by (simp_all add: XNORM_mod YNORM_mod)
qed

lemma strto_print:
  assumes "world_ok w" "- (2 ^ 63) \<le> n" "n < 2 ^ 63" "rest = [] \<or> \<not> isdigit (hd rest)"
  shows "strtox w (print_int n @ rest) = (n mod world_x w, rest)" "strtoy w (print_int n @ rest) = (n mod world_y w, rest)"
  using strtol10_print [OF assms(2-4)] by (simp_all add: strtox_def strtoy_def norm_coord_mod [OF assms(1)])

text \<open>Relative coordinates, read and made absolute.\<close>

lemma read_rel:
  assumes w: "world_ok w" and xy: "0 \<le> x" "x < world_x w" "0 \<le> y" "y < world_y w"
    and o: "0 \<le> nat_xorg np" "nat_xorg np < world_x w" "0 \<le> nat_yorg np" "nat_yorg np < world_y w"
  shows "xrel w np x mod world_x w = (x - nat_xorg np) mod world_x w" "yrel w np y mod world_y w = (y - nat_yorg np) mod world_y w"
    and "xabs w np (xrel w np x mod world_x w) = x" "yabs w np (yrel w np y mod world_y w) = y"
    and "- (2 ^ 63) \<le> xrel w np x" "xrel w np x < 2 ^ 63" "- (2 ^ 63) \<le> yrel w np y" "yrel w np y < 2 ^ 63"
proof -
  have W: "0 < world_x w" "world_x w \<le> 16384" "0 < world_y w" "world_y w \<le> 16384" using w by (simp_all add: world_okD)
  have h: "world_x w sdiv 2 = world_x w div 2" "world_y w sdiv 2 = world_y w div 2" using W by (simp_all add: sdiv_nonneg)
  define a b where "a = (x - nat_xorg np) mod world_x w" and "b = (y - nat_yorg np) mod world_y w"
  have ab: "0 \<le> a" "a < world_x w" "0 \<le> b" "b < world_y w" using W by (simp_all add: a_def b_def)
  have c: "to_coord x = x" "to_coord y = y" "to_coord (a - world_x w) = a - world_x w" "to_coord (b - world_y w) = b - world_y w"
    using xy W ab by (simp_all add: to_coord_id)
  have r: "xrel w np x = (if a \<ge> world_x w div 2 then a - world_x w else a)" "yrel w np y = (if b \<ge> world_y w div 2 then b - world_y w else b)"
    unfolding xrel_def yrel_def c(1,2) h norm_coord_mod [OF w] a_def [symmetric] b_def [symmetric] Let_def c(3,4) by simp_all
  have "(a - world_x w) mod world_x w = a" "(b - world_y w) mod world_y w = b"
    using ab by (simp_all add: mod_diff_right_eq [of _ "world_x w" "world_x w", symmetric] mod_diff_right_eq [of _ "world_y w" "world_y w", symmetric])
  then have m: "xrel w np x mod world_x w = a" "yrel w np y mod world_y w = b" using r ab by simp_all
  then show "xrel w np x mod world_x w = (x - nat_xorg np) mod world_x w" "yrel w np y mod world_y w = (y - nat_yorg np) mod world_y w"
    by (simp_all add: a_def b_def)
  have "xabs w np a = (a + nat_xorg np) mod world_x w" "yabs w np b = (b + nat_yorg np) mod world_y w"
    using xabs_bounds [OF w o, of a b] ab W by simp_all
  then show "xabs w np (xrel w np x mod world_x w) = x" "yabs w np (yrel w np y mod world_y w) = y"
    using xy m by (simp_all add: a_def b_def mod_add_left_eq)
  show "- (2 ^ 63) \<le> xrel w np x" "xrel w np x < 2 ^ 63" "- (2 ^ 63) \<le> yrel w np y" "yrel w np y < 2 ^ 63" using r ab W by simp_all
qed

lemma punctuation: "\<not> isdigit (CHR '','')" "\<not> isdigit (CHR '':'')" "\<not> isdigit (CHR ''/'')" "\<not> isspace (CHR ''/'')"
  by (simp_all add: isdigit_def isspace_def)

lemma xyas_read:
  assumes w: "world_ok w" and s: "sector_xy w x y" and o: "sector_xy w (nat_xorg np) (nat_yorg np)"
  shows "sarg_xy w np (xyas w np x y) = Some (x, y)"
proof -
  have W: "0 < world_x w" "0 < world_y w" "even (world_x w)" "even (world_y w)" using w by (simp_all add: world_okD)
  have xy: "0 \<le> x" "x < world_x w" "0 \<le> y" "y < world_y w" "0 \<le> nat_xorg np" "nat_xorg np < world_x w" "0 \<le> nat_yorg np" "nat_yorg np < world_y w"
    using s o by (simp_all add: sector_xy_def)
  note r = read_rel [OF w xy]
  have X: "strtox w (xyas w np x y) = (xrel w np x mod world_x w, CHR '','' # print_int (yrel w np y))"
    using strto_print(1) [OF w r(5,6), of "CHR '','' # print_int (yrel w np y)"] punctuation by (simp add: xyas_def)
  have Y: "strtoy w (print_int (yrel w np y)) = (yrel w np y mod world_y w, [])"
    using strto_print(2) [OF w r(7,8), of "[]"] by simp
  have "even (xrel w np x mod world_x w) = even (x - nat_xorg np)" "even (yrel w np y mod world_y w) = even (y - nat_yorg np)"
    using r(1,2) W by (simp_all add: even_mod_even)
  moreover have "even (x - nat_xorg np) = even (y - nat_yorg np)" using s o by (auto simp: sector_xy_def)
  ultimately have "odd (xrel w np x mod world_x w) = odd (yrel w np y mod world_y w)" by simp
  then show ?thesis using X Y r(3,4) W by (simp add: sarg_xy_def ch_def at_end_def not_less)
qed


text \<open>A list of identifiers.\<close>

fun ids_text :: "int list \<Rightarrow> string" where
  "ids_text [] = []"
| "ids_text [i] = print_int i"
| "ids_text (i # ids) = print_int i @ CHR ''/'' # ids_text ids"

lemma list_read:
  "ids \<noteq> [] \<Longrightarrow> distinct (acc @ ids) \<Longrightarrow> \<forall>i \<in> set ids. 0 \<le> i \<and> i < 2 ^ 31 \<Longrightarrow> length acc + length ids \<le> mx \<Longrightarrow>
    sarg_list_loop acc (ids_text ids) mx = Some (acc @ ids)"
proof (induction ids arbitrary: acc rule: ids_text.induct)
  case (2 i)
  have "to_int i = i" using 2 by (simp add: to_int_def signed_take_bit_int_eq_self)
  then show ?case using strtol10_print [of i "[]"] 2 by (subst sarg_list_loop.simps) (simp add: ch_def at_end_def)
next
  case (3 i j ids)
  have i: "to_int i = i" using 3(4) by (simp add: to_int_def signed_take_bit_int_eq_self)
  have "strtol10 (ids_text (i # j # ids)) = (i, length (print_int i), False)"
    using strtol10_print [of i "CHR ''/'' # ids_text (j # ids)"] 3(4) punctuation by simp
  moreover have "sarg_list_loop (acc @ [i]) (ids_text (j # ids)) mx = Some ((acc @ [i]) @ j # ids)"
    using 3(3-5) by (intro 3(1)) auto
  ultimately show ?case using 3(3,4,5) i by (subst sarg_list_loop.simps) (simp add: ch_def)
qed simp

section \<open>An example\<close>

text \<open>A world of 16 sectors, each a number, in a table kept in memory, and the objects' members.\<close>

definition small_world :: world where
  "small_world = \<lparr>world_x = 8, world_y = 4\<rparr>"

definition sector_elt :: "nat \<Rightarrow> int elt" where
  "sector_elt i = \<lparr>ef_type = 0, seqno = 5, generation = 0, uid = int i, timestamp = 0, body = int (i mod 4)\<rparr>"

definition sector_table :: "int empfile" where
  "sector_table = \<lparr>ep_uid = 0, ep_name = ''sect'', ep_file = True, ep_base = - 1, ep_size = 8, nent = - 1, flags = {EFF_MEM, EFF_XY, EFF_GROUP},
     cache = Some (map sector_elt [0..<16]), csize = 16, baseid = 0, cids = 16, fids = 16, fd = True, oninit = None, postread = None,
     prewrite = False, onresize = False, resized = 0, disk = [], disk_rest = 0\<rparr>"

definition sector_db :: "int db" where
  "sector_db = \<lparr>empfile = (\<lambda>_. sector_table), sys = \<lparr>calls = [], faults = 0, ef_generation = 7, time_now = 100, blksize = 16\<rparr>\<rparr>"

definition sector_objects :: "(int elt, int) objects" where
  "sector_objects =
     \<lparr>ob_int = \<lambda>t x offs i. body x, ob_dbl = \<lambda>t x offs i. body x, ob_chars = \<lambda>x offs. replicate 100 (CHR 0x00), ob_ptr = \<lambda>x offs i. [CHR 0x00],
      ob_lng = \<lambda>g x. body x, ob_att = \<lambda>g x. body x, ob_lchr = \<lambda>x. x, ob_key = (\<lambda>k. sector_elt k), ob_rel = \<lambda>x. None, d_of_long = \<lambda>n. n,
      d_less = (<), d_eq = (=), en_version = ''4.4'', en_maxnoc = 99, en_world = small_world, en_orig = \<lambda>c. \<lparr>nat_xorg = 0, nat_yorg = 0\<rparr>,
      en_god = \<lambda>c. c = 0, en_contact = \<lambda>c d. True, opt_HIDDEN = False\<rparr>"

definition sector_members :: "int elt members" where
  "sector_members = \<lparr>gp_x = (\<lambda>x. 2 * (uid x mod 4)), gp_y = (\<lambda>x. 0), gp_group = (\<lambda>x. CHR ''a'')\<rparr>"

lemma small_world_ok: "world_ok small_world"
  by (simp add: world_ok_def small_world_def)

lemma sector_db_ok: "readable_table 0 sector_db" "int (length (seen 0 sector_db)) = WORLD_SZ small_world" "length (seen 0 sector_db) = 16"
proof -
  have "contents sector_table = map sector_elt [0..<16]" by (simp add: contents_def sector_table_def)
  then show l: "length (seen 0 sector_db) = 16" by (simp add: seen_def sector_db_def)
  have "WORLD_SZ small_world = 16" by (simp add: WORLD_SZ_def small_world_def sdiv_nonneg)
  then show "int (length (seen 0 sector_db)) = WORLD_SZ small_world" using l by simp
  show "readable_table 0 sector_db"
    by (simp add: readable_table_def ef_check_def EF_MAX_def tab_ok_def sector_db_def sector_table_def FileTable.EF_BAD_def quiet_def)
qed

lemma sector_strings: "strings_ok sector_objects sect_ca"
proof -
  have "list_all (\<lambda>ca. ca_len ca \<le> 100) sect_ca" by (simp add: table_defs)
  then show ?thesis by (auto simp: strings_ok_def sector_objects_def list_all_iff)
qed

section \<open>Properties\<close>

text \<open>C36. The sector iterator over an area gives exactly the sectors of the area that satisfy the conditions, each once, and ends:
  also where the area extends over the edges of the map.\<close>

theorem nxtsct_area_exact:
  fixes env :: "('a::zero elt, 'd) objects"
  assumes "world_ok w" "readable_table t d" "int (length (seen t d)) = WORLD_SZ w"
    and "0 \<le> lx r" "lx r < world_x w" "0 \<le> hx r" "hx r < world_x w" "0 \<le> ly r" "ly r < world_y w" "0 \<le> hy r" "hy r < world_y w"
    and "\<forall>c \<in> set cs. cond_ok god sect_ca c \<and> literal_text c" "strings_ok env sect_ca"
  shows "\<exists>ps. iterates (nxtsct w env cnum (ef_read t)) ((snxtsct_area (xysize_range w r))\<lparr>s_cond := cs\<rparr>) d
      (map (\<lambda>(x, y). seen t d ! nat (sctoff w x y)) ps) \<and> distinct ps \<and>
    set ps = {(x, y). sector_xy w x y \<and> xyinrange x y r \<and> nstr_exec env cnum cs (seen t d ! nat (sctoff w x y)) = Some True}"
proof -
  let ?np = "(snxtsct_area (xysize_range w r))\<lparr>s_cond := cs\<rparr> :: 'd nstr_sect"
  have "(EF_SECTOR, sect_ca) \<in> set cadef" by (simp add: cadef_def)
  from conditions_total [OF assms(12) this assms(13)] have ex: "\<forall>x. nstr_exec env cnum (s_cond ?np) x \<noteq> None" by simp
  have f: "s_range ?np = xysize_range w r" "s_type ?np \<noteq> NS_DIST" "s_cond ?np = cs" by (simp_all add: snxtsct_area_def)
  have "xyinrange x y (xysize_range w r) = xyinrange x y r" for x y by (rule xyinrange_corners) simp_all
  then show ?thesis
    using sectors_iterated [OF assms(1-3) at_cell_start(1) [OF xysize_range_ok [OF assms(4-11)]] ex] unfolding f(1,3) using f(2) by simp
qed

lemma nxtsct_area_exact_witness:
  "\<exists>ps. iterates (nxtsct small_world sector_objects 1 (ef_read 0))
      ((snxtsct_area (xysize_range small_world \<lparr>lx = 6, ly = 3, hx = 1, hy = 0, width = 0, height = 0\<rparr>))\<lparr>s_cond := []\<rparr>) sector_db
      (map (\<lambda>(x, y). seen 0 sector_db ! nat (sctoff small_world x y)) ps) \<and> distinct ps \<and>
    set ps = {(x, y). sector_xy small_world x y \<and> xyinrange x y \<lparr>lx = 6, ly = 3, hx = 1, hy = 0, width = 0, height = 0\<rparr> \<and>
      nstr_exec sector_objects 1 [] (seen 0 sector_db ! nat (sctoff small_world x y)) = Some True}"
  by (rule nxtsct_area_exact [OF small_world_ok sector_db_ok(1,2) _ _ _ _ _ _ _ _ _ sector_strings]) (simp_all add: small_world_def)

text \<open>C35. The sector iterator over a distance, small enough for four times it to be an \<open>int\<close>, gives exactly the sectors within that distance
  that satisfy the conditions, each once, and ends; a larger distance makes \<open>xydist_range\<close> overflow.\<close>

theorem nxtsct_dist_exact:
  fixes env :: "('a::zero elt, 'd) objects"
  assumes "world_ok w" "readable_table t d" "int (length (seen t d)) = WORLD_SZ w" and "sector_xy w cx cy" "0 \<le> dist"
    and "\<forall>c \<in> set cs. cond_ok god sect_ca c \<and> literal_text c" "strings_ok env sect_ca"
  shows "if 4 * dist < 2 ^ 31
    then \<exists>np ps. snxtsct_dist w cx cy dist = Some np \<and>
      iterates (nxtsct w env cnum (ef_read t)) (np\<lparr>s_cond := cs\<rparr>) d (map (\<lambda>(x, y). seen t d ! nat (sctoff w x y)) ps) \<and> distinct ps \<and>
      set ps = {(x, y). sector_xy w x y \<and> mapdist w x y cx cy \<le> dist \<and>
        nstr_exec env cnum cs (seen t d ! nat (sctoff w x y)) = Some True}
    else (snxtsct_dist w cx cy dist :: 'd nstr_sect option) = None"
proof (cases "4 * dist < 2 ^ 31")
  case False
  then show ?thesis by (simp add: snxtsct_dist_def xydist_range_def fits_int_def)
next
  case True
  obtain r where r: "xydist_range w cx cy dist = Some r"
    using True assms(5) xydist_range_defined [of dist w cx cy] by (auto simp: fits_int_def)
  obtain np0 :: "'d nstr_sect" where np0: "snxtsct_dist w cx cy dist = Some np0" using r by (simp add: snxtsct_dist_def)
  let ?np = "np0\<lparr>s_cond := cs\<rparr>"
  have "(EF_SECTOR, sect_ca) \<in> set cadef" by (simp add: cadef_def)
  from conditions_total [OF assms(6) this assms(7)] have ex: "\<forall>x. nstr_exec env cnum (s_cond ?np) x \<noteq> None" by simp
  have f: "s_range ?np = r" "s_type ?np = NS_DIST" "s_cond ?np = cs" "s_cx ?np = cx" "s_cy ?np = cy" "s_dist ?np = dist"
    using np0 r by (auto simp: snxtsct_dist_def)
  have "xyinrange x y r" if "sector_xy w x y" "mapdist w x y cx cy \<le> dist" for x y
    by (rule xydist_range_covers [OF assms(1) that(1) assms(4,5) that(2) r])
  then have e: "{(x, y). sector_xy w x y \<and> xyinrange x y r \<and> mapdist w x y cx cy \<le> dist \<and>
        nstr_exec env cnum cs (seen t d ! nat (sctoff w x y)) = Some True} =
      {(x, y). sector_xy w x y \<and> mapdist w x y cx cy \<le> dist \<and> nstr_exec env cnum cs (seen t d ! nat (sctoff w x y)) = Some True}"
    by auto
  have "at_cell w (- 1) 0 ?np" by (rule at_cell_start(2) [OF r xydist_range_ok [OF assms(1,4,5) r] np0])
  from sectors_iterated [OF assms(1-3) this ex] show ?thesis using True np0 e unfolding f by simp
qed

lemma nxtsct_dist_exact_witness:
  "\<exists>np ps. snxtsct_dist small_world 7 3 1 = Some np \<and>
    iterates (nxtsct small_world sector_objects 1 (ef_read 0)) (np\<lparr>s_cond := []\<rparr>) sector_db
      (map (\<lambda>(x, y). seen 0 sector_db ! nat (sctoff small_world x y)) ps) \<and> distinct ps \<and>
    set ps = {(x, y). sector_xy small_world x y \<and> mapdist small_world x y 7 3 \<le> 1 \<and>
      nstr_exec sector_objects 1 [] (seen 0 sector_db ! nat (sctoff small_world x y)) = Some True}"
  using nxtsct_dist_exact [OF small_world_ok sector_db_ok(1,2) _ _ _ sector_strings, of 7 3 1 "[]"]
  by (simp add: small_world_def sector_xy_def)

text \<open>C34. Selecting \<open>*\<close>, with the condition the player has given, if any, succeeds when the condition compiles, and
  gives exactly the sectors that satisfy the compiled condition, each once, wherever the player's origin is; when the condition
  does not compile, the selection is refused.\<close>

theorem snxtsct_all_exact:
  fixes env :: "('a::zero elt, 'd) objects"
  assumes "world_ok w" "readable_table t d" "int (length (seen t d)) = WORLD_SZ w"
    and "0 \<le> nat_xorg org" "nat_xorg org < world_x w" "0 \<le> nat_yorg org" "nat_yorg org < world_y w"
    and "sarg_type str = NS_ALL" "\<forall>cond. p_condarg p = Some cond \<longrightarrow> CHR 0x00 \<notin> set cond"
    and "(case p_condarg p of None \<Rightarrow> Inr [] | Some cond \<Rightarrow> nstr_comp nm god strtod NS_NCOND sect_ca cond) = res"
    and "\<forall>cs. res = Inr cs \<longrightarrow> (\<forall>c \<in> set cs. literal_text c)" "strings_ok env sect_ca"
  shows "case res of
      Inl e \<Rightarrow> snxtsct w org realm nm god strtod p str = None
    | Inr cs \<Rightarrow> \<exists>np ps. snxtsct w org realm nm god strtod p str = Some np \<and>
        iterates (nxtsct w env cnum (ef_read t)) np d (map (\<lambda>(x, y). seen t d ! nat (sctoff w x y)) ps) \<and> distinct ps \<and>
        set ps = {(x, y). sector_xy w x y \<and> nstr_exec env cnum cs (seen t d ! nat (sctoff w x y)) = Some True}"
proof (cases res)
  case (Inl e)
  then show ?thesis using assms(8,10) by (cases "p_condarg p") (simp_all add: snxtsct_def snxtsct_use_condarg_def Let_def)
next
  case (Inr cs)
  have W: "0 < world_x w" "world_x w \<le> 16384" "0 < world_y w" "world_y w \<le> 16384" using assms(1) by (simp_all add: world_okD)
  let ?l = "xabs w org (- (world_x w sdiv 2))" and ?b = "yabs w org (- (world_y w sdiv 2))"
  let ?r = "xysize_range w \<lparr>lx = ?l, ly = ?b, hx = xnorm w (?l + world_x w - 1), hy = ynorm w (?b + world_y w - 1), width = 0, height = 0\<rparr>"
  let ?np = "(snxtsct_area ?r)\<lparr>s_cond := cs\<rparr> :: 'd nstr_sect"
  have lb: "0 \<le> ?l" "?l < world_x w" "0 \<le> ?b" "?b < world_y w"
    using xabs_bounds [OF assms(1,4-7), of "- (world_x w sdiv 2)" "- (world_y w sdiv 2)"] W by (simp_all add: sdiv_nonneg)
  note r = full_range [OF assms(1) lb refl]
  have "snxtsct_use_condarg nm god strtod p (snxtsct_area ?r) = Some ?np"
    using assms(10) Inr by (cases "p_condarg p") (simp_all add: snxtsct_use_condarg_def snxtsct_area_def)
  then have np: "snxtsct w org realm nm god strtod p str = Some ?np" using assms(8) by (simp add: snxtsct_def Let_def)
  have "\<forall>c \<in> set cs. cond_ok god sect_ca c"
  proof (cases "p_condarg p")
    case None
    then show ?thesis using assms(10) Inr by simp
  next
    case (Some cond)
    then have "nstr_comp nm god strtod NS_NCOND sect_ca cond = Inr cs" "CHR 0x00 \<notin> set cond" using assms(9,10) Inr by simp_all
    then show ?thesis by (rule comp_ok)
  qed
  moreover have "(EF_SECTOR, sect_ca) \<in> set cadef" by (simp add: cadef_def)
  ultimately have ex: "\<forall>x. nstr_exec env cnum (s_cond ?np) x \<noteq> None" using conditions_total [OF _ _ assms(12)] assms(11) Inr by simp
  have f: "s_range ?np = ?r" "s_type ?np \<noteq> NS_DIST" "s_cond ?np = cs" by (simp_all add: snxtsct_area_def)
  have a: "at_cell w (- 1) 0 ?np" by (rule at_cell_start(1) [OF r(1)])
  have "{(x, y). sector_xy w x y \<and> xyinrange x y ?r \<and> nstr_exec env cnum cs (seen t d ! nat (sctoff w x y)) = Some True} =
      {(x, y). sector_xy w x y \<and> nstr_exec env cnum cs (seen t d ! nat (sctoff w x y)) = Some True}"
    using r(2) by auto
  then show ?thesis using sectors_iterated [OF assms(1-3) a ex] Inr np unfolding f(1,3) using f(2) by simp
qed

text \<open>A condition of the example, and what it selects.\<close>

definition poor_sectors :: "int nscstr list" where
  "poor_sectors = [\<lparr>operator = CHR ''<'', optype = NSC_LONG, lft = nstr_mksymval (sect_ca ! 6) 0,
     rgt = \<lparr>val_type = NSC_LONG, val_cat = NSC_VAL, val_as = Lng 2\<rparr>\<rparr>]"

lemma poor_sectors_comp: "nstr_comp example_names False (\<lambda>s. (0 :: int, 0)) NS_NCOND sect_ca ''effic<2'' = Inr poor_sectors"
  unfolding poor_sectors_def by code_simp

lemma poor_sectors_ok: "\<forall>c \<in> set poor_sectors. cond_ok False sect_ca c \<and> literal_text c"
  using comp_ok [OF poor_sectors_comp] by (auto simp: poor_sectors_def literal_text_def)

lemma snxtsct_all_exact_witness:
  "\<exists>np ps. snxtsct small_world \<lparr>nat_xorg = 3, nat_yorg = 1\<rparr> (\<lambda>_. no_range) example_names False (\<lambda>s. (0 :: int, 0))
      \<lparr>p_cnum = 1, p_condarg = Some ''effic<2''\<rparr> ''*'' = Some np \<and>
    iterates (nxtsct small_world sector_objects 1 (ef_read 0)) np sector_db
      (map (\<lambda>(x, y). seen 0 sector_db ! nat (sctoff small_world x y)) ps) \<and> distinct ps \<and>
    set ps = {(x, y). sector_xy small_world x y \<and>
      nstr_exec sector_objects 1 poor_sectors (seen 0 sector_db ! nat (sctoff small_world x y)) = Some True}"
proof -
  let ?p = "\<lparr>p_cnum = 1, p_condarg = Some ''effic<2''\<rparr>" and ?org = "\<lparr>nat_xorg = 3, nat_yorg = 1\<rparr>"
  have s: "sarg_type ''*'' = NS_ALL" by (simp add: sarg_type_def ch_def)
  have o: "0 \<le> nat_xorg ?org" "nat_xorg ?org < world_x small_world" "0 \<le> nat_yorg ?org" "nat_yorg ?org < world_y small_world"
    by (simp_all add: small_world_def)
  have c: "(case p_condarg ?p of None \<Rightarrow> Inr [] | Some cond \<Rightarrow> nstr_comp example_names False (\<lambda>s. (0 :: int, 0)) NS_NCOND sect_ca cond)
      = Inr poor_sectors" using poor_sectors_comp by simp
  have z: "\<forall>cond. p_condarg ?p = Some cond \<longrightarrow> CHR 0x00 \<notin> set cond" by simp
  have l: "\<forall>cs. Inr poor_sectors = Inr cs \<longrightarrow> (\<forall>c \<in> set cs. literal_text c)" using poor_sectors_ok by auto
  from snxtsct_all_exact [OF small_world_ok sector_db_ok(1,2) o s z c _ sector_strings, of "\<lambda>_. no_range" 1] l
  show ?thesis by simp
qed



text \<open>C38. The item iterator over the cargo of a carrier gives exactly the units on its list that satisfy the conditions, in that order,
  and ends.\<close>

theorem nxtitem_cargo_list:
  fixes env :: "('a::zero elt, 'd) objects"
  assumes "readable_table c d" "carrier_ok ct v c (st, L)" "nclink st c \<le> int (length (seen c d))"
    and "(ty, cas) \<in> set cadef" "\<forall>cn \<in> set cs. cond_ok god cas cn \<and> literal_text cn" "strings_ok env cas"
  shows "iterates (nxtitem w env cnum mb fl (\<lambda>u. unit_cargo_next c u st) (ef_read c)) ((snxtitem_cargo tb (unit_cargo_first ct v c st))\<lparr>i_cond := cs\<rparr>) d
    (filter (\<lambda>x. nstr_exec env cnum cs x = Some True) (map (\<lambda>u. seen c d ! nat u) (L ct v c)))"
proof -
  let ?np = "(snxtitem_cargo tb (unit_cargo_first ct v c st))\<lparr>i_cond := cs\<rparr> :: 'd nstr_item"
  have k: "i_sel ?np = NS_CARGO" "i_next ?np = unit_cargo_first ct v c st" "i_cond ?np = cs" by (simp_all add: snxtitem_cargo_def zero_item_def)
  have o: "sel_ok fl ?np" "item_in w mb ?np x" for x using k(1) by (simp_all add: sel_ok_def item_in_def)
  have ex: "\<forall>x \<in> set (seen c d). nstr_exec env cnum (i_cond ?np) x \<noteq> None" using conditions_total [OF assms(5,4,6)] k(3) by simp
  have "set (L ct v c) \<subseteq> {0..<nclink st c}" using assms(2) cargo_relD(3) by (auto simp: carrier_ok_def)
  then have b: "\<forall>u \<in> set (L ct v c). 0 \<le> u \<and> u < int (length (seen c d))" using assms(3) by auto
  have "chain (\<lambda>u. unit_cargo_next c u st) (i_next ?np) (L ct v c)" using cargo_cursor.linked [OF assms(2)] k(2) by simp
  from table_elements.nxtitem_iterates [OF supplies_cargo [OF this k(1) b] assms(1) o(1) ex, of w mb] show ?thesis using o(2) k(3) by simp
qed

text \<open>Two planes, 1 and 2, on the ship 0.\<close>

lemma loaded_example:
  "\<exists>st L. Option.bind (unit_carrier_change 2 2 1 (- 1) 0 cargo_example) (unit_carrier_change 2 1 1 (- 1) 0) = Some st \<and>
     carrier_ok 1 0 2 (st, L) \<and> L 1 0 2 = [1, 2] \<and> nclink st 2 = 3"
proof -
  have ok: "cargo_rel cargo_example empty_lists" by (rule cargo_example_rel)
  have t: "1 \<in> units_types" "2 \<in> cargo_types" by (simp_all add: types_cases ef_defs)
  have n: "nclink cargo_example c = 3" for c by (simp add: cargo_example_def)
  obtain st1 where st1: "unit_carrier_change 2 2 1 (- 1) 0 cargo_example = Some st1"
    "cargo_rel st1 (change_carrier 2 2 1 (- 1) 0 empty_lists)" "nclink st1 = nclink cargo_example"
    using unit_carrier_change_rel [OF ok t, of 2 "- 1" 0] n by (auto simp: on_lists_def empty_lists_def)
  let ?L1 = "change_carrier 2 2 1 (- 1) 0 empty_lists"
  have L1: "?L1 1 0 2 = [2]" by (simp add: change_carrier_def set_list_def empty_lists_def)
  have "\<not> on_lists st1 ?L1 2 1" by (auto simp: on_lists_def change_carrier_def set_list_def empty_lists_def)
  then obtain st2 where st2: "unit_carrier_change 2 1 1 (- 1) 0 st1 = Some st2"
    "cargo_rel st2 (change_carrier 2 1 1 (- 1) 0 ?L1)" "nclink st2 = nclink st1"
    using unit_carrier_change_rel [OF st1(2) t, of 1 "- 1" 0] n st1(3) by auto
  have "change_carrier 2 1 1 (- 1) 0 ?L1 1 0 2 = [1, 2]" using L1 by (simp add: change_carrier_def set_list_def)
  then show ?thesis using st1 st2 t n by (auto simp: carrier_ok_def)
qed

lemma nxtitem_cargo_list_witness:
  "\<exists>st. Option.bind (unit_carrier_change 2 2 1 (- 1) 0 cargo_example) (unit_carrier_change 2 1 1 (- 1) 0) = Some st \<and>
    iterates (nxtitem small_world sector_objects 1 sector_members {} (\<lambda>u. unit_cargo_next 2 u st) (ef_read 2))
      ((snxtitem_cargo EF_PLANE (unit_cargo_first 1 0 2 st))\<lparr>i_cond := poor_sectors\<rparr>) sector_db [sector_elt 1]"
proof -
  obtain st L where st: "Option.bind (unit_carrier_change 2 2 1 (- 1) 0 cargo_example) (unit_carrier_change 2 1 1 (- 1) 0) = Some st"
    "carrier_ok 1 0 2 (st, L)" "L 1 0 2 = [1, 2]" "nclink st 2 = 3" using loaded_example by blast
  have s: "seen 2 sector_db = map sector_elt [0..<16]" by (simp add: seen_def sector_db_def contents_def sector_table_def mark_fresh_def)
  have r: "readable_table 2 sector_db" using sector_db_ok(1) by (simp add: readable_table_def sector_db_def ef_check_def EF_MAX_def)
  have n: "nclink st 2 \<le> int (length (seen 2 sector_db))" using st(4) s by simp
  have e: "nstr_exec sector_objects 1 poor_sectors (sector_elt 1) = Some True" "nstr_exec sector_objects 1 poor_sectors (sector_elt 2) = Some False"
    by code_simp+
  have "(EF_SECTOR, sect_ca) \<in> set cadef" by (simp add: cadef_def)
  note it = nxtitem_cargo_list [OF r st(2) n this poor_sectors_ok sector_strings, of small_world 1 sector_members "{}" EF_PLANE]
  have f: "filter (\<lambda>x. nstr_exec sector_objects 1 poor_sectors x = Some True) (map (\<lambda>u. seen 2 sector_db ! nat u) (L 1 0 2)) = [sector_elt 1]"
    using e st(3) s by (simp add: numeral_2_eq_2)
  show ?thesis using it [unfolded f] st(1) by blast
qed



text \<open>C39. The position of a sector, as \<open>xyas\<close> shows it to a player, relative to the player's origin, is read back by \<open>sarg_xy\<close> as
  that sector.\<close>

theorem sarg_xy_roundtrip:
  assumes "world_ok w" "sector_xy w x y" "sector_xy w (nat_xorg np) (nat_yorg np)"
  shows "sarg_xy w np (xyas w np x y) = Some (x, y)"
  by (rule xyas_read [OF assms])

lemma sarg_xy_roundtrip_witness:
  "sarg_xy small_world \<lparr>nat_xorg = 3, nat_yorg = 1\<rparr> (xyas small_world \<lparr>nat_xorg = 3, nat_yorg = 1\<rparr> 1 3) = Some (1, 3)"
  by (rule sarg_xy_roundtrip [OF small_world_ok]) (simp_all add: sector_xy_def small_world_def)

text \<open>So is a list of different identifiers.\<close>

lemma sarg_list_roundtrip:
  "ids \<noteq> [] \<Longrightarrow> distinct ids \<Longrightarrow> \<forall>i \<in> set ids. 0 \<le> i \<and> i < 2 ^ 31 \<Longrightarrow> length ids \<le> NS_LSIZE \<Longrightarrow> sarg_list (ids_text ids) NS_LSIZE = Some ids"
  using list_read [of ids "[]" NS_LSIZE] by (simp add: sarg_list_def)

text \<open>An iterator over a list stops at the first identifier that is not in the table, and gives nothing of the rest of the list.\<close>

lemma nxtitem_list_stops:
  fixes env :: "('a::zero elt, 'd) objects"
  assumes "readable_table t d" "snxtitem_list ty ids = Some np" "\<forall>x. nstr_exec env cnum cs x \<noteq> None"
  shows "iterates (nxtitem w env cnum mb fl cnext (ef_read t)) (np\<lparr>i_cond := cs\<rparr>) d
    (filter (\<lambda>x. nstr_exec env cnum cs x = Some True) (map (\<lambda>i. seen t d ! nat i) (takeWhile (\<lambda>i. 0 \<le> i \<and> i < int (length (seen t d))) ids)))"
proof -
  let ?np = "np\<lparr>i_cond := cs\<rparr>"
  have k: "i_sel ?np = NS_LIST" "i_index ?np = - 1" "i_list ?np = ids" "i_cond ?np = cs"
    using assms(2) by (auto simp: snxtitem_list_def zero_item_def split: if_splits)
  have o: "sel_ok fl ?np" "item_in w mb ?np x" for x using k(1) by (simp_all add: sel_ok_def item_in_def)
  have s: "supplies cnext (int (length (seen t d))) ?np (takeWhile (\<lambda>i. 0 \<le> i \<and> i < int (length (seen t d))) ids)"
    using supplies_list [OF k(1), of cnext] k by simp
  have "\<forall>x \<in> set (seen t d). nstr_exec env cnum (i_cond ?np) x \<noteq> None" using assms(3) k(4) by simp
  from table_elements.nxtitem_iterates [OF s assms(1) o(1) this, of w mb] show ?thesis using o(2) k(4) by simp
qed

text \<open>An identifier that does not fit into an \<open>int\<close> is stored cut off.\<close>

lemma sarg_list_cuts: "sarg_list ''0/4294967296'' 128 = Some [0, 0]"
  by code_simp

text \<open>A distance likewise: one that is too large for an \<open>int\<close> becomes negative.\<close>

lemma sarg_range_negative: "map_option (\<lambda>(x, y, dist). dist) (sarg_range small_world \<lparr>nat_xorg = 0, nat_yorg = 0\<rparr> ''@0,0:4294967295'') = Some (- 1)"
  by code_simp

end
