(* ===== verification/Coastal.thy ===== *)
theory Coastal
  imports PathSearch
begin

text \<open>
  Whether sectors are on the coast, and keeping that up to date when a sector's type changes: \<open>src/lib/subs/coastal.c\<close>, and its use
  where the sectors change places, \<open>src/lib/commands/swap.c\<close>. Of a sector there are the members these functions look at, and \<open>sct_rest\<close>
  for the others. The table of sectors is a function from their numbers; that \<open>ef_read\<close> and \<open>ef_write\<close> are that is shown in \<open>FileTable\<close>.
\<close>

section \<open>Sectors\<close>

record 'a sctstr =
  sct_uid :: int
  sct_x :: int
  sct_y :: int
  sct_type :: nat
  sct_coastal :: int
  sct_dist_x :: int
  sct_dist_y :: int
  sct_rest :: 'a

type_synonym 'a sects = "int \<Rightarrow> 'a sctstr"

definition SCT_WATER :: nat where "SCT_WATER = 0"
definition SCT_BSPAN :: nat where "SCT_BSPAN = 28"
definition SCT_BTOWER :: nat where "SCT_BTOWER = 33"

definition getsect :: "world \<Rightarrow> int \<Rightarrow> int \<Rightarrow> 'a sects \<Rightarrow> 'a sctstr" where
  "getsect w x y st = st (sctoff w x y)"

definition putsect :: "'a sctstr \<Rightarrow> 'a sects \<Rightarrow> 'a sects" where
  "putsect sp st = st(sct_uid sp := sp)"

section \<open>Coastal flags\<close>

text \<open>The test of \<open>update_coastal_flag\<close> and \<open>set_coastal\<close>.\<close>

definition is_water :: "nat \<Rightarrow> bool" where
  "is_water t \<longleftrightarrow> t = SCT_WATER \<or> t = SCT_BTOWER \<or> t = SCT_BSPAN"

definition sect_at :: "world \<Rightarrow> int \<Rightarrow> int \<Rightarrow> nat \<Rightarrow> 'a sects \<Rightarrow> 'a sctstr" where
  "sect_at w x y n st = getsect w (x + fst (diroff ! n)) (y + snd (diroff ! n)) st"

definition update_coastal_flag :: "world \<Rightarrow> int \<Rightarrow> int \<Rightarrow> int \<Rightarrow> int \<Rightarrow> 'a sects \<Rightarrow> int" where
  "update_coastal_flag w x y ign_x ign_y st =
     (if list_ex (\<lambda>n. let sect = sect_at w x y n st in \<not> (sct_x sect = ign_x \<and> sct_y sect = ign_y) \<and> is_water (sct_type sect)) [1..<7]
      then 1 else 0)"

definition sea_to_land_step :: "world \<Rightarrow> int \<Rightarrow> int \<Rightarrow> nat \<Rightarrow> 'a sects \<Rightarrow> 'a sects" where
  "sea_to_land_step w x y n st =
     (let sect = sect_at w x y n st; c = update_coastal_flag w (sct_x sect) (sct_y sect) x y st
      in if (sct_coastal sect = 0) \<noteq> (c = 0) then putsect (sect\<lparr>sct_coastal := c\<rparr>) st else st)"

definition coastal_sea_to_land :: "world \<Rightarrow> int \<Rightarrow> int \<Rightarrow> 'a sects \<Rightarrow> int \<times> 'a sects" where
  "coastal_sea_to_land w x y st =
     (let st = fold (sea_to_land_step w x y) [1..<7] st in (update_coastal_flag w x y x y st, st))"

definition land_to_sea_step :: "world \<Rightarrow> int \<Rightarrow> int \<Rightarrow> nat \<Rightarrow> 'a sects \<Rightarrow> 'a sects" where
  "land_to_sea_step w x y n st =
     (let sect = sect_at w x y n st in if sct_coastal sect = 0 then putsect (sect\<lparr>sct_coastal := 1\<rparr>) st else st)"

definition coastal_land_to_sea :: "world \<Rightarrow> int \<Rightarrow> int \<Rightarrow> 'a sects \<Rightarrow> int \<times> 'a sects" where
  "coastal_land_to_sea w x y st = (1, fold (land_to_sea_step w x y) [1..<7] st)"

definition set_coastal :: "world \<Rightarrow> 'a sctstr \<Rightarrow> nat \<Rightarrow> nat \<Rightarrow> 'a sects \<Rightarrow> 'a sctstr \<times> 'a sects" where
  "set_coastal w sp olddes newdes st =
     (if is_water newdes \<noteq> is_water olddes then
        let (c, st) = (if is_water newdes then coastal_land_to_sea w (sct_x sp) (sct_y sp) st else coastal_sea_to_land w (sct_x sp) (sct_y sp) st)
        in (sp\<lparr>sct_coastal := c\<rparr>, st)
      else (sp, st))"

text \<open>
  Changing the type of a sector, as \<open>edit\<close> does it between reading and writing the sector, and \<open>swap\<close> once both sectors have been found fit
  for it.
\<close>

definition designate :: "world \<Rightarrow> int \<Rightarrow> int \<Rightarrow> nat \<Rightarrow> 'a sects \<Rightarrow> 'a sects" where
  "designate w x y des st =
     (let sp = getsect w x y st; (sp, st) = set_coastal w sp (sct_type sp) des st in putsect (sp\<lparr>sct_type := des\<rparr>) st)"

definition swap_sectors :: "world \<Rightarrow> 'a sctstr \<Rightarrow> 'a sctstr \<Rightarrow> 'a sects \<Rightarrow> 'a sects" where
  "swap_sectors w secta sectb st =
     (let tmp = secta;
          secta = secta\<lparr>sct_x := sct_x sectb, sct_y := sct_y sectb, sct_uid := sct_uid sectb, sct_dist_x := sct_x sectb,
            sct_dist_y := sct_y sectb, sct_coastal := sct_coastal sectb\<rparr>;
          sectb = sectb\<lparr>sct_x := sct_x tmp, sct_y := sct_y tmp, sct_uid := sct_uid tmp, sct_dist_x := sct_x tmp,
            sct_dist_y := sct_y tmp, sct_coastal := sct_coastal tmp\<rparr>;
          st = putsect sectb st;
          (secta, st) = set_coastal w secta (sct_type sectb) (sct_type secta) st;
          st = putsect secta st;
          sectb = getsect w (sct_x sectb) (sct_y sectb) st;
          (sectb, st) = set_coastal w sectb (sct_type secta) (sct_type sectb) st
      in putsect sectb st)"

section \<open>Neighbours\<close>

text \<open>Sectors are numbered and placed as their number in the table says.\<close>

definition placed :: "world \<Rightarrow> 'a sects \<Rightarrow> bool" where
  "placed w st \<longleftrightarrow> (\<forall>x y. sector_xy w x y \<longrightarrow> sct_uid (getsect w x y st) = sctoff w x y \<and> sct_x (getsect w x y st) = x \<and> sct_y (getsect w x y st) = y)"

definition type_at :: "world \<Rightarrow> 'a sects \<Rightarrow> int \<times> int \<Rightarrow> nat" where
  "type_at w st p = sct_type (getsect w (fst p) (snd p) st)"

definition flag_at :: "world \<Rightarrow> 'a sects \<Rightarrow> int \<times> int \<Rightarrow> bool" where
  "flag_at w st p \<longleftrightarrow> sct_coastal (getsect w (fst p) (snd p) st) \<noteq> 0"

definition nbs :: "world \<Rightarrow> int \<times> int \<Rightarrow> (int \<times> int) set" where
  "nbs w p = {sector_step w n p | n. hexdir n}"

abbreviation sector :: "world \<Rightarrow> int \<times> int \<Rightarrow> bool" where
  "sector w p \<equiv> sector_xy w (fst p) (snd p)"

lemma nb_sector: "world_ok w \<Longrightarrow> sector w p \<Longrightarrow> q \<in> nbs w p \<Longrightarrow> sector w q"
proof -
  assume w: "world_ok w" "sector w p" and "q \<in> nbs w p"
  then obtain n where n: "hexdir n" "q = sector_step w n p" unfolding nbs_def by blast
  then show "sector w q" using sector_step_xy [OF w n(1), of "fst q" "snd q"] by simp
qed

lemma nb_sym: "world_ok w \<Longrightarrow> sector w p \<Longrightarrow> q \<in> nbs w p \<Longrightarrow> p \<in> nbs w q"
proof -
  assume w: "world_ok w" "sector w p" and "q \<in> nbs w p"
  then obtain n where n: "hexdir n" "q = sector_step w n p" unfolding nbs_def by blast
  then have "p = sector_step w (DIR_BACK n) q" using step_back [OF w n(1)] by simp
  then show "p \<in> nbs w q" using DIR_BACK_hexdir [OF n(1)] unfolding nbs_def by blast
qed

lemma nb_other:
  assumes w: "world_ok w" "2 < world_x w" and p: "sector w p" and q: "q \<in> nbs w p"
  shows "q \<noteq> p"
proof
  assume "q = p"
  then obtain n where n: "hexdir n" "sector_step w n p = p" using q unfolding nbs_def by auto
  have e: "XNORM w (fst p + fst (diroff ! n)) = fst p" using arg_cong [OF n(2), of fst] by (simp add: sector_step_def)
  have W: "0 < world_x w" "0 < world_y w" "even (world_x w)" using w by (simp_all add: world_okD)
  have "(fst p + fst (diroff ! n)) mod world_x w = fst p mod world_x w"
    using e W p by (simp add: XNORM_mod sector_xy_def)
  then have "world_x w dvd fst (diroff ! n)" by (metis add_diff_cancel_left' mod_eq_dvd_iff)
  then have "world_x w \<le> \<bar>fst (diroff ! n)\<bar> \<or> fst (diroff ! n) = 0" using zdvd_imp_le [of "world_x w" "\<bar>fst (diroff ! n)\<bar>"] by auto
  then show False using W(3) w(2) by (rule_tac hexdir_cases [OF n(1)]) auto
qed

lemma sect_at_step:
  assumes "world_ok w" "sector w p" "hexdir n"
  shows "sect_at w (fst p) (snd p) n st = (case sector_step w n p of (x, y) \<Rightarrow> getsect w x y st)"
proof -
  have W: "0 < world_x w" "0 < world_y w" using assms(1) by (simp_all add: world_okD)
  have s: "sector w (sector_step w n p)" using sector_step_xy [OF assms(1) assms(2,3)] by (metis prod.collapse)
  have "even (fst p + fst (diroff ! n) + (snd p + snd (diroff ! n)))"
    using diroff_hexdir(2) [OF assms(3)] assms(2) by (simp add: sector_xy_def)
  then have "sctoff w (fst p + fst (diroff ! n)) (snd p + snd (diroff ! n)) =
      sctoff w (fst (sector_step w n p)) (snd (sector_step w n p))"
    using sctoff_sector [OF assms(1) s] by (simp add: sctoff_def sector_step_def)
  then show ?thesis by (simp add: sect_at_def getsect_def split_beta)
qed

text \<open>The table as a function of positions.\<close>

lemma getsect_put:
  assumes "world_ok w" "sector w p" "sector w q" "sct_uid s = sctoff w (fst p) (snd p)"
  shows "getsect w (fst q) (snd q) (putsect s st) = (if q = p then s else getsect w (fst q) (snd q) st)"
  using XYOFFSET_inj [OF assms(1,2,3)] sctoff_sector [OF assms(1,2)] sctoff_sector [OF assms(1,3)] assms(4)
  by (auto simp: getsect_def putsect_def prod_eq_iff)

text \<open>Tables that differ in coastal flags only.\<close>

definition keeps :: "world \<Rightarrow> 'a sects \<Rightarrow> 'a sects \<Rightarrow> bool" where
  "keeps w st st' \<longleftrightarrow> (\<forall>q. sector w q \<longrightarrow> (\<exists>c. getsect w (fst q) (snd q) st' = (getsect w (fst q) (snd q) st)\<lparr>sct_coastal := c\<rparr>))"

lemma keeps_refl: "keeps w st st"
proof -
  have "s = s\<lparr>sct_coastal := sct_coastal s\<rparr>" for s :: "'a sctstr" by simp
  then show ?thesis unfolding keeps_def by metis
qed

lemma keepsD:
  assumes "keeps w st st'"
  shows "placed w st \<Longrightarrow> placed w st'" and "sector w q \<Longrightarrow> type_at w st' q = type_at w st q"
proof -
  show "placed w st'" if "placed w st"
    unfolding placed_def
  proof (intro allI impI)
    fix x y assume s: "sector_xy w x y"
    then obtain c where "getsect w x y st' = (getsect w x y st)\<lparr>sct_coastal := c\<rparr>" using assms unfolding keeps_def by fastforce
    then show "sct_uid (getsect w x y st') = sctoff w x y \<and> sct_x (getsect w x y st') = x \<and> sct_y (getsect w x y st') = y"
      using that s by (simp add: placed_def)
  qed
  show "type_at w st' q = type_at w st q" if "sector w q"
    using assms that unfolding keeps_def type_at_def by fastforce
qed

lemma keeps_trans: "keeps w st st' \<Longrightarrow> keeps w st' st'' \<Longrightarrow> keeps w st st''"
  unfolding keeps_def by fastforce

lemma keeps_put:
  assumes "world_ok w" "placed w st" "sector w q"
  shows "keeps w st (putsect ((getsect w (fst q) (snd q) st)\<lparr>sct_coastal := c\<rparr>) st)"
    and "sector w q' \<Longrightarrow> flag_at w (putsect ((getsect w (fst q) (snd q) st)\<lparr>sct_coastal := c\<rparr>) st) q' = (if q' = q then c \<noteq> 0 else flag_at w st q')"
proof -
  let ?s = "(getsect w (fst q) (snd q) st)\<lparr>sct_coastal := c\<rparr>"
  have u: "sct_uid ?s = sctoff w (fst q) (snd q)" using assms by (simp add: placed_def)
  note g = getsect_put [OF assms(1,3) _ u]
  have "\<exists>c'. getsect w (fst p) (snd p) (putsect ?s st) = (getsect w (fst p) (snd p) st)\<lparr>sct_coastal := c'\<rparr>" if "sector w p" for p
  proof (cases "p = q")
    case True
    then show ?thesis using g [OF that] by auto
  next
    case False
    then have "getsect w (fst p) (snd p) (putsect ?s st) = (getsect w (fst p) (snd p) st)\<lparr>sct_coastal := sct_coastal (getsect w (fst p) (snd p) st)\<rparr>"
      using g [OF that] by simp
    then show ?thesis by blast
  qed
  then show "keeps w st (putsect ?s st)" by (simp add: keeps_def)
  show "flag_at w (putsect ?s st) q' = (if q' = q then c \<noteq> 0 else flag_at w st q')" if "sector w q'"
    using g [OF that] by (simp add: flag_at_def)
qed

lemma update_coastal_flag_means:
  assumes "world_ok w" "placed w st" "sector w q"
  shows "update_coastal_flag w (fst q) (snd q) ix iy st \<noteq> 0 \<longleftrightarrow> (\<exists>m \<in> nbs w q. m \<noteq> (ix, iy) \<and> is_water (type_at w st m))"
proof -
  have "(let s = sect_at w (fst q) (snd q) n st in \<not> (sct_x s = ix \<and> sct_y s = iy) \<and> is_water (sct_type s)) \<longleftrightarrow>
      sector_step w n q \<noteq> (ix, iy) \<and> is_water (type_at w st (sector_step w n q))" if "hexdir n" for n
  proof -
    have s: "sector w (sector_step w n q)" using nb_sector [OF assms(1,3)] that unfolding nbs_def by blast
    then show ?thesis
      using sect_at_step [OF assms(1,3) that, of st] assms(2) by (auto simp: Let_def placed_def type_at_def split_beta prod_eq_iff)
  qed
  then have "list_ex (\<lambda>n. let s = sect_at w (fst q) (snd q) n st in \<not> (sct_x s = ix \<and> sct_y s = iy) \<and> is_water (sct_type s)) [1..<7] \<longleftrightarrow>
      (\<exists>m \<in> nbs w q. m \<noteq> (ix, iy) \<and> is_water (type_at w st m))"
    unfolding list_ex_iff nbs_def by fastforce
  then show ?thesis by (simp add: update_coastal_flag_def)
qed

lemma fold_flags:
  assumes "\<And>n st. hexdir n \<Longrightarrow> keeps w st0 st \<Longrightarrow> keeps w st0 (f n st) \<and>
      (\<forall>q. sector w q \<longrightarrow> flag_at w (f n st) q = (if q = sector_step w n p then G q else flag_at w st q))"
  shows "\<forall>n \<in> set ns. hexdir n \<Longrightarrow> keeps w st0 st \<Longrightarrow> keeps w st0 (fold f ns st) \<and>
    (\<forall>q. sector w q \<longrightarrow> flag_at w (fold f ns st) q = (if \<exists>n \<in> set ns. q = sector_step w n p then G q else flag_at w st q))"
proof (induction ns arbitrary: st)
  case (Cons n ns)
  note n = assms [of n st]
  then have "keeps w st0 (fold f ns (f n st)) \<and>
      (\<forall>q. sector w q \<longrightarrow> flag_at w (fold f ns (f n st)) q = (if \<exists>n \<in> set ns. q = sector_step w n p then G q else flag_at w (f n st) q))"
    using Cons by simp
  then have F: "keeps w st0 (fold f ns (f n st))"
    "\<And>q. sector w q \<Longrightarrow> flag_at w (fold f ns (f n st)) q = (if \<exists>n \<in> set ns. q = sector_step w n p then G q else flag_at w (f n st) q)" by blast+
  have N: "\<And>q. sector w q \<Longrightarrow> flag_at w (f n st) q = (if q = sector_step w n p then G q else flag_at w st q)"
    using conjunct2 [OF n] Cons.prems by fastforce
  have "flag_at w (fold f (n # ns) st) q = (if \<exists>n \<in> set (n # ns). q = sector_step w n p then G q else flag_at w st q)" if "sector w q" for q
    using F(2) [OF that] N [OF that] by (cases "\<exists>n \<in> set ns. q = sector_step w n p"; cases "q = sector_step w n p") simp_all
  then show ?case using F(1) by simp
qed simp

lemma fold_nbs:
  assumes "\<And>n st. hexdir n \<Longrightarrow> keeps w st0 st \<Longrightarrow> keeps w st0 (f n st) \<and>
      (\<forall>q. sector w q \<longrightarrow> flag_at w (f n st) q = (if q = sector_step w n p then G q else flag_at w st q))"
  shows "keeps w st0 (fold f [1..<7] st0)" and "sector w q \<Longrightarrow> flag_at w (fold f [1..<7] st0) q = (if q \<in> nbs w p then G q else flag_at w st0 q)"
proof -
  have h: "\<forall>n \<in> set [1..<7]. hexdir n" by auto
  note F = fold_flags [OF assms h keeps_refl]
  show "keeps w st0 (fold f [1..<7] st0)" using F by blast
  have "(\<exists>n \<in> set [1..<7]. q = sector_step w n p) \<longleftrightarrow> q \<in> nbs w p" unfolding nbs_def by fastforce
  then show "sector w q \<Longrightarrow> flag_at w (fold f [1..<7] st0) q = (if q \<in> nbs w p then G q else flag_at w st0 q)" using F by presburger
qed

text \<open>What \<open>set_coastal\<close> does: it makes the flags of the neighbours right for the new type, and computes the sector's own.\<close>

lemma sea_to_land_flags:
  assumes w: "world_ok w" "placed w st" "sector w p" and r: "coastal_sea_to_land w (fst p) (snd p) st = (c, st')"
  shows "keeps w st st'" and "sector w q \<Longrightarrow> flag_at w st' q =
      (if q \<in> nbs w p then \<exists>m \<in> nbs w q. m \<noteq> p \<and> is_water (type_at w st m) else flag_at w st q)"
    and "c \<noteq> 0 \<longleftrightarrow> (\<exists>m \<in> nbs w p. m \<noteq> p \<and> is_water (type_at w st m))"
proof -
  have step: "keeps w st (sea_to_land_step w (fst p) (snd p) n s) \<and>
      (\<forall>q. sector w q \<longrightarrow> flag_at w (sea_to_land_step w (fst p) (snd p) n s) q =
        (if q = sector_step w n p then \<exists>m \<in> nbs w q. m \<noteq> p \<and> is_water (type_at w st m) else flag_at w s q))"
    if n: "hexdir n" and k: "keeps w st s" for n s
  proof -
    define q where "q = sector_step w n p"
    have q: "sector w q" using nb_sector [OF w(1,3)] n unfolding nbs_def q_def by blast
    have pl: "placed w s" by (rule keepsD(1) [OF k w(2)])
    let ?s = "getsect w (fst q) (snd q) s"
    have a: "sect_at w (fst p) (snd p) n s = ?s" using sect_at_step [OF w(1,3) n, of s] by (simp add: q_def split_beta)
    have xy: "sct_x ?s = fst q" "sct_y ?s = snd q" using pl q by (simp_all add: placed_def)
    let ?c = "update_coastal_flag w (fst q) (snd q) (fst p) (snd p) s"
    have tm: "type_at w s m = type_at w st m" if "m \<in> nbs w q" for m using keepsD(2) [OF k nb_sector [OF w(1) q that]] .
    have c: "?c \<noteq> 0 \<longleftrightarrow> (\<exists>m \<in> nbs w q. m \<noteq> p \<and> is_water (type_at w st m))"
      using update_coastal_flag_means [OF w(1) pl q, of "fst p" "snd p"] tm by simp
    have e: "sea_to_land_step w (fst p) (snd p) n s = (if (sct_coastal ?s = 0) \<noteq> (?c = 0) then putsect (?s\<lparr>sct_coastal := ?c\<rparr>) s else s)"
      by (simp add: sea_to_land_step_def a xy)
    note put = keeps_put [OF w(1) pl q, where c = ?c]
    show ?thesis
    proof (cases "(sct_coastal ?s = 0) \<noteq> (?c = 0)")
      case True
      then show ?thesis using e put keeps_trans [OF k put(1)] c by (simp add: q_def)
    next
      case False
      then have "flag_at w s q = (\<exists>m \<in> nbs w q. m \<noteq> p \<and> is_water (type_at w st m))" using c by (simp add: flag_at_def)
      moreover have "sea_to_land_step w (fst p) (snd p) n s = s" using e False by simp
      ultimately show ?thesis using k by (auto simp: q_def)
    qed
  qed
  note F = fold_nbs [where f = "sea_to_land_step w (fst p) (snd p)", OF step]
  have st': "st' = fold (sea_to_land_step w (fst p) (snd p)) [1..<7] st" "c = update_coastal_flag w (fst p) (snd p) (fst p) (snd p) st'"
    using r by (auto simp: coastal_sea_to_land_def Let_def)
  show k: "keeps w st st'" using F(1) st'(1) by simp
  show "sector w q \<Longrightarrow> flag_at w st' q = (if q \<in> nbs w p then \<exists>m \<in> nbs w q. m \<noteq> p \<and> is_water (type_at w st m) else flag_at w st q)"
    using F(2) st'(1) by simp
  have "type_at w st' m = type_at w st m" if "m \<in> nbs w p" for m using keepsD(2) [OF k nb_sector [OF w(1,3) that]] .
  then show "c \<noteq> 0 \<longleftrightarrow> (\<exists>m \<in> nbs w p. m \<noteq> p \<and> is_water (type_at w st m))"
    using update_coastal_flag_means [OF w(1) keepsD(1) [OF k w(2)] w(3), of "fst p" "snd p"] st'(2) by simp
qed

lemma land_to_sea_flags:
  assumes w: "world_ok w" "placed w st" "sector w p" and r: "coastal_land_to_sea w (fst p) (snd p) st = (c, st')"
  shows "keeps w st st'" and "sector w q \<Longrightarrow> flag_at w st' q = (q \<in> nbs w p \<or> flag_at w st q)"
proof -
  have step: "keeps w st (land_to_sea_step w (fst p) (snd p) n s) \<and>
      (\<forall>q. sector w q \<longrightarrow> flag_at w (land_to_sea_step w (fst p) (snd p) n s) q = (if q = sector_step w n p then True else flag_at w s q))"
    if n: "hexdir n" and k: "keeps w st s" for n s
  proof -
    define q where "q = sector_step w n p"
    have q: "sector w q" using nb_sector [OF w(1,3)] n unfolding nbs_def q_def by blast
    have pl: "placed w s" by (rule keepsD(1) [OF k w(2)])
    let ?s = "getsect w (fst q) (snd q) s"
    have a: "sect_at w (fst p) (snd p) n s = ?s" using sect_at_step [OF w(1,3) n, of s] by (simp add: q_def split_beta)
    have e: "land_to_sea_step w (fst p) (snd p) n s = (if sct_coastal ?s = 0 then putsect (?s\<lparr>sct_coastal := 1\<rparr>) s else s)"
      by (simp add: land_to_sea_step_def a)
    note put = keeps_put [OF w(1) pl q, where c = 1]
    show ?thesis
    proof (cases "sct_coastal ?s = 0")
      case True
      then show ?thesis using e put keeps_trans [OF k put(1)] by (simp add: q_def)
    next
      case False
      then have "flag_at w s q" by (simp add: flag_at_def)
      then show ?thesis using e False k by (simp add: q_def)
    qed
  qed
  note F = fold_nbs [where f = "land_to_sea_step w (fst p) (snd p)" and G = "\<lambda>_. True", OF step]
  have st': "st' = fold (land_to_sea_step w (fst p) (snd p)) [1..<7] st" using r by (simp add: coastal_land_to_sea_def)
  show "keeps w st st'" using F(1) st' by simp
  show "sector w q \<Longrightarrow> flag_at w st' q = (q \<in> nbs w p \<or> flag_at w st q)" using F(2) st' by simp
qed

text \<open>All flags of land sectors say whether there is water next to them. Those of water sectors depend on their past.\<close>

definition coastal_at :: "world \<Rightarrow> 'a sects \<Rightarrow> int \<times> int \<Rightarrow> bool" where
  "coastal_at w st p \<longleftrightarrow> (\<exists>m \<in> nbs w p. is_water (type_at w st m))"

definition coastal_ok :: "world \<Rightarrow> 'a sects \<Rightarrow> bool" where
  "coastal_ok w st \<longleftrightarrow> (\<forall>q. sector w q \<and> \<not> is_water (type_at w st q) \<longrightarrow> flag_at w st q = coastal_at w st q)"

lemma coastal_okD: "coastal_ok w st \<Longrightarrow> sector w q \<Longrightarrow> \<not> is_water (type_at w st q) \<Longrightarrow> flag_at w st q = coastal_at w st q"
  unfolding coastal_ok_def by blast

lemma set_coastal_keeps:
  assumes w: "world_ok w" "placed w st" "sector w p" and sp: "sct_x sp = fst p" "sct_y sp = snd p"
    and r: "set_coastal w sp olddes newdes st = (sp', st')"
  shows "keeps w st st'" and "\<exists>c. sp' = sp\<lparr>sct_coastal := c\<rparr>"
proof -
  have "keeps w st st' \<and> (\<exists>c. sp' = sp\<lparr>sct_coastal := c\<rparr>)"
  proof (cases "is_water newdes = is_water olddes")
    case True
    have "sp = sp\<lparr>sct_coastal := sct_coastal sp\<rparr>" by simp
    moreover have "sp' = sp" "st' = st" using r True by (simp_all add: set_coastal_def)
    ultimately show ?thesis using keeps_refl by metis
  next
    case False
    show ?thesis
    proof (cases "is_water newdes")
      case True
      obtain c where "coastal_land_to_sea w (fst p) (snd p) st = (c, st')" "sp' = sp\<lparr>sct_coastal := c\<rparr>"
        using r False True sp by (auto simp: set_coastal_def split: prod.splits)
      then show ?thesis using land_to_sea_flags(1) [OF w] by blast
    next
      case l: False
      obtain c where "coastal_sea_to_land w (fst p) (snd p) st = (c, st')" "sp' = sp\<lparr>sct_coastal := c\<rparr>"
        using r False l sp by (auto simp: set_coastal_def split: prod.splits)
      then show ?thesis using sea_to_land_flags(1) [OF w] by blast
    qed
  qed
  then show "keeps w st st'" and "\<exists>c. sp' = sp\<lparr>sct_coastal := c\<rparr>" by simp_all
qed

text \<open>After a change between land and sea at \<open>p\<close>, the flags of its neighbours, and its own, are right for the new types.\<close>

lemma set_coastal_changed:
  assumes w: "world_ok w" "placed w st" "sector w p" and sp: "sct_x sp = fst p" "sct_y sp = snd p"
    and r: "set_coastal w sp olddes newdes st = (sp', st')" and ch: "is_water newdes \<noteq> is_water olddes"
  shows "sector w q \<Longrightarrow> q \<notin> nbs w p \<Longrightarrow> flag_at w st' q = flag_at w st q"
    and "sector w q \<Longrightarrow> q \<in> nbs w p \<Longrightarrow> flag_at w st' q = (is_water newdes \<or> (\<exists>m \<in> nbs w q. m \<noteq> p \<and> is_water (type_at w st m)))"
    and "\<not> is_water newdes \<Longrightarrow> sct_coastal sp' \<noteq> 0 \<longleftrightarrow> (\<exists>m \<in> nbs w p. m \<noteq> p \<and> is_water (type_at w st m))"
proof -
  have "(\<forall>q. sector w q \<longrightarrow> flag_at w st' q =
        (if q \<in> nbs w p then is_water newdes \<or> (\<exists>m \<in> nbs w q. m \<noteq> p \<and> is_water (type_at w st m)) else flag_at w st q)) \<and>
      (\<not> is_water newdes \<longrightarrow> (sct_coastal sp' \<noteq> 0 \<longleftrightarrow> (\<exists>m \<in> nbs w p. m \<noteq> p \<and> is_water (type_at w st m))))"
  proof (cases "is_water newdes")
    case True
    obtain c where "coastal_land_to_sea w (fst p) (snd p) st = (c, st')"
      using r ch True sp by (auto simp: set_coastal_def split: prod.splits)
    then show ?thesis using land_to_sea_flags(2) [OF w] True by simp
  next
    case False
    obtain c where c: "coastal_sea_to_land w (fst p) (snd p) st = (c, st')" "sp' = sp\<lparr>sct_coastal := c\<rparr>"
      using r ch False sp by (auto simp: set_coastal_def split: prod.splits)
    have "sct_coastal sp' = c" using c(2) by simp
    then show ?thesis using sea_to_land_flags(2,3) [OF w c(1)] False by simp
  qed
  then have A: "\<forall>q. sector w q \<longrightarrow> flag_at w st' q =
        (if q \<in> nbs w p then is_water newdes \<or> (\<exists>m \<in> nbs w q. m \<noteq> p \<and> is_water (type_at w st m)) else flag_at w st q)"
    and B: "\<not> is_water newdes \<longrightarrow> (sct_coastal sp' \<noteq> 0 \<longleftrightarrow> (\<exists>m \<in> nbs w p. m \<noteq> p \<and> is_water (type_at w st m)))"
    by (rule conjunct1, rule conjunct2)
  show "sector w q \<Longrightarrow> q \<notin> nbs w p \<Longrightarrow> flag_at w st' q = flag_at w st q"
    and "sector w q \<Longrightarrow> q \<in> nbs w p \<Longrightarrow> flag_at w st' q = (is_water newdes \<or> (\<exists>m \<in> nbs w q. m \<noteq> p \<and> is_water (type_at w st m)))"
    using A [THEN spec, of q] by presburger+
  show "\<not> is_water newdes \<Longrightarrow> sct_coastal sp' \<noteq> 0 \<longleftrightarrow> (\<exists>m \<in> nbs w p. m \<noteq> p \<and> is_water (type_at w st m))"
    by (rule B [rule_format])
qed

lemma put_at:
  assumes "world_ok w" "placed w st" "sector w p" and s: "sct_uid s = sctoff w (fst p) (snd p)" "sct_x s = fst p" "sct_y s = snd p"
  shows "placed w (putsect s st)"
    and "sector w q \<Longrightarrow> type_at w (putsect s st) q = (if q = p then sct_type s else type_at w st q)"
    and "sector w q \<Longrightarrow> flag_at w (putsect s st) q = (if q = p then sct_coastal s \<noteq> 0 else flag_at w st q)"
proof -
  note g = getsect_put [OF assms(1,3) _ s(1)]
  show "placed w (putsect s st)"
    unfolding placed_def
  proof (intro allI impI)
    fix x y assume "sector_xy w x y"
    then show "sct_uid (getsect w x y (putsect s st)) = sctoff w x y \<and> sct_x (getsect w x y (putsect s st)) = x \<and> sct_y (getsect w x y (putsect s st)) = y"
      using g [of "(x, y)" st] s assms(2) by (cases "(x, y) = p") (auto simp: placed_def)
  qed
  show "sector w q \<Longrightarrow> type_at w (putsect s st) q = (if q = p then sct_type s else type_at w st q)" using g by (simp add: type_at_def)
  show "sector w q \<Longrightarrow> flag_at w (putsect s st) q = (if q = p then sct_coastal s \<noteq> 0 else flag_at w st q)" using g by (simp add: flag_at_def)
qed

lemma nb_iff: "world_ok w \<Longrightarrow> sector w p \<Longrightarrow> sector w q \<Longrightarrow> q \<in> nbs w p \<longleftrightarrow> p \<in> nbs w q"
  using nb_sym by blast

lemma designate_coastal:
  assumes w: "world_ok w" "2 < world_x w" "placed w st" "coastal_ok w st" and p: "sector_xy w x y"
  shows "placed w (designate w x y des st)" and "coastal_ok w (designate w x y des st)"
    and "sector w q \<Longrightarrow> type_at w (designate w x y des st) q = (if q = (x, y) then des else type_at w st q)"
proof -
  let ?p = "(x, y)" and ?sp = "getsect w x y st"
  obtain sp' st' where r: "set_coastal w ?sp (sct_type ?sp) des st = (sp', st')" by fastforce
  have s: "sector w ?p" "sct_x ?sp = fst ?p" "sct_y ?sp = snd ?p" using w(3) p by (simp_all add: placed_def)
  note k = set_coastal_keeps [OF w(1,3) s r]
  obtain c where c: "sp' = ?sp\<lparr>sct_coastal := c\<rparr>" using k(2) by blast
  have d: "designate w x y des st = putsect (sp'\<lparr>sct_type := des\<rparr>) st'" using r by (simp add: designate_def Let_def)
  have u: "sct_uid (sp'\<lparr>sct_type := des\<rparr>) = sctoff w (fst ?p) (snd ?p)" "sct_x (sp'\<lparr>sct_type := des\<rparr>) = fst ?p"
    "sct_y (sp'\<lparr>sct_type := des\<rparr>) = snd ?p" using c s w(3) p by (simp_all add: placed_def)
  note put = put_at [OF w(1) keepsD(1) [OF k(1) w(3)] s(1) u]
  show "placed w (designate w x y des st)" using put(1) d by simp
  have ty: "type_at w (designate w x y des st) q = (if q = ?p then des else type_at w st q)" if "sector w q" for q
    using put(2) [OF that] keepsD(2) [OF k(1) that] d by simp
  then show "sector w q \<Longrightarrow> type_at w (designate w x y des st) q = (if q = ?p then des else type_at w st q)" .
  have fl: "flag_at w (designate w x y des st) q = (if q = ?p then sct_coastal sp' \<noteq> 0 else flag_at w st' q)" if "sector w q" for q
    using put(3) [OF that] d by simp
  have old: "type_at w st ?p = sct_type ?sp" by (simp add: type_at_def)
  have co: "coastal_at w (designate w x y des st) q \<longleftrightarrow>
      (?p \<in> nbs w q \<and> is_water des) \<or> (\<exists>m \<in> nbs w q. m \<noteq> ?p \<and> is_water (type_at w st m))" if "sector w q" for q
    using ty nb_sector [OF w(1) that] by (auto simp: coastal_at_def)
  have co': "coastal_at w st q \<longleftrightarrow> (?p \<in> nbs w q \<and> is_water (sct_type ?sp)) \<or> (\<exists>m \<in> nbs w q. m \<noteq> ?p \<and> is_water (type_at w st m))" for q
    unfolding coastal_at_def by (metis old)
  show "coastal_ok w (designate w x y des st)"
    unfolding coastal_ok_def
  proof (intro allI impI, elim conjE)
    fix q assume q: "sector w q" "\<not> is_water (type_at w (designate w x y des st) q)"
    have nq: "?p \<in> nbs w q \<longleftrightarrow> q \<in> nbs w ?p" by (rule nb_iff [OF w(1) q(1) s(1)])
    have np: "?p \<notin> nbs w ?p" using nb_other [OF w(1,2) s(1)] by blast
    show "flag_at w (designate w x y des st) q = coastal_at w (designate w x y des st) q"
    proof (cases "is_water des = is_water (sct_type ?sp)")
      case True
      then have "set_coastal w ?sp (sct_type ?sp) des st = (?sp, st)" by (simp add: set_coastal_def)
      then have "(?sp, st) = (sp', st')" using r by (rule trans [OF sym])
      then have "sp' = ?sp" "st' = st" by (metis prod.inject)+
      then have "flag_at w (designate w x y des st) q = flag_at w st q" using fl [OF q(1)] by (auto simp: flag_at_def)
      also have "\<dots> = coastal_at w st q"
      proof (rule coastal_okD [OF w(4) q(1)])
        show "\<not> is_water (type_at w st q)" using q(2) ty [OF q(1)] True old by (cases "q = ?p") simp_all
      qed
      also have "\<dots> = coastal_at w (designate w x y des st) q" using co [OF q(1)] co' True by simp
      finally show ?thesis .
    next
      case False
      note ch = set_coastal_changed [OF w(1,3) s r False]
      show ?thesis
      proof (cases "q = ?p")
        case True
        then have "\<not> is_water des" using q ty [OF q(1)] by simp
        then show ?thesis using True fl [OF q(1)] ch(3) co [OF q(1)] np by auto
      next
        case ne: False
        show ?thesis
        proof (cases "q \<in> nbs w ?p")
          case True
          then show ?thesis using ne fl [OF q(1)] ch(2) [OF q(1) True] co [OF q(1)] nq by simp
        next
          case nn: False
          have "flag_at w (designate w x y des st) q = flag_at w st q" using ne fl [OF q(1)] ch(1) [OF q(1) nn] by simp
          also have "\<dots> = coastal_at w st q" using coastal_okD [OF w(4) q(1)] q(2) ty [OF q(1)] ne by simp
          finally show ?thesis using co [OF q(1)] co' nn nq by simp
        qed
      qed
    qed
  qed
qed

text \<open>\<open>swap\<close> writes one sector before it looks at the coasts, the other after the first look.\<close>

lemma swap_coastal:
  assumes w: "world_ok w" "2 < world_x w" "placed w st" "coastal_ok w st" and s: "sector w a" "sector w b"
  defines "fin \<equiv> swap_sectors w (getsect w (fst a) (snd a) st) (getsect w (fst b) (snd b) st) st"
  shows "placed w fin" and "coastal_ok w fin"
    and "sector w q \<Longrightarrow> type_at w fin q = (if q = a then type_at w st b else if q = b then type_at w st a else type_at w st q)"
proof -
  let ?sa = "getsect w (fst a) (snd a) st" and ?sb = "getsect w (fst b) (snd b) st"
  define sa where "sa = ?sa\<lparr>sct_x := fst b, sct_y := snd b, sct_uid := sctoff w (fst b) (snd b), sct_dist_x := fst b,
    sct_dist_y := snd b, sct_coastal := sct_coastal ?sb\<rparr>"
  define sb where "sb = ?sb\<lparr>sct_x := fst a, sct_y := snd a, sct_uid := sctoff w (fst a) (snd a), sct_dist_x := fst a,
    sct_dist_y := snd a, sct_coastal := sct_coastal ?sa\<rparr>"
  define st1 where "st1 = putsect sb st"
  obtain sa2 st2 where r2: "set_coastal w sa (sct_type sb) (sct_type sa) st1 = (sa2, st2)" by fastforce
  define st3 where "st3 = putsect sa2 st2"
  define sb3 where "sb3 = getsect w (fst a) (snd a) st3"
  obtain sb4 st4 where r4: "set_coastal w sb3 (sct_type sa2) (sct_type sb3) st3 = (sb4, st4)" by fastforce
  have xy: "sct_x ?sa = fst a" "sct_y ?sa = snd a" "sct_uid ?sa = sctoff w (fst a) (snd a)"
    "sct_x ?sb = fst b" "sct_y ?sb = snd b" "sct_uid ?sb = sctoff w (fst b) (snd b)" using w(3) s by (simp_all add: placed_def)
  have fa: "sct_x sa = fst b" "sct_y sa = snd b" "sct_uid sa = sctoff w (fst b) (snd b)" "sct_type sa = type_at w st a"
    "sct_coastal sa = sct_coastal ?sb" by (simp_all add: sa_def type_at_def)
  have fb: "sct_x sb = fst a" "sct_y sb = snd a" "sct_uid sb = sctoff w (fst a) (snd a)" "sct_type sb = type_at w st b"
    "sct_coastal sb = sct_coastal ?sa" by (simp_all add: sb_def type_at_def)
  have fin: "fin = putsect sb4 st4"
    unfolding fin_def swap_sectors_def Let_def xy
    unfolding sa_def [symmetric] sb_def [symmetric] st1_def [symmetric]
    by (simp only: r2 fb(1,2) prod.case st3_def [symmetric] sb3_def [symmetric] r4)
  note p1 = put_at [OF w(1,3) s(1) fb(3,1,2), folded st1_def]
  note k2 = set_coastal_keeps [OF w(1) p1(1) s(2) fa(1,2) r2]
  obtain c2 where c2: "sa2 = sa\<lparr>sct_coastal := c2\<rparr>" using k2(2) by blast
  have f2: "sct_x sa2 = fst b" "sct_y sa2 = snd b" "sct_uid sa2 = sctoff w (fst b) (snd b)" "sct_type sa2 = type_at w st a"
    using c2 fa by simp_all
  note p3 = put_at [OF w(1) keepsD(1) [OF k2(1) p1(1)] s(2) f2(3,1,2), folded st3_def]
  have t3: "type_at w st3 q = (if q = b then type_at w st a else if q = a then type_at w st b else type_at w st q)" if "sector w q" for q
    using p3(2) [OF that] keepsD(2) [OF k2(1) that] p1(2) [OF that] f2(4) fb(4) by simp
  have f3: "sct_x sb3 = fst a" "sct_y sb3 = snd a" "sct_uid sb3 = sctoff w (fst a) (snd a)" "sct_type sb3 = type_at w st b"
    using p3(1) s(1) t3 [OF s(1)] by (auto simp: placed_def sb3_def type_at_def)
  note k4 = set_coastal_keeps [OF w(1) p3(1) s(1) f3(1,2) r4]
  obtain c4 where c4: "sb4 = sb3\<lparr>sct_coastal := c4\<rparr>" using k4(2) by blast
  have f4: "sct_x sb4 = fst a" "sct_y sb4 = snd a" "sct_uid sb4 = sctoff w (fst a) (snd a)" "sct_type sb4 = type_at w st b"
    using c4 f3 by simp_all
  note p5 = put_at [OF w(1) keepsD(1) [OF k4(1) p3(1)] s(1) f4(3,1,2), folded fin]
  show "placed w fin" by (rule p5(1))
  have ty: "type_at w fin q = (if q = a then type_at w st b else if q = b then type_at w st a else type_at w st q)" if "sector w q" for q
    using p5(2) [OF that] keepsD(2) [OF k4(1) that] t3 [OF that] f4(4) by simp
  then show "sector w q \<Longrightarrow> type_at w fin q = (if q = a then type_at w st b else if q = b then type_at w st a else type_at w st q)" .
  have fl: "flag_at w fin q = (if q = a then sct_coastal sb4 \<noteq> 0 else flag_at w st4 q)" if "sector w q" for q by (rule p5(3) [OF that])
  have fl3: "flag_at w st3 q = (if q = b then sct_coastal sa2 \<noteq> 0 else flag_at w st2 q)" if "sector w q" for q by (rule p3(3) [OF that])
  have fl1: "flag_at w st1 q = flag_at w st q" if "sector w q" for q using p1(3) [OF that] fb(5) by (simp add: flag_at_def)
  have ok: "flag_at w st q = coastal_at w st q" if "sector w q" "\<not> is_water (type_at w st q)" for q
    by (rule coastal_okD [OF w(4) that])
  show "coastal_ok w fin"
  proof (cases "is_water (type_at w st a) = is_water (type_at w st b)")
    case True
    then have "(sa, st1) = (sa2, st2)" "(sb3, st3) = (sb4, st4)" using r2 r4 fa fb f2 f3 by (simp_all add: set_coastal_def)
    then have e: "sa2 = sa" "st2 = st1" "sb4 = sb3" "st4 = st3" by (metis prod.inject)+
    have wt: "is_water (type_at w fin q) = is_water (type_at w st q)" if "sector w q" for q using ty [OF that] True by simp
    have "flag_at w fin q = flag_at w st q" if q: "sector w q" for q
    proof -
      have "flag_at w fin q = flag_at w st3 q" using fl [OF q] e by (simp add: flag_at_def sb3_def)
      also have "\<dots> = flag_at w st q" using fl3 [OF q] fl1 [OF q] e fa(5) by (simp add: flag_at_def)
      finally show ?thesis .
    qed
    moreover have "coastal_at w fin q = coastal_at w st q" if "sector w q" for q
      unfolding coastal_at_def using wt nb_sector [OF w(1) that] by blast
    ultimately show ?thesis using ok wt unfolding coastal_ok_def by blast
  next
    case False
    have ch2: "is_water (sct_type sa) \<noteq> is_water (sct_type sb)" "is_water (sct_type sb3) \<noteq> is_water (sct_type sa2)"
      using False fa fb f2 f3 by auto
    note d2 = set_coastal_changed [OF w(1) p1(1) s(2) fa(1,2) r2 ch2(1), unfolded fa(4)]
    note d4 = set_coastal_changed [OF w(1) p3(1) s(1) f3(1,2) r4 ch2(2), unfolded f3(4)]
    have ab: "a \<noteq> b" using False by auto
    show ?thesis
      unfolding coastal_ok_def
    proof (intro allI impI, elim conjE)
      fix q assume q: "sector w q" "\<not> is_water (type_at w fin q)"
      note sq = nb_sector [OF w(1) q(1)]
      have na: "a \<in> nbs w q \<longleftrightarrow> q \<in> nbs w a" and nb: "b \<in> nbs w q \<longleftrightarrow> q \<in> nbs w b"
        using nb_iff [OF w(1) q(1)] s by blast+
      have co: "coastal_at w fin q \<longleftrightarrow> (a \<in> nbs w q \<and> is_water (type_at w st b)) \<or> (\<exists>m \<in> nbs w q. m \<noteq> a \<and> is_water (type_at w st3 m))"
        unfolding coastal_at_def using ty t3 sq s ab by (metis (no_types, lifting))
      have co1: "(\<exists>m \<in> nbs w q. m \<noteq> a \<and> is_water (type_at w st3 m)) \<longleftrightarrow>
          (b \<in> nbs w q \<and> is_water (type_at w st a)) \<or> (\<exists>m \<in> nbs w q. m \<noteq> a \<and> m \<noteq> b \<and> is_water (type_at w st m))"
        using t3 sq s ab by (metis (no_types, lifting))
      have co2: "(\<exists>m \<in> nbs w q. m \<noteq> b \<and> is_water (type_at w st1 m)) \<longleftrightarrow>
          (a \<in> nbs w q \<and> is_water (type_at w st b)) \<or> (\<exists>m \<in> nbs w q. m \<noteq> a \<and> m \<noteq> b \<and> is_water (type_at w st m))"
        using p1(2) fb(4) sq s ab by (metis (no_types, lifting))
      show "flag_at w fin q = coastal_at w fin q"
      proof (cases "q = a")
        case True
        have "\<not> is_water (type_at w st b)" using q True ty [OF s(1)] by simp
        then show ?thesis using True fl [OF q(1)] d4(3) co by simp
      next
        case qa: False
        show ?thesis
        proof (cases "q \<in> nbs w a")
          case True
          then show ?thesis using qa fl [OF q(1)] d4(2) [OF q(1)] co na by simp
        next
          case nna: False
          then have f: "flag_at w fin q = flag_at w st3 q" using qa fl [OF q(1)] d4(1) [OF q(1)] by simp
          show ?thesis
          proof (cases "q = b")
            case True
            have "\<not> is_water (type_at w st a)" using q True ab ty [OF s(2)] by simp
            then show ?thesis using True f fl3 [OF q(1)] d2(3) co co1 co2 na nna by simp
          next
            case qb: False
            show ?thesis
            proof (cases "q \<in> nbs w b")
              case True
              then show ?thesis using f fl3 [OF q(1)] qb d2(2) [OF q(1)] co co1 co2 na nb nna by simp
            next
              case nnb: False
              have "flag_at w fin q = flag_at w st q" using f fl3 [OF q(1)] qb d2(1) [OF q(1) nnb] fl1 [OF q(1)] by simp
              also have "\<dots> = coastal_at w st q" using ok q ty [OF q(1)] qa qb by simp
              also have "\<dots> = (\<exists>m \<in> nbs w q. m \<noteq> a \<and> m \<noteq> b \<and> is_water (type_at w st m))"
              proof -
                have "m \<noteq> a \<and> m \<noteq> b" if "m \<in> nbs w q" for m using that na nb nna nnb by auto
                then show ?thesis unfolding coastal_at_def by blast
              qed
              finally show ?thesis using co co1 na nb nna nnb by simp
            qed
          qed
        qed
      qed
    qed
  qed
qed

section \<open>The invariant\<close>

text \<open>
  C40. Coastal flags stay right: if every land sector's flag says whether there is water, a bridge span or a bridge tower next to it, then so
  it does after any sector's type is changed with \<open>set_coastal\<close>, and after two sectors are swapped. Sectors stay where they are, and only the
  types asked for change.
\<close>

theorem coastal_flags_kept:
  assumes "world_ok w" "2 < world_x w" "placed w st" "coastal_ok w st" "sector_xy w x y" "sector_xy w x' y'"
  shows "(let st' = designate w x y des st
      in placed w st' \<and> coastal_ok w st'
         \<and> (\<forall>q. sector w q \<longrightarrow> type_at w st' q = (if q = (x, y) then des else type_at w st q)))
    \<and> (let st' = swap_sectors w (getsect w x y st) (getsect w x' y' st) st
      in placed w st' \<and> coastal_ok w st'
         \<and> (\<forall>q. sector w q \<longrightarrow> type_at w st' q =
              (if q = (x, y) then type_at w st (x', y') else if q = (x', y') then type_at w st (x, y) else type_at w st q)))"
proof -
  note d = designate_coastal [OF assms(1-5), where des = des]
  have s: "sector w (x, y)" "sector w (x', y')" using assms by simp_all
  note e = swap_coastal [OF assms(1-4) s, unfolded fst_conv snd_conv]
  show ?thesis unfolding Let_def using d e by blast
qed

text \<open>A world of land, with one sector turned to water, and then swapped with another.\<close>

definition land_only :: "world \<Rightarrow> unit sects" where
  "land_only w = (\<lambda>u. case sctoff2xy w u of (x, y) \<Rightarrow>
     \<lparr>sct_uid = u, sct_x = x, sct_y = y, sct_type = 15, sct_coastal = 0, sct_dist_x = x, sct_dist_y = y, sct_rest = ()\<rparr>)"

lemma land_only_ok: "world_ok w \<Longrightarrow> placed w (land_only w)" "coastal_ok w (land_only w)"
proof -
  show "placed w (land_only w)" if "world_ok w"
    unfolding placed_def
  proof (intro allI impI)
    fix x y assume s: "sector_xy w x y"
    have "sctoff2xy w (sctoff w x y) = (x, y)" using sctoff2xy_XYOFFSET [OF that s] sctoff_sector [OF that s] by simp
    then show "sct_uid (getsect w x y (land_only w)) = sctoff w x y \<and> sct_x (getsect w x y (land_only w)) = x \<and> sct_y (getsect w x y (land_only w)) = y"
      by (simp add: getsect_def land_only_def)
  qed
  have "\<not> is_water (type_at w (land_only w) q)" "\<not> flag_at w (land_only w) q" for q
    by (simp_all add: type_at_def flag_at_def getsect_def land_only_def is_water_def SCT_WATER_def SCT_BSPAN_def SCT_BTOWER_def split: prod.split)
  then show "coastal_ok w (land_only w)" by (simp add: coastal_ok_def coastal_at_def)
qed

lemma coastal_flags_kept_witness:
  "coastal_ok pf_world (designate pf_world 0 0 SCT_WATER (land_only pf_world))
    \<and> type_at pf_world (designate pf_world 0 0 SCT_WATER (land_only pf_world)) (0, 0) = SCT_WATER"
proof -
  have w: "world_ok pf_world" "2 < world_x pf_world" "sector_xy pf_world 0 0"
    by (rule pf_example_run) (simp_all add: pf_world_def sector_xy_def)
  show ?thesis using coastal_flags_kept [OF w(1,2) land_only_ok(1) [OF w(1)] land_only_ok(2) w(3) w(3), where des = SCT_WATER] w by (simp add: Let_def)
qed

end
