(* ===== verification/Spec2Isabelle.thy ===== *)
theory Spec2Isabelle
  imports Hexmap PathSearch Cargo Match Commands Login FileTable Queue IoQueue Io Output Ring Client Lwp Selection Coastal
begin

text \<open>
  A model of the core of the Empire server and its client, with the theorems that make it correct.

  \<^bold>\<open>The program.\<close> Empire is a game played on a hexagonal torus of sectors. The server (\<open>src/src/server\<close>, \<open>src/src/lib\<close>) keeps the
  state of the game in tables of fixed-size elements, files behind a cache. Each player is served by a cooperative thread: it logs in, reads
  lines from its connection, parses them, matches a command of the command table, selects sectors and units with selectors and
  conditions, reads and writes their elements, and prints to the connection. The client (\<open>src/src/client\<close>) sends what its user types and
  redirects what it receives.

  \<^bold>\<open>Theories and sources.\<close> Names of definitions are those of the functions and types of the sources, with suffixes for their loops.

  \<^item> \<open>Prelude\<close>: facts on lists, machine integers and linked lists of numbers that the components share; the locale \<open>cursor\<close> of loops along
    such a list.
  \<^item> \<open>Hexmap\<close>: coordinates, sector numbers, ranges, distance and directions (\<open>include/xy.h\<close>, \<open>lib/common/xy.c\<close>, \<open>mapdist.c\<close>,
    \<open>lib/global/dir.c\<close>). The world's size is the record \<open>world\<close>; coordinates are 16 bits wide.
  \<^item> \<open>PathFind\<close>, \<open>PathSearch\<close>: the path finder (\<open>lib/common/pathfind.c\<close>): its heap and map as arrays; the abstract search it refines
    is a locale, whose instance is the map of the game.
  \<^item> \<open>Cargo\<close>: the lists of what ships, planes and land units carry (\<open>lib/common/cargo.c\<close>), links as indices into arrays.
  \<^item> \<open>Match\<close>: abbreviations, the look-up of commands and the splitting of lines (\<open>lib/common/stmtch.c\<close>, \<open>lib/subs/mtch.c\<close>,
    \<open>lib/gen/parse.c\<close>).
  \<^item> \<open>Commands\<close>: the command table, capabilities and dispatching (\<open>lib/player/empmod.c\<close>, \<open>empdis.c\<close>, \<open>dispatch.c\<close>, \<open>init_nats.c\<close>). A
    command's handler is a parameter.
  \<^item> \<open>Login\<close>: the login commands and the interleaving of sessions (\<open>lib/player/login.c\<close>, \<open>accept.c\<close>, \<open>nat.c\<close>) as a step relation.
  \<^item> \<open>FileTable\<close>: the tables of the game (\<open>lib/common/file.c\<close>): cache window, reading, writing, extending, truncating, sequence
    numbers, opening and closing; which system calls fail is part of the state.
  \<^item> \<open>Queue\<close>, \<open>IoQueue\<close>, \<open>Io\<close>: linked queues in memory (\<open>lib/gen/queue.c\<close>), queues of bytes (\<open>ioqueue.c\<close>) and connections (\<open>io.c\<close>);
    what the network answers is a parameter.
  \<^item> \<open>Output\<close>: printing to a player and reading lines from one (\<open>lib/subs/pr.c\<close>, \<open>lib/player/recvclient.c\<close>).
  \<^item> \<open>Ring\<close>, \<open>Client\<close>: the client's ring and line buffers, its handling of what the server sends, and what it lets the server
    redirect and execute (\<open>src/client\<close>).
  \<^item> \<open>Lwp\<close>: the threads: scheduler, sleeping, selecting, signals and read-write locks (\<open>lib/lwp\<close>), as a step relation over the
    threads' states; queues are linked through the threads.
  \<^item> \<open>Selector\<close>, \<open>SelTables\<close>: conditions on game objects (\<open>lib/subs/nstr.c\<close>, \<open>lib/common/nstreval.c\<close>, \<open>type.c\<close>, \<open>cnumb.c\<close>) and the tables
    of selectors (\<open>lib/common/nsc.c\<close>), entry by entry.
  \<^item> \<open>Selection\<close>: reading selections (\<open>lib/subs/sarg.c\<close>, \<open>natarg.c\<close>) and the iterators over sectors and items (\<open>snxtsct.c\<close>, \<open>nxtsct.c\<close>,
    \<open>snxtitem.c\<close>, \<open>nxtitem.c\<close>). It composes \<open>Hexmap\<close>, \<open>Cargo\<close>, \<open>FileTable\<close> and \<open>Selector\<close>: what the iterators need of a table is the locale
    \<open>elements\<close>, interpreted on \<open>ef_read\<close>.
  \<^item> \<open>Coastal\<close>: the coastal flags of sectors, as types change and sectors are swapped (\<open>lib/subs/coastal.c\<close>, \<open>lib/commands/swap.c\<close>).

  \<^bold>\<open>What is shown.\<close> Geometry: sector numbers are a bijection, the distance is the length of a shortest walk, relative coordinates and
  areas are read back as they are shown. Path finder: it ends and finds a cheapest route, inside its arrays. Cargo: the linked
  lists implement lists of units, and initialising them ends with lists that agree with the units. Commands: who may use which, what
  is charged, and that names are matched without surprises. Login: whoever plays has given the password. Tables: reading through the
  cache is transparent, writing changes one element, conflicting writers are reported, closing and opening keeps the elements.
  Queues, connections, output, ring and client: each implements its abstract queue or stream, lines keep their identifiers from
  \<open>pr\<close> to the client, and the client obeys only its user. Threads: no thread gets lost, locks exclude as long as they report nothing,
  yielding runs the best thread. Selectors: compiled conditions are well typed for every table, a mortal's never look at what is the
  deity's, and comparisons mean what they say. Iterators: they give exactly what is selected, each once, and end. Coasts: the flags of land
  sectors stay right.

  \<^bold>\<open>Errors, bounds and fuel.\<close> An early return is a branch of a sum or option; a report by \<open>CANT_HAPPEN\<close> and undefined behaviour are None,
  or counted where the program goes on. Loops that could run forever in C are \<open>partial_function (option)\<close>, and that they return is
  proved; other loops are recursive functions with a termination proof. No model uses fuel. Integers wrap where that matters
  (coordinates, sequence numbers, the counters of ring buffers and of the path finder's visits); other sums are of small numbers
  and are integers.

  \<^bold>\<open>Not modelled.\<close> The update (\<open>lib/update\<close>) and the movement, combat and supply code of \<open>lib/subs\<close> and \<open>lib/common\<close> compute with
  floating-point numbers and random numbers, for which the library at hand has no theory. The commands (\<open>lib/commands\<close>) are a parameter of
  \<open>dispatch\<close>. Configuration and dump files, news, telegrams, journal and log are input and output of texts. Setting up sockets,
  processes and terminals is the operating system's. The selectors that compute on units are numbers of the environment.
\<close>

end
